(* ===== verification/Prelude.thy ===== *)
theory Prelude
  imports Main "HOL-Library.Word" "HOL-Library.Sublist" "HOL-Library.List_Lexorder"
    "HOL-Library.Char_ord" "HOL-Library.Product_Lexorder"
begin

text \<open>
  Shared vocabulary of the development: Rust's machine integers as words with their checked and
  saturating operations, Rust's byte strings as \<^typ>\<open>string\<close>, the decimal text of an unsigned
  integer, ASCII case folding, the JSON value of \<open>serde_json\<close>, and the interfaces (locales) that
  several components share: a transition system with an invariant, a first-in-first-out channel,
  and a text codec.
\<close>

section \<open>Collections of rewrite rules\<close>

named_theorems rust_arith \<open>reading the checked and saturating operations through unat\<close>
named_theorems op_defs \<open>the definitions of a component's operations\<close>

section \<open>Machine integers\<close>

type_synonym u8 = "8 word"
type_synonym u16 = "16 word"
type_synonym u32 = "32 word"
type_synonym u64 = "64 word"
type_synonym usize = "64 word"

definition checked_add :: "'a::len word \<Rightarrow> 'a word \<Rightarrow> 'a word option" where
  "checked_add a b = (if unat a + unat b < 2 ^ LENGTH('a) then Some (a + b) else None)"

definition saturating_add :: "'a::len word \<Rightarrow> 'a word \<Rightarrow> 'a word" where
  "saturating_add a b = (if unat a + unat b < 2 ^ LENGTH('a) then a + b else - 1)"

definition saturating_sub :: "'a::len word \<Rightarrow> 'a word \<Rightarrow> 'a word" where
  "saturating_sub a b = (if b \<le> a then a - b else 0)"

definition saturating_mul :: "'a::len word \<Rightarrow> 'a word \<Rightarrow> 'a word" where
  "saturating_mul a b = (if unat a * unat b < 2 ^ LENGTH('a) then a * b else - 1)"

lemma checked_add_Some [rust_arith]:
  "checked_add a b = Some c \<longleftrightarrow> unat c = unat a + unat b" for a :: "'a::len word"
proof
  assume "checked_add a b = Some c"
  then show "unat c = unat a + unat b"
    by (auto simp: checked_add_def unat_word_ariths split: if_splits)
next
  assume *: "unat c = unat a + unat b"
  then have "unat a + unat b < 2 ^ LENGTH('a)" by (metis unsigned_less)
  moreover from this * have "c = a + b" by (simp add: unat_word_ariths word_unat_eq_iff)
  ultimately show "checked_add a b = Some c" by (simp add: checked_add_def)
qed

lemma checked_add_None [rust_arith]:
  "checked_add a b = None \<longleftrightarrow> 2 ^ LENGTH('a) \<le> unat a + unat b" for a :: "'a::len word"
  by (auto simp: checked_add_def)

lemma unat_minus_one_word [rust_arith]: "unat (- 1 :: 'a::len word) = 2 ^ LENGTH('a) - 1"
  by (simp add: unsigned_minus_1_eq_mask mask_eq_exp_minus_1)

lemma unat_saturating_add [rust_arith]:
  "unat (saturating_add a b) = min (unat a + unat b) (2 ^ LENGTH('a) - 1)" for a :: "'a::len word"
  by (auto simp: saturating_add_def unat_word_ariths unat_minus_one_word)

lemma unat_saturating_sub [rust_arith]:
  "unat (saturating_sub a b) = unat a - unat b" for a :: "'a::len word"
  by (auto simp: saturating_sub_def unat_sub word_le_nat_alt)

lemma unat_saturating_mul [rust_arith]:
  "unat (saturating_mul a b) = min (unat a * unat b) (2 ^ LENGTH('a) - 1)" for a :: "'a::len word"
  by (auto simp: saturating_mul_def unat_word_ariths unat_minus_one_word)

lemma saturating_add_comm: "saturating_add a b = saturating_add b a" for a :: "'a::len word"
  by (simp add: saturating_add_def add.commute)

lemma min_add_assoc: "min (min (x + y) m + z) m = min (x + min (y + z) m) m" for m :: nat
  by arith

lemma saturating_add_assoc:
  "saturating_add (saturating_add a b) c = saturating_add a (saturating_add b c)"
  for a :: "'a::len word"
  unfolding word_unat_eq_iff by (simp only: unat_saturating_add min_add_assoc)

lemma saturating_add_0 [simp]: "saturating_add a 0 = a" "saturating_add 0 a = a"
  for a :: "'a::len word"
  by (simp_all add: saturating_add_def)

lemma unat_sub_le [rust_arith]: "unat b \<le> unat a \<Longrightarrow> unat (a - b) = unat a - unat b"
  for a :: "'a::len word"
  by (simp add: unat_sub word_le_nat_alt)

lemma unat_add_fits [rust_arith]:
  "unat a + unat b < 2 ^ LENGTH('a) \<Longrightarrow> unat (a + b) = unat a + unat b" for a :: "'a::len word"
  by (simp add: unat_word_ariths)


section \<open>Counting loops\<close>

text \<open>The invariant rule for \<open>for k in m..n\<close>: a fold over the indices.\<close>

lemma fold_upt_invariant:
  assumes "P m x" and "m \<le> n" and "\<And>k x. m \<le> k \<Longrightarrow> k < n \<Longrightarrow> P k x \<Longrightarrow> P (Suc k) (f k x)"
  shows "P n (fold f [m..<n] x)"
proof -
  have "m \<le> k \<Longrightarrow> k \<le> n \<Longrightarrow> P k (fold f [m..<k] x)" for k
  proof (induction k)
    case (Suc k)
    then show ?case using assms by (cases "m = Suc k") auto
  qed (use assms(1) in simp)
  then show ?thesis using assms(2) by simp
qed

lemma set_map_filter: "set (List.map_filter f xs) = {y. \<exists>x \<in> set xs. f x = Some y}"
  by (force simp: List.map_filter_def)

section \<open>Strings\<close>

text \<open>
  A Rust string is its UTF-8 bytes, one \<^typ>\<open>char\<close> each. The ASCII operations of the standard
  library touch only the bytes below 128.
\<close>

definition is_ascii_digit :: "char \<Rightarrow> bool" where
  "is_ascii_digit c \<longleftrightarrow> 48 \<le> (of_char c :: nat) \<and> (of_char c :: nat) \<le> 57"

definition ascii_lower :: "char \<Rightarrow> char" where
  "ascii_lower c = (let n = (of_char c :: nat) in if 65 \<le> n \<and> n \<le> 90 then char_of (n + 32) else c)"

definition to_ascii_lowercase :: "string \<Rightarrow> string" where
  "to_ascii_lowercase s = map ascii_lower s"

definition eq_ignore_ascii_case :: "string \<Rightarrow> string \<Rightarrow> bool" where
  "eq_ignore_ascii_case s t \<longleftrightarrow> to_ascii_lowercase s = to_ascii_lowercase t"

lemma length_to_ascii_lowercase [simp]: "length (to_ascii_lowercase s) = length s"
  by (simp add: to_ascii_lowercase_def)

lemma ascii_lower_idem [simp]: "ascii_lower (ascii_lower c) = ascii_lower c"
  by (auto simp: ascii_lower_def Let_def)

lemma to_ascii_lowercase_idem [simp]:
  "to_ascii_lowercase (to_ascii_lowercase s) = to_ascii_lowercase s"
  by (simp add: to_ascii_lowercase_def)

text \<open>
  \<open>str::chars\<close> on valid UTF-8: a character is a byte that is no continuation byte (\<open>10xxxxxx\<close>)
  with the continuation bytes that follow it.
\<close>

definition is_continuation :: "char \<Rightarrow> bool" where
  "is_continuation c \<longleftrightarrow> 128 \<le> (of_char c :: nat) \<and> (of_char c :: nat) < 192"

function utf8_chars :: "string \<Rightarrow> string list" where
  "utf8_chars [] = []"
| "utf8_chars (c # cs) =
     (c # takeWhile is_continuation cs) # utf8_chars (dropWhile is_continuation cs)"
  by pat_completeness auto
termination
  by (relation "measure length") (auto simp: le_imp_less_Suc length_dropWhile_le)

lemma concat_utf8_chars [simp]: "concat (utf8_chars s) = s"
  by (induction s rule: utf8_chars.induct) auto

text \<open>\<open>[String]::join\<close>: the parts with a separator between neighbours.\<close>

fun join :: "string list \<Rightarrow> string \<Rightarrow> string" where
  "join [] sep = []"
| "join [s] sep = s"
| "join (s # t # ss) sep = s @ sep @ join (t # ss) sep"

text \<open>The quotation marks of the source's message texts.\<close>

abbreviation sq :: string where "sq \<equiv> [CHR 0x27]"
abbreviation dq :: string where "dq \<equiv> [CHR 0x22]"

subsection \<open>Decimal text of an unsigned integer\<close>

definition digit_char :: "nat \<Rightarrow> char" where
  "digit_char d = char_of (48 + d)"

definition digit_val :: "char \<Rightarrow> nat" where
  "digit_val c = of_char c - 48"

fun show_nat :: "nat \<Rightarrow> string" where
  "show_nat n = (if n < 10 then [digit_char n] else show_nat (n div 10) @ [digit_char (n mod 10)])"

declare show_nat.simps [simp del]

text \<open>
  \<open>u64::from_str\<close> on a string of ASCII digits: each step multiplies by ten and adds the digit with
  overflow checks, so it fails exactly when the running value leaves the type.
\<close>

fun parse_digits :: "nat \<Rightarrow> nat \<Rightarrow> string \<Rightarrow> nat option" where
  "parse_digits bound acc [] = Some acc"
| "parse_digits bound acc (c # cs) =
     (let v = acc * 10 + digit_val c in if v < bound then parse_digits bound v cs else None)"

definition dec_val :: "nat \<Rightarrow> string \<Rightarrow> nat" where
  "dec_val acc s = foldl (\<lambda>v c. v * 10 + digit_val c) acc s"

lemma dec_val_simps [simp]:
  "dec_val acc [] = acc"
  "dec_val acc (c # cs) = dec_val (acc * 10 + digit_val c) cs"
  "dec_val acc (s @ t) = dec_val (dec_val acc s) t"
  by (simp_all add: dec_val_def)

lemma dec_val_mono: "acc \<le> dec_val acc s"
proof (induction s arbitrary: acc)
  case (Cons c cs)
  have "acc \<le> acc * 10 + digit_val c" by simp
  also have "\<dots> \<le> dec_val (acc * 10 + digit_val c) cs" by (rule Cons.IH)
  finally show ?case by simp
qed simp

lemma parse_digits_dec_val:
  "acc < bound \<Longrightarrow>
     parse_digits bound acc s = (if dec_val acc s < bound then Some (dec_val acc s) else None)"
proof (induction s arbitrary: acc)
  case (Cons c cs)
  let ?v = "acc * 10 + digit_val c"
  show ?case
  proof (cases "?v < bound")
    case False
    then show ?thesis using dec_val_mono [of ?v cs] by simp
  qed (simp add: Cons.IH)
qed simp

lemma digit_val_char [simp]: "d < 10 \<Longrightarrow> digit_val (digit_char d) = d"
  by (simp add: digit_val_def digit_char_def)

lemma is_ascii_digit_char [simp]: "d < 10 \<Longrightarrow> is_ascii_digit (digit_char d)"
  by (simp add: is_ascii_digit_def digit_char_def)

lemma dec_val_show_nat [simp]: "dec_val 0 (show_nat n) = n"
proof (induction n rule: show_nat.induct)
  case (1 n)
  then show ?case by (subst show_nat.simps) auto
qed

lemma show_nat_digits: "list_all is_ascii_digit (show_nat n)"
proof (induction n rule: show_nat.induct)
  case (1 n)
  then show ?case by (subst show_nat.simps) auto
qed

lemma show_nat_nonempty [simp]: "show_nat n \<noteq> []"
  by (subst show_nat.simps) simp

lemma show_nat_inject [simp]: "show_nat m = show_nat n \<longleftrightarrow> m = n"
  by (metis dec_val_show_nat)

section \<open>JSON values\<close>

text \<open>
  \<open>serde_json::Value\<close>: a number is an unsigned or negative 64-bit integer or a double (its bit
  pattern); an object is its list of entries.
\<close>

datatype json_number = PosInt u64 | NegInt u64 | Float u64

datatype json =
  JNull | JBool bool | JNumber json_number | JString string
| JArray "json list" | JObject "(string \<times> json) list"

type_synonym json_object = "(string \<times> json) list"

section \<open>Searches by key\<close>

lemma find_distinct:
  "distinct (map f xs) \<Longrightarrow> x \<in> set xs \<Longrightarrow> find (\<lambda>y. f y = f x) xs = Some x"
  by (induction xs) (auto simp: rev_image_eqI)

section \<open>Hash maps\<close>

text \<open>\<open>HashMap::insert\<close>: an existing key keeps its place and gets the new value.\<close>

fun hash_insert :: "'k \<Rightarrow> 'v \<Rightarrow> ('k \<times> 'v) list \<Rightarrow> ('k \<times> 'v) list" where
  "hash_insert k v [] = [(k, v)]"
| "hash_insert k v ((k', v') # xs) = (if k = k' then (k, v) # xs else (k', v') # hash_insert k v xs)"

definition hash_remove :: "'k \<Rightarrow> ('k \<times> 'v) list \<Rightarrow> ('k \<times> 'v) list" where
  "hash_remove k xs = filter (\<lambda>(k', _). k' \<noteq> k) xs"

lemma map_of_hash_insert [simp]: "map_of (hash_insert k v xs) = (map_of xs)(k \<mapsto> v)"
  by (induction k v xs rule: hash_insert.induct) auto

lemma map_of_hash_remove [simp]: "map_of (hash_remove k xs) = (map_of xs)(k := None)"
  by (induction xs) (auto simp: hash_remove_def)

lemma fst_set_hash_insert [simp]: "fst ` set (hash_insert k v xs) = insert k (fst ` set xs)"
  by (induction k v xs rule: hash_insert.induct) auto

lemma distinct_hash_insert [simp]:
  "distinct (map fst (hash_insert k v xs)) \<longleftrightarrow> distinct (map fst xs)"
  by (induction k v xs rule: hash_insert.induct) auto

lemma distinct_hash_remove [intro]: "distinct (map fst xs) \<Longrightarrow> distinct (map fst (hash_remove k xs))"
  by (induction xs) (auto simp: hash_remove_def)

lemma length_hash_insert: "length (hash_insert k v xs) = (if map_of xs k = None then Suc (length xs) else length xs)"
  by (induction k v xs rule: hash_insert.induct) auto

lemma set_hash_insert: "set (hash_insert k v xs) \<subseteq> insert (k, v) (set xs)"
  by (induction k v xs rule: hash_insert.induct) auto

lemma set_hash_remove: "set (hash_remove k xs) \<subseteq> set xs"
  by (auto simp: hash_remove_def)

lemma hash_remove_fresh: "k \<notin> fst ` set xs \<Longrightarrow> hash_remove k xs = xs"
  by (force simp: hash_remove_def filter_id_conv)

lemma hash_remove_append [simp]: "hash_remove k (xs @ ys) = hash_remove k xs @ hash_remove k ys"
  by (simp add: hash_remove_def)

lemma hash_remove_Cons [simp]: "hash_remove k ((k, v) # xs) = hash_remove k xs"
  by (simp add: hash_remove_def)

lemma length_hash_remove:
  "distinct (map fst xs) \<Longrightarrow> length (hash_remove k xs) = (if map_of xs k = None then length xs else length xs - 1)"
proof (induction xs)
  case (Cons x xs)
  obtain k' v where x: "x = (k', v)" by fastforce
  show ?case
  proof (cases "k' = k")
    case True
    then show ?thesis using Cons.prems x by (simp add: hash_remove_fresh)
  next
    case False
    then have "length (hash_remove k (x # xs)) = Suc (length (hash_remove k xs))" using x by (simp add: hash_remove_def)
    then show ?thesis using Cons x False by (cases xs) auto
  qed
qed (simp add: hash_remove_def)

lemma fst_set_hash_remove: "fst ` set (hash_remove k xs) \<subseteq> fst ` set xs"
  by (auto simp: hash_remove_def)

section \<open>Shared interfaces\<close>

subsection \<open>Codecs\<close>

locale codec =
  fixes encode :: "'a \<Rightarrow> 'b"
    and decode :: "'b \<Rightarrow> 'e + 'a"
    and valid :: "'a \<Rightarrow> bool"
  assumes decode_encode: "valid x \<Longrightarrow> decode (encode x) = Inr x"
begin

lemma encode_inj_on: "inj_on encode {x. valid x}"
proof (rule inj_onI)
  fix x y
  assume *: "x \<in> {x. valid x}" "y \<in> {x. valid x}" and eq: "encode x = encode y"
  have "Inr x = decode (encode x)" using * by (simp add: decode_encode)
  also have "\<dots> = decode (encode y)" by (simp only: eq)
  also have "\<dots> = Inr y" using * by (simp add: decode_encode)
  finally show "x = y" by simp
qed

text \<open>Re-encoding whatever was decoded gives a text that decodes to the same value.\<close>

lemma decode_canonical:
  "decode t = Inr x \<Longrightarrow> valid x \<Longrightarrow> decode (encode x) = decode t"
  by (simp add: decode_encode)

end

subsection \<open>Labelled runs and invariants\<close>

inductive run :: "('s \<Rightarrow> 'l \<Rightarrow> 's \<Rightarrow> bool) \<Rightarrow> 's \<Rightarrow> 'l list \<Rightarrow> 's \<Rightarrow> bool"
  for step where
  run_Nil [intro!, simp]: "run step s [] s"
| run_Cons: "step s l t \<Longrightarrow> run step t ls u \<Longrightarrow> run step s (l # ls) u"

inductive_cases run_NilE [elim!]: "run step s [] t"
inductive_cases run_ConsE [elim!]: "run step s (l # ls) t"

lemma run_append:
  "run step s (ls @ ks) u \<longleftrightarrow> (\<exists>t. run step s ls t \<and> run step t ks u)"
proof (induction ls arbitrary: s)
  case (Cons l ls)
  show ?case
  proof
    assume "run step s ((l # ls) @ ks) u"
    then obtain r where "step s l r" "run step r (ls @ ks) u" by auto
    with Cons obtain t where "run step r ls t" "run step t ks u" by blast
    with \<open>step s l r\<close> show "\<exists>t. run step s (l # ls) t \<and> run step t ks u" by (blast intro: run_Cons)
  next
    assume "\<exists>t. run step s (l # ls) t \<and> run step t ks u"
    with Cons show "run step s ((l # ls) @ ks) u" by (auto intro: run_Cons)
  qed
qed auto

locale invariant_system =
  fixes step :: "'s \<Rightarrow> 'l \<Rightarrow> 's \<Rightarrow> bool"
    and inv :: "'s \<Rightarrow> bool"
  assumes inv_step: "inv s \<Longrightarrow> step s l t \<Longrightarrow> inv t"
begin

lemma inv_run:
  assumes "run step s ls t" and "inv s"
  shows "inv t"
  using assms by (induction rule: run.induct) (auto intro: inv_step)

end

subsection \<open>First-in-first-out channels\<close>

text \<open>
  A channel is a transition system whose steps append to and remove from one sequence. A step may
  also discard what is queued (a cancellation, a closed consumer).
\<close>

locale fifo_channel = invariant_system step inv
  for step :: "'s \<Rightarrow> 'l \<Rightarrow> 's \<Rightarrow> bool" and inv :: "'s \<Rightarrow> bool" +
  fixes contents :: "'s \<Rightarrow> 'a list"
    and accepted :: "'l \<Rightarrow> 'a list"
    and delivered :: "'l \<Rightarrow> 'a list"
    and discards :: "'l \<Rightarrow> bool"
  assumes keep: "inv s \<Longrightarrow> step s l t \<Longrightarrow> \<not> discards l \<Longrightarrow>
      delivered l @ contents t = contents s @ accepted l"
    and discard: "inv s \<Longrightarrow> step s l t \<Longrightarrow> discards l \<Longrightarrow>
      delivered l = [] \<and> (contents t = [] \<or> contents t = contents s)"
begin

lemma run_keeps_order:
  assumes "run step s ls t" and "inv s" and "\<forall>l \<in> set ls. \<not> discards l"
  shows "concat (map delivered ls) @ contents t = contents s @ concat (map accepted ls)"
  using assms
proof (induction rule: run.induct)
  case (run_Cons s l t ls u)
  then have "concat (map delivered ls) @ contents u = contents t @ concat (map accepted ls)"
    by (auto intro: inv_step)
  then have "concat (map delivered (l # ls)) @ contents u
      = (delivered l @ contents t) @ concat (map accepted ls)"
    by simp
  also have "delivered l @ contents t = contents s @ accepted l"
    using run_Cons by (auto intro: keep)
  finally show ?case by simp
qed simp

lemma run_delivers_subsequence:
  assumes "run step s ls t" and "inv s"
  shows "subseq (concat (map delivered ls)) (contents s @ concat (map accepted ls))"
  using assms
proof (induction rule: run.induct)
  case (run_Cons s l t ls u)
  then have IH: "subseq (concat (map delivered ls)) (contents t @ concat (map accepted ls))"
    by (auto intro: inv_step)
  show ?case
  proof (cases "discards l")
    case True
    then have none: "delivered l = []" and "subseq (contents t) (contents s @ accepted l)"
      using discard [OF run_Cons.prems run_Cons.hyps(1) True] by auto
    then have "subseq (contents t @ concat (map accepted ls))
        ((contents s @ accepted l) @ concat (map accepted ls))"
      by (intro list_emb_append_mono) auto
    with IH have "subseq (concat (map delivered ls))
        ((contents s @ accepted l) @ concat (map accepted ls))"
      by (rule subseq_order.order_trans)
    with none show ?thesis by simp
  next
    case False
    have "subseq (delivered l @ concat (map delivered ls))
        (delivered l @ contents t @ concat (map accepted ls))"
      using IH by (simp only: subseq_append')
    also have "delivered l @ contents t @ concat (map accepted ls)
        = (contents s @ accepted l) @ concat (map accepted ls)"
      by (simp only: append.assoc [symmetric] keep [OF run_Cons.prems run_Cons.hyps(1) False])
    finally show ?thesis by simp
  qed
qed simp

end

end
