(* ===== verification/Model_Types.thy ===== *)
theory Model_Types
  imports Prelude
begin

text \<open>
  The value types of \<open>aimux-core\<close> (\<open>src/aimux-core/src/types.rs\<close>, \<open>tool.rs\<close>, \<open>result.rs\<close>,
  \<open>shared.rs\<close>): finish reasons, token usage and its arithmetic, reasoning effort, tool choice and
  its JSON form, tool calls, tool results and generated content.
\<close>

section \<open>Finish reasons and token usage\<close>

datatype finish_reason_unified =
  Stop | Length | ContentFilter | ToolCalls | FinishError | FinishOther

record finish_reason =
  unified :: finish_reason_unified
  fr_raw :: "string option"

record input_token_usage =
  itu_total :: "u32 option"
  itu_no_cache :: "u32 option"
  itu_cache_read :: "u32 option"
  itu_cache_write :: "u32 option"

record output_token_usage =
  otu_total :: "u32 option"
  otu_text :: "u32 option"
  otu_reasoning :: "u32 option"

record usage =
  u_input_tokens :: input_token_usage
  u_output_tokens :: output_token_usage
  u_raw :: "json_object option"

record input_token_details =
  no_cache_tokens :: "u32 option"
  cache_read_tokens :: "u32 option"
  cache_write_tokens :: "u32 option"

record output_token_details =
  text_tokens :: "u32 option"
  reasoning_tokens :: "u32 option"

record language_model_usage =
  input_tokens :: "u32 option"
  lmu_input_token_details :: input_token_details
  output_tokens :: "u32 option"
  lmu_output_token_details :: output_token_details
  total_tokens :: "u32 option"
  lmu_raw :: "json_object option"

definition unwrap_or :: "'a \<Rightarrow> 'a option \<Rightarrow> 'a" where
  "unwrap_or d x = (case x of None \<Rightarrow> d | Some v \<Rightarrow> v)"

fun add_token_counts :: "u32 option \<Rightarrow> u32 option \<Rightarrow> u32 option" where
  "add_token_counts None None = None"
| "add_token_counts a b = Some (saturating_add (unwrap_or 0 a) (unwrap_or 0 b))"

definition as_language_model_usage :: "usage \<Rightarrow> language_model_usage" where
  "as_language_model_usage u = \<lparr>
     input_tokens = itu_total (u_input_tokens u),
     lmu_input_token_details = \<lparr>
       no_cache_tokens = itu_no_cache (u_input_tokens u),
       cache_read_tokens = itu_cache_read (u_input_tokens u),
       cache_write_tokens = itu_cache_write (u_input_tokens u)\<rparr>,
     output_tokens = otu_total (u_output_tokens u),
     lmu_output_token_details = \<lparr>
       text_tokens = otu_text (u_output_tokens u),
       reasoning_tokens = otu_reasoning (u_output_tokens u)\<rparr>,
     total_tokens = add_token_counts (itu_total (u_input_tokens u)) (otu_total (u_output_tokens u)),
     lmu_raw = u_raw u\<rparr>"

definition add_language_model_usage ::
  "language_model_usage \<Rightarrow> language_model_usage \<Rightarrow> language_model_usage" where
  "add_language_model_usage a b = \<lparr>
     input_tokens = add_token_counts (input_tokens a) (input_tokens b),
     lmu_input_token_details = \<lparr>
       no_cache_tokens = add_token_counts (no_cache_tokens (lmu_input_token_details a))
                           (no_cache_tokens (lmu_input_token_details b)),
       cache_read_tokens = add_token_counts (cache_read_tokens (lmu_input_token_details a))
                             (cache_read_tokens (lmu_input_token_details b)),
       cache_write_tokens = add_token_counts (cache_write_tokens (lmu_input_token_details a))
                              (cache_write_tokens (lmu_input_token_details b))\<rparr>,
     output_tokens = add_token_counts (output_tokens a) (output_tokens b),
     lmu_output_token_details = \<lparr>
       text_tokens = add_token_counts (text_tokens (lmu_output_token_details a))
                       (text_tokens (lmu_output_token_details b)),
       reasoning_tokens = add_token_counts (reasoning_tokens (lmu_output_token_details a))
                            (reasoning_tokens (lmu_output_token_details b))\<rparr>,
     total_tokens = add_token_counts (total_tokens a) (total_tokens b),
     lmu_raw = None\<rparr>"

lemma add_token_counts_comm: "add_token_counts a b = add_token_counts b a"
  by (cases a; cases b) (simp_all add: unwrap_or_def saturating_add_comm)

lemma add_token_counts_assoc:
  "add_token_counts (add_token_counts a b) c = add_token_counts a (add_token_counts b c)"
  by (cases a; cases b; cases c) (simp_all add: unwrap_or_def saturating_add_assoc)

text \<open>The count of a sum is exact until 32 bits are full, and then stays at the maximum.\<close>

lemma add_token_counts_value:
  "add_token_counts (Some a) (Some b) = Some c \<Longrightarrow> unat c = min (unat a + unat b) (2 ^ 32 - 1)"
  by (auto simp: unwrap_or_def unat_saturating_add)

text \<open>
  Accumulating usage over steps does not depend on how the steps are grouped or ordered: the
  addition of usage records is associative and commutative (with 32-bit saturation included).
\<close>

lemma add_language_model_usage_assoc_comm:
  "add_language_model_usage (add_language_model_usage a b) c
     = add_language_model_usage a (add_language_model_usage b c) \<and>
   add_language_model_usage a b = add_language_model_usage b a"
proof
  show "add_language_model_usage (add_language_model_usage a b) c
      = add_language_model_usage a (add_language_model_usage b c)"
    by (simp add: add_language_model_usage_def add_token_counts_assoc)
  show "add_language_model_usage a b = add_language_model_usage b a"
    by (simp add: add_language_model_usage_def add_token_counts_comm)
qed

section \<open>Reasoning effort\<close>

datatype reasoning_effort =
  ProviderDefault | EffortNone | Minimal | Low | Medium | High | Xhigh

definition is_custom :: "reasoning_effort \<Rightarrow> bool" where
  "is_custom e \<longleftrightarrow> e \<noteq> ProviderDefault"

fun show_effort :: "reasoning_effort \<Rightarrow> string" where
  "show_effort ProviderDefault = ''provider-default''"
| "show_effort EffortNone = ''none''"
| "show_effort Minimal = ''minimal''"
| "show_effort Low = ''low''"
| "show_effort Medium = ''medium''"
| "show_effort High = ''high''"
| "show_effort Xhigh = ''xhigh''"

definition effort_from_str :: "string \<Rightarrow> string + reasoning_effort" where
  "effort_from_str s =
     (if s = ''provider-default'' then Inr ProviderDefault
      else if s = ''none'' then Inr EffortNone
      else if s = ''minimal'' then Inr Minimal
      else if s = ''low'' then Inr Low
      else if s = ''medium'' then Inr Medium
      else if s = ''high'' then Inr High
      else if s = ''xhigh'' then Inr Xhigh
      else Inl (''unknown reasoning effort: '' @ s))"

interpretation effort: codec show_effort effort_from_str "\<lambda>_. True"
proof unfold_locales
  fix e show "effort_from_str (show_effort e) = Inr e"
    by (cases e) (simp_all add: effort_from_str_def)
qed

lemma effort_from_str_Inr: "effort_from_str s = Inr e \<Longrightarrow> s = show_effort e"
  by (auto simp: effort_from_str_def split: if_splits)

section \<open>Tool choice\<close>

datatype tool_choice = ChoiceAuto | ChoiceNone | ChoiceRequired | ChoiceTool string

datatype language_model_v4_tool_choice = V4Auto | V4None | V4Required | V4Tool string

fun prepare_tool_choice :: "tool_choice option \<Rightarrow> language_model_v4_tool_choice" where
  "prepare_tool_choice None = V4Auto"
| "prepare_tool_choice (Some ChoiceAuto) = V4Auto"
| "prepare_tool_choice (Some ChoiceNone) = V4None"
| "prepare_tool_choice (Some ChoiceRequired) = V4Required"
| "prepare_tool_choice (Some (ChoiceTool n)) = V4Tool n"

fun serialize_tool_choice :: "tool_choice \<Rightarrow> json" where
  "serialize_tool_choice ChoiceAuto = JString ''auto''"
| "serialize_tool_choice ChoiceNone = JString ''none''"
| "serialize_tool_choice ChoiceRequired = JString ''required''"
| "serialize_tool_choice (ChoiceTool n) =
     JObject [(''type'', JString ''tool''), (''toolName'', JString n)]"

text \<open>
  Reading goes through the untagged \<open>Repr\<close>: a string, or an object with a string \<open>type\<close> and an
  optional string \<open>toolName\<close> (a null counts as absent); other fields are ignored.
\<close>

definition optional_string :: "json option \<Rightarrow> (string option) option" where
  "optional_string v = (case v of
      None \<Rightarrow> Some None | Some JNull \<Rightarrow> Some None | Some (JString s) \<Rightarrow> Some (Some s) | _ \<Rightarrow> None)"

definition unmatched_repr :: string where
  "unmatched_repr = ''data did not match any variant of untagged enum Repr''"

fun deserialize_tool_choice :: "json \<Rightarrow> string + tool_choice" where
  "deserialize_tool_choice (JString s) =
     (if s = ''auto'' then Inr ChoiceAuto
      else if s = ''none'' then Inr ChoiceNone
      else if s = ''required'' then Inr ChoiceRequired
      else Inl (''unknown toolChoice '' @ sq @ s @ sq @
                '' (expected auto/none/required or {type:'' @ dq @ ''tool'' @ dq @ '',toolName})''))"
| "deserialize_tool_choice (JObject fs) =
     (case (map_of fs ''type'', optional_string (map_of fs ''toolName'')) of
        (Some (JString typ), Some tool_name) \<Rightarrow>
          (if typ \<noteq> ''tool'' then Inl (''unknown toolChoice type '' @ sq @ typ @ sq @
                 '' (expected '' @ dq @ ''tool'' @ dq @ '')'')
           else (case tool_name of
                   None \<Rightarrow> Inl (''toolChoice {type:'' @ dq @ ''tool'' @ dq @ ''} requires a toolName field'')
                 | Some n \<Rightarrow> Inr (ChoiceTool n)))
      | _ \<Rightarrow> Inl unmatched_repr)"
| "deserialize_tool_choice _ = Inl unmatched_repr"

interpretation tool_choice: codec serialize_tool_choice deserialize_tool_choice "\<lambda>_. True"
proof unfold_locales
  fix c show "deserialize_tool_choice (serialize_tool_choice c) = Inr c"
    by (cases c) (simp_all add: optional_string_def)
qed

section \<open>Generated content\<close>

type_synonym provider_metadata = "(string \<times> json_object) list"

typedef namespaced_kind = "{s :: string. CHR ''.'' \<in> set s}"
  morphisms as_str NamespacedKind
  by (rule exI [of _ "''.''"]) simp

setup_lifting type_definition_namespaced_kind

instantiation namespaced_kind :: equal
begin

definition equal_namespaced_kind :: "namespaced_kind \<Rightarrow> namespaced_kind \<Rightarrow> bool" where
  "equal_namespaced_kind a b \<longleftrightarrow> as_str a = as_str b"

instance
  by standard (simp add: equal_namespaced_kind_def as_str_inject)

end

record raw_tool_call =
  rtc_tool_call_id :: string
  rtc_tool_name :: string
  rtc_input :: string
  rtc_provider_executed :: "bool option"
  rtc_dynamic :: "bool option"
  rtc_provider_metadata :: "provider_metadata option"

record tool_result =
  tr_tool_call_id :: string
  tr_tool_name :: string
  tr_result :: json
  tr_is_error :: "bool option"
  tr_preliminary :: "bool option"
  tr_dynamic :: "bool option"
  tr_provider_metadata :: "provider_metadata option"

datatype source =
  SourceUrl string string "string option" "provider_metadata option"
| SourceDocument string string string "string option" "provider_metadata option"

datatype file_bytes = Binary "u8 list" | Base64 string

datatype generated_file_data = FileDataBytes file_bytes | FileDataUrl string "string option"

record language_model_file =
  lmf_data :: generated_file_data
  lmf_media_type :: string
  lmf_provider_metadata :: "provider_metadata option"

record reasoning_output =
  ro_text :: string
  ro_provider_metadata :: "provider_metadata option"

record raw_tool_approval_request =
  rtar_approval_id :: string
  rtar_tool_call_id :: string
  rtar_provider_metadata :: "provider_metadata option"

datatype generate_content =
  GCText string "provider_metadata option"
| GCToolCall raw_tool_call
| GCSource source
| GCReasoning reasoning_output
| GCFile language_model_file
| GCReasoningFile language_model_file
| GCCustom namespaced_kind "provider_metadata option"
| GCToolApprovalRequest raw_tool_approval_request
| GCToolResult tool_result

end
