(* ===== verification/Suggestions.thy ===== *)
theory Suggestions
  imports Prelude
begin

text \<open>
  The ``did you mean'' suggestion of a \<open>NoSuchProvider\<close> error (\<open>did_you_mean\<close> and \<open>edit_distance\<close> in
  \<open>src/aimux-core/src/error.rs\<close>): the edit distance table filled in place, proved to compute the
  optimal string alignment distance, and what the suggested names satisfy.
\<close>

section \<open>Suggesting a provider name\<close>

text \<open>
  \<open>edit_distance\<close> fills the table of optimal string alignment distances row by row, in place.
\<close>

definition init_rows :: "'a list \<Rightarrow> 'a list \<Rightarrow> nat list list" where
  "init_rows a b = (map (\<lambda>i. i # replicate (length b) 0) [0..<Suc (length a)])
                     [0 := [0..<Suc (length b)]]"

definition fill_cell :: "'a list \<Rightarrow> 'a list \<Rightarrow> nat \<Rightarrow> nat \<Rightarrow> nat list list \<Rightarrow> nat list list" where
  "fill_cell a b i j rows =
     (let cost = (if a ! (i - 1) \<noteq> b ! (j - 1) then 1 else 0);
          best = min (min (rows ! (i - 1) ! j + 1) (rows ! i ! (j - 1) + 1))
                   (rows ! (i - 1) ! (j - 1) + cost);
          best = (if i > 1 \<and> j > 1 \<and> a ! (i - 1) = b ! (j - 2) \<and> a ! (i - 2) = b ! (j - 1)
                  then min best (rows ! (i - 2) ! (j - 2) + 1) else best)
      in rows[i := (rows ! i)[j := best]])"

definition fill_row :: "'a list \<Rightarrow> 'a list \<Rightarrow> nat \<Rightarrow> nat list list \<Rightarrow> nat list list" where
  "fill_row a b i rows = fold (fill_cell a b i) [1..<Suc (length b)] rows"

definition edit_distance :: "'a list \<Rightarrow> 'a list \<Rightarrow> nat" where
  "edit_distance a b =
     fold (fill_row a b) [1..<Suc (length a)] (init_rows a b) ! length a ! length b"

definition normalize_name :: "string \<Rightarrow> string list" where
  "normalize_name name = map (\<lambda>c. if c = ''-'' then ''_'' else to_ascii_lowercase c) (utf8_chars name)"

fun dedup_by_name :: "(nat \<times> string) list \<Rightarrow> (nat \<times> string) list" where
  "dedup_by_name (x # y # zs) =
     (if snd x = snd y then dedup_by_name (x # zs) else x # dedup_by_name (y # zs))"
| "dedup_by_name xs = xs"

definition close_names :: "string \<Rightarrow> string list \<Rightarrow> (nat \<times> string) list" where
  "close_names name candidates =
     (let wanted = normalize_name name
      in dedup_by_name (sort (List.map_filter
           (\<lambda>candidate.
              let distance = edit_distance wanted (normalize_name candidate);
                  longer = max (length wanted) (length (utf8_chars candidate))
              in if distance \<le> 2 \<and> distance * 3 \<le> longer then Some (distance, candidate) else None)
           candidates)))"

definition did_you_mean :: "string \<Rightarrow> string list \<Rightarrow> string" where
  "did_you_mean name candidates =
     (let close = close_names name candidates
      in if close = [] then []
         else ''. Did you mean '' @ join (map (\<lambda>(_, n). sq @ n @ sq) (take 3 close)) '', '' @ ''?'')"

section \<open>Correctness of the edit distance\<close>

text \<open>
  The reference: the optimal string alignment distance of the first \<open>i\<close> and the first \<open>j\<close>
  characters, by its recursion (delete, insert, substitute, transpose two neighbours).
\<close>

fun osa :: "'a list \<Rightarrow> 'a list \<Rightarrow> nat \<Rightarrow> nat \<Rightarrow> nat" where
  "osa a b i 0 = i"
| "osa a b 0 (Suc j) = Suc j"
| "osa a b (Suc i) (Suc j) =
     (let best = min (min (osa a b i (Suc j) + 1) (osa a b (Suc i) j + 1))
                   (osa a b i j + (if a ! i \<noteq> b ! j then 1 else 0))
      in if i > 0 \<and> j > 0 \<and> a ! i = b ! (j - 1) \<and> a ! (i - 1) = b ! j
         then min best (osa a b (i - 1) (j - 1) + 1) else best)"

lemma osa_0 [simp]: "osa a b 0 j = j"
  by (cases j) auto

text \<open>The table is filled up to row \<open>i\<close>, column \<open>j\<close> (exclusive).\<close>

definition filled :: "'a list \<Rightarrow> 'a list \<Rightarrow> nat \<Rightarrow> nat \<Rightarrow> nat list list \<Rightarrow> bool" where
  "filled a b i j rows \<longleftrightarrow>
     length rows = Suc (length a) \<and> (\<forall>r \<le> length a. length (rows ! r) = Suc (length b)) \<and>
     (\<forall>r \<le> length a. \<forall>c \<le> length b.
        r = 0 \<or> c = 0 \<or> r < i \<or> r = i \<and> c < j \<longrightarrow> rows ! r ! c = osa a b r c)"

lemma filled_entry:
  "filled a b i j rows \<Longrightarrow> r \<le> length a \<Longrightarrow> c \<le> length b \<Longrightarrow>
     r = 0 \<or> c = 0 \<or> r < i \<or> r = i \<and> c < j \<Longrightarrow> rows ! r ! c = osa a b r c"
  unfolding filled_def by blast

lemma filled_init: "filled a b 1 1 (init_rows a b)"
proof -
  have "init_rows a b ! r ! c = osa a b r c" if "r \<le> length a" "c \<le> length b" "r = 0 \<or> c = 0" for r c
    using that by (cases "r = 0") (auto simp: init_rows_def simp del: upt_Suc)
  moreover have "length (init_rows a b ! r) = Suc (length b)" if "r \<le> length a" for r
    using that by (cases "r = 0") (auto simp: init_rows_def simp del: upt_Suc)
  ultimately show ?thesis
    by (auto simp: filled_def less_Suc_eq simp del: upt_Suc) (simp add: init_rows_def)
qed

lemma fill_cell_filled:
  assumes f: "filled a b i j rows" and i: "1 \<le> i" "i \<le> length a" and j: "1 \<le> j" "j \<le> length b"
  shows "filled a b i (Suc j) (fill_cell a b i j rows)"
proof -
  obtain i' j' where ij: "i = Suc i'" "j = Suc j'" using i j by (metis One_nat_def Suc_le_D)
  let ?rows = "fill_cell a b i j rows"
  have e: "rows ! i' ! Suc j' = osa a b i' (Suc j')" "rows ! Suc i' ! j' = osa a b (Suc i') j'"
    "rows ! i' ! j' = osa a b i' j'" "rows ! (i' - Suc 0) ! (j' - Suc 0) = osa a b (i' - Suc 0) (j' - Suc 0)"
    using i j by (auto intro!: filled_entry [OF f] simp: ij)
  have upd: "?rows = rows[i := (rows ! i)[j := osa a b i j]]"
    by (simp add: fill_cell_def Let_def e ij numeral_2_eq_2)
  have len: "length rows = Suc (length a)" "\<And>r. r \<le> length a \<Longrightarrow> length (rows ! r) = Suc (length b)"
    using f by (auto simp: filled_def)
  have "?rows ! r ! c = osa a b r c"
    if "r \<le> length a" "c \<le> length b" "r = 0 \<or> c = 0 \<or> r < i \<or> r = i \<and> c < Suc j" for r c
  proof (cases "r = i \<and> c = j")
    case True
    then show ?thesis using i j by (simp add: upd len)
  next
    case False
    then have "?rows ! r ! c = rows ! r ! c" using that i by (auto simp: upd len nth_list_update)
    also have "\<dots> = osa a b r c" using that False by (intro filled_entry [OF f]) auto
    finally show ?thesis .
  qed
  moreover have "length (?rows ! r) = Suc (length b)" if "r \<le> length a" for r
    using that i len by (cases "r = i") (simp_all add: upd)
  ultimately show ?thesis using len(1) by (simp add: filled_def upd)
qed

lemma fill_row_filled:
  assumes "filled a b i 1 rows" and "1 \<le> i" "i \<le> length a"
  shows "filled a b (Suc i) 1 (fill_row a b i rows)"
proof -
  have "filled a b i (Suc (length b)) (fill_row a b i rows)"
    unfolding fill_row_def
    using assms by (intro fold_upt_invariant [where P = "filled a b i"]) (auto intro: fill_cell_filled)
  then show ?thesis unfolding filled_def less_Suc_eq_le by (auto dest: le_imp_less_or_eq)
qed

text \<open>
  C14. The table that \<open>edit_distance\<close> fills in place yields the optimal string alignment distance
  of the two names: the recursion over deletions, insertions, substitutions and transpositions.
\<close>

theorem edit_distance_osa: "edit_distance a b = osa a b (length a) (length b)"
proof -
  have "filled a b (Suc (length a)) 1 (fold (fill_row a b) [1..<Suc (length a)] (init_rows a b))"
  proof (rule fold_upt_invariant [where P = "\<lambda>i. filled a b i 1"])
    show "filled a b 1 1 (init_rows a b)" by (rule filled_init)
    show "filled a b (Suc k) 1 (fill_row a b k rows)"
      if "1 \<le> k" "k < Suc (length a)" "filled a b k 1 rows" for k rows
      using that by (intro fill_row_filled) auto
  qed simp
  then show ?thesis unfolding edit_distance_def by (rule filled_entry) auto
qed


section \<open>What the distance and the suggestion satisfy\<close>

lemma osa_sym: "osa a b i j = osa b a j i"
proof (induction a b i j rule: osa.induct)
  case (3 a b i j)
  then show ?case by (auto simp: Let_def min.commute min.left_commute)
qed auto

text \<open>One step of the recursion takes one of the four edits.\<close>

lemma osa_step:
  obtains "osa a b (Suc i) (Suc j) = osa a b i (Suc j) + 1"
    | "osa a b (Suc i) (Suc j) = osa a b (Suc i) j + 1"
    | k where "osa a b (Suc i) (Suc j) = osa a b i j + k"
    | "osa a b (Suc i) (Suc j) = osa a b (i - 1) (j - 1) + 1" "i > 0" "j > 0"
proof -
  let ?t = "i > 0 \<and> j > 0 \<and> a ! i = b ! (j - 1) \<and> a ! (i - 1) = b ! j"
  let ?m = "min (min (osa a b i (Suc j) + 1) (osa a b (Suc i) j + 1))
              (osa a b i j + (if a ! i \<noteq> b ! j then 1 else 0))"
  have eq: "osa a b (Suc i) (Suc j) = (if ?t then min ?m (osa a b (i - 1) (j - 1) + 1) else ?m)"
    by (simp only: osa.simps Let_def)
  have "?m \<in> {osa a b i (Suc j) + 1, osa a b (Suc i) j + 1,
              osa a b i j + (if a ! i \<noteq> b ! j then 1 else 0)}"
    unfolding min_def by (auto simp del: osa.simps)
  then show thesis using that eq unfolding min_def by (metis empty_iff insert_iff)
qed

lemma osa_lower: "i \<le> j + osa a b i j \<and> j \<le> i + osa a b i j"
proof (induction "i + j" arbitrary: i j rule: less_induct)
  case less
  show ?case
  proof (cases i; cases j)
    fix i' j' assume ij: "i = Suc i'" "j = Suc j'"
    have IH: "k \<le> l + osa a b k l \<and> l \<le> k + osa a b k l" if "k + l < Suc i' + Suc j'" for k l
      using less ij that by blast
    have "Suc i' \<le> Suc j' + osa a b (Suc i') (Suc j') \<and>
        Suc j' \<le> Suc i' + osa a b (Suc i') (Suc j')"
    proof (cases rule: osa_step [of a b i' j'])
      case 1
      with IH [of i' "Suc j'"] show ?thesis by (simp del: osa.simps)
    next
      case 2
      with IH [of "Suc i'" j'] show ?thesis by (simp del: osa.simps)
    next
      case (3 k)
      with IH [of i' j'] show ?thesis by (simp del: osa.simps)
    next
      case 4
      with IH [of "i' - 1" "j' - 1"] show ?thesis by (simp del: osa.simps) linarith
    qed
    then show ?thesis by (simp only: ij)
  qed auto
qed

lemma osa_upper: "osa a b i j \<le> max i j"
proof (induction a b i j rule: osa.induct)
  case (3 a b i j)
  have "osa a b (Suc i) (Suc j) \<le> osa a b i j + 1" by (auto simp: Let_def min_def)
  also have "\<dots> \<le> max (Suc i) (Suc j)" using 3 by (simp del: osa.simps)
  finally show ?case .
qed auto

lemma osa_refl: "osa a a i i = 0"
  by (induction i) (auto simp: Let_def)

lemma osa_0_take:
  "osa a b i j = 0 \<Longrightarrow> i \<le> length a \<Longrightarrow> j \<le> length b \<Longrightarrow> take i a = take j b"
proof (induction a b i j rule: osa.induct)
  case (3 a b i j)
  then have "osa a b i j = 0" "a ! i = b ! j"
    by (auto simp: Let_def min_def split: if_splits)
  with 3 show ?case by (auto simp: take_Suc_conv_app_nth)
qed auto

lemma edit_distance_eq_0 [simp]: "edit_distance a b = 0 \<longleftrightarrow> a = b"
proof
  assume "edit_distance a b = 0"
  then show "a = b" using osa_0_take [of a b "length a" "length b"] by (simp add: edit_distance_osa)
qed (simp add: edit_distance_osa osa_refl)

text \<open>
  The edit distance is zero exactly for equal names, symmetric, at least the difference of the
  lengths and at most the longer length.
\<close>

lemma edit_distance_metric_bounds:
  "(edit_distance a b = 0 \<longleftrightarrow> a = b) \<and> edit_distance a b = edit_distance b a \<and>
   length a \<le> length b + edit_distance a b \<and> edit_distance a b \<le> max (length a) (length b)"
  using osa_lower [of "length a" "length b" a b] osa_upper [of a b "length a" "length b"]
  unfolding edit_distance_eq_0 by (simp add: edit_distance_osa osa_sym [of a b])

lemma set_dedup_by_name: "set (dedup_by_name xs) \<subseteq> set xs"
  by (induction xs rule: dedup_by_name.induct) auto

lemma names_dedup_by_name: "snd ` set (dedup_by_name xs) = snd ` set xs"
  by (induction xs rule: dedup_by_name.induct) auto

lemma close_names_sound:
  assumes "(d, n) \<in> set (close_names name candidates)"
  shows "n \<in> set candidates" "d = edit_distance (normalize_name name) (normalize_name n)" "d \<le> 2"
    "d * 3 \<le> max (length (normalize_name name)) (length (utf8_chars n))"
  using subsetD [OF set_dedup_by_name assms [unfolded close_names_def Let_def]]
  by (auto simp: List.map_filter_def Let_def split: if_splits)

lemma close_names_complete:
  assumes "n \<in> set candidates"
    and "edit_distance (normalize_name name) (normalize_name n) \<le> 2"
    and "edit_distance (normalize_name name) (normalize_name n) * 3
           \<le> max (length (normalize_name name)) (length (utf8_chars n))"
  shows "n \<in> snd ` set (close_names name candidates)"
  unfolding close_names_def Let_def names_dedup_by_name
  using assms by (force simp: List.map_filter_def)

lemma sorted_dedup_by_name: "sorted xs \<Longrightarrow> sorted (dedup_by_name xs)"
proof (induction xs rule: dedup_by_name.induct)
  case (1 x y zs)
  have "\<forall>z \<in> set (dedup_by_name (y # zs)). x \<le> z"
    using set_dedup_by_name [of "y # zs"] 1(3) by (auto simp del: less_eq_prod_simp)
  with 1 show ?case by (auto simp del: less_eq_prod_simp)
qed auto

text \<open>
  The suggestion lists exactly the known names within two edits (and within a third of the
  longer length), nearest first; a name that differs from the request only in letter case or in
  \<open>-\<close> against \<open>_\<close> is always among them.
\<close>

lemma close_names_exact:
  "snd ` set (close_names name candidates)
     = {n \<in> set candidates. let d = edit_distance (normalize_name name) (normalize_name n) in
          d \<le> 2 \<and> d * 3 \<le> max (length (normalize_name name)) (length (utf8_chars n))} \<and>
   sorted (close_names name candidates) \<and>
   {n \<in> set candidates. normalize_name n = normalize_name name} \<subseteq> snd ` set (close_names name candidates)"
proof (intro conjI subset_antisym subsetI)
  fix n assume "n \<in> snd ` set (close_names name candidates)"
  then obtain d where "(d, n) \<in> set (close_names name candidates)" by auto
  from close_names_sound [OF this]
  show "n \<in> {n \<in> set candidates. let d = edit_distance (normalize_name name) (normalize_name n) in
          d \<le> 2 \<and> d * 3 \<le> max (length (normalize_name name)) (length (utf8_chars n))}"
    by (simp add: Let_def)
next
  show "sorted (close_names name candidates)"
    unfolding close_names_def Let_def by (rule sorted_dedup_by_name) simp
next
  fix n assume "n \<in> {n \<in> set candidates. normalize_name n = normalize_name name}"
  then have "n \<in> set candidates" "edit_distance (normalize_name name) (normalize_name n) = 0"
    unfolding edit_distance_eq_0 by auto
  then show "n \<in> snd ` set (close_names name candidates)" by (intro close_names_complete) linarith+
qed (auto simp: Let_def intro: close_names_complete)

end
