(* ===== verification/Errors.thy ===== *)
theory Errors
  imports Model_Types Suggestions
begin

text \<open>
  The error values of the access layer: \<open>src/aimux-core/src/error.rs\<close> (the \<open>AiMuxError\<close> union, API
  call and retry errors, their classification and texts) and
  \<open>src/aimux-ops/src/envelope.rs\<close> (the operation errors, their numeric codes and the wire envelope).
  Serialization of an \<open>AiMuxError\<close> is \<open>serde_json\<close>'s and enters as the argument \<open>to_value\<close>.
\<close>

section \<open>Error types of aimux-core\<close>

datatype api_call_error_origin =
  OriginTransport | OriginHttpResponse | OriginStreamEvent | OriginLocal | OriginUnknown

definition is_unknown :: "api_call_error_origin \<Rightarrow> bool" where
  "is_unknown o' \<longleftrightarrow> o' = OriginUnknown"

datatype retry_error_reason = MaxRetriesExceeded | ErrorNotRetryable

datatype source_error = SourceError (se_message: string) (se_cause: "source_error option")

record tool_choice_violation_error =
  tcv_tool_choice :: language_model_v4_tool_choice
  tcv_finish_reason :: finish_reason_unified
  tcv_provider :: string
  tcv_model_id :: string
  tcv_content :: "generate_content list"

datatype api_call_error = ApiCallError
    (ace_url: string)
    (ace_request_body_values: json)
    (ace_status_code: "u16 option")
    (ace_provider_code: "string option")
    (ace_message: string)
    (ace_response_body: "string option")
    (ace_response_headers: "(string \<times> string) list option")
    (ace_data: "json option")
    (ace_is_retryable: bool)
    (ace_cause: "error_cause option")
    (ace_origin: api_call_error_origin)
and error_cause = CauseAiMux aimux_error | CauseSource source_error
and retry_error = RetryError (re_reason: retry_error_reason) (re_errors: "aimux_error list")
and aimux_error =
    ApiCall api_call_error
  | Retry retry_error
  | JsonParse string "error_cause option"
  | NoOutputGenerated string "error_cause option"
  | InvalidResponseData string "error_cause option"
  | TypeValidation string json "error_cause option"
  | ToolCallNotFoundForApproval string string
  | NoSuchTool string "string list option" "string option"
  | InvalidToolInput string string error_cause
  | ToolCallRepair aimux_error aimux_error
  | InvalidArgument string "error_cause option"
  | InvalidPrompt string "error_cause option"
  | LoadApiKey string string
  | LoadSetting string string
  | MissingToolResults "string list"
  | ToolChoiceViolation tool_choice_violation_error
  | TokenExpired string
  | UnsupportedFunctionality string
  | NoSuchModel string string
  | NoSuchProvider string string string "string list"
  | Timeout string
  | Aborted string
  | Other string "error_cause option"

definition new_api_call_error :: "string \<Rightarrow> string \<Rightarrow> json \<Rightarrow> api_call_error" where
  "new_api_call_error message url body =
     ApiCallError url body None None message None None None False None OriginUnknown"

fun with_origin :: "api_call_error \<Rightarrow> api_call_error_origin \<Rightarrow> api_call_error" where
  "with_origin (ApiCallError u b st pc m rb rh d r c _) o' = ApiCallError u b st pc m rb rh d r c o'"

fun caused_by :: "api_call_error \<Rightarrow> error_cause \<Rightarrow> api_call_error" where
  "caused_by (ApiCallError u b st pc m rb rh d r _ o') c = ApiCallError u b st pc m rb rh d r (Some c) o'"

definition invalid_argument :: "string \<Rightarrow> aimux_error" where
  "invalid_argument message = InvalidArgument message None"

definition other :: "string \<Rightarrow> aimux_error" where
  "other message = Other message None"

section \<open>Classification\<close>

definition is_retryable_status :: "u16 \<Rightarrow> bool" where
  "is_retryable_status status \<longleftrightarrow> status \<in> {408, 409, 429} \<or> 500 \<le> status"

definition is_recoverable_stream_error :: "aimux_error \<Rightarrow> bool" where
  "is_recoverable_stream_error e \<longleftrightarrow>
     (case e of JsonParse _ _ \<Rightarrow> True | InvalidResponseData _ _ \<Rightarrow> True | _ \<Rightarrow> False)"

definition is_retryable :: "aimux_error \<Rightarrow> bool" where
  "is_retryable e \<longleftrightarrow> (case e of ApiCall d \<Rightarrow> ace_is_retryable d | _ \<Rightarrow> False)"

definition from_abort_signal :: aimux_error where
  "from_abort_signal = Aborted ''request aborted''"

definition status_code :: "aimux_error \<Rightarrow> u16 option" where
  "status_code e = (case e of TokenExpired _ \<Rightarrow> Some 401 | ApiCall d \<Rightarrow> ace_status_code d | _ \<Rightarrow> None)"

definition last_error :: "retry_error \<Rightarrow> aimux_error" where
  "last_error r = (if re_errors r = [] then other ''Retry failed without recorded errors''
                   else last (re_errors r))"

section \<open>Texts\<close>

definition missing_tool_results_message :: "string list \<Rightarrow> string" where
  "missing_tool_results_message ids =
     (let many = length ids > 1
      in ''Tool result'' @ (if many then ''s are'' else '' is'') @ '' missing for tool call''
         @ (if many then ''s'' else []) @ '' '' @ join ids '', '' @ ''.'')"

definition tool_choice_violation_message :: "language_model_v4_tool_choice \<Rightarrow> string" where
  "tool_choice_violation_message c = (case c of
     V4Tool tool_name \<Rightarrow> ''Model response did not contain a call to the required tool ''
                          @ sq @ tool_name @ sq @ ''.''
   | _ \<Rightarrow> ''Model response did not contain a tool call even though tool choice was required.'')"

definition no_such_tool_availability :: "string list option \<Rightarrow> string" where
  "no_such_tool_availability available = (case available of
     Some tools \<Rightarrow> ''Available tools: '' @ join tools '', '' @ ''.''
   | None \<Rightarrow> ''No tools are available.'')"

fun show_api_call_error :: "api_call_error \<Rightarrow> string" where
  "show_api_call_error (ApiCallError _ _ st _ m _ _ _ _ _ _) =
     (case st of
        Some status \<Rightarrow> (if m \<noteq> [] then ''HTTP '' @ show_nat (unat status) @ '': '' @ m
                        else ''HTTP '' @ show_nat (unat status))
      | None \<Rightarrow> m)"

fun show_error :: "aimux_error \<Rightarrow> string"
and show_retry_error :: "retry_error \<Rightarrow> string"
and retry_attempt_message :: "aimux_error \<Rightarrow> string"
and cause_message :: "error_cause \<Rightarrow> string" where
  "show_error (ApiCall api) = ''API call error: '' @ show_api_call_error api"
| "show_error (Retry r) = show_retry_error r"
| "show_error (JsonParse m _) = ''JSON parse error: '' @ m"
| "show_error (NoOutputGenerated m _) = m"
| "show_error (InvalidResponseData m _) = ''invalid response data: '' @ m"
| "show_error (TypeValidation m _ _) = m"
| "show_error (ToolCallNotFoundForApproval t a) =
     ''Tool call '' @ dq @ t @ dq @ '' not found for approval request '' @ dq @ a @ dq @ ''.''"
| "show_error (NoSuchTool t av _) =
     ''Model tried to call unavailable tool '' @ sq @ t @ sq @ ''. '' @ no_such_tool_availability av"
| "show_error (InvalidToolInput t _ c) = ''Invalid input for tool '' @ t @ '': '' @ cause_message c"
| "show_error (ToolCallRepair _ c) = ''Error repairing tool call: '' @ show_error c"
| "show_error (InvalidArgument m _) = ''invalid argument: '' @ m"
| "show_error (InvalidPrompt m _) = ''invalid prompt: '' @ m"
| "show_error (LoadApiKey env d) =
     ''No API key found for '' @ d @ ''. Please provide it via the `api_key` parameter or set the `''
       @ env @ ''` environment variable.''"
| "show_error (LoadSetting env n) =
     ''No value found for setting `'' @ n @ ''`. Please provide it via the `'' @ n
       @ ''` parameter or set the `'' @ env @ ''` environment variable.''"
| "show_error (MissingToolResults ids) = missing_tool_results_message ids"
| "show_error (ToolChoiceViolation v) = tool_choice_violation_message (tcv_tool_choice v)"
| "show_error (TokenExpired m) = ''token expired: '' @ m"
| "show_error (UnsupportedFunctionality m) = ''unsupported functionality: '' @ m"
| "show_error (NoSuchModel m _) = ''no such model: '' @ m"
| "show_error (NoSuchProvider p _ _ av) =
     ''No such provider: '' @ p @ did_you_mean p av @ '' (available providers: '' @ join av '','' @ '')''"
| "show_error (Timeout m) = ''request timed out: '' @ m"
| "show_error (Aborted m) = m"
| "show_error (Other m _) = m"
| "show_retry_error (RetryError reason errors) =
     (if errors = [] then ''Retry failed without recorded errors''
      else let last_error = last (map retry_attempt_message errors) in
        (case reason of
           MaxRetriesExceeded \<Rightarrow> ''Failed after '' @ show_nat (length errors)
             @ '' attempts. Last error: '' @ last_error
         | ErrorNotRetryable \<Rightarrow> ''Failed after '' @ show_nat (length errors)
             @ '' attempts with non-retryable error: '' @ sq @ last_error @ sq))"
| "retry_attempt_message (ApiCall api) =
     (if ace_message api \<noteq> [] then ace_message api else show_api_call_error api)"
| "retry_attempt_message (Retry r) = show_retry_error r"
| "retry_attempt_message e = show_error e"
| "cause_message (CauseAiMux e) =
     (case e of
        JsonParse m _ \<Rightarrow> m | InvalidResponseData m _ \<Rightarrow> m | TypeValidation m _ _ \<Rightarrow> m
      | InvalidArgument m _ \<Rightarrow> m | InvalidPrompt m _ \<Rightarrow> m | _ \<Rightarrow> show_error e)"
| "cause_message (CauseSource e) = se_message e"

end
