(* ===== verification/Envelope.thy ===== *)
theory Envelope
  imports Errors
begin

text \<open>
  The operation errors of \<open>src/aimux-ops/src/envelope.rs\<close>: the four error domains, the numeric code
  of each error, its text, its JSON payload and the envelope handed to a language binding.
  \<open>serde_json::to_value\<close> on an \<open>AiMuxError\<close> is the argument \<open>to_value\<close>; an \<open>io::Error\<close> is the
  \<open>SourceError\<close> it projects to.
\<close>

section \<open>Handle kinds\<close>

datatype handle_kind =
  KProvider | KRegistry | KLanguage | KEmbedding | KImage | KSpeech | KTranscription | KReranking
| KVideo | KSearch | KDecision | KFiles | KOperation | KAbort | KFetch | KWebSocket | KDownload
| KCredentialResolver | KMiddleware | KTraceStore | KRecorder | KSessionStore | KReplaySession

definition all_handle_kinds :: "handle_kind list" where
  "all_handle_kinds =
     [KProvider, KRegistry, KLanguage, KEmbedding, KImage, KSpeech, KTranscription, KReranking,
      KVideo, KSearch, KDecision, KFiles, KOperation, KAbort, KFetch, KWebSocket, KDownload,
      KCredentialResolver, KMiddleware, KTraceStore, KRecorder, KSessionStore, KReplaySession]"

lemma all_handle_kinds_complete [simp]: "k \<in> set all_handle_kinds"
  by (cases k) (simp_all add: all_handle_kinds_def)

text \<open>The derived \<open>Debug\<close> and \<open>Serialize\<close> texts are the variant's name.\<close>

fun kind_name :: "handle_kind \<Rightarrow> string" where
  "kind_name KProvider = ''Provider''"
| "kind_name KRegistry = ''Registry''"
| "kind_name KLanguage = ''Language''"
| "kind_name KEmbedding = ''Embedding''"
| "kind_name KImage = ''Image''"
| "kind_name KSpeech = ''Speech''"
| "kind_name KTranscription = ''Transcription''"
| "kind_name KReranking = ''Reranking''"
| "kind_name KVideo = ''Video''"
| "kind_name KSearch = ''Search''"
| "kind_name KDecision = ''Decision''"
| "kind_name KFiles = ''Files''"
| "kind_name KOperation = ''Operation''"
| "kind_name KAbort = ''Abort''"
| "kind_name KFetch = ''Fetch''"
| "kind_name KWebSocket = ''WebSocket''"
| "kind_name KDownload = ''Download''"
| "kind_name KCredentialResolver = ''CredentialResolver''"
| "kind_name KMiddleware = ''Middleware''"
| "kind_name KTraceStore = ''TraceStore''"
| "kind_name KRecorder = ''Recorder''"
| "kind_name KSessionStore = ''SessionStore''"
| "kind_name KReplaySession = ''ReplaySession''"

section \<open>Operation errors\<close>

datatype recording_error =
  RecInit string source_error
| RecOpenFile string source_error
| RecSpawn source_error
| RecWriterGone
| RecFlushTimeout
| RecWrite string

datatype binding_error =
  NullPointer string
| InvalidUtf8 string
| InvalidWireJson string string "source_error option"
| InvalidHandle "handle_kind list" "handle_kind option"
| ReentrantCall
| ResultSerialization string "source_error option"
| CallbackFailure string

datatype protocol_error =
  InvalidOp string
| InvalidParams string "source_error option"
| UnsupportedOpsVersion string
| ConcurrentConsumer
| InvalidState string
| ResourceLimit string
| HandleExhausted

datatype ops_error =
  OpsAiMux aimux_error
| OpsRecording recording_error
| OpsBinding binding_error
| OpsProtocol protocol_error

type_synonym 'a ops_result = "ops_error + 'a"

definition invalid_state :: "string \<Rightarrow> ops_error" where
  "invalid_state message = OpsProtocol (InvalidState message)"

definition resource_limit :: "string \<Rightarrow> ops_error" where
  "resource_limit message = OpsProtocol (ResourceLimit message)"

section \<open>Codes\<close>

fun aimux_code :: "aimux_error \<Rightarrow> int" where
  "aimux_code (Other _ _) = 1"
| "aimux_code (JsonParse _ _) = 2"
| "aimux_code (InvalidResponseData _ _) = 3"
| "aimux_code (TypeValidation _ _ _) = 3"
| "aimux_code (ToolCallNotFoundForApproval _ _) = 3"
| "aimux_code (ToolChoiceViolation _) = 3"
| "aimux_code (InvalidArgument _ _) = 5"
| "aimux_code (InvalidPrompt _ _) = 6"
| "aimux_code (MissingToolResults _) = 6"
| "aimux_code (TokenExpired _) = 7"
| "aimux_code (UnsupportedFunctionality _) = 8"
| "aimux_code (NoSuchModel _ _) = 9"
| "aimux_code (NoSuchProvider _ _ _ _) = 10"
| "aimux_code (ApiCall _) = 11"
| "aimux_code (Timeout _) = 12"
| "aimux_code (Aborted _) = 13"
| "aimux_code (Retry _) = 14"
| "aimux_code (NoSuchTool _ _ _) = 15"
| "aimux_code (InvalidToolInput _ _ _) = 16"
| "aimux_code (ToolCallRepair _ _) = 17"
| "aimux_code (NoOutputGenerated _ _) = 18"
| "aimux_code (LoadApiKey _ _) = 19"
| "aimux_code (LoadSetting _ _) = 20"

fun code :: "ops_error \<Rightarrow> int" where
  "code (OpsAiMux e) = aimux_code e"
| "code (OpsRecording e) = (case e of
     RecInit _ _ \<Rightarrow> 100 | RecOpenFile _ _ \<Rightarrow> 101 | RecSpawn _ \<Rightarrow> 102
   | RecWriterGone \<Rightarrow> 103 | RecFlushTimeout \<Rightarrow> 104 | RecWrite _ \<Rightarrow> 105)"
| "code (OpsBinding e) = (case e of
     NullPointer _ \<Rightarrow> 200 | InvalidUtf8 _ \<Rightarrow> 201 | InvalidWireJson _ _ _ \<Rightarrow> 202
   | InvalidHandle _ _ \<Rightarrow> 203 | ReentrantCall \<Rightarrow> 204 | ResultSerialization _ _ \<Rightarrow> 205
   | CallbackFailure _ \<Rightarrow> 206)"
| "code (OpsProtocol e) = (case e of
     InvalidOp _ \<Rightarrow> 300 | InvalidParams _ _ \<Rightarrow> 301 | UnsupportedOpsVersion _ \<Rightarrow> 302
   | ConcurrentConsumer \<Rightarrow> 303 | InvalidState _ \<Rightarrow> 304 | ResourceLimit _ \<Rightarrow> 305
   | HandleExhausted \<Rightarrow> 306)"

section \<open>Texts\<close>

fun show_recording_error :: "recording_error \<Rightarrow> string" where
  "show_recording_error (RecInit path source) =
     ''recording init failed for '' @ path @ '': '' @ se_message source"
| "show_recording_error (RecOpenFile path source) =
     ''failed to open recording file '' @ path @ '': '' @ se_message source"
| "show_recording_error (RecSpawn source) =
     ''failed to spawn recording writer thread: '' @ se_message source"
| "show_recording_error RecWriterGone = ''recording writer thread unavailable''"
| "show_recording_error RecFlushTimeout = ''recording flush timed out''"
| "show_recording_error (RecWrite m) = ''recording write failed: '' @ m"

definition debug_kinds :: "handle_kind list \<Rightarrow> string" where
  "debug_kinds ks = ''['' @ join (map kind_name ks) '', '' @ '']''"

definition debug_kind_option :: "handle_kind option \<Rightarrow> string" where
  "debug_kind_option k = (case k of None \<Rightarrow> ''None'' | Some k \<Rightarrow> ''Some('' @ kind_name k @ '')'')"

fun show_binding_error :: "binding_error \<Rightarrow> string" where
  "show_binding_error (NullPointer argument) = argument @ '': must not be NULL''"
| "show_binding_error (InvalidUtf8 argument) = argument @ '': must be valid UTF-8''"
| "show_binding_error (InvalidWireJson argument message _) = argument @ '': invalid JSON: '' @ message"
| "show_binding_error (InvalidHandle expected actual) =
     ''invalid or expired handle: expected '' @ debug_kinds expected
       @ '', actual '' @ debug_kind_option actual"
| "show_binding_error ReentrantCall = ''re-entrant FFI call from within a callback is not allowed''"
| "show_binding_error (ResultSerialization message _) = ''could not serialize result: '' @ message"
| "show_binding_error (CallbackFailure message) = ''host callback failed: '' @ message"

fun show_protocol_error :: "protocol_error \<Rightarrow> string" where
  "show_protocol_error (InvalidOp message) = ''invalid op: '' @ message"
| "show_protocol_error (InvalidParams message _) = ''invalid params: '' @ message"
| "show_protocol_error (UnsupportedOpsVersion message) = ''unsupported ops version: '' @ message"
| "show_protocol_error ConcurrentConsumer = ''operation already has a consumer''"
| "show_protocol_error (InvalidState message) = ''invalid state: '' @ message"
| "show_protocol_error (ResourceLimit message) = ''resource limit: '' @ message"
| "show_protocol_error HandleExhausted = ''handle IDs exhausted''"

fun show_ops_error :: "ops_error \<Rightarrow> string" where
  "show_ops_error (OpsAiMux e) = show_error e"
| "show_ops_error (OpsRecording e) = show_recording_error e"
| "show_ops_error (OpsBinding e) = show_binding_error e"
| "show_ops_error (OpsProtocol e) = show_protocol_error e"

section \<open>Payloads and the envelope\<close>

datatype error_domain = DomainAiMux | DomainRecording | DomainBinding | DomainProtocol

record error_envelope =
  ee_kind :: error_domain
  ee_code :: int
  ee_message :: string
  ee_error :: json

fun source_error_json :: "source_error \<Rightarrow> json" where
  "source_error_json (SourceError m c) = JObject ((''message'', JString m) #
     (case c of None \<Rightarrow> [] | Some c \<Rightarrow> [(''cause'', source_error_json c)]))"

definition with_cause :: "json_object \<Rightarrow> source_error option \<Rightarrow> json_object" where
  "with_cause payload cause =
     (case cause of None \<Rightarrow> payload | Some c \<Rightarrow> payload @ [(''cause'', source_error_json c)])"

definition named :: "string \<Rightarrow> string \<times> json" where
  "named n = (''name'', JString n)"

fun recording_payload :: "recording_error \<Rightarrow> json_object" where
  "recording_payload (RecInit path source) =
     [named ''Init'', (''path'', JString path), (''cause'', source_error_json source)]"
| "recording_payload (RecOpenFile path source) =
     [named ''OpenFile'', (''path'', JString path), (''cause'', source_error_json source)]"
| "recording_payload (RecSpawn source) = [named ''Spawn'', (''cause'', source_error_json source)]"
| "recording_payload RecWriterGone = [named ''WriterGone'']"
| "recording_payload RecFlushTimeout = [named ''FlushTimeout'']"
| "recording_payload (RecWrite message) = [named ''Write'', (''message'', JString message)]"

fun binding_payload :: "binding_error \<Rightarrow> json_object" where
  "binding_payload (NullPointer argument) = [named ''NullPointer'', (''argument'', JString argument)]"
| "binding_payload (InvalidUtf8 argument) = [named ''InvalidUtf8'', (''argument'', JString argument)]"
| "binding_payload (InvalidWireJson argument message cause) =
     with_cause [named ''InvalidWireJson'', (''argument'', JString argument),
                 (''message'', JString message)] cause"
| "binding_payload (InvalidHandle expected actual) =
     [named ''InvalidHandle'', (''expected'', JArray (map (JString \<circ> kind_name) expected))]
       @ (case actual of None \<Rightarrow> [] | Some k \<Rightarrow> [(''actual'', JString (kind_name k))])"
| "binding_payload ReentrantCall = [named ''ReentrantCall'']"
| "binding_payload (ResultSerialization message cause) =
     with_cause [named ''ResultSerialization'', (''message'', JString message)] cause"
| "binding_payload (CallbackFailure message) =
     [named ''CallbackFailure'', (''message'', JString message)]"

fun protocol_payload :: "protocol_error \<Rightarrow> json_object" where
  "protocol_payload (InvalidOp message) = [named ''InvalidOp'', (''message'', JString message)]"
| "protocol_payload (InvalidParams message cause) =
     with_cause [named ''InvalidParams'', (''message'', JString message)] cause"
| "protocol_payload (UnsupportedOpsVersion message) =
     [named ''UnsupportedOpsVersion'', (''message'', JString message)]"
| "protocol_payload ConcurrentConsumer = [named ''ConcurrentConsumer'']"
| "protocol_payload (InvalidState message) = [named ''InvalidState'', (''message'', JString message)]"
| "protocol_payload (ResourceLimit message) = [named ''ResourceLimit'', (''message'', JString message)]"
| "protocol_payload HandleExhausted = [named ''HandleExhausted'']"

definition result_serialization :: "source_error \<Rightarrow> binding_error" where
  "result_serialization e = ResultSerialization (se_message e) (Some e)"

text \<open>
  When the serializer rejects an \<open>AiMuxError\<close>, the envelope is that of the binding error
  \<open>ResultSerialization\<close>; a binding error needs no serializer, so this goes one level deep.
\<close>

definition seal :: "error_domain \<Rightarrow> ops_error \<Rightarrow> json \<Rightarrow> error_envelope" where
  "seal kind e payload =
     \<lparr>ee_kind = kind, ee_code = code e, ee_message = show_ops_error e, ee_error = payload\<rparr>"

definition envelope :: "(aimux_error \<Rightarrow> source_error + json) \<Rightarrow> ops_error \<Rightarrow> error_envelope" where
  "envelope to_value e = (case e of
     OpsAiMux a \<Rightarrow> (case to_value a of
         Inr payload \<Rightarrow> seal DomainAiMux e payload
       | Inl err \<Rightarrow> (let b = result_serialization err
                     in seal DomainBinding (OpsBinding b) (JObject (binding_payload b))))
   | OpsRecording r \<Rightarrow> seal DomainRecording e (JObject (recording_payload r))
   | OpsBinding b \<Rightarrow> seal DomainBinding e (JObject (binding_payload b))
   | OpsProtocol p \<Rightarrow> seal DomainProtocol e (JObject (protocol_payload p)))"

section \<open>Properties\<close>

fun domain_of_code :: "int \<Rightarrow> error_domain" where
  "domain_of_code c = (if c < 100 then DomainAiMux else if c < 200 then DomainRecording
                       else if c < 300 then DomainBinding else DomainProtocol)"

lemma aimux_code_range: "1 \<le> aimux_code e" "aimux_code e \<le> 20" "aimux_code e \<noteq> 4"
  by (cases e; simp)+

lemma recording_code_range: "code (OpsRecording r) \<in> {100..105}"
  by (cases r) simp_all

lemma binding_code_range: "code (OpsBinding b) \<in> {200..206}"
  by (cases b) simp_all

lemma protocol_code_range: "code (OpsProtocol p) \<in> {300..306}"
  by (cases p) simp_all

lemma named_inject [simp]: "named m = named n \<longleftrightarrow> m = n"
  by (simp add: named_def)

text \<open>
  Every envelope is consistent: its domain is the one its numeric code falls into, the code is
  positive and never the retired code 4, and the error payload of a non-core error is an object
  whose first field is the variant's \<open>name\<close>.
\<close>

lemma envelope_consistent:
  "let env = envelope to_value e in
     ee_kind env = domain_of_code (ee_code env) \<and> 0 < ee_code env \<and> ee_code env \<noteq> 4 \<and>
     (ee_kind env = DomainAiMux \<or> (\<exists>n fs. ee_error env = JObject (named n # fs)))"
proof -
  have binding: "\<exists>n fs. binding_payload b = named n # fs" for b
    by (cases b) (auto simp: with_cause_def split: option.splits)
  have protocol: "\<exists>n fs. protocol_payload p = named n # fs" for p
    by (cases p) (auto simp: with_cause_def split: option.splits)
  have recording: "\<exists>n fs. recording_payload r = named n # fs" for r
    by (cases r) auto
  show ?thesis
  proof (cases e)
    case (OpsAiMux a)
    then show ?thesis using aimux_code_range [of a]
      by (auto simp: envelope_def seal_def Let_def result_serialization_def with_cause_def
          split: sum.splits)
  next
    case (OpsRecording r)
    then show ?thesis using recording_code_range [of r] recording [of r]
      by (auto simp: envelope_def seal_def simp del: code.simps)
  next
    case (OpsBinding b)
    then show ?thesis using binding_code_range [of b] binding [of b]
      by (auto simp: envelope_def seal_def simp del: code.simps)
  next
    case (OpsProtocol p)
    then show ?thesis using protocol_code_range [of p] protocol [of p]
      by (auto simp: envelope_def seal_def simp del: code.simps)
  qed
qed

end
