(* ===== verification/Handles.thy ===== *)
theory Handles
  imports Envelope
begin

text \<open>
  The handle registry of \<open>src/aimux-ops/src/handle.rs\<close>: decimal handle ids, the process-wide id
  allocator (its atomic compare-and-swap loop with any number of threads), and the owner-checked
  table of resources. A resource (an \<open>Arc\<close>) is a reference of type \<open>'r\<close>; the hash map is the list of
  its entries in the order an iteration would visit them.
\<close>

section \<open>Handle ids as decimal strings\<close>

definition handle_to_string :: "u64 \<Rightarrow> string" where
  "handle_to_string hid = show_nat (unat hid)"

definition handle_from_str :: "string \<Rightarrow> string + u64" where
  "handle_from_str value =
     (if value = [] \<or> \<not> list_all is_ascii_digit value then Inl ''expected a decimal handle string''
      else (case parse_digits (2 ^ 64) 0 value of
              None \<Rightarrow> Inl ''number too large to fit in target type''
            | Some n \<Rightarrow> Inr (of_nat n)))"

lemma handle_from_str_Inr:
  "handle_from_str v = Inr hid \<longleftrightarrow>
     v \<noteq> [] \<and> list_all is_ascii_digit v \<and> dec_val 0 v < 2 ^ 64 \<and> hid = of_nat (dec_val 0 v)"
  by (auto simp: handle_from_str_def parse_digits_dec_val)

interpretation handle_id: codec handle_to_string handle_from_str "\<lambda>_. True"
proof unfold_locales
  fix hid :: u64
  have "unat hid < 2 ^ 64" using unsigned_less [of hid, where 'a = nat] by simp
  then show "handle_from_str (handle_to_string hid) = Inr hid"
    by (simp add: handle_from_str_Inr handle_to_string_def show_nat_digits)
qed

section \<open>The hid allocator\<close>

definition allocate :: "u64 \<Rightarrow> u64 ops_result \<times> u64" where
  "allocate next =
     (if next = 0 then (Inl (OpsProtocol HandleExhausted), next)
      else (Inr next, unwrap_or 0 (checked_add next 1)))"

text \<open>
  The counter value 0 stands for exhaustion. \<open>counter_pos\<close> reads it as the number the allocator would
  give out next, so that it only grows.
\<close>

definition counter_pos :: "u64 \<Rightarrow> nat" where
  "counter_pos next = (if next = 0 then 2 ^ 64 else unat next)"

lemma counter_pos_bounds: "0 < counter_pos c" "counter_pos c \<le> 2 ^ 64"
  using unsigned_less [of c, where 'a = nat] by (auto simp: counter_pos_def unat_gt_0)

lemma counter_pos_following:
  "c \<noteq> 0 \<Longrightarrow> counter_pos (unwrap_or 0 (checked_add c 1)) = Suc (counter_pos c)"
proof (cases "checked_add c 1")
  case None
  assume "c \<noteq> 0"
  moreover have "unat c < 2 ^ 64" using unsigned_less [of c, where 'a = nat] by simp
  moreover have "2 ^ 64 \<le> unat c + 1" using None by (simp add: checked_add_None)
  ultimately show ?thesis using None by (simp add: unwrap_or_def counter_pos_def)
next
  case (Some d)
  assume "c \<noteq> 0"
  moreover have d: "unat d = Suc (unat c)" using Some by (simp add: checked_add_Some)
  moreover have "d \<noteq> 0" using d by auto
  ultimately show ?thesis using Some by (simp add: unwrap_or_def counter_pos_def)
qed

lemma allocate_Inr:
  "allocate c = (Inr hid, c') \<longleftrightarrow> c \<noteq> 0 \<and> hid = c \<and> c' = unwrap_or 0 (checked_add c 1)"
  by (auto simp: allocate_def)

lemma allocate_counter_pos:
  "allocate c = (Inr hid, c') \<Longrightarrow> unat hid = counter_pos c \<and> counter_pos c' = Suc (counter_pos c)"
  by (auto simp: allocate_Inr counter_pos_following) (simp add: counter_pos_def)

lemma allocate_Inl: "allocate c = (Inl e, c') \<longleftrightarrow> c = 0 \<and> c' = 0 \<and> e = OpsProtocol HandleExhausted"
  by (auto simp: allocate_def)

subsection \<open>Concurrent callers\<close>

text \<open>
  Each thread runs the loop of \<open>allocate\<close>: load the counter, then try to replace it. The weak
  compare-and-swap may fail although the counter still has the expected value.
\<close>

datatype alloc_pc = Start | Loaded u64 | Finished "u64 ops_result"

record alloc_sys =
  counter :: u64
  pcs :: "nat \<Rightarrow> alloc_pc"

datatype alloc_label = Internal nat | Allocated nat u64 | Exhausted nat | Return nat

inductive alloc_step :: "alloc_sys \<Rightarrow> alloc_label \<Rightarrow> alloc_sys \<Rightarrow> bool" where
  load: "pcs s t = Start \<Longrightarrow>
    alloc_step s (Internal t) (s\<lparr>pcs := (pcs s)(t := Loaded (counter s))\<rparr>)"
| exhausted: "pcs s t = Loaded 0 \<Longrightarrow>
    alloc_step s (Exhausted t) (s\<lparr>pcs := (pcs s)(t := Finished (Inl (OpsProtocol HandleExhausted)))\<rparr>)"
| cas_ok: "pcs s t = Loaded hid \<Longrightarrow> hid \<noteq> 0 \<Longrightarrow> counter s = hid \<Longrightarrow>
    alloc_step s (Allocated t hid)
      (s\<lparr>counter := unwrap_or 0 (checked_add hid 1), pcs := (pcs s)(t := Finished (Inr hid))\<rparr>)"
| cas_fail: "pcs s t = Loaded hid \<Longrightarrow> hid \<noteq> 0 \<Longrightarrow>
    alloc_step s (Internal t) (s\<lparr>pcs := (pcs s)(t := Loaded (counter s))\<rparr>)"
| return: "pcs s t = Finished r \<Longrightarrow>
    alloc_step s (Return t) (s\<lparr>pcs := (pcs s)(t := Start)\<rparr>)"

inductive_cases alloc_stepE: "alloc_step s l s'"

fun allocated_ids :: "alloc_label list \<Rightarrow> u64 list" where
  "allocated_ids [] = []"
| "allocated_ids (Allocated t hid # ls) = hid # allocated_ids ls"
| "allocated_ids (_ # ls) = allocated_ids ls"

text \<open>Each atomic step is either silent on the counter or one call of \<open>allocate\<close>.\<close>

lemma alloc_step_refines:
  "alloc_step s l s' \<Longrightarrow>
     (case l of Allocated _ hid \<Rightarrow> allocate (counter s) = (Inr hid, counter s')
      | _ \<Rightarrow> counter s' = counter s)"
  by (auto elim!: alloc_stepE simp: allocate_Inr)

lemma run_allocated_ids:
  "run alloc_step s ls s' \<Longrightarrow>
     map unat (allocated_ids ls) = [counter_pos (counter s)..<counter_pos (counter s')] \<and>
     counter_pos (counter s) \<le> counter_pos (counter s')"
proof (induction rule: run.induct)
  case (run_Cons s l t ls u)
  note step = alloc_step_refines [OF run_Cons.hyps(1)]
  show ?case
  proof (cases l)
    case (Allocated th hid)
    with step have "allocate (counter s) = (Inr hid, counter t)" by simp
    from allocate_counter_pos [OF this] run_Cons.IH Allocated show ?thesis
      by (auto simp: upt_rec [of "counter_pos (counter s)"])
  qed (use step run_Cons.IH in auto)
qed simp

text \<open>
  C4. Concurrent allocation is linearizable: however the threads' loads and compare-and-swaps
  interleave (spurious failures included), the ids handed out are consecutive starting at the
  counter, so they are pairwise distinct, never 0, and never wrap around past the 64-bit maximum.
\<close>

theorem concurrent_allocation_unique:
  assumes "run alloc_step s ls s'"
  shows "map unat (allocated_ids ls) = [counter_pos (counter s)..<counter_pos (counter s')] \<and>
    distinct (allocated_ids ls) \<and> 0 \<notin> set (allocated_ids ls)"
proof (intro conjI)
  show ids: "map unat (allocated_ids ls) = [counter_pos (counter s)..<counter_pos (counter s')]"
    using run_allocated_ids [OF assms] by blast
  then have "distinct (map unat (allocated_ids ls))" by simp
  then show "distinct (allocated_ids ls)" by (simp add: distinct_map)
  have "0 \<notin> set (map unat (allocated_ids ls))"
    unfolding ids using counter_pos_bounds(1) [of "counter s"] by simp
  then show "0 \<notin> set (allocated_ids ls)" by (auto intro: rev_image_eqI)
qed

text \<open>Two threads race for the first id; the loser's compare-and-swap fails and it gets the next.\<close>

theorem concurrent_allocation_unique_witness:
  "let s = \<lparr>counter = 1, pcs = (\<lambda>_. Start)\<rparr>;
       ls = [Internal 0, Internal 1, Allocated 0 1, Internal 1, Allocated 1 2]
   in \<exists>s'. run alloc_step s ls s' \<and> map unat (allocated_ids ls) = [1..<3] \<and>
        distinct (allocated_ids ls) \<and> 0 \<notin> set (allocated_ids ls)"
proof -
  let ?st = "\<lambda>c p q. \<lparr>counter = c, pcs = (\<lambda>_. Start)(0 := p, 1 := q)\<rparr>"
  let ?ls = "[Internal 0, Internal 1, Allocated 0 1, Internal 1, Allocated 1 2]"
  have init: "\<lparr>counter = 1, pcs = (\<lambda>_. Start)\<rparr> = ?st 1 Start Start" by (simp add: fun_upd_idem)
  have following: "unwrap_or 0 (checked_add 1 1) = (2 :: u64)" "unwrap_or 0 (checked_add 2 1) = (3 :: u64)"
    by (simp_all add: checked_add_def unwrap_or_def)
  have r: "run alloc_step (?st 1 Start Start) ?ls (?st 3 (Finished (Inr 1)) (Finished (Inr 2)))"
  proof (intro run.run_Cons)
    show "alloc_step (?st 1 Start Start) (Internal 0) (?st 1 (Loaded 1) Start)"
      using load [of "?st 1 Start Start" 0] by (simp add: fun_upd_twist)
    show "alloc_step (?st 1 (Loaded 1) Start) (Internal 1) (?st 1 (Loaded 1) (Loaded 1))"
      using load [of "?st 1 (Loaded 1) Start" 1] by simp
    show "alloc_step (?st 1 (Loaded 1) (Loaded 1)) (Allocated 0 1) (?st 2 (Finished (Inr 1)) (Loaded 1))"
      using cas_ok [of "?st 1 (Loaded 1) (Loaded 1)" 0 1] following by (simp add: fun_upd_twist)
    show "alloc_step (?st 2 (Finished (Inr 1)) (Loaded 1)) (Internal 1) (?st 2 (Finished (Inr 1)) (Loaded 2))"
      using cas_fail [of "?st 2 (Finished (Inr 1)) (Loaded 1)" 1 1] by simp
    show "alloc_step (?st 2 (Finished (Inr 1)) (Loaded 2)) (Allocated 1 2)
        (?st 3 (Finished (Inr 1)) (Finished (Inr 2)))"
      using cas_ok [of "?st 2 (Finished (Inr 1)) (Loaded 2)" 1 2] following by simp
  qed (rule run.run_Nil)
  have "counter_pos 1 = 1" "counter_pos 3 = 3" by (simp_all add: counter_pos_def)
  with concurrent_allocation_unique [OF r] r show ?thesis
    unfolding Let_def init by (intro exI [of _ "?st 3 (Finished (Inr 1)) (Finished (Inr 2))"]) simp
qed

section \<open>The registry\<close>

datatype owner = CProcess | Node u64 | Python u64

datatype 'r entry =
  Provider 'r | Registry 'r | Language 'r | Embedding 'r | Image 'r | Speech 'r | Transcription 'r
| Reranking 'r | Video 'r | Search 'r | Decision 'r | Files 'r | Operation 'r | Abort 'r | Fetch 'r
| WebSocket 'r | Download 'r | CredentialResolver 'r | Middleware 'r | TraceStore 'r | Recorder 'r
| SessionStore 'r | ReplaySession 'r

fun kind :: "'r entry \<Rightarrow> handle_kind" where
  "kind (Provider _) = KProvider" | "kind (Registry _) = KRegistry"
| "kind (Language _) = KLanguage" | "kind (Embedding _) = KEmbedding"
| "kind (Image _) = KImage" | "kind (Speech _) = KSpeech"
| "kind (Transcription _) = KTranscription" | "kind (Reranking _) = KReranking"
| "kind (Video _) = KVideo" | "kind (Search _) = KSearch"
| "kind (Decision _) = KDecision" | "kind (Files _) = KFiles"
| "kind (Operation _) = KOperation" | "kind (Abort _) = KAbort"
| "kind (Fetch _) = KFetch" | "kind (WebSocket _) = KWebSocket"
| "kind (Download _) = KDownload" | "kind (CredentialResolver _) = KCredentialResolver"
| "kind (Middleware _) = KMiddleware" | "kind (TraceStore _) = KTraceStore"
| "kind (Recorder _) = KRecorder" | "kind (SessionStore _) = KSessionStore"
| "kind (ReplaySession _) = KReplaySession"

text \<open>The process state a registry works with: the two static counters and the table.\<close>

record 'r handle_state =
  next_id :: u64
  next_owner :: u64
  entries :: "(u64 \<times> owner \<times> 'r entry) list"

definition new_handle_state :: "'r handle_state" where
  "new_handle_state = \<lparr>next_id = 1, next_owner = 1, entries = []\<rparr>"

definition new_node :: "'r handle_state \<Rightarrow> owner ops_result \<times> 'r handle_state" where
  "new_node s = (let (r, c) = allocate (next_owner s) in (map_sum (\<lambda>e. e) Node r, s\<lparr>next_owner := c\<rparr>))"

definition new_python :: "'r handle_state \<Rightarrow> owner ops_result \<times> 'r handle_state" where
  "new_python s =
     (let (r, c) = allocate (next_owner s) in (map_sum (\<lambda>e. e) Python r, s\<lparr>next_owner := c\<rparr>))"

definition insert_handle ::
  "owner \<Rightarrow> 'r entry \<Rightarrow> 'r handle_state \<Rightarrow> u64 ops_result \<times> 'r handle_state" where
  "insert_handle owner entry s =
     (case allocate (next_id s) of
        (Inl e, c) \<Rightarrow> (Inl e, s\<lparr>next_id := c\<rparr>)
      | (Inr hid, c) \<Rightarrow>
          (Inr hid, s\<lparr>next_id := c, entries := hash_insert hid (owner, entry) (entries s)\<rparr>))"

definition get_handle ::
  "owner \<Rightarrow> u64 \<Rightarrow> handle_kind list \<Rightarrow> 'r handle_state \<Rightarrow> 'r entry ops_result" where
  "get_handle owner hid allowed s =
     (let entry = (case map_of (entries s) hid of
                     Some (entry_owner, e) \<Rightarrow> if entry_owner = owner then Some e else None
                   | None \<Rightarrow> None)
      in case entry of
           Some e \<Rightarrow> (if kind e \<in> set allowed then Inr e
                      else Inl (OpsBinding (InvalidHandle allowed (Some (kind e)))))
         | None \<Rightarrow> Inl (OpsBinding (InvalidHandle allowed None)))"

definition remove_handle ::
  "owner \<Rightarrow> u64 \<Rightarrow> 'r handle_state \<Rightarrow> 'r entry option \<times> 'r handle_state" where
  "remove_handle owner hid s =
     (case map_of (entries s) hid of
        Some (entry_owner, e) \<Rightarrow>
          (if entry_owner = owner then (Some e, s\<lparr>entries := hash_remove hid (entries s)\<rparr>) else (None, s))
      | None \<Rightarrow> (None, s))"

text \<open>
  \<open>release_owner\<close> takes every entry of the owner out of the table first; its result is the number of
  entries and the operations on which \<open>consumer_close\<close> is then called.
\<close>

definition release_owner ::
  "owner \<Rightarrow> 'r handle_state \<Rightarrow> (nat \<times> 'r list) \<times> 'r handle_state" where
  "release_owner owner s =
     (let ids = map fst (filter (\<lambda>(_, found, _). found = owner) (entries s));
          (removed, table) = fold (\<lambda>hid (acc, es).
             case map_of es hid of
               Some (_, e) \<Rightarrow> (acc @ [e], hash_remove hid es)
             | None \<Rightarrow> (acc, es)) ids ([], entries s);
          closed = List.map_filter (\<lambda>e. case e of Operation r \<Rightarrow> Some r | _ \<Rightarrow> None) removed
      in ((length removed, closed), s\<lparr>entries := table\<rparr>))"

subsection \<open>The table\<close>

text \<open>
  The loop of \<open>release_owner\<close> over the owner's ids, on a table with distinct keys, takes out exactly
  the owner's entries, in table order.
\<close>

lemma release_loop:
  fixes es :: "(u64 \<times> owner \<times> 'r entry) list"
  assumes "distinct (map fst (pre @ es))" and "\<forall>(_, found, _) \<in> set pre. found \<noteq> owner"
  shows "fold (\<lambda>hid (acc, es). case map_of es hid of
               Some (_, e) \<Rightarrow> (acc @ [e], hash_remove hid es) | None \<Rightarrow> (acc, es))
           (map fst (filter (\<lambda>(_, found, _). found = owner) es)) (acc, pre @ es)
         = (acc @ map (snd \<circ> snd) (filter (\<lambda>(_, found, _). found = owner) es),
            pre @ filter (\<lambda>(_, found, _). found \<noteq> owner) es)"
  using assms
proof (induction es arbitrary: pre acc)
  case (Cons x es)
  obtain h found e where x: "x = (h, found, e)" by (cases x)
  have fresh: "h \<notin> fst ` set pre" "h \<notin> fst ` set es" using Cons.prems(1) x by auto
  show ?case
  proof (cases "found = owner")
    case True
    have "map_of (pre @ x # es) h = Some (owner, e)"
      using fresh True by (simp add: x map_add_def iffD2 [OF map_of_eq_None_iff])
    moreover have "hash_remove h (pre @ x # es) = pre @ es"
      using fresh by (simp add: x hash_remove_fresh)
    ultimately show ?thesis using Cons.IH [of pre "acc @ [e]"] Cons.prems True by (simp add: x)
  next
    case False
    then show ?thesis using Cons.IH [of "pre @ [x]" acc] Cons.prems by (simp add: x)
  qed
qed simp

lemma operation_ref:
  "(case e of Operation r \<Rightarrow> Some r | _ \<Rightarrow> None) = Some r \<longleftrightarrow> e = Operation r"
  by (cases e) auto

definition owned :: "owner \<Rightarrow> 'r handle_state \<Rightarrow> 'r entry list" where
  "owned owner s = map (snd \<circ> snd) (filter (\<lambda>(_, found, _). found = owner) (entries s))"

lemma release_owner_eq:
  "distinct (map fst (entries s)) \<Longrightarrow>
   release_owner owner s =
     ((length (owned owner s),
       List.map_filter (\<lambda>e. case e of Operation r \<Rightarrow> Some r | _ \<Rightarrow> None) (owned owner s)),
      s\<lparr>entries := filter (\<lambda>(_, found, _). found \<noteq> owner) (entries s)\<rparr>)"
  using release_loop [of "[]" "entries s" owner "[]"]
  by (simp add: release_owner_def Let_def owned_def)

lemma map_of_filter_owner:
  "distinct (map fst xs) \<Longrightarrow>
   map_of (filter (\<lambda>(_, found, _). found \<noteq> owner) xs) h =
     (case map_of xs h of Some (found, e) \<Rightarrow> if found = owner then None else Some (found, e)
      | None \<Rightarrow> None)"
  by (induction xs) (auto simp: map_of_eq_None_iff image_iff split: option.splits)

subsection \<open>The invariant\<close>

text \<open>Keys are distinct, and every live id was given out by the allocator before.\<close>

definition registry_ok :: "'r handle_state \<Rightarrow> bool" where
  "registry_ok s \<longleftrightarrow> distinct (map fst (entries s)) \<and>
     (\<forall>h \<in> fst ` set (entries s). h \<noteq> 0 \<and> unat h < counter_pos (next_id s))"

datatype 'r handle_call =
  CallInsert owner "'r entry" | CallGet owner u64 "handle_kind list"
| CallRemove owner u64 | CallRelease owner

fun apply_call :: "'r handle_call \<Rightarrow> 'r handle_state \<Rightarrow> 'r handle_state" where
  "apply_call (CallInsert own e) s = snd (insert_handle own e s)"
| "apply_call (CallGet own h ks) s = s"
| "apply_call (CallRemove own h) s = snd (remove_handle own h s)"
| "apply_call (CallRelease own) s = snd (release_owner own s)"

fun caller :: "'r handle_call \<Rightarrow> owner" where
  "caller (CallInsert own _) = own" | "caller (CallGet own _ _) = own"
| "caller (CallRemove own _) = own" | "caller (CallRelease own) = own"

definition handle_step :: "'r handle_state \<Rightarrow> 'r handle_call \<Rightarrow> 'r handle_state \<Rightarrow> bool" where
  "handle_step s c t \<longleftrightarrow> t = apply_call c s"

definition handle_view :: "'r handle_state \<Rightarrow> u64 \<Rightarrow> (owner \<times> 'r entry) option" where
  "handle_view s = map_of (entries s)"

lemma insert_handle_cases:
  assumes "registry_ok s"
  obtains (exhausted) "next_id s = 0" "insert_handle own e s = (Inl (OpsProtocol HandleExhausted), s)"
  | (ok) c where "next_id s \<noteq> 0" "handle_view s (next_id s) = None"
      "counter_pos c = Suc (counter_pos (next_id s))"
      "insert_handle own e s = (Inr (next_id s),
         s\<lparr>next_id := c, entries := hash_insert (next_id s) (own, e) (entries s)\<rparr>)"
proof (cases "next_id s = 0")
  case True
  then show ?thesis by (intro exhausted) (simp_all add: insert_handle_def allocate_def)
next
  case False
  have "next_id s \<notin> fst ` set (entries s)"
    using assms False by (auto simp: registry_ok_def counter_pos_def)
  then have "handle_view s (next_id s) = None" by (simp add: handle_view_def map_of_eq_None_iff)
  then show ?thesis using False
    by (intro ok) (simp_all add: insert_handle_def allocate_def counter_pos_following)
qed

lemma next_id_below: "next_id s \<noteq> 0 \<Longrightarrow> unat (next_id s) = counter_pos (next_id s)"
  by (simp add: counter_pos_def)

lemma registry_ok_insert: "registry_ok s \<Longrightarrow> registry_ok (snd (insert_handle own e s))"
  by (cases rule: insert_handle_cases [of s own e])
    (auto simp: registry_ok_def next_id_below dest: less_SucI)

lemma registry_ok_remove: "registry_ok s \<Longrightarrow> registry_ok (snd (remove_handle own h s))"
  by (auto simp: registry_ok_def remove_handle_def hash_remove_def distinct_map_filter
      split: option.splits)

lemma registry_ok_release: "registry_ok s \<Longrightarrow> registry_ok (snd (release_owner own s))"
  by (auto simp: registry_ok_def release_owner_eq distinct_map_filter)

interpretation registry: invariant_system handle_step registry_ok
proof unfold_locales
  fix s :: "'r handle_state" and c t
  assume "registry_ok s" "handle_step s c t"
  then show "registry_ok t"
    by (cases c) (auto simp: handle_step_def registry_ok_insert registry_ok_remove registry_ok_release)
qed


subsection \<open>Isolation of owners\<close>

text \<open>
  What an owner-checked store promises its callers: a call made by one owner neither changes nor
  creates an entry of another.
\<close>

locale owned_store = invariant_system step inv
  for step :: "'s \<Rightarrow> 'l \<Rightarrow> 's \<Rightarrow> bool" and inv :: "'s \<Rightarrow> bool" +
  fixes view :: "'s \<Rightarrow> 'i \<Rightarrow> ('o \<times> 'e) option"
    and actor :: "'l \<Rightarrow> 'o"
  assumes foreign_kept: "inv s \<Longrightarrow> step s l t \<Longrightarrow> actor l \<noteq> own \<Longrightarrow>
      view s i = Some (own, e) \<Longrightarrow> view t i = Some (own, e)"
    and foreign_not_made: "inv s \<Longrightarrow> step s l t \<Longrightarrow> actor l \<noteq> own \<Longrightarrow>
      view t i = Some (own, e) \<Longrightarrow> view s i = Some (own, e)"
begin

lemma run_isolated:
  assumes "run step s ls t" and "inv s" and "\<forall>l \<in> set ls. actor l \<noteq> own"
  shows "view t i = Some (own, e) \<longleftrightarrow> view s i = Some (own, e)"
  using assms
proof (induction rule: run.induct)
  case (run_Cons s l t ls u)
  then have "view u i = Some (own, e) \<longleftrightarrow> view t i = Some (own, e)"
    by (auto intro: inv_step)
  also have "\<dots> \<longleftrightarrow> view s i = Some (own, e)"
    using run_Cons.prems run_Cons.hyps(1) by (auto intro: foreign_kept foreign_not_made)
  finally show ?case .
qed simp

end

lemma view_insert:
  "registry_ok s \<Longrightarrow> handle_view (snd (insert_handle own e s)) =
     (if next_id s = 0 then handle_view s else (handle_view s)(next_id s \<mapsto> (own, e)))"
  by (cases rule: insert_handle_cases [of s own e]) (auto simp: handle_view_def)

lemma view_remove:
  "handle_view (snd (remove_handle own h s)) =
     (case handle_view s h of
        Some (own', e) \<Rightarrow> if own' = own then (handle_view s)(h := None) else handle_view s
      | None \<Rightarrow> handle_view s)"
  by (auto simp: handle_view_def remove_handle_def split: option.splits)

lemma view_release:
  "registry_ok s \<Longrightarrow> handle_view (snd (release_owner own s)) h =
     (case handle_view s h of
        Some (own', e) \<Rightarrow> if own' = own then None else Some (own', e) | None \<Rightarrow> None)"
  by (simp add: handle_view_def registry_ok_def release_owner_eq map_of_filter_owner)

lemmas view_simps = view_insert view_remove view_release

lemma fresh_next_id: "registry_ok s \<Longrightarrow> next_id s \<noteq> 0 \<Longrightarrow> handle_view s (next_id s) = None"
  by (cases rule: insert_handle_cases [of s CProcess "Abort undefined"]) auto

lemma used_next_id: "registry_ok s \<Longrightarrow> handle_view s (next_id s) = Some x \<Longrightarrow> next_id s = 0"
  using fresh_next_id [of s] by auto

interpretation handles: owned_store handle_step registry_ok handle_view caller
proof unfold_locales
  fix s :: "'r handle_state" and c t own h e
  assume ok: "registry_ok s" and step: "handle_step s c t" and c: "caller c \<noteq> own"
  show "handle_view t h = Some (own, e)" if "handle_view s h = Some (own, e)"
    using that step c ok by (cases c)
      (auto simp: handle_step_def view_simps dest: used_next_id split: option.splits)
  show "handle_view s h = Some (own, e)" if "handle_view t h = Some (own, e)"
    using that step c ok by (cases c)
      (auto simp: handle_step_def view_simps split: option.splits if_splits)
qed

lemma get_handle_view:
  "get_handle own h ks s = (case handle_view s h of
     Some (own', e) \<Rightarrow>
       (if own' \<noteq> own then Inl (OpsBinding (InvalidHandle ks None))
        else if kind e \<in> set ks then Inr e
        else Inl (OpsBinding (InvalidHandle ks (Some (kind e)))))
   | None \<Rightarrow> Inl (OpsBinding (InvalidHandle ks None)))"
  by (auto simp: get_handle_def handle_view_def split: option.splits)

text \<open>
  Owners are isolated: whatever other owners insert, look up, remove or release, in any order,
  an owner's lookup of any handle gives the same answer (the same entry, or the same error with the
  same reported kind) as before.
\<close>

lemma owner_isolation:
  assumes "registry_ok s" and "run handle_step s calls t" and "\<forall>c \<in> set calls. caller c \<noteq> own"
  shows "get_handle own h ks t = get_handle own h ks s"
proof -
  have same: "handle_view t h = Some (own, e) \<longleftrightarrow> handle_view s h = Some (own, e)" for e
    using handles.run_isolated [OF assms(2,1,3)] .
  show ?thesis
  proof (cases "\<exists>e. handle_view s h = Some (own, e)")
    case True
    then obtain e where e: "handle_view s h = Some (own, e)" by blast
    with same have "handle_view t h = Some (own, e)" by blast
    with e show ?thesis by (simp add: get_handle_view)
  next
    case False
    with same show ?thesis by (auto simp: get_handle_view split: option.splits)
  qed
qed

lemma owner_isolation_witness:
  "let s = snd (insert_handle (Node 1) (Abort (7 :: nat)) new_handle_state);
       calls = [CallInsert CProcess (Abort 8), CallRemove CProcess 1, CallRelease (Python 1)];
       t = fold apply_call calls s
   in get_handle (Node 1) 1 [KAbort] t = get_handle (Node 1) 1 [KAbort] s \<and>
      get_handle (Node 1) 1 [KAbort] s = Inr (Abort 7)"
proof -
  let ?s = "snd (insert_handle (Node 1) (Abort (7 :: nat)) new_handle_state)"
  let ?calls = "[CallInsert CProcess (Abort 8), CallRemove CProcess 1, CallRelease (Python 1)]"
  have ok: "registry_ok ?s" by (rule registry_ok_insert) (simp add: registry_ok_def new_handle_state_def)
  have "run handle_step ?s ?calls (fold apply_call ?calls ?s)"
    by (auto intro!: run.run_Cons simp: handle_step_def)
  from owner_isolation [OF ok this, of "Node 1" 1 "[KAbort]"]
  show ?thesis
    by (simp add: Let_def) (simp add: insert_handle_def allocate_def new_handle_state_def get_handle_def)
qed

subsection \<open>Handles are never reused\<close>

lemma next_id_grows: "registry_ok s \<Longrightarrow> counter_pos (next_id s) \<le> counter_pos (next_id (apply_call c s))"
proof (cases c)
  case (CallInsert own e)
  assume "registry_ok s"
  then show ?thesis using CallInsert by (cases rule: insert_handle_cases [of s own e]) auto
qed (auto simp: remove_handle_def release_owner_def Let_def split: option.splits prod.splits)

lemma stale_step:
  assumes "registry_ok s" and "unat h < counter_pos (next_id s)" and "handle_view s h = None"
  shows "handle_view (apply_call c s) h = None"
proof (cases c)
  case (CallInsert own e)
  have "h \<noteq> next_id s \<or> next_id s = 0" using assms(2) by (auto simp: counter_pos_def split: if_splits)
  then show ?thesis using assms CallInsert by (auto simp: view_insert)
qed (use assms in \<open>auto simp: view_simps split: option.splits\<close>)

lemma stale_view:
  assumes "run handle_step s calls t" and "registry_ok s"
    and "unat h < counter_pos (next_id s)" and "handle_view s h = None"
  shows "handle_view t h = None"
  using assms
proof (induction rule: run.induct)
  case (run_Cons s c t ls u)
  then have t: "t = apply_call c s" by (simp add: handle_step_def)
  have "registry_ok t" using run_Cons by (auto intro: registry.inv_step)
  moreover have "unat h < counter_pos (next_id t)"
    using run_Cons.prems next_id_grows [of s c] unfolding t by linarith
  moreover have "handle_view t h = None" unfolding t using run_Cons.prems by (intro stale_step)
  ultimately show ?case by (rule run_Cons.IH)
qed simp

text \<open>
  A handle that was given out and is no longer in the table (dropped or released) never resolves
  again for any owner, whatever calls follow: ids are not reused.
\<close>

lemma stale_handle_never_resolves:
  assumes "run handle_step s calls t" and "registry_ok s"
    and "unat h < counter_pos (next_id s)" and "handle_view s h = None"
  shows "get_handle own h ks t = Inl (OpsBinding (InvalidHandle ks None))"
  using stale_view [OF assms] by (simp add: get_handle_view)

lemma stale_handle_never_resolves_witness:
  "let s1 = snd (insert_handle (Node 1) (Abort (7 :: nat)) new_handle_state);
       s = snd (remove_handle (Node 1) 1 s1);
       t = apply_call (CallInsert (Node 1) (Abort 9)) s
   in get_handle (Node 1) 1 [KAbort] t = Inl (OpsBinding (InvalidHandle [KAbort] None))"
proof -
  let ?s1 = "snd (insert_handle (Node 1) (Abort (7 :: nat)) new_handle_state)"
  let ?s = "snd (remove_handle (Node 1) 1 ?s1)"
  let ?c = "CallInsert (Node 1) (Abort (9 :: nat))"
  have "registry_ok new_handle_state" by (simp add: registry_ok_def new_handle_state_def)
  then have ok: "registry_ok ?s" by (intro registry_ok_remove registry_ok_insert)
  have s: "?s = \<lparr>next_id = 2, next_owner = 1, entries = []\<rparr>"
    by (simp add: insert_handle_def remove_handle_def allocate_def new_handle_state_def hash_remove_def
        unwrap_or_def checked_add_def)
  have "run handle_step ?s [?c] (apply_call ?c ?s)"
    by (auto intro!: run.run_Cons simp only: handle_step_def)
  from stale_handle_never_resolves [OF this ok, of 1 "Node 1" "[KAbort]"]
  show ?thesis unfolding Let_def by (simp add: s counter_pos_def handle_view_def del: apply_call.simps)
qed

text \<open>
  \<open>release_owner\<close> removes all and only the owner's entries, reports how many there were, and
  closes the consumer of every operation among them; afterwards the owner resolves nothing.
\<close>

lemma release_owner_exact:
  assumes "registry_ok s" and "release_owner own s = ((count, closed), t)"
  shows "count = length (filter (\<lambda>(_, own', _). own' = own) (entries s)) \<and>
    set closed = {r. \<exists>h. handle_view s h = Some (own, Operation r)} \<and>
    get_handle own h ks t = Inl (OpsBinding (InvalidHandle ks None)) \<and>
    (own' \<noteq> own \<longrightarrow> get_handle own' h ks t = get_handle own' h ks s)"
proof -
  have d: "distinct (map fst (entries s))" using assms(1) by (simp add: registry_ok_def)
  have t: "t = snd (release_owner own s)" using assms(2) by simp
  have view: "handle_view s h' = Some (own, e) \<longleftrightarrow> (h', own, e) \<in> set (entries s)" for h' e
    using d by (simp add: handle_view_def)
  have "closed = List.map_filter (\<lambda>e. case e of Operation r \<Rightarrow> Some r | _ \<Rightarrow> None) (owned own s)"
    using assms(2) by (simp add: release_owner_eq [OF d])
  then have "set closed = {r. Operation r \<in> set (owned own s)}"
    by (simp add: set_map_filter operation_ref)
  also have "\<dots> = {r. \<exists>h. handle_view s h = Some (own, Operation r)}"
    unfolding view by (force simp: owned_def)
  finally have "set closed = {r. \<exists>h. handle_view s h = Some (own, Operation r)}" .
  moreover have "count = length (filter (\<lambda>(_, own', _). own' = own) (entries s))"
    using assms(2) by (simp add: release_owner_eq [OF d] owned_def)
  moreover have "get_handle own h ks t = Inl (OpsBinding (InvalidHandle ks None))"
    using view_release [OF assms(1), of own h] by (auto simp: t get_handle_view split: option.splits)
  moreover have "get_handle own' h ks t = get_handle own' h ks s" if "own' \<noteq> own"
    using view_release [OF assms(1), of own h] that by (auto simp: t get_handle_view split: option.splits)
  ultimately show ?thesis by blast
qed

lemma release_owner_exact_witness:
  "let s = \<lparr>next_id = 4, next_owner = 3,
            entries = [(1, Node 1, Operation (10 :: nat)), (2, Node 2, Abort 11), (3, Node 1, Abort 12)]\<rparr>
   in registry_ok s \<and> fst (release_owner (Node 1) s) = (2, [10]) \<and>
      get_handle (Node 1) 1 [KOperation] (snd (release_owner (Node 1) s))
        = Inl (OpsBinding (InvalidHandle [KOperation] None))"
proof -
  let ?s = "\<lparr>next_id = 4, next_owner = 3,
            entries = [(1, Node 1, Operation (10 :: nat)), (2, Node 2, Abort 11), (3, Node 1, Abort 12)]\<rparr>"
  have ok: "registry_ok ?s" by (simp add: registry_ok_def counter_pos_def)
  have r: "release_owner (Node 1) ?s = ((2, [10]), snd (release_owner (Node 1) ?s))"
    using ok by (simp add: release_owner_eq registry_ok_def owned_def List.map_filter_def)
  have "get_handle (Node 1) 1 [KOperation] (snd (release_owner (Node 1) ?s))
      = Inl (OpsBinding (InvalidHandle [KOperation] None))"
    using release_owner_exact [OF ok r] by blast
  moreover have "fst (release_owner (Node 1) ?s) = (2, [10])" using r by (rule arg_cong [where f = fst, THEN trans]) simp
  ultimately show ?thesis using ok unfolding Let_def by blast
qed

text \<open>
  A lookup right after an insertion returns the inserted resource to its owner for any set of
  kinds that allows it; a foreign owner gets the same error as for a handle that never existed, with
  no kind revealed; and an exhausted allocator changes nothing.
\<close>

lemma get_after_insert:
  assumes "registry_ok s"
  shows "case insert_handle own e s of
      (Inr h, t) \<Rightarrow> h \<noteq> 0 \<and> (kind e \<in> set ks \<longrightarrow> get_handle own h ks t = Inr e) \<and>
        (own' \<noteq> own \<longrightarrow> get_handle own' h ks t = Inl (OpsBinding (InvalidHandle ks None)))
    | (Inl err, t) \<Rightarrow> next_id s = 0 \<and> t = s \<and> err = OpsProtocol HandleExhausted"
  using assms
  by (cases rule: insert_handle_cases [of s own e]) (auto simp: get_handle_view handle_view_def)

theorem get_after_insert_witness:
  "case insert_handle CProcess (Abort (5 :: nat)) new_handle_state of
      (Inr h, t) \<Rightarrow> h = 1 \<and> get_handle CProcess h [KAbort] t = Inr (Abort 5) \<and>
        get_handle (Node 1) h [KAbort] t = Inl (OpsBinding (InvalidHandle [KAbort] None))
    | (Inl err, t) \<Rightarrow> False"
proof -
  have ok: "registry_ok new_handle_state" by (simp add: registry_ok_def new_handle_state_def)
  have "fst (insert_handle CProcess (Abort (5 :: nat)) new_handle_state) = Inr 1"
    by (simp add: insert_handle_def allocate_def new_handle_state_def)
  with get_after_insert [OF ok, where own = CProcess and e = "Abort (5 :: nat)" and ks = "[KAbort]"
      and own' = "Node 1"] show ?thesis
    by (auto split: prod.splits sum.splits)
qed

text \<open>
  Handle ids survive their text form: the decimal string of any 64-bit id reads back as that id,
  and reading accepts exactly the nonempty strings of ASCII digits whose value fits 64 bits.
\<close>

lemma handle_id_round_trip:
  "handle_from_str (handle_to_string h) = Inr h \<and>
   ((\<exists>h'. handle_from_str v = Inr h') \<longleftrightarrow>
      v \<noteq> [] \<and> list_all is_ascii_digit v \<and> dec_val 0 v < 2 ^ 64)"
  using handle_id.decode_encode [of h] by (auto simp: handle_from_str_Inr)

end
