(* ===== verification/Limits.thy ===== *)
theory Limits
  imports Envelope
begin

text \<open>
  The byte- and item-bounded queue of \<open>src/aimux-ops/src/limits.rs\<close>: budgets, reservations (permits)
  taken before a payload is allocated, commit, release, terminal publication, receiving and closing.
  Every function below is one critical section under the queue's mutex; a caller that would wait for
  a notification gets \<open>Waiting\<close> or \<open>Pending\<close> and tries again. The size of an item is the argument
  \<open>byte_len\<close> (the \<open>QueueItem\<close> trait).
\<close>

section \<open>Budgets\<close>

definition AUDIO_INPUT_ITEMS :: usize where "AUDIO_INPUT_ITEMS = 64"
definition OUTPUT_ITEMS :: usize where "OUTPUT_ITEMS = 256"
definition QUEUE_BYTES :: usize where "QUEUE_BYTES = 8 * 1024 * 1024"
definition ITEM_BYTES :: usize where "ITEM_BYTES = 1024 * 1024"

record queue_limits =
  max_items :: usize
  max_bytes :: usize
  max_item_bytes :: usize

definition audio_input :: queue_limits where
  "audio_input = \<lparr>max_items = AUDIO_INPUT_ITEMS, max_bytes = QUEUE_BYTES, max_item_bytes = ITEM_BYTES\<rparr>"

definition output_limits :: queue_limits where
  "output_limits = audio_input\<lparr>max_items := OUTPUT_ITEMS\<rparr>"

definition lowered :: "queue_limits \<Rightarrow> usize \<Rightarrow> usize \<Rightarrow> usize \<Rightarrow> queue_limits ops_result" where
  "lowered l items bytes item_bytes =
     (if items = 0 \<or> bytes = 0 \<or> item_bytes = 0 \<or> items > max_items l \<or> bytes > max_bytes l
         \<or> item_bytes > max_item_bytes l
      then Inl (resource_limit ''queue limits must be positive and may only be lowered'')
      else Inr \<lparr>max_items = items, max_bytes = bytes, max_item_bytes = item_bytes\<rparr>)"

definition check_item :: "queue_limits \<Rightarrow> usize \<Rightarrow> unit ops_result" where
  "check_item l bytes =
     (if bytes > max_item_bytes l \<or> bytes > max_bytes l
      then Inl (resource_limit ''payload exceeds the single-item or queue byte limit'') else Inr ())"

section \<open>The queue\<close>

datatype queue_status = QOpen | QFinished | QConsumerClosed

datatype ('t, 'e) queue_event = QData 't | QTerminal 'e

datatype 'e terminal = TOpen | TReady 'e | TDelivered

record ('t, 'e) queue_state =
  qdata :: "('t \<times> usize) list"
  used_items :: usize
  used_bytes :: usize
  qterminal :: "'e terminal"
  consumer_closed :: bool

definition bounded_queue :: "('t, 'e) queue_state" where
  "bounded_queue =
     \<lparr>qdata = [], used_items = 0, used_bytes = 0, qterminal = TOpen, consumer_closed = False\<rparr>"

definition ensure_open :: "('t, 'e) queue_state \<Rightarrow> unit ops_result" where
  "ensure_open s =
     (if consumer_closed s then Inl (invalid_state ''consumerClosed'')
      else if qterminal s \<noteq> TOpen then Inl (invalid_state ''queue already terminal'')
      else Inr ())"

datatype reservation = Granted usize | Rejected ops_error | Waiting

definition reserve ::
  "queue_limits \<Rightarrow> usize \<Rightarrow> bool \<Rightarrow> ('t, 'e) queue_state \<Rightarrow> reservation \<times> ('t, 'e) queue_state" where
  "reserve l bytes aborted s =
     (case check_item l bytes of Inl e \<Rightarrow> (Rejected e, s) | Inr _ \<Rightarrow>
        (if aborted then (Rejected (OpsAiMux (Aborted ''queue send aborted'')), s)
         else (case ensure_open s of Inl e \<Rightarrow> (Rejected e, s) | Inr _ \<Rightarrow>
           (if used_items s < max_items l \<and> bytes \<le> max_bytes l - used_bytes s
            then (Granted bytes,
                  s\<lparr>used_items := used_items s + 1, used_bytes := used_bytes s + bytes\<rparr>)
            else (Waiting, s)))))"

text \<open>Dropping a permit that still holds its bytes gives both budgets back.\<close>

definition drop_permit :: "usize \<Rightarrow> ('t, 'e) queue_state \<Rightarrow> ('t, 'e) queue_state" where
  "drop_permit bytes s = s\<lparr>used_items := used_items s - 1, used_bytes := used_bytes s - bytes\<rparr>"

text \<open>
  \<open>QueuePermit::send\<close> consumes the permit: where it fails, the permit is dropped with its bytes.
\<close>

definition permit_send ::
  "('t \<Rightarrow> usize) \<Rightarrow> usize \<Rightarrow> 't \<Rightarrow> ('t, 'e) queue_state \<Rightarrow> unit ops_result \<times> ('t, 'e) queue_state" where
  "permit_send byte_len reserved item s =
     (let actual = byte_len item in
      if actual > reserved
      then (Inl (resource_limit ''payload exceeds its reserved byte budget''), drop_permit reserved s)
      else (case ensure_open s of
              Inl e \<Rightarrow> (Inl e, drop_permit reserved s)
            | Inr _ \<Rightarrow> (Inr (), s\<lparr>used_bytes := used_bytes s - (reserved - actual),
                                 qdata := qdata s @ [(item, actual)]\<rparr>)))"

text \<open>\<open>QueueSender::send\<close>: reserve the size of the item, then commit it.\<close>

datatype sent = Sent | SendFailed ops_error | SendWaits

definition queue_send ::
  "queue_limits \<Rightarrow> ('t \<Rightarrow> usize) \<Rightarrow> 't \<Rightarrow> bool \<Rightarrow> ('t, 'e) queue_state \<Rightarrow> sent \<times> ('t, 'e) queue_state" where
  "queue_send l byte_len item aborted s =
     (case reserve l (byte_len item) aborted s of
        (Granted b, s') \<Rightarrow> (case permit_send byte_len b item s' of
            (Inr _, s'') \<Rightarrow> (Sent, s'') | (Inl e, s'') \<Rightarrow> (SendFailed e, s''))
      | (Rejected e, s') \<Rightarrow> (SendFailed e, s')
      | (Waiting, s') \<Rightarrow> (SendWaits, s'))"

definition finish :: "'e \<Rightarrow> ('t, 'e) queue_state \<Rightarrow> bool \<times> ('t, 'e) queue_state" where
  "finish e s =
     (if consumer_closed s \<or> qterminal s \<noteq> TOpen then (False, s)
      else (True, s\<lparr>qterminal := TReady e\<rparr>))"

definition usage :: "('t, 'e) queue_state \<Rightarrow> usize \<times> usize" where
  "usage s = (used_items s, used_bytes s)"

definition status :: "('t, 'e) queue_state \<Rightarrow> queue_status" where
  "status s = (if consumer_closed s then QConsumerClosed
               else if qterminal s = TOpen then QOpen else QFinished)"

datatype ('t, 'e) received = Event "('t, 'e) queue_event" | EndOfQueue | Pending

definition recv :: "('t, 'e) queue_state \<Rightarrow> ('t, 'e) received \<times> ('t, 'e) queue_state" where
  "recv s =
     (if consumer_closed s then (EndOfQueue, s)
      else (case qdata s of
              (item, bytes) # rest \<Rightarrow>
                (Event (QData item),
                 s\<lparr>qdata := rest, used_items := used_items s - 1, used_bytes := used_bytes s - bytes\<rparr>)
            | [] \<Rightarrow> (case qterminal s of
                TReady e \<Rightarrow> (Event (QTerminal e), s\<lparr>qterminal := TDelivered\<rparr>)
              | TDelivered \<Rightarrow> (EndOfQueue, s)
              | TOpen \<Rightarrow> (Pending, s))))"

definition close :: "('t, 'e) queue_state \<Rightarrow> ('t, 'e) queue_state" where
  "close s =
     (if consumer_closed s \<or> qterminal s = TDelivered then s
      else s\<lparr>consumer_closed := True, qdata := [],
             used_items := used_items s - of_nat (length (qdata s)),
             used_bytes := used_bytes s - sum_list (map snd (qdata s))\<rparr>)"

section \<open>Measuring a wire item\<close>

text \<open>
  The serializer writes chunk after chunk into the counter and stops when the counter refuses one.
  \<open>serde_json\<close> is the argument: the lengths of the chunks it would write and the error it would end
  with, if any.
\<close>

fun count_chunks :: "usize \<Rightarrow> usize \<Rightarrow> usize list \<Rightarrow> usize option" where
  "count_chunks maximum bytes [] = Some bytes"
| "count_chunks maximum bytes (c # cs) =
     (case checked_add bytes c of
        Some n \<Rightarrow> if n \<le> maximum then count_chunks maximum n cs else None
      | None \<Rightarrow> None)"

definition check_wire_item :: "usize list \<times> source_error option \<Rightarrow> usize \<Rightarrow> usize ops_result" where
  "check_wire_item written maximum =
     (case count_chunks maximum 0 (fst written) of
        None \<Rightarrow> Inl (resource_limit ''wire item exceeds byte budget'')
      | Some bytes \<Rightarrow> (case snd written of
            Some e \<Rightarrow> Inl (OpsBinding (result_serialization e))
          | None \<Rightarrow> Inr bytes))"

section \<open>The queue with its producers\<close>

text \<open>
  A queue in use: its shared state and the permits that are alive, each with its id and its bytes.
  A label records one call and what it accepted or delivered.
\<close>

record ('t, 'e) queue_sys =
  shared :: "('t, 'e) queue_state"
  permits :: "(nat \<times> usize) list"

datatype ('t, 'e) queue_label =
  LReserve nat usize | LRefused ops_error | LBlocked | LCommit nat 't | LCommitFailed nat ops_error
| LDrop nat | LFinish 'e bool | LRecv "('t, 'e) received" | LClose

definition remove_permit :: "nat \<Rightarrow> (nat \<times> usize) list \<Rightarrow> (nat \<times> usize) list" where
  "remove_permit p ps = filter (\<lambda>(p', _). p' \<noteq> p) ps"

inductive queue_step ::
  "queue_limits \<Rightarrow> ('t \<Rightarrow> usize) \<Rightarrow> ('t, 'e) queue_sys \<Rightarrow> ('t, 'e) queue_label \<Rightarrow> ('t, 'e) queue_sys \<Rightarrow> bool"
  for l :: queue_limits and byte_len :: "'t \<Rightarrow> usize" where
  reserve_granted: "reserve l bytes aborted (shared s) = (Granted b, q) \<Longrightarrow> p \<notin> fst ` set (permits s) \<Longrightarrow>
    queue_step l byte_len s (LReserve p b) \<lparr>shared = q, permits = (p, b) # permits s\<rparr>"
| reserve_rejected: "reserve l bytes aborted (shared s) = (Rejected e, q) \<Longrightarrow>
    queue_step l byte_len s (LRefused e) (s\<lparr>shared := q\<rparr>)"
| reserve_waits: "reserve l bytes aborted (shared s) = (Waiting, q) \<Longrightarrow>
    queue_step l byte_len s LBlocked (s\<lparr>shared := q\<rparr>)"
| commit: "map_of (permits s) p = Some b \<Longrightarrow> permit_send byte_len b item (shared s) = (Inr u, q) \<Longrightarrow>
    queue_step l byte_len s (LCommit p item) \<lparr>shared = q, permits = remove_permit p (permits s)\<rparr>"
| commit_failed: "map_of (permits s) p = Some b \<Longrightarrow>
    permit_send byte_len b item (shared s) = (Inl e, q) \<Longrightarrow>
    queue_step l byte_len s (LCommitFailed p e) \<lparr>shared = q, permits = remove_permit p (permits s)\<rparr>"
| dropped: "map_of (permits s) p = Some b \<Longrightarrow>
    queue_step l byte_len s (LDrop p)
      \<lparr>shared = drop_permit b (shared s), permits = remove_permit p (permits s)\<rparr>"
| finished: "finish e (shared s) = (ok, q) \<Longrightarrow>
    queue_step l byte_len s (LFinish e ok) (s\<lparr>shared := q\<rparr>)"
| received: "recv (shared s) = (r, q) \<Longrightarrow> queue_step l byte_len s (LRecv r) (s\<lparr>shared := q\<rparr>)"
| closed: "queue_step l byte_len s LClose (s\<lparr>shared := close (shared s)\<rparr>)"

inductive_cases queue_stepE: "queue_step l byte_len s lab t"

definition init_queue :: "('t, 'e) queue_sys" where
  "init_queue = \<lparr>shared = bounded_queue, permits = []\<rparr>"

section \<open>The budget invariant\<close>

definition sum_bytes :: "('a \<times> usize) list \<Rightarrow> nat" where
  "sum_bytes xs = sum_list (map (unat \<circ> snd) xs)"

lemma sum_bytes_simps [simp]:
  "sum_bytes [] = 0"
  "sum_bytes (x # xs) = unat (snd x) + sum_bytes xs"
  "sum_bytes (xs @ ys) = sum_bytes xs + sum_bytes ys"
  by (simp_all add: sum_bytes_def)

lemma unat_sum_snd:
  "sum_bytes xs < 2 ^ 64 \<Longrightarrow> unat (sum_list (map snd xs) :: usize) = sum_bytes xs"
  by (induction xs) (auto simp: unat_add_fits)

definition queue_ok :: "queue_limits \<Rightarrow> ('t \<Rightarrow> usize) \<Rightarrow> ('t, 'e) queue_sys \<Rightarrow> bool" where
  "queue_ok l byte_len s \<longleftrightarrow>
     unat (used_items (shared s)) = length (qdata (shared s)) + length (permits s)
   \<and> unat (used_bytes (shared s)) = sum_bytes (qdata (shared s)) + sum_bytes (permits s)
   \<and> used_items (shared s) \<le> max_items l
   \<and> used_bytes (shared s) \<le> max_bytes l
   \<and> distinct (map fst (permits s))
   \<and> (\<forall>(x, b) \<in> set (qdata (shared s)). b = byte_len x)
   \<and> (consumer_closed (shared s) \<or> qterminal (shared s) = TDelivered \<longrightarrow> qdata (shared s) = [])"

lemma remove_permit_absent: "p \<notin> fst ` set ps \<Longrightarrow> remove_permit p ps = ps"
  unfolding remove_permit_def by (rule filter_True) force

lemma remove_permit_measures:
  assumes "distinct (map fst ps)" and "map_of ps p = Some b"
  shows "length ps = Suc (length (remove_permit p ps)) \<and> sum_bytes ps = unat b + sum_bytes (remove_permit p ps)"
  using assms
proof (induction ps)
  case (Cons x ps)
  obtain p' b' where x: "x = (p', b')" by (cases x)
  show ?case
  proof (cases "p' = p")
    case True
    with Cons.prems x have "remove_permit p ps = ps" and "b' = b"
      by (auto intro: remove_permit_absent)
    with True x show ?thesis by (simp add: remove_permit_def)
  next
    case False
    with Cons x show ?thesis by (simp add: remove_permit_def)
  qed
qed simp

lemma remove_permit_distinct: "distinct (map fst ps) \<Longrightarrow> distinct (map fst (remove_permit p ps))"
  by (induction ps) (auto simp: remove_permit_def)



lemma unat_usize_max: "unat (w :: usize) < 2 ^ 64"
  using unsigned_less [of w, where 'a = nat] by simp

lemma reserve_ok:
  assumes "queue_ok l byte_len s" and "reserve l bytes aborted (shared s) = (Granted b, q)"
    and "p \<notin> fst ` set (permits s)"
  shows "queue_ok l byte_len \<lparr>shared = q, permits = (p, b) # permits s\<rparr>"
proof -
  have room: "used_items (shared s) < max_items l" "b \<le> max_bytes l - used_bytes (shared s)"
    and q: "q = (shared s)\<lparr>used_items := used_items (shared s) + 1, used_bytes := used_bytes (shared s) + b\<rparr>"
    using assms(2) by (auto simp: reserve_def split: sum.splits if_splits)
  have le: "unat (used_bytes (shared s)) \<le> unat (max_bytes l)"
    using assms(1) by (simp add: queue_ok_def word_le_nat_alt)
  have items: "unat (used_items (shared s) + 1) = unat (used_items (shared s)) + 1"
    using room(1) unat_usize_max [of "max_items l"] by (subst unat_add_fits) (auto simp: word_less_nat_alt)
  have sum: "unat (used_bytes (shared s)) + unat b \<le> unat (max_bytes l)"
    using room(2) le by (simp add: word_le_nat_alt unat_sub_le)
  then have bytes: "unat (used_bytes (shared s) + b) = unat (used_bytes (shared s)) + unat b"
    using unat_usize_max [of "max_bytes l"] by (subst unat_add_fits) auto
  show ?thesis
    using assms(1,3) room(1) items bytes sum unfolding q queue_ok_def
    by (simp add: word_le_nat_alt word_less_nat_alt)
qed

lemma drop_permit_ok:
  assumes ok: "queue_ok l byte_len s" and p: "map_of (permits s) p = Some b"
  shows "queue_ok l byte_len \<lparr>shared = drop_permit b (shared s), permits = remove_permit p (permits s)\<rparr>"
proof -
  have "distinct (map fst (permits s))" using ok by (simp add: queue_ok_def)
  note m = remove_permit_measures [OF this p] remove_permit_distinct [OF this, of p]
  have "unat (used_items (shared s) - 1) = unat (used_items (shared s)) - 1"
    using ok m by (subst unat_sub_le) (auto simp: queue_ok_def)
  moreover have "unat (used_bytes (shared s) - b) = unat (used_bytes (shared s)) - unat b"
    using ok m by (subst unat_sub_le) (auto simp: queue_ok_def)
  ultimately show ?thesis
    using ok m by (simp add: queue_ok_def drop_permit_def word_le_nat_alt)
qed

lemma permit_send_ok:
  assumes ok: "queue_ok l byte_len s" and p: "map_of (permits s) p = Some b"
    and sent: "permit_send byte_len b item (shared s) = (r, q)"
  shows "queue_ok l byte_len \<lparr>shared = q, permits = remove_permit p (permits s)\<rparr>"
proof (cases r)
  case (Inl e)
  then have "q = drop_permit b (shared s)"
    using sent by (auto simp: permit_send_def Let_def split: if_splits sum.splits)
  then show ?thesis using drop_permit_ok [OF ok p] by simp
next
  case (Inr u)
  have len: "byte_len item \<le> b" and opened: "\<not> consumer_closed (shared s)" "qterminal (shared s) = TOpen"
    and q: "q = (shared s)\<lparr>used_bytes := used_bytes (shared s) - (b - byte_len item),
                           qdata := qdata (shared s) @ [(item, byte_len item)]\<rparr>"
    using sent Inr by (auto simp: permit_send_def ensure_open_def Let_def split: if_splits)
  have "distinct (map fst (permits s))" using ok by (simp add: queue_ok_def)
  note m = remove_permit_measures [OF this p] remove_permit_distinct [OF this, of p]
  have spare: "unat (b - byte_len item) = unat b - unat (byte_len item)"
    using len by (subst unat_sub_le) (auto simp: word_le_nat_alt)
  then have "unat (used_bytes (shared s) - (b - byte_len item))
      = unat (used_bytes (shared s)) - (unat b - unat (byte_len item))"
    using ok m by (subst unat_sub_le) (auto simp: queue_ok_def)
  then show ?thesis
    using ok m len opened unfolding q by (auto simp: queue_ok_def word_le_nat_alt)
qed

lemma recv_ok:
  assumes ok: "queue_ok l byte_len s" and r: "recv (shared s) = (r, q)"
  shows "queue_ok l byte_len (s\<lparr>shared := q\<rparr>)"
proof (cases "qdata (shared s)")
  case Nil
  then show ?thesis
    using ok r by (auto simp: recv_def queue_ok_def split: if_splits terminal.splits)
next
  case (Cons x rest)
  obtain item b where x: "x = (item, b)" by (cases x)
  have opened: "\<not> consumer_closed (shared s)" "qterminal (shared s) \<noteq> TDelivered"
    using ok Cons by (auto simp: queue_ok_def)
  then have q: "q = (shared s)\<lparr>qdata := rest, used_items := used_items (shared s) - 1,
                               used_bytes := used_bytes (shared s) - b\<rparr>"
    using r Cons x by (simp add: recv_def)
  have "unat (used_items (shared s) - 1) = unat (used_items (shared s)) - 1"
    using ok Cons by (subst unat_sub_le) (auto simp: queue_ok_def)
  moreover have "unat (used_bytes (shared s) - b) = unat (used_bytes (shared s)) - unat b"
    using ok Cons x by (subst unat_sub_le) (auto simp: queue_ok_def)
  ultimately show ?thesis
    using ok Cons x opened unfolding q by (simp add: queue_ok_def word_le_nat_alt)
qed

lemma close_ok:
  assumes ok: "queue_ok l byte_len s"
  shows "queue_ok l byte_len (s\<lparr>shared := close (shared s)\<rparr>)"
proof -
  let ?q = "shared s"
  have fits: "sum_bytes (qdata ?q) < 2 ^ 64" "length (qdata ?q) < 2 ^ 64"
    using ok unat_usize_max [of "used_bytes ?q"] unat_usize_max [of "used_items ?q"]
    by (auto simp: queue_ok_def)
  have n: "unat (of_nat (length (qdata ?q)) :: usize) = length (qdata ?q)"
    using fits(2) by (simp add: unat_of_nat take_bit_nat_eq_self)
  have "unat (used_items ?q - of_nat (length (qdata ?q))) = length (permits s)"
    using ok n by (subst unat_sub_le) (auto simp: queue_ok_def)
  moreover have "unat (used_bytes ?q - sum_list (map snd (qdata ?q))) = sum_bytes (permits s)"
    using ok unat_sum_snd [OF fits(1)] by (subst unat_sub_le) (auto simp: queue_ok_def)
  ultimately show ?thesis
    using ok by (simp add: queue_ok_def close_def word_le_nat_alt)
qed

lemma queue_step_ok:
  assumes "queue_ok l byte_len s" and "queue_step l byte_len s lab t"
  shows "queue_ok l byte_len t"
  using assms(2,1)
proof (cases rule: queue_step.cases)
  case reserve_granted
  then show ?thesis using assms(1) by (auto intro: reserve_ok)
next
  case (reserve_rejected bytes aborted e q)
  then have "q = shared s" by (auto simp: reserve_def split: sum.splits if_splits)
  then show ?thesis using reserve_rejected assms(1) by simp
next
  case (reserve_waits bytes aborted q)
  then have "q = shared s" by (auto simp: reserve_def split: sum.splits if_splits)
  then show ?thesis using reserve_waits assms(1) by simp
next
  case commit
  then show ?thesis using assms(1) by (auto intro: permit_send_ok)
next
  case commit_failed
  then show ?thesis using assms(1) by (auto intro: permit_send_ok)
next
  case dropped
  then show ?thesis using assms(1) by (auto intro: drop_permit_ok)
next
  case finished
  then show ?thesis using assms(1) by (auto simp: finish_def queue_ok_def split: if_splits)
next
  case received
  then show ?thesis using assms(1) by (auto intro: recv_ok)
next
  case closed
  then show ?thesis using assms(1) by (auto intro: close_ok)
qed

interpretation queue: invariant_system "queue_step l byte_len" "queue_ok l byte_len"
  for l :: queue_limits and byte_len :: "'t \<Rightarrow> usize"
  by unfold_locales (rule queue_step_ok)

lemma init_queue_ok: "queue_ok l byte_len init_queue"
  by (simp add: queue_ok_def init_queue_def bounded_queue_def)

section \<open>Order of data and of the terminal\<close>

text \<open>What a label committed and delivered, and which outcome it published or delivered.\<close>

fun committed :: "('t, 'e) queue_label \<Rightarrow> 't list" where
  "committed (LCommit p x) = [x]" | "committed _ = []"

fun received_items :: "('t, 'e) queue_label \<Rightarrow> 't list" where
  "received_items (LRecv (Event (QData x))) = [x]" | "received_items _ = []"

fun published :: "('t, 'e) queue_label \<Rightarrow> 'e list" where
  "published (LFinish e True) = [e]" | "published _ = []"

fun received_terminal :: "('t, 'e) queue_label \<Rightarrow> 'e list" where
  "received_terminal (LRecv (Event (QTerminal e))) = [e]" | "received_terminal _ = []"

fun terminal_slot :: "'e terminal \<Rightarrow> 'e list" where
  "terminal_slot (TReady e) = [e]" | "terminal_slot _ = []"

lemmas queue_op_defs = reserve_def permit_send_def ensure_open_def drop_permit_def finish_def recv_def
  close_def Let_def

lemma queue_step_data:
  assumes "queue_ok l byte_len s" and "queue_step l byte_len s lab t" and "lab \<noteq> LClose"
  shows "received_items lab @ map fst (qdata (shared t)) = map fst (qdata (shared s)) @ committed lab"
  using assms(2)
  by (cases rule: queue_step.cases)
     (use assms(1,3) in \<open>auto simp: queue_op_defs split: sum.splits if_splits list.splits terminal.splits\<close>)

lemma queue_step_close:
  assumes "queue_step l byte_len s LClose t"
  shows "qdata (shared t) = [] \<or> qdata (shared t) = qdata (shared s)"
  using assms by (cases rule: queue_step.cases) (auto simp: close_def)

lemma queue_step_terminal:
  assumes "queue_step l byte_len s lab t"
  shows "received_terminal lab @ terminal_slot (qterminal (shared t))
       = terminal_slot (qterminal (shared s)) @ published lab"
  using assms
  by (cases rule: queue_step.cases)
     (auto simp: queue_op_defs split: sum.splits if_splits list.splits terminal.splits)

interpretation queue_data: fifo_channel "queue_step l byte_len" "queue_ok l byte_len"
  "\<lambda>s. map fst (qdata (shared s))" committed received_items "\<lambda>lab. lab = LClose"
  for l :: queue_limits and byte_len :: "'t \<Rightarrow> usize"
  by unfold_locales (auto simp: queue_step_data dest: queue_step_close)

interpretation queue_terminal: fifo_channel "queue_step l byte_len" "queue_ok l byte_len"
  "\<lambda>s. terminal_slot (qterminal (shared s))" published received_terminal "\<lambda>lab. False"
  for l :: queue_limits and byte_len :: "'t \<Rightarrow> usize"
  by unfold_locales (auto simp: queue_step_terminal)

text \<open>Once a terminal is published nothing is committed; once it is delivered nothing is received.\<close>

lemma queue_step_not_open:
  assumes "queue_step l byte_len s lab t" and "qterminal (shared s) \<noteq> TOpen"
  shows "committed lab = [] \<and> published lab = [] \<and> qterminal (shared t) \<noteq> TOpen"
  using assms(1)
  by (cases rule: queue_step.cases)
     (use assms(2) in \<open>auto simp: queue_op_defs split: sum.splits if_splits list.splits terminal.splits\<close>)

lemma queue_run_not_open:
  assumes "run (queue_step l byte_len) s ls t" and "qterminal (shared s) \<noteq> TOpen"
  shows "concat (map committed ls) = [] \<and> concat (map published ls) = [] \<and> qterminal (shared t) \<noteq> TOpen"
  using assms
proof (induction rule: run.induct)
  case (run_Cons s lab t ls u)
  then show ?case using queue_step_not_open [OF run_Cons.hyps(1) run_Cons.prems] by simp
qed simp

definition drained :: "('t, 'e) queue_sys \<Rightarrow> bool" where
  "drained s \<longleftrightarrow> consumer_closed (shared s) \<or> qterminal (shared s) = TDelivered"

lemma queue_step_drained:
  assumes "queue_ok l byte_len s" and "queue_step l byte_len s lab t" and "drained s"
  shows "received_items lab = [] \<and> received_terminal lab = [] \<and> drained t"
  using assms(2)
  by (cases rule: queue_step.cases)
     (use assms(1,3) in \<open>auto simp: drained_def queue_ok_def queue_op_defs
        split: sum.splits if_splits list.splits terminal.splits\<close>)

lemma queue_run_drained:
  assumes "run (queue_step l byte_len) s ls t" and "queue_ok l byte_len s" and "drained s"
  shows "concat (map received_items ls) = [] \<and> concat (map received_terminal ls) = [] \<and> drained t"
  using assms
proof (induction rule: run.induct)
  case (run_Cons s lab t ls u)
  moreover have "queue_ok l byte_len t" using run_Cons queue_step_ok by blast
  ultimately show ?case using queue_step_drained [OF run_Cons.prems(1) run_Cons.hyps(1) run_Cons.prems(2)]
    by simp
qed simp

lemma queue_close_drains: "queue_step l byte_len s LClose t \<Longrightarrow> drained t"
  by (erule queue_step.cases) (auto simp: drained_def close_def)

lemma queue_run_closed:
  assumes "run (queue_step l byte_len) s ls t" and "queue_ok l byte_len s" and "LClose \<in> set ls"
  shows "drained t"
  using assms
proof (induction rule: run.induct)
  case (run_Cons s lab t ls u)
  have ok: "queue_ok l byte_len t" using run_Cons queue_step_ok by blast
  show ?case
  proof (cases "lab = LClose")
    case True
    then have "drained t" using run_Cons.hyps(1) queue_close_drains by blast
    with ok run_Cons.hyps(2) show ?thesis using queue_run_drained by blast
  next
    case False
    with run_Cons ok show ?thesis by auto
  qed
qed simp

lemma queue_run_publishes_once:
  "run (queue_step l byte_len) s ls t \<Longrightarrow> length (concat (map published ls)) \<le> 1"
proof (induction rule: run.induct)
  case (run_Cons s lab t ls u)
  show ?case
  proof (cases "published lab")
    case Nil
    with run_Cons.IH show ?thesis by simp
  next
    case (Cons e es)
    then have "lab = LFinish e True" and "es = []" by (cases lab rule: published.cases; simp)+
    then have "qterminal (shared t) \<noteq> TOpen"
      using run_Cons.hyps(1) by (auto simp: finish_def elim!: queue_stepE split: if_splits)
    then have "concat (map published ls) = []"
      using queue_run_not_open [OF run_Cons.hyps(2)] by blast
    then show ?thesis using Cons \<open>es = []\<close> by simp
  qed
qed simp

lemma init_queue_empty [simp]:
  "qdata (shared init_queue) = []" "qterminal (shared init_queue) = TOpen" "permits init_queue = []"
  by (simp_all add: init_queue_def bounded_queue_def)

lemma queue_recv_terminal:
  assumes "queue_step l byte_len s (LRecv (Event (QTerminal e))) t"
  shows "qdata (shared s) = [] \<and> qterminal (shared s) = TReady e \<and> \<not> drained s \<and> drained t"
  using assms
  by (cases rule: queue_step.cases)
     (auto simp: recv_def drained_def split: if_splits list.splits terminal.splits)

section \<open>A run of the queue\<close>

text \<open>
  Two producers reserve room, the second commits a smaller payload, the first gives up, the operation
  finishes, and the consumer drains the queue.
\<close>

definition sample_labels :: "(usize, nat) queue_label list" where
  "sample_labels = [LReserve 0 5, LReserve 1 7, LCommit 1 6, LDrop 0, LFinish 9 True,
     LRecv (Event (QData 6)), LRecv (Event (QTerminal 9))]"

definition sample_state :: "(usize \<times> usize) list \<Rightarrow> usize \<Rightarrow> usize \<Rightarrow> nat terminal \<Rightarrow> (nat \<times> usize) list
    \<Rightarrow> (usize, nat) queue_sys" where
  "sample_state d i b e ps =
     \<lparr>shared = \<lparr>qdata = d, used_items = i, used_bytes = b, qterminal = e, consumer_closed = False\<rparr>,
      permits = ps\<rparr>"

lemma sample_run:
  "run (queue_step audio_input (\<lambda>x. x)) init_queue sample_labels (sample_state [] 0 0 TDelivered [])"
proof -
  note defs = queue_op_defs sample_state_def check_item_def audio_input_def AUDIO_INPUT_ITEMS_def
    QUEUE_BYTES_def ITEM_BYTES_def remove_permit_def init_queue_def bounded_queue_def
  let ?step = "queue_step audio_input (\<lambda>x :: usize. x)"
  have 1: "?step init_queue (LReserve 0 5) (sample_state [] 1 5 TOpen [(0, 5)])"
    using queue_step.reserve_granted [where bytes = 5 and aborted = False and s = init_queue and p = 0
      and l = audio_input and byte_len = "\<lambda>x. x"] by (simp add: defs)
  have 2: "?step (sample_state [] 1 5 TOpen [(0, 5)]) (LReserve 1 7) (sample_state [] 2 12 TOpen [(1, 7), (0, 5)])"
    using queue_step.reserve_granted [where bytes = 7 and aborted = False and p = 1
      and s = "sample_state [] 1 5 TOpen [(0, 5)]" and l = audio_input and byte_len = "\<lambda>x. x"]
    by (simp add: defs)
  have 3: "?step (sample_state [] 2 12 TOpen [(1, 7), (0, 5)]) (LCommit 1 6)
      (sample_state [(6, 6)] 2 11 TOpen [(0, 5)])"
    using queue_step.commit [where p = 1 and item = 6
      and s = "sample_state [] 2 12 TOpen [(1, 7), (0, 5)]" and l = audio_input and byte_len = "\<lambda>x. x"]
    by (simp add: defs)
  have 4: "?step (sample_state [(6, 6)] 2 11 TOpen [(0, 5)]) (LDrop 0) (sample_state [(6, 6)] 1 6 TOpen [])"
    using queue_step.dropped [where p = 0 and s = "sample_state [(6, 6)] 2 11 TOpen [(0, 5)]"
      and l = audio_input and byte_len = "\<lambda>x. x"]
    by (simp add: defs)
  have 5: "?step (sample_state [(6, 6)] 1 6 TOpen []) (LFinish 9 True) (sample_state [(6, 6)] 1 6 (TReady 9) [])"
    using queue_step.finished [where e = 9 and s = "sample_state [(6, 6)] 1 6 TOpen []"
      and l = audio_input and byte_len = "\<lambda>x. x"]
    by (simp add: defs)
  have 6: "?step (sample_state [(6, 6)] 1 6 (TReady 9) []) (LRecv (Event (QData 6))) (sample_state [] 0 0 (TReady 9) [])"
    using queue_step.received [where s = "sample_state [(6, 6)] 1 6 (TReady 9) []"
      and l = audio_input and byte_len = "\<lambda>x. x"]
    by (simp add: defs)
  have 7: "?step (sample_state [] 0 0 (TReady 9) []) (LRecv (Event (QTerminal 9))) (sample_state [] 0 0 TDelivered [])"
    using queue_step.received [where s = "sample_state [] 0 0 (TReady 9) []"
      and l = audio_input and byte_len = "\<lambda>x. x"]
    by (simp add: defs)
  note step = run_Cons [where step = ?step]
  show ?thesis
    unfolding sample_labels_def
    by (intro step [OF 1] step [OF 2] step [OF 3] step [OF 4] step [OF 5] step [OF 6] step [OF 7] run_Nil)
qed

section \<open>Properties\<close>

text \<open>
  C3. Budgets. After any interleaving of reservations, commits, dropped permits, terminal
  publications, receives and closes, \<open>used_items\<close> is exactly the queued items plus the live permits and
  \<open>used_bytes\<close> the exact sum of the queued sizes plus the reserved ones, neither exceeds its maximum,
  and every queued item is charged its own size. Hence none of the subtractions of the code wraps.
\<close>

theorem queue_budgets_exact:
  assumes "run (queue_step l byte_len) init_queue ls t"
  shows "unat (used_items (shared t)) = length (qdata (shared t)) + length (permits t)
       \<and> unat (used_bytes (shared t))
           = sum_list (map (unat \<circ> byte_len \<circ> fst) (qdata (shared t))) + sum_bytes (permits t)
       \<and> used_items (shared t) \<le> max_items l \<and> used_bytes (shared t) \<le> max_bytes l"
proof -
  have ok: "queue_ok l byte_len t"
    using queue.inv_run [OF assms init_queue_ok] .
  then have "map (unat \<circ> snd) (qdata (shared t)) = map (unat \<circ> byte_len \<circ> fst) (qdata (shared t))"
    by (auto simp: queue_ok_def)
  with ok show ?thesis by (simp add: queue_ok_def sum_bytes_def)
qed

theorem queue_budgets_exact_witness:
  "run (queue_step audio_input (\<lambda>x. x)) init_queue sample_labels (sample_state [] 0 0 TDelivered [])
   \<and> used_items (shared (sample_state [] 0 0 TDelivered [])) \<le> max_items audio_input"
  using sample_run queue_budgets_exact [OF sample_run] by blast

text \<open>
  Order. What the consumer receives is a subsequence of what was committed, in commit order; until
  the consumer closes, nothing is lost: received items followed by queued items are the committed ones.
\<close>

lemma queue_fifo:
  assumes "run (queue_step l byte_len) init_queue ls t"
  shows "subseq (concat (map received_items ls)) (concat (map committed ls))
       \<and> (LClose \<notin> set ls \<longrightarrow>
            concat (map received_items ls) @ map fst (qdata (shared t)) = concat (map committed ls))"
proof -
  have "subseq (concat (map received_items ls)) (concat (map committed ls))"
    using queue_data.run_delivers_subsequence [OF assms init_queue_ok] by simp
  moreover have "LClose \<notin> set ls \<Longrightarrow>
      concat (map received_items ls) @ map fst (qdata (shared t)) = concat (map committed ls)"
    using queue_data.run_keeps_order [OF assms init_queue_ok] by auto
  ultimately show ?thesis by blast
qed

lemma queue_fifo_witness:
  "run (queue_step audio_input (\<lambda>x. x)) init_queue sample_labels (sample_state [] 0 0 TDelivered [])
   \<and> concat (map received_items sample_labels) @ map fst (qdata (shared (sample_state [] 0 0 TDelivered [])))
       = concat (map committed sample_labels)"
  using sample_run queue_fifo [OF sample_run] by (simp add: sample_labels_def sample_state_def)

text \<open>
  The terminal. When the consumer is handed a terminal, that terminal is the one outcome published
  before, every committed item was handed out before it, and afterwards nothing is committed,
  published or received any more.
\<close>

lemma queue_terminal_last_once:
  assumes "run (queue_step l byte_len) init_queue (pre @ LRecv (Event (QTerminal e)) # post) t"
  shows "concat (map published pre) = [e]
       \<and> concat (map received_items pre) = concat (map committed pre)
       \<and> concat (map committed post) = [] \<and> concat (map published post) = []
       \<and> concat (map received_items post) = [] \<and> concat (map received_terminal post) = []"
proof -
  let ?step = "queue_step l byte_len"
  obtain s u where pre: "run ?step init_queue pre s" and now: "?step s (LRecv (Event (QTerminal e))) u"
    and post: "run ?step u post t"
    using assms by (auto simp: run_append)
  have ok: "queue_ok l byte_len s" using queue.inv_run [OF pre init_queue_ok] .
  have oku: "queue_ok l byte_len u" using queue_step_ok [OF ok now] .
  note at = queue_recv_terminal [OF now]
  have out: "concat (map received_terminal pre) @ [e] = concat (map published pre)"
    using queue_terminal.run_keeps_order [OF pre init_queue_ok] at by simp
  moreover have "length (concat (map received_terminal pre) @ [e]) \<le> 1"
    unfolding out by (rule queue_run_publishes_once [OF pre])
  then have "concat (map received_terminal pre) = []"
    by (simp del: length_concat concat_eq_Nil_conv)
  moreover have "LClose \<notin> set pre"
    using queue_run_closed [OF pre init_queue_ok] at by blast
  then have "concat (map received_items pre) = concat (map committed pre)"
    using queue_data.run_keeps_order [OF pre init_queue_ok] at by auto
  moreover have "qterminal (shared u) \<noteq> TOpen"
    using queue_step_not_open [OF now] at by simp
  ultimately show ?thesis
    using queue_run_not_open [OF post] queue_run_drained [OF post oku] at by simp
qed

lemma queue_terminal_last_once_witness:
  "concat (map published [LReserve 0 5, LReserve 1 7, LCommit 1 6, LDrop 0, LFinish (9 :: nat) True,
     LRecv (Event (QData (6 :: usize)))]) = [9]"
  using queue_terminal_last_once [where l = audio_input and byte_len = "\<lambda>x. x"
      and t = "sample_state [] 0 0 TDelivered []" and e = 9 and post = "[]" and pre = "[LReserve 0 5, LReserve 1 7, LCommit 1 6, LDrop 0, LFinish 9 True, LRecv (Event (QData 6))]"]
    sample_run by (simp add: sample_labels_def)

text \<open>
  Progress. On a queue that can hold an item, a reservation that would fit the limits waits only
  while a queued item or a live permit holds capacity, and once everything is received and every
  permit is settled it is granted.
\<close>

lemma reserve_waits_for_holders:
  assumes "queue_ok l byte_len s" and "0 < max_items l" and "check_item l bytes = Inr ()"
    and "ensure_open (shared s) = Inr ()"
  shows "(fst (reserve l bytes False (shared s)) = Waiting \<longrightarrow> qdata (shared s) \<noteq> [] \<or> permits s \<noteq> [])
       \<and> (qdata (shared s) = [] \<and> permits s = [] \<longrightarrow> fst (reserve l bytes False (shared s)) = Granted bytes)"
proof -
  have "bytes \<le> max_bytes l" using assms(3) by (auto simp: check_item_def split: if_splits)
  then have "qdata (shared s) = [] \<Longrightarrow> permits s = [] \<Longrightarrow>
      used_items (shared s) < max_items l \<and> bytes \<le> max_bytes l - used_bytes (shared s)"
    using assms(1,2) by (auto simp: queue_ok_def unat_eq_zero)
  then show ?thesis using assms(3,4) by (auto simp: reserve_def)
qed

lemma reserve_waits_for_holders_witness:
  "fst (reserve audio_input 5 False (shared (init_queue :: (usize, nat) queue_sys))) = Granted 5"
  using reserve_waits_for_holders [of audio_input "\<lambda>x. x" "init_queue :: (usize, nat) queue_sys" 5]
    init_queue_ok [of audio_input "\<lambda>x :: usize. x"]
  by (auto simp: audio_input_def AUDIO_INPUT_ITEMS_def check_item_def QUEUE_BYTES_def ITEM_BYTES_def
      ensure_open_def init_queue_def bounded_queue_def)

lemma count_chunks_eq:
  "bytes \<le> maximum \<Longrightarrow> count_chunks maximum bytes cs =
     (if unat bytes + sum_list (map unat cs) \<le> unat maximum then Some (bytes + sum_list cs) else None)"
proof (induction cs arbitrary: bytes)
  case (Cons c cs)
  show ?case
  proof (cases "unat bytes + unat c \<le> unat maximum")
    case True
    then have fits: "unat (bytes + c) = unat bytes + unat c"
      using unat_usize_max [of maximum] by (subst unat_add_fits) auto
    moreover have "checked_add bytes c = Some (bytes + c)"
      using True unat_usize_max [of maximum] by (simp add: checked_add_def)
    ultimately show ?thesis
      using True Cons.IH [of "bytes + c"] by (simp add: word_le_nat_alt add.assoc)
  next
    case False
    then have "count_chunks maximum bytes (c # cs) = None"
      using unat_add_fits [of bytes c]
      by (auto simp: checked_add_def word_le_nat_alt split: option.splits)
    with False show ?thesis by simp
  qed
qed (simp add: word_le_nat_alt)

text \<open>
  Measuring. The streaming count of a wire item succeeds exactly when everything the serializer
  writes fits the budget and the serializer reports no error, and then it is the exact length; an
  item over budget is a resource limit even where the serializer would have failed later.
\<close>

lemma check_wire_item_exact:
  "check_wire_item (chunks, err) maximum =
     (if sum_list (map unat chunks) > unat maximum
      then Inl (resource_limit ''wire item exceeds byte budget'')
      else case err of Some e \<Rightarrow> Inl (OpsBinding (result_serialization e))
                     | None \<Rightarrow> Inr (sum_list chunks))
   \<and> (sum_list (map unat chunks) \<le> unat maximum \<longrightarrow> unat (sum_list chunks) = sum_list (map unat chunks))"
proof -
  have "sum_list (map unat chunks) \<le> unat maximum \<Longrightarrow> unat (sum_list chunks) = sum_list (map unat chunks)"
    using unat_sum_snd [of "map (Pair ()) chunks"] unat_usize_max [of maximum]
    by (simp add: sum_bytes_def comp_def)
  then show ?thesis
    by (auto simp: check_wire_item_def count_chunks_eq split: option.splits)
qed

lemma check_wire_item_exact_witness:
  "check_wire_item ([3, 4], None) 7 = Inr 7 \<and> unat (sum_list [3 :: usize, 4]) = 7"
  using check_wire_item_exact [of "[3, 4]" None 7] by simp

end
