(* ===== verification/Frame.thy ===== *)
theory Frame
  imports Limits
begin

text \<open>
  The framing of an operation's event stream for the native adapters (\<open>src/aimux-ops/src/frame.rs\<close>): at
  most one upstream item per frame, consecutive sequence numbers, one terminal frame. The upstream
  stream and the abort future are the answers each poll finds; serialization is the arguments
  \<open>to_value\<close> (of an error) and \<open>written\<close> (of a frame).
\<close>

section \<open>Definitions\<close>

datatype outcome = OutcomeSuccess | OutcomeError | OutcomeCancelled

datatype stream_frame = FrameEvent string json | FrameEnd string outcome "error_envelope option"

datatype upstream = UpPending | UpEnd | UpError ops_error | UpEvent json

datatype frame_poll = FramePending | FrameReady "stream_frame option"

record frame_stream =
  fs_events :: bool
  fs_cancelled :: bool
  fs_abort :: "bool option"
  fs_seq :: u64

text \<open>
  \<open>FrameStream::new\<close>: an abort signal is whether it was raised; \<open>fs_events\<close> and \<open>fs_cancelled\<close> say whether
  the upstream and the abort future are still held.
\<close>

definition new_frame_stream :: "bool option \<Rightarrow> frame_stream" where
  "new_frame_stream abort = \<lparr>fs_events = True, fs_cancelled = (abort \<noteq> None), fs_abort = abort, fs_seq = 0\<rparr>"

definition frame_end ::
  "(aimux_error \<Rightarrow> source_error + json) \<Rightarrow> outcome \<Rightarrow> ops_error option \<Rightarrow> frame_stream \<Rightarrow> frame_poll \<times> frame_stream" where
  "frame_end to_value outcome error s =
     (FrameReady (Some (FrameEnd (show_nat (unat (fs_seq s))) outcome (map_option (envelope to_value) error))),
      s\<lparr>fs_events := False, fs_cancelled := False\<rparr>)"

definition error_outcome :: "ops_error \<Rightarrow> outcome" where
  "error_outcome e = (case e of OpsAiMux (Aborted _) \<Rightarrow> OutcomeCancelled | _ \<Rightarrow> OutcomeError)"

definition poll_frame ::
  "(aimux_error \<Rightarrow> source_error + json) \<Rightarrow> (stream_frame \<Rightarrow> usize list \<times> source_error option) \<Rightarrow>
   bool \<Rightarrow> upstream \<Rightarrow> frame_stream \<Rightarrow> frame_poll \<times> frame_stream" where
  "poll_frame to_value written cancelled up s =
     (if fs_cancelled s \<and> cancelled
      then frame_end to_value OutcomeCancelled (Some (OpsAiMux (Aborted ''request aborted''))) s
      else if \<not> fs_events s then (FrameReady None, s)
      else (case up of
              UpPending \<Rightarrow> (FramePending, s)
            | UpEnd \<Rightarrow> frame_end to_value OutcomeSuccess None s
            | UpError e \<Rightarrow> frame_end to_value (error_outcome e) (Some e) s
            | UpEvent event \<Rightarrow>
                (case checked_add (fs_seq s) 1 of
                   None \<Rightarrow> frame_end to_value OutcomeError (Some (resource_limit ''stream sequence exhausted'')) s
                 | Some next_seq \<Rightarrow>
                     (let frame = FrameEvent (show_nat (unat (fs_seq s))) event in
                      case check_wire_item (written frame) ITEM_BYTES of
                        Inl e \<Rightarrow> frame_end to_value OutcomeError (Some e) s
                      | Inr _ \<Rightarrow> (FrameReady (Some frame), s\<lparr>fs_seq := next_seq\<rparr>)))))"

text \<open>\<open>Drop\<close>: an unfinished stream aborts its operation.\<close>

definition drop_frame_stream :: "frame_stream \<Rightarrow> frame_stream" where
  "drop_frame_stream s =
     (if fs_events s \<and> fs_abort s \<noteq> None then s\<lparr>fs_abort := Some True\<rparr> else s)"

definition is_terminated :: "frame_stream \<Rightarrow> bool" where
  "is_terminated s \<longleftrightarrow> \<not> fs_events s"

text \<open>A consumer that polls again and again, with the answers each poll finds.\<close>

fun poll_frames ::
  "(aimux_error \<Rightarrow> source_error + json) \<Rightarrow> (stream_frame \<Rightarrow> usize list \<times> source_error option) \<Rightarrow>
   (bool \<times> upstream) list \<Rightarrow> frame_stream \<Rightarrow> frame_poll list \<times> frame_stream" where
  "poll_frames to_value written [] s = ([], s)"
| "poll_frames to_value written ((c, up) # ups) s =
     (case poll_frame to_value written c up s of (r, s') \<Rightarrow>
        case poll_frames to_value written ups s' of (rs, s'') \<Rightarrow> (r # rs, s''))"

section \<open>Framing\<close>

definition events_of :: "(bool \<times> upstream) list \<Rightarrow> json list" where
  "events_of ups = List.map_filter (\<lambda>(_, up). case up of UpEvent e \<Rightarrow> Some e | _ \<Rightarrow> None) ups"

text \<open>The terminal frames a poll can find: cancelled with its error, ended, or failed.\<close>

definition end_frame :: "nat \<Rightarrow> stream_frame \<Rightarrow> bool" where
  "end_frame n f \<longleftrightarrow> (\<exists>out env. f = FrameEnd (show_nat n) out env \<and> (out = OutcomeSuccess \<longleftrightarrow> env = None))"

text \<open>
  The trace of a frame stream from sequence number \<open>n\<close> on: event frames in the order of the upstream
  events with consecutive numbers, and after the one terminal frame nothing but the end of the stream.
\<close>

inductive framed :: "nat \<Rightarrow> json list \<Rightarrow> frame_poll list \<Rightarrow> bool \<Rightarrow> bool" where
  framed_open: "framed n evs [] False"
| framed_pending: "framed n evs rs finished \<Longrightarrow> framed n evs (FramePending # rs) finished"
| framed_event: "framed (Suc n) evs rs finished \<Longrightarrow>
    framed n (e # evs) (FrameReady (Some (FrameEvent (show_nat n) e)) # rs) finished"
| framed_end: "end_frame n f \<Longrightarrow> framed n evs (FrameReady (Some f) # replicate m (FrameReady None)) True"

lemma events_of_simps [simp]:
  "events_of [] = []" "events_of ((c, UpEvent e) # ups) = e # events_of ups"
  "events_of ((c, UpPending) # ups) = events_of ups"
  by (simp_all add: events_of_def List.map_filter_def)

lemma finished_polls:
  assumes "\<not> fs_events s" and "\<not> fs_cancelled s"
  shows "poll_frames to_value written ups s = (replicate (length ups) (FrameReady None), s)"
  using assms by (induction ups) (auto simp: poll_frame_def)

lemma poll_frame_cases:
  assumes "fs_events s" and "poll_frame to_value written c up s = (r, s')"
  obtains (pending) "r = FramePending" "s' = s" "up = UpPending"
  | (event) e where "up = UpEvent e" "r = FrameReady (Some (FrameEvent (show_nat (unat (fs_seq s))) e))"
      "fs_events s'" "unat (fs_seq s') = Suc (unat (fs_seq s))"
  | (finished) f where "r = FrameReady (Some f)" "end_frame (unat (fs_seq s)) f" "\<not> fs_events s'" "\<not> fs_cancelled s'"
proof -
  have fin: "thesis" if "frame_end to_value out err s = (r, s')" "out = OutcomeSuccess \<longleftrightarrow> err = None" for out err
    using that finished [of "FrameEnd (show_nat (unat (fs_seq s))) out (map_option (envelope to_value) err)"]
    by (auto simp: frame_end_def end_frame_def)
  show ?thesis
  proof (cases "fs_cancelled s \<and> c")
    case True
    then show ?thesis using assms(2) by (intro fin) (auto simp: poll_frame_def)
  next
    case False
    show ?thesis
    proof (cases up)
      case UpPending
      then show ?thesis using assms False by (intro pending) (auto simp: poll_frame_def)
    next
      case UpEnd
      then show ?thesis using assms False by (intro fin [of OutcomeSuccess None]) (auto simp: poll_frame_def)
    next
      case (UpError e)
      moreover have "error_outcome e \<noteq> OutcomeSuccess"
        by (auto simp: error_outcome_def split: ops_error.splits aimux_error.splits)
      ultimately show ?thesis using assms False by (intro fin [of "error_outcome e" "Some e"]) (auto simp: poll_frame_def)
    next
      case (UpEvent e)
      show ?thesis
      proof (cases "checked_add (fs_seq s) 1")
        case None
        then show ?thesis using assms False UpEvent by (intro fin [of OutcomeError]) (auto simp: poll_frame_def)
      next
        case (Some n)
        show ?thesis
        proof (cases "check_wire_item (written (FrameEvent (show_nat (unat (fs_seq s))) e)) ITEM_BYTES")
          case (Inl err)
          then show ?thesis using assms False UpEvent Some by (intro fin [of OutcomeError]) (auto simp: poll_frame_def)
        next
          case (Inr b)
          have "unat n = Suc (unat (fs_seq s))" using Some by (simp add: checked_add_Some)
          then show ?thesis using assms False UpEvent Some Inr by (intro event) (auto simp: poll_frame_def)
        qed
      qed
    qed
  qed
qed

lemma poll_frame_abort: "poll_frame to_value written c up s = (r, s') \<Longrightarrow> fs_abort s' = fs_abort s"
  by (auto simp: poll_frame_def frame_end_def Let_def split: if_splits upstream.splits option.splits sum.splits)

lemma poll_frames_framed:
  assumes "poll_frames to_value written ups s = (rs, s')" and "fs_events s"
  shows "framed (unat (fs_seq s)) (events_of ups) rs (is_terminated s') \<and> fs_abort s' = fs_abort s"
  using assms
proof (induction ups arbitrary: s rs)
  case Nil
  then show ?case by (auto simp: is_terminated_def intro: framed_open)
next
  case (Cons x ups)
  obtain c up where x: "x = (c, up)" by force
  obtain r s1 where r: "poll_frame to_value written c up s = (r, s1)" by force
  obtain rs1 where rs1: "poll_frames to_value written ups s1 = (rs1, s')" "rs = r # rs1"
    using Cons.prems(1) x r by (auto split: prod.splits)
  note abort = poll_frame_abort [OF r]
  from Cons.prems(2) r show ?case
  proof (cases rule: poll_frame_cases)
    case pending
    then show ?thesis using Cons.IH [OF rs1(1)] Cons.prems(2) x rs1(2) by (auto intro: framed_pending)
  next
    case (event e)
    then show ?thesis using Cons.IH [OF rs1(1)] x rs1(2) abort by (auto intro: framed_event)
  next
    case (finished f)
    then show ?thesis using rs1 finished_polls [of s1 to_value written ups] abort
      by (auto simp: is_terminated_def intro: framed_end)
  qed
qed

text \<open>
  C21. Framing. However the upstream answers and whenever the caller aborts, the polls of a frame stream
  deliver the upstream events in order under consecutive sequence numbers from 0, then exactly one
  terminal frame that carries the next number and an error exactly when it is no success, and then only
  the end of the stream. Dropping the stream aborts the operation exactly when that frame was not
  delivered.
\<close>

theorem frame_stream_framing:
  assumes "poll_frames to_value written ups (new_frame_stream abort) = (rs, s)"
  shows "framed 0 (events_of ups) rs (is_terminated s) \<and>
         fs_abort (drop_frame_stream s) = (if is_terminated s then abort else map_option (\<lambda>_. True) abort)"
  using poll_frames_framed [OF assms]
  by (auto simp: new_frame_stream_def drop_frame_stream_def is_terminated_def)

lemma demo_polls:
  "poll_frames (\<lambda>_. Inr JNull) (\<lambda>_. ([10], None)) [(False, UpEvent JNull), (True, UpEvent JNull), (True, UpEnd)] (new_frame_stream (Some False))
     = ([FrameReady (Some (FrameEvent ''0'' JNull)),
         FrameReady (Some (FrameEnd ''1'' OutcomeCancelled
           (Some (envelope (\<lambda>_. Inr JNull) (OpsAiMux (Aborted ''request aborted'')))))),
         FrameReady None], \<lparr>fs_events = False, fs_cancelled = False, fs_abort = Some False, fs_seq = 1\<rparr>)"
proof -
  have "show_nat 0 = ''0''" "show_nat (Suc 0) = ''1''"
    by (simp_all add: show_nat.simps [of 0] show_nat.simps [of "Suc 0"] digit_char_def char_of_def bit_simps)
  then show ?thesis
    by (simp add: new_frame_stream_def poll_frame_def frame_end_def check_wire_item_def checked_add_def ITEM_BYTES_def)
qed

theorem frame_stream_framing_witness:
  "framed 0 [JNull, JNull]
     [FrameReady (Some (FrameEvent ''0'' JNull)),
      FrameReady (Some (FrameEnd ''1'' OutcomeCancelled
        (Some (envelope (\<lambda>_. Inr JNull) (OpsAiMux (Aborted ''request aborted'')))))), FrameReady None] True"
  using frame_stream_framing [OF demo_polls] by (simp add: is_terminated_def events_of_def List.map_filter_def)

end
