(* ===== verification/Operation.thy ===== *)
theory Operation
  imports Limits
begin

text \<open>
  The bidirectional transcription operation of \<open>src/aimux-ops/src/operation.rs\<close>: ordered admission of
  pushed audio, the bounded input and output queues, the terminal slot, cancellation, and the driver
  task that forwards the provider's parts. Every function below is one critical section under the
  operation's mutex; a caller that has to wait for a notification gets a waiting result and tries
  again. \<open>to_value\<close> is \<open>serde_json::to_value\<close> on an error (for the envelope of the summary).
\<close>

section \<open>Limits and options\<close>

record operation_limits =
  input_items :: usize
  input_bytes_limit :: usize
  output_items :: usize
  output_bytes_limit :: usize
  item_bytes :: usize

definition default_limits :: operation_limits where
  "default_limits = \<lparr>input_items = AUDIO_INPUT_ITEMS, input_bytes_limit = QUEUE_BYTES,
     output_items = OUTPUT_ITEMS, output_bytes_limit = QUEUE_BYTES, item_bytes = ITEM_BYTES\<rparr>"

definition validate :: "operation_limits \<Rightarrow> operation_limits ops_result" where
  "validate l =
     (if \<exists>(v, maximum) \<in> set [(input_items l, AUDIO_INPUT_ITEMS), (input_bytes_limit l, QUEUE_BYTES),
           (output_items l, OUTPUT_ITEMS), (output_bytes_limit l, QUEUE_BYTES), (item_bytes l, ITEM_BYTES)].
           v = 0 \<or> v > maximum
      then Inl (resource_limit ''operation limits must be positive and cannot exceed defaults'')
      else Inr l)"

section \<open>State\<close>

datatype cancel_result = First | AlreadyRequested | AlreadyTerminal

datatype operation_outcome = Success | Error | Cancelled

datatype operation_state = Running | InputClosed | Terminal

record terminal_summary =
  ts_outcome :: operation_outcome
  ts_error :: "error_envelope option"

datatype input_state = InOpen | InClosed u64

datatype consumer_state = ConsOpen | ConsClosed

text \<open>The terminal slot: the durable summary, and the error, which \<open>next\<close> takes once.\<close>

record op_terminal =
  t_summary :: terminal_summary
  t_error :: "ops_error option"

record 'p op_state =
  op_input :: input_state
  op_consumer :: consumer_state
  admission_sequence :: u64
  send_sequence :: u64
  completed_admissions :: "u64 set"
  input_queue :: "u8 list list"
  input_bytes :: usize
  output_queue :: "('p \<times> usize) list"
  output_bytes :: usize
  op_term :: "op_terminal option"
  cleanup_failure :: "string option"
  op_aborted :: bool

definition new_operation :: "'p op_state" where
  "new_operation = \<lparr>op_input = InOpen, op_consumer = ConsOpen, admission_sequence = 0,
     send_sequence = 0, completed_admissions = {}, input_queue = [], input_bytes = 0,
     output_queue = [], output_bytes = 0, op_term = None, cleanup_failure = None, op_aborted = False\<rparr>"

text \<open>\<open>bytes.len()\<close>; a Rust slice never exceeds \<open>isize::MAX\<close> bytes.\<close>

definition len :: "u8 list \<Rightarrow> usize" where
  "len bytes = of_nat (length bytes)"

definition is_slice :: "u8 list \<Rightarrow> bool" where
  "is_slice bytes \<longleftrightarrow> length bytes < 2 ^ 63"

section \<open>Termination\<close>

definition set_terminal :: "terminal_summary \<Rightarrow> ops_error option \<Rightarrow> 'p op_state \<Rightarrow> 'p op_state" where
  "set_terminal summary err s =
     s\<lparr>op_term := Some \<lparr>t_summary = summary, t_error = err\<rparr>, input_queue := [], input_bytes := 0\<rparr>"

definition op_finish ::
  "(aimux_error \<Rightarrow> source_error + json) \<Rightarrow> operation_outcome \<Rightarrow> ops_error option \<Rightarrow> 'p op_state \<Rightarrow> 'p op_state" where
  "op_finish to_value out err s =
     (case op_term s of
        Some _ \<Rightarrow> s
      | None \<Rightarrow> set_terminal \<lparr>ts_outcome = out, ts_error = map_option (envelope to_value) err\<rparr> err s)"

definition cancelled_error :: ops_error where
  "cancelled_error = OpsAiMux (Aborted ''operation cancelled'')"

definition op_cancel ::
  "(aimux_error \<Rightarrow> source_error + json) \<Rightarrow> 'p op_state \<Rightarrow> cancel_result \<times> 'p op_state" where
  "op_cancel to_value s =
     (case op_term s of
        Some t \<Rightarrow> (if ts_outcome (t_summary t) = Cancelled then AlreadyRequested else AlreadyTerminal, s)
      | None \<Rightarrow>
          (First, (set_terminal \<lparr>ts_outcome = Cancelled, ts_error = Some (envelope to_value cancelled_error)\<rparr>
                    (Some cancelled_error) s)\<lparr>op_aborted := True\<rparr>))"

definition record_cleanup_failure :: "string \<Rightarrow> 'p op_state \<Rightarrow> 'p op_state" where
  "record_cleanup_failure message s = s\<lparr>cleanup_failure := Some message\<rparr>"

section \<open>Input\<close>

definition check_input_length :: "operation_limits \<Rightarrow> usize \<Rightarrow> unit ops_result" where
  "check_input_length l n =
     (if n > item_bytes l \<or> n > input_bytes_limit l
      then Inl (resource_limit ''audio chunk exceeds the input budget'') else Inr ())"

text \<open>The first half of \<open>push\<close>: the length check and the admission number.\<close>

definition admit :: "operation_limits \<Rightarrow> u8 list \<Rightarrow> 'p op_state \<Rightarrow> u64 ops_result \<times> 'p op_state" where
  "admit l bytes s =
     (case check_input_length l (len bytes) of Inl e \<Rightarrow> (Inl e, s) | Inr _ \<Rightarrow>
        (if op_input s \<noteq> InOpen \<or> op_term s \<noteq> None
         then (Inl (invalid_state ''operation input is closed''), s)
         else (case checked_add (admission_sequence s) 1 of
                 None \<Rightarrow> (Inl (resource_limit ''input admission sequence exhausted''), s)
               | Some n \<Rightarrow> (Inr (admission_sequence s), s\<lparr>admission_sequence := n\<rparr>))))"

datatype attempt = Enqueued | PushFailed ops_error | PushWaits

text \<open>One turn of the loop of \<open>push\<close>.\<close>

definition push_attempt ::
  "operation_limits \<Rightarrow> u64 \<Rightarrow> u8 list \<Rightarrow> 'p op_state \<Rightarrow> attempt \<times> 'p op_state" where
  "push_attempt l sequence bytes s =
     (if op_term s \<noteq> None then (PushFailed (invalid_state ''operation has terminated''), s)
      else (case checked_add (input_bytes s) (len bytes) of
              None \<Rightarrow> (PushFailed (resource_limit ''input byte count overflow''), s)
            | Some byte_count \<Rightarrow>
                (if send_sequence s = sequence
                    \<and> length (input_queue s) < unat (input_items l)
                    \<and> byte_count \<le> input_bytes_limit l
                 then (Enqueued, s\<lparr>input_queue := input_queue s @ [bytes], input_bytes := byte_count\<rparr>)
                 else (PushWaits, s))))"

definition try_push :: "operation_limits \<Rightarrow> u8 list \<Rightarrow> 'p op_state \<Rightarrow> unit ops_result \<times> 'p op_state" where
  "try_push l bytes s =
     (case check_input_length l (len bytes) of Inl e \<Rightarrow> (Inl e, s) | Inr _ \<Rightarrow>
        (if op_input s \<noteq> InOpen \<or> op_term s \<noteq> None
         then (Inl (invalid_state ''operation input is closed''), s)
         else (case checked_add (input_bytes s) (len bytes) of
                 None \<Rightarrow> (Inl (resource_limit ''input byte count overflow''), s)
               | Some n \<Rightarrow>
                   (if admission_sequence s \<noteq> send_sequence s
                       \<or> length (input_queue s) \<ge> unat (input_items l)
                       \<or> n > input_bytes_limit l
                    then (Inl (resource_limit ''operation input queue is full''), s)
                    else (case checked_add (admission_sequence s) 1 of
                            None \<Rightarrow> (Inl (resource_limit ''input admission sequence exhausted''), s)
                          | Some sequence \<Rightarrow>
                              (Inr (), s\<lparr>input_queue := input_queue s @ [bytes], input_bytes := n,
                                        admission_sequence := sequence, send_sequence := sequence\<rparr>))))))"

text \<open>The argument checks of \<open>push_raw\<close>, for a C pointer by its address.\<close>

definition push_raw_check :: "operation_limits \<Rightarrow> usize \<Rightarrow> usize \<Rightarrow> unit ops_result" where
  "push_raw_check l data n =
     (if data = 0 \<and> n \<noteq> 0 then Inl (OpsBinding (NullPointer ''data''))
      else (case check_input_length l n of Inl e \<Rightarrow> Inl e | Inr _ \<Rightarrow>
        (case checked_add data n of
           None \<Rightarrow> Inl (resource_limit ''audio buffer address range overflow'')
         | Some _ \<Rightarrow> Inr ())))"

definition input_done :: "'p op_state \<Rightarrow> 'p op_state" where
  "input_done s = (case op_input s of
     InOpen \<Rightarrow> s\<lparr>op_input := InClosed (admission_sequence s)\<rparr> | InClosed _ \<Rightarrow> s)"

text \<open>
  \<open>Drop for Admission\<close>: the number is completed, and the send sequence moves past every completed
  number. The loop of the code.
\<close>

function release :: "u64 \<Rightarrow> u64 set \<Rightarrow> u64 \<times> u64 set" where
  "release sequence done =
     (if sequence \<in> done then release (saturating_add sequence 1) (done - {sequence})
      else (sequence, done))"
  by pat_completeness auto
termination
proof (relation "measure (card \<circ> snd)")
  fix sequence :: u64 and dn
  assume "sequence \<in> dn"
  then have "card (dn - {sequence}) < card dn" by (intro card_Diff1_less) auto
  then show "((saturating_add sequence 1, dn - {sequence}), sequence, dn) \<in> measure (card \<circ> snd)"
    by simp
qed simp

declare release.simps [simp del]

definition drop_admission :: "u64 \<Rightarrow> 'p op_state \<Rightarrow> 'p op_state" where
  "drop_admission sequence s =
     (case release (send_sequence s) (insert sequence (completed_admissions s)) of
        (n, done) \<Rightarrow> s\<lparr>send_sequence := n, completed_admissions := done\<rparr>)"

datatype audio_poll = Chunk "u8 list" | AudioEnd | AudioPending

definition poll_next :: "'p op_state \<Rightarrow> audio_poll \<times> 'p op_state" where
  "poll_next s =
     (if op_term s \<noteq> None then (AudioEnd, s)
      else (case input_queue s of
              bytes # rest \<Rightarrow>
                (Chunk bytes, s\<lparr>input_queue := rest, input_bytes := input_bytes s - len bytes\<rparr>)
            | [] \<Rightarrow> (case op_input s of
                InClosed sequence \<Rightarrow> (if send_sequence s = sequence then AudioEnd else AudioPending, s)
              | InOpen \<Rightarrow> (AudioPending, s))))"

section \<open>Output\<close>

datatype 'p next_result = Part 'p | Ended | Timeout | NextError ops_error | NextWaits

text \<open>One turn of the loop of \<open>next\<close>.\<close>

definition next_attempt :: "'p op_state \<Rightarrow> 'p next_result \<times> 'p op_state" where
  "next_attempt s = (case output_queue s of
     (part, bytes) # rest \<Rightarrow>
       (Part part, s\<lparr>output_queue := rest, output_bytes := output_bytes s - bytes\<rparr>)
   | [] \<Rightarrow> (case op_term s of
       Some t \<Rightarrow> (case t_error t of
           Some e \<Rightarrow> (NextError e, s\<lparr>op_term := Some (t\<lparr>t_error := None\<rparr>)\<rparr>)
         | None \<Rightarrow> (Ended, s))
     | None \<Rightarrow> (NextWaits, s)))"

definition consumer_close ::
  "(aimux_error \<Rightarrow> source_error + json) \<Rightarrow> 'p op_state \<Rightarrow> 'p op_state" where
  "consumer_close to_value s =
     (snd (op_cancel to_value s))\<lparr>op_consumer := ConsClosed, output_queue := [], output_bytes := 0\<rparr>"

datatype capacity = Room | NoRoom ops_error | CapacityWaits

text \<open>One turn of the loop of \<open>wait_output_capacity\<close>.\<close>

definition wait_output_capacity :: "operation_limits \<Rightarrow> usize \<Rightarrow> 'p op_state \<Rightarrow> capacity" where
  "wait_output_capacity l bytes s =
     (if op_term s \<noteq> None then NoRoom (invalid_state ''operation has terminated'')
      else (case checked_add (output_bytes s) bytes of
              None \<Rightarrow> NoRoom (resource_limit ''output byte count overflow'')
            | Some count \<Rightarrow>
                (if length (output_queue s) < unat (output_items l)
                    \<and> count \<le> output_bytes_limit l
                    \<and> output_bytes s < output_bytes_limit l
                 then Room else CapacityWaits)))"

definition part_size :: "('p \<Rightarrow> usize list \<times> source_error option) \<Rightarrow> 'p \<Rightarrow> usize \<Rightarrow> usize ops_result" where
  "part_size wire part maximum =
     (case check_wire_item (wire part) maximum of
        Inr n \<Rightarrow> Inr n
      | Inl (OpsProtocol (ResourceLimit _)) \<Rightarrow>
          Inl (resource_limit ''transcription event exceeds the output budget'')
      | Inl e \<Rightarrow> Inl e)"

text \<open>The push of a forwarded part: \<open>None\<close> when the operation has terminated meanwhile.\<close>

definition forward_push :: "'p \<Rightarrow> usize \<Rightarrow> 'p op_state \<Rightarrow> (unit option) ops_result \<times> 'p op_state" where
  "forward_push part bytes s =
     (if op_term s \<noteq> None then (Inr None, s)
      else (case checked_add (output_bytes s) bytes of
              None \<Rightarrow> (Inl (resource_limit ''output byte count overflow''), s)
            | Some n \<Rightarrow> (Inr (Some ()), s\<lparr>output_bytes := n, output_queue := output_queue s @ [(part, bytes)]\<rparr>)))"

section \<open>Status\<close>

record operation_status =
  st_subkind :: string
  st_state :: operation_state
  st_push :: bool
  st_input_done :: bool
  st_next :: bool
  st_cancel :: bool
  st_consumer_closed :: bool
  queued_input_items :: usize
  queued_input_bytes :: usize
  queued_output_items :: usize
  queued_output_bytes :: usize
  input_done_sequence :: "string option"
  st_terminal :: "terminal_summary option"
  st_cleanup_failure :: "string option"

definition op_status :: "'p op_state \<Rightarrow> operation_status" where
  "op_status s =
     \<lparr>st_subkind = ''transcription'',
      st_state = (if op_term s \<noteq> None then Terminal
                  else case op_input s of InClosed _ \<Rightarrow> InputClosed | InOpen \<Rightarrow> Running),
      st_push = True, st_input_done = True, st_next = True, st_cancel = True,
      st_consumer_closed = (op_consumer s = ConsClosed),
      queued_input_items = of_nat (length (input_queue s)),
      queued_input_bytes = input_bytes s,
      queued_output_items = of_nat (length (output_queue s)),
      queued_output_bytes = output_bytes s,
      input_done_sequence = (case op_input s of InOpen \<Rightarrow> None | InClosed n \<Rightarrow> Some (show_nat (unat n))),
      st_terminal = map_option t_summary (op_term s),
      st_cleanup_failure = cleanup_failure s\<rparr>"

section \<open>Joining the driver\<close>

text \<open>
  How waiting for a task ends: it returned, it failed (with its message, and whether the failure is
  a cancellation), or five seconds passed.
\<close>

datatype join_end = JoinOk | JoinFailed bool string | JoinTimeout

definition join_driver :: "join_end \<Rightarrow> 'p op_state \<Rightarrow> 'p op_state" where
  "join_driver j s = (case j of
     JoinOk \<Rightarrow> s
   | JoinFailed _ message \<Rightarrow> record_cleanup_failure (''operation driver join failed: '' @ message) s
   | JoinTimeout \<Rightarrow> record_cleanup_failure ''operation driver cleanup exceeded 5 seconds'' s)"

text \<open>The task \<open>terminate\<close> finds: already taken, finished, or still running (joined by a cleanup task).\<close>

datatype task_slot = NoTask | TaskFinished join_end | TaskRunning join_end join_end

definition report_failure :: "string \<Rightarrow> join_end \<Rightarrow> 'p op_state \<Rightarrow> 'p op_state" where
  "report_failure what j s = (case j of
     JoinFailed cancelled message \<Rightarrow> (if cancelled then s else record_cleanup_failure (what @ message) s)
   | _ \<Rightarrow> s)"

definition terminate ::
  "(aimux_error \<Rightarrow> source_error + json) \<Rightarrow> task_slot \<Rightarrow> 'p op_state \<Rightarrow> 'p op_state" where
  "terminate to_value task s =
     (let s1 = input_done (snd (op_cancel to_value s)) in
      case task of
        NoTask \<Rightarrow> s1
      | TaskFinished j \<Rightarrow> report_failure ''operation driver join failed: '' j s1
      | TaskRunning driver cleanup \<Rightarrow>
          report_failure ''operation cleanup task failed: '' cleanup (join_driver driver s1))"

section \<open>The driver\<close>

text \<open>
  The driver task: where \<open>forward\<close> stands, and what the provider answers next (the connection, an
  item of its stream). \<open>wire\<close> is what \<open>serde_json\<close> writes for a part.
\<close>

datatype 'p driver_phase =
  DConnecting | DCapacity | DReading | DHolding 'p usize | DCommitting 'p usize | DDone

datatype 'p provider_event =
  Connected "aimux_error + unit" | Item "(aimux_error + 'p) option" | Proceed

definition finish_driver ::
  "(aimux_error \<Rightarrow> source_error + json) \<Rightarrow> unit ops_result \<Rightarrow> 'p op_state \<Rightarrow> 'p driver_phase \<times> 'p op_state" where
  "finish_driver to_value result s = (DDone, case result of
     Inr _ \<Rightarrow> op_finish to_value Success None s
   | Inl e \<Rightarrow> op_finish to_value Error (Some e) s)"

fun forward ::
  "operation_limits \<Rightarrow> (aimux_error \<Rightarrow> source_error + json) \<Rightarrow> ('p \<Rightarrow> usize list \<times> source_error option) \<Rightarrow>
   'p provider_event \<Rightarrow> 'p driver_phase \<Rightarrow> 'p op_state \<Rightarrow> 'p driver_phase \<times> 'p op_state" where
  "forward l to_value wire (Connected (Inl e)) DConnecting s = finish_driver to_value (Inl (OpsAiMux e)) s"
| "forward l to_value wire (Connected (Inr _)) DConnecting s = (DCapacity, s)"
| "forward l to_value wire Proceed DCapacity s =
     (case wait_output_capacity l 0 s of
        Room \<Rightarrow> (DReading, s)
      | NoRoom e \<Rightarrow> finish_driver to_value (Inl e) s
      | CapacityWaits \<Rightarrow> (DCapacity, s))"
| "forward l to_value wire (Item None) DReading s = finish_driver to_value (Inr ()) s"
| "forward l to_value wire (Item (Some (Inl e))) DReading s = finish_driver to_value (Inl (OpsAiMux e)) s"
| "forward l to_value wire (Item (Some (Inr part))) DReading s =
     (case part_size wire part (min (item_bytes l) (output_bytes_limit l)) of
        Inl e \<Rightarrow> finish_driver to_value (Inl e) s
      | Inr bytes \<Rightarrow> (DHolding part bytes, s))"
| "forward l to_value wire Proceed (DHolding part bytes) s =
     (case wait_output_capacity l bytes s of
        Room \<Rightarrow> (DCommitting part bytes, s)
      | NoRoom e \<Rightarrow> finish_driver to_value (Inl e) s
      | CapacityWaits \<Rightarrow> (DHolding part bytes, s))"
| "forward l to_value wire Proceed (DCommitting part bytes) s =
     (case forward_push part bytes s of
        (Inl e, s') \<Rightarrow> finish_driver to_value (Inl e) s'
      | (Inr None, s') \<Rightarrow> finish_driver to_value (Inr ()) s'
      | (Inr (Some _), s') \<Rightarrow> (DCapacity, s'))"
| "forward l to_value wire _ phase s = (phase, s)"

section \<open>The operation with its callers\<close>

text \<open>
  An operation in use: the shared state, the admissions that are alive (each with its chunk and
  whether it was enqueued), whether a reader holds the reader lock, and the driver. One label per
  critical section.
\<close>

record 'p op_sys =
  st :: "'p op_state"
  live :: "u64 \<rightharpoonup> u8 list \<times> bool"
  reading :: bool
  driver :: "'p driver_phase"

datatype 'p op_label =
  OAdmit u64 "u8 list" | ORefused ops_error | OEnqueue u64 "u8 list" | OPushFailed u64 ops_error
| ORelease u64 | OTryPush u64 "u8 list" | OInputDone | OPoll audio_poll
| ONextStart | ONextBusy | ONext "'p next_result" | OCancel cancel_result | OConsumerClose
| OForward "'p list" | OFinished | OStop | OCleanup

fun committing :: "'p driver_phase \<Rightarrow> 'p list" where
  "committing (DCommitting part _) = [part]" | "committing _ = []"

inductive op_step ::
  "operation_limits \<Rightarrow> (aimux_error \<Rightarrow> source_error + json) \<Rightarrow> ('p \<Rightarrow> usize list \<times> source_error option) \<Rightarrow>
   'p op_sys \<Rightarrow> 'p op_label \<Rightarrow> 'p op_sys \<Rightarrow> bool"
  for l :: operation_limits and to_value :: "aimux_error \<Rightarrow> source_error + json"
    and wire :: "'p \<Rightarrow> usize list \<times> source_error option" where
  admitted: "is_slice bytes \<Longrightarrow> admit l bytes (st s) = (Inr n, q) \<Longrightarrow>
    op_step l to_value wire s (OAdmit n bytes) (s\<lparr>st := q, live := (live s)(n \<mapsto> (bytes, False))\<rparr>)"
| admission_refused: "admit l bytes (st s) = (Inl e, q) \<Longrightarrow>
    op_step l to_value wire s (ORefused e) (s\<lparr>st := q\<rparr>)"
| enqueued: "live s n = Some (bytes, False) \<Longrightarrow> push_attempt l n bytes (st s) = (Enqueued, q) \<Longrightarrow>
    op_step l to_value wire s (OEnqueue n bytes) (s\<lparr>st := q, live := (live s)(n \<mapsto> (bytes, True))\<rparr>)"
| push_failed: "live s n = Some (bytes, False) \<Longrightarrow> push_attempt l n bytes (st s) = (PushFailed e, q) \<Longrightarrow>
    op_step l to_value wire s (OPushFailed n e) (s\<lparr>st := drop_admission n q, live := (live s)(n := None)\<rparr>)"
| admission_dropped: "live s n = Some b \<Longrightarrow>
    op_step l to_value wire s (ORelease n) (s\<lparr>st := drop_admission n (st s), live := (live s)(n := None)\<rparr>)"
| try_pushed: "is_slice bytes \<Longrightarrow> try_push l bytes (st s) = (Inr u, q) \<Longrightarrow>
    op_step l to_value wire s (OTryPush (admission_sequence (st s)) bytes) (s\<lparr>st := q\<rparr>)"
| try_refused: "try_push l bytes (st s) = (Inl e, q) \<Longrightarrow>
    op_step l to_value wire s (ORefused e) (s\<lparr>st := q\<rparr>)"
| closed_input: "op_step l to_value wire s OInputDone (s\<lparr>st := input_done (st s)\<rparr>)"
| polled: "poll_next (st s) = (r, q) \<Longrightarrow> op_step l to_value wire s (OPoll r) (s\<lparr>st := q\<rparr>)"
| next_started: "\<not> reading s \<Longrightarrow> op_step l to_value wire s ONextStart (s\<lparr>reading := True\<rparr>)"
| next_busy: "reading s \<Longrightarrow> op_step l to_value wire s ONextBusy s"
| next_returned: "reading s \<Longrightarrow> next_attempt (st s) = (r, q) \<Longrightarrow> r \<noteq> NextWaits \<Longrightarrow>
    op_step l to_value wire s (ONext r) (s\<lparr>st := q, reading := False\<rparr>)"
| next_timed_out: "reading s \<Longrightarrow> op_step l to_value wire s (ONext Timeout) (s\<lparr>reading := False\<rparr>)"
| cancelled: "op_cancel to_value (st s) = (r, q) \<Longrightarrow>
    op_step l to_value wire s (OCancel r) (s\<lparr>st := q\<rparr>)"
| closed_consumer: "op_step l to_value wire s OConsumerClose (s\<lparr>st := consumer_close to_value (st s)\<rparr>)"
| forwarded: "forward l to_value wire e (driver s) (st s) = (d, q) \<Longrightarrow>
    op_step l to_value wire s
      (if op_term q \<noteq> op_term (st s) then OFinished
       else OForward (if output_queue q = output_queue (st s) then [] else committing (driver s)))
      (s\<lparr>st := q, driver := d\<rparr>)"
| driver_cancelled: "driver s \<noteq> DDone \<Longrightarrow>
    op_step l to_value wire s OStop (s\<lparr>st := snd (op_cancel to_value (st s)), driver := DDone\<rparr>)"
| driver_panicked: "driver s \<noteq> DDone \<Longrightarrow>
    op_step l to_value wire s OStop
      (s\<lparr>st := op_finish to_value Error (Some (invalid_state ''transcription driver panicked'')) (st s),
        driver := DDone\<rparr>)"
| terminated: "op_step l to_value wire s OCleanup (s\<lparr>st := terminate to_value task (st s)\<rparr>)"

definition init_operation :: "'p op_sys" where
  "init_operation = \<lparr>st = new_operation, live = Map.empty, reading = False, driver = DConnecting\<rparr>"

text \<open>
  \<open>Operation::start\<close>: the limits, the runtime and the provider's streaming capability are checked before
  the operation is accepted.
\<close>

definition start :: "operation_limits \<Rightarrow> bool \<Rightarrow> string \<Rightarrow> string \<Rightarrow> bool \<Rightarrow> 'p op_sys ops_result" where
  "start l has_runtime provider model_id streams =
     (case validate l of
        Inl e \<Rightarrow> Inl e
      | Inr _ \<Rightarrow>
          if \<not> has_runtime then Inl (invalid_state ''starting an operation requires a Tokio runtime'')
          else if \<not> streams
          then Inl (OpsAiMux (UnsupportedFunctionality (''The '' @ provider @ '' model '' @ dq @ model_id @ dq
                 @ '' does not support streaming transcription.'')))
          else Inr init_operation)"

section \<open>Admission numbers\<close>

lemma release_spec:
  assumes "release n dn = (m, d)" and "\<forall>x \<in> dn. x < adm" and "n \<le> adm"
  shows "n \<le> m \<and> m \<le> adm \<and> (\<forall>x. n \<le> x \<and> x < m \<longrightarrow> x \<in> dn)
       \<and> m \<notin> d \<and> d = {x \<in> dn. \<not> (n \<le> x \<and> x < m)}"
  using assms
proof (induction n dn arbitrary: m d rule: release.induct)
  case (1 n dn)
  show ?case
  proof (cases "n \<in> dn")
    case True
    then have lt: "n < adm" using "1.prems"(2) by blast
    then have "unat n + 1 < 2 ^ 64"
      using unat_usize_max [of adm] by (simp add: word_less_nat_alt)
    then have sat: "saturating_add n 1 = n + 1" and succ: "unat (n + 1) = unat n + 1"
      by (simp_all add: saturating_add_def unat_add_fits)
    have "release (n + 1) (dn - {n}) = (m, d)"
      using "1.prems"(1) True sat by (simp add: release.simps [of n dn])
    moreover have "n + 1 \<le> adm" using lt succ by (simp add: word_le_nat_alt word_less_nat_alt)
    ultimately have IH: "n + 1 \<le> m \<and> m \<le> adm \<and> (\<forall>x. n + 1 \<le> x \<and> x < m \<longrightarrow> x \<in> dn - {n})
       \<and> m \<notin> d \<and> d = {x \<in> dn - {n}. \<not> (n + 1 \<le> x \<and> x < m)}"
      using "1.IH" [OF True, unfolded sat, of m d] "1.prems"(2) by blast
    have step: "n \<le> x \<longleftrightarrow> x = n \<or> n + 1 \<le> x" for x
      using succ by (auto simp: word_le_nat_alt word_unat_eq_iff)
    have "n < m" using IH succ by (auto simp: word_le_nat_alt word_less_nat_alt)
    then show ?thesis using IH True by (auto simp: step)
  next
    case False
    then show ?thesis using "1.prems" by (auto simp: release.simps [of n dn])
  qed
qed

text \<open>
  The numbers between the send sequence and the admission sequence are exactly those of the live
  admissions and of the completed ones that wait for an earlier number; only the number at the send
  sequence can be enqueued; a close boundary is the final admission sequence.
\<close>

definition admission_ok :: "'p op_sys \<Rightarrow> bool" where
  "admission_ok s \<longleftrightarrow>
     send_sequence (st s) \<le> admission_sequence (st s)
   \<and> (\<forall>n. n \<in> dom (live s) \<or> n \<in> completed_admissions (st s) \<longleftrightarrow>
            send_sequence (st s) \<le> n \<and> n < admission_sequence (st s))
   \<and> dom (live s) \<inter> completed_admissions (st s) = {}
   \<and> send_sequence (st s) \<notin> completed_admissions (st s)
   \<and> (\<forall>n b. live s n = Some (b, True) \<longrightarrow> n = send_sequence (st s))
   \<and> (\<forall>m. op_input (st s) = InClosed m \<longrightarrow> m = admission_sequence (st s))"

lemma admission_okD:
  assumes "admission_ok s"
  shows "send_sequence (st s) \<le> admission_sequence (st s)"
    and "n \<in> dom (live s) \<or> n \<in> completed_admissions (st s) \<longleftrightarrow>
            send_sequence (st s) \<le> n \<and> n < admission_sequence (st s)"
    and "dom (live s) \<inter> completed_admissions (st s) = {}"
    and "send_sequence (st s) \<notin> completed_admissions (st s)"
    and "live s n = Some (b, True) \<Longrightarrow> n = send_sequence (st s)"
    and "op_input (st s) = InClosed m \<Longrightarrow> m = admission_sequence (st s)"
  using assms by (auto simp: admission_ok_def)

lemma word_lt_succ:
  fixes a :: "'a::len word"
  assumes "checked_add a 1 = Some b"
  shows "x < b \<longleftrightarrow> x < a \<or> x = a" and "a < b" and "b = a + 1"
proof -
  have "unat b = unat a + 1" using assms by (simp add: checked_add_Some)
  then show "x < b \<longleftrightarrow> x < a \<or> x = a" "a < b"
    by (auto simp: word_less_nat_alt word_unat_eq_iff)
  show "b = a + 1" using assms by (auto simp: checked_add_def split: if_splits)
qed

lemma admit_admission_ok:
  assumes ok: "admission_ok s" and a: "admit l bytes (st s) = (Inr n, q)"
  shows "admission_ok (s\<lparr>st := q, live := (live s)(n \<mapsto> (bytes, False))\<rparr>)"
proof -
  obtain m where n: "n = admission_sequence (st s)" and m: "checked_add n 1 = Some m"
    and q: "q = (st s)\<lparr>admission_sequence := m\<rparr>" and opened: "op_input (st s) = InOpen"
    using a by (auto simp: admit_def split: sum.splits if_splits option.splits)
  note d = admission_okD [OF ok] and w = word_lt_succ [OF m]
  have new: "n \<notin> completed_admissions (st s)" using d(2) [of n] n by blast
  have le: "send_sequence (st s) \<le> n" using d(1) n by simp
  have range: "x \<in> dom ((live s)(n \<mapsto> (bytes, False))) \<or> x \<in> completed_admissions (st s) \<longleftrightarrow>
      send_sequence (st s) \<le> x \<and> x < m" for x
    using d(2) [of x] le unfolding w(1) n by auto
  have "send_sequence (st s) \<le> m" using le w(2) by simp
  moreover have "\<forall>x b. ((live s)(n \<mapsto> (bytes, False))) x = Some (b, True) \<longrightarrow> x = send_sequence (st s)"
    using d(5) by (auto split: if_splits)
  ultimately show ?thesis
    unfolding admission_ok_def q using range d(3,4) new opened by simp
qed

lemma try_push_admission_ok:
  assumes ok: "admission_ok s" and a: "try_push l bytes (st s) = (Inr u, q)"
  shows "admission_ok (s\<lparr>st := q\<rparr>)"
proof -
  obtain n where eq: "admission_sequence (st s) = send_sequence (st s)" and opened: "op_input (st s) = InOpen"
    and q: "send_sequence q = n" "admission_sequence q = n" "op_input q = op_input (st s)"
      "completed_admissions q = completed_admissions (st s)"
    using a by (auto simp: try_push_def split: sum.splits if_splits option.splits)
  have "x \<notin> dom (live s) \<and> x \<notin> completed_admissions (st s)" for x
    using admission_okD(2) [OF ok, of x] unfolding eq by (metis leD)
  then have "dom (live s) = {}" "completed_admissions (st s) = {}" by blast+
  with q opened show ?thesis by (simp add: admission_ok_def leD)
qed

lemma drop_admission_ok:
  assumes ok: "admission_ok s" and n: "live s n = Some b"
  shows "admission_ok (s\<lparr>st := drop_admission n (st s), live := (live s)(n := None)\<rparr>)"
proof -
  let ?send = "send_sequence (st s)" and ?dn = "insert n (completed_admissions (st s))"
  obtain m d where r: "release ?send ?dn = (m, d)" by force
  note k = admission_okD [OF ok]
  have nl: "n \<in> dom (live s)" using n by blast
  then have "\<forall>x \<in> ?dn. x < admission_sequence (st s)" using k(2) by blast
  note spec = release_spec [OF r this k(1)]
  have kept: "x \<noteq> n \<Longrightarrow> x \<in> dom (live s) \<Longrightarrow> m \<le> x" for x
  proof (rule ccontr)
    assume x: "x \<noteq> n" "x \<in> dom (live s)" and "\<not> m \<le> x"
    then have "x \<in> ?dn" using spec k(2) [of x] by auto
    then show False using x k(3) by blast
  qed
  have head: "x = m" if "x \<noteq> n" "live s x = Some (b', True)" for x b'
  proof -
    have "x = ?send" using k(5) that(2) by blast
    moreover have "m \<le> x" using kept that by blast
    ultimately show ?thesis using spec by simp
  qed
  have range: "x \<in> dom ((live s)(n := None)) \<or> x \<in> d \<longleftrightarrow> m \<le> x \<and> x < admission_sequence (st s)" for x
  proof
    assume "x \<in> dom ((live s)(n := None)) \<or> x \<in> d"
    then consider "x \<noteq> n" "x \<in> dom (live s)" | "x \<in> ?dn" "\<not> (?send \<le> x \<and> x < m)"
      using spec by (auto split: if_splits)
    then show "m \<le> x \<and> x < admission_sequence (st s)"
    proof cases
      case 1
      then show ?thesis using kept k(2) [of x] by blast
    next
      case 2
      then have "?send \<le> x \<and> x < admission_sequence (st s)" using k(2) [of x] nl by blast
      with 2 show ?thesis by simp
    qed
  next
    assume x: "m \<le> x \<and> x < admission_sequence (st s)"
    then have "x \<in> dom (live s) \<or> x \<in> completed_admissions (st s)" using k(2) [of x] spec by auto
    then show "x \<in> dom ((live s)(n := None)) \<or> x \<in> d" using x spec by (auto simp: not_less)
  qed
  have "dom ((live s)(n := None)) \<inter> d = {}" using k(3) spec by auto
  moreover have "\<forall>x b'. ((live s)(n := None)) x = Some (b', True) \<longrightarrow> x = m"
    using head by (auto split: if_splits)
  moreover have "m \<le> admission_sequence (st s)" "m \<notin> d" using spec by blast+
  ultimately show ?thesis
    unfolding admission_ok_def drop_admission_def r using k(6) range by simp
qed

lemma forward_effect:
  assumes "forward l to_value wire e ph s = (d, q)"
  shows "(q = s \<and> (d = ph \<or> d \<noteq> DDone \<and> (\<forall>p b. d = DCommitting p b \<longrightarrow> wait_output_capacity l b s = Room)))
       \<or> (d = DDone \<and> (\<exists>err. q = op_finish to_value (if err = None then Success else Error) err s))
       \<or> (\<exists>p b n. ph = DCommitting p b \<and> d = DCapacity \<and> op_term s = None
            \<and> checked_add (output_bytes s) b = Some n
            \<and> q = s\<lparr>output_bytes := n, output_queue := output_queue s @ [(p, b)]\<rparr>)"
  using assms
proof (cases "(l, to_value, wire, e, ph, s)" rule: forward.cases)
  case (8 l' to_value' wire' part bytes s')
  then show ?thesis
    using assms by (auto simp: forward_push_def finish_driver_def split: if_splits option.splits)
qed (auto simp: finish_driver_def split: capacity.splits sum.splits)

text \<open>What the admission numbers depend on.\<close>

definition adm_view :: "'p op_state \<Rightarrow> input_state \<times> u64 \<times> u64 \<times> u64 set" where
  "adm_view s = (op_input s, admission_sequence s, send_sequence s, completed_admissions s)"

lemma admission_ok_frame:
  "adm_view (st t) = adm_view (st s) \<Longrightarrow> live t = live s \<Longrightarrow> admission_ok s \<Longrightarrow> admission_ok t"
  by (simp add: adm_view_def admission_ok_def)

lemma adm_view_set_terminal [simp]: "adm_view (set_terminal summary err s) = adm_view s"
  by (simp add: adm_view_def set_terminal_def)

lemma adm_view_finish [simp]: "adm_view (op_finish to_value out err s) = adm_view s"
  by (simp add: op_finish_def split: option.split)

lemma adm_view_cancel [simp]: "adm_view (snd (op_cancel to_value s)) = adm_view s"
  by (auto simp: op_cancel_def adm_view_def set_terminal_def split: option.split)

lemma adm_view_consumer_close [simp]: "adm_view (consumer_close to_value s) = adm_view s"
  using adm_view_cancel [of to_value s] by (simp add: consumer_close_def adm_view_def)

lemma adm_view_cleanup [simp]: "adm_view (record_cleanup_failure m s) = adm_view s"
  by (simp add: adm_view_def record_cleanup_failure_def)

lemma adm_view_report [simp]: "adm_view (report_failure w j s) = adm_view s" "adm_view (join_driver j s) = adm_view s"
  by (simp_all add: report_failure_def join_driver_def split: join_end.split)

lemma adm_view_terminate: "adm_view (terminate to_value task s) = adm_view (input_done (snd (op_cancel to_value s)))"
  by (simp add: terminate_def Let_def split: task_slot.split)

lemma adm_view_forward: "forward l to_value wire e ph s = (d, q) \<Longrightarrow> adm_view q = adm_view s"
  by (drule forward_effect) (auto simp: adm_view_def [of "op_state.output_queue_update f t" for f t] adm_view_def [of s])

lemma input_done_admission_ok:
  "admission_ok s \<Longrightarrow> adm_view q = adm_view (input_done (st s)) \<Longrightarrow> admission_ok (s\<lparr>st := q\<rparr>)"
  by (auto simp: admission_ok_def adm_view_def input_done_def split: input_state.splits)

lemma admission_ok_step:
  assumes ok: "admission_ok s" and step: "op_step l to_value wire s lab t"
  shows "admission_ok t"
  using step
proof (cases rule: op_step.cases)
  case admitted
  then show ?thesis using ok by (auto intro: admit_admission_ok)
next
  case (admission_refused bytes e q)
  then have "q = st s" by (auto simp: admit_def split: sum.splits if_splits option.splits)
  then show ?thesis using ok admission_refused by simp
next
  case (enqueued n bytes q)
  then have "adm_view q = adm_view (st s)" and "n = send_sequence (st s)"
    by (auto simp: push_attempt_def adm_view_def split: if_splits option.splits)
  moreover have "dom ((live s)(n \<mapsto> (bytes, True))) = dom (live s)" using enqueued by auto
  ultimately show ?thesis
    using ok unfolding admission_ok_def enqueued(2) by (simp add: adm_view_def)
next
  case (push_failed n bytes e q)
  then have "q = st s" by (auto simp: push_attempt_def split: if_splits option.splits)
  then show ?thesis using ok push_failed drop_admission_ok by simp
next
  case admission_dropped
  then show ?thesis using ok drop_admission_ok by simp
next
  case try_pushed
  then show ?thesis using ok try_push_admission_ok by simp
next
  case (try_refused bytes e q)
  then have "q = st s" by (auto simp: try_push_def split: sum.splits if_splits option.splits)
  then show ?thesis using ok try_refused by simp
next
  case closed_input
  then show ?thesis using input_done_admission_ok [OF ok refl] by simp
next
  case (terminated task)
  have "input_done_view": "adm_view (input_done (snd (op_cancel to_value (st s)))) = adm_view (input_done (st s))"
    using adm_view_cancel [of to_value "st s"] by (auto simp: input_done_def adm_view_def split: input_state.splits)
  then show ?thesis using ok terminated input_done_admission_ok adm_view_terminate by metis
next
  case (polled r q)
  then have "adm_view q = adm_view (st s)"
    by (auto simp: poll_next_def adm_view_def split: if_splits list.splits input_state.splits)
  then show ?thesis using ok polled by (auto intro: admission_ok_frame [OF _ _ ok])
next
  case (next_returned r q)
  then have "adm_view q = adm_view (st s)"
    by (auto simp: next_attempt_def adm_view_def split: list.splits option.splits)
  then show ?thesis using ok next_returned by (auto intro: admission_ok_frame [OF _ _ ok])
next
  case (cancelled r q)
  then have "adm_view q = adm_view (st s)" using adm_view_cancel [of to_value "st s"] by simp
  then show ?thesis using ok cancelled by (auto intro: admission_ok_frame [OF _ _ ok])
next
  case (forwarded e d q)
  then have "adm_view q = adm_view (st s)" using adm_view_forward by blast
  then show ?thesis using forwarded by (auto intro: admission_ok_frame [OF _ _ ok])
qed (use ok in \<open>auto intro: admission_ok_frame [OF _ _ ok]\<close>)

section \<open>Budgets\<close>

definition input_budget :: "operation_limits \<Rightarrow> 'p op_state \<Rightarrow> bool" where
  "input_budget l s \<longleftrightarrow>
     unat (input_bytes s) = sum_list (map length (input_queue s))
   \<and> input_bytes s \<le> input_bytes_limit l
   \<and> length (input_queue s) \<le> unat (input_items l)
   \<and> (op_term s \<noteq> None \<longrightarrow> input_queue s = [])
   \<and> (\<forall>b \<in> set (input_queue s). is_slice b)"

definition output_budget :: "operation_limits \<Rightarrow> 'p op_state \<Rightarrow> bool" where
  "output_budget l s \<longleftrightarrow>
     unat (output_bytes s) = sum_bytes (output_queue s)
   \<and> output_bytes s \<le> output_bytes_limit l
   \<and> length (output_queue s) \<le> unat (output_items l)
   \<and> (op_consumer s = ConsClosed \<longrightarrow> op_term s \<noteq> None \<and> output_queue s = [])"

definition live_ok :: "operation_limits \<Rightarrow> 'p op_sys \<Rightarrow> bool" where
  "live_ok l s \<longleftrightarrow> (\<forall>n b q. live s n = Some (b, q) \<longrightarrow> is_slice b \<and> check_input_length l (len b) = Inr ())"

definition driver_ok :: "operation_limits \<Rightarrow> 'p op_sys \<Rightarrow> bool" where
  "driver_ok l s \<longleftrightarrow>
     (\<forall>p b. driver s = DCommitting p b \<and> op_term (st s) = None \<longrightarrow>
        length (output_queue (st s)) < unat (output_items l)
      \<and> unat (output_bytes (st s)) + unat b \<le> unat (output_bytes_limit l))
   \<and> (driver s = DDone \<longrightarrow> op_term (st s) \<noteq> None)"

definition op_ok :: "operation_limits \<Rightarrow> 'p op_sys \<Rightarrow> bool" where
  "op_ok l s \<longleftrightarrow> admission_ok s \<and> live_ok l s \<and> input_budget l (st s) \<and> output_budget l (st s) \<and> driver_ok l s"

lemma unat_len: "is_slice b \<Longrightarrow> unat (len b) = length b"
  by (simp add: len_def is_slice_def unat_of_nat take_bit_nat_eq_self)

lemmas budget_defs = input_budget_def output_budget_def

lemma budgets_set_terminal:
  "input_budget l (set_terminal summary err s)"
  "output_budget l s \<Longrightarrow> output_budget l (set_terminal summary err s)"
  by (simp_all add: budget_defs set_terminal_def)

lemma budgets_finish:
  "input_budget l s \<Longrightarrow> input_budget l (op_finish to_value out err s)"
  "output_budget l s \<Longrightarrow> output_budget l (op_finish to_value out err s)"
  by (simp_all add: op_finish_def budgets_set_terminal split: option.split)

lemma budgets_cancel:
  "input_budget l s \<Longrightarrow> input_budget l (snd (op_cancel to_value s))"
  "output_budget l s \<Longrightarrow> output_budget l (snd (op_cancel to_value s))"
  by (auto simp: budget_defs op_cancel_def set_terminal_def split: option.split)

lemma cancel_terminal [simp]: "op_term (snd (op_cancel to_value s)) \<noteq> None"
  by (auto simp: op_cancel_def set_terminal_def split: option.split)

lemma finish_terminal [simp]: "op_term (op_finish to_value out err s) \<noteq> None"
  by (auto simp: op_finish_def set_terminal_def split: option.split)

lemma budgets_consumer_close:
  "input_budget l s \<Longrightarrow> input_budget l (consumer_close to_value s)"
  "output_budget l s \<Longrightarrow> output_budget l (consumer_close to_value s)"
  using budgets_cancel [of l s to_value] cancel_terminal [of to_value s]
  by (simp_all add: consumer_close_def budget_defs)

lemma budgets_input_done:
  "input_budget l (input_done s) = input_budget l s" "output_budget l (input_done s) = output_budget l s"
  by (simp_all add: input_done_def budget_defs split: input_state.split)

lemma budgets_cleanup:
  "input_budget l (record_cleanup_failure m s) = input_budget l s"
  "output_budget l (record_cleanup_failure m s) = output_budget l s"
  by (simp_all add: record_cleanup_failure_def budget_defs)

lemma budgets_terminate:
  "input_budget l s \<Longrightarrow> input_budget l (terminate to_value task s)"
  "output_budget l s \<Longrightarrow> output_budget l (terminate to_value task s)"
  using budgets_cancel [of l s to_value]
  by (simp_all add: terminate_def Let_def report_failure_def join_driver_def budgets_cleanup budgets_input_done
      split: task_slot.split join_end.split)

lemma input_append:
  assumes "input_budget l s" and "is_slice bytes" and "checked_add (input_bytes s) (len bytes) = Some n"
    and "n \<le> input_bytes_limit l" and "length (input_queue s) < unat (input_items l)" and "op_term s = None"
    and "input_queue q = input_queue s @ [bytes]" and "input_bytes q = n" and "op_term q = op_term s"
  shows "input_budget l q"
  using assms by (auto simp: input_budget_def checked_add_Some unat_len)

lemma poll_next_budget:
  assumes ok: "input_budget l s" and r: "poll_next s = (r, q)"
  shows "input_budget l q"
proof (cases "op_term s = None \<and> input_queue s \<noteq> []")
  case True
  then obtain b rest where s: "input_queue s = b # rest" by (auto simp: neq_Nil_conv)
  then have q: "q = s\<lparr>input_queue := rest, input_bytes := input_bytes s - len b\<rparr>"
    using True r by (auto simp: poll_next_def)
  have b: "unat (len b) = length b" using ok s by (simp add: input_budget_def unat_len)
  then have "unat (input_bytes s - len b) = unat (input_bytes s) - length b"
    using ok s by (subst unat_sub_le) (auto simp: input_budget_def)
  then show ?thesis
    using ok s True unfolding q by (auto simp: input_budget_def word_le_nat_alt)
next
  case False
  then have "q = s" using r by (auto simp: poll_next_def split: if_splits list.splits input_state.splits)
  then show ?thesis using ok by simp
qed

lemma next_attempt_budget:
  assumes ok: "output_budget l s" and r: "next_attempt s = (r, q)"
  shows "output_budget l q"
proof (cases "output_queue s")
  case Nil
  then show ?thesis
    using ok r by (auto simp: next_attempt_def output_budget_def split: option.splits)
next
  case (Cons x rest)
  obtain p b where x: "x = (p, b)" by (cases x)
  then have q: "q = s\<lparr>output_queue := rest, output_bytes := output_bytes s - b\<rparr>"
    using Cons r by (auto simp: next_attempt_def)
  have "unat (output_bytes s - b) = unat (output_bytes s) - unat b"
    using ok Cons x by (subst unat_sub_le) (auto simp: output_budget_def)
  then show ?thesis
    using ok Cons x unfolding q by (auto simp: output_budget_def word_le_nat_alt)
qed

lemma drop_admission_fields [simp]:
  "input_queue (drop_admission n s) = input_queue s" "input_bytes (drop_admission n s) = input_bytes s"
  "output_queue (drop_admission n s) = output_queue s" "output_bytes (drop_admission n s) = output_bytes s"
  "op_term (drop_admission n s) = op_term s" "op_consumer (drop_admission n s) = op_consumer s"
  "op_input (drop_admission n s) = op_input s" "admission_sequence (drop_admission n s) = admission_sequence s"
  by (simp_all add: drop_admission_def split: prod.split)

lemma budgets_drop [simp]:
  "input_budget l (drop_admission n s) = input_budget l s" "output_budget l (drop_admission n s) = output_budget l s"
  by (simp_all add: budget_defs)

lemma admit_cases:
  assumes "admit l bytes s = (r, q)"
  shows "(\<exists>e. r = Inl e \<and> q = s)
       \<or> (\<exists>m. r = Inr (admission_sequence s) \<and> checked_add (admission_sequence s) 1 = Some m
            \<and> q = s\<lparr>admission_sequence := m\<rparr> \<and> check_input_length l (len bytes) = Inr ()
            \<and> op_input s = InOpen \<and> op_term s = None)"
  using assms by (auto simp: admit_def split: sum.splits if_splits option.splits)

lemma push_attempt_cases:
  assumes "push_attempt l n bytes s = (r, q)"
  shows "(r \<noteq> Enqueued \<and> q = s)
       \<or> (\<exists>m. r = Enqueued \<and> checked_add (input_bytes s) (len bytes) = Some m
            \<and> q = s\<lparr>input_queue := input_queue s @ [bytes], input_bytes := m\<rparr> \<and> op_term s = None
            \<and> n = send_sequence s \<and> m \<le> input_bytes_limit l \<and> length (input_queue s) < unat (input_items l))"
  using assms by (auto simp: push_attempt_def split: if_splits option.splits)

lemma try_push_cases:
  assumes "try_push l bytes s = (r, q)"
  shows "(\<exists>e. r = Inl e \<and> q = s)
       \<or> (\<exists>m n. r = Inr () \<and> checked_add (input_bytes s) (len bytes) = Some m
            \<and> checked_add (admission_sequence s) 1 = Some n
            \<and> q = s\<lparr>input_queue := input_queue s @ [bytes], input_bytes := m,
                    admission_sequence := n, send_sequence := n\<rparr> \<and> op_term s = None \<and> op_input s = InOpen
            \<and> admission_sequence s = send_sequence s
            \<and> m \<le> input_bytes_limit l \<and> length (input_queue s) < unat (input_items l))"
proof (cases "check_input_length l (len bytes)")
  case (Inl e)
  then have "r = Inl e \<and> q = s" using assms by (simp add: try_push_def)
  then show ?thesis by simp
next
  case (Inr u)
  then show ?thesis using assms by (auto simp: try_push_def split: if_splits option.splits)
qed

lemma live_ok_step:
  assumes "live_ok l s" and "op_step l to_value wire s lab t"
  shows "live_ok l t"
  using assms(2)
proof (cases rule: op_step.cases)
  case admitted
  then show ?thesis using assms(1) by (auto simp: live_ok_def dest!: admit_cases)
qed (use assms(1) in \<open>auto simp: live_ok_def\<close>)

lemma input_budget_step:
  assumes ok: "input_budget l (st s)" "live_ok l s" and step: "op_step l to_value wire s lab t"
  shows "input_budget l (st t)"
  using step
proof (cases rule: op_step.cases)
  case (enqueued n bytes q)
  then have "is_slice bytes" using ok(2) by (auto simp: live_ok_def)
  then show ?thesis using enqueued push_attempt_cases [OF enqueued(4)] by (auto intro: input_append [OF ok(1)])
next
  case (try_pushed bytes u q)
  then show ?thesis using try_push_cases [OF try_pushed(4)] by (auto intro: input_append [OF ok(1)])
next
  case (forwarded e d q)
  show ?thesis
    using forward_effect [OF forwarded(3)] ok(1) forwarded(2)
    by (auto simp: budgets_finish) (auto simp: input_budget_def)
next
  case (cancelled r q)
  then show ?thesis using budgets_cancel(1) [OF ok(1), of to_value] by simp
next
  case (polled r q)
  then show ?thesis using poll_next_budget [OF ok(1)] by simp
next
  case (next_returned r q)
  then have "input_queue q = input_queue (st s)" "input_bytes q = input_bytes (st s)"
    "op_term q = None \<longleftrightarrow> op_term (st s) = None"
    by (auto simp: next_attempt_def split: list.splits option.splits)
  then show ?thesis using ok(1) next_returned by (auto simp: input_budget_def)
qed (use ok(1) in \<open>auto simp: budgets_input_done budgets_consumer_close budgets_cancel budgets_finish
      budgets_terminate input_budget_def [of l "op_state.admission_sequence_update f u" for f u]
      input_budget_def [of l "st s"] dest!: admit_cases push_attempt_cases try_push_cases\<close>)

lemma output_append:
  assumes "output_budget l s" and "checked_add (output_bytes s) b = Some n" and "op_term s = None"
    and "length (output_queue s) < unat (output_items l)"
    and "unat (output_bytes s) + unat b \<le> unat (output_bytes_limit l)"
  shows "output_budget l (s\<lparr>output_bytes := n, output_queue := output_queue s @ [(p, b)]\<rparr>)"
  using assms by (auto simp: output_budget_def checked_add_Some word_le_nat_alt)

lemma output_frame:
  "output_budget l s \<Longrightarrow> output_queue t = output_queue s \<Longrightarrow> output_bytes t = output_bytes s \<Longrightarrow>
   op_consumer t = op_consumer s \<Longrightarrow> op_term t = op_term s \<Longrightarrow> output_budget l t"
  by (simp add: output_budget_def)

lemma output_budget_step:
  assumes ok: "output_budget l (st s)" "driver_ok l s" and step: "op_step l to_value wire s lab t"
  shows "output_budget l (st t)"
  using step
proof (cases rule: op_step.cases)
  case (forwarded e d q)
  show ?thesis
    using forward_effect [OF forwarded(3)] ok forwarded(2)
    by (auto simp: budgets_finish driver_ok_def intro: output_append)
next
  case (cancelled r q)
  then show ?thesis using budgets_cancel(2) [OF ok(1), of to_value] by simp
next
  case (polled r q)
  then show ?thesis
    by (auto simp: poll_next_def intro: output_frame [OF ok(1)] split: if_splits list.splits input_state.splits)
next
  case (next_returned r q)
  then show ?thesis using next_attempt_budget [OF ok(1)] by simp
qed (use ok(1) in \<open>auto simp: budgets_input_done budgets_consumer_close budgets_cancel budgets_finish
      budgets_terminate intro: output_frame dest!: admit_cases push_attempt_cases try_push_cases\<close>)

lemma settled [simp]:
  "op_term s = Some x \<Longrightarrow> snd (op_cancel to_value s) = s"
  "op_term s = Some x \<Longrightarrow> op_finish to_value out err s = s"
  "op_term (input_done s) = op_term s"
  "op_term (consumer_close to_value s) = op_term (snd (op_cancel to_value s))"
  "op_term (terminate to_value task s) = op_term (snd (op_cancel to_value s))"
  by (simp_all add: op_cancel_def op_finish_def input_done_def consumer_close_def terminate_def Let_def
      report_failure_def join_driver_def record_cleanup_failure_def
      split: input_state.split task_slot.split join_end.split)

text \<open>A stored terminal keeps its summary for good; its error is taken by one \<open>next\<close>.\<close>

lemma terminal_step:
  assumes "op_step l to_value wire s lab t" and "op_term (st s) = Some x"
  shows "\<exists>y. op_term (st t) = Some y \<and> t_summary y = t_summary x
       \<and> ((\<forall>e. lab \<noteq> ONext (NextError e)) \<and> t_error y = t_error x
          \<or> (\<exists>e. lab = ONext (NextError e) \<and> t_error x = Some e \<and> t_error y = None))"
  using assms(1)
proof (cases rule: op_step.cases)
  case (forwarded e d q)
  show ?thesis using forward_effect [OF forwarded(3)] assms(2) forwarded(1,2) by auto
next
  case (next_returned r q)
  then show ?thesis using assms(2)
    by (cases "output_queue (st s)"; cases "t_error x") (auto simp: next_attempt_def)
next
  case (cancelled r q)
  then have "q = st s" using settled(1) [OF assms(2), of to_value] by simp
  then show ?thesis using cancelled assms(2) by simp
next
  case (polled r q)
  then show ?thesis using assms(2) by (auto simp: poll_next_def)
qed (use assms(2) in \<open>auto dest!: admit_cases push_attempt_cases try_push_cases\<close>)

lemma next_attempt_shrinks:
  assumes "output_budget l s" and "next_attempt s = (r, q)"
  shows "length (output_queue q) \<le> length (output_queue s) \<and> unat (output_bytes q) \<le> unat (output_bytes s)
       \<and> (op_term q = None \<longleftrightarrow> op_term s = None)"
proof -
  have "output_budget l q" using next_attempt_budget [OF assms] .
  then have "unat (output_bytes q) = sum_bytes (output_queue q)" "unat (output_bytes s) = sum_bytes (output_queue s)"
    using assms(1) by (simp_all add: output_budget_def)
  moreover have "sum_bytes (output_queue q) \<le> sum_bytes (output_queue s)"
    "length (output_queue q) \<le> length (output_queue s)" "op_term q = None \<longleftrightarrow> op_term s = None"
    using assms(2) by (auto simp: next_attempt_def split: list.splits option.splits)
  ultimately show ?thesis by simp
qed

lemma wait_output_capacity_Room:
  assumes "wait_output_capacity l b s = Room"
  shows "length (output_queue s) < unat (output_items l) \<and> unat (output_bytes s) + unat b \<le> unat (output_bytes_limit l)"
proof -
  obtain n where "checked_add (output_bytes s) b = Some n" "n \<le> output_bytes_limit l"
    "length (output_queue s) < unat (output_items l)"
    using assms by (auto simp: wait_output_capacity_def split: if_splits option.splits)
  then show ?thesis by (auto simp: checked_add_Some word_le_nat_alt)
qed

lemma driver_frame:
  assumes "driver_ok l s" and "driver t = driver s" and "op_term (st s) \<noteq> None \<Longrightarrow> op_term (st t) \<noteq> None"
    and "op_term (st t) = None \<Longrightarrow> length (output_queue (st t)) \<le> length (output_queue (st s))
         \<and> unat (output_bytes (st t)) \<le> unat (output_bytes (st s))"
  shows "driver_ok l t"
proof (cases "op_term (st t) = None")
  case True
  then have "op_term (st s) = None" using assms(3) by blast
  moreover note shrunk = assms(4) [OF True]
  ultimately show ?thesis
    using assms(1,2) True unfolding driver_ok_def
    by (auto intro: le_less_trans [OF conjunct1 [OF shrunk]] le_trans [OF add_le_mono1 [OF conjunct2 [OF shrunk]]])
next
  case False
  then show ?thesis using assms(1,2) by (auto simp: driver_ok_def)
qed

lemma driver_ok_step:
  assumes ok: "driver_ok l s" "output_budget l (st s)" and step: "op_step l to_value wire s lab t"
  shows "driver_ok l t"
  using step
proof (cases rule: op_step.cases)
  case (forwarded e d q)
  consider "q = st s" "d = driver s" | "q = st s" "d \<noteq> DDone" "\<forall>p b. d = DCommitting p b \<longrightarrow> wait_output_capacity l b (st s) = Room"
    | "d = DDone" "op_term q \<noteq> None" | "d = DCapacity"
    using forward_effect [OF forwarded(3)] finish_terminal by blast
  then show ?thesis
    using forwarded(2) ok(1) by cases (auto simp: driver_ok_def dest!: wait_output_capacity_Room)
next
  case (next_returned r q)
  then show ?thesis using next_attempt_shrinks [OF ok(2) next_returned(4)] by (auto intro: driver_frame [OF ok(1)])
next
  case driver_cancelled
  then show ?thesis by (auto simp: driver_ok_def)
next
  case driver_panicked
  then show ?thesis by (auto simp: driver_ok_def)
next
  case (cancelled r q)
  then have "op_term q \<noteq> None" using cancel_terminal [of to_value "st s"] by simp
  then show ?thesis using cancelled ok(1) by (auto intro!: driver_frame [OF ok(1)])
next
  case (polled r q)
  then show ?thesis
    by (auto simp: poll_next_def intro!: driver_frame [OF ok(1)] split: if_splits list.splits input_state.splits)
qed (auto intro!: driver_frame [OF ok(1)] simp: input_done_def split: input_state.split
      dest!: admit_cases push_attempt_cases try_push_cases)

lemma op_ok_step:
  assumes "op_ok l s" and step: "op_step l to_value wire s lab t"
  shows "op_ok l t"
  using assms(1) admission_ok_step [OF _ step] live_ok_step [OF _ step] input_budget_step [OF _ _ step]
    output_budget_step [OF _ _ step] driver_ok_step [OF _ _ step]
  by (simp add: op_ok_def)

interpretation operation: invariant_system "op_step l to_value wire" "op_ok l"
  for l :: operation_limits and to_value and wire :: "'p \<Rightarrow> usize list \<times> source_error option"
  by unfold_locales (rule op_ok_step)

lemma init_operation_ok: "op_ok l init_operation"
  by (simp add: op_ok_def admission_ok_def live_ok_def budget_defs driver_ok_def init_operation_def
      new_operation_def leD)

section \<open>Order\<close>

fun enqueued_chunks :: "'p op_label \<Rightarrow> u8 list list" where
  "enqueued_chunks (OEnqueue n b) = [b]" | "enqueued_chunks (OTryPush n b) = [b]" | "enqueued_chunks _ = []"

fun enqueued_numbers :: "'p op_label \<Rightarrow> u64 list" where
  "enqueued_numbers (OEnqueue n b) = [n]" | "enqueued_numbers (OTryPush n b) = [n]" | "enqueued_numbers _ = []"

fun polled_chunks :: "'p op_label \<Rightarrow> u8 list list" where
  "polled_chunks (OPoll (Chunk b)) = [b]" | "polled_chunks _ = []"

fun forwarded_parts :: "'p op_label \<Rightarrow> 'p list" where
  "forwarded_parts (OForward ps) = ps" | "forwarded_parts _ = []"

fun delivered_parts :: "'p op_label \<Rightarrow> 'p list" where
  "delivered_parts (ONext (Part p)) = [p]" | "delivered_parts _ = []"

fun terminates :: "'p op_label \<Rightarrow> bool" where
  "terminates (OCancel _) = True" | "terminates OConsumerClose = True" | "terminates OFinished = True"
| "terminates OStop = True" | "terminates OCleanup = True" | "terminates _ = False"

lemma terminates_step:
  assumes "op_step l to_value wire s lab t" and "terminates lab"
  shows "op_term (st t) \<noteq> None"
  using assms(1)
proof (cases rule: op_step.cases)
  case (forwarded e d q)
  then show ?thesis
    using assms(2) forward_effect [OF forwarded(3)] finish_terminal by (fastforce split: if_splits)
next
  case (cancelled r q)
  then show ?thesis using cancel_terminal [of to_value "st s"] by simp
qed (use assms(2) cancel_terminal finish_terminal in \<open>fastforce+\<close>)

lemma terminal_run:
  assumes "run (op_step l to_value wire) s ls t" and "op_term (st t) = None"
  shows "op_term (st s) = None \<and> (\<forall>lab \<in> set ls. \<not> terminates lab)"
  using assms
proof (induction rule: run.induct)
  case (run_Cons s lab t ls u)
  then have "op_term (st t) = None" by blast
  then show ?case using run_Cons terminates_step [OF run_Cons.hyps(1)] terminal_step [OF run_Cons.hyps(1)]
    by fastforce
qed simp

lemma input_fields [simp]:
  "input_queue (input_done s) = input_queue s"
  by (simp add: input_done_def split: input_state.split)

lemma input_keep:
  assumes "op_step l to_value wire s lab t" and "\<not> terminates lab"
  shows "polled_chunks lab @ input_queue (st t) = input_queue (st s) @ enqueued_chunks lab"
  using assms(1)
proof (cases rule: op_step.cases)
  case (forwarded e d q)
  then show ?thesis
    using assms(2) forward_effect [OF forwarded(3)]
    by (auto simp: op_finish_def set_terminal_def split: if_splits option.splits)
next
  case (next_returned r q)
  then show ?thesis by (cases r) (auto simp: next_attempt_def split: list.splits option.splits)
next
  case (polled r q)
  then show ?thesis by (auto simp: poll_next_def split: if_splits list.splits input_state.splits)
qed (use assms(2) in \<open>auto dest!: admit_cases push_attempt_cases try_push_cases\<close>)

lemma input_discard:
  assumes ok: "op_ok l s" and step: "op_step l to_value wire s lab t" and "terminates lab"
  shows "polled_chunks lab = [] \<and> input_queue (st t) = []"
proof -
  have "op_ok l t" using op_ok_step [OF ok step] .
  then have "input_queue (st t) = []"
    using terminates_step [OF step assms(3)] by (simp add: op_ok_def input_budget_def)
  then show ?thesis using assms(3) by (cases lab rule: terminates.cases) simp_all
qed

interpretation op_input: fifo_channel "op_step l to_value wire" "op_ok l"
  "\<lambda>s. input_queue (st s)" enqueued_chunks polled_chunks terminates
  for l :: operation_limits and to_value and wire :: "'p \<Rightarrow> usize list \<times> source_error option"
  by unfold_locales (auto simp: input_keep input_discard)

lemma output_fields [simp]:
  "output_queue (input_done s) = output_queue s" "output_queue (snd (op_cancel to_value s)) = output_queue s"
  "output_queue (op_finish to_value out err s) = output_queue s"
  "output_queue (terminate to_value task s) = output_queue s"
  by (simp_all add: input_done_def op_cancel_def op_finish_def set_terminal_def terminate_def Let_def report_failure_def
      join_driver_def record_cleanup_failure_def split: input_state.split option.split task_slot.split join_end.split)

lemma output_keep:
  assumes "op_step l to_value wire s lab t" and "lab \<noteq> OConsumerClose"
  shows "delivered_parts lab @ map fst (output_queue (st t)) = map fst (output_queue (st s)) @ forwarded_parts lab"
  using assms(1)
proof (cases rule: op_step.cases)
  case (forwarded e d q)
  then show ?thesis
    using forward_effect [OF forwarded(3)] by (auto split: if_splits)
next
  case (next_returned r q)
  then show ?thesis by (auto simp: next_attempt_def split: list.splits option.splits)
next
  case (polled r q)
  then show ?thesis by (auto simp: poll_next_def split: if_splits list.splits input_state.splits)
next
  case (cancelled r q)
  then show ?thesis using output_fields(2) [of to_value "st s"] by simp
qed (use assms(2) in \<open>auto dest!: admit_cases push_attempt_cases try_push_cases\<close>)

lemma output_discard:
  assumes "op_step l to_value wire s OConsumerClose t"
  shows "output_queue (st t) = []"
  using assms
proof (cases rule: op_step.cases)
  case closed_consumer
  then show ?thesis by (simp add: consumer_close_def)
qed (auto split: if_splits)

interpretation op_output: fifo_channel "op_step l to_value wire" "op_ok l"
  "\<lambda>s. map fst (output_queue (st s))" forwarded_parts delivered_parts "\<lambda>lab. lab = OConsumerClose"
  for l :: operation_limits and to_value and wire :: "'p \<Rightarrow> usize list \<times> source_error option"
  by unfold_locales (auto simp: output_keep output_discard)

text \<open>The smallest number that can still be enqueued.\<close>

definition frontier :: "'p op_sys \<Rightarrow> nat" where
  "frontier s = unat (send_sequence (st s))
     + (if \<exists>b. live s (send_sequence (st s)) = Some (b, True) then 1 else 0)"

lemma frontier_ge: "unat (send_sequence (st s)) \<le> frontier s"
  by (simp add: frontier_def)

lemma frontier_drop:
  assumes ok: "admission_ok s" and n: "live s n = Some b"
    and t: "t = s\<lparr>st := drop_admission n (st s), live := (live s)(n := None)\<rparr>"
  shows "frontier s \<le> frontier t"
proof -
  let ?send = "send_sequence (st s)" and ?dn = "insert n (completed_admissions (st s))"
  obtain m d where r: "release ?send ?dn = (m, d)" by force
  note k = admission_okD [OF ok]
  have "\<forall>x \<in> ?dn. x < admission_sequence (st s)" using k(2) n by blast
  note spec = release_spec [OF r this k(1)]
  have m: "send_sequence (st t) = m" by (simp add: t drop_admission_def r)
  show ?thesis
  proof (cases "\<exists>b'. live s ?send = Some (b', True)")
    case True
    show ?thesis
    proof (cases "n = ?send")
      case same: True
      have "m \<noteq> n" using spec same by auto
      then have "unat ?send < unat m" using spec same
        by (metis order_le_less word_less_nat_alt)
      then show ?thesis using True frontier_ge [of t] m by (auto simp: frontier_def [of s])
    next
      case False
      then have "?send \<notin> ?dn" using True k(3) by blast
      then have "m = ?send" using spec by (metis order_le_less)
      then show ?thesis using True False m by (auto simp: frontier_def t)
    qed
  next
    case False
    then have "frontier s = unat ?send" by (simp add: frontier_def)
    also have "\<dots> \<le> unat m" using spec by (simp add: word_le_nat_alt)
    finally show ?thesis using frontier_ge [of t] m by simp
  qed
qed

lemma send_sequence_adm_view: "adm_view q = adm_view s \<Longrightarrow> send_sequence q = send_sequence s"
  by (simp add: adm_view_def)

lemma send_sequence_fields [simp]:
  "send_sequence (input_done s) = send_sequence s"
  "send_sequence (snd (op_cancel to_value s)) = send_sequence s"
  "send_sequence (op_finish to_value out err s) = send_sequence s"
  "send_sequence (consumer_close to_value s) = send_sequence s"
  "send_sequence (terminate to_value task s) = send_sequence s"
  by (simp_all add: input_done_def op_cancel_def op_finish_def consumer_close_def set_terminal_def terminate_def Let_def
      report_failure_def join_driver_def record_cleanup_failure_def
      split: input_state.split option.split task_slot.split join_end.split)

lemma frontier_step:
  assumes ok: "admission_ok s" and step: "op_step l to_value wire s lab t"
  shows "frontier s \<le> frontier t \<and> (\<forall>n \<in> set (enqueued_numbers lab). frontier s \<le> unat n \<and> unat n < frontier t)"
  using step
proof (cases rule: op_step.cases)
  case (admitted bytes n q)
  then have q: "send_sequence q = send_sequence (st s)" and n: "n = admission_sequence (st s)"
    by (auto dest!: admit_cases)
  have "live s n = None" using admission_okD(2) [OF ok, of n] n by blast
  then show ?thesis using admitted q by (auto simp: frontier_def)
next
  case (enqueued n bytes q)
  then have "n = send_sequence (st s)" "send_sequence q = send_sequence (st s)"
    by (auto dest!: push_attempt_cases)
  then show ?thesis using enqueued by (auto simp: frontier_def)
next
  case (push_failed n bytes e q)
  then have "q = st s" by (auto dest!: push_attempt_cases)
  then show ?thesis using push_failed frontier_drop [OF ok push_failed(3)] by simp
next
  case (admission_dropped n b)
  then show ?thesis using frontier_drop [OF ok] by simp
next
  case (try_pushed bytes u q)
  then obtain m where m: "checked_add (send_sequence (st s)) 1 = Some m" "send_sequence q = m"
    "admission_sequence (st s) = send_sequence (st s)"
    by (auto dest!: try_push_cases)
  have "live s n = None" for n using admission_okD(2) [OF ok, of n] m(3) by (metis domIff leD)
  moreover have "unat m = unat (send_sequence (st s)) + 1" using m(1) by (simp add: checked_add_Some)
  ultimately show ?thesis using try_pushed m by (auto simp: frontier_def)
next
  case (forwarded e d q)
  then show ?thesis
    using send_sequence_adm_view [OF adm_view_forward [OF forwarded(3)]] by (simp add: frontier_def)
next
  case (polled r q)
  then show ?thesis
    by (auto simp: poll_next_def frontier_def split: if_splits list.splits input_state.splits)
next
  case (next_returned r q)
  then show ?thesis by (auto simp: next_attempt_def frontier_def split: list.splits option.splits)
next
  case (cancelled r q)
  then show ?thesis using send_sequence_fields(2) [of to_value "st s"] by (simp add: frontier_def)
qed (auto simp: frontier_def dest!: admit_cases try_push_cases)

lemma frontier_run:
  assumes "run (op_step l to_value wire) s ls t" and "admission_ok s"
  shows "sorted_wrt (<) (concat (map enqueued_numbers ls))
       \<and> (\<forall>n \<in> set (concat (map enqueued_numbers ls)). frontier s \<le> unat n)"
  using assms
proof (induction rule: run.induct)
  case (run_Cons s lab t ls u)
  note f = frontier_step [OF run_Cons.prems run_Cons.hyps(1)]
  have IH: "sorted_wrt (<) (concat (map enqueued_numbers ls))"
    "\<forall>n \<in> set (concat (map enqueued_numbers ls)). frontier t \<le> unat n"
    using run_Cons admission_ok_step by blast+
  have "sorted_wrt (<) (enqueued_numbers lab)" by (cases lab) simp_all
  moreover have "x < y" if "x \<in> set (enqueued_numbers lab)" "y \<in> set (concat (map enqueued_numbers ls))" for x y
    using f IH(2) that by (meson less_le_trans word_less_nat_alt)
  moreover have "frontier s \<le> unat n" if "n \<in> set (concat (map enqueued_numbers ls))" for n
    using f IH(2) that by (meson le_trans)
  ultimately show ?case
    using f IH(1) unfolding list.map concat.simps sorted_wrt_append set_append by blast
qed simp

section \<open>The terminal slot\<close>

definition term_ok :: "(aimux_error \<Rightarrow> source_error + json) \<Rightarrow> op_terminal \<Rightarrow> bool" where
  "term_ok to_value x \<longleftrightarrow>
     (ts_outcome (t_summary x) = Success \<longleftrightarrow> ts_error (t_summary x) = None)
   \<and> (\<forall>e. t_error x = Some e \<longrightarrow> ts_error (t_summary x) = Some (envelope to_value e))"

lemma term_ok_new:
  "op_term s = None \<Longrightarrow> op_term (op_finish to_value (if err = None then Success else Error) err s) = Some x \<Longrightarrow>
     term_ok to_value x"
  "op_term s = None \<Longrightarrow> op_term (snd (op_cancel to_value s)) = Some x \<Longrightarrow> term_ok to_value x"
  by (auto simp: op_finish_def op_cancel_def set_terminal_def term_ok_def split: if_splits)

lemma term_ok_step:
  assumes "op_step l to_value wire s lab t" and "op_term (st s) = None" and x: "op_term (st t) = Some x"
  shows "term_ok to_value x"
  using assms(1)
proof (cases rule: op_step.cases)
  case (forwarded e d q)
  then show ?thesis
    using assms(2) x forward_effect [OF forwarded(3)] by (auto intro: term_ok_new)
next
  case (cancelled r q)
  then show ?thesis using term_ok_new(2) [OF assms(2), of to_value x] x by simp
next
  case driver_panicked
  then show ?thesis using term_ok_new(1) [OF assms(2), of to_value "Some (invalid_state ''transcription driver panicked'')" x] x
    by simp
next
  case (polled r q)
  then show ?thesis using assms(2) x
    by (auto simp: poll_next_def split: if_splits list.splits input_state.splits)
next
  case (next_returned r q)
  then show ?thesis using assms(2) x by (auto simp: next_attempt_def split: list.splits)
qed (use assms(2) x term_ok_new(2) [OF assms(2), of to_value x] in
      \<open>auto dest!: admit_cases push_attempt_cases try_push_cases\<close>)

lemma term_ok_run:
  assumes "run (op_step l to_value wire) s ls t" and "op_term (st s) = None" and "op_term (st t) = Some x"
  shows "term_ok to_value x"
proof -
  have kept: "run (op_step l to_value wire) s ls t \<Longrightarrow> op_term (st s) = Some y \<Longrightarrow> term_ok to_value y \<Longrightarrow>
      op_term (st t) = Some x \<Longrightarrow> term_ok to_value x" for s t ls y
  proof (induction arbitrary: y rule: run.induct)
    case (run_Cons s lab t ls u)
    obtain z where "op_term (st t) = Some z" "t_summary z = t_summary y" "t_error z = t_error y \<or> t_error z = None"
      using terminal_step [OF run_Cons.hyps(1) run_Cons.prems(1)] by blast
    then show ?case using run_Cons by (fastforce simp: term_ok_def)
  qed simp
  show ?thesis using assms
  proof (induction rule: run.induct)
    case (run_Cons s lab t ls u)
    then show ?case
      using term_ok_step [OF run_Cons.hyps(1) run_Cons.prems(1)] kept [OF run_Cons.hyps(2)]
      by (cases "op_term (st t)") auto
  qed simp
qed

text \<open>An operation whose terminal error was taken and whose output is drained only reports \<open>Ended\<close>.\<close>

definition exhausted :: "'p op_sys \<Rightarrow> bool" where
  "exhausted s \<longleftrightarrow> output_queue (st s) = [] \<and> (\<exists>x. op_term (st s) = Some x \<and> t_error x = None)"

lemma no_forward_after_terminal:
  assumes "op_step l to_value wire s lab t" and "op_term (st s) \<noteq> None"
  shows "forwarded_parts lab = []"
  using assms(1)
proof (cases rule: op_step.cases)
  case (forwarded e d q)
  then show ?thesis using assms(2) forward_effect [OF forwarded(3)] by auto
qed simp_all

lemma exhausted_step:
  assumes "op_step l to_value wire s lab t" and ex: "exhausted s"
  shows "exhausted t \<and> forwarded_parts lab = [] \<and> (\<forall>r. lab = ONext r \<longrightarrow> r \<in> {Ended, Timeout})"
proof -
  obtain x where x: "op_term (st s) = Some x" "t_error x = None" using ex by (auto simp: exhausted_def)
  obtain y where y: "op_term (st t) = Some y" "t_error y = None"
    using terminal_step [OF assms(1) x(1)] x(2) by auto
  have f: "forwarded_parts lab = []" using no_forward_after_terminal [OF assms(1)] x by simp
  have r: "\<forall>r. lab = ONext r \<longrightarrow> r \<in> {Ended, Timeout}"
  proof (intro allI impI)
    fix r assume "lab = ONext r"
    then have "op_step l to_value wire s (ONext r) t" using assms(1) by simp
    then show "r \<in> {Ended, Timeout}"
      by (cases rule: op_step.cases)
         (use ex x in \<open>auto simp: next_attempt_def exhausted_def split: if_splits\<close>)
  qed
  have "delivered_parts lab = []" using r by (cases lab rule: delivered_parts.cases) auto
  then have "output_queue (st t) = []"
    using output_keep [OF assms(1)] output_discard f ex assms(1) by (cases "lab = OConsumerClose") (auto simp: exhausted_def)
  with y f r show ?thesis by (simp add: exhausted_def)
qed

lemma exhausted_run:
  assumes "run (op_step l to_value wire) s ls t" and "exhausted s"
  shows "concat (map forwarded_parts ls) = [] \<and> (\<forall>r. ONext r \<in> set ls \<longrightarrow> r \<in> {Ended, Timeout})"
  using assms
proof (induction rule: run.induct)
  case (run_Cons s lab t ls u)
  then show ?case using exhausted_step [OF run_Cons.hyps(1) run_Cons.prems] by auto
qed simp

lemma next_error_step:
  assumes "op_step l to_value wire s (ONext (NextError e)) t"
  shows "output_queue (st s) = [] \<and> exhausted t \<and> (\<exists>x. op_term (st s) = Some x \<and> t_error x = Some e)"
  using assms
proof (cases rule: op_step.cases)
  case (next_returned q)
  then show ?thesis by (auto simp: next_attempt_def exhausted_def split: list.splits option.splits)
qed (auto split: if_splits)

lemma summary_run:
  assumes "run (op_step l to_value wire) s ls t" and "op_term (st s) = Some x"
  shows "\<exists>y. op_term (st t) = Some y \<and> t_summary y = t_summary x"
  using assms
proof (induction arbitrary: x rule: run.induct)
  case (run_Cons s lab t ls u)
  then show ?case using terminal_step [OF run_Cons.hyps(1) run_Cons.prems] by metis
qed simp

text \<open>A closed consumer stays closed.\<close>

lemma consumer_fields [simp]:
  "op_consumer (input_done s) = op_consumer s" "op_consumer (snd (op_cancel to_value s)) = op_consumer s"
  "op_consumer (op_finish to_value out err s) = op_consumer s"
  "op_consumer (terminate to_value task s) = op_consumer s"
  "op_consumer (consumer_close to_value s) = ConsClosed"
  by (simp_all add: input_done_def op_cancel_def op_finish_def set_terminal_def terminate_def Let_def report_failure_def
      join_driver_def record_cleanup_failure_def consumer_close_def
      split: input_state.split option.split task_slot.split join_end.split)

lemma consumer_closed_step:
  assumes "op_step l to_value wire s lab t" and c: "op_consumer (st s) = ConsClosed"
  shows "op_consumer (st t) = ConsClosed"
  using assms(1)
proof (cases rule: op_step.cases)
  case (forwarded e d q)
  then show ?thesis using c forward_effect [OF forwarded(3)] by auto
next
  case (cancelled r q)
  then show ?thesis using c consumer_fields(2) [of to_value "st s"] by simp
next
  case (polled r q)
  then show ?thesis using c by (auto simp: poll_next_def split: if_splits list.splits input_state.splits)
next
  case (next_returned r q)
  then show ?thesis using c by (auto simp: next_attempt_def split: list.splits option.splits)
qed (use c in \<open>auto dest!: admit_cases push_attempt_cases try_push_cases\<close>)

lemma consumer_closed_run:
  assumes "run (op_step l to_value wire) s ls t" and "op_ok l s" and "op_consumer (st s) = ConsClosed"
  shows "concat (map delivered_parts ls) = []"
  using assms
proof (induction rule: run.induct)
  case (run_Cons s lab t ls u)
  have ok: "op_ok l t" using op_ok_step run_Cons by blast
  moreover have c: "op_consumer (st t) = ConsClosed" using consumer_closed_step run_Cons by blast
  ultimately have "output_queue (st t) = []" by (simp add: op_ok_def output_budget_def)
  moreover have "output_queue (st s) = []" using run_Cons.prems by (simp add: op_ok_def output_budget_def)
  moreover have "op_term (st s) \<noteq> None" using run_Cons.prems by (simp add: op_ok_def output_budget_def)
  ultimately have "delivered_parts lab = []"
    using output_keep [OF run_Cons.hyps(1)] no_forward_after_terminal [OF run_Cons.hyps(1)]
    by (cases "lab = OConsumerClose") auto
  with run_Cons ok c show ?case by simp
qed simp

section \<open>Runs of an operation\<close>

text \<open>
  A chunk pushed synchronously, one pushed through an admission, the input closed, and both chunks
  read by the provider; and an operation cancelled while a reader waits. The serializer writes three
  bytes for each part.
\<close>

definition sample_wire :: "nat \<Rightarrow> usize list \<times> source_error option" where
  "sample_wire p = ([3], None)"

definition sample_value :: "aimux_error \<Rightarrow> source_error + json" where
  "sample_value e = Inr JNull"

definition sample_op ::
  "input_state \<Rightarrow> u64 \<Rightarrow> u64 \<Rightarrow> u8 list list \<Rightarrow> usize \<Rightarrow> (u64 \<rightharpoonup> u8 list \<times> bool) \<Rightarrow> nat op_sys" where
  "sample_op i adm send q b lv = init_operation\<lparr>st := new_operation\<lparr>op_input := i, admission_sequence := adm,
     send_sequence := send, input_queue := q, input_bytes := b\<rparr>, live := lv\<rparr>"

definition sample_input :: "nat op_label list" where
  "sample_input = [OTryPush 0 [1], OAdmit 1 [2, 3], OEnqueue 1 [2, 3], ORelease 1, OInputDone,
     OPoll (Chunk [1]), OPoll (Chunk [2, 3])]"

lemma sample_input_run:
  "run (op_step default_limits sample_value sample_wire) init_operation sample_input
     (sample_op (InClosed 2) 2 2 [] 0 Map.empty)"
proof -
  note defs = sample_op_def init_operation_def new_operation_def try_push_def admit_def push_attempt_def
    check_input_length_def default_limits_def AUDIO_INPUT_ITEMS_def QUEUE_BYTES_def ITEM_BYTES_def OUTPUT_ITEMS_def
    len_def is_slice_def checked_add_def input_done_def poll_next_def drop_admission_def
  let ?step = "op_step default_limits sample_value sample_wire"
  note step = run_Cons [where step = ?step]
  have 1: "?step init_operation (OTryPush 0 [1]) (sample_op InOpen 1 1 [[1]] 1 Map.empty)"
    using op_step.try_pushed [where s = init_operation and bytes = "[1]" and l = default_limits
      and to_value = sample_value and wire = sample_wire]
    by (simp add: defs)
  have 2: "?step (sample_op InOpen 1 1 [[1]] 1 Map.empty) (OAdmit 1 [2, 3])
      (sample_op InOpen 2 1 [[1]] 1 [1 \<mapsto> ([2, 3], False)])"
    using op_step.admitted [where s = "sample_op InOpen 1 1 [[1]] 1 Map.empty" and bytes = "[2, 3]"
      and l = default_limits and to_value = sample_value and wire = sample_wire]
    by (simp add: defs)
  have 3: "?step (sample_op InOpen 2 1 [[1]] 1 [1 \<mapsto> ([2, 3], False)]) (OEnqueue 1 [2, 3])
      (sample_op InOpen 2 1 [[1], [2, 3]] 3 [1 \<mapsto> ([2, 3], True)])"
    using op_step.enqueued [where s = "sample_op InOpen 2 1 [[1]] 1 [1 \<mapsto> ([2, 3], False)]" and n = 1
      and bytes = "[2, 3]" and l = default_limits and to_value = sample_value and wire = sample_wire]
    by (simp add: defs)
  have rel: "release 1 {1} = (2, {})" by (simp add: release.simps saturating_add_def)
  have 4: "?step (sample_op InOpen 2 1 [[1], [2, 3]] 3 [1 \<mapsto> ([2, 3], True)]) (ORelease 1)
      (sample_op InOpen 2 2 [[1], [2, 3]] 3 Map.empty)"
    using op_step.admission_dropped [where s = "sample_op InOpen 2 1 [[1], [2, 3]] 3 [1 \<mapsto> ([2, 3], True)]"
      and n = 1 and l = default_limits and to_value = sample_value and wire = sample_wire]
    by (simp add: defs rel)
  have 5: "?step (sample_op InOpen 2 2 [[1], [2, 3]] 3 Map.empty) OInputDone
      (sample_op (InClosed 2) 2 2 [[1], [2, 3]] 3 Map.empty)"
    using op_step.closed_input [where s = "sample_op InOpen 2 2 [[1], [2, 3]] 3 Map.empty"
      and l = default_limits and to_value = sample_value and wire = sample_wire]
    by (simp add: defs)
  have 6: "?step (sample_op (InClosed 2) 2 2 [[1], [2, 3]] 3 Map.empty) (OPoll (Chunk [1]))
      (sample_op (InClosed 2) 2 2 [[2, 3]] 2 Map.empty)"
    using op_step.polled [where s = "sample_op (InClosed 2) 2 2 [[1], [2, 3]] 3 Map.empty"
      and l = default_limits and to_value = sample_value and wire = sample_wire]
    by (simp add: defs)
  have 7: "?step (sample_op (InClosed 2) 2 2 [[2, 3]] 2 Map.empty) (OPoll (Chunk [2, 3]))
      (sample_op (InClosed 2) 2 2 [] 0 Map.empty)"
    using op_step.polled [where s = "sample_op (InClosed 2) 2 2 [[2, 3]] 2 Map.empty"
      and l = default_limits and to_value = sample_value and wire = sample_wire]
    by (simp add: defs)
  show ?thesis
    unfolding sample_input_def
    by (intro step [OF 1] step [OF 2] step [OF 3] step [OF 4] step [OF 5] step [OF 6] step [OF 7] run_Nil)
qed

lemma sample_cancel_run:
  "\<exists>t. run (op_step default_limits sample_value sample_wire) init_operation
     [ONextStart, OCancel First, ONext (NextError cancelled_error)] t"
proof -
  let ?step = "op_step default_limits sample_value sample_wire"
  let ?s1 = "init_operation\<lparr>reading := True\<rparr> :: nat op_sys"
  let ?s2 = "?s1\<lparr>st := snd (op_cancel sample_value (st ?s1))\<rparr>"
  let ?s3 = "?s2\<lparr>st := snd (next_attempt (st ?s2)), reading := False\<rparr>"
  note defs = init_operation_def new_operation_def op_cancel_def set_terminal_def next_attempt_def
  have 1: "?step init_operation ONextStart ?s1"
    by (rule op_step.next_started) (simp add: defs)
  have 2: "?step ?s1 (OCancel First) ?s2"
    by (rule op_step.cancelled) (simp add: defs)
  have 3: "?step ?s2 (ONext (NextError cancelled_error)) ?s3"
    by (rule op_step.next_returned) (simp_all add: defs)
  note step = run_Cons [where step = ?step]
  show ?thesis by (intro exI [of _ ?s3] step [OF 1] step [OF 2] step [OF 3] run_Nil)
qed

section \<open>Properties\<close>

lemma init_operation_fields [simp]:
  "op_term (st init_operation) = None" "input_queue (st init_operation) = []"
  "output_queue (st init_operation) = []" "op_consumer (st init_operation) = ConsOpen"
  by (simp_all add: init_operation_def new_operation_def)

text \<open>
  C1. Input order. Over any interleaving of pushes, synchronous pushes, dropped pushes, closures and
  reads, chunks are enqueued in the order of their admission numbers, the provider reads a
  subsequence of what was enqueued in that order, and while the operation has not terminated nothing
  is lost: what was read followed by what is queued is what was enqueued.
\<close>

theorem operation_input_order:
  assumes "run (op_step l to_value wire) init_operation ls t"
  shows "sorted_wrt (<) (concat (map enqueued_numbers ls))
       \<and> subseq (concat (map polled_chunks ls)) (concat (map enqueued_chunks ls))
       \<and> (op_term (st t) = None \<longrightarrow>
            concat (map polled_chunks ls) @ input_queue (st t) = concat (map enqueued_chunks ls))"
proof (intro conjI impI)
  have adm: "admission_ok init_operation" by (simp add: admission_ok_def init_operation_def new_operation_def leD)
  show "sorted_wrt (<) (concat (map enqueued_numbers ls))"
    using frontier_run [OF assms adm] by blast
  show "subseq (concat (map polled_chunks ls)) (concat (map enqueued_chunks ls))"
    using op_input.run_delivers_subsequence [OF assms init_operation_ok] by simp
  assume "op_term (st t) = None"
  then show "concat (map polled_chunks ls) @ input_queue (st t) = concat (map enqueued_chunks ls)"
    using op_input.run_keeps_order [OF assms init_operation_ok] terminal_run [OF assms] by simp
qed

theorem operation_input_order_witness:
  "concat (map polled_chunks sample_input) = concat (map enqueued_chunks sample_input)"
  using operation_input_order [OF sample_input_run]
  by (simp add: sample_op_def init_operation_def new_operation_def sample_input_def)

text \<open>
  End of audio. The provider is told that the audio has ended, on an operation that has not
  terminated, only after the input was closed, no admitted push is pending any more, and every
  enqueued chunk was read.
\<close>

lemma audio_end_complete:
  assumes "run (op_step l to_value wire) init_operation ls s" and "poll_next (st s) = (AudioEnd, q)"
    and "op_term (st s) = None"
  shows "op_input (st s) = InClosed (admission_sequence (st s)) \<and> live s = Map.empty
       \<and> concat (map polled_chunks ls) = concat (map enqueued_chunks ls)"
proof -
  have ok: "op_ok l s" using operation.inv_run [OF assms(1) init_operation_ok] .
  then have adm: "admission_ok s" by (simp add: op_ok_def)
  obtain m where m: "op_input (st s) = InClosed m" "send_sequence (st s) = m" "input_queue (st s) = []"
    using assms(2,3) by (auto simp: poll_next_def split: list.splits input_state.splits if_splits)
  moreover have a: "m = admission_sequence (st s)" using admission_okD(6) [OF adm m(1)] .
  have "x \<notin> dom (live s)" for x using admission_okD(2) [OF adm, of x] m(2) a by (metis leD)
  then have "live s = Map.empty" by (metis domIff ext)
  moreover have "concat (map polled_chunks ls) @ input_queue (st s) = concat (map enqueued_chunks ls)"
    using op_input.run_keeps_order [OF assms(1) init_operation_ok] terminal_run [OF assms(1,3)] by simp
  ultimately show ?thesis using a by simp
qed

lemma audio_end_complete_witness:
  "live (sample_op (InClosed 2) 2 2 [] 0 Map.empty) = Map.empty
   \<and> fst (poll_next (st (sample_op (InClosed 2) 2 2 [] 0 Map.empty))) = AudioEnd"
  using audio_end_complete [OF sample_input_run, of "st (sample_op (InClosed 2) 2 2 [] 0 Map.empty)"]
  by (simp add: sample_op_def init_operation_def new_operation_def poll_next_def)

text \<open>
  No stuck admission. Whatever pushes were dropped, failed or completed out of order, while the
  operation runs and some push is pending the push whose turn it is (its number is the send sequence)
  is one of the live ones, and once the provider has drained the input its next attempt enqueues.
\<close>

lemma head_push_progress:
  assumes "op_ok l s" and "op_term (st s) = None" and "live s \<noteq> Map.empty" and "0 < input_items l"
  shows "\<exists>b q. live s (send_sequence (st s)) = Some (b, q)
       \<and> (input_queue (st s) = [] \<longrightarrow> fst (push_attempt l (send_sequence (st s)) b (st s)) = Enqueued)"
proof -
  have adm: "admission_ok s" and live: "live_ok l s" and budget: "input_budget l (st s)"
    using assms(1) by (simp_all add: op_ok_def)
  obtain x where "x \<in> dom (live s)" using assms(3) by blast
  then have "send_sequence (st s) < admission_sequence (st s)"
    using admission_okD(2) [OF adm, of x] by (metis le_less_trans)
  then have "send_sequence (st s) \<in> dom (live s)"
    using admission_okD(2) [OF adm, of "send_sequence (st s)"] admission_okD(4) [OF adm] by blast
  then obtain b q where b: "live s (send_sequence (st s)) = Some (b, q)" by force
  then have len: "len b \<le> input_bytes_limit l"
    using live by (force simp: live_ok_def check_input_length_def split: if_splits)
  moreover have "input_queue (st s) = [] \<Longrightarrow> input_bytes (st s) = 0"
    using budget by (simp add: input_budget_def unat_eq_zero)
  moreover have "0 < unat (input_items l)" using assms(4) by (simp add: word_less_nat_alt)
  moreover have "checked_add 0 (len b) = Some (len b)"
    using unat_usize_max [of "len b"] by (simp add: checked_add_def)
  ultimately have "input_queue (st s) = [] \<longrightarrow> fst (push_attempt l (send_sequence (st s)) b (st s)) = Enqueued"
    using assms(2) by (simp add: push_attempt_def)
  with b show ?thesis by blast
qed

lemma head_push_progress_witness:
  "\<exists>b q. live (sample_op InOpen 1 0 [] 0 [0 \<mapsto> ([7], False)]) 0 = Some (b, q)
     \<and> fst (push_attempt default_limits 0 b (st (sample_op InOpen 1 0 [] 0 [0 \<mapsto> ([7], False)]))) = Enqueued"
proof -
  let ?s = "sample_op InOpen 1 0 [] 0 [0 \<mapsto> ([7], False)]"
  have range: "x < 1 \<longleftrightarrow> x = 0" for x :: u64 by (simp add: word_less_nat_alt unat_eq_zero)
  have "op_ok default_limits ?s"
    by (auto simp: op_ok_def admission_ok_def live_ok_def budget_defs driver_ok_def sample_op_def
        init_operation_def new_operation_def is_slice_def check_input_length_def len_def default_limits_def
        ITEM_BYTES_def QUEUE_BYTES_def range split: if_splits)
  then show ?thesis
    using head_push_progress [of default_limits ?s]
    by (simp add: sample_op_def init_operation_def new_operation_def default_limits_def AUDIO_INPUT_ITEMS_def)
qed

text \<open>
  C2. The terminal slot. When \<open>next\<close> reports the terminal error, every part forwarded so far was
  delivered before it unless the consumer closed; the durable summary keeps that error's envelope and
  is no success; afterwards nothing is forwarded and every later \<open>next\<close> reports the end (or times out),
  so the error is reported once.
\<close>

theorem terminal_error_once:
  assumes "run (op_step l to_value wire) init_operation (pre @ ONext (NextError e) # post) t"
  shows "(OConsumerClose \<notin> set pre \<longrightarrow> concat (map delivered_parts pre) = concat (map forwarded_parts pre))
       \<and> (\<exists>x. op_term (st t) = Some x \<and> ts_error (t_summary x) = Some (envelope to_value e)
              \<and> ts_outcome (t_summary x) \<noteq> Success)
       \<and> concat (map forwarded_parts post) = []
       \<and> (\<forall>r. ONext r \<in> set post \<longrightarrow> r \<in> {Ended, Timeout})"
proof -
  let ?step = "op_step l to_value wire"
  obtain s u where pre: "run ?step init_operation pre s" and now: "?step s (ONext (NextError e)) u"
    and post: "run ?step u post t"
    using assms by (auto simp: run_append)
  obtain x where out: "output_queue (st s) = []" "exhausted u" and x: "op_term (st s) = Some x" "t_error x = Some e"
    using next_error_step [OF now] by blast
  have "term_ok to_value x" using term_ok_run [OF pre _ x(1)] by simp
  then have ok: "ts_error (t_summary x) = Some (envelope to_value e)" "ts_outcome (t_summary x) \<noteq> Success"
    using x(2) by (auto simp: term_ok_def)
  have "run ?step s (ONext (NextError e) # post) t" using now post by (rule run_Cons)
  from summary_run [OF this x(1)] obtain y where "op_term (st t) = Some y" "t_summary y = t_summary x"
    by blast
  moreover have "OConsumerClose \<notin> set pre \<longrightarrow> concat (map delivered_parts pre) = concat (map forwarded_parts pre)"
    using op_output.run_keeps_order [OF pre init_operation_ok] out(1) by auto
  ultimately show ?thesis using exhausted_run [OF post out(2)] ok by auto
qed

theorem terminal_error_once_witness:
  "\<exists>t x. run (op_step default_limits sample_value sample_wire) init_operation
        ([ONextStart, OCancel First] @ ONext (NextError cancelled_error) # []) t
     \<and> op_term (st t) = Some x \<and> ts_error (t_summary x) = Some (envelope sample_value cancelled_error)"
proof -
  obtain t where t: "run (op_step default_limits sample_value sample_wire) init_operation
      ([ONextStart, OCancel First] @ ONext (NextError cancelled_error) # []) t"
    using sample_cancel_run unfolding append.simps by metis
  with terminal_error_once [OF t] show ?thesis by blast
qed

text \<open>
  A closed consumer. After \<open>consumer_close\<close> no part is ever delivered again, whatever the driver had
  in flight, and the operation is terminal.
\<close>

lemma consumer_close_final:
  assumes "run (op_step l to_value wire) init_operation (pre @ OConsumerClose # post) t"
  shows "concat (map delivered_parts post) = [] \<and> output_queue (st t) = [] \<and> op_term (st t) \<noteq> None"
proof -
  let ?step = "op_step l to_value wire"
  obtain s u where pre: "run ?step init_operation pre s" and now: "?step s OConsumerClose u"
    and post: "run ?step u post t"
    using assms by (auto simp: run_append)
  have "op_ok l s" using operation.inv_run [OF pre init_operation_ok] .
  then have ok: "op_ok l u" using op_ok_step now by blast
  have c: "op_consumer (st u) = ConsClosed"
    using now by (cases rule: op_step.cases) (auto split: if_splits)
  have "op_ok l t \<and> op_consumer (st t) = ConsClosed"
    using post ok c by (induction rule: run.induct) (auto intro: op_ok_step consumer_closed_step)
  then show ?thesis
    using consumer_closed_run [OF post ok c] by (simp add: op_ok_def output_budget_def)
qed

lemma consumer_close_final_witness:
  "op_term (st (init_operation\<lparr>st := consumer_close sample_value (st init_operation)\<rparr> :: nat op_sys)) \<noteq> None"
proof -
  have "run (op_step default_limits sample_value sample_wire) init_operation ([] @ OConsumerClose # [])
      (init_operation\<lparr>st := consumer_close sample_value (st init_operation)\<rparr>)"
    by (auto intro: run_Cons op_step.closed_consumer)
  from consumer_close_final [OF this] show ?thesis by blast
qed

text \<open>
  Budgets. In every reachable state the byte counters are the exact sizes of the two queues, both
  queues are within their item and byte limits (so no counter wraps when an item is taken), and a
  terminated operation holds no input.
\<close>

lemma operation_budgets:
  assumes "run (op_step l to_value wire) init_operation ls t"
  shows "unat (input_bytes (st t)) = sum_list (map length (input_queue (st t)))
       \<and> input_bytes (st t) \<le> input_bytes_limit l \<and> length (input_queue (st t)) \<le> unat (input_items l)
       \<and> unat (output_bytes (st t)) = sum_list (map (unat \<circ> snd) (output_queue (st t)))
       \<and> output_bytes (st t) \<le> output_bytes_limit l \<and> length (output_queue (st t)) \<le> unat (output_items l)
       \<and> (op_term (st t) \<noteq> None \<longrightarrow> input_queue (st t) = [])"
  using operation.inv_run [OF assms init_operation_ok]
  by (simp add: op_ok_def budget_defs sum_bytes_def)

lemma operation_budgets_witness:
  "unat (input_bytes (st (sample_op (InClosed 2) 2 2 [] 0 Map.empty))) = 0"
  using operation_budgets [OF sample_input_run]
  by (simp add: sample_op_def init_operation_def new_operation_def)

end
