(* ===== verification/Dispatch.thy ===== *)
theory Dispatch
  imports Handles Frame Operation
begin

text \<open>
  Dispatch of operations for the native adapters (\<open>src/aimux-ops/src/dispatch.rs\<close>, the descriptors of
  \<open>op.rs\<close>) with the handlers of the realtime operations (\<open>ops/operation.rs\<close>) and of the runtime
  handles (\<open>ops/handles.rs\<close>): lookup of the registration, checks of mode, parameters and handles,
  \<open>handle.drop\<close>, cancellation and framing. The service state is the handle table with the operations
  and abort signals its references stand for. A future is what its k-th poll does to the state;
  \<open>serde_json\<close>, the clock and the models are the fields of \<open>host\<close>.
\<close>

section \<open>Descriptors\<close>

datatype op_mode = ModeCall | ModeStream | ModeBinaryPush | ModePoll

datatype scope = ScopeCurrent | ScopeFuture

datatype cancellation = CancelNone | CancelAbort | CancelOperation

datatype request_byte_policy = PolicyJson | PolicyJsonWithBase64 | PolicyBinary

text \<open>The type references (schemas of the wire types) are left out.\<close>

record op_descriptor =
  od_name :: string
  since_ops_version :: string
  mode :: op_mode
  allowed_handle_kinds :: "handle_kind list"
  od_scope :: scope
  runtime_handle_fields :: "(string \<times> handle_kind list) list"
  required_capabilities :: "string list"
  od_cancellation :: cancellation
  result_ownership :: string
  od_byte_policy :: request_byte_policy
  side_effects :: bool
  retry_owner :: string

section \<open>The service\<close>

record ('r, 'p) service =
  handles :: "'r handle_state"
  ops :: "'r \<Rightarrow> 'p op_sys"
  signals :: "'r \<Rightarrow> bool"

record 'r ctx =
  ctx_owner :: owner
  ctx_abort :: "'r option"

datatype 'r target = Global | Handle "'r entry"

type_synonym ('r, 'p) call_future =
  "nat \<Rightarrow> ('r, 'p) service \<Rightarrow> json ops_result option \<times> ('r, 'p) service"

datatype ('r, 'p) handler =
  HCall "'r ctx \<Rightarrow> 'r target \<Rightarrow> json \<Rightarrow> ('r, 'p) call_future"
| HStream "'r ctx \<Rightarrow> 'r target \<Rightarrow> json \<Rightarrow> ('r, 'p) service \<Rightarrow> upstream list ops_result \<times> ('r, 'p) service"

text \<open>
  What the handlers use of other code: the error \<open>serde_json\<close> reports for a value a reader refuses, the
  derived readers and writers of larger wire types, whether a deadline has passed at a poll, the
  models' names and streaming capability, and the reference of the next resource to be created.
\<close>

datatype transport_params = TransportFetch | TransportWebSocket | TransportDownload "usize option"

record middleware_params =
  mp_kind :: string
  mp_trace_store :: "u64 option"

record ('r, 'p) host =
  refusal :: "json \<Rightarrow> source_error"
  start_request :: "json \<Rightarrow> source_error + unit"
  transport_request :: "json \<Rightarrow> source_error + transport_params"
  credential_request :: "json \<Rightarrow> source_error + string"
  middleware_request :: "json \<Rightarrow> source_error + middleware_params"
  part_value :: "'p \<Rightarrow> source_error + json"
  status_value :: "operation_status \<Rightarrow> source_error + json"
  error_value :: "aimux_error \<Rightarrow> source_error + json"
  elapsed :: "u64 \<Rightarrow> nat \<Rightarrow> bool"
  has_runtime :: bool
  model_info :: "'r \<Rightarrow> string \<times> string \<times> bool"
  fresh :: "('r, 'p) service \<Rightarrow> 'r"

section \<open>Errors and parameters\<close>

definition HANDLE_DROP :: string where "HANDLE_DROP = ''handle.drop''"

definition invalid_op :: "string \<Rightarrow> ops_error" where
  "invalid_op name = OpsProtocol (InvalidOp name)"

definition aborted :: ops_error where
  "aborted = OpsAiMux (Aborted ''request aborted'')"

definition validate_object :: "json \<Rightarrow> unit ops_result" where
  "validate_object params = (case params of
     JObject _ \<Rightarrow> Inr ()
   | _ \<Rightarrow> Inl (OpsProtocol (InvalidParams ''operation params must be an object'' None)))"

definition decode :: "(json \<Rightarrow> source_error + 'a) \<Rightarrow> json \<Rightarrow> 'a ops_result" where
  "decode from_value params = (case from_value params of
     Inr v \<Rightarrow> Inr v
   | Inl e \<Rightarrow> Inl (OpsProtocol (InvalidParams (se_message e) (Some e))))"

text \<open>The derived readers of \<open>EmptyParams\<close>, \<open>OperationNextParams\<close> and \<open>HandleId\<close>.\<close>

definition read_empty :: "('r, 'p) host \<Rightarrow> json \<Rightarrow> source_error + unit" where
  "read_empty h params = (if params = JObject [] \<or> params = JArray [] then Inr () else Inl (refusal h params))"

definition read_next :: "('r, 'p) host \<Rightarrow> json \<Rightarrow> source_error + u64" where
  "read_next h params = (case params of
     JObject [] \<Rightarrow> Inr 0
   | JObject [(k, JNumber (PosInt n))] \<Rightarrow> (if k = ''timeoutMs'' then Inr n else Inl (refusal h params))
   | JArray [] \<Rightarrow> Inr 0
   | JArray [JNumber (PosInt n)] \<Rightarrow> Inr n
   | _ \<Rightarrow> Inl (refusal h params))"

definition read_handle :: "('r, 'p) host \<Rightarrow> json \<Rightarrow> source_error + u64" where
  "read_handle h v = (case v of
     JString s \<Rightarrow> (case handle_from_str s of Inl m \<Rightarrow> Inl (SourceError m None) | Inr hid \<Rightarrow> Inr hid)
   | _ \<Rightarrow> Inl (refusal h v))"

section \<open>Handles\<close>

definition resolve_target ::
  "'r handle_state \<Rightarrow> 'r ctx \<Rightarrow> u64 \<Rightarrow> op_descriptor \<Rightarrow> 'r target ops_result" where
  "resolve_target reg ctx hid d =
     (if hid = 0 \<and> allowed_handle_kinds d = [] then Inr Global
      else map_sum (\<lambda>e. e) Handle (get_handle (ctx_owner ctx) hid (allowed_handle_kinds d) reg))"

definition resolve_secondary ::
  "('r, 'p) host \<Rightarrow> 'r handle_state \<Rightarrow> 'r ctx \<Rightarrow> json \<Rightarrow> handle_kind list \<Rightarrow> 'r entry ops_result" where
  "resolve_secondary h reg ctx v allowed = (case decode (read_handle h) v of
     Inl e \<Rightarrow> Inl e
   | Inr hid \<Rightarrow> get_handle (ctx_owner ctx) hid allowed reg)"

text \<open>\<open>str::split\<close> at a character.\<close>

fun split_at :: "char \<Rightarrow> string \<Rightarrow> string list" where
  "split_at c [] = [[]]"
| "split_at c (x # xs) =
     (if x = c then [] # split_at c xs
      else (case split_at c xs of y # ys \<Rightarrow> (x # y) # ys | [] \<Rightarrow> [[x]]))"

definition value_get :: "json \<Rightarrow> string \<Rightarrow> json option" where
  "value_get v k = (case v of JObject kvs \<Rightarrow> map_of kvs k | _ \<Rightarrow> None)"

fun field_values :: "json \<Rightarrow> string list \<Rightarrow> json list" where
  "field_values v [] = (if v = JNull then [] else [v])"
| "field_values v (p # path) =
     (if p = ''*''
      then (case v of
              JArray vs \<Rightarrow> concat (map (\<lambda>x. field_values x path) vs)
            | JObject kvs \<Rightarrow> concat (map (\<lambda>(_, x). field_values x path) kvs)
            | _ \<Rightarrow> [])
      else (case value_get v p of Some x \<Rightarrow> field_values x path | None \<Rightarrow> []))"

text \<open>The inner and the outer loop of \<open>validate_secondary\<close>.\<close>

fun check_values ::
  "('r, 'p) host \<Rightarrow> 'r handle_state \<Rightarrow> string \<Rightarrow> handle_kind list \<Rightarrow> json list \<Rightarrow> 'r ctx \<Rightarrow> 'r ctx ops_result" where
  "check_values h reg path allowed [] ctx = Inr ctx"
| "check_values h reg path allowed (v # vs) ctx = (case resolve_secondary h reg ctx v allowed of
     Inl e \<Rightarrow> Inl e
   | Inr entry \<Rightarrow> check_values h reg path allowed vs (case entry of
       Abort signal \<Rightarrow> (if path = ''abort'' then ctx\<lparr>ctx_abort := Some signal\<rparr> else ctx)
     | _ \<Rightarrow> ctx))"

fun check_fields ::
  "('r, 'p) host \<Rightarrow> 'r handle_state \<Rightarrow> json \<Rightarrow> (string \<times> handle_kind list) list \<Rightarrow> 'r ctx \<Rightarrow> 'r ctx ops_result" where
  "check_fields h reg params [] ctx = Inr ctx"
| "check_fields h reg params ((path, allowed) # ps) ctx =
     (case check_values h reg path allowed (field_values params (split_at (CHR ''.'') path)) ctx of
        Inl e \<Rightarrow> Inl e
      | Inr ctx' \<Rightarrow> check_fields h reg params ps ctx')"

definition validate_secondary ::
  "('r, 'p) host \<Rightarrow> 'r handle_state \<Rightarrow> 'r ctx \<Rightarrow> op_descriptor \<Rightarrow> json \<Rightarrow> 'r ctx ops_result" where
  "validate_secondary h reg ctx d params = check_fields h reg params (runtime_handle_fields d) ctx"

section \<open>The dispatcher\<close>

type_synonym ('r, 'p) registrations = "(op_descriptor \<times> ('r, 'p) handler) list"

definition registration ::
  "('r, 'p) registrations \<Rightarrow> string \<Rightarrow> (op_descriptor \<times> ('r, 'p) handler) ops_result" where
  "registration regs name = (case find (\<lambda>(d, _). od_name d = name) regs of
     Some r \<Rightarrow> Inr r
   | None \<Rightarrow> Inl (invalid_op name))"

definition descriptor :: "('r, 'p) registrations \<Rightarrow> string \<Rightarrow> op_descriptor option" where
  "descriptor regs op = map_option fst (find (\<lambda>(d, _). od_name d = op) regs)"

text \<open>
  A dispatched call either returns at once or awaits the handler's future, with the abort signal the
  future races against.
\<close>

datatype ('r, 'p) dispatched = Returned "json ops_result" | Awaits "'r option" "('r, 'p) call_future"

definition drop_handle ::
  "('r, 'p) host \<Rightarrow> owner \<Rightarrow> u64 \<Rightarrow> ('r, 'p) service \<Rightarrow> ('r, 'p) service" where
  "drop_handle h own hid w = (case remove_handle own hid (handles w) of
     (Some (Operation r), reg) \<Rightarrow>
       w\<lparr>handles := reg, ops := (ops w)(r := (ops w r)\<lparr>st := consumer_close (error_value h) (st (ops w r))\<rparr>)\<rparr>
   | (_, reg) \<Rightarrow> w\<lparr>handles := reg\<rparr>)"

definition call_registered ::
  "('r, 'p) host \<Rightarrow> 'r ctx \<Rightarrow> u64 \<Rightarrow> op_descriptor \<Rightarrow> ('r, 'p) handler \<Rightarrow> json \<Rightarrow> ('r, 'p) service \<Rightarrow>
   ('r, 'p) dispatched \<times> ('r, 'p) service" where
  "call_registered h ctx hid d handler params w =
     (if mode d \<noteq> ModeCall \<and> mode d \<noteq> ModePoll then (Returned (Inl (invalid_op (od_name d))), w)
      else (case handler of HStream _ \<Rightarrow> (Returned (Inl (invalid_op (od_name d))), w) | HCall f \<Rightarrow>
        (case validate_object params of Inl e \<Rightarrow> (Returned (Inl e), w) | Inr _ \<Rightarrow>
          (if od_name d = HANDLE_DROP
           then (case decode (read_empty h) params of
                   Inl e \<Rightarrow> (Returned (Inl e), w)
                 | Inr _ \<Rightarrow> (Returned (Inr JNull), drop_handle h (ctx_owner ctx) hid w))
           else (case resolve_target (handles w) ctx hid d of Inl e \<Rightarrow> (Returned (Inl e), w) | Inr target \<Rightarrow>
             (case validate_secondary h (handles w) ctx d params of
                Inl e \<Rightarrow> (Returned (Inl e), w)
              | Inr ctx' \<Rightarrow>
                  (Awaits (if od_cancellation d = CancelAbort then ctx_abort ctx' else None)
                     (f ctx' target params), w)))))))"

definition dispatch_call ::
  "('r, 'p) host \<Rightarrow> ('r, 'p) registrations \<Rightarrow> 'r ctx \<Rightarrow> u64 \<Rightarrow> string \<Rightarrow> json \<Rightarrow> ('r, 'p) service \<Rightarrow>
   ('r, 'p) dispatched \<times> ('r, 'p) service" where
  "dispatch_call h regs ctx hid name params w = (case registration regs name of
     Inl e \<Rightarrow> (Returned (Inl e), w)
   | Inr (d, handler) \<Rightarrow> call_registered h ctx hid d handler params w)"

text \<open>
  Awaiting: before each poll others may change the service (\<open>envs\<close>); the abort signal is looked at
  first (\<open>biased\<close>). \<open>None\<close> is a call that is still pending.
\<close>

fun await_call ::
  "'r option \<Rightarrow> ('r, 'p) call_future \<Rightarrow> nat \<Rightarrow> (('r, 'p) service \<Rightarrow> ('r, 'p) service) list \<Rightarrow>
   ('r, 'p) service \<Rightarrow> json ops_result option \<times> ('r, 'p) service" where
  "await_call abort fut k [] w = (None, w)"
| "await_call abort fut k (env # envs) w =
     (if case abort of Some sig \<Rightarrow> signals (env w) sig | None \<Rightarrow> False
      then (Some (Inl aborted), env w)
      else (case fut k (env w) of
              (Some r, w') \<Rightarrow> (Some r, w')
            | (None, w') \<Rightarrow> await_call abort fut (Suc k) envs w'))"

text \<open>
  \<open>Dispatcher::stream\<close>: the accepted events, the frame stream over them and the abort signal it holds.
\<close>

definition dispatch_stream ::
  "('r, 'p) host \<Rightarrow> ('r, 'p) registrations \<Rightarrow> 'r ctx \<Rightarrow> u64 \<Rightarrow> string \<Rightarrow> json \<Rightarrow> ('r, 'p) service \<Rightarrow>
   (upstream list \<times> frame_stream \<times> 'r) ops_result \<times> ('r, 'p) service" where
  "dispatch_stream h regs ctx hid name params w = (case registration regs name of
     Inl e \<Rightarrow> (Inl e, w)
   | Inr (d, handler) \<Rightarrow>
       (if mode d \<noteq> ModeStream then (Inl (invalid_op name), w)
        else (case handler of HCall _ \<Rightarrow> (Inl (invalid_op name), w) | HStream f \<Rightarrow>
          (case validate_object params of Inl e \<Rightarrow> (Inl e, w) | Inr _ \<Rightarrow>
            (case resolve_target (handles w) ctx hid d of Inl e \<Rightarrow> (Inl e, w) | Inr target \<Rightarrow>
              (case validate_secondary h (handles w) ctx d params of Inl e \<Rightarrow> (Inl e, w) | Inr ctx' \<Rightarrow>
                (let sig = (case ctx_abort ctx' of Some sig \<Rightarrow> sig | None \<Rightarrow> fresh h w);
                     w1 = (case ctx_abort ctx' of Some _ \<Rightarrow> w | None \<Rightarrow> w\<lparr>signals := (signals w)(sig := False)\<rparr>)
                 in case f (ctx'\<lparr>ctx_abort := Some sig\<rparr>) target params w1 of
                      (Inl e, w2) \<Rightarrow> (Inl e, w2)
                    | (Inr events, w2) \<Rightarrow> (Inr (events, new_frame_stream (Some (signals w2 sig)), sig), w2))))))))"

section \<open>Direct operation calls\<close>

datatype op_poll = PollPart json | PollEnded | PollTimeout

definition set_op :: "'r \<Rightarrow> 'p op_sys \<Rightarrow> ('r, 'p) service \<Rightarrow> ('r, 'p) service" where
  "set_op r s w = w\<lparr>ops := (ops w)(r := s)\<rparr>"

text \<open>Operations started through the service have the default limits.\<close>

definition operation_push ::
  "owner \<Rightarrow> u64 \<Rightarrow> u8 list \<Rightarrow> ('r, 'p) service \<Rightarrow> unit ops_result \<times> ('r, 'p) service" where
  "operation_push own hid data w = (case get_handle own hid [KOperation] (handles w) of
     Inl e \<Rightarrow> (Inl e, w)
   | Inr (Operation r) \<Rightarrow>
       (case try_push default_limits data (st (ops w r)) of
          (res, q) \<Rightarrow> (res, set_op r ((ops w r)\<lparr>st := q\<rparr>) w))
   | Inr _ \<Rightarrow> (Inl (invalid_op ''operation.push''), w))"

text \<open>
  The k-th poll of \<open>Operation::next\<close>: the first one takes the reader lock; the deadline is looked at after
  the queue and the terminal slot.
\<close>

definition poll_operation :: "bool \<Rightarrow> nat \<Rightarrow> 'p op_sys \<Rightarrow> 'p next_result \<times> 'p op_sys" where
  "poll_operation passed k s =
     (if k = 0 \<and> reading s then (NextError (OpsProtocol ConcurrentConsumer), s)
      else (case next_attempt (st s) of
              (NextWaits, _) \<Rightarrow>
                (if passed then (Timeout, s\<lparr>reading := False\<rparr>) else (NextWaits, s\<lparr>reading := True\<rparr>))
            | (res, q) \<Rightarrow> (res, s\<lparr>st := q, reading := False\<rparr>)))"

definition next_operation ::
  "('r, 'p) host \<Rightarrow> 'r \<Rightarrow> u64 \<Rightarrow> nat \<Rightarrow> ('r, 'p) service \<Rightarrow> op_poll ops_result option \<times> ('r, 'p) service" where
  "next_operation h r timeout k w = (case poll_operation (elapsed h timeout k) k (ops w r) of
     (res, s) \<Rightarrow> (case res of
        NextWaits \<Rightarrow> None
      | NextError e \<Rightarrow> Some (Inl e)
      | Part p \<Rightarrow> Some (case part_value h p of Inl e \<Rightarrow> Inl (OpsBinding (result_serialization e)) | Inr v \<Rightarrow> Inr (PollPart v))
      | Ended \<Rightarrow> Some (Inr PollEnded)
      | Timeout \<Rightarrow> Some (Inr PollTimeout), set_op r s w))"

definition operation_next ::
  "('r, 'p) host \<Rightarrow> owner \<Rightarrow> u64 \<Rightarrow> u64 \<Rightarrow> ('r, 'p) service \<Rightarrow>
   ops_error + (nat \<Rightarrow> ('r, 'p) service \<Rightarrow> op_poll ops_result option \<times> ('r, 'p) service)" where
  "operation_next h own hid timeout w = (case get_handle own hid [KOperation] (handles w) of
     Inl e \<Rightarrow> Inl e
   | Inr (Operation r) \<Rightarrow> Inr (next_operation h r timeout)
   | Inr _ \<Rightarrow> Inl (invalid_op ''operation.next''))"

section \<open>The realtime operations\<close>

definition op_desc :: "string \<Rightarrow> op_mode \<Rightarrow> handle_kind list \<Rightarrow> cancellation \<Rightarrow> bool \<Rightarrow> op_descriptor" where
  "op_desc name m kinds c effects =
     \<lparr>od_name = name, since_ops_version = ''1.0'', mode = m, allowed_handle_kinds = kinds,
      od_scope = ScopeCurrent,
      runtime_handle_fields = (if c = CancelAbort then [(''abort'', [KAbort])] else []),
      required_capabilities = (if c = CancelAbort then [''doStream''] else []),
      od_cancellation = c, result_ownership = ''owned'',
      od_byte_policy = (if m = ModeBinaryPush then PolicyBinary else PolicyJson),
      side_effects = effects, retry_owner = ''none''\<rparr>"

definition OPERATION_OPS :: "op_descriptor list" where
  "OPERATION_OPS =
     [op_desc ''transcription.start'' ModeCall [KTranscription] CancelAbort True,
      op_desc ''operation.push'' ModeBinaryPush [KOperation] CancelOperation True,
      op_desc ''operation.inputDone'' ModeCall [KOperation] CancelOperation True,
      op_desc ''operation.next'' ModePoll [KOperation] CancelOperation True,
      op_desc ''operation.status'' ModeCall [KOperation] CancelNone False,
      op_desc ''operation.cancel'' ModeCall [KOperation] CancelOperation True]"

definition operation_of :: "'r target \<Rightarrow> 'r ops_result" where
  "operation_of target = (case target of
     Handle (Operation r) \<Rightarrow> Inr r
   | _ \<Rightarrow> Inl (invalid_state ''expected operation target''))"

text \<open>An object member with a key outside a list, as the two closed-object checks of \<open>start\<close> look for.\<close>

definition unknown_key :: "json \<Rightarrow> string \<Rightarrow> string list \<Rightarrow> bool" where
  "unknown_key params field known = (case value_get params field of
     Some (JObject kvs) \<Rightarrow> \<exists>(k, _) \<in> set kvs. k \<notin> set known
   | _ \<Rightarrow> False)"

definition ops_start :: "('r, 'p) host \<Rightarrow> 'r ctx \<Rightarrow> 'r target \<Rightarrow> json \<Rightarrow> ('r, 'p) call_future" where
  "ops_start h ctx target params = (\<lambda>k w.
     if unknown_key params ''inputAudioFormat'' [''formatType'', ''rate'']
     then (Some (Inl (OpsProtocol (InvalidParams ''unknown inputAudioFormat field'' None))), w)
     else if unknown_key params ''timeout'' [''totalMs'', ''stepMs'', ''firstChunkMs'', ''chunkMs'']
     then (Some (Inl (OpsProtocol (InvalidParams ''unknown timeout field'' None))), w)
     else (case decode (start_request h) params of Inl e \<Rightarrow> (Some (Inl e), w) | Inr _ \<Rightarrow>
       (case target of
          Handle (Transcription model) \<Rightarrow>
            (case model_info h model of (provider, model_id, streams) \<Rightarrow>
               (case start default_limits (has_runtime h) provider model_id streams of
                  Inl e \<Rightarrow> (Some (Inl e), w)
                | Inr s \<Rightarrow>
                    (let r = fresh h w; w1 = set_op r s w in
                     case insert_handle (ctx_owner ctx) (Operation r) (handles w1) of
                       (Inl e, reg) \<Rightarrow> (Some (Inl e), w1\<lparr>handles := reg\<rparr>)
                     | (Inr hid, reg) \<Rightarrow> (Some (Inr (JString (handle_to_string hid))), w1\<lparr>handles := reg\<rparr>))))
        | _ \<Rightarrow> (Some (Inl (invalid_state ''expected transcription target'')), w))))"

definition binary_only :: "'r ctx \<Rightarrow> 'r target \<Rightarrow> json \<Rightarrow> ('r, 'p) call_future" where
  "binary_only ctx target params = (\<lambda>k w.
     (Some (Inl (OpsProtocol (InvalidOp ''operation.push requires binary dispatch''))), w))"

definition ops_input_done :: "('r, 'p) host \<Rightarrow> 'r ctx \<Rightarrow> 'r target \<Rightarrow> json \<Rightarrow> ('r, 'p) call_future" where
  "ops_input_done h ctx target params = (\<lambda>k w.
     (case decode (read_empty h) params of Inl e \<Rightarrow> (Some (Inl e), w) | Inr _ \<Rightarrow>
       (case operation_of target of Inl e \<Rightarrow> (Some (Inl e), w) | Inr r \<Rightarrow>
         (Some (Inr JNull), set_op r ((ops w r)\<lparr>st := input_done (st (ops w r))\<rparr>) w))))"

fun poll_json :: "op_poll \<Rightarrow> json" where
  "poll_json (PollPart v) = JObject [(''type'', JString ''part''), (''part'', v)]"
| "poll_json PollEnded = JObject [(''type'', JString ''ended'')]"
| "poll_json PollTimeout = JObject [(''type'', JString ''timeout'')]"

definition ops_next :: "('r, 'p) host \<Rightarrow> 'r ctx \<Rightarrow> 'r target \<Rightarrow> json \<Rightarrow> ('r, 'p) call_future" where
  "ops_next h ctx target params = (\<lambda>k w.
     (case decode (read_next h) params of Inl e \<Rightarrow> (Some (Inl e), w) | Inr timeout_ms \<Rightarrow>
       (case operation_of target of Inl e \<Rightarrow> (Some (Inl e), w) | Inr r \<Rightarrow>
         (case next_operation h r timeout_ms k w of
            (res, w') \<Rightarrow> (map_option (map_sum (\<lambda>e. e) poll_json) res, w')))))"

definition ops_status :: "('r, 'p) host \<Rightarrow> 'r ctx \<Rightarrow> 'r target \<Rightarrow> json \<Rightarrow> ('r, 'p) call_future" where
  "ops_status h ctx target params = (\<lambda>k w.
     (case decode (read_empty h) params of Inl e \<Rightarrow> (Some (Inl e), w) | Inr _ \<Rightarrow>
       (case operation_of target of Inl e \<Rightarrow> (Some (Inl e), w) | Inr r \<Rightarrow>
         (Some (case status_value h (op_status (st (ops w r))) of
            Inl e \<Rightarrow> Inl (OpsBinding (result_serialization e)) | Inr v \<Rightarrow> Inr v), w))))"

fun cancel_json :: "cancel_result \<Rightarrow> json" where
  "cancel_json First = JString ''first''"
| "cancel_json AlreadyRequested = JString ''alreadyRequested''"
| "cancel_json AlreadyTerminal = JString ''alreadyTerminal''"

definition ops_cancel :: "('r, 'p) host \<Rightarrow> 'r ctx \<Rightarrow> 'r target \<Rightarrow> json \<Rightarrow> ('r, 'p) call_future" where
  "ops_cancel h ctx target params = (\<lambda>k w.
     (case decode (read_empty h) params of Inl e \<Rightarrow> (Some (Inl e), w) | Inr _ \<Rightarrow>
       (case operation_of target of Inl e \<Rightarrow> (Some (Inl e), w) | Inr r \<Rightarrow>
         (case op_cancel (error_value h) (st (ops w r)) of
            (c, q) \<Rightarrow> (Some (Inr (cancel_json c)), set_op r ((ops w r)\<lparr>st := q\<rparr>) w)))))"

definition operation_register :: "('r, 'p) host \<Rightarrow> ('r, 'p) registrations" where
  "operation_register h = zip OPERATION_OPS (map HCall
     [ops_start h, binary_only, ops_input_done h, ops_next h, ops_status h, ops_cancel h])"

section \<open>Runtime handles\<close>

definition read_params :: "(json \<Rightarrow> source_error + 'a) \<Rightarrow> json \<Rightarrow> 'a ops_result" where
  "read_params from_value v = (case from_value v of
     Inr x \<Rightarrow> Inr x
   | Inl _ \<Rightarrow> Inl (OpsProtocol (InvalidParams ''invalid parameters'' None)))"

definition insert_entry ::
  "'r ctx \<Rightarrow> 'r entry \<Rightarrow> ('r, 'p) service \<Rightarrow> json ops_result option \<times> ('r, 'p) service" where
  "insert_entry ctx e w = (case insert_handle (ctx_owner ctx) e (handles w) of
     (Inl err, reg) \<Rightarrow> (Some (Inl err), w\<lparr>handles := reg\<rparr>)
   | (Inr hid, reg) \<Rightarrow>
       (Some (Inr (JObject [(''handle'', JString (handle_to_string hid)), (''kind'', JString (kind_name (kind e)))])),
        w\<lparr>handles := reg\<rparr>))"

definition abort_create :: "('r, 'p) host \<Rightarrow> 'r ctx \<Rightarrow> 'r target \<Rightarrow> json \<Rightarrow> ('r, 'p) call_future" where
  "abort_create h ctx target v = (\<lambda>k w.
     (case read_params (read_empty h) v of Inl e \<Rightarrow> (Some (Inl e), w) | Inr _ \<Rightarrow>
       (let r = fresh h w in insert_entry ctx (Abort r) (w\<lparr>signals := (signals w)(r := False)\<rparr>))))"

definition signal_abort :: "('r, 'p) host \<Rightarrow> 'r ctx \<Rightarrow> 'r target \<Rightarrow> json \<Rightarrow> ('r, 'p) call_future" where
  "signal_abort h ctx target v = (\<lambda>k w.
     (case read_params (read_empty h) v of Inl e \<Rightarrow> (Some (Inl e), w) | Inr _ \<Rightarrow>
       (case target of
          Handle (Abort sig) \<Rightarrow> (Some (Inr JNull), w\<lparr>signals := (signals w)(sig := True)\<rparr>)
        | _ \<Rightarrow> (Some (Inl (invalid_state ''abort.signal requires an Abort target'')), w))))"

definition transport_create :: "('r, 'p) host \<Rightarrow> 'r ctx \<Rightarrow> 'r target \<Rightarrow> json \<Rightarrow> ('r, 'p) call_future" where
  "transport_create h ctx target v = (\<lambda>k w.
     (case read_params (transport_request h) v of Inl e \<Rightarrow> (Some (Inl e), w) | Inr t \<Rightarrow>
       insert_entry ctx ((case t of TransportFetch \<Rightarrow> Fetch | TransportWebSocket \<Rightarrow> WebSocket
         | TransportDownload _ \<Rightarrow> Download) (fresh h w)) w))"

definition credential_create :: "('r, 'p) host \<Rightarrow> 'r ctx \<Rightarrow> 'r target \<Rightarrow> json \<Rightarrow> ('r, 'p) call_future" where
  "credential_create h ctx target v = (\<lambda>k w.
     (case read_params (credential_request h) v of Inl e \<Rightarrow> (Some (Inl e), w) | Inr _ \<Rightarrow>
       (Some (Inl (OpsAiMux (UnsupportedFunctionality ''built-in credential resolvers are unavailable''))), w)))"

text \<open>The trace store a middleware is made over is resolved again when the handler runs.\<close>

definition middleware_create :: "('r, 'p) host \<Rightarrow> 'r ctx \<Rightarrow> 'r target \<Rightarrow> json \<Rightarrow> ('r, 'p) call_future" where
  "middleware_create h ctx target v = (\<lambda>k w.
     (case read_params (middleware_request h) v of Inl e \<Rightarrow> (Some (Inl e), w) | Inr req \<Rightarrow>
       (if mp_kind req \<noteq> ''trace''
        then (Some (Inl (OpsAiMux (UnsupportedFunctionality ''requested built-in middleware is unavailable''))), w)
        else (case mp_trace_store req of
                None \<Rightarrow> (Some (Inl (OpsProtocol (InvalidParams ''traceStore must be a decimal handle string'' None))), w)
              | Some hid \<Rightarrow>
                  (case resolve_secondary h (handles w) ctx (JString (handle_to_string hid)) [KTraceStore] of
                     Inl e \<Rightarrow> (Some (Inl e), w)
                   | Inr _ \<Rightarrow> insert_entry ctx (Middleware (fresh h w)) w)))))"

definition drop_requires_id :: "'r ctx \<Rightarrow> 'r target \<Rightarrow> json \<Rightarrow> ('r, 'p) call_future" where
  "drop_requires_id ctx target v = (\<lambda>k w.
     (Some (Inl (invalid_state ''dispatch must route handle.drop before handle lookup'')), w))"

definition HANDLE_OPS :: "op_descriptor list" where
  "HANDLE_OPS =
     [op_desc ''abort.create'' ModeCall [] CancelNone True,
      op_desc ''abort.signal'' ModeCall [KAbort] CancelNone True,
      op_desc ''transport.create'' ModeCall [] CancelNone True,
      (op_desc ''credential.create'' ModeCall [] CancelNone True)\<lparr>od_scope := ScopeFuture\<rparr>,
      (op_desc ''middleware.create'' ModeCall [] CancelNone True)
        \<lparr>runtime_handle_fields := [(''traceStore'', [KTraceStore])]\<rparr>,
      op_desc HANDLE_DROP ModeCall
        [KProvider, KRegistry, KLanguage, KEmbedding, KImage, KSpeech, KTranscription, KReranking, KVideo,
         KSearch, KFiles, KOperation, KAbort, KFetch, KWebSocket, KDownload, KCredentialResolver,
         KMiddleware, KTraceStore, KRecorder, KSessionStore, KReplaySession, KDecision] CancelNone True]"

definition handles_register :: "('r, 'p) host \<Rightarrow> ('r, 'p) registrations" where
  "handles_register h = zip HANDLE_OPS (map HCall
     [abort_create h, signal_abort h, transport_create h, credential_create h, middleware_create h,
      drop_requires_id])"


section \<open>Admission of a call\<close>

definition owns :: "'r handle_state \<Rightarrow> owner \<Rightarrow> handle_kind list \<Rightarrow> u64 \<Rightarrow> 'r entry \<Rightarrow> bool" where
  "owns reg own kinds hid e \<longleftrightarrow> handle_view reg hid = Some (own, e) \<and> kind e \<in> set kinds"

lemma get_handle_owns: "get_handle own hid kinds reg = Inr e \<longleftrightarrow> owns reg own kinds hid e"
  by (auto simp: get_handle_view owns_def split: option.splits)

text \<open>The abort signal of a context after the parameters were checked: the caller's, or one the owner holds.\<close>

definition abort_from :: "'r handle_state \<Rightarrow> 'r ctx \<Rightarrow> 'r ctx \<Rightarrow> bool" where
  "abort_from reg ctx ctx' \<longleftrightarrow> ctx_owner ctx' = ctx_owner ctx \<and>
     (ctx' = ctx \<or> (\<exists>hid sig. owns reg (ctx_owner ctx) [KAbort] hid (Abort sig) \<and> ctx_abort ctx' = Some sig))"

definition owned_reference :: "'r handle_state \<Rightarrow> owner \<Rightarrow> handle_kind list \<Rightarrow> json \<Rightarrow> bool" where
  "owned_reference reg own kinds v \<longleftrightarrow>
     (\<exists>s hid e. v = JString s \<and> handle_from_str s = Inr hid \<and> owns reg own kinds hid e)"

lemma resolve_secondary_owned:
  assumes "resolve_secondary h reg ctx v kinds = Inr e"
  shows "owned_reference reg (ctx_owner ctx) kinds v" "\<exists>hid. owns reg (ctx_owner ctx) kinds hid e"
  using assms by (auto simp: resolve_secondary_def decode_def read_handle_def owned_reference_def
      get_handle_owns split: sum.splits json.splits)

lemma abort_from_trans:
  "abort_from reg ctx ctx1 \<Longrightarrow> abort_from reg ctx1 ctx2 \<Longrightarrow> abort_from reg ctx ctx2"
  by (auto simp: abort_from_def)

lemma check_values_owned:
  "check_values h reg path kinds vs ctx = Inr ctx' \<Longrightarrow>
     abort_from reg ctx ctx' \<and> list_all (owned_reference reg (ctx_owner ctx) kinds) vs"
proof (induction vs arbitrary: ctx)
  case Nil
  then show ?case by (simp add: abort_from_def)
next
  case (Cons v vs)
  then obtain e where e: "resolve_secondary h reg ctx v kinds = Inr e" by (auto split: sum.splits)
  define ctx1 where "ctx1 = (case e of Abort signal \<Rightarrow>
    (if path = ''abort'' then ctx\<lparr>ctx_abort := Some signal\<rparr> else ctx) | _ \<Rightarrow> ctx)"
  obtain hid where hid: "owns reg (ctx_owner ctx) kinds hid e" using resolve_secondary_owned(2) [OF e] by blast
  have "abort_from reg ctx ctx1"
    using hid by (cases e) (auto simp: ctx1_def abort_from_def owns_def)
  moreover have "check_values h reg path kinds vs ctx1 = Inr ctx'" using Cons.prems e by (simp add: ctx1_def)
  note Cons.IH [OF this]
  moreover have "ctx_owner ctx1 = ctx_owner ctx" by (simp add: ctx1_def split: entry.splits)
  ultimately show ?case using resolve_secondary_owned(1) [OF e] by (auto intro: abort_from_trans)
qed

definition references :: "json \<Rightarrow> string \<Rightarrow> json list" where
  "references params path = field_values params (split_at (CHR ''.'') path)"

lemma check_fields_owned:
  "check_fields h reg params ps ctx = Inr ctx' \<Longrightarrow>
     abort_from reg ctx ctx' \<and>
     list_all (\<lambda>(path, kinds). list_all (owned_reference reg (ctx_owner ctx) kinds) (references params path)) ps"
proof (induction ps arbitrary: ctx)
  case Nil
  then show ?case by (simp add: abort_from_def)
next
  case (Cons p ps)
  obtain path kinds where p: "p = (path, kinds)" by force
  obtain ctx1 where c: "check_values h reg path kinds (references params path) ctx = Inr ctx1"
      "check_fields h reg params ps ctx1 = Inr ctx'"
    using Cons.prems by (auto simp: p references_def split: sum.splits)
  note c1 = check_values_owned [OF c(1)]
  then have "ctx_owner ctx1 = ctx_owner ctx" by (simp add: abort_from_def)
  with c1 Cons.IH [OF c(2)] show ?case by (auto simp: p intro: abort_from_trans)
qed

definition target_of :: "'r handle_state \<Rightarrow> owner \<Rightarrow> u64 \<Rightarrow> op_descriptor \<Rightarrow> 'r target \<Rightarrow> bool" where
  "target_of reg own hid d t \<longleftrightarrow>
     (t = Global \<and> hid = 0 \<and> allowed_handle_kinds d = []) \<or>
     (\<exists>e. t = Handle e \<and> owns reg own (allowed_handle_kinds d) hid e)"

lemma resolve_target_owned: "resolve_target reg ctx hid d = Inr t \<Longrightarrow> target_of reg (ctx_owner ctx) hid d t"
  using get_handle_owns [of "ctx_owner ctx" hid "allowed_handle_kinds d" reg]
  by (cases "get_handle (ctx_owner ctx) hid (allowed_handle_kinds d) reg")
    (auto simp: resolve_target_def target_of_def split: if_splits)

text \<open>What a handler may be given: the caller's own target and only references the caller owns.\<close>

definition admitted_call ::
  "'r handle_state \<Rightarrow> 'r ctx \<Rightarrow> u64 \<Rightarrow> op_descriptor \<Rightarrow> json \<Rightarrow> 'r ctx \<Rightarrow> 'r target \<Rightarrow> bool" where
  "admitted_call reg ctx hid d params ctx' t \<longleftrightarrow>
     target_of reg (ctx_owner ctx) hid d t \<and> abort_from reg ctx ctx' \<and>
     list_all (\<lambda>(path, kinds). list_all (owned_reference reg (ctx_owner ctx) kinds) (references params path))
       (runtime_handle_fields d)"

lemma admitted_callI:
  "resolve_target reg ctx hid d = Inr t \<Longrightarrow> validate_secondary h reg ctx d params = Inr ctx' \<Longrightarrow>
     admitted_call reg ctx hid d params ctx' t"
  by (simp add: admitted_call_def resolve_target_owned validate_secondary_def check_fields_owned)

lemma call_registered_cases:
  assumes "call_registered h ctx hid d handler params w = (r, w')"
  obtains (refused) e where "r = Returned (Inl e)" "w' = w"
  | (dropped) "r = Returned (Inr JNull)" "od_name d = HANDLE_DROP" "w' = drop_handle h (ctx_owner ctx) hid w"
  | (awaits) f ctx' t where "handler = HCall f" "od_name d \<noteq> HANDLE_DROP" "w' = w"
      "r = Awaits (if od_cancellation d = CancelAbort then ctx_abort ctx' else None) (f ctx' t params)"
      "admitted_call (handles w) ctx hid d params ctx' t"
  using assms unfolding call_registered_def
  by (auto split: if_splits handler.splits sum.splits intro: admitted_callI)

lemma registration_Inr: "registration regs name = Inr (d, f) \<Longrightarrow> (d, f) \<in> set regs \<and> od_name d = name"
  by (auto simp: registration_def find_Some_iff split: option.splits dest: nth_mem)

text \<open>
  C12. Dispatch admits a call only with what its caller owns. A call that is refused leaves the service as
  it was; a call returns a value at once only for \<open>handle.drop\<close>; and a handler is started only on a target
  the caller owns and the operation allows (or the global target), with an abort signal the caller
  brought or owns, after every handle the parameters name in a declared field was resolved for that
  caller and kind.
\<close>

theorem dispatch_admits_owned_only:
  "case dispatch_call h regs ctx hid name params w of
     (Returned (Inl e), w') \<Rightarrow> w' = w
   | (Returned (Inr v), w') \<Rightarrow> v = JNull \<and> name = HANDLE_DROP \<and> w' = drop_handle h (ctx_owner ctx) hid w
   | (Awaits ab fut, w') \<Rightarrow> w' = w \<and> name \<noteq> HANDLE_DROP \<and>
       (\<exists>d f ctx' t. (d, HCall f) \<in> set regs \<and> od_name d = name \<and> fut = f ctx' t params \<and>
          ab = (if od_cancellation d = CancelAbort then ctx_abort ctx' else None) \<and>
          admitted_call (handles w) ctx hid d params ctx' t)"
proof (cases "registration regs name")
  case (Inl e)
  then show ?thesis by (simp add: dispatch_call_def)
next
  case (Inr r)
  obtain d f where r: "r = (d, f)" by force
  obtain x w' where x: "call_registered h ctx hid d f params w = (x, w')" by force
  note reg = registration_Inr [OF Inr [unfolded r]]
  show ?thesis using x by (cases rule: call_registered_cases) (use Inr r x reg in \<open>auto simp: dispatch_call_def\<close>)
qed


section \<open>Dropping a handle\<close>

lemma drop_handle_handles: "handles (drop_handle h own hid w) = snd (remove_handle own hid (handles w))"
  by (auto simp: drop_handle_def split: prod.splits option.splits entry.splits)

lemma drop_handle_foreign:
  "\<nexists>e. handle_view (handles w) hid = Some (own, e) \<Longrightarrow> drop_handle h own hid w = w"
  by (auto simp: drop_handle_def remove_handle_def handle_view_def split: option.splits)

lemma drop_handle_operation:
  assumes "handle_view (handles w) hid = Some (own, Operation r)"
  shows "ops (drop_handle h own hid w) r = (ops w r)\<lparr>st := consumer_close (error_value h) (st (ops w r))\<rparr>"
  using assms by (simp add: drop_handle_def remove_handle_def handle_view_def)

lemma drop_handle_ops:
  assumes "handle_view (handles w) hid \<noteq> Some (own, Operation r)"
  shows "ops (drop_handle h own hid w) r = ops w r"
  using assms by (auto simp: drop_handle_def remove_handle_def handle_view_def split: option.splits entry.splits)

lemma remove_handle_view: "handle_view (snd (remove_handle own hid reg)) hid \<noteq> Some (own, e)"
  by (auto simp: view_remove split: option.splits)

lemma remove_handle_keeps: "hid' \<noteq> hid \<Longrightarrow>
    handle_view (snd (remove_handle own hid reg)) hid' = handle_view reg hid'"
  by (auto simp: view_remove split: option.splits)

lemma closed_by_drop: "op_consumer (consumer_close tv s) = ConsClosed" "output_queue (consumer_close tv s) = []"
    "op_term (consumer_close tv s) \<noteq> None"
  by (simp_all add: consumer_close_def op_cancel_def set_terminal_def split: option.splits)

lemma registered_handle_below: "registry_ok reg \<Longrightarrow> handle_view reg hid = Some x \<Longrightarrow> unat hid < counter_pos (next_id reg)"
  by (auto simp: registry_ok_def handle_view_def dest!: map_of_SomeD intro: rev_image_eqI)


text \<open>
  Dropping a handle is final and owner-checked. \<open>handle.drop\<close> always answers null. By the handle's
  owner it closes the consumer of an operation behind it (no queued output, a terminal result) and from
  then on no owner can resolve the handle, whatever calls follow; every other handle and operation is
  left alone. By anybody else it changes nothing.
\<close>

lemma handle_drop_final:
  assumes "registry_ok (handles w)" and "handle_view (handles w) hid = Some (own, e)"
    and "registration regs HANDLE_DROP = Inr (d, HCall f)" and "mode d = ModeCall"
    and "dispatch_call h regs ctx hid HANDLE_DROP (JObject []) w = (r, w')"
  shows "r = Returned (Inr JNull) \<and>
    (if own = ctx_owner ctx
     then (\<forall>calls reg own' kinds. run handle_step (handles w') calls reg \<longrightarrow>
             get_handle own' hid kinds reg = Inl (OpsBinding (InvalidHandle kinds None))) \<and>
          (\<forall>x. e = Operation x \<longrightarrow> op_consumer (st (ops w' x)) = ConsClosed \<and>
             output_queue (st (ops w' x)) = [] \<and> op_term (st (ops w' x)) \<noteq> None) \<and>
          (\<forall>x. e \<noteq> Operation x \<longrightarrow> ops w' x = ops w x) \<and>
          (\<forall>hid'. hid' \<noteq> hid \<longrightarrow> handle_view (handles w') hid' = handle_view (handles w) hid')
     else w' = w)"
proof -
  have name: "od_name d = HANDLE_DROP" using registration_Inr [OF assms(3)] by simp
  have r: "r = Returned (Inr JNull)" and w': "w' = drop_handle h (ctx_owner ctx) hid w"
    using assms(3-5) name
    by (simp_all add: dispatch_call_def call_registered_def validate_object_def decode_def read_empty_def)
  show ?thesis
  proof (cases "own = ctx_owner ctx")
    case True
    let ?reg = "snd (remove_handle own hid (handles w))"
    have reg: "handles w' = ?reg" using w' True by (simp add: drop_handle_handles)
    have "registry_ok ?reg" by (rule registry_ok_remove [OF assms(1)])
    moreover have "next_id ?reg = next_id (handles w)"
      by (simp add: remove_handle_def split: option.splits prod.splits)
    with registered_handle_below [OF assms(1,2)] have "unat hid < counter_pos (next_id ?reg)" by simp
    moreover have "handle_view ?reg hid = None" using assms(2) by (simp add: view_remove)
    ultimately have "handle_view reg' hid = None" if "run handle_step ?reg calls reg'" for calls reg'
      using that stale_view by blast
    then have stale: "\<forall>calls reg own' kinds. run handle_step (handles w') calls reg \<longrightarrow>
             get_handle own' hid kinds reg = Inl (OpsBinding (InvalidHandle kinds None))"
      by (simp add: reg get_handle_view)
    have "ops w' x = (ops w x)\<lparr>st := consumer_close (error_value h) (st (ops w x))\<rparr>" if "e = Operation x" for x
      using assms(2) that True by (simp add: w' drop_handle_operation)
    then have "\<forall>x. e = Operation x \<longrightarrow> op_consumer (st (ops w' x)) = ConsClosed \<and>
             output_queue (st (ops w' x)) = [] \<and> op_term (st (ops w' x)) \<noteq> None"
      by (auto simp: closed_by_drop)
    moreover have "\<forall>x. e \<noteq> Operation x \<longrightarrow> ops w' x = ops w x"
      using assms(2) by (auto simp: w' drop_handle_ops)
    ultimately show ?thesis using r True stale remove_handle_keeps reg by auto
  next
    case False
    then have "w' = w" unfolding w' using assms(2) by (intro drop_handle_foreign) auto
    then show ?thesis using r False by simp
  qed
qed


definition demo_host :: "(nat, nat) host" where
  "demo_host = \<lparr>refusal = (\<lambda>_. SourceError ''refused'' None), start_request = (\<lambda>_. Inr ()),
     transport_request = (\<lambda>_. Inr TransportFetch), credential_request = (\<lambda>_. Inr ''k''),
     middleware_request = (\<lambda>_. Inr \<lparr>mp_kind = ''trace'', mp_trace_store = None\<rparr>),
     part_value = (\<lambda>_. Inr JNull), status_value = (\<lambda>_. Inr JNull), error_value = (\<lambda>_. Inr JNull),
     elapsed = (\<lambda>_ _. True), has_runtime = True, model_info = (\<lambda>_. (''p'', ''m'', True)), fresh = (\<lambda>_. 20)\<rparr>"

definition demo_service :: "(nat, nat) service" where
  "demo_service = \<lparr>handles = \<lparr>next_id = 3, next_owner = 2,
       entries = [(1, Node 1, Operation 10), (2, Node 1, Transcription 11)]\<rparr>,
     ops = (\<lambda>_. init_operation), signals = (\<lambda>_. False)\<rparr>"

definition demo_ctx :: "nat ctx" where "demo_ctx = \<lparr>ctx_owner = Node 1, ctx_abort = None\<rparr>"

lemma demo_service_ok: "registry_ok (handles demo_service)"
  by (simp add: demo_service_def registry_ok_def counter_pos_def)

lemma handle_drop_final_witness:
  "\<exists>w'. dispatch_call demo_host (handles_register demo_host) demo_ctx 1 HANDLE_DROP (JObject []) demo_service
       = (Returned (Inr JNull), w') \<and>
     op_consumer (st (ops w' 10)) = ConsClosed \<and>
     get_handle (Node 1) 1 [KOperation] (handles w') = Inl (OpsBinding (InvalidHandle [KOperation] None))"
proof -
  obtain r w' where c: "dispatch_call demo_host (handles_register demo_host) demo_ctx 1 HANDLE_DROP (JObject []) demo_service
      = (r, w')" by force
  have view: "handle_view (handles demo_service) 1 = Some (ctx_owner demo_ctx, Operation 10)"
    by (simp add: handle_view_def demo_service_def demo_ctx_def)
  have reg: "registration (handles_register demo_host) HANDLE_DROP
      = Inr (HANDLE_OPS ! 5, HCall drop_requires_id)" and m: "mode (HANDLE_OPS ! 5) = ModeCall"
    by (simp_all add: registration_def handles_register_def HANDLE_OPS_def op_desc_def HANDLE_DROP_def)
  note handle_drop_final [OF demo_service_ok view reg m c]
  moreover have "run handle_step (handles w') [] (handles w')" by simp
  ultimately show ?thesis using c by auto
qed

section \<open>Dispatched operations\<close>

text \<open>
  One poll moves one operation: the handle table, the signals and every other operation keep their
  state, and the operation makes steps of its own transition system.
\<close>

definition moves_operation ::
  "(aimux_error \<Rightarrow> source_error + json) \<Rightarrow> 'r \<Rightarrow> ('r, 'p) service \<Rightarrow> ('r, 'p) service \<Rightarrow> bool" where
  "moves_operation to_value r w w' \<longleftrightarrow> handles w' = handles w \<and> signals w' = signals w \<and>
     (\<forall>r'. r' \<noteq> r \<longrightarrow> ops w' r' = ops w r') \<and>
     (\<forall>wire. \<exists>ls. run (op_step default_limits to_value wire) (ops w r) ls (ops w' r))"

lemma moves_refl [simp]: "moves_operation to_value r w w"
  by (auto simp: moves_operation_def intro: run.run_Nil)

lemma moves_step:
  "(\<And>wire. \<exists>lab. op_step default_limits to_value wire (ops w r) lab s) \<Longrightarrow>
     moves_operation to_value r w (set_op r s w)"
  unfolding moves_operation_def set_op_def by (auto intro: run.run_Cons run.run_Nil)

lemma input_done_moves: "moves_operation to_value r w (set_op r ((ops w r)\<lparr>st := input_done (st (ops w r))\<rparr>) w)"
  by (rule moves_step) (blast intro: closed_input)

lemma cancel_moves: "op_cancel to_value (st (ops w r)) = (c, q) \<Longrightarrow>
    moves_operation to_value r w (set_op r ((ops w r)\<lparr>st := q\<rparr>) w)"
  by (rule moves_step) (blast intro: op_step.cancelled)

lemma try_push_moves: "is_slice data \<Longrightarrow> try_push default_limits data (st (ops w r)) = (res, q) \<Longrightarrow>
    moves_operation to_value r w (set_op r ((ops w r)\<lparr>st := q\<rparr>) w)"
  by (rule moves_step, cases res) (blast intro: try_pushed try_refused)+

lemma poll_operation_run:
  assumes "poll_operation passed k s = (res, s')" and "0 < k \<Longrightarrow> reading s"
  shows "\<exists>ls. run (op_step l to_value wire) s ls s'"
proof (cases "k = 0 \<and> reading s")
  case True
  then have "s' = s" using assms by (simp add: poll_operation_def)
  then show ?thesis by (auto intro: run.run_Nil)
next
  case False
  let ?s = "s\<lparr>reading := True\<rparr>"
  have "\<exists>ls. run (op_step l to_value wire) s ls ?s"
  proof (cases "reading s")
    case True
    then have "?s = s" by simp
    then show ?thesis by (metis run.run_Nil)
  next
    case False
    then have "op_step l to_value wire s ONextStart ?s" by (rule next_started)
    then show ?thesis by (blast intro: run.run_Cons run.run_Nil)
  qed
  moreover have "\<exists>ls. run (op_step l to_value wire) ?s ls s'"
  proof (cases "next_attempt (st s)")
    case (Pair x q)
    show ?thesis
    proof (cases "x = NextWaits")
      case True
      then have "s' = ?s \<or> op_step l to_value wire ?s (ONext Timeout) s'"
        using assms(1) False Pair next_timed_out [of ?s] by (auto simp: poll_operation_def split: if_splits)
      then show ?thesis by (blast intro: run.run_Cons run.run_Nil)
    next
      case not_waits: False
      then have "s' = ?s\<lparr>st := q, reading := False\<rparr>"
        using assms(1) False Pair by (auto simp: poll_operation_def split: next_result.splits if_splits)
      then have "op_step l to_value wire ?s (ONext x) s'"
        using next_returned [of ?s x q] Pair not_waits by simp
      then show ?thesis by (blast intro: run.run_Cons run.run_Nil)
    qed
  qed
  ultimately show ?thesis by (metis run_append)
qed

lemma next_operation_moves:
  assumes "next_operation h r timeout k w = (res, w')" and "0 < k \<Longrightarrow> reading (ops w r)"
  shows "moves_operation to_value r w w'"
proof -
  obtain x s where x: "poll_operation (elapsed h timeout k) k (ops w r) = (x, s)" by force
  then have "w' = set_op r s w" using assms(1) by (simp add: next_operation_def)
  moreover have "\<exists>ls. run (op_step default_limits to_value wire) (ops w r) ls s" for wire
    using poll_operation_run [OF x] assms(2) by simp
  ultimately show ?thesis by (auto simp: moves_operation_def set_op_def)
qed

text \<open>A future that only ever moves operation \<open>r\<close>, as long as it alone reads from it.\<close>

definition operates_on ::
  "(aimux_error \<Rightarrow> source_error + json) \<Rightarrow> 'r \<Rightarrow> ('r, 'p) call_future \<Rightarrow> bool" where
  "operates_on to_value r fut \<longleftrightarrow>
     (\<forall>k w res w'. fut k w = (res, w') \<and> (0 < k \<longrightarrow> reading (ops w r)) \<longrightarrow> moves_operation to_value r w w')"

lemma handlers_operate:
  assumes "t = Handle (Operation r)"
  shows "operates_on (error_value h) r (binary_only ctx t params)"
    and "operates_on (error_value h) r (ops_input_done h ctx t params)"
    and "operates_on (error_value h) r (ops_next h ctx t params)"
    and "operates_on (error_value h) r (ops_status h ctx t params)"
    and "operates_on (error_value h) r (ops_cancel h ctx t params)"
  by (auto simp: operates_on_def binary_only_def ops_input_done_def ops_next_def ops_status_def ops_cancel_def
      operation_of_def assms input_done_moves cancel_moves split: sum.splits prod.splits
      intro: next_operation_moves)

lemma operation_register_cases:
  assumes "(d, f) \<in> set (operation_register h)" and "allowed_handle_kinds d = [KOperation]"
  shows "od_cancellation d \<noteq> CancelAbort \<and>
     (\<forall>g ctx r params. f = HCall g \<longrightarrow> operates_on (error_value h) r (g ctx (Handle (Operation r)) params))"
  using assms by (auto simp: operation_register_def OPERATION_OPS_def op_desc_def handlers_operate)

lemma owns_operation: "owns reg own [KOperation] hid e \<Longrightarrow> \<exists>r. e = Operation r"
  by (cases e) (auto simp: owns_def)

text \<open>
  C13. Calls on operations refine the operation. Whenever \<open>operation.inputDone\<close>, \<open>operation.next\<close>,
  \<open>operation.status\<close> or \<open>operation.cancel\<close> is dispatched to its handler, the handle resolves to an operation
  of the caller, the call does not race against an abort signal, and every poll of the handler makes
  only steps of that operation's transition system: no other operation, signal or handle changes. So
  every invariant of the operation holds under any interleaving of dispatched calls.
\<close>

theorem dispatched_calls_refine_operation:
  assumes "(d, f) \<in> set (operation_register h)" and "allowed_handle_kinds d = [KOperation]"
    and "call_registered h ctx hid d f params w = (Awaits ab fut, w')"
  shows "w' = w \<and> ab = None \<and>
    (\<exists>r. handle_view (handles w) hid = Some (ctx_owner ctx, Operation r) \<and> operates_on (error_value h) r fut \<and>
       (\<forall>k v res v'. fut k v = (res, v') \<and> (0 < k \<longrightarrow> reading (ops v r)) \<and> op_ok default_limits (ops v r) \<longrightarrow>
          op_ok default_limits (ops v' r)))"
  using assms(3)
proof (cases rule: call_registered_cases)
  case (awaits g ctx' t)
  have "\<exists>e. t = Handle e \<and> owns (handles w) (ctx_owner ctx) [KOperation] hid e"
    using awaits(5) assms(2) by (simp add: admitted_call_def target_of_def)
  then obtain r where t: "t = Handle (Operation r)" and r: "owns (handles w) (ctx_owner ctx) [KOperation] hid (Operation r)"
    using owns_operation by blast
  note reg = operation_register_cases [OF assms(1,2)]
  have fut: "operates_on (error_value h) r fut" and ab: "ab = None"
    using awaits(1,4) reg t by auto
  have "op_ok default_limits (ops v' r)"
    if "fut k v = (res, v')" "0 < k \<longrightarrow> reading (ops v r)" "op_ok default_limits (ops v r)" for k v res v'
  proof -
    have "moves_operation (error_value h) r v v'" using fut that(1,2) unfolding operates_on_def by blast
    then obtain ls where "run (op_step default_limits (error_value h) (\<lambda>_. ([], None))) (ops v r) ls (ops v' r)"
      unfolding moves_operation_def by blast
    then show ?thesis using that(3) by (rule operation.inv_run)
  qed
  then show ?thesis using awaits(3) fut ab r unfolding owns_def by blast
qed auto

lemma demo_dispatch:
  "call_registered demo_host demo_ctx 1 (OPERATION_OPS ! 2) (HCall (ops_input_done demo_host)) (JObject []) demo_service
     = (Awaits None (ops_input_done demo_host demo_ctx (Handle (Operation 10)) (JObject [])), demo_service)"
  by (simp add: call_registered_def OPERATION_OPS_def op_desc_def validate_object_def HANDLE_DROP_def
      resolve_target_def validate_secondary_def demo_service_def get_handle_def demo_ctx_def)

theorem dispatched_calls_refine_operation_witness:
  "\<exists>r. handle_view (handles demo_service) 1 = Some (Node 1, Operation r) \<and>
     operates_on (error_value demo_host) r (ops_input_done demo_host demo_ctx (Handle (Operation 10)) (JObject []))"
proof -
  have "(OPERATION_OPS ! 2, HCall (ops_input_done demo_host)) \<in> set (operation_register demo_host)"
    by (simp add: operation_register_def OPERATION_OPS_def)
  moreover have "allowed_handle_kinds (OPERATION_OPS ! 2) = [KOperation]"
    by (simp add: OPERATION_OPS_def op_desc_def)
  ultimately show ?thesis
    using dispatched_calls_refine_operation [OF _ _ demo_dispatch] by (auto simp: demo_ctx_def)
qed

text \<open>Direct pushes keep to the caller's operation as well.\<close>

lemma operation_push_moves:
  assumes "is_slice data" and "operation_push own hid data w = (res, w')"
  shows "w' = w \<or> (\<exists>r. handle_view (handles w) hid = Some (own, Operation r) \<and> moves_operation to_value r w w')"
  using assms
  by (auto simp: operation_push_def get_handle_owns owns_def try_push_moves split: sum.splits entry.splits prod.splits)

section \<open>Cancellation and streams\<close>

lemma await_call_append:
  "await_call ab fut k envs w = (None, w1) \<Longrightarrow>
     await_call ab fut k (envs @ envs') w = await_call ab fut (k + length envs) envs' w1"
  by (induction envs arbitrary: k w) (auto split: if_splits prod.splits option.splits)

text \<open>
  A call that is still pending when its abort signal is raised returns the abort error at
  the next poll, with the service as the other tasks left it: the handler is not polled again.
\<close>

lemma abort_wins:
  assumes "await_call (Some sig) fut 0 envs w = (None, w1)" and "signals (env w1) sig"
  shows "await_call (Some sig) fut 0 (envs @ env # envs') w = (Some (Inl aborted), env w1)"
  using await_call_append [OF assms(1), of "env # envs'"] assms(2) by simp

lemma dispatch_stream_accepted:
  assumes "dispatch_stream h regs ctx hid name params w = (Inr (events, fs, sig), w')"
  obtains d f ctx' t where "(d, HStream f) \<in> set regs" "od_name d = name" "mode d = ModeStream"
    "admitted_call (handles w) ctx hid d params ctx' t"
    "sig = (case ctx_abort ctx' of Some x \<Rightarrow> x | None \<Rightarrow> fresh h w)"
    "f (ctx'\<lparr>ctx_abort := Some sig\<rparr>) t params
       (case ctx_abort ctx' of Some _ \<Rightarrow> w | None \<Rightarrow> w\<lparr>signals := (signals w)(sig := False)\<rparr>) = (Inr events, w')"
    "fs = new_frame_stream (Some (signals w' sig))"
proof -
  obtain d f where r: "registration regs name = Inr (d, HStream f)" "mode d = ModeStream"
    using assms by (auto simp: dispatch_stream_def split: sum.splits prod.splits if_splits handler.splits)
  obtain t where t: "resolve_target (handles w) ctx hid d = Inr t"
    using assms r by (auto simp: dispatch_stream_def split: sum.splits)
  obtain ctx' where c: "validate_secondary h (handles w) ctx d params = Inr ctx'"
    using assms r t by (auto simp: dispatch_stream_def split: sum.splits)
  show ?thesis
    using assms r t c registration_Inr [OF r(1)] admitted_callI [OF t c]
    by (intro that [of d f ctx' t])
      (auto simp: dispatch_stream_def Let_def split: sum.splits prod.splits option.splits)
qed

text \<open>
  Accepted streams. A stream is accepted only on a target and references the caller owns, and always
  with an abort signal (the one the parameters name, the caller's, or a new one). However it is polled
  from then on, the frames are numbered from 0 and end with exactly one terminal frame, and dropping the
  stream before that frame raises its signal.
\<close>

lemma accepted_stream_framed:
  assumes "dispatch_stream h regs ctx hid name params w = (Inr (events, fs, sig), w')"
    and "poll_frames to_value written ups fs = (rs, s)"
  shows "(\<exists>d f ctx' t. (d, HStream f) \<in> set regs \<and> od_name d = name \<and> mode d = ModeStream \<and>
            admitted_call (handles w) ctx hid d params ctx' t \<and>
            sig = (case ctx_abort ctx' of Some x \<Rightarrow> x | None \<Rightarrow> fresh h w)) \<and>
         framed 0 (events_of ups) rs (is_terminated s) \<and>
         fs_abort (drop_frame_stream s) = Some (signals w' sig \<or> \<not> is_terminated s)"
proof -
  obtain d f ctx' t where a: "(d, HStream f) \<in> set regs" "od_name d = name" "mode d = ModeStream"
    "admitted_call (handles w) ctx hid d params ctx' t"
    "sig = (case ctx_abort ctx' of Some x \<Rightarrow> x | None \<Rightarrow> fresh h w)"
    "fs = new_frame_stream (Some (signals w' sig))"
    using assms(1) by (rule dispatch_stream_accepted) blast
  have "fs_events fs" "fs_seq fs = 0" "fs_abort fs = Some (signals w' sig)"
    using a(6) by (simp_all add: new_frame_stream_def)
  with poll_frames_framed [OF assms(2)]
  have "framed 0 (events_of ups) rs (is_terminated s)" "fs_abort s = Some (signals w' sig)" by simp_all
  moreover have "fs_abort (drop_frame_stream s) = Some (signals w' sig \<or> \<not> is_terminated s)"
    using calculation(2) by (auto simp: drop_frame_stream_def is_terminated_def)
  ultimately show ?thesis using a(1-5) by blast
qed

lemma demo_stream:
  "dispatch_stream demo_host [(op_desc ''text.stream'' ModeStream [] CancelAbort True, HStream (\<lambda>_ _ _ w. (Inr [UpEnd], w)))]
     demo_ctx 0 ''text.stream'' (JObject []) demo_service
   = (Inr ([UpEnd], new_frame_stream (Some False), 20), demo_service\<lparr>signals := (signals demo_service)(20 := False)\<rparr>)"
  by (simp add: dispatch_stream_def registration_def op_desc_def validate_object_def resolve_target_def
      validate_secondary_def value_get_def demo_ctx_def demo_host_def)

lemma accepted_stream_framed_witness:
  "fs_abort (drop_frame_stream (new_frame_stream (Some False))) = Some True"
  using accepted_stream_framed [OF demo_stream, where ups = "[]"]
  by (simp add: is_terminated_def new_frame_stream_def)

end
