(* ===== verification/Transform_Stream.thy ===== *)
theory Transform_Stream
  imports Errors
begin

text \<open>
  The parts of a provider stream (\<open>src/aimux-core/src/stream_part.rs\<close>) and the transform stream every
  provider builds its output with (\<open>src/aimux-provider-utils/src/transform_stream.rs\<close>): the controller a
  transformer writes to and the pull-driven pipe. A transformer is given by its \<open>transform\<close> and \<open>flush\<close>
  functions on its state; the input stream is the list of its chunks.
\<close>

section \<open>Stream parts\<close>

datatype warning =
  WarnUnsupported string "string option" | WarnCompatibility string "string option"
| WarnDeprecated string string | WarnOther string

text \<open>A timestamp is its milliseconds since the Unix epoch.\<close>

record response_metadata =
  rm_id :: "string option"
  rm_timestamp :: "int option"
  rm_model_id :: "string option"

datatype stream_part =
  TextStart string "provider_metadata option"
| TextDelta string string "provider_metadata option"
| TextEnd string "provider_metadata option"
| StreamStart "warning list"
| Finish finish_reason usage "provider_metadata option"
| PartError aimux_error
| ToolInputStart string string "bool option" "bool option" "string option" "provider_metadata option"
| ToolInputDelta string string "provider_metadata option"
| ToolInputEnd string "provider_metadata option"
| ToolCallPart raw_tool_call
| ToolResultPart tool_result
| FilePart language_model_file
| ReasoningFilePart language_model_file
| CustomPart namespaced_kind "provider_metadata option"
| ToolApprovalRequestPart raw_tool_approval_request
| ReasoningStart string "provider_metadata option"
| ReasoningDelta string string "provider_metadata option"
| ReasoningEnd string "provider_metadata option"
| ResponseMetadataPart response_metadata
| SourcePart source
| RawPart json

section \<open>The controller\<close>

record 'o controller =
  queue :: "(aimux_error + 'o) list"
  ctl_closed :: bool

definition new_controller :: "'o controller" where
  "new_controller = \<lparr>queue = [], ctl_closed = False\<rparr>"

definition enqueue :: "'o \<Rightarrow> 'o controller \<Rightarrow> 'o controller" where
  "enqueue v k = (if ctl_closed k then k else k\<lparr>queue := queue k @ [Inr v]\<rparr>)"

definition enqueue_error :: "aimux_error \<Rightarrow> 'o controller \<Rightarrow> 'o controller" where
  "enqueue_error e k = (if ctl_closed k then k else k\<lparr>queue := queue k @ [Inl e]\<rparr>)"

definition ctl_error :: "aimux_error \<Rightarrow> 'o controller \<Rightarrow> 'o controller" where
  "ctl_error e k = (if ctl_closed k then k else k\<lparr>queue := queue k @ [Inl e], ctl_closed := True\<rparr>)"

definition ctl_terminate :: "'o controller \<Rightarrow> 'o controller" where
  "ctl_terminate k = k\<lparr>ctl_closed := True\<rparr>"

section \<open>The pipe\<close>

type_synonym ('i, 's, 'o) transform_fun = "'i \<Rightarrow> 's \<times> 'o controller \<Rightarrow> 's \<times> 'o controller"
type_synonym ('s, 'o) flush_fun = "'s \<Rightarrow> 'o controller \<Rightarrow> 'o controller"

text \<open>\<open>PipeThrough\<close>: the chunks not read yet, the transformer until it was flushed, and the controller.\<close>

record ('i, 's, 'o) pipe =
  pipe_input :: "'i list"
  pipe_transformer :: "'s option"
  pipe_controller :: "'o controller"

definition pipe_through ::
  "('s \<times> 'o controller \<Rightarrow> 's \<times> 'o controller) \<Rightarrow> 'i list \<Rightarrow> 's \<Rightarrow> ('i, 's, 'o) pipe" where
  "pipe_through begin_stream input s =
     (case begin_stream (s, new_controller) of
        (s', k) \<Rightarrow> \<lparr>pipe_input = input, pipe_transformer = Some s', pipe_controller = k\<rparr>)"

text \<open>\<open>poll_next\<close> on an input that is ready: the next item, or the end.\<close>

function pipe_next ::
  "('i, 's, 'o) transform_fun \<Rightarrow> ('s, 'o) flush_fun \<Rightarrow> ('i, 's, 'o) pipe \<Rightarrow>
   (aimux_error + 'o) option \<times> ('i, 's, 'o) pipe" where
  "pipe_next transform flush p =
     (case queue (pipe_controller p) of
        item # rest \<Rightarrow> (Some item, p\<lparr>pipe_controller := (pipe_controller p)\<lparr>queue := rest\<rparr>\<rparr>)
      | [] \<Rightarrow>
          if ctl_closed (pipe_controller p) then (None, p)
          else (case pipe_transformer p of
             None \<Rightarrow> (None, p)
           | Some s \<Rightarrow>
               (case pipe_input p of
                  c # cs \<Rightarrow>
                    (case transform c (s, pipe_controller p) of (s', k) \<Rightarrow>
                       pipe_next transform flush
                         (p\<lparr>pipe_input := cs, pipe_transformer := Some s', pipe_controller := k\<rparr>))
                | [] \<Rightarrow>
                    pipe_next transform flush
                      (p\<lparr>pipe_transformer := None, pipe_controller := flush s (pipe_controller p)\<rparr>))))"
  by pat_completeness auto
termination
  by (relation "measure (\<lambda>(tr, fl, p). length (pipe_input p) + (if pipe_transformer p = None then 0 else 1))")
     auto

declare pipe_next.simps [simp del]

text \<open>Pulling until the stream ends, with enough fuel.\<close>

fun pull_all ::
  "nat \<Rightarrow> ('i, 's, 'o) transform_fun \<Rightarrow> ('s, 'o) flush_fun \<Rightarrow> ('i, 's, 'o) pipe \<Rightarrow> (aimux_error + 'o) list option" where
  "pull_all 0 transform flush p = None"
| "pull_all (Suc fuel) transform flush p =
     (case pipe_next transform flush p of
        (None, _) \<Rightarrow> Some []
      | (Some item, p') \<Rightarrow> map_option (Cons item) (pull_all fuel transform flush p'))"

text \<open>
  The specification: transform every chunk until the stream is closed, then flush unless it was. This
  is also how the unit tests drive a transformer.
\<close>

fun batch ::
  "('i, 's, 'o) transform_fun \<Rightarrow> ('s, 'o) flush_fun \<Rightarrow> 'i list \<Rightarrow> 's \<times> 'o controller \<Rightarrow> 'o controller" where
  "batch transform flush [] (s, k) = (if ctl_closed k then k else flush s k)"
| "batch transform flush (c # cs) (s, k) =
     (if ctl_closed k then k else batch transform flush cs (transform c (s, k)))"

text \<open>What a pipe has still to deliver.\<close>

definition remaining ::
  "('i, 's, 'o) transform_fun \<Rightarrow> ('s, 'o) flush_fun \<Rightarrow> ('i, 's, 'o) pipe \<Rightarrow> (aimux_error + 'o) list" where
  "remaining transform flush p = (case pipe_transformer p of
     None \<Rightarrow> queue (pipe_controller p)
   | Some s \<Rightarrow> queue (batch transform flush (pipe_input p) (s, pipe_controller p)))"

section \<open>Transformers\<close>

text \<open>
  What the pipe relies on: a transformer only appends to an open controller, and what it appends does
  not depend on what is queued.
\<close>

locale transformer =
  fixes transform :: "('i, 's, 'o) transform_fun"
    and flush :: "('s, 'o) flush_fun"
  assumes transform_appends:
      "transform c (s, \<lparr>queue = q, ctl_closed = False\<rparr>)
         = (case transform c (s, new_controller) of (s', k) \<Rightarrow> (s', k\<lparr>queue := q @ queue k\<rparr>))"
    and flush_appends:
      "flush s \<lparr>queue = q, ctl_closed = False\<rparr> = (flush s new_controller)\<lparr>queue := q @ queue (flush s new_controller)\<rparr>"
begin

lemma batch_closed: "ctl_closed k \<Longrightarrow> batch transform flush cs (s, k) = k"
  by (cases cs) simp_all

lemma batch_appends:
  "batch transform flush cs (s, k\<lparr>queue := q @ queue k\<rparr>)
     = (let b = batch transform flush cs (s, k) in b\<lparr>queue := q @ queue b\<rparr>)"
proof (induction cs arbitrary: s k q)
  case Nil
  show ?case
  proof (cases "ctl_closed k")
    case False
    then obtain q0 where k: "k = \<lparr>queue = q0, ctl_closed = False\<rparr>" by (cases k) auto
    show ?thesis
      using flush_appends [of s "q @ q0"] flush_appends [of s q0] by (simp add: k Let_def)
  qed simp
next
  case (Cons c cs)
  show ?case
  proof (cases "ctl_closed k")
    case False
    then obtain q0 where k: "k = \<lparr>queue = q0, ctl_closed = False\<rparr>" by (cases k) auto
    obtain s' k' where t: "transform c (s, new_controller) = (s', k')" by force
    then show ?thesis
      using transform_appends [of c s "q @ q0"] transform_appends [of c s q0]
        Cons.IH [of s' q "k'\<lparr>queue := q0 @ queue k'\<rparr>"] by (simp add: k)
  qed simp
qed

lemma remaining_item:
  assumes "queue (pipe_controller p) = item # rest"
  shows "remaining transform flush p
       = item # remaining transform flush (p\<lparr>pipe_controller := (pipe_controller p)\<lparr>queue := rest\<rparr>\<rparr>)"
proof -
  have split: "pipe_controller p = (pipe_controller p)\<lparr>queue := [item] @ queue ((pipe_controller p)\<lparr>queue := rest\<rparr>)\<rparr>"
    using assms by simp
  show ?thesis
  proof (cases "pipe_transformer p")
    case (Some s)
    then show ?thesis
      using batch_appends [of "pipe_input p" s "[item]" "(pipe_controller p)\<lparr>queue := rest\<rparr>"] split
      by (simp add: remaining_def Let_def)
  qed (simp add: remaining_def assms)
qed

lemma pipe_next_done:
  assumes "pipe_transformer p = None" and "pipe_next transform flush p = (r, p')"
  shows "r = None \<and> remaining transform flush p = []
       \<or> (\<exists>x. r = Some x \<and> remaining transform flush p = x # remaining transform flush p')"
  using assms remaining_item [of p]
  by (cases "queue (pipe_controller p)")
     (auto simp: pipe_next.simps [of transform flush p] remaining_def [of _ _ p] split: if_splits)

lemma pipe_next_remaining:
  assumes "pipe_next transform flush p = (r, p')"
  shows "r = None \<and> remaining transform flush p = []
       \<or> (\<exists>x. r = Some x \<and> remaining transform flush p = x # remaining transform flush p')"
  using assms
proof (induction "pipe_input p" arbitrary: p)
  case Nil
  show ?case
  proof (cases "pipe_transformer p = None \<or> queue (pipe_controller p) \<noteq> [] \<or> ctl_closed (pipe_controller p)")
    case True
    then consider "pipe_transformer p = None" | item rest where "queue (pipe_controller p) = item # rest"
      | "queue (pipe_controller p) = []" "ctl_closed (pipe_controller p)" by (cases "queue (pipe_controller p)") auto
    then show ?thesis
    proof cases
      case 1
      then show ?thesis using pipe_next_done Nil by blast
    next
      case 2
      then show ?thesis using remaining_item [OF 2] Nil.prems by (simp add: pipe_next.simps [of transform flush p])
    next
      case 3
      then show ?thesis
        using Nil.prems batch_closed by (auto simp: pipe_next.simps [of transform flush p] remaining_def split: option.splits)
    qed
  next
    case False
    then obtain s where s: "pipe_transformer p = Some s" "queue (pipe_controller p) = []" "\<not> ctl_closed (pipe_controller p)"
      by (cases "pipe_transformer p") auto
    let ?p = "p\<lparr>pipe_transformer := None, pipe_controller := flush s (pipe_controller p)\<rparr>"
    have "pipe_next transform flush p = pipe_next transform flush ?p"
      using s Nil.hyps by (simp add: pipe_next.simps [of transform flush p])
    moreover have "remaining transform flush ?p = remaining transform flush p"
      using s Nil.hyps by (simp add: remaining_def)
    ultimately show ?thesis using pipe_next_done [of ?p r p'] Nil.prems by simp
  qed
next
  case (Cons c cs)
  show ?case
  proof (cases "pipe_transformer p = None \<or> queue (pipe_controller p) \<noteq> [] \<or> ctl_closed (pipe_controller p)")
    case True
    then consider "pipe_transformer p = None" | item rest where "queue (pipe_controller p) = item # rest"
      | "queue (pipe_controller p) = []" "ctl_closed (pipe_controller p)" by (cases "queue (pipe_controller p)") auto
    then show ?thesis
    proof cases
      case 1
      then show ?thesis using pipe_next_done Cons.prems by blast
    next
      case 2
      then show ?thesis using remaining_item [OF 2] Cons.prems by (simp add: pipe_next.simps [of transform flush p])
    next
      case 3
      then show ?thesis
        using Cons.prems batch_closed by (auto simp: pipe_next.simps [of transform flush p] remaining_def split: option.splits)
    qed
  next
    case False
    then obtain s where s: "pipe_transformer p = Some s" "queue (pipe_controller p) = []" "\<not> ctl_closed (pipe_controller p)"
      by (cases "pipe_transformer p") auto
    obtain s' k where t: "transform c (s, pipe_controller p) = (s', k)" by force
    let ?p = "p\<lparr>pipe_input := cs, pipe_transformer := Some s', pipe_controller := k\<rparr>"
    have "pipe_next transform flush p = pipe_next transform flush ?p"
      using s t by (simp add: Cons.hyps(2) [symmetric] pipe_next.simps [of transform flush p])
    moreover have "remaining transform flush ?p = remaining transform flush p"
      using s t by (simp add: Cons.hyps(2) [symmetric] remaining_def)
    ultimately show ?thesis using Cons.hyps(1) [of ?p] Cons.prems by simp
  qed
qed

lemma pull_all_remaining:
  "length (remaining transform flush p) < fuel \<Longrightarrow>
     pull_all fuel transform flush p = Some (remaining transform flush p)"
proof (induction fuel arbitrary: p)
  case (Suc fuel)
  obtain r p' where n: "pipe_next transform flush p = (r, p')" by force
  from pipe_next_remaining [OF n] show ?case
    using Suc n by (auto simp del: length_0_conv)
qed simp

end

end
