(* ===== verification/Strict_Parts.thy ===== *)
theory Strict_Parts
  imports Transform_Stream
begin

text \<open>
  Strict stream mode: the checks every vendor stream passes through when a caller asks for them
  (\<open>src/aimux-providers/src/stream/strict.rs\<close>), as a transformer of the stream of parts. A \<open>HashSet\<close>
  is a set; the iteration order of the sets is never used by the code.
\<close>

section \<open>The transformer\<close>

definition strict_error :: "string \<Rightarrow> aimux_error" where
  "strict_error problem =
     (let message = ''Strict stream: '' @ problem
      in Other message (Some (CauseAiMux (InvalidResponseData message None))))"

record strict_parts =
  sp_text :: "string set"
  sp_reasoning :: "string set"
  sp_tool_input :: "string set"
  completed_calls :: "string set"
  held :: "stream_part list"
  sp_finished :: bool
  sp_failed :: bool
  sp_errored :: bool

definition default_strict_parts :: strict_parts where
  "default_strict_parts = \<lparr>sp_text = {}, sp_reasoning = {}, sp_tool_input = {}, completed_calls = {},
     held = [], sp_finished = False, sp_failed = False, sp_errored = False\<rparr>"

datatype block = BlockText | BlockReasoning | BlockToolInput

fun block_name :: "block \<Rightarrow> string" where
  "block_name BlockText = ''text''"
| "block_name BlockReasoning = ''reasoning''"
| "block_name BlockToolInput = ''tool-input''"

datatype block_step = StepStart | StepContinue string | StepEnd

fun open_blocks :: "strict_parts \<Rightarrow> block \<Rightarrow> string set" where
  "open_blocks s BlockText = sp_text s"
| "open_blocks s BlockReasoning = sp_reasoning s"
| "open_blocks s BlockToolInput = sp_tool_input s"

fun set_open :: "block \<Rightarrow> string set \<Rightarrow> strict_parts \<Rightarrow> strict_parts" where
  "set_open BlockText ids s = s\<lparr>sp_text := ids\<rparr>"
| "set_open BlockReasoning ids s = s\<lparr>sp_reasoning := ids\<rparr>"
| "set_open BlockToolInput ids s = s\<lparr>sp_tool_input := ids\<rparr>"

definition strict_fail ::
  "string \<Rightarrow> strict_parts \<times> stream_part controller \<Rightarrow> strict_parts \<times> stream_part controller" where
  "strict_fail problem sk =
     ((fst sk)\<lparr>sp_failed := True, held := []\<rparr>, ctl_error (strict_error problem) (snd sk))"

text \<open>The message of a part that breaks the lifecycle of its block, or the updated open blocks.\<close>

definition track ::
  "block \<Rightarrow> string \<Rightarrow> block_step \<Rightarrow> strict_parts \<times> stream_part controller
     \<Rightarrow> bool \<times> strict_parts \<times> stream_part controller" where
  "track b i step sk =
     (let s = fst sk;
          opened = open_blocks s b;
          (problem, s') =
            (case step of
               StepStart \<Rightarrow>
                 (if i \<in> opened then (Some (block_name b @ '' block `'' @ i @ ''` started twice''), s)
                  else (None, set_open b (insert i opened) s))
             | StepContinue kind \<Rightarrow>
                 (if i \<notin> opened
                  then (Some (kind @ '' for '' @ block_name b @ '' block `'' @ i @ ''` that was not started''), s)
                  else (None, s))
             | StepEnd \<Rightarrow>
                 (if i \<notin> opened
                  then (Some (''end of '' @ block_name b @ '' block `'' @ i @ ''` that was not started''), s)
                  else (None, set_open b (opened - {i}) s)))
      in case problem of
           Some problem \<Rightarrow> (False, strict_fail problem (s', snd sk))
         | None \<Rightarrow> (True, s', snd sk))"

fun tracked :: "stream_part \<Rightarrow> (block \<times> string \<times> block_step) option" where
  "tracked (TextStart i _) = Some (BlockText, i, StepStart)"
| "tracked (TextDelta i _ _) = Some (BlockText, i, StepContinue ''text-delta'')"
| "tracked (TextEnd i _) = Some (BlockText, i, StepEnd)"
| "tracked (ReasoningStart i _) = Some (BlockReasoning, i, StepStart)"
| "tracked (ReasoningDelta i _ _) = Some (BlockReasoning, i, StepContinue ''reasoning-delta'')"
| "tracked (ReasoningEnd i _) = Some (BlockReasoning, i, StepEnd)"
| "tracked (ToolInputStart i _ _ _ _ _) = Some (BlockToolInput, i, StepStart)"
| "tracked (ToolInputDelta i _ _) = Some (BlockToolInput, i, StepContinue ''tool-input-delta'')"
| "tracked (ToolInputEnd i _) = Some (BlockToolInput, i, StepEnd)"
| "tracked _ = None"

definition late_kind :: "block_step \<Rightarrow> string" where
  "late_kind step = (case step of
     StepStart \<Rightarrow> ''tool-input-start'' | StepContinue kind \<Rightarrow> kind | StepEnd \<Rightarrow> ''tool-input-end'')"

text \<open>The second \<open>match\<close> of \<open>transform\<close>: what becomes of a part that passed the checks.\<close>

definition deliver ::
  "stream_part \<Rightarrow> strict_parts \<times> stream_part controller \<Rightarrow> strict_parts \<times> stream_part controller" where
  "deliver part sk =
     (let s = fst sk; k = snd sk in
      case part of
        ToolCallPart call \<Rightarrow>
          if rtc_provider_executed call \<noteq> Some True
          then (s\<lparr>completed_calls := insert (rtc_tool_call_id call) (completed_calls s),
                  held := held s @ [part]\<rparr>, k)
          else (s, enqueue part k)
      | PartError _ \<Rightarrow> (s\<lparr>sp_errored := True\<rparr>, enqueue part k)
      | Finish reason _ _ \<Rightarrow>
          (s\<lparr>held := [], sp_finished := True\<rparr>,
           enqueue part (if unified reason = FinishError then k else fold enqueue (held s) k))
      | _ \<Rightarrow> (s, enqueue part k))"

definition strict_transform ::
  "aimux_error + stream_part \<Rightarrow> strict_parts \<times> stream_part controller
     \<Rightarrow> strict_parts \<times> stream_part controller" where
  "strict_transform chunk sk =
     (case chunk of
        Inl error \<Rightarrow> ((fst sk)\<lparr>sp_failed := True, held := []\<rparr>, ctl_error error (snd sk))
      | Inr part \<Rightarrow>
          (case tracked part of
             None \<Rightarrow> deliver part sk
           | Some (b, i, step) \<Rightarrow>
               if b = BlockToolInput \<and> i \<in> completed_calls (fst sk)
               then strict_fail (late_kind step @ '' for tool call `'' @ i @ ''` that already completed'') sk
               else (case track b i step sk of
                       (True, sk') \<Rightarrow> deliver part sk'
                     | (False, sk') \<Rightarrow> sk')))"

definition strict_flush :: "strict_parts \<Rightarrow> stream_part controller \<Rightarrow> stream_part controller" where
  "strict_flush s k =
     (if \<not> sp_failed s \<and> \<not> sp_finished s \<and> \<not> sp_errored s
      then snd (strict_fail ''the stream ended without a finish part'' (s, k))
      else k)"

text \<open>The stream a caller in strict mode reads, as the chunks of the vendor stream determine it.\<close>

definition strict_output :: "(aimux_error + stream_part) list \<Rightarrow> (aimux_error + stream_part) list" where
  "strict_output chunks =
     queue (batch strict_transform strict_flush chunks (default_strict_parts, new_controller))"

definition strict_guard ::
  "bool option \<Rightarrow> (aimux_error + stream_part) list \<Rightarrow> (aimux_error + stream_part) list" where
  "strict_guard strict_stream chunks = (if strict_stream = Some True then strict_output chunks else chunks)"

section \<open>One step of the checks\<close>

definition is_client_call :: "stream_part \<Rightarrow> bool" where
  "is_client_call part \<longleftrightarrow>
     (case part of ToolCallPart call \<Rightarrow> rtc_provider_executed call \<noteq> Some True | _ \<Rightarrow> False)"

text \<open>The problem a part is rejected for, the state after an accepted part, and what it emits.\<close>

definition rejection :: "strict_parts \<Rightarrow> stream_part \<Rightarrow> string option" where
  "rejection s part = (case tracked part of
     None \<Rightarrow> None
   | Some (b, i, step) \<Rightarrow>
       if b = BlockToolInput \<and> i \<in> completed_calls s
       then Some (late_kind step @ '' for tool call `'' @ i @ ''` that already completed'')
       else (case step of
          StepStart \<Rightarrow> if i \<in> open_blocks s b
            then Some (block_name b @ '' block `'' @ i @ ''` started twice'') else None
        | StepContinue kind \<Rightarrow> if i \<in> open_blocks s b then None
            else Some (kind @ '' for '' @ block_name b @ '' block `'' @ i @ ''` that was not started'')
        | StepEnd \<Rightarrow> if i \<in> open_blocks s b then None
            else Some (''end of '' @ block_name b @ '' block `'' @ i @ ''` that was not started'')))"

definition after_track :: "stream_part \<Rightarrow> strict_parts \<Rightarrow> strict_parts" where
  "after_track part s = (case tracked part of
     None \<Rightarrow> s
   | Some (b, i, step) \<Rightarrow>
       (case step of
          StepStart \<Rightarrow> set_open b (insert i (open_blocks s b)) s
        | StepContinue _ \<Rightarrow> s
        | StepEnd \<Rightarrow> set_open b (open_blocks s b - {i}) s))"

definition emitted :: "strict_parts \<Rightarrow> stream_part \<Rightarrow> stream_part list" where
  "emitted s part =
     (if is_client_call part then []
      else (case part of
              Finish reason _ _ \<Rightarrow> (if unified reason = FinishError then [] else held s) @ [part]
            | _ \<Rightarrow> [part]))"

definition advance :: "strict_parts \<Rightarrow> stream_part \<Rightarrow> strict_parts" where
  "advance s part = fst (deliver part (after_track part s, new_controller))"

lemma held_after_track [simp]:
  "held (after_track part s) = held s" "completed_calls (after_track part s) = completed_calls s"
  "sp_finished (after_track part s) = sp_finished s" "sp_failed (after_track part s) = sp_failed s"
  "sp_errored (after_track part s) = sp_errored s"
proof -
  have frame: "held (set_open b ids s) = held s" "completed_calls (set_open b ids s) = completed_calls s"
    "sp_finished (set_open b ids s) = sp_finished s" "sp_failed (set_open b ids s) = sp_failed s"
    "sp_errored (set_open b ids s) = sp_errored s" for b ids
    by (cases b; simp)+
  show "held (after_track part s) = held s" "completed_calls (after_track part s) = completed_calls s"
    "sp_finished (after_track part s) = sp_finished s" "sp_failed (after_track part s) = sp_failed s"
    "sp_errored (after_track part s) = sp_errored s"
    by (auto simp: after_track_def frame split: option.splits block_step.splits)
qed

lemma fold_enqueue_open:
  "\<not> ctl_closed k \<Longrightarrow> fold enqueue ps k = k\<lparr>queue := queue k @ map Inr ps\<rparr>"
  by (induction ps arbitrary: k) (simp_all add: enqueue_def)

lemma deliver_open:
  assumes "\<not> ctl_closed k"
  shows "deliver part (s, k) = (fst (deliver part (s, new_controller)), k\<lparr>queue := queue k @ map Inr (emitted s part)\<rparr>)"
  using assms by (cases part) (auto simp: deliver_def emitted_def is_client_call_def fold_enqueue_open enqueue_def)

lemma transform_part:
  assumes "\<not> ctl_closed k"
  shows "strict_transform (Inr part) (s, k) = (case rejection s part of
           Some problem \<Rightarrow> strict_fail problem (s, k)
         | None \<Rightarrow> (advance s part, k\<lparr>queue := queue k @ map Inr (emitted s part)\<rparr>))"
proof (cases "tracked part")
  case None
  then show ?thesis
    by (simp add: strict_transform_def rejection_def advance_def after_track_def deliver_open [OF assms])
next
  case (Some t)
  then obtain b i step where t: "tracked part = Some (b, i, step)" by (cases t) auto
  have emit: "emitted (after_track part s) part = emitted s part"
    by (simp add: emitted_def split: stream_part.splits)
  have "strict_transform (Inr part) (s, k) = deliver part (after_track part s, k)" if "rejection s part = None"
    using that by (auto simp: strict_transform_def rejection_def track_def after_track_def t Let_def
        split: if_splits block_step.splits)
  moreover have "strict_transform (Inr part) (s, k) = strict_fail problem (s, k)" if "rejection s part = Some problem" for problem
    using that by (auto simp: strict_transform_def rejection_def track_def t Let_def split: if_splits block_step.splits)
  ultimately show ?thesis
    by (cases "rejection s part") (simp_all add: deliver_open [OF assms] emit advance_def)
qed

lemma transform_error: "\<not> ctl_closed k \<Longrightarrow> ctl_closed (snd (strict_transform (Inl e) (s, k)))
    \<and> queue (snd (strict_transform (Inl e) (s, k))) = queue k @ [Inl e]"
  by (simp add: strict_transform_def ctl_error_def)

interpretation strict: transformer strict_transform strict_flush
proof
  fix c s and q :: "(aimux_error + stream_part) list"
  show "strict_transform c (s, \<lparr>queue = q, ctl_closed = False\<rparr>)
      = (case strict_transform c (s, new_controller) of (s', k) \<Rightarrow> (s', k\<lparr>queue := q @ queue k\<rparr>))"
  proof (cases c)
    case (Inr part)
    then show ?thesis
      by (auto simp: transform_part new_controller_def strict_fail_def ctl_error_def split: option.splits)
  qed (simp add: strict_transform_def ctl_error_def new_controller_def)
  show "strict_flush s \<lparr>queue = q, ctl_closed = False\<rparr>
      = (strict_flush s new_controller)\<lparr>queue := q @ queue (strict_flush s new_controller)\<rparr>"
    by (simp add: strict_flush_def strict_fail_def ctl_error_def new_controller_def)
qed

section \<open>The output of a run\<close>

definition output_from :: "strict_parts \<Rightarrow> (aimux_error + stream_part) list \<Rightarrow> (aimux_error + stream_part) list" where
  "output_from s chunks = queue (batch strict_transform strict_flush chunks (s, new_controller))"

lemma output_from_Nil:
  "output_from s [] = (if sp_failed s \<or> sp_finished s \<or> sp_errored s then []
     else [Inl (strict_error ''the stream ended without a finish part'')])"
  by (simp add: output_from_def strict_flush_def strict_fail_def ctl_error_def new_controller_def)

lemma output_from_error: "output_from s (Inl e # chunks) = [Inl e]"
  by (simp add: output_from_def new_controller_def strict_transform_def ctl_error_def strict.batch_closed)

lemma output_from_part:
  "output_from s (Inr part # chunks) = (case rejection s part of
     Some problem \<Rightarrow> [Inl (strict_error problem)]
   | None \<Rightarrow> map Inr (emitted s part) @ output_from (advance s part) chunks)"
  using strict.batch_appends [of chunks "advance s part" "map Inr (emitted s part)" new_controller]
  by (cases "rejection s part")
     (simp_all add: output_from_def new_controller_def transform_part strict_fail_def ctl_error_def
        strict.batch_closed Let_def)

text \<open>
  The lifecycle every consumer relies on: a block is started while it is not open, and continued and
  ended only while it is.
\<close>

fun lifecycle :: "(block \<times> string) set \<Rightarrow> stream_part list \<Rightarrow> bool" where
  "lifecycle opened [] \<longleftrightarrow> True"
| "lifecycle opened (p # ps) \<longleftrightarrow> (case tracked p of
     None \<Rightarrow> lifecycle opened ps
   | Some (b, i, StepStart) \<Rightarrow> (b, i) \<notin> opened \<and> lifecycle (insert (b, i) opened) ps
   | Some (b, i, StepContinue _) \<Rightarrow> (b, i) \<in> opened \<and> lifecycle opened ps
   | Some (b, i, StepEnd) \<Rightarrow> (b, i) \<in> opened \<and> lifecycle (opened - {(b, i)}) ps)"

text \<open>No input part belongs to a client call that was already completed.\<close>

definition late_input :: "string set \<Rightarrow> stream_part \<Rightarrow> bool" where
  "late_input completed p \<longleftrightarrow> (case tracked p of
     Some (BlockToolInput, i, _) \<Rightarrow> i \<in> completed | _ \<Rightarrow> False)"

definition call_ids :: "stream_part \<Rightarrow> string set" where
  "call_ids p = (case p of ToolCallPart call \<Rightarrow> if is_client_call p then {rtc_tool_call_id call} else {} | _ \<Rightarrow> {})"

fun no_late_input :: "string set \<Rightarrow> stream_part list \<Rightarrow> bool" where
  "no_late_input completed [] \<longleftrightarrow> True"
| "no_late_input completed (p # ps) \<longleftrightarrow>
     \<not> late_input completed p \<and> no_late_input (call_ids p \<union> completed) ps"

definition parts_of :: "(aimux_error + stream_part) list \<Rightarrow> stream_part list" where
  "parts_of items = List.map_filter (case_sum (\<lambda>_. None) Some) items"

definition is_finish :: "stream_part \<Rightarrow> bool" where
  "is_finish p \<longleftrightarrow> (case p of Finish _ _ _ \<Rightarrow> True | _ \<Rightarrow> False)"

definition concludes :: "aimux_error + stream_part \<Rightarrow> bool" where
  "concludes item \<longleftrightarrow> (case item of Inl _ \<Rightarrow> True | Inr p \<Rightarrow> is_finish p \<or> (case p of PartError _ \<Rightarrow> True | _ \<Rightarrow> False))"

definition open_pairs :: "strict_parts \<Rightarrow> (block \<times> string) set" where
  "open_pairs s = {(b, i). i \<in> open_blocks s b}"

lemma parts_of_simps [simp]:
  "parts_of [] = []" "parts_of (Inl e # items) = parts_of items" "parts_of (Inr p # items) = p # parts_of items"
  "parts_of (xs @ items) = parts_of xs @ parts_of items" "parts_of (map Inr ps) = ps"
  by (simp_all add: parts_of_def List.map_filter_def comp_def)

lemma open_blocks_set_open: "open_blocks (set_open b ids s) b' = (if b' = b then ids else open_blocks s b')"
  by (cases b; cases b'; simp)

lemma open_pairs_advance:
  "open_pairs (advance s p) = (case tracked p of
     None \<Rightarrow> open_pairs s
   | Some (b, i, StepStart) \<Rightarrow> insert (b, i) (open_pairs s)
   | Some (b, i, StepContinue _) \<Rightarrow> open_pairs s
   | Some (b, i, StepEnd) \<Rightarrow> open_pairs s - {(b, i)})"
proof -
  have "open_blocks (advance s p) b = open_blocks (after_track p s) b" for b
    by (cases b) (cases p; simp add: advance_def deliver_def Let_def)+
  then show ?thesis
    by (auto simp: open_pairs_def after_track_def open_blocks_set_open split: option.splits block_step.splits if_splits)
qed

lemma completed_advance: "completed_calls (advance s p) = call_ids p \<union> completed_calls s"
  by (cases p) (auto simp: advance_def deliver_def call_ids_def is_client_call_def Let_def)

lemma held_advance:
  "held (advance s p) = (if is_finish p then [] else held s @ (if is_client_call p then [p] else []))"
  by (cases p) (auto simp: advance_def deliver_def is_finish_def is_client_call_def Let_def)

lemma sp_flags_advance:
  "sp_finished (advance s p) \<longleftrightarrow> sp_finished s \<or> is_finish p"
  "sp_failed (advance s p) = sp_failed s"
  "sp_errored (advance s p) \<longleftrightarrow> sp_errored s \<or> (case p of PartError _ \<Rightarrow> True | _ \<Rightarrow> False)"
  by (cases p; auto simp: advance_def deliver_def is_finish_def Let_def)+

lemmas advance_simps = open_pairs_advance completed_advance held_advance sp_flags_advance

text \<open>A part is rejected exactly when it breaks the lifecycle or comes late.\<close>

lemma accepted_iff:
  "rejection s p = None \<longleftrightarrow> lifecycle (open_pairs s) [p] \<and> \<not> late_input (completed_calls s) p"
  by (auto simp: rejection_def late_input_def open_pairs_def split: option.splits block_step.splits block.splits if_splits)

lemma lifecycle_Cons:
  "lifecycle (open_pairs s) (p # ps) \<longleftrightarrow>
     lifecycle (open_pairs s) [p] \<and> lifecycle (open_pairs (advance s p)) ps"
  by (auto simp: open_pairs_advance split: option.splits block_step.splits)

lemma client_call_tracked: "is_client_call p \<Longrightarrow> tracked p = None"
  by (cases p) (auto simp: is_client_call_def)

lemma lifecycle_untracked:
  "list_all is_client_call ps \<Longrightarrow> lifecycle opened (ps @ qs) = lifecycle opened qs"
  by (induction ps) (auto simp: client_call_tracked)

lemma finish_tracked: "is_finish p \<Longrightarrow> tracked p = None \<and> \<not> is_client_call p"
  by (cases p) (auto simp: is_finish_def is_client_call_def)

lemma emitted_cases:
  "emitted s p = (if is_client_call p then []
     else if is_finish p then (if \<exists>r u m. p = Finish r u m \<and> unified r = FinishError then [] else held s) @ [p]
     else [p])"
  by (cases p) (auto simp: emitted_def is_finish_def is_client_call_def)

lemma held_client_advance:
  "list_all is_client_call (held s) \<Longrightarrow> list_all is_client_call (held (advance s p))"
  by (simp add: held_advance)

section \<open>What strict mode guarantees\<close>

lemma output_lifecycle:
  "list_all is_client_call (held s) \<Longrightarrow> lifecycle (open_pairs s) (parts_of (output_from s chunks))"
proof (induction chunks arbitrary: s)
  case (Cons c chunks)
  show ?case
  proof (cases c)
    case (Inr p)
    show ?thesis
    proof (cases "rejection s p")
      case None
      have IH: "lifecycle (open_pairs (advance s p)) (parts_of (output_from (advance s p) chunks))"
        using Cons held_client_advance by blast
      show ?thesis
      proof (cases "tracked p = None")
        case True
        then have "open_pairs (advance s p) = open_pairs s" by (simp add: open_pairs_advance)
        then show ?thesis using IH Inr None True Cons.prems
          by (auto simp: output_from_part emitted_cases lifecycle_untracked)
      next
        case False
        then have "emitted s p = [p]" using client_call_tracked finish_tracked by (auto simp: emitted_cases)
        then show ?thesis
          using IH Inr None lifecycle_Cons [of s p] accepted_iff [of s p] by (simp add: output_from_part)
      qed
    qed (simp add: Inr output_from_part)
  qed (simp add: output_from_error)
qed (simp add: output_from_Nil)

lemma output_errors_last: "list_all (\<lambda>item. \<not> isl item) (butlast (output_from s chunks))"
proof (induction chunks arbitrary: s)
  case (Cons c chunks)
  then show ?case
    by (cases c) (auto simp: output_from_error output_from_part butlast_append list_all_iff map_butlast [symmetric]
        split: option.splits dest: in_set_butlastD)
qed (simp add: output_from_Nil)

lemma emitted_concludes:
  "is_finish p \<or> (case p of PartError _ \<Rightarrow> True | _ \<Rightarrow> False) \<Longrightarrow> list_ex concludes (map Inr (emitted s p))"
  by (cases p) (simp_all add: emitted_def is_client_call_def is_finish_def concludes_def)

lemma output_concludes:
  "\<not> sp_failed s \<Longrightarrow> sp_finished s \<or> sp_errored s \<or> list_ex concludes (output_from s chunks)"
proof (induction chunks arbitrary: s)
  case (Cons c chunks)
  show ?case
  proof (cases c)
    case (Inr p)
    show ?thesis
    proof (cases "rejection s p")
      case None
      have "sp_finished (advance s p) \<or> sp_errored (advance s p)
          \<or> list_ex concludes (output_from (advance s p) chunks)"
        using Cons.IH [of "advance s p"] Cons.prems by (simp add: sp_flags_advance)
      then show ?thesis using Inr None emitted_concludes [of p s]
        by (auto simp: output_from_part sp_flags_advance)
    qed (simp add: Inr output_from_part concludes_def)
  qed (simp add: output_from_error concludes_def)
qed (simp add: output_from_Nil concludes_def)

lemma strict_output_from: "strict_output = output_from default_strict_parts"
  by (simp add: fun_eq_iff strict_output_def output_from_def)

lemma default_strict_simps [simp]:
  "held default_strict_parts = []" "completed_calls default_strict_parts = {}"
  "sp_failed default_strict_parts = False" "sp_finished default_strict_parts = False"
  "sp_errored default_strict_parts = False" "open_pairs default_strict_parts = {}"
proof -
  have "open_blocks default_strict_parts b = {}" for b by (cases b) (simp_all add: default_strict_parts_def)
  then show "open_pairs default_strict_parts = {}" by (simp add: open_pairs_def)
qed (simp_all add: default_strict_parts_def)

text \<open>
  Whatever a vendor stream sends, what strict mode delivers is well formed: every block is started
  before it is continued or ended and is not started while open, an error item can only be the last
  one, and the stream concludes, with a finish part, an error part or an error item.
\<close>

lemma strict_output_well_formed:
  "lifecycle {} (parts_of (strict_output chunks)) \<and>
   list_all (\<lambda>item. \<not> isl item) (butlast (strict_output chunks)) \<and>
   list_ex concludes (strict_output chunks)"
  using output_lifecycle [of default_strict_parts chunks] output_errors_last [of default_strict_parts chunks]
    output_concludes [of default_strict_parts chunks]
  by (simp add: strict_output_from)

text \<open>What follows a delivered client call: more client calls, then a finish part that is no error.\<close>

definition completes :: "(aimux_error + stream_part) list \<Rightarrow> bool" where
  "completes ys \<longleftrightarrow> (\<exists>calls r u m zs. ys = map Inr calls @ Inr (Finish r u m) # zs
     \<and> unified r \<noteq> FinishError \<and> list_all is_client_call calls)"

lemma completesI:
  "unified r \<noteq> FinishError \<Longrightarrow> list_all is_client_call calls \<Longrightarrow>
     completes (map Inr calls @ Inr (Finish r u m) # zs)"
  unfolding completes_def by blast

lemma client_call_position:
  assumes "list_all is_client_call (held s)" and "output_from s chunks = xs @ Inr p # ys" and "is_client_call p"
  shows "completes ys \<and> (p \<in> set (held s) \<or> Inr p \<in> set chunks)"
  using assms
proof (induction chunks arbitrary: s xs)
  case Nil
  then show ?case by (auto simp: output_from_Nil Cons_eq_append_conv split: if_splits)
next
  case (Cons c chunks)
  show ?case
  proof (cases c)
    case (Inl e)
    then show ?thesis using Cons.prems by (auto simp: output_from_error Cons_eq_append_conv)
  next
    case (Inr q)
    show ?thesis
    proof (cases "rejection s q")
      case (Some problem)
      then show ?thesis using Cons.prems Inr by (auto simp: output_from_part Cons_eq_append_conv)
    next
      case None
      have h: "list_all is_client_call (held (advance s q))" using Cons.prems(1) by (rule held_client_advance)
      have old: "p \<in> set (held (advance s q)) \<Longrightarrow> p \<in> set (held s) \<or> p = q"
        by (auto simp: held_advance split: if_splits)
      from Cons.prems(2) Inr None have eq:
        "map Inr (emitted s q) @ output_from (advance s q) chunks = xs @ Inr p # ys" by (simp add: output_from_part)
      then consider (later) us where "output_from (advance s q) chunks = us @ Inr p # ys"
        | (now) us where "map Inr (emitted s q) = xs @ Inr p # us" "ys = us @ output_from (advance s q) chunks"
        by (auto simp: append_eq_append_conv2 append_eq_Cons_conv)
      then show ?thesis
      proof cases
        case later
        then show ?thesis using Cons.IH [OF h later Cons.prems(3)] old Inr by auto
      next
        case now
        have pe: "p \<in> set (emitted s q)"
          using arg_cong [OF now(1), of set] by auto
        then have q: "is_finish q" "\<not> is_client_call q" "emitted s q = held s @ [q]"
          using Cons.prems(3) by (auto simp: emitted_cases split: if_splits)
        then obtain r u m where f: "q = Finish r u m" by (cases q) (auto simp: is_finish_def)
        have ne: "unified r \<noteq> FinishError"
          using pe f Cons.prems(3) q by (auto simp: emitted_def is_client_call_def)
        from now(1) q(3) obtain ws vs where "held s @ [q] = ws @ p # vs" "us = map Inr vs"
          by (auto simp: map_eq_append_conv map_eq_Cons_conv simp del: map_append)
        moreover from this(1) obtain calls where "vs = calls @ [q]" "held s = ws @ p # calls"
          using Cons.prems(3) q(2) by (cases vs rule: rev_cases) auto
        ultimately show ?thesis
          using now(2) f ne Cons.prems(1) by (auto intro: completesI)
      qed
    qed
  qed
qed

text \<open>
  A client tool call reaches a consumer only as part of a completed answer: it was sent by the
  vendor, and what follows it is further client tool calls and then a finish part that is no error.
\<close>

lemma strict_client_calls_before_finish:
  assumes "strict_output chunks = xs @ Inr p # ys" and "is_client_call p"
  shows "Inr p \<in> set chunks \<and> completes ys"
  using client_call_position [of default_strict_parts chunks xs p ys] assms by (auto simp: strict_output_from)

lemma strict_output_complete:
  assumes "\<not> list_ex is_finish parts"
  shows "if lifecycle (open_pairs s) parts \<and> no_late_input (completed_calls s) parts
         then output_from s (map Inr parts @ [Inr (Finish r u m)])
           = map Inr (filter (\<lambda>p. \<not> is_client_call p) parts
               @ (if unified r = FinishError then [] else held s @ filter is_client_call parts) @ [Finish r u m])
         else \<exists>n problem. n < length parts \<and> output_from s (map Inr parts @ [Inr (Finish r u m)])
           = map Inr (filter (\<lambda>p. \<not> is_client_call p) (take n parts)) @ [Inl (strict_error problem)]"
  using assms
proof (induction parts arbitrary: s)
  case Nil
  then show ?case
    by (auto simp: output_from_part rejection_def emitted_def is_client_call_def output_from_Nil sp_flags_advance is_finish_def)
next
  case (Cons p parts)
  have split: "lifecycle (open_pairs s) (p # parts) \<and> no_late_input (completed_calls s) (p # parts) \<longleftrightarrow>
      rejection s p = None \<and> lifecycle (open_pairs (advance s p)) parts
        \<and> no_late_input (completed_calls (advance s p)) parts"
    using accepted_iff [of s p] lifecycle_Cons [of s p parts] by (auto simp: completed_advance)
  show ?case
  proof (cases "rejection s p")
    case (Some problem)
    then show ?thesis unfolding split by (auto simp: output_from_part intro!: exI [of _ 0])
  next
    case None
    have nf: "\<not> is_finish p" "\<not> list_ex is_finish parts" using Cons.prems by auto
    have step: "output_from s (map Inr (p # parts) @ [Inr (Finish r u m)])
        = map Inr (if is_client_call p then [] else [p])
          @ output_from (advance s p) (map Inr parts @ [Inr (Finish r u m)])"
      using None nf by (simp add: output_from_part emitted_cases)
    show ?thesis
    proof (cases "lifecycle (open_pairs (advance s p)) parts \<and> no_late_input (completed_calls (advance s p)) parts")
      case True
      then show ?thesis using Cons.IH [OF nf(2), of "advance s p"] None nf(1)
        unfolding split step by (simp add: held_advance)
    next
      case False
      then obtain n problem where "n < length parts"
        "output_from (advance s p) (map Inr parts @ [Inr (Finish r u m)])
           = map Inr (filter (\<lambda>p. \<not> is_client_call p) (take n parts)) @ [Inl (strict_error problem)]"
        using Cons.IH [OF nf(2), of "advance s p"] by auto
      then show ?thesis using False None unfolding split step by (auto intro!: exI [of _ "Suc n"])
    qed
  qed
qed

text \<open>
  C15. Strict mode changes nothing else. An answer that ends with its only finish part is delivered with
  every part in order, except that the client tool calls move right before the finish part (and are
  dropped when it reports an error), exactly when its blocks are well formed and no input part comes
  after its tool call completed; otherwise the parts before some position are delivered (client calls
  withheld) and the stream fails there with a strict error.
\<close>

theorem strict_output_exact:
  assumes "\<not> list_ex is_finish parts"
  shows "if lifecycle {} parts \<and> no_late_input {} parts
         then strict_output (map Inr parts @ [Inr (Finish r u m)])
           = map Inr (filter (\<lambda>p. \<not> is_client_call p) parts
               @ (if unified r = FinishError then [] else filter is_client_call parts) @ [Finish r u m])
         else \<exists>n problem. n < length parts \<and> strict_output (map Inr parts @ [Inr (Finish r u m)])
           = map Inr (filter (\<lambda>p. \<not> is_client_call p) (take n parts)) @ [Inl (strict_error problem)]"
  using strict_output_complete [OF assms, of default_strict_parts r u m]
  unfolding default_strict_simps append_Nil strict_output_from .

text \<open>
  C16. Reading a strict stream item by item, as its consumer does, gives exactly the output the
  transformer computes on the whole input, and then the end of the stream.
\<close>

theorem strict_pull_complete:
  assumes "length (strict_output chunks) < fuel"
  shows "pull_all fuel strict_transform strict_flush (pipe_through (\<lambda>sk. sk) chunks default_strict_parts)
       = Some (strict_output chunks)"
  using strict.pull_all_remaining [of "pipe_through (\<lambda>sk. sk) chunks default_strict_parts" fuel] assms
  by (simp add: remaining_def pipe_through_def strict_output_def)

section \<open>Witnesses\<close>

definition demo_call :: stream_part where
  "demo_call = ToolCallPart \<lparr>rtc_tool_call_id = ''c1'', rtc_tool_name = ''search'', rtc_input = ''{}'',
     rtc_provider_executed = None, rtc_dynamic = None, rtc_provider_metadata = None\<rparr>"

definition demo_usage :: usage where
  "demo_usage = \<lparr>u_input_tokens = \<lparr>itu_total = None, itu_no_cache = None, itu_cache_read = None, itu_cache_write = None\<rparr>,
     u_output_tokens = \<lparr>otu_total = None, otu_text = None, otu_reasoning = None\<rparr>, u_raw = None\<rparr>"

definition demo_finish :: stream_part where
  "demo_finish = Finish \<lparr>unified = ToolCalls, fr_raw = None\<rparr> demo_usage None"

lemma demo_simps [simp]:
  "is_client_call demo_call" "tracked demo_call = None" "call_ids demo_call = {''c1''}"
  "\<not> is_finish demo_call" "\<not> is_client_call (TextDelta i d m)" "\<not> is_client_call (TextStart i m)"
  "\<not> is_finish (TextDelta i d m)" "\<not> is_finish (TextStart i m)"
  by (simp_all add: demo_call_def is_client_call_def call_ids_def is_finish_def)

lemma demo_output:
  "strict_output [Inr demo_call, Inr (TextStart ''t'' None), Inr demo_finish]
     = [Inr (TextStart ''t'' None), Inr demo_call, Inr demo_finish]"
  using strict_output_complete [of "[demo_call, TextStart ''t'' None]" default_strict_parts
      "\<lparr>unified = ToolCalls, fr_raw = None\<rparr>" demo_usage None]
  by (simp add: strict_output_from demo_finish_def late_input_def)

theorem strict_output_exact_witness:
  "strict_output (map Inr [demo_call, TextStart ''t'' None] @ [Inr (Finish \<lparr>unified = FinishError, fr_raw = None\<rparr> demo_usage None)])
     = map Inr ([TextStart ''t'' None, Finish \<lparr>unified = FinishError, fr_raw = None\<rparr> demo_usage None])"
  using strict_output_exact [of "[demo_call, TextStart ''t'' None]" "\<lparr>unified = FinishError, fr_raw = None\<rparr>" demo_usage None]
  by (simp add: late_input_def)

lemma strict_client_calls_before_finish_witness:
  "(Inr demo_call :: aimux_error + stream_part) \<in> set [Inr demo_call, Inr (TextStart ''t'' None), Inr demo_finish] \<and> completes [Inr demo_finish]"
  by (rule strict_client_calls_before_finish [of _ "[Inr (TextStart ''t'' None)]"]) (simp_all add: demo_output)

theorem strict_pull_complete_witness:
  "pull_all 4 strict_transform strict_flush
     (pipe_through (\<lambda>sk. sk) [Inr demo_call, Inr (TextStart ''t'' None), Inr demo_finish] default_strict_parts)
     = Some [Inr (TextStart ''t'' None), Inr demo_call, Inr demo_finish]"
  using strict_pull_complete [of "[Inr demo_call, Inr (TextStart ''t'' None), Inr demo_finish]" 4]
  by (simp only: demo_output) simp

end
