(* ===== verification/Tool_Arguments.thy ===== *)
theory Tool_Arguments
  imports Prelude
begin

text \<open>
  Structure tracking of streamed tool-call arguments
  (\<open>src/aimux-providers/src/stream/tool_call_arguments.rs\<close>), with the white space trimming of Rust's
  \<open>str\<close> it uses. Strings are their UTF-8 bytes; the open brackets are kept innermost first.
\<close>

section \<open>Trimming\<close>

text \<open>\<open>char::is_whitespace\<close> (the Unicode property \<open>White_Space\<close>) on the bytes of a character.\<close>

definition is_whitespace :: "string \<Rightarrow> bool" where
  "is_whitespace c \<longleftrightarrow> (case map of_char c :: nat list of
     [a] \<Rightarrow> 9 \<le> a \<and> a \<le> 13 \<or> a = 32
   | [a, b] \<Rightarrow> a = 0xC2 \<and> (b = 0x85 \<or> b = 0xA0)
   | [a, b, d] \<Rightarrow>
       a = 0xE1 \<and> b = 0x9A \<and> d = 0x80
       \<or> a = 0xE2 \<and> b = 0x80 \<and> (0x80 \<le> d \<and> d \<le> 0x8A \<or> d = 0xA8 \<or> d = 0xA9 \<or> d = 0xAF)
       \<or> a = 0xE2 \<and> b = 0x81 \<and> d = 0x9F
       \<or> a = 0xE3 \<and> b = 0x80 \<and> d = 0x80
   | _ \<Rightarrow> False)"

definition str_trim_start :: "string \<Rightarrow> string" where
  "str_trim_start s = concat (dropWhile is_whitespace (utf8_chars s))"

definition str_trim :: "string \<Rightarrow> string" where
  "str_trim s = concat (rev (dropWhile is_whitespace (rev (dropWhile is_whitespace (utf8_chars s)))))"

section \<open>The argument state\<close>

definition is_opening :: "char \<Rightarrow> bool" where
  "is_opening b \<longleftrightarrow> b = CHR ''{'' \<or> b = CHR ''[''"

definition is_closing :: "char \<Rightarrow> bool" where
  "is_closing b \<longleftrightarrow> b = CHR ''}'' \<or> b = CHR '']''"

definition starts_with_structured_value :: "string option \<Rightarrow> bool" where
  "starts_with_structured_value v \<longleftrightarrow>
     (case v of None \<Rightarrow> False
      | Some v \<Rightarrow> (case str_trim_start v of b # _ \<Rightarrow> is_opening b | [] \<Rightarrow> False))"

datatype argument_structure = Undetermined | OtherValue | Opened "string" bool bool | Complete

definition opening_of :: "char \<Rightarrow> char" where
  "opening_of b = (if b = CHR ''}'' then CHR ''{'' else CHR ''['')"

fun scan :: "string \<Rightarrow> string \<Rightarrow> bool \<Rightarrow> bool \<Rightarrow> argument_structure" where
  "scan [] stack in_string escaped = Opened stack in_string escaped"
| "scan (b # rest) stack in_string escaped =
     (if in_string then
        (if escaped then scan rest stack True False
         else if b = CHR 0x5C then scan rest stack True True
         else if b = CHR 0x22 then scan rest stack False escaped
         else scan rest stack True escaped)
      else if b = CHR 0x22 then scan rest stack True escaped
      else if is_opening b then scan rest (b # stack) in_string escaped
      else if is_closing b then
        (case stack of
           [] \<Rightarrow> OtherValue
         | a # stack' \<Rightarrow>
             if a \<noteq> opening_of b then OtherValue
             else if stack' = [] then Complete
             else scan rest stack' in_string escaped)
      else scan rest stack in_string escaped)"

definition append_arguments :: "argument_structure \<Rightarrow> string \<Rightarrow> argument_structure" where
  "append_arguments st d = (case st of
     Undetermined \<Rightarrow>
       (case str_trim_start d of
          [] \<Rightarrow> Undetermined
        | b # rest \<Rightarrow> if is_opening b then scan (b # rest) [] False False else OtherValue)
   | Opened stack in_string escaped \<Rightarrow> scan d stack in_string escaped
   | _ \<Rightarrow> st)"

definition new_argument_state :: "string \<Rightarrow> argument_structure" where
  "new_argument_state initial_value = append_arguments Undetermined initial_value"

definition has_complete_structured_value :: "argument_structure \<Rightarrow> bool" where
  "has_complete_structured_value st \<longleftrightarrow> st = Complete"

section \<open>Fragments\<close>

text \<open>A fragment is a string of its own, so it never begins inside a character.\<close>

definition char_boundary :: "string \<Rightarrow> bool" where
  "char_boundary s \<longleftrightarrow> (case s of [] \<Rightarrow> True | c # _ \<Rightarrow> \<not> is_continuation c)"

lemma takeWhile_continuation_append:
  assumes "char_boundary t"
  shows "takeWhile is_continuation (s @ t) = takeWhile is_continuation s"
    and "dropWhile is_continuation (s @ t) = dropWhile is_continuation s @ t"
  using assms by (induction s) (auto simp: char_boundary_def split: list.splits)

lemma utf8_chars_append:
  "char_boundary t \<Longrightarrow> utf8_chars (s @ t) = utf8_chars s @ utf8_chars t"
proof (induction s rule: utf8_chars.induct)
  case (2 c cs)
  then show ?case by (simp add: takeWhile_continuation_append)
qed simp

lemma utf8_chars_nonempty: "c \<in> set (utf8_chars s) \<Longrightarrow> c \<noteq> []"
  by (induction s rule: utf8_chars.induct) auto

lemma dropWhile_append_if:
  "dropWhile P (xs @ ys) = (if dropWhile P xs = [] then dropWhile P ys else dropWhile P xs @ ys)"
  by (induction xs) auto

lemma concat_eq_Nil_nonempty: "(\<And>c. c \<in> set cs \<Longrightarrow> c \<noteq> []) \<Longrightarrow> concat cs = [] \<longleftrightarrow> cs = []"
  by (cases cs) auto

lemma concat_dropWhile_chars:
  "concat (dropWhile P (utf8_chars s)) = [] \<longleftrightarrow> dropWhile P (utf8_chars s) = []"
  by (rule concat_eq_Nil_nonempty) (blast dest: set_dropWhileD utf8_chars_nonempty)

lemma str_trim_start_append:
  assumes "char_boundary t"
  shows "str_trim_start (s @ t) = (if str_trim_start s = [] then str_trim_start t else str_trim_start s @ t)"
proof -
  have "str_trim_start s = [] \<longleftrightarrow> dropWhile is_whitespace (utf8_chars s) = []"
    by (simp only: str_trim_start_def concat_dropWhile_chars)
  then show ?thesis using assms
    by (simp only: str_trim_start_def [of "s @ t"] utf8_chars_append dropWhile_append_if)
       (simp add: str_trim_start_def)
qed

lemma str_trim_empty_iff: "str_trim s = [] \<longleftrightarrow> str_trim_start s = []"
proof -
  let ?cs = "dropWhile is_whitespace (utf8_chars s)"
  let ?ds = "rev (dropWhile is_whitespace (rev ?cs))"
  have "set ?ds \<subseteq> set (utf8_chars s)"
    using set_dropWhileD [of _ is_whitespace "rev ?cs"] set_dropWhileD [of _ is_whitespace "utf8_chars s"] by auto
  then have "str_trim s = [] \<longleftrightarrow> ?ds = []"
    unfolding str_trim_def using utf8_chars_nonempty by (intro concat_eq_Nil_nonempty) blast
  also have "\<dots> \<longleftrightarrow> (\<forall>c\<in>set ?cs. is_whitespace c)" by (simp add: dropWhile_eq_Nil_conv)
  also have "\<dots> \<longleftrightarrow> ?cs = []" using hd_dropWhile [of is_whitespace "utf8_chars s"] by (metis list.set_sel(1) list.set(1) empty_iff)
  finally show ?thesis by (simp only: str_trim_start_def concat_dropWhile_chars)
qed

lemma append_arguments_simps [simp]:
  "append_arguments (Opened stack in_string escaped) t = scan t stack in_string escaped"
  "append_arguments OtherValue t = OtherValue"
  "append_arguments Complete t = Complete"
  by (simp_all add: append_arguments_def)

lemma scan_append:
  "scan (s @ t) stack in_string escaped = append_arguments (scan s stack in_string escaped) t"
proof (induction s arbitrary: stack in_string escaped)
  case (Cons b s)
  show ?case by (cases stack) (simp_all add: Cons.IH)
qed simp

lemma append_arguments_step:
  assumes "char_boundary b"
  shows "append_arguments (append_arguments st a) b = append_arguments st (a @ b)"
proof (cases st)
  case Undetermined
  show ?thesis
  proof (cases "str_trim_start a")
    case Nil
    then show ?thesis using assms Undetermined by (simp add: append_arguments_def str_trim_start_append)
  next
    case (Cons c rest)
    have scan: "append_arguments (scan (c # rest) [] False False) b = scan (c # rest @ b) [] False False"
      using scan_append [of "c # rest" b "[]" False False] by (simp del: scan.simps)
    have feed: "append_arguments Undetermined x = (if is_opening c then scan (c # y) [] False False else OtherValue)"
      if "str_trim_start x = c # y" for x y
      using that by (simp add: append_arguments_def del: scan.simps)
    show ?thesis using assms Cons
      by (simp add: Undetermined feed [of a rest] feed [of "a @ b" "rest @ b"] str_trim_start_append scan del: scan.simps)
  qed
qed (simp_all add: scan_append)

text \<open>
  The structure seen so far does not depend on how the arguments were cut into fragments: feeding
  two fragments is feeding their concatenation, in every state.
\<close>

lemma append_arguments_fragments:
  assumes "char_boundary b"
  shows "append_arguments (append_arguments st a) b = append_arguments st (a @ b)"
  using assms by (rule append_arguments_step)

theorem append_arguments_fragments_witness:
  "append_arguments (append_arguments Undetermined ''  {1'') ''}'' = append_arguments Undetermined ''  {1}''"
  using append_arguments_fragments [of "''}''" Undetermined "''  {1''"] by (simp add: char_boundary_def is_continuation_def)

section \<open>What a complete value is\<close>

text \<open>
  The reference grammar: a structured value is a bracket, contents and the matching bracket; contents
  are other characters, string literals with backslash escapes, and structured values.
\<close>

definition closing_of :: "char \<Rightarrow> char" where
  "closing_of b = (if b = CHR ''{'' then CHR ''}'' else CHR '']'')"

definition is_plain :: "char \<Rightarrow> bool" where
  "is_plain b \<longleftrightarrow> b \<noteq> CHR 0x22 \<and> \<not> is_opening b \<and> \<not> is_closing b"

inductive string_tail :: "string \<Rightarrow> bool" where
  tail_end: "string_tail [CHR 0x22]"
| tail_char: "b \<noteq> CHR 0x22 \<Longrightarrow> b \<noteq> CHR 0x5C \<Longrightarrow> string_tail t \<Longrightarrow> string_tail (b # t)"
| tail_escape: "string_tail t \<Longrightarrow> string_tail (CHR 0x5C # b # t)"

inductive contents :: "string \<Rightarrow> bool" and structured :: "string \<Rightarrow> bool" where
  contents_nil: "contents []"
| contents_plain: "is_plain b \<Longrightarrow> contents c \<Longrightarrow> contents ([b] @ c)"
| contents_string: "string_tail t \<Longrightarrow> contents c \<Longrightarrow> contents ((CHR 0x22 # t) @ c)"
| contents_value: "structured v \<Longrightarrow> contents c \<Longrightarrow> contents (v @ c)"
| structured_value: "is_opening b \<Longrightarrow> contents c \<Longrightarrow> structured (b # c @ [closing_of b])"

lemma bracket_facts:
  assumes "is_opening b"
  shows "b \<noteq> CHR 0x22" "closing_of b \<noteq> CHR 0x22" "\<not> is_opening (closing_of b)" "is_closing (closing_of b)"
    "opening_of (closing_of b) = b"
  using assms by (auto simp: is_opening_def closing_of_def is_closing_def opening_of_def)

lemma closing_opening: "is_closing b \<Longrightarrow> closing_of (opening_of b) = b"
  by (auto simp: is_closing_def closing_of_def opening_of_def)

lemma scan_string_tail: "string_tail t \<Longrightarrow> scan (t @ r) stack True False = scan r stack False False"
  by (induction rule: string_tail.induct) simp_all

lemma scan_grammar:
  "contents c \<Longrightarrow> stack \<noteq> [] \<Longrightarrow> scan (c @ r) stack False False = scan r stack False False"
  "structured v \<Longrightarrow> scan (v @ r) stack False False = (if stack = [] then Complete else scan r stack False False)"
proof (induction arbitrary: stack r and stack r rule: contents_structured.inducts)
  case (contents_string t c)
  then show ?case using scan_string_tail [of t "c @ r" stack] by simp
next
  case (structured_value b c)
  then show ?case using structured_value.IH [of "b # stack" "closing_of b # r"] by (simp add: bracket_facts)
qed (simp_all add: is_plain_def)

text \<open>What closes every open bracket of a stack.\<close>

inductive closes :: "string \<Rightarrow> string \<Rightarrow> bool" where
  closes_last: "contents c \<Longrightarrow> closes [b] (c @ [closing_of b])"
| closes_more: "contents c \<Longrightarrow> closes stack t \<Longrightarrow> closes (b # stack) (c @ closing_of b # t)"

lemma closes_nonempty: "closes stack t \<Longrightarrow> stack \<noteq> []"
  by (cases rule: closes.cases) auto

lemma closes_extend:
  assumes "closes stack t" and "\<And>c. contents c \<Longrightarrow> contents (x @ c)"
  shows "closes stack (x @ t)"
  using assms(1)
proof cases
  case (closes_last c b)
  then show ?thesis using assms(2) closes.closes_last [of "x @ c" b] by simp
next
  case (closes_more c stack' t' b)
  then show ?thesis using assms(2) closes.closes_more [of "x @ c" stack' t' b] by simp
qed

lemma closes_inner:
  assumes "closes (b # stack) t" and "stack \<noteq> []" and "is_opening b"
  shows "closes stack (b # t)"
  using assms(1)
proof cases
  case (closes_more c t')
  have "closes stack ((b # c @ [closing_of b]) @ t')"
    using closes_more assms(3) by (intro closes_extend) (blast intro: contents_value structured_value)+
  then show ?thesis using closes_more by simp
qed (use assms(2) in simp)

definition escaped_tail :: "bool \<Rightarrow> string \<Rightarrow> bool" where
  "escaped_tail escaped t \<longleftrightarrow> (if escaped then t \<noteq> [] \<and> string_tail (tl t) else string_tail t)"

lemma escaped_tail_Cons:
  "escaped_tail True (b # t) = escaped_tail False t"
  "escaped_tail True t \<Longrightarrow> escaped_tail False (CHR 0x5C # t)"
  "b \<noteq> CHR 0x22 \<Longrightarrow> b \<noteq> CHR 0x5C \<Longrightarrow> escaped_tail False t \<Longrightarrow> escaped_tail False (b # t)"
  "escaped_tail False [CHR 0x22]"
  by (auto simp: escaped_tail_def neq_Nil_conv intro: string_tail.intros)

text \<open>Where the scan completes, the text begins with what closes the stack, after the rest of an open string.\<close>

definition completes_after :: "string \<Rightarrow> bool \<Rightarrow> bool \<Rightarrow> string \<Rightarrow> bool" where
  "completes_after stack in_string escaped s \<longleftrightarrow>
     (\<exists>lit t r. s = lit @ t @ r \<and> closes stack t \<and> (if in_string then escaped_tail escaped lit else lit = []))"

lemma completes_afterI:
  "closes stack t \<Longrightarrow> (if in_string then escaped_tail escaped lit else lit = []) \<Longrightarrow>
     completes_after stack in_string escaped (lit @ t @ r)"
  unfolding completes_after_def by blast

lemma completes_afterE:
  assumes "completes_after stack in_string escaped s"
  obtains lit t r where "s = lit @ t @ r" "closes stack t" "if in_string then escaped_tail escaped lit else lit = []"
  using assms unfolding completes_after_def by blast

lemma completes_string:
  "completes_after stack True e s \<Longrightarrow> (\<And>lit. escaped_tail e lit \<Longrightarrow> escaped_tail e' (b # lit)) \<Longrightarrow>
     completes_after stack True e' (b # s)"
  by (erule completes_afterE) (auto simp: completes_after_def append_Cons [symmetric] simp del: append_Cons)

lemma completes_string_end: "completes_after stack False e s \<Longrightarrow> completes_after stack True False (CHR 0x22 # s)"
  using completes_afterI [of stack _ True False "[CHR 0x22]"]
  by (elim completes_afterE) (simp add: escaped_tail_Cons)

lemma completes_front:
  assumes "\<And>t. closes stack t \<Longrightarrow> closes stack' (x @ t)"
  shows "completes_after stack False e s \<Longrightarrow> completes_after stack' False e' (x @ s)"
  using completes_afterI [of stack' _ False e' "[]"] assms
  by (elim completes_afterE) fastforce

lemma completes_string_begin:
  assumes "completes_after stack True False s"
  shows "completes_after stack False e (CHR 0x22 # s)"
proof -
  from assms obtain lit t r where s: "s = lit @ t @ r" "closes stack t" "string_tail lit"
    by (auto elim!: completes_afterE simp: escaped_tail_def)
  have "closes stack ((CHR 0x22 # lit) @ t)"
    using s by (intro closes_extend) (auto intro: contents_string simp del: append_Cons)
  then show ?thesis using completes_afterI [of stack "(CHR 0x22 # lit) @ t" False e "[]" r] s by simp
qed

lemma scan_complete:
  assumes "scan s stack in_string escaped = Complete" and "stack \<noteq> []" and "list_all is_opening stack"
    and "in_string \<or> \<not> escaped"
  shows "completes_after stack in_string escaped s"
  using assms
proof (induction s arbitrary: stack in_string escaped)
  case (Cons b s)

  consider (esc) "in_string" "escaped" | (bs) "in_string" "\<not> escaped" "b = CHR 0x5C"
    | (quote) "in_string" "\<not> escaped" "b = CHR 0x22"
    | (char) "in_string" "\<not> escaped" "b \<noteq> CHR 0x5C" "b \<noteq> CHR 0x22"
    | (begins) "\<not> in_string" "b = CHR 0x22"
    | (opens) "\<not> in_string" "is_opening b" "b \<noteq> CHR 0x22"
    | (closing) "\<not> in_string" "is_closing b" "\<not> is_opening b" "b \<noteq> CHR 0x22"
    | (plain) "\<not> in_string" "is_plain b"
    unfolding is_plain_def by blast
  then show ?case
  proof cases
    case esc
    then show ?thesis using Cons.IH [of stack True False] Cons.prems
      by (auto intro: completes_string simp: escaped_tail_Cons)
  next
    case bs
    then show ?thesis using Cons.IH [of stack True True] Cons.prems
      by (auto intro!: completes_string intro: escaped_tail_Cons)
  next
    case quote
    then show ?thesis using Cons.IH [of stack False False] Cons.prems by (auto intro: completes_string_end)
  next
    case char
    then show ?thesis using Cons.IH [of stack True False] Cons.prems
      by (auto intro!: completes_string intro: escaped_tail_Cons)
  next
    case begins
    then show ?thesis using Cons.IH [of stack True False] Cons.prems by (auto intro: completes_string_begin)
  next
    case opens
    then have "completes_after (b # stack) False False s" using Cons.IH [of "b # stack" False False] Cons.prems by auto
    then have "completes_after stack False escaped ([b] @ s)"
      using opens Cons.prems(2) by (elim completes_front [rotated]) (auto intro: closes_inner)
    then show ?thesis using opens by simp
  next
    case closing
    then obtain stack' where st: "stack = opening_of b # stack'" "stack' = [] \<or> scan s stack' False False = Complete"
      using Cons.prems by (cases stack) (auto split: if_splits)
    show ?thesis
    proof (cases "stack' = []")
      case True
      then show ?thesis
        using closing st closes_last [OF contents_nil, of "opening_of b"]
          completes_afterI [of stack "[b]" in_string escaped "[]" s] by (simp add: closing_opening)
    next
      case False
      then have "completes_after stack' False False s" using Cons.IH [of stack' False False] Cons.prems st by auto
      then have "completes_after stack False escaped ([b] @ s)"
        using closes_more [OF contents_nil, of stack' _ "opening_of b"] closing st
        by (elim completes_front [rotated]) (simp add: closing_opening)
      then show ?thesis using closing by simp
    qed
  next
    case plain
    then have "completes_after stack False False s"
      using Cons.IH [of stack False False] Cons.prems by (auto simp: is_plain_def)
    then have "completes_after stack False escaped ([b] @ s)"
      using plain by (elim completes_front [rotated]) (blast intro: closes_extend contents_plain)
    then show ?thesis using plain by simp
  qed
qed simp

lemma scan_complete_iff:
  assumes "is_opening b"
  shows "scan (b # s) [] False False = Complete \<longleftrightarrow> (\<exists>v r. b # s = v @ r \<and> structured v)"
proof
  assume "scan (b # s) [] False False = Complete"
  then have "completes_after [b] False False s"
    using assms scan_complete [of s "[b]" False False] by (simp add: bracket_facts)
  then obtain t r where "s = t @ r" "closes [b] t" by (auto elim: completes_afterE)
  moreover from this(2) obtain c where "t = c @ [closing_of b]" "contents c"
    by cases (auto dest: closes_nonempty)
  ultimately have "b # s = (b # c @ [closing_of b]) @ r" "structured (b # c @ [closing_of b])"
    using assms by (auto intro: structured_value)
  then show "\<exists>v r. b # s = v @ r \<and> structured v" by blast
next
  assume "\<exists>v r. b # s = v @ r \<and> structured v"
  then obtain v r where "b # s = v @ r" "structured v" by blast
  then show "scan (b # s) [] False False = Complete" using scan_grammar(2) [of v r "[]"] by simp
qed

lemma structured_opening: "structured v \<Longrightarrow> v \<noteq> [] \<and> is_opening (hd v)"
  by (cases rule: structured.cases) auto

text \<open>
  C22. The tracker reports a complete value exactly when the arguments, after leading white space,
  begin with a well-bracketed object or array of the reference grammar (string literals respected).
\<close>

theorem complete_iff_structured:
  "has_complete_structured_value (new_argument_state s)
     \<longleftrightarrow> (\<exists>v rest. str_trim_start s = v @ rest \<and> structured v)"
proof (cases "str_trim_start s")
  case Nil
  then show ?thesis using structured_opening
    by (auto simp: has_complete_structured_value_def new_argument_state_def append_arguments_def)
next
  case (Cons b t)
  show ?thesis
  proof (cases "is_opening b")
    case True
    then show ?thesis using scan_complete_iff [OF True, of t] Cons
      by (simp add: has_complete_structured_value_def new_argument_state_def append_arguments_def del: scan.simps)
  next
    case False
    then have "\<not> structured v" if "b # t = v @ rest" for v rest
      using that structured_opening [of v] by (auto simp: Cons_eq_append_conv)
    then show ?thesis using False Cons
      by (auto simp: has_complete_structured_value_def new_argument_state_def append_arguments_def)
  qed
qed

end
