(* ===== verification/Tool_Calls.thy ===== *)
theory Tool_Calls
  imports Strict_Parts Tool_Arguments "HOL-Library.Multiset"
begin

text \<open>
  The tool calls of a chat-completions stream (\<open>src/aimux-providers/src/stream/chat_tool_calls.rs\<close>) with
  the emitter of stream parts and the stream context of \<open>src/aimux-providers/src/stream/mod.rs\<close>: fragments
  are matched to calls by id, index and name, every fragment is emitted as it arrives, and every call
  is ended when the stream flushes. The id generator is the argument \<open>generate_id\<close>, its k-th result for
  the k-th call of it.
\<close>

section \<open>Emitting parts\<close>

type_synonym part_controller = "stream_part controller"

definition text_start :: "string \<Rightarrow> part_controller \<Rightarrow> part_controller" where
  "text_start i = enqueue (TextStart i None)"

definition text_delta :: "string \<Rightarrow> string \<Rightarrow> part_controller \<Rightarrow> part_controller" where
  "text_delta i d = enqueue (TextDelta i d None)"

definition text_end :: "string \<Rightarrow> part_controller \<Rightarrow> part_controller" where
  "text_end i = enqueue (TextEnd i None)"

definition reasoning_start :: "string \<Rightarrow> part_controller \<Rightarrow> part_controller" where
  "reasoning_start i = enqueue (ReasoningStart i None)"

definition reasoning_delta :: "string \<Rightarrow> string \<Rightarrow> part_controller \<Rightarrow> part_controller" where
  "reasoning_delta i d = enqueue (ReasoningDelta i d None)"

definition reasoning_end :: "string \<Rightarrow> part_controller \<Rightarrow> part_controller" where
  "reasoning_end i = enqueue (ReasoningEnd i None)"

definition tool_input_start :: "string \<Rightarrow> string \<Rightarrow> part_controller \<Rightarrow> part_controller" where
  "tool_input_start i tool_name = enqueue (ToolInputStart i tool_name None None None None)"

definition tool_input_delta :: "string \<Rightarrow> string \<Rightarrow> part_controller \<Rightarrow> part_controller" where
  "tool_input_delta i d = enqueue (ToolInputDelta i d None)"

definition tool_input_end :: "string \<Rightarrow> part_controller \<Rightarrow> part_controller" where
  "tool_input_end i = enqueue (ToolInputEnd i None)"

lemmas emit_defs = text_start_def text_delta_def text_end_def reasoning_start_def reasoning_delta_def
  reasoning_end_def tool_input_start_def tool_input_delta_def tool_input_end_def

text \<open>The request a stream answers.\<close>

record stream_context =
  sc_warnings :: "warning list"
  include_raw_chunks :: bool
  sc_url :: string
  sc_request_body :: json
  sc_response_headers :: "(string \<times> string) list"
  sc_strict :: bool

definition new_stream_context ::
  "bool option \<Rightarrow> bool option \<Rightarrow> warning list \<Rightarrow> string \<Rightarrow> json \<Rightarrow> (string \<times> string) list \<Rightarrow> stream_context" where
  "new_stream_context include_raw strict_stream warnings url body headers =
     \<lparr>sc_warnings = warnings, include_raw_chunks = (include_raw = Some True), sc_url = url,
      sc_request_body = body, sc_response_headers = headers, sc_strict = (strict_stream = Some True)\<rparr>"

definition context_start :: "stream_context \<Rightarrow> part_controller \<Rightarrow> stream_context \<times> part_controller" where
  "context_start c k = (c\<lparr>sc_warnings := []\<rparr>, enqueue (StreamStart (sc_warnings c)) k)"

definition fail_without_terminal ::
  "stream_context \<Rightarrow> bool \<Rightarrow> string \<Rightarrow> part_controller \<Rightarrow> bool \<times> part_controller" where
  "fail_without_terminal c terminal_seen terminal k =
     (if sc_strict c \<and> \<not> terminal_seen
      then (True, ctl_error (strict_error (''the stream ended without '' @ terminal)) k)
      else (False, k))"

definition context_raw :: "stream_context \<Rightarrow> json \<Rightarrow> part_controller \<Rightarrow> part_controller" where
  "context_raw c chunk k = (if include_raw_chunks c then enqueue (RawPart chunk) k else k)"

definition FINISH_OTHER :: finish_reason where "FINISH_OTHER = \<lparr>unified = FinishOther, fr_raw = None\<rparr>"
definition FINISH_ERROR :: finish_reason where "FINISH_ERROR = \<lparr>unified = FinishError, fr_raw = None\<rparr>"

section \<open>Calls and deltas\<close>

record tool_call_delta =
  d_index :: "usize option"
  d_id :: "string option"
  d_name :: "string option"
  d_arguments :: "string option"
  d_invalid_type :: bool
  d_provider_metadata :: "provider_metadata option"

record tool_call =
  tc_id :: string
  tc_name :: string
  tc_arguments :: string
  tc_argument_state :: argument_structure
  tc_index :: "usize option"
  tc_wire_ids :: "string list"
  tc_indices :: "usize list"
  tc_provider_metadata :: "provider_metadata option"

text \<open>\<open>ChatToolCalls\<close>: the calls in arrival order, and how often the generator was asked.\<close>

record chat_tool_calls =
  calls :: "tool_call list"
  generated :: nat

definition new_tool_calls :: chat_tool_calls where
  "new_tool_calls = \<lparr>calls = [], generated = 0\<rparr>"

definition FALLBACK_TOOL_CALL_ID :: string where "FALLBACK_TOOL_CALL_ID = ''tool-call''"

definition non_blank :: "string option \<Rightarrow> string option" where
  "non_blank v = (case v of Some s \<Rightarrow> if str_trim s = [] then None else Some s | None \<Rightarrow> None)"

definition invalid_delta :: "string \<Rightarrow> part_controller \<Rightarrow> bool \<times> part_controller" where
  "invalid_delta message k = (False, ctl_error (InvalidResponseData message None) k)"

definition strict_invalid :: "string \<Rightarrow> part_controller \<Rightarrow> bool \<times> part_controller" where
  "strict_invalid problem k = (False, ctl_error (strict_error problem) k)"

section \<open>Matching a delta to a call\<close>

datatype resolution = Existing nat | NewCall | Ambiguous

definition matching :: "tool_call list \<Rightarrow> (tool_call \<Rightarrow> bool) \<Rightarrow> bool \<Rightarrow> resolution" where
  "matching cs predicate explicit_start =
     (let candidates = filter (\<lambda>(_, c). predicate c) (enumerate 0 cs);
          continuable = filter (\<lambda>(_, c). \<not> has_complete_structured_value (tc_argument_state c)) candidates
      in if candidates = [] then NewCall
         else if length candidates = 1 \<and> \<not> explicit_start then Existing (fst (hd candidates))
         else (case continuable of
                 [(call, _)] \<Rightarrow> Existing call
               | [] \<Rightarrow> if explicit_start then NewCall else Ambiguous
               | _ \<Rightarrow> Ambiguous))"

definition resolve ::
  "tool_call list \<Rightarrow> string option \<Rightarrow> usize option \<Rightarrow> string option \<Rightarrow> bool \<Rightarrow> bool \<Rightarrow> resolution" where
  "resolve cs wire_id index name explicit_start empty_arguments =
     (let at_index = (\<lambda>c. case index of Some i \<Rightarrow> i \<in> set (tc_indices c) | None \<Rightarrow> False);
          named = (\<lambda>c. case name of Some n \<Rightarrow> tc_name c = n | None \<Rightarrow> True);
          index_known = list_ex at_index cs
      in case wire_id of
           None \<Rightarrow>
             if index_known then matching cs (\<lambda>c. at_index c \<and> named c) explicit_start
             else if name \<noteq> None then NewCall
             else matching cs (\<lambda>_. True) False
         | Some wid \<Rightarrow>
             (let has_id = (\<lambda>c. wid \<in> set (tc_wire_ids c)) in
              if \<not> list_ex has_id cs then
                (if explicit_start then NewCall
                 else matching cs (\<lambda>c. at_index c \<and> named c) (name \<noteq> None \<and> empty_arguments))
              else if index = None then
                (case name of
                   Some n \<Rightarrow> matching cs (\<lambda>c. has_id c \<and> tc_name c = n) explicit_start
                 | None \<Rightarrow> matching cs has_id False)
              else
                (let r = matching cs (\<lambda>c. has_id c \<and> at_index c \<and> named c) explicit_start in
                 if r \<noteq> NewCall then r
                 else if name \<noteq> None then NewCall
                 else if index_known then Ambiguous
                 else matching cs has_id False)))"

section \<open>Starting and continuing calls\<close>

definition id_used :: "tool_call list \<Rightarrow> string \<Rightarrow> bool" where
  "id_used cs i \<longleftrightarrow> list_ex (\<lambda>c. tc_id c = i) cs"

definition suffixed :: "string \<Rightarrow> nat \<Rightarrow> string" where
  "suffixed g n = g @ ''-'' @ show_nat n"

definition unique_generated :: "(nat \<Rightarrow> string) \<Rightarrow> chat_tool_calls \<Rightarrow> string \<times> chat_tool_calls" where
  "unique_generated generate_id s =
     (let g = unwrap_or FALLBACK_TOOL_CALL_ID (non_blank (Some (generate_id (generated s))));
          s' = s\<lparr>generated := Suc (generated s)\<rparr>;
          n = length (calls s)
      in if \<not> id_used (calls s) g then (g, s')
         else (suffixed g (unwrap_or (n + 1)
                (find (\<lambda>k. \<not> id_used (calls s) (suffixed g k)) [1..<Suc n])), s'))"

definition unique_id :: "(nat \<Rightarrow> string) \<Rightarrow> string option \<Rightarrow> chat_tool_calls \<Rightarrow> string \<times> chat_tool_calls" where
  "unique_id generate_id wire_id s =
     (case wire_id of
        Some w \<Rightarrow> if \<not> id_used (calls s) w then (w, s) else unique_generated generate_id s
      | None \<Rightarrow> unique_generated generate_id s)"

definition start_call ::
  "(nat \<Rightarrow> string) \<Rightarrow> string option \<Rightarrow> usize option \<Rightarrow> string \<Rightarrow> string \<Rightarrow> provider_metadata option \<Rightarrow>
   chat_tool_calls \<times> part_controller \<Rightarrow> nat \<times> chat_tool_calls \<times> part_controller" where
  "start_call generate_id wire_id index name arguments md sk =
     (case unique_id generate_id wire_id (fst sk) of (i, s) \<Rightarrow>
        let k = tool_input_start i name (snd sk);
            k' = (if arguments \<noteq> [] then tool_input_delta i arguments k else k);
            c = \<lparr>tc_id = i, tc_name = name, tc_arguments = arguments,
                 tc_argument_state = new_argument_state arguments, tc_index = index,
                 tc_wire_ids = (case wire_id of Some w \<Rightarrow> [w] | None \<Rightarrow> []), tc_indices = [],
                 tc_provider_metadata = md\<rparr>
        in (length (calls s), s\<lparr>calls := calls s @ [c]\<rparr>, k'))"

text \<open>\<open>self.calls[call]\<close> is replaced by an updated call.\<close>

definition modify_call :: "nat \<Rightarrow> (tool_call \<Rightarrow> tool_call) \<Rightarrow> chat_tool_calls \<Rightarrow> chat_tool_calls" where
  "modify_call n f s = s\<lparr>calls := (calls s)[n := f (calls s ! n)]\<rparr>"

definition add_wire_id :: "string option \<Rightarrow> tool_call \<Rightarrow> tool_call" where
  "add_wire_id wire_id c = (case wire_id of
     Some w \<Rightarrow> if w \<notin> set (tc_wire_ids c) then c\<lparr>tc_wire_ids := tc_wire_ids c @ [w]\<rparr> else c
   | None \<Rightarrow> c)"

definition add_index :: "usize option \<Rightarrow> tool_call \<Rightarrow> tool_call" where
  "add_index index c = (case index of
     Some i \<Rightarrow> if i \<notin> set (tc_indices c) then c\<lparr>tc_indices := tc_indices c @ [i]\<rparr> else c
   | None \<Rightarrow> c)"

definition add_arguments :: "string \<Rightarrow> tool_call \<Rightarrow> tool_call" where
  "add_arguments a c = c\<lparr>tc_argument_state := append_arguments (tc_argument_state c) a,
                         tc_arguments := tc_arguments c @ a\<rparr>"

definition continue_call ::
  "nat \<Rightarrow> string option \<Rightarrow> chat_tool_calls \<times> part_controller \<Rightarrow> chat_tool_calls \<times> part_controller" where
  "continue_call n arguments sk = (case arguments of
     Some a \<Rightarrow> (modify_call n (add_arguments a) (fst sk), tool_input_delta (tc_id (calls (fst sk) ! n)) a (snd sk))
   | None \<Rightarrow> sk)"

definition tool_delta ::
  "(nat \<Rightarrow> string) \<Rightarrow> tool_call_delta \<Rightarrow> chat_tool_calls \<times> part_controller \<Rightarrow>
   bool \<times> chat_tool_calls \<times> part_controller" where
  "tool_delta generate_id d sk =
     (let wire_id = non_blank (d_id d);
          name = non_blank (d_name d);
          explicit_start = (name \<noteq> None \<and> starts_with_structured_value (d_arguments d));
          empty_arguments = (case d_arguments d of None \<Rightarrow> True | Some a \<Rightarrow> str_trim a = [])
      in case resolve (calls (fst sk)) wire_id (d_index d) name explicit_start empty_arguments of
           Ambiguous \<Rightarrow> (True, sk)
         | NewCall \<Rightarrow>
             if d_name d \<noteq> None \<and> name = None then (True, sk)
             else if d_invalid_type d
             then (case invalid_delta (''Expected '' @ sq @ ''function'' @ sq @ '' type.'') (snd sk) of (r, k) \<Rightarrow> (r, fst sk, k))
             else (case name of
                None \<Rightarrow> (case invalid_delta (''Expected '' @ sq @ ''function.name'' @ sq @ '' to be a string.'') (snd sk) of (r, k) \<Rightarrow> (r, fst sk, k))
              | Some n \<Rightarrow>
                  (case start_call generate_id wire_id (d_index d) n (unwrap_or [] (d_arguments d))
                          (d_provider_metadata d) sk of
                     (call, s, k) \<Rightarrow> (True, modify_call call (add_index (d_index d)) s, k)))
         | Existing call \<Rightarrow>
             (case continue_call call (d_arguments d) (modify_call call (add_wire_id wire_id) (fst sk), snd sk) of
                (s, k) \<Rightarrow> (True, modify_call call (add_index (d_index d)) s, k)))"

fun position :: "('a \<Rightarrow> bool) \<Rightarrow> 'a list \<Rightarrow> nat option" where
  "position P [] = None"
| "position P (x # xs) = (if P x then Some 0 else map_option Suc (position P xs))"

definition strict_delta ::
  "(nat \<Rightarrow> string) \<Rightarrow> tool_call_delta \<Rightarrow> chat_tool_calls \<times> part_controller \<Rightarrow>
   bool \<times> chat_tool_calls \<times> part_controller" where
  "strict_delta generate_id d sk =
     (let fail = (\<lambda>(r, k). (r, fst sk, k)) in
      case d_index d of
        None \<Rightarrow> fail (strict_invalid ''a tool call delta without an index'' (snd sk))
      | Some index \<Rightarrow>
          (case position (\<lambda>c. tc_index c = Some index) (calls (fst sk)) of
             None \<Rightarrow>
               (case (non_blank (d_id d), non_blank (d_name d)) of
                  (Some i, Some name) \<Rightarrow>
                    if d_invalid_type d then fail (invalid_delta (''Expected '' @ sq @ ''function'' @ sq @ '' type.'') (snd sk))
                    else if id_used (calls (fst sk)) i
                    then fail (strict_invalid (''tool call id `'' @ i @ ''` repeated at index '' @ show_nat (unat index)) (snd sk))
                    else (case start_call generate_id (Some i) (Some index) name (unwrap_or [] (d_arguments d))
                                 (d_provider_metadata d) sk of
                            (_, s, k) \<Rightarrow> (True, s, k))
                | _ \<Rightarrow> fail (strict_invalid (''tool call at index '' @ show_nat (unat index)
                               @ '' started without an id and a name'') (snd sk)))
           | Some call \<Rightarrow>
               (let c = calls (fst sk) ! call in
                if (case d_id d of Some i \<Rightarrow> i \<noteq> tc_id c | None \<Rightarrow> False)
                   \<or> (case d_name d of Some n \<Rightarrow> n \<noteq> tc_name c | None \<Rightarrow> False)
                then fail (strict_invalid (''tool call `'' @ tc_id c @ ''` at index '' @ show_nat (unat index)
                             @ '' changed its id or name'') (snd sk))
                else (case continue_call call (d_arguments d) sk of (s, k) \<Rightarrow> (True, s, k)))))"

definition no_calls :: "chat_tool_calls \<Rightarrow> bool" where
  "no_calls s \<longleftrightarrow> calls s = []"

definition call_part :: "tool_call \<Rightarrow> stream_part" where
  "call_part c = ToolCallPart \<lparr>rtc_tool_call_id = tc_id c, rtc_tool_name = tc_name c, rtc_input = tc_arguments c,
     rtc_provider_executed = None, rtc_dynamic = None, rtc_provider_metadata = tc_provider_metadata c\<rparr>"

definition finish_order :: "tool_call list \<Rightarrow> tool_call list" where
  "finish_order cs =
     (if list_all (\<lambda>c. tc_index c \<noteq> None) cs then sort_key (\<lambda>c. unat (the (tc_index c))) cs else cs)"

definition tool_finish :: "chat_tool_calls \<Rightarrow> part_controller \<Rightarrow> part_controller" where
  "tool_finish s k = fold (\<lambda>c k. enqueue (call_part c) (tool_input_end (tc_id c) k)) (finish_order (calls s)) k"

text \<open>The deltas of a stream, up to the first that ends it.\<close>

fun feed ::
  "(tool_call_delta \<Rightarrow> chat_tool_calls \<times> part_controller \<Rightarrow> bool \<times> chat_tool_calls \<times> part_controller) \<Rightarrow>
   tool_call_delta list \<Rightarrow> chat_tool_calls \<times> part_controller \<Rightarrow> bool \<times> chat_tool_calls \<times> part_controller" where
  "feed handle [] sk = (True, sk)"
| "feed handle (d # ds) sk =
     (case handle d sk of (ok, sk') \<Rightarrow> if ok then feed handle ds sk' else (False, sk'))"

section \<open>Identifiers\<close>

lemma suffixed_inject [simp]: "suffixed g m = suffixed g n \<longleftrightarrow> m = n" "suffixed g n \<noteq> g"
  by (simp_all add: suffixed_def)

lemma id_used_iff: "id_used cs i \<longleftrightarrow> i \<in> tc_id ` set cs"
  by (auto simp: id_used_def list_ex_iff)

text \<open>The pigeonhole bound of the source: with \<open>n\<close> calls, one of the first \<open>n\<close> suffixes is free.\<close>

lemma free_suffix:
  assumes "id_used cs g"
  shows "\<exists>k. find (\<lambda>k. \<not> id_used cs (suffixed g k)) [1..<Suc (length cs)] = Some k"
proof (rule ccontr)
  assume "\<not> ?thesis"
  then have "\<forall>k \<in> set [1..<Suc (length cs)]. id_used cs (suffixed g k)"
    by (metis find_None_iff not_Some_eq)
  then have "insert g (suffixed g ` {1..<Suc (length cs)}) \<subseteq> tc_id ` set cs"
    using assms by (auto simp: id_used_iff)
  then have "card (insert g (suffixed g ` {1..<Suc (length cs)})) \<le> card (tc_id ` set cs)"
    by (intro card_mono) auto
  also have "\<dots> \<le> length cs" using card_image_le [of "set cs" tc_id] card_length [of cs] by simp
  finally have le: "card (insert g (suffixed g ` {1..<Suc (length cs)})) \<le> length cs" .
  have "g \<notin> suffixed g ` {1..<Suc (length cs)}" using suffixed_inject(2) by (metis imageE)
  moreover have "card (suffixed g ` {1..<Suc (length cs)}) = length cs"
    by (subst card_image) (auto intro: inj_onI)
  ultimately show False using le by simp
qed

lemma unique_generated_fresh:
  assumes "unique_generated generate_id s = (i, s')"
  shows "\<not> id_used (calls s) i \<and> calls s' = calls s"
proof -
  define g where "g = unwrap_or FALLBACK_TOOL_CALL_ID (non_blank (Some (generate_id (generated s))))"
  define ks where "ks = [1..<Suc (length (calls s))]"
  note def = unique_generated_def [of generate_id s, unfolded Let_def, folded g_def ks_def]
  show ?thesis
  proof (cases "id_used (calls s) g")
    case True
    then obtain j where j: "find (\<lambda>k. \<not> id_used (calls s) (suffixed g k)) ks = Some j"
      using free_suffix unfolding ks_def by blast
    then have "\<not> id_used (calls s) (suffixed g j)" by (auto simp: find_Some_iff)
    then show ?thesis using assms True by (auto simp: def j unwrap_or_def)
  qed (use assms in \<open>auto simp: def\<close>)
qed

lemma unique_id_fresh:
  "unique_id generate_id wire_id s = (i, s') \<Longrightarrow> \<not> id_used (calls s) i \<and> calls s' = calls s"
  by (auto simp: unique_id_def dest: unique_generated_fresh split: option.splits if_splits)

section \<open>Matching stays in range\<close>

lemma matching_in_range:
  assumes "matching cs predicate explicit = Existing n"
  shows "n < length cs \<and> predicate (cs ! n)"
proof -
  let ?c = "filter (\<lambda>(_, c). predicate c) (enumerate 0 cs)"
  have cand: "n < length cs \<and> predicate (cs ! n)" if "(n, c) \<in> set ?c" for n c
    using that by (auto simp: in_set_enumerate_eq)
  have "\<exists>c. (n, c) \<in> set ?c"
  proof (cases "length ?c = 1 \<and> \<not> explicit")
    case True
    then have "?c \<noteq> []" by auto
    then have "hd ?c \<in> set ?c" by (rule hd_in_set)
    moreover have "n = fst (hd ?c)" using assms True by (auto simp: matching_def Let_def split: if_splits)
    ultimately show ?thesis by (metis prod.collapse)
  next
    case False
    let ?d = "filter (\<lambda>(_, c). \<not> has_complete_structured_value (tc_argument_state c)) ?c"
    from False assms obtain c where "?d = [(n, c)]"
      by (auto simp: matching_def Let_def split: if_splits list.splits)
    then have "(n, c) \<in> set ?d" by simp
    then show ?thesis by auto
  qed
  then show ?thesis using cand by blast
qed

lemma resolve_in_range:
  "resolve cs wire_id index name explicit_start empty_arguments = Existing n \<Longrightarrow> n < length cs"
  unfolding resolve_def Let_def
  by (auto dest: matching_in_range split: option.splits if_splits)

lemma position_Some: "position P xs = Some n \<Longrightarrow> n < length xs \<and> P (xs ! n)"
  by (induction xs arbitrary: n) (auto split: if_splits)

section \<open>What a delta does\<close>

text \<open>The abstract step: nothing, a new call, a fragment of a call, or new labels for a call.\<close>

definition same_call :: "tool_call \<Rightarrow> tool_call \<Rightarrow> bool" where
  "same_call c c' \<longleftrightarrow> tc_id c' = tc_id c \<and> tc_name c' = tc_name c \<and> tc_index c' = tc_index c
     \<and> tc_provider_metadata c' = tc_provider_metadata c"

definition start_parts :: "tool_call \<Rightarrow> stream_part list" where
  "start_parts c = ToolInputStart (tc_id c) (tc_name c) None None None None
     # (if tc_arguments c = [] then [] else [ToolInputDelta (tc_id c) (tc_arguments c) None])"

inductive call_step :: "tool_call list \<Rightarrow> stream_part list \<Rightarrow> tool_call list \<Rightarrow> bool" where
  dropped: "call_step cs [] cs"
| started: "tc_id c \<notin> tc_id ` set cs \<Longrightarrow> tc_argument_state c = new_argument_state (tc_arguments c) \<Longrightarrow>
    call_step cs (start_parts c) (cs @ [c])"
| continued: "n < length cs \<Longrightarrow> same_call (cs ! n) c \<Longrightarrow> tc_arguments c = tc_arguments (cs ! n) @ a \<Longrightarrow>
    tc_argument_state c = append_arguments (tc_argument_state (cs ! n)) a \<Longrightarrow> char_boundary a \<Longrightarrow>
    call_step cs [ToolInputDelta (tc_id (cs ! n)) a None] (cs[n := c])"
| relabelled: "n < length cs \<Longrightarrow> same_call (cs ! n) c \<Longrightarrow> tc_arguments c = tc_arguments (cs ! n) \<Longrightarrow>
    tc_argument_state c = tc_argument_state (cs ! n) \<Longrightarrow> call_step cs [] (cs[n := c])"

definition fragment_ok :: "tool_call_delta \<Rightarrow> bool" where
  "fragment_ok d \<longleftrightarrow> (case d_arguments d of Some a \<Rightarrow> char_boundary a | None \<Rightarrow> True)"

text \<open>What the two handlers of deltas, lenient and strict, have in common.\<close>

locale delta_handler =
  fixes handle :: "tool_call_delta \<Rightarrow> chat_tool_calls \<times> part_controller \<Rightarrow> bool \<times> chat_tool_calls \<times> part_controller"
  assumes accepts: "\<not> ctl_closed k \<Longrightarrow> fragment_ok d \<Longrightarrow> handle d (s, k) = (True, s', k') \<Longrightarrow>
      \<exists>ps. k' = k\<lparr>queue := queue k @ map Inr ps\<rparr> \<and> call_step (calls s) ps (calls s')"
    and rejects: "\<not> ctl_closed k \<Longrightarrow> handle d (s, k) = (False, s', k') \<Longrightarrow> s' = s \<and> (\<exists>e. k' = ctl_error e k)"

lemma label_facts [simp]:
  "tc_id (add_index i c) = tc_id c" "tc_name (add_index i c) = tc_name c" "tc_index (add_index i c) = tc_index c"
  "tc_arguments (add_index i c) = tc_arguments c" "tc_argument_state (add_index i c) = tc_argument_state c"
  "tc_provider_metadata (add_index i c) = tc_provider_metadata c"
  "tc_id (add_wire_id w c) = tc_id c" "tc_name (add_wire_id w c) = tc_name c" "tc_index (add_wire_id w c) = tc_index c"
  "tc_arguments (add_wire_id w c) = tc_arguments c" "tc_argument_state (add_wire_id w c) = tc_argument_state c"
  "tc_provider_metadata (add_wire_id w c) = tc_provider_metadata c"
  by (auto simp: add_index_def add_wire_id_def split: option.splits)

lemma start_call_step:
  assumes "start_call generate_id wire_id index name a md (s, k) = (n, s', k')" and "\<not> ctl_closed k"
  obtains c where "k' = k\<lparr>queue := queue k @ map Inr (start_parts c)\<rparr>" "calls s' = calls s @ [c]"
    "n = length (calls s)" "tc_id c \<notin> tc_id ` set (calls s)" "tc_argument_state c = new_argument_state (tc_arguments c)"
proof -
  obtain i s1 where u: "unique_id generate_id wire_id s = (i, s1)" by force
  with unique_id_fresh [OF u] assms show ?thesis
    by (intro that [of "last (calls s')"])
       (auto simp: start_call_def start_parts_def Let_def emit_defs enqueue_def id_used_iff)
qed

lemma continue_step:
  assumes "n < length (calls s)" and "\<not> ctl_closed k" and "case arguments of Some a \<Rightarrow> char_boundary a | None \<Rightarrow> True"
    and "continue_call n arguments (modify_call n (add_wire_id w) s, k) = (s', k')"
  shows "\<exists>ps. k' = k\<lparr>queue := queue k @ map Inr ps\<rparr>
           \<and> call_step (calls s) ps (calls (modify_call n (add_index i) s'))"
proof (cases arguments)
  case None
  then show ?thesis using assms
    by (auto simp: continue_call_def modify_call_def same_call_def intro!: exI [of _ "[]"] relabelled)
next
  case (Some a)
  then show ?thesis using assms
    by (auto simp: continue_call_def modify_call_def same_call_def add_arguments_def emit_defs enqueue_def
        intro!: exI [of _ "[ToolInputDelta (tc_id (calls s ! n)) a None]"] continued)
qed

lemma label_None [simp]: "add_index None c = c" "add_wire_id None c = c"
  by (simp_all add: add_index_def add_wire_id_def)

lemma modify_call_id [simp]: "n < length (calls s) \<Longrightarrow> modify_call n (add_wire_id None) s = s"
  "n < length (calls s) \<Longrightarrow> modify_call n (add_index None) s = s"
  by (simp_all add: modify_call_def)

lemma tool_delta_accepts:
  assumes "\<not> ctl_closed k" and "fragment_ok d" and "tool_delta generate_id d (s, k) = (True, s', k')"
  shows "\<exists>ps. k' = k\<lparr>queue := queue k @ map Inr ps\<rparr> \<and> call_step (calls s) ps (calls s')"
proof -
  define r where "r = resolve (calls s) (non_blank (d_id d)) (d_index d) (non_blank (d_name d))
     (non_blank (d_name d) \<noteq> None \<and> starts_with_structured_value (d_arguments d))
     (case d_arguments d of None \<Rightarrow> True | Some a \<Rightarrow> str_trim a = [])"
  note def = tool_delta_def [of generate_id d "(s, k)", unfolded Let_def fst_conv snd_conv, folded r_def]
  show ?thesis
  proof (cases r)
    case (Existing n)
    then have n: "n < length (calls s)" using resolve_in_range unfolding r_def by blast
    obtain s1 k1 where c: "continue_call n (d_arguments d) (modify_call n (add_wire_id (non_blank (d_id d))) s, k) = (s1, k1)"
      by force
    then show ?thesis
      using continue_step [OF n assms(1) _ c, where i = "d_index d"] assms(2,3) by (auto simp: def Existing fragment_ok_def)
  next
    case Ambiguous
    then show ?thesis using assms(3) by (auto simp: def intro!: exI [of _ "[]"] dropped)
  next
    case NewCall
    show ?thesis
    proof (cases "s' = s \<and> k' = k")
      case True
      then show ?thesis by (auto intro!: exI [of _ "[]"] dropped)
    next
      case False
      then obtain name where name: "non_blank (d_name d) = Some name" "\<not> d_invalid_type d"
        using assms(3) by (auto simp: def NewCall invalid_delta_def split: if_splits option.splits)
      obtain n s1 k1 where c: "start_call generate_id (non_blank (d_id d)) (d_index d) name
          (unwrap_or [] (d_arguments d)) (d_provider_metadata d) (s, k) = (n, s1, k1)" by (rule prod_cases3)
      from start_call_step [OF c assms(1)] obtain c' where
        c': "k1 = k\<lparr>queue := queue k @ map Inr (start_parts c')\<rparr>" "calls s1 = calls s @ [c']"
          "n = length (calls s)" "tc_id c' \<notin> tc_id ` set (calls s)"
          "tc_argument_state c' = new_argument_state (tc_arguments c')" .
      have "call_step (calls s) (start_parts (add_index (d_index d) c')) (calls s @ [add_index (d_index d) c'])"
        using c' by (intro started) simp_all
      moreover have "start_parts (add_index (d_index d) c') = start_parts c'" by (simp add: start_parts_def)
      ultimately show ?thesis
        using c c' name assms(3) by (auto simp: def NewCall modify_call_def)
    qed
  qed
qed

interpretation lenient: delta_handler "tool_delta generate_id" for generate_id
proof
  show "\<exists>ps. k' = k\<lparr>queue := queue k @ map Inr ps\<rparr> \<and> call_step (calls s) ps (calls s')"
    if "\<not> ctl_closed k" "fragment_ok d" "tool_delta generate_id d (s, k) = (True, s', k')" for k d s s' k'
    using that by (rule tool_delta_accepts)
  show "s' = s \<and> (\<exists>e. k' = ctl_error e k)"
    if "tool_delta generate_id d (s, k) = (False, s', k')" for k d s s' k'
    using that by (auto simp: tool_delta_def Let_def invalid_delta_def
        split: resolution.splits option.splits if_splits prod.splits)
qed

lemma strict_delta_accepts:
  assumes "\<not> ctl_closed k" and "fragment_ok d" and "strict_delta generate_id d (s, k) = (True, s', k')"
  shows "\<exists>ps. k' = k\<lparr>queue := queue k @ map Inr ps\<rparr> \<and> call_step (calls s) ps (calls s')"
proof -
  obtain index where i: "d_index d = Some index"
    using assms(3) by (cases "d_index d") (auto simp: strict_delta_def strict_invalid_def Let_def)
  show ?thesis
  proof (cases "position (\<lambda>c. tc_index c = Some index) (calls s)")
    case None
    then obtain w name n where c: "start_call generate_id (Some w) (Some index) name
        (unwrap_or [] (d_arguments d)) (d_provider_metadata d) (s, k) = (n, s', k')"
      using assms(3) by (auto simp: strict_delta_def strict_invalid_def invalid_delta_def Let_def i
          split: option.splits if_splits prod.splits)
    then show ?thesis by (elim start_call_step [OF _ assms(1)]) (auto intro: started)
  next
    case (Some n)
    then have n: "n < length (calls s)" by (auto dest: position_Some)
    have "continue_call n (d_arguments d) (modify_call n (add_wire_id None) s, k) = (s', k')"
      using assms(3) Some n by (auto simp: strict_delta_def strict_invalid_def Let_def i split: if_splits prod.splits)
    from continue_step [OF n assms(1) _ this, of None] assms(2)
    have "\<exists>ps. k' = k\<lparr>queue := queue k @ map Inr ps\<rparr> \<and> call_step (calls s) ps (calls (modify_call n (add_index None) s'))"
      by (simp add: fragment_ok_def)
    moreover have "length (calls s') = length (calls s)"
      using \<open>continue_call n _ _ = _\<close> n by (auto simp: continue_call_def modify_call_def split: option.splits)
    ultimately show ?thesis using n by simp
  qed
qed

interpretation strictly: delta_handler "strict_delta generate_id" for generate_id
proof
  show "\<exists>ps. k' = k\<lparr>queue := queue k @ map Inr ps\<rparr> \<and> call_step (calls s) ps (calls s')"
    if "\<not> ctl_closed k" "fragment_ok d" "strict_delta generate_id d (s, k) = (True, s', k')" for k d s s' k'
    using that by (rule strict_delta_accepts)
  show "s' = s \<and> (\<exists>e. k' = ctl_error e k)"
    if "strict_delta generate_id d (s, k) = (False, s', k')" for k d s s' k'
    using that by (auto simp: strict_delta_def Let_def invalid_delta_def strict_invalid_def
        split: option.splits if_splits prod.splits)
qed

section \<open>Assembling calls\<close>

text \<open>What a reader of the parts collects: the announced calls, the input of a call, the finished calls.\<close>

definition starts_of :: "stream_part list \<Rightarrow> (string \<times> string) list" where
  "starts_of ps = List.map_filter (\<lambda>p. case p of ToolInputStart i n _ _ _ _ \<Rightarrow> Some (i, n) | _ \<Rightarrow> None) ps"

definition deltas_of :: "string \<Rightarrow> stream_part list \<Rightarrow> string" where
  "deltas_of i ps =
     concat (List.map_filter (\<lambda>p. case p of ToolInputDelta j d _ \<Rightarrow> if j = i then Some d else None | _ \<Rightarrow> None) ps)"

definition tool_calls_of :: "stream_part list \<Rightarrow> raw_tool_call list" where
  "tool_calls_of ps = List.map_filter (\<lambda>p. case p of ToolCallPart c \<Rightarrow> Some c | _ \<Rightarrow> None) ps"

lemma collect_append [simp]:
  "starts_of (ps @ qs) = starts_of ps @ starts_of qs"
  "deltas_of i (ps @ qs) = deltas_of i ps @ deltas_of i qs"
  "tool_calls_of (ps @ qs) = tool_calls_of ps @ tool_calls_of qs"
  "starts_of [] = []" "deltas_of i [] = []" "tool_calls_of [] = []"
  by (simp_all add: starts_of_def deltas_of_def tool_calls_of_def List.map_filter_def)

lemma no_finish [simp]: "\<not> is_finish (ToolInputDelta i d m)" "\<not> is_finish (ToolInputEnd i m)"
  "\<not> list_ex is_finish (start_parts c)"
  by (simp_all add: is_finish_def start_parts_def)

lemma collect_simps [simp]:
  "starts_of [ToolInputDelta i d m] = []" "deltas_of j [ToolInputDelta i d m] = (if i = j then d else [])"
  "starts_of (start_parts c) = [(tc_id c, tc_name c)]"
  "deltas_of j (start_parts c) = (if tc_id c = j then tc_arguments c else [])"
  "tool_calls_of [ToolInputDelta i d m] = []" "tool_calls_of (start_parts c) = []"
  by (simp_all add: starts_of_def deltas_of_def tool_calls_of_def start_parts_def List.map_filter_def)

definition open_calls :: "tool_call list \<Rightarrow> (block \<times> string) set" where
  "open_calls cs = Pair BlockToolInput ` tc_id ` set cs"

text \<open>The state of the calls is what the parts emitted so far say.\<close>

definition assembled :: "tool_call list \<Rightarrow> stream_part list \<Rightarrow> bool" where
  "assembled cs ps \<longleftrightarrow>
     distinct (map tc_id cs) \<and>
     starts_of ps = map (\<lambda>c. (tc_id c, tc_name c)) cs \<and>
     (\<forall>c \<in> set cs. tc_arguments c = deltas_of (tc_id c) ps \<and> tc_argument_state c = new_argument_state (tc_arguments c)) \<and>
     (\<forall>i. i \<notin> tc_id ` set cs \<longrightarrow> deltas_of i ps = []) \<and>
     (\<forall>qs. lifecycle {} (ps @ qs) = lifecycle (open_calls cs) qs) \<and>
     tool_calls_of ps = [] \<and> \<not> list_ex is_finish ps"

lemma assembled_start: "assembled [] []"
  by (simp add: assembled_def open_calls_def)

lemma tc_id_update: "n < length cs \<Longrightarrow> tc_id c = tc_id (cs ! n) \<Longrightarrow> map tc_id (cs[n := c]) = map tc_id cs"
  by (simp add: map_update list_update_same_conv)

lemma map_update_same: "n < length cs \<Longrightarrow> f c = f (cs ! n) \<Longrightarrow> map f (cs[n := c]) = map f cs"
  by (simp add: map_update list_update_same_conv)

lemma assembled_update:
  assumes "assembled cs ps" and "n < length cs" and "same_call (cs ! n) c"
    and "tc_arguments c = tc_arguments (cs ! n) @ a" and "tc_argument_state c = new_argument_state (tc_arguments c)"
    and "deltas_of (tc_id (cs ! n)) qs = a" and "\<And>j. j \<noteq> tc_id (cs ! n) \<Longrightarrow> deltas_of j qs = []"
    and "starts_of qs = []" and "tool_calls_of qs = []" and "\<not> list_ex is_finish qs"
    and "\<And>rs. lifecycle (open_calls cs) (qs @ rs) = lifecycle (open_calls cs) rs"
  shows "assembled (cs[n := c]) (ps @ qs)"
proof -
  have ids: "map tc_id (cs[n := c]) = map tc_id cs"
    and names: "map (\<lambda>c. (tc_id c, tc_name c)) (cs[n := c]) = map (\<lambda>c. (tc_id c, tc_name c)) cs"
    using assms(2,3) by (simp_all add: map_update_same same_call_def)
  have idset: "tc_id ` set (cs[n := c]) = tc_id ` set cs" using ids by (metis list.set_map)
  have dist: "distinct (map tc_id cs)" using assms(1) by (simp add: assembled_def)
  have "tc_arguments d = deltas_of (tc_id d) (ps @ qs) \<and> tc_argument_state d = new_argument_state (tc_arguments d)"
    if d: "d \<in> set (cs[n := c])" for d
  proof -
    from d obtain m where m: "m < length cs" "d = cs[n := c] ! m" by (auto simp: in_set_conv_nth)
    show ?thesis
    proof (cases "m = n")
      case True
      then show ?thesis using m assms by (auto simp: assembled_def same_call_def)
    next
      case False
      then have "tc_id (cs ! m) \<noteq> tc_id (cs ! n)" using dist m(1) assms(2) by (metis length_map nth_eq_iff_index_eq nth_map)
      moreover have "d = cs ! m" "cs ! m \<in> set cs" using m False by simp_all
      ultimately show ?thesis using assms(1,7) by (simp add: assembled_def)
    qed
  qed
  moreover have "deltas_of i (ps @ qs) = []" if "i \<notin> tc_id ` set (cs[n := c])" for i
  proof -
    from that assms(2) have "i \<noteq> tc_id (cs ! n)" unfolding idset by (metis imageI nth_mem)
    then show ?thesis using that assms(1,7) unfolding idset by (simp add: assembled_def)
  qed
  moreover have "open_calls (cs[n := c]) = open_calls cs" by (simp only: open_calls_def idset)
  ultimately show ?thesis using assms(1,8-) dist ids names
    unfolding assembled_def idset by (simp only: append_assoc collect_append append_Nil2) auto
qed

lemma assembled_step:
  assumes "call_step cs qs cs'" and "assembled cs ps"
  shows "assembled cs' (ps @ qs)"
  using assms
proof (induction rule: call_step.induct)
  case (started c cs)
  have "lifecycle (open_calls cs) (start_parts c @ rs) = lifecycle (open_calls (cs @ [c])) rs" for rs
    using started(1) by (auto simp: start_parts_def open_calls_def)
  then show ?case using started by (auto simp: assembled_def)
next
  case (continued n cs c a)
  have open_n: "(BlockToolInput, tc_id (cs ! n)) \<in> open_calls cs" using continued(1) by (simp add: open_calls_def)
  have "tc_argument_state c = new_argument_state (tc_arguments c)"
    using continued append_arguments_step [of a Undetermined "tc_arguments (cs ! n)"]
    by (simp add: assembled_def new_argument_state_def)
  then show ?case using continued open_n by (intro assembled_update [where a = a]) auto
next
  case (relabelled n cs c)
  then show ?case using assembled_update [of cs ps n c "[]" "[]"] by (simp add: assembled_def)
qed simp

section \<open>Finishing\<close>

definition finish_parts :: "tool_call list \<Rightarrow> stream_part list" where
  "finish_parts cs = concat (map (\<lambda>c. [ToolInputEnd (tc_id c) None, call_part c]) cs)"

lemma finish_parts_simps [simp]:
  "finish_parts [] = []"
  "finish_parts (c # cs) = ToolInputEnd (tc_id c) None # call_part c # finish_parts cs"
  by (simp_all add: finish_parts_def)

lemma tool_finish_open:
  assumes "\<not> ctl_closed k"
  shows "tool_finish s k = k\<lparr>queue := queue k @ map Inr (finish_parts (finish_order (calls s)))\<rparr>"
proof -
  have "fold (\<lambda>c k. enqueue (call_part c) (tool_input_end (tc_id c) k)) cs k
      = k\<lparr>queue := queue k @ map Inr (finish_parts cs)\<rparr>" for cs
    using assms by (induction cs arbitrary: k) (simp_all add: enqueue_def emit_defs)
  then show ?thesis by (simp add: tool_finish_def)
qed

lemma call_part_facts [simp]:
  "tracked (call_part c) = None" "is_client_call (call_part c)" "call_ids (call_part c) = {tc_id c}"
  "\<not> is_finish (call_part c)" "call_ids (ToolInputEnd i m) = {}"
  by (simp_all add: call_part_def is_client_call_def call_ids_def is_finish_def)

lemma finish_lifecycle:
  "distinct (map tc_id cs) \<Longrightarrow> open_calls cs \<subseteq> opened \<Longrightarrow> lifecycle opened (finish_parts cs)"
proof (induction cs arbitrary: opened)
  case (Cons c cs)
  then have "open_calls cs \<subseteq> opened - {(BlockToolInput, tc_id c)}"
    by (auto simp: open_calls_def) (metis imageI)
  with Cons show ?case by (auto simp: open_calls_def)
qed simp

lemma finish_no_late:
  "distinct (map tc_id cs) \<Longrightarrow> completed \<inter> tc_id ` set cs = {} \<Longrightarrow> no_late_input completed (finish_parts cs)"
proof (induction cs arbitrary: completed)
  case (Cons c cs)
  have "no_late_input (insert (tc_id c) completed) (finish_parts cs)"
    using Cons by (intro Cons.IH) auto
  then show ?case using Cons.prems by (simp add: late_input_def)
qed simp

lemma finish_collect [simp]:
  "starts_of (finish_parts cs) = []" "\<not> list_ex is_finish (finish_parts cs)" "deltas_of i (finish_parts cs) = []"
  "map rtc_tool_call_id (tool_calls_of (finish_parts cs)) = map tc_id cs"
  "map rtc_tool_name (tool_calls_of (finish_parts cs)) = map tc_name cs"
  "map rtc_input (tool_calls_of (finish_parts cs)) = map tc_arguments cs"
  by (induction cs; simp add: starts_of_def deltas_of_def tool_calls_of_def List.map_filter_def call_part_def is_finish_def)+

lemma mset_finish_order [simp]: "mset (finish_order cs) = mset cs"
  by (simp add: finish_order_def)

section \<open>Whole streams\<close>

context delta_handler
begin

lemma feed_assembled:
  assumes "assembled (calls s) ps" and "list_all fragment_ok ds"
    and "feed handle ds (s, \<lparr>queue = map Inr ps, ctl_closed = False\<rparr>) = (True, s', k')"
  shows "\<exists>ps'. k' = \<lparr>queue = map Inr ps', ctl_closed = False\<rparr> \<and> assembled (calls s') ps'"
  using assms
proof (induction ds arbitrary: s ps)
  case (Cons d ds)
  let ?k = "\<lparr>queue = map Inr ps, ctl_closed = False\<rparr> :: part_controller"
  obtain s1 k1 where h: "handle d (s, ?k) = (True, s1, k1)"
    using Cons.prems(3) by (auto split: prod.splits if_splits)
  from accepts [OF _ _ h] Cons.prems(2) obtain qs where
    q: "k1 = \<lparr>queue = map Inr (ps @ qs), ctl_closed = False\<rparr>" "call_step (calls s) qs (calls s1)" by auto
  show ?case
    using Cons.IH [of s1 "ps @ qs"] assembled_step [OF q(2) Cons.prems(1)] Cons.prems(2,3) h q(1) by simp
qed (auto simp: new_controller_def)

lemma feed_rejected:
  assumes "assembled (calls s) ps" and "list_all fragment_ok ds"
    and "feed handle ds (s, \<lparr>queue = map Inr ps, ctl_closed = False\<rparr>) = (False, s', k')"
  shows "\<exists>ps' e. k' = \<lparr>queue = map Inr ps' @ [Inl e], ctl_closed = True\<rparr> \<and> assembled (calls s') ps'"
  using assms
proof (induction ds arbitrary: s ps)
  case (Cons d ds)
  let ?k = "\<lparr>queue = map Inr ps, ctl_closed = False\<rparr> :: part_controller"
  obtain ok s1 k1 where h: "handle d (s, ?k) = (ok, s1, k1)" by (cases "handle d (s, ?k)") auto
  show ?case
  proof (cases ok)
    case True
    then have h': "handle d (s, ?k) = (True, s1, k1)" using h by simp
    from accepts [OF _ _ h'] Cons.prems(2) obtain qs where
      q: "k1 = \<lparr>queue = map Inr (ps @ qs), ctl_closed = False\<rparr>" "call_step (calls s) qs (calls s1)" by auto
    show ?thesis
      using Cons.IH [of s1 "ps @ qs"] assembled_step [OF q(2) Cons.prems(1)] Cons.prems(2,3) h' q(1) by simp
  next
    case False
    then have h': "handle d (s, ?k) = (False, s1, k1)" using h by simp
    from rejects [OF _ h'] Cons.prems(1,3) h' show ?thesis by (auto simp: ctl_error_def)
  qed
qed simp

end

lemma no_late_skip: "tool_calls_of ps = [] \<Longrightarrow> no_late_input {} (ps @ qs) = no_late_input {} qs"
proof (induction ps)
  case (Cons p ps)
  from Cons.prems have "call_ids p = {}" "tool_calls_of ps = []"
    by (cases p; simp add: tool_calls_of_def List.map_filter_def call_ids_def)+
  then show ?case using Cons.IH by (auto simp: late_input_def split: option.splits block.splits)
qed simp

lemma finish_calls:
  "map (\<lambda>c. (rtc_tool_call_id c, rtc_tool_name c)) (tool_calls_of (finish_parts cs)) = map (\<lambda>c. (tc_id c, tc_name c)) cs"
  "c \<in> set (tool_calls_of (finish_parts cs)) \<Longrightarrow> \<exists>d \<in> set cs. rtc_tool_call_id c = tc_id d \<and> rtc_input c = tc_arguments d"
  by (induction cs) (auto simp: tool_calls_of_def List.map_filter_def call_part_def)

text \<open>What a consumer may rely on: well-formed blocks, and finished calls that are the announced ones.\<close>

definition well_assembled :: "stream_part list \<Rightarrow> bool" where
  "well_assembled out \<longleftrightarrow>
     lifecycle {} out \<and> no_late_input {} out \<and> \<not> list_ex is_finish out \<and>
     distinct (map rtc_tool_call_id (tool_calls_of out)) \<and>
     mset (map (\<lambda>c. (rtc_tool_call_id c, rtc_tool_name c)) (tool_calls_of out)) = mset (starts_of out) \<and>
     list_all (\<lambda>c. rtc_input c = deltas_of (rtc_tool_call_id c) out) (tool_calls_of out)"

lemma finished_well_assembled:
  assumes "assembled cs ps"
  shows "well_assembled (ps @ finish_parts (finish_order cs))"
proof -
  have ids: "mset (map tc_id (finish_order cs)) = mset (map tc_id cs)" by simp
  then have dist: "distinct (map tc_id (finish_order cs))"
    using assms mset_eq_imp_distinct_iff [OF ids] by (simp add: assembled_def)
  have sets: "set (finish_order cs) = set cs" by (metis mset_finish_order set_mset_mset)
  have life: "lifecycle {} (ps @ finish_parts (finish_order cs))"
    using assms finish_lifecycle [OF dist, of "open_calls cs"] sets by (simp add: assembled_def open_calls_def)
  have late: "no_late_input {} (ps @ finish_parts (finish_order cs))"
    using assms finish_no_late [OF dist, of "{}"] by (simp add: no_late_skip assembled_def)
  have nofin: "\<not> list_ex is_finish (ps @ finish_parts (finish_order cs))" using assms by (simp add: assembled_def)
  have calls: "tool_calls_of (ps @ finish_parts (finish_order cs)) = tool_calls_of (finish_parts (finish_order cs))"
    and starts: "starts_of (ps @ finish_parts (finish_order cs)) = map (\<lambda>c. (tc_id c, tc_name c)) cs"
    using assms by (simp_all add: assembled_def)
  have "rtc_input c = deltas_of (rtc_tool_call_id c) ps" if "c \<in> set (tool_calls_of (finish_parts (finish_order cs)))" for c
    using finish_calls(2) [OF that] assms by (auto simp: sets assembled_def)
  then show ?thesis
    unfolding well_assembled_def calls starts using life late nofin dist
    by (simp add: finish_calls(1) list_all_iff)
qed

lemma stream_reassembled:
  assumes "handle = tool_delta generate_id \<or> handle = strict_delta generate_id"
    and "list_all fragment_ok deltas"
    and "feed handle deltas (new_tool_calls, new_controller) = (True, s, k)"
  shows "\<exists>out. queue (tool_finish s k) = map Inr out \<and> well_assembled out"
proof -
  have start: "assembled (calls new_tool_calls) []" by (simp add: new_tool_calls_def assembled_start)
  have "\<exists>ps. k = \<lparr>queue = map Inr ps, ctl_closed = False\<rparr> \<and> assembled (calls s) ps"
    using assms lenient.feed_assembled [OF start assms(2)] strictly.feed_assembled [OF start assms(2)]
    by (auto simp: new_controller_def)
  then obtain ps where "k = \<lparr>queue = map Inr ps, ctl_closed = False\<rparr>" "assembled (calls s) ps" by blast
  then show ?thesis using finished_well_assembled [of "calls s" ps] tool_finish_open [of k s]
    by (intro exI [of _ "ps @ finish_parts (finish_order (calls s))"]) simp
qed


section \<open>Strict and lenient handling agree\<close>

lemma filter_enumerate_unique:
  assumes "n < length cs" and "P (cs ! n)" and "\<And>m. m < length cs \<Longrightarrow> P (cs ! m) \<Longrightarrow> m = n"
  shows "filter (\<lambda>(_, c). P c) (enumerate j cs) = [(j + n, cs ! n)]"
  using assms
proof (induction cs arbitrary: n j)
  case (Cons c cs)
  show ?case
  proof (cases n)
    case 0
    have "\<not> P d" if "d \<in> set cs" for d
    proof
      assume "P d"
      moreover from that obtain m where "m < length cs" "d = cs ! m" by (auto simp: in_set_conv_nth)
      ultimately show False using Cons.prems(3) [of "Suc m"] 0 by simp
    qed
    then have "filter (\<lambda>(_, c). P c) (enumerate (Suc j) cs) = []"
      by (auto simp: filter_empty_conv in_set_enumerate_eq)
    then show ?thesis using Cons.prems(2) 0 by simp
  next
    case (Suc m)
    then have "\<not> P c" using Cons.prems(3) [of 0] by auto
    moreover have "filter (\<lambda>(_, c). P c) (enumerate (Suc j) cs) = [(Suc j + m, cs ! m)]"
      using Cons.prems Suc by (intro Cons.IH) fastforce+
    ultimately show ?thesis using Suc by simp
  qed
qed simp

lemma matching_sole:
  assumes "n < length cs" and "P (cs ! n)" and "\<And>m. m < length cs \<Longrightarrow> P (cs ! m) \<Longrightarrow> m = n"
  shows "matching cs P False = Existing n"
  using filter_enumerate_unique [of n cs P 0, OF assms] by (simp add: matching_def)

lemma matching_none: "\<not> list_ex P cs \<Longrightarrow> matching cs P explicit = NewCall"
  by (auto simp: matching_def Let_def filter_empty_conv in_set_enumerate_eq list_ex_iff)

text \<open>The labels a call of a strict stream has in lenient handling.\<close>

definition relabel :: "tool_call \<Rightarrow> tool_call" where
  "relabel c = c\<lparr>tc_indices := [the (tc_index c)]\<rparr>"

definition strict_calls :: "tool_call list \<Rightarrow> bool" where
  "strict_calls cs \<longleftrightarrow> distinct (map tc_index cs) \<and>
     (\<forall>c \<in> set cs. tc_index c \<noteq> None \<and> tc_wire_ids c = [tc_id c] \<and> tc_indices c = [])"

lemma relabel_simps [simp]:
  "tc_id (relabel c) = tc_id c" "tc_name (relabel c) = tc_name c" "tc_arguments (relabel c) = tc_arguments c"
  "tc_argument_state (relabel c) = tc_argument_state c" "tc_index (relabel c) = tc_index c"
  "tc_wire_ids (relabel c) = tc_wire_ids c" "tc_indices (relabel c) = [the (tc_index c)]"
  "tc_provider_metadata (relabel c) = tc_provider_metadata c"
  by (simp_all add: relabel_def)

lemma relabel_add_arguments: "add_arguments a (relabel c) = relabel (add_arguments a c)"
  by (cases c) (simp add: add_arguments_def relabel_def)

lemma finish_order_relabel: "finish_order (map relabel cs) = map relabel (finish_order cs)"
proof -
  have ins: "insort_key f (relabel c) (map relabel cs) = map relabel (insort_key (\<lambda>c. f (relabel c)) c cs)"
    for f :: "tool_call \<Rightarrow> nat" and c cs
    by (induction cs) auto
  have "sort_key f (map relabel cs) = map relabel (sort_key (\<lambda>c. f (relabel c)) cs)" for f :: "tool_call \<Rightarrow> nat"
    by (induction cs) (simp_all add: ins)
  moreover have "list_all (\<lambda>c. tc_index c \<noteq> None) (map relabel cs) = list_all (\<lambda>c. tc_index c \<noteq> None) cs"
    by (simp add: list_all_iff)
  ultimately show ?thesis unfolding finish_order_def by (simp del: not_None_eq)
qed

lemma call_part_relabel [simp]: "call_part (relabel c) = call_part c"
  by (simp add: call_part_def)

definition lenient_of :: "chat_tool_calls \<Rightarrow> chat_tool_calls" where
  "lenient_of s = s\<lparr>calls := map relabel (calls s)\<rparr>"

lemma lenient_of_simps [simp]: "calls (lenient_of s) = map relabel (calls s)" "generated (lenient_of s) = generated s"
  by (simp_all add: lenient_of_def)

lemma id_used_relabel [simp]: "id_used (map relabel cs) i = id_used cs i"
  by (simp add: id_used_def list_ex_iff)

text \<open>A vendor that sends a name only with the first fragment of an index.\<close>

fun named_once :: "usize set \<Rightarrow> tool_call_delta list \<Rightarrow> bool" where
  "named_once seen [] \<longleftrightarrow> True"
| "named_once seen (d # ds) \<longleftrightarrow> (case d_index d of
     None \<Rightarrow> True
   | Some i \<Rightarrow> (i \<in> seen \<longrightarrow> d_name d = None) \<and> named_once (insert i seen) ds)"

lemma position_None: "position P xs = None \<longleftrightarrow> \<not> list_ex P xs"
  by (induction xs) auto

lemma start_agrees:
  assumes "start_call generate_id (Some i) (Some index) name a md (s, k) = (n, s', k')" and "\<not> id_used (calls s) i"
  shows "start_call generate_id (Some i) (Some index) name a md (lenient_of s, k)
       = (n, s'\<lparr>calls := map relabel (calls s) @ [last (calls s')]\<rparr>, k')
     \<and> calls s' = calls s @ [last (calls s')] \<and> tc_indices (last (calls s')) = [] \<and> tc_index (last (calls s')) = Some index
     \<and> tc_id (last (calls s')) = i \<and> tc_wire_ids (last (calls s')) = [i] \<and> n = length (calls s)"
  using assms by (auto simp: start_call_def unique_id_def Let_def lenient_of_def)

lemma lenient_new:
  assumes "strict_calls cs" and "\<not> list_ex (\<lambda>c. tc_index c = Some i) cs" and "\<not> id_used cs w"
  shows "resolve (map relabel cs) (Some w) (Some i) (Some name) explicit empty_arguments = NewCall"
proof -
  have "\<not> list_ex (\<lambda>c. w \<in> set (tc_wire_ids c)) (map relabel cs)"
    using assms(1,3) by (auto simp: strict_calls_def id_used_iff list_ex_iff)
  moreover have "\<not> list_ex (\<lambda>c. i \<in> set (tc_indices c) \<and> tc_name c = name) (map relabel cs)"
    using assms(1,2) by (fastforce simp: strict_calls_def list_ex_iff)
  ultimately show ?thesis by (simp add: resolve_def Let_def matching_none)
qed

lemma lenient_existing:
  assumes "strict_calls cs" and n: "n < length cs" "tc_index (cs ! n) = Some i" and "w = None \<or> w = Some (tc_id (cs ! n))"
  shows "resolve (map relabel cs) w (Some i) None False empty_arguments = Existing n"
proof -
  have strict: "tc_index c = Some i \<longleftrightarrow> the (tc_index c) = i" "tc_wire_ids c = [tc_id c]" if "c \<in> set cs" for c
    using assms(1) that by (auto simp: strict_calls_def)
  have sole: "m = n" if "m < length cs" "the (tc_index (cs ! m)) = i" for m
  proof -
    have "tc_index (cs ! m) = Some i" using that strict(1) nth_mem by blast
    then have "map tc_index cs ! m = map tc_index cs ! n" using that(1) n by simp
    then show ?thesis using assms(1) that(1) n(1) unfolding strict_calls_def by (metis length_map nth_eq_iff_index_eq)
  qed
  have known: "list_ex (\<lambda>c. i \<in> set (tc_indices c)) (map relabel cs)"
    unfolding list_ex_iff by (rule bexI [of _ "relabel (cs ! n)"]) (use n in simp_all)
  have at: "matching (map relabel cs) (\<lambda>c. i \<in> set (tc_indices c) \<and> True) False = Existing n"
  proof (rule matching_sole)
    show "m = n" if "m < length (map relabel cs)" "i \<in> set (tc_indices (map relabel cs ! m)) \<and> True" for m
      using that by (intro sole) simp_all
  qed (use n in simp_all)
  have ids: "list_ex (\<lambda>c. tc_id (cs ! n) \<in> set (tc_wire_ids c)) (map relabel cs)"
    unfolding list_ex_iff by (rule bexI [of _ "relabel (cs ! n)"]) (use n strict(2) [of "cs ! n"] in simp_all)
  have both: "matching (map relabel cs) (\<lambda>c. tc_id (cs ! n) \<in> set (tc_wire_ids c) \<and> i \<in> set (tc_indices c) \<and> True) False = Existing n"
  proof (rule matching_sole)
    show "m = n" if "m < length (map relabel cs)"
      "tc_id (cs ! n) \<in> set (tc_wire_ids (map relabel cs ! m)) \<and> i \<in> set (tc_indices (map relabel cs ! m)) \<and> True" for m
      using that by (intro sole) simp_all
  qed (use n strict(2) [of "cs ! n"] in simp_all)
  from assms(4) show ?thesis
  proof
    assume "w = None"
    then show ?thesis using known at by (simp add: resolve_def Let_def)
  next
    assume "w = Some (tc_id (cs ! n))"
    then show ?thesis using ids both by (simp add: resolve_def Let_def)
  qed
qed

lemma strict_calls_snoc:
  "strict_calls cs \<Longrightarrow> \<not> list_ex (\<lambda>c. tc_index c = Some i) cs \<Longrightarrow> tc_index c = Some i \<Longrightarrow>
     tc_wire_ids c = [tc_id c] \<Longrightarrow> tc_indices c = [] \<Longrightarrow> strict_calls (cs @ [c])"
  by (auto simp: strict_calls_def list_ex_iff)

lemma strict_new_agrees:
  assumes st: "strict_calls (calls s)" and none: "\<not> list_ex (\<lambda>c. tc_index c = Some i) (calls s)"
    and d: "d_index d = Some i" and ok: "strict_delta generate_id d (s, k) = (True, s', k')"
  shows "tool_delta generate_id d (lenient_of s, k) = (True, lenient_of s', k')
       \<and> strict_calls (calls s') \<and> tc_index ` set (calls s') = insert (Some i) (tc_index ` set (calls s))"
proof -
  have pos: "position (\<lambda>c. tc_index c = Some i) (calls s) = None" using none by (simp add: position_None)
  from ok obtain w name n where x: "non_blank (d_id d) = Some w" "non_blank (d_name d) = Some name"
    "\<not> d_invalid_type d" "\<not> id_used (calls s) w"
    "start_call generate_id (Some w) (Some i) name (unwrap_or [] (d_arguments d)) (d_provider_metadata d) (s, k) = (n, s', k')"
    by (auto simp: strict_delta_def Let_def d pos strict_invalid_def invalid_delta_def
        split: option.splits if_splits prod.splits)
  note start = start_agrees [OF x(5,4)]
  let ?c = "last (calls s')"
  have res: "tool_delta generate_id d (lenient_of s, k)
      = (True, modify_call n (add_index (Some i)) (s'\<lparr>calls := map relabel (calls s) @ [?c]\<rparr>), k')"
    using x lenient_new [OF st none x(4)] start by (simp add: tool_delta_def Let_def d)
  have "add_index (Some i) ?c = relabel ?c" using start by (simp add: add_index_def relabel_def)
  moreover have "map relabel (calls s') = map relabel (calls s) @ [relabel ?c]"
    using start by (metis list.simps(8,9) map_append)
  ultimately have "modify_call n (add_index (Some i)) (s'\<lparr>calls := map relabel (calls s) @ [?c]\<rparr>) = lenient_of s'"
    using start by (simp add: modify_call_def lenient_of_def nth_append list_update_append)
  moreover have "calls s' = calls s @ [?c]" using start by blast
  moreover have c: "tc_index ?c = Some i" "tc_wire_ids ?c = [tc_id ?c]" "tc_indices ?c = []" using start by auto
  moreover note strict_calls_snoc [OF st none c]
  moreover have "tc_index ` set (calls s @ [?c]) = insert (Some i) (tc_index ` set (calls s))"
    by (simp only: set_append image_Un list.set image_insert image_empty c(1)) simp
  ultimately show ?thesis using res by metis
qed

lemma strict_existing_agrees:
  assumes st: "strict_calls (calls s)" and some: "list_ex (\<lambda>c. tc_index c = Some i) (calls s)"
    and d: "d_index d = Some i" "d_name d = None" and ok: "strict_delta generate_id d (s, k) = (True, s', k')"
  shows "tool_delta generate_id d (lenient_of s, k) = (True, lenient_of s', k')
       \<and> strict_calls (calls s') \<and> tc_index ` set (calls s') = insert (Some i) (tc_index ` set (calls s))"
proof -
  obtain n where pos: "position (\<lambda>c. tc_index c = Some i) (calls s) = Some n"
    using some position_None by (metis not_Some_eq)
  then have n: "n < length (calls s)" "tc_index (calls s ! n) = Some i" by (auto dest: position_Some)
  have w: "tc_wire_ids (calls s ! n) = [tc_id (calls s ! n)]" using st n(1) by (auto simp: strict_calls_def)
  let ?w = "non_blank (d_id d)"
  have cont: "continue_call n (d_arguments d) (s, k) = (s', k')"
    and wid: "?w = None \<or> ?w = Some (tc_id (calls s ! n))"
    using ok by (auto simp: strict_delta_def Let_def d pos strict_invalid_def non_blank_def split: if_splits option.splits prod.splits)
  have same: "modify_call n (add_wire_id ?w) (lenient_of s) = lenient_of s"
    using wid w n(1) by (auto simp: modify_call_def add_wire_id_def list_update_same_conv)
  have args: "modify_call n (add_arguments a) (lenient_of s) = lenient_of (modify_call n (add_arguments a) s)" for a
    using n(1) by (simp add: modify_call_def lenient_of_def map_update relabel_add_arguments)
  have cont': "continue_call n (d_arguments d) (lenient_of s, k) = (lenient_of s', k')"
    using cont n(1) args by (auto simp: continue_call_def split: option.splits)
  have s': "calls s' = (calls s)[n := calls s' ! n]" "n < length (calls s')" "same_call (calls s ! n) (calls s' ! n)"
    "tc_wire_ids (calls s' ! n) = tc_wire_ids (calls s ! n)" "tc_indices (calls s' ! n) = tc_indices (calls s ! n)"
    using cont n(1) by (auto simp: continue_call_def modify_call_def add_arguments_def same_call_def split: option.splits)
  have idx: "map tc_index (calls s') = map tc_index (calls s)"
    using s'(1,3) n(1) by (metis map_update_same same_call_def)
  have "modify_call n (add_index (Some i)) (lenient_of s') = lenient_of s'"
    using s' n by (auto simp: modify_call_def add_index_def list_update_same_conv same_call_def)
  then have "tool_delta generate_id d (lenient_of s, k) = (True, lenient_of s', k')"
    using lenient_existing [OF st n wid] cont' same by (simp add: tool_delta_def Let_def d non_blank_def [of None])
  moreover have "strict_calls (calls s')"
  proof -
    have "tc_index c \<noteq> None \<and> tc_wire_ids c = [tc_id c] \<and> tc_indices c = []" if "c \<in> set (calls s')" for c
    proof -
      from that s'(1) have "c \<in> set (calls s) \<or> c = calls s' ! n" by (metis set_update_subset_insert subsetD insertE)
      then show ?thesis using st s' n by (auto simp: strict_calls_def same_call_def)
    qed
    then show ?thesis using st idx by (auto simp: strict_calls_def)
  qed
  moreover have "tc_index ` set (calls s') = insert (Some i) (tc_index ` set (calls s))"
    using idx n by (metis image_set insert_absorb length_map nth_map nth_mem)
  ultimately show ?thesis by blast
qed

lemma feed_agrees:
  assumes "strict_calls (calls s)" and "named_once seen ds" and "Some ` seen = tc_index ` set (calls s)"
    and "feed (strict_delta generate_id) ds (s, k) = (True, s', k')"
  shows "feed (tool_delta generate_id) ds (lenient_of s, k) = (True, lenient_of s', k')"
  using assms
proof (induction ds arbitrary: s k seen)
  case (Cons d ds)
  obtain s1 k1 where step: "strict_delta generate_id d (s, k) = (True, s1, k1)"
    and rest: "feed (strict_delta generate_id) ds (s1, k1) = (True, s', k')"
    using Cons.prems(4) by (auto split: prod.splits if_splits)
  then obtain i where i: "d_index d = Some i"
    by (cases "d_index d") (auto simp: strict_delta_def strict_invalid_def Let_def)
  have known: "list_ex (\<lambda>c. tc_index c = Some i) (calls s) \<longleftrightarrow> i \<in> seen"
    using Cons.prems(3) by (auto simp: list_ex_iff) (metis imageE imageI option.inject)+
  have agree: "tool_delta generate_id d (lenient_of s, k) = (True, lenient_of s1, k1)
      \<and> strict_calls (calls s1) \<and> tc_index ` set (calls s1) = insert (Some i) (tc_index ` set (calls s))"
  proof (cases "i \<in> seen")
    case True
    then show ?thesis
      using strict_existing_agrees [OF Cons.prems(1) _ i _ step] known Cons.prems(2) i by simp
  next
    case False
    then show ?thesis using strict_new_agrees [OF Cons.prems(1) _ i step] known by simp
  qed
  then show ?case
    using Cons.IH [of s1 "insert i seen" k1] rest Cons.prems(2,3) i by simp
qed simp

text \<open>
  Strict and lenient handling agree on regular streams. When strict handling accepts all fragments
  of a stream whose vendor sends a name only with the first fragment of an index, lenient handling
  emits the same parts in the same order, and the same parts when the stream flushes.
\<close>

lemma strict_agrees_with_lenient:
  assumes "named_once {} deltas"
    and "feed (strict_delta generate_id) deltas (new_tool_calls, new_controller) = (True, s, k)"
  shows "\<exists>s'. feed (tool_delta generate_id) deltas (new_tool_calls, new_controller) = (True, s', k)
           \<and> tool_finish s' k = tool_finish s k"
proof -
  have "lenient_of new_tool_calls = new_tool_calls" "strict_calls (calls new_tool_calls)" "calls new_tool_calls = []"
    by (simp_all add: lenient_of_def new_tool_calls_def strict_calls_def)
  then have "feed (tool_delta generate_id) deltas (new_tool_calls, new_controller) = (True, lenient_of s, k)"
    using feed_agrees [OF _ assms(1) _ assms(2)] by (metis image_empty list.set(1))
  moreover have "tool_finish (lenient_of s) k = tool_finish s k"
    by (simp add: tool_finish_def finish_order_relabel fold_map comp_def)
  ultimately show ?thesis by blast
qed

section \<open>Witnesses\<close>

definition demo_deltas :: "tool_call_delta list" where
  "demo_deltas =
     [\<lparr>d_index = Some 0, d_id = Some ''c1'', d_name = Some ''f'', d_arguments = Some ''{'', d_invalid_type = False,
       d_provider_metadata = None\<rparr>,
      \<lparr>d_index = Some 0, d_id = None, d_name = None, d_arguments = Some ''}'', d_invalid_type = False,
       d_provider_metadata = None\<rparr>]"

definition demo_tool_call :: tool_call where
  "demo_tool_call = \<lparr>tc_id = ''c1'', tc_name = ''f'', tc_arguments = ''{}'', tc_argument_state = Complete,
     tc_index = Some 0, tc_wire_ids = [''c1''], tc_indices = [], tc_provider_metadata = None\<rparr>"

definition demo_emitted :: "stream_part list" where
  "demo_emitted = [ToolInputStart ''c1'' ''f'' None None None None, ToolInputDelta ''c1'' ''{'' None,
     ToolInputDelta ''c1'' ''}'' None]"

lemma demo_trim [simp]: "str_trim ''c1'' = ''c1''" "str_trim ''f'' = ''f''" "str_trim_start ''{'' = ''{''"
  by (simp_all add: str_trim_def str_trim_start_def is_whitespace_def is_continuation_def)

lemma demo_feed:
  "feed (strict_delta (\<lambda>_. ''g'')) demo_deltas (new_tool_calls, new_controller)
     = (True, \<lparr>calls = [demo_tool_call], generated = 0\<rparr>, \<lparr>queue = map Inr demo_emitted, ctl_closed = False\<rparr>)"
  by (simp add: demo_deltas_def demo_emitted_def demo_tool_call_def strict_delta_def new_tool_calls_def new_controller_def
      non_blank_def id_used_def start_call_def unique_id_def emit_defs enqueue_def unwrap_or_def Let_def
      continue_call_def modify_call_def add_arguments_def new_argument_state_def append_arguments_def
      is_opening_def is_closing_def opening_of_def)


lemma strict_agrees_with_lenient_witness:
  "\<exists>s'. feed (tool_delta (\<lambda>_. ''g'')) demo_deltas (new_tool_calls, new_controller)
         = (True, s', \<lparr>queue = map Inr demo_emitted, ctl_closed = False\<rparr>)
       \<and> tool_finish s' \<lparr>queue = map Inr demo_emitted, ctl_closed = False\<rparr>
         = tool_finish \<lparr>calls = [demo_tool_call], generated = 0\<rparr> \<lparr>queue = map Inr demo_emitted, ctl_closed = False\<rparr>"
  by (rule strict_agrees_with_lenient [OF _ demo_feed]) (simp add: demo_deltas_def)

end
