(* ===== verification/Json_Repair.thy ===== *)
theory Json_Repair
  imports Tool_Arguments
begin

text \<open>
  JSON repair and partial parsing (\<open>src/aimux-core/src/json_repair.rs\<close>). A character is its UTF-8 bytes
  and a text the bytes of its characters; the open values are kept innermost first. The JSON parser of
  \<open>serde_json\<close> is the argument \<open>from_str\<close>.
\<close>

section \<open>Definitions\<close>

datatype object_pos = ObjStart | ObjKey | ObjAfterKey | ObjBeforeValue | ObjAfterValue | ObjAfterComma

datatype array_pos = ArrStart | ArrAfterValue | ArrAfterComma

datatype string_pos = StrPlain | StrEscape | StrUnicodeEscape nat

datatype frame = FObject object_pos | FArray array_pos | FString string_pos | FNumber | FLiteral string

definition is_ascii_hexdigit :: "char \<Rightarrow> bool" where
  "is_ascii_hexdigit b \<longleftrightarrow> is_ascii_digit b \<or> 65 \<le> (of_char b :: nat) \<and> (of_char b :: nat) \<le> 70
     \<or> 97 \<le> (of_char b :: nat) \<and> (of_char b :: nat) \<le> 102"

text \<open>A test of the source on a character, here on the bytes of the character.\<close>

definition is_char :: "(char \<Rightarrow> bool) \<Rightarrow> string \<Rightarrow> bool" where
  "is_char P c \<longleftrightarrow> (case c of [b] \<Rightarrow> P b | _ \<Rightarrow> False)"

definition opened_by :: "string \<Rightarrow> frame option" where
  "opened_by c =
     (if c = [CHR 0x22] then Some (FString StrPlain)
      else if c = ''f'' then Some (FLiteral ''alse'')
      else if c = ''t'' then Some (FLiteral ''rue'')
      else if c = ''n'' then Some (FLiteral ''ull'')
      else if c = ''-'' \<or> is_char is_ascii_digit c then Some FNumber
      else if c = ''{'' then Some (FObject ObjStart)
      else if c = ''['' then Some (FArray ArrStart)
      else None)"

fun closing :: "frame \<Rightarrow> string" where
  "closing (FObject _) = ''}''"
| "closing (FArray _) = '']''"
| "closing (FString _) = [CHR 0x22]"
| "closing FNumber = []"
| "closing (FLiteral rest) = rest"

record repair =
  rp_open :: "frame list"
  valid_len :: nat

definition mark :: "nat \<Rightarrow> string \<Rightarrow> repair \<Rightarrow> repair" where
  "mark i c r = r\<lparr>valid_len := i + length c\<rparr>"

definition close_value :: "nat \<Rightarrow> string \<Rightarrow> repair \<Rightarrow> repair" where
  "close_value i c r = (mark i c r)\<lparr>rp_open := tl (rp_open r)\<rparr>"

definition open_value :: "nat \<Rightarrow> string \<Rightarrow> frame \<Rightarrow> repair \<Rightarrow> repair" where
  "open_value i c f r = (if c \<noteq> ''-'' then mark i c r else r)\<lparr>rp_open := f # rp_open r\<rparr>"

text \<open>\<open>*top = f\<close>\<close>

definition set_top :: "frame \<Rightarrow> repair \<Rightarrow> repair" where
  "set_top f r = r\<lparr>rp_open := f # tl (rp_open r)\<rparr>"

definition after_value :: "nat \<Rightarrow> string \<Rightarrow> repair \<Rightarrow> repair" where
  "after_value i c r = (case rp_open r of
     [] \<Rightarrow> r
   | t # _ \<Rightarrow>
       if t = FObject ObjAfterValue \<and> c = '','' then set_top (FObject ObjAfterComma) r
       else if t = FArray ArrAfterValue \<and> c = '','' then set_top (FArray ArrAfterComma) r
       else if t = FObject ObjAfterValue \<and> c = ''}'' \<or> t = FArray ArrAfterValue \<and> c = '']'' then close_value i c r
       else r)"

definition end_scalar :: "nat \<Rightarrow> string \<Rightarrow> repair \<Rightarrow> repair" where
  "end_scalar i c r = after_value i c (r\<lparr>rp_open := tl (rp_open r)\<rparr>)"

fun step_object :: "object_pos \<Rightarrow> nat \<Rightarrow> string \<Rightarrow> repair \<Rightarrow> repair" where
  "step_object ObjStart i c r =
     (if c = [CHR 0x22] then set_top (FObject ObjKey) r else if c = ''}'' then close_value i c r else r)"
| "step_object ObjAfterComma i c r = (if c = [CHR 0x22] then set_top (FObject ObjKey) r else r)"
| "step_object ObjKey i c r = (if c = [CHR 0x22] then set_top (FObject ObjAfterKey) r else r)"
| "step_object ObjAfterKey i c r = (if c = '':'' then set_top (FObject ObjBeforeValue) r else r)"
| "step_object ObjBeforeValue i c r = (case opened_by c of
     Some v \<Rightarrow> open_value i c v (set_top (FObject ObjAfterValue) r) | None \<Rightarrow> r)"
| "step_object ObjAfterValue i c r = after_value i c r"

fun step_array :: "array_pos \<Rightarrow> nat \<Rightarrow> string \<Rightarrow> repair \<Rightarrow> repair" where
  "step_array ArrStart i c r =
     (if c = '']'' then close_value i c r
      else mark i c (case opened_by c of
             Some v \<Rightarrow> open_value i c v (set_top (FArray ArrAfterValue) r) | None \<Rightarrow> r))"
| "step_array ArrAfterValue i c r =
     (if c = '']'' then close_value i c r else if c = '','' then set_top (FArray ArrAfterComma) r else mark i c r)"
| "step_array ArrAfterComma i c r = (case opened_by c of
     Some v \<Rightarrow> open_value i c v (set_top (FArray ArrAfterValue) r) | None \<Rightarrow> r)"

fun step_string :: "string_pos \<Rightarrow> nat \<Rightarrow> string \<Rightarrow> repair \<Rightarrow> repair" where
  "step_string StrPlain i c r =
     (if c = [CHR 0x22] then close_value i c r
      else if c = [CHR 0x5C] then set_top (FString StrEscape) r else mark i c r)"
| "step_string StrEscape i c r =
     (if c = ''u'' then set_top (FString (StrUnicodeEscape 0)) r else mark i c (set_top (FString StrPlain) r))"
| "step_string (StrUnicodeEscape digits) i c r =
     (if is_char is_ascii_hexdigit c
      then (if digits = 3 then mark i c (set_top (FString StrPlain) r)
            else set_top (FString (StrUnicodeEscape (digits + 1))) r)
      else r)"

definition step_number :: "nat \<Rightarrow> string \<Rightarrow> repair \<Rightarrow> repair" where
  "step_number i c r =
     (if is_char is_ascii_digit c then mark i c r
      else if c = ''e'' \<or> c = ''E'' \<or> c = ''-'' \<or> c = ''.'' then r
      else end_scalar i c r)"

definition step_literal :: "string \<Rightarrow> nat \<Rightarrow> string \<Rightarrow> repair \<Rightarrow> repair" where
  "step_literal rest i c r = (case rest of
     b # rest' \<Rightarrow> if c = [b] then mark i c (set_top (FLiteral rest') r) else end_scalar i c r
   | [] \<Rightarrow> end_scalar i c r)"

text \<open>\<open>Repair::step\<close>: whether the scan goes on, and the new state.\<close>

definition repair_step :: "nat \<Rightarrow> string \<Rightarrow> repair \<Rightarrow> bool \<times> repair" where
  "repair_step i c r = (case rp_open r of
     [] \<Rightarrow> (False, r)
   | FObject pos # _ \<Rightarrow> (True, step_object pos i c r)
   | FArray pos # _ \<Rightarrow> (True, step_array pos i c r)
   | FString pos # _ \<Rightarrow> (True, step_string pos i c r)
   | FNumber # _ \<Rightarrow> (True, step_number i c r)
   | FLiteral rest # _ \<Rightarrow> (True, step_literal rest i c r))"

text \<open>\<open>char::len_utf16\<close>: a character outside the basic plane has four bytes and two code units.\<close>

definition len_utf16 :: "string \<Rightarrow> nat" where
  "len_utf16 c = (if length c = 4 then 2 else 1)"

fun step_times :: "nat \<Rightarrow> nat \<Rightarrow> string \<Rightarrow> repair \<Rightarrow> bool \<times> repair" where
  "step_times 0 i c r = (True, r)"
| "step_times (Suc n) i c r = (case repair_step i c r of
     (False, r') \<Rightarrow> (False, r') | (True, r') \<Rightarrow> step_times n i c r')"

fun scan_chars :: "nat \<Rightarrow> string list \<Rightarrow> repair \<Rightarrow> repair" where
  "scan_chars i [] r = r"
| "scan_chars i (c # cs) r = (case step_times (len_utf16 c) i c r of
     (True, r') \<Rightarrow> scan_chars (i + length c) cs r' | (False, r') \<Rightarrow> r')"

fun scan_root :: "nat \<Rightarrow> string list \<Rightarrow> repair \<Rightarrow> repair" where
  "scan_root i [] r = r"
| "scan_root i (c # cs) r = (case opened_by c of
     Some f \<Rightarrow> scan_chars (i + length c) cs (open_value i c f r)
   | None \<Rightarrow> scan_root (i + length c) cs r)"

definition finish_repair :: "repair \<Rightarrow> string \<Rightarrow> string" where
  "finish_repair r input = take (valid_len r) input @ concat (map closing (rp_open r))"

definition fix_json :: "string \<Rightarrow> string" where
  "fix_json input = finish_repair (scan_root 0 (utf8_chars input) \<lparr>rp_open = [], valid_len = 0\<rparr>) input"

datatype partial_json = ParsedJson json | RepairedJson json | FailedJson

definition parse_partial :: "(string \<Rightarrow> json option) \<Rightarrow> string \<Rightarrow> partial_json" where
  "parse_partial from_str text = (case from_str text of
     Some v \<Rightarrow> ParsedJson v
   | None \<Rightarrow> (case from_str (fix_json text) of Some v \<Rightarrow> RepairedJson v | None \<Rightarrow> FailedJson))"

fun partial_value :: "partial_json \<Rightarrow> json option" where
  "partial_value (ParsedJson v) = Some v"
| "partial_value (RepairedJson v) = Some v"
| "partial_value FailedJson = None"

section \<open>A recognizer of JSON\<close>

text \<open>
  The reference: a pushdown recognizer of JSON texts, byte by byte, for JSON whose object keys contain
  no escapes and whose exponents no plus sign. The stack holds the open values, innermost first, on top
  of \<open>JStart\<close> (no value yet) or \<open>JEnd\<close>.
\<close>

datatype jpos =
  JStart | JEnd
| JObjStart | JKey | JAfterKey | JBeforeValue | JObjAfter | JObjComma
| JArrStart | JArrAfter | JArrComma
| JStr | JStrEsc | JStrU nat
| JMinus | JZero | JInt | JDot | JFrac | JExpStart | JExpSign | JExp
| JLit string

definition is_ws :: "char \<Rightarrow> bool" where
  "is_ws b \<longleftrightarrow> b = CHR '' '' \<or> b = CHR 0x09 \<or> b = CHR 0x0A \<or> b = CHR 0x0D"

definition is_text :: "char \<Rightarrow> bool" where
  "is_text b \<longleftrightarrow> 32 \<le> (of_char b :: nat) \<and> b \<noteq> CHR 0x22 \<and> b \<noteq> CHR 0x5C"

definition is_exp :: "char \<Rightarrow> bool" where
  "is_exp b \<longleftrightarrow> b = CHR ''e'' \<or> b = CHR ''E''"

definition jopen :: "char \<Rightarrow> jpos option" where
  "jopen b =
     (if b = CHR 0x22 then Some JStr
      else if b = CHR ''{'' then Some JObjStart
      else if b = CHR ''['' then Some JArrStart
      else if b = CHR ''-'' then Some JMinus
      else if b = CHR ''0'' then Some JZero
      else if is_ascii_digit b then Some JInt
      else if b = CHR ''t'' then Some (JLit ''rue'')
      else if b = CHR ''f'' then Some (JLit ''alse'')
      else if b = CHR ''n'' then Some (JLit ''ull'')
      else None)"

fun jstep :: "char \<Rightarrow> jpos list \<Rightarrow> jpos list option" where
  "jstep b [] = None"
| "jstep b (JStart # q) = (if is_ws b then Some (JStart # q) else map_option (\<lambda>p. p # JEnd # q) (jopen b))"
| "jstep b (JEnd # q) = (if is_ws b then Some (JEnd # q) else None)"
| "jstep b (JObjStart # q) = (if is_ws b then Some (JObjStart # q) else if b = CHR 0x22 then Some (JKey # q)
     else if b = CHR ''}'' then Some q else None)"
| "jstep b (JKey # q) = (if b = CHR 0x22 then Some (JAfterKey # q) else if is_text b then Some (JKey # q) else None)"
| "jstep b (JAfterKey # q) = (if is_ws b then Some (JAfterKey # q) else if b = CHR '':'' then Some (JBeforeValue # q) else None)"
| "jstep b (JBeforeValue # q) = (if is_ws b then Some (JBeforeValue # q) else map_option (\<lambda>p. p # JObjAfter # q) (jopen b))"
| "jstep b (JObjAfter # q) = (if is_ws b then Some (JObjAfter # q) else if b = CHR '','' then Some (JObjComma # q)
     else if b = CHR ''}'' then Some q else None)"
| "jstep b (JObjComma # q) = (if is_ws b then Some (JObjComma # q) else if b = CHR 0x22 then Some (JKey # q) else None)"
| "jstep b (JArrStart # q) = (if is_ws b then Some (JArrStart # q) else if b = CHR '']'' then Some q
     else map_option (\<lambda>p. p # JArrAfter # q) (jopen b))"
| "jstep b (JArrAfter # q) = (if is_ws b then Some (JArrAfter # q) else if b = CHR '','' then Some (JArrComma # q)
     else if b = CHR '']'' then Some q else None)"
| "jstep b (JArrComma # q) = (if is_ws b then Some (JArrComma # q) else map_option (\<lambda>p. p # JArrAfter # q) (jopen b))"
| "jstep b (JStr # q) = (if b = CHR 0x22 then Some q else if b = CHR 0x5C then Some (JStrEsc # q)
     else if is_text b then Some (JStr # q) else None)"
| "jstep b (JStrEsc # q) = (if b = CHR ''u'' then Some (JStrU 0 # q)
     else if b \<in> set (CHR 0x22 # CHR 0x5C # ''/bfnrt'') then Some (JStr # q) else None)"
| "jstep b (JStrU n # q) = (if is_ascii_hexdigit b then Some ((if n = 3 then JStr else JStrU (n + 1)) # q) else None)"
| "jstep b (JMinus # q) = (if b = CHR ''0'' then Some (JZero # q) else if is_ascii_digit b then Some (JInt # q) else None)"
| "jstep b (JZero # q) = (if b = CHR ''.'' then Some (JDot # q) else if is_exp b then Some (JExpStart # q) else jstep b q)"
| "jstep b (JInt # q) = (if is_ascii_digit b then Some (JInt # q) else if b = CHR ''.'' then Some (JDot # q)
     else if is_exp b then Some (JExpStart # q) else jstep b q)"
| "jstep b (JDot # q) = (if is_ascii_digit b then Some (JFrac # q) else None)"
| "jstep b (JFrac # q) = (if is_ascii_digit b then Some (JFrac # q) else if is_exp b then Some (JExpStart # q) else jstep b q)"
| "jstep b (JExpStart # q) = (if b = CHR ''-'' then Some (JExpSign # q) else if is_ascii_digit b then Some (JExp # q) else None)"
| "jstep b (JExpSign # q) = (if is_ascii_digit b then Some (JExp # q) else None)"
| "jstep b (JExp # q) = (if is_ascii_digit b then Some (JExp # q) else jstep b q)"
| "jstep b (JLit rest # q) = (case rest of
     r # rest' \<Rightarrow> if b = r then Some (JLit rest' # q) else None | [] \<Rightarrow> jstep b q)"

fun jrun :: "jpos list \<Rightarrow> string \<Rightarrow> jpos list option" where
  "jrun q [] = Some q"
| "jrun q (b # bs) = (case jstep b q of Some q' \<Rightarrow> jrun q' bs | None \<Rightarrow> None)"

definition scalar_done :: "jpos \<Rightarrow> bool" where
  "scalar_done p \<longleftrightarrow> p \<in> {JZero, JInt, JFrac, JExp, JLit []}"

definition jaccepting :: "jpos list \<Rightarrow> bool" where
  "jaccepting q \<longleftrightarrow> q = [JEnd] \<or> (\<exists>p. q = [p, JEnd] \<and> scalar_done p)"

definition json_text :: "string \<Rightarrow> bool" where
  "json_text t \<longleftrightarrow> (case jrun [JStart] t of Some q \<Rightarrow> jaccepting q | None \<Rightarrow> False)"

lemma jrun_append: "jrun q (s @ t) = (case jrun q s of Some q' \<Rightarrow> jrun q' t | None \<Rightarrow> None)"
  by (induction s arbitrary: q) (auto split: option.splits)

section \<open>Closing what is kept\<close>

text \<open>The stack after the kept text, against the open values: what it takes to close them.\<close>

fun container :: "frame \<Rightarrow> jpos \<Rightarrow> bool" where
  "container (FObject _) p \<longleftrightarrow> p = JObjStart \<or> p = JObjAfter"
| "container (FArray _) p \<longleftrightarrow> p = JArrStart \<or> p = JArrAfter"
| "container _ p \<longleftrightarrow> False"

definition containers :: "frame list \<Rightarrow> jpos list \<Rightarrow> bool" where
  "containers fs q \<longleftrightarrow> (\<exists>ps. q = ps @ [JEnd] \<and> list_all2 container fs ps)"

definition closable :: "frame list \<Rightarrow> jpos list \<Rightarrow> bool" where
  "closable fs q \<longleftrightarrow> containers fs q \<or> (\<exists>p q'. q = p # q' \<and> scalar_done p \<and> containers fs q')"

definition kept :: "frame list \<Rightarrow> jpos list \<Rightarrow> bool" where
  "kept fs q \<longleftrightarrow> (case fs of
     FString _ # fs' \<Rightarrow> (\<exists>q'. q = JStr # q' \<and> containers fs' q')
   | FLiteral rest # fs' \<Rightarrow> (\<exists>q'. q = JLit rest # q' \<and> containers fs' q')
   | FNumber # fs' \<Rightarrow> closable fs' q
   | _ \<Rightarrow> closable fs q)"

lemma scalar_closing:
  "scalar_done p \<Longrightarrow> b = CHR ''}'' \<or> b = CHR '']'' \<Longrightarrow> jstep b (p # q) = jstep b q"
  by (auto simp: scalar_done_def is_exp_def is_ascii_digit_def)

lemma close_containers:
  "containers fs q \<Longrightarrow> jrun q (concat (map closing fs)) = Some [JEnd]"
proof (induction fs arbitrary: q)
  case Nil
  then show ?case by (simp add: containers_def)
next
  case (Cons f fs)
  then obtain p ps where q: "q = p # ps @ [JEnd]" "container f p" "list_all2 container fs ps"
    by (auto simp: containers_def list_all2_Cons1)
  then have "jrun (ps @ [JEnd]) (concat (map closing fs)) = Some [JEnd]"
    using Cons.IH by (auto simp: containers_def)
  then show ?case using q by (cases f) (auto simp: is_ws_def)
qed

lemma close_closable:
  assumes "closable fs q"
  shows "\<exists>q'. jrun q (concat (map closing fs)) = Some q' \<and> jaccepting q'"
proof -
  from assms consider "containers fs q" | p q' where "q = p # q'" "scalar_done p" "containers fs q'"
    by (auto simp: closable_def)
  then show ?thesis
  proof cases
    case 1
    then show ?thesis by (simp add: close_containers jaccepting_def)
  next
    case 2
    show ?thesis
    proof (cases fs)
      case Nil
      then show ?thesis using 2 by (auto simp: jaccepting_def containers_def)
    next
      case (Cons f fs')
      have "jrun q (concat (map closing fs)) = jrun q' (concat (map closing fs))"
        using 2 Cons scalar_closing by (cases f) (auto simp: containers_def list_all2_Cons1)
      then show ?thesis using close_containers [OF 2(3)] by (simp add: jaccepting_def)
    qed
  qed
qed

lemma jrun_literal: "jrun (JLit rest # q) rest = Some (JLit [] # q)"
  by (induction rest) auto

lemma close_kept:
  assumes "kept fs q"
  shows "\<exists>q'. jrun q (concat (map closing fs)) = Some q' \<and> jaccepting q'"
proof (cases fs)
  case Nil
  then show ?thesis using assms close_closable [of "[]" q] by (simp add: kept_def)
next
  case (Cons f fs')
  show ?thesis
  proof (cases f)
    case (FString x)
    then show ?thesis using assms Cons close_containers by (auto simp: kept_def jaccepting_def)
  next
    case (FLiteral rest)
    then obtain q' where q: "q = JLit rest # q'" "containers fs' q'" using assms Cons by (auto simp: kept_def)
    have "closable fs' (JLit [] # q')" using q(2) by (auto simp: closable_def scalar_done_def)
    from close_closable [OF this] show ?thesis using q Cons FLiteral by (simp add: jrun_append jrun_literal)
  next
    case FNumber
    then show ?thesis using assms Cons close_closable by (simp add: kept_def)
  next
    case (FObject x)
    then have "closable fs q" using assms Cons by (simp add: kept_def)
    then show ?thesis by (rule close_closable)
  next
    case (FArray x)
    then have "closable fs q" using assms Cons by (simp add: kept_def)
    then show ?thesis by (rule close_closable)
  qed
qed

section \<open>The scanner follows the recognizer\<close>

definition is_high :: "char \<Rightarrow> bool" where
  "is_high b \<longleftrightarrow> 128 \<le> (of_char b :: nat)"

definition ascii_text :: "string \<Rightarrow> bool" where
  "ascii_text s \<longleftrightarrow> list_all (\<lambda>b. \<not> is_high b) s"

lemma ascii_text_simps [simp]: "ascii_text (b # s) \<Longrightarrow> ascii_text s" "ascii_text ''rue''" "ascii_text ''alse''" "ascii_text ''ull''"
  by (simp_all add: ascii_text_def is_high_def)

fun sim :: "frame \<Rightarrow> jpos \<Rightarrow> bool" where
  "sim (FObject pos) p \<longleftrightarrow> p = (case pos of
     ObjStart \<Rightarrow> JObjStart | ObjKey \<Rightarrow> JKey | ObjAfterKey \<Rightarrow> JAfterKey | ObjBeforeValue \<Rightarrow> JBeforeValue
   | ObjAfterValue \<Rightarrow> JObjAfter | ObjAfterComma \<Rightarrow> JObjComma)"
| "sim (FArray pos) p \<longleftrightarrow> p = (case pos of
     ArrStart \<Rightarrow> JArrStart | ArrAfterValue \<Rightarrow> JArrAfter | ArrAfterComma \<Rightarrow> JArrComma)"
| "sim (FString pos) p \<longleftrightarrow> p = (case pos of StrPlain \<Rightarrow> JStr | StrEscape \<Rightarrow> JStrEsc | StrUnicodeEscape n \<Rightarrow> JStrU n)"
| "sim FNumber p \<longleftrightarrow> p \<in> {JMinus, JZero, JInt, JDot, JFrac, JExpStart, JExpSign, JExp}"
| "sim (FLiteral rest) p \<longleftrightarrow> p = JLit rest \<and> ascii_text rest"

text \<open>The enclosing values wait for the end of their current value.\<close>

fun rest_ok :: "frame list \<Rightarrow> jpos list \<Rightarrow> bool" where
  "rest_ok [] q \<longleftrightarrow> q = [JEnd]"
| "rest_ok (f # fs) (p # q) \<longleftrightarrow>
     (f = FObject ObjAfterValue \<and> p = JObjAfter \<or> f = FArray ArrAfterValue \<and> p = JArrAfter) \<and> rest_ok fs q"
| "rest_ok (f # fs) [] \<longleftrightarrow> False"

definition state_ok :: "frame list \<Rightarrow> jpos list \<Rightarrow> bool" where
  "state_ok fs q \<longleftrightarrow> (case (fs, q) of
     (f # fs', p # q') \<Rightarrow> sim f p \<and> rest_ok fs' q' | ([], _) \<Rightarrow> q = [JEnd] | _ \<Rightarrow> False)"

lemma state_ok_simps [simp]:
  "state_ok (f # fs) (p # q) \<longleftrightarrow> sim f p \<and> rest_ok fs q" "state_ok [] q \<longleftrightarrow> q = [JEnd]"
  by (simp_all add: state_ok_def)

lemma state_ok_ConsE:
  assumes "state_ok (f # fs) q"
  obtains p q' where "q = p # q'" "sim f p" "rest_ok fs q'"
  using assms by (cases q) (auto simp: state_ok_def)

lemma rest_ok_cases:
  assumes "rest_ok fs q"
  obtains "fs = []" "q = [JEnd]"
  | fs' q' where "fs = FObject ObjAfterValue # fs'" "q = JObjAfter # q'" "rest_ok fs' q'"
  | fs' q' where "fs = FArray ArrAfterValue # fs'" "q = JArrAfter # q'" "rest_ok fs' q'"
proof (cases fs)
  case Nil
  then show ?thesis using assms that(1) by simp
next
  case (Cons f fs')
  then obtain p q' where "q = p # q'" using assms by (cases q) auto
  then show ?thesis using assms Cons that(2,3) by auto
qed

lemma rest_ok_containers: "rest_ok fs q \<Longrightarrow> containers fs q"
proof (induction fs q rule: rest_ok.induct)
  case (2 f fs p q)
  then obtain ps where "q = ps @ [JEnd]" "list_all2 container fs ps" by (auto simp: containers_def)
  then show ?case using 2(2) by (auto simp: containers_def intro!: exI [of _ "p # ps"])
qed (auto simp: containers_def)

lemma rest_ok_state: "rest_ok fs q \<Longrightarrow> state_ok fs q"
  by (erule rest_ok_cases) simp_all

lemma rest_ok_kept: "rest_ok fs q' \<Longrightarrow> kept fs q \<longleftrightarrow> closable fs q"
  by (erule rest_ok_cases) (simp_all add: kept_def)

lemma kept_simps:
  "kept (FObject x # fs) q \<longleftrightarrow> closable (FObject ObjStart # fs) q"
  "kept (FArray y # fs) q \<longleftrightarrow> closable (FArray ArrStart # fs) q"
  "kept (FString z # fs) q \<longleftrightarrow> (\<exists>q'. q = JStr # q' \<and> containers fs q')"
  "kept (FLiteral rest # fs) q \<longleftrightarrow> (\<exists>q'. q = JLit rest # q' \<and> containers fs q')"
  "kept (FNumber # fs) q \<longleftrightarrow> closable fs q"
  by (auto simp: kept_def closable_def containers_def list_all2_Cons1)

lemma closableI:
  "containers fs q \<Longrightarrow> closable fs q"
  "containers fs q \<Longrightarrow> scalar_done p \<Longrightarrow> closable fs (p # q)"
  by (auto simp: closable_def)

lemma containers_Cons [simp]: "containers (f # fs) (p # q) \<longleftrightarrow> container f p \<and> containers fs q"
  by (auto simp: containers_def list_all2_Cons1 append_eq_Cons_conv)

lemma kept_containers: "rest_ok fs q \<Longrightarrow> kept fs q"
  by (simp add: rest_ok_kept closableI rest_ok_containers)

lemma digit_chars [simp]:
  "is_ascii_digit CHR ''0''" "\<not> is_ascii_digit CHR ''{''" "\<not> is_ascii_digit CHR ''[''" "\<not> is_ascii_digit CHR ''t''"
  "\<not> is_ascii_digit CHR ''f''" "\<not> is_ascii_digit CHR ''n''" "\<not> is_ascii_digit CHR ''-''" "\<not> is_ascii_digit CHR ''.''"
  "\<not> is_ascii_digit CHR ''e''" "\<not> is_ascii_digit CHR ''E''" "\<not> is_ascii_digit CHR '',''" "\<not> is_ascii_digit CHR ''}''"
  "\<not> is_ascii_digit CHR '']''" "\<not> is_ascii_digit CHR 0x22"
  by (simp_all add: is_ascii_digit_def)

lemma opened_digit: "is_ascii_digit b \<Longrightarrow> opened_by [b] = Some FNumber"
  using digit_chars by (auto simp: opened_by_def is_char_def)

lemma opened_simps [simp]:
  "opened_by [CHR 0x22] = Some (FString StrPlain)" "opened_by ''{'' = Some (FObject ObjStart)"
  "opened_by ''['' = Some (FArray ArrStart)" "opened_by ''-'' = Some FNumber"
  "opened_by ''t'' = Some (FLiteral ''rue'')" "opened_by ''f'' = Some (FLiteral ''alse'')"
  "opened_by ''n'' = Some (FLiteral ''ull'')"
  by (simp_all add: opened_by_def is_char_def)

lemma jopen_cases:
  assumes "jopen b = Some p"
  obtains "b = CHR 0x22" "p = JStr" | "b = CHR ''{''" "p = JObjStart" | "b = CHR ''[''" "p = JArrStart"
  | "b = CHR ''-''" "p = JMinus" | "is_ascii_digit b" "p = JZero \<or> p = JInt"
  | "b = CHR ''t''" "p = JLit ''rue''" | "b = CHR ''f''" "p = JLit ''alse''" | "b = CHR ''n''" "p = JLit ''ull''"
proof (cases "is_ascii_digit b")
  case True
  then have "p = JZero \<or> p = JInt"
    using assms digit_chars by (auto simp: jopen_def split: if_splits)
  then show ?thesis using True that(5) by blast
next
  case False
  then show ?thesis using assms that digit_chars(1)
    by (simp add: jopen_def split: if_splits)
qed

lemma opened_sim: "jopen b = Some p \<Longrightarrow> \<exists>v. opened_by [b] = Some v \<and> sim v p"
  by (erule jopen_cases) (auto simp: opened_digit)

lemma jopen_minus: "jopen b = Some p \<Longrightarrow> p = JMinus \<longleftrightarrow> b = CHR ''-''"
  by (erule jopen_cases) auto

lemma opened_kept:
  assumes "jopen b = Some p" and "opened_by [b] = Some v" and "rest_ok fs q" and "p \<noteq> JMinus"
  shows "kept (v # fs) (p # q)"
  using assms(1)
proof (cases rule: jopen_cases)
  case 5
  then have "v = FNumber" "scalar_done p" using assms(2) opened_digit by (auto simp: scalar_done_def)
  then show ?thesis using rest_ok_containers [OF assms(3)] by (simp add: kept_simps closableI)
qed (use assms(2,4) rest_ok_containers [OF assms(3)] in \<open>auto simp: kept_simps closableI\<close>)

lemma ws_opens_nothing: "is_ws b \<Longrightarrow> opened_by [b] = None \<and> jopen b = None"
  by (auto simp: is_ws_def opened_by_def jopen_def is_char_def is_ascii_digit_def)

definition stepped :: "nat \<Rightarrow> repair \<Rightarrow> repair \<Rightarrow> jpos list \<Rightarrow> jpos list \<Rightarrow> bool" where
  "stepped j r r' q' qv \<longleftrightarrow> state_ok (rp_open r') q' \<and> (scalar_done (hd q') \<longrightarrow> valid_len r' = j) \<and>
     (valid_len r' = j \<and> (kept (rp_open r') q' \<or> hd q' = JMinus)
      \<or> valid_len r' = valid_len r \<and> (kept (rp_open r') qv \<or> hd q' = JMinus))"

lemma scalar_done_simps [simp]:
  "scalar_done JZero" "scalar_done JInt" "scalar_done JFrac" "scalar_done JExp" "scalar_done (JLit lit) \<longleftrightarrow> lit = []"
  "\<not> scalar_done JMinus" "\<not> scalar_done JDot" "\<not> scalar_done JExpStart" "\<not> scalar_done JExpSign"
  "\<not> scalar_done JStart" "\<not> scalar_done JEnd" "\<not> scalar_done JObjStart" "\<not> scalar_done JKey"
  "\<not> scalar_done JAfterKey" "\<not> scalar_done JBeforeValue" "\<not> scalar_done JObjAfter" "\<not> scalar_done JObjComma"
  "\<not> scalar_done JArrStart" "\<not> scalar_done JArrAfter" "\<not> scalar_done JArrComma" "\<not> scalar_done JStr"
  "\<not> scalar_done JStrEsc" "\<not> scalar_done (JStrU n)"
  by (simp_all add: scalar_done_def)

lemmas repair_defs = mark_def close_value_def open_value_def set_top_def

lemma stepped_marked:
  "state_ok (rp_open r') q' \<Longrightarrow> valid_len r' = j \<Longrightarrow> kept (rp_open r') q' \<or> hd q' = JMinus \<Longrightarrow> stepped j r r' q' qv"
  by (simp add: stepped_def)

lemma stepped_unmarked:
  "state_ok (rp_open r') q' \<Longrightarrow> \<not> scalar_done (hd q') \<Longrightarrow> valid_len r' = valid_len r \<Longrightarrow> kept (rp_open r') qv \<or> hd q' = JMinus \<Longrightarrow> stepped j r r' q' qv"
  by (simp add: stepped_def)

lemma stepped_open:
  assumes "jopen b = Some p" and "rest_ok (f # fs) (pf # q)" and "rp_open r = g # fs"
  shows "\<exists>v. opened_by [b] = Some v \<and> stepped (Suc i) r (open_value i [b] v (set_top f r)) (p # pf # q) qv
           \<and> stepped (Suc i) r (mark i [b] (open_value i [b] v (set_top f r))) (p # pf # q) qv"
proof -
  obtain v where v: "opened_by [b] = Some v" "sim v p" using opened_sim [OF assms(1)] by blast
  have k: "kept (v # f # fs) (p # pf # q) \<or> p = JMinus" using opened_kept [OF assms(1) v(1) assms(2)] by blast
  have m: "p = JMinus \<longleftrightarrow> b = CHR ''-''" by (rule jopen_minus [OF assms(1)])
  show ?thesis
    using v k m assms(2,3) by (intro exI [of _ v]) (auto simp: stepped_def repair_defs)
qed

lemma after_value_ok:
  assumes "rest_ok (rp_open r) q" and "jstep b q = Some q'" and "kept (rp_open r) qv"
  shows "stepped (Suc i) r (after_value i [b] r) q' qv"
  using assms(1)
proof (cases rule: rest_ok_cases)
  case 1
  then show ?thesis using assms(2,3) by (intro stepped_unmarked) (auto simp: after_value_def split: if_splits)
next
  case (2 fs' q0)
  consider "is_ws b" "q' = q" | "b = CHR '',''" "q' = JObjComma # q0" | "b = CHR ''}''" "q' = q0"
    using assms(2) 2 by (auto split: if_splits)
  then show ?thesis
  proof cases
    case 1
    then show ?thesis using 2 assms(3) by (intro stepped_unmarked) (auto simp: after_value_def is_ws_def)
  next
    case _: 2
    then show ?thesis using 2 assms(3) by (intro stepped_unmarked) (auto simp: after_value_def set_top_def kept_simps)
  next
    case 3
    then show ?thesis using 2
      by (intro stepped_marked) (auto simp: after_value_def repair_defs rest_ok_state kept_containers)
  qed
next
  case (3 fs' q0)
  consider "is_ws b" "q' = q" | "b = CHR '',''" "q' = JArrComma # q0" | "b = CHR '']''" "q' = q0"
    using assms(2) 3 by (auto split: if_splits)
  then show ?thesis
  proof cases
    case 1
    then show ?thesis using 3 assms(3) by (intro stepped_unmarked) (auto simp: after_value_def is_ws_def)
  next
    case _: 2
    then show ?thesis using 3 assms(3) by (intro stepped_unmarked) (auto simp: after_value_def set_top_def kept_simps)
  next
    case _: 3
    then show ?thesis using 3
      by (intro stepped_marked) (auto simp: after_value_def repair_defs rest_ok_state kept_containers)
  qed
qed

lemma step_object_ok:
  assumes r: "rp_open r = FObject pos # fs" and "rest_ok fs q" and "sim (FObject pos) p"
    and "jstep b (p # q) = Some q'" and "kept (rp_open r) qv"
  shows "stepped (Suc i) r (step_object pos i [b] r) q' qv"
proof (cases pos)
  case ObjStart
  consider "is_ws b" "q' = JObjStart # q" | "b = CHR 0x22" "q' = JKey # q" | "b = CHR ''}''" "q' = q"
    using assms(3,4) ObjStart by (auto split: if_splits)
  then show ?thesis
  proof cases
    case 3
    then show ?thesis using assms ObjStart
      by (intro stepped_marked) (auto simp: repair_defs rest_ok_state kept_containers)
  qed (use assms ObjStart in \<open>auto intro!: stepped_unmarked simp: set_top_def is_ws_def kept_simps\<close>)
next
  case ObjKey
  then show ?thesis using assms by (auto intro!: stepped_unmarked simp: set_top_def kept_simps split: if_splits)
next
  case ObjAfterKey
  then show ?thesis using assms
    by (auto intro!: stepped_unmarked simp: set_top_def kept_simps is_ws_def split: if_splits)
next
  case ObjBeforeValue
  show ?thesis
  proof (cases "is_ws b")
    case True
    then show ?thesis using assms ObjBeforeValue ws_opens_nothing [OF True] by (intro stepped_unmarked) auto
  next
    case False
    then obtain p' where p': "jopen b = Some p'" "q' = p' # JObjAfter # q" using assms(3,4) ObjBeforeValue by auto
    show ?thesis
      using stepped_open [OF p'(1), of "FObject ObjAfterValue" fs JObjAfter q r _ i qv] assms(1,2) p'(2) ObjBeforeValue by auto
  qed
next
  case ObjAfterValue
  then show ?thesis using assms by (simp del: jstep.simps, intro after_value_ok [of r "JObjAfter # q"]) auto
next
  case ObjAfterComma
  then show ?thesis using assms
    by (auto intro!: stepped_unmarked simp: set_top_def kept_simps is_ws_def split: if_splits)
qed

lemma step_array_ok:
  assumes r: "rp_open r = FArray pos # fs" and rest: "rest_ok fs q" and "sim (FArray pos) p"
    and "jstep b (p # q) = Some q'" and "kept (rp_open r) qv"
  shows "stepped (Suc i) r (step_array pos i [b] r) q' qv"
proof (cases pos)
  case ArrStart
  consider "is_ws b" "q' = JArrStart # q" | "b = CHR '']''" "q' = q"
    | p' where "\<not> is_ws b" "b \<noteq> CHR '']''" "jopen b = Some p'" "q' = p' # JArrAfter # q"
    using assms(3,4) ArrStart by (auto split: if_splits)
  then show ?thesis
  proof cases
    case 1
    then show ?thesis using assms ArrStart ws_opens_nothing [OF 1(1)] rest_ok_containers [OF rest]
      by (intro stepped_marked) (auto simp: mark_def is_ws_def kept_simps closableI)
  next
    case 2
    then show ?thesis using assms ArrStart
      by (intro stepped_marked) (auto simp: repair_defs rest_ok_state kept_containers)
  next
    case (3 p')
    then show ?thesis
      using stepped_open [OF 3(3), of "FArray ArrAfterValue" fs JArrAfter q r _ i qv] assms(1,2) ArrStart by auto
  qed
next
  case ArrAfterValue
  consider "is_ws b" "q' = JArrAfter # q" | "b = CHR '',''" "q' = JArrComma # q" | "b = CHR '']''" "q' = q"
    using assms(3,4) ArrAfterValue by (auto split: if_splits)
  then show ?thesis
  proof cases
    case 1
    then show ?thesis using assms ArrAfterValue rest_ok_containers [OF rest]
      by (intro stepped_marked) (auto simp: mark_def is_ws_def kept_simps closableI)
  next
    case 2
    then show ?thesis using assms ArrAfterValue by (intro stepped_unmarked) (auto simp: set_top_def kept_simps)
  next
    case 3
    then show ?thesis using assms ArrAfterValue
      by (intro stepped_marked) (auto simp: repair_defs rest_ok_state kept_containers)
  qed
next
  case ArrAfterComma
  show ?thesis
  proof (cases "is_ws b")
    case True
    then show ?thesis using assms ArrAfterComma ws_opens_nothing [OF True] by (intro stepped_unmarked) auto
  next
    case False
    then obtain p' where p': "jopen b = Some p'" "q' = p' # JArrAfter # q" using assms(3,4) ArrAfterComma by auto
    show ?thesis
      using stepped_open [OF p'(1), of "FArray ArrAfterValue" fs JArrAfter q r _ i qv] assms(1,2) p'(2) ArrAfterComma by auto
  qed
qed

lemma step_string_ok:
  assumes r: "rp_open r = FString pos # fs" and rest: "rest_ok fs q" and "sim (FString pos) p"
    and "jstep b (p # q) = Some q'" and "kept (rp_open r) qv"
  shows "stepped (Suc i) r (step_string pos i [b] r) q' qv"
proof (cases pos)
  case StrPlain
  consider "b = CHR 0x22" "q' = q" | "b = CHR 0x5C" "q' = JStrEsc # q"
    | "b \<noteq> CHR 0x22" "b \<noteq> CHR 0x5C" "q' = JStr # q"
    using assms(3,4) StrPlain by (auto split: if_splits)
  then show ?thesis
  proof cases
    case 1
    then show ?thesis using assms StrPlain
      by (intro stepped_marked) (auto simp: repair_defs rest_ok_state kept_containers)
  next
    case 2
    then show ?thesis using assms StrPlain by (intro stepped_unmarked) (auto simp: set_top_def kept_simps)
  next
    case 3
    then show ?thesis using assms StrPlain rest_ok_containers [OF rest]
      by (intro stepped_marked) (auto simp: mark_def kept_simps)
  qed
next
  case StrEscape
  consider "b = CHR ''u''" "q' = JStrU 0 # q" | "b \<noteq> CHR ''u''" "q' = JStr # q"
    using assms(3,4) StrEscape by (auto split: if_splits)
  then show ?thesis
  proof cases
    case 1
    then show ?thesis using assms StrEscape by (intro stepped_unmarked) (auto simp: set_top_def kept_simps)
  next
    case 2
    then show ?thesis using assms StrEscape rest_ok_containers [OF rest]
      by (intro stepped_marked) (auto simp: mark_def set_top_def kept_simps)
  qed
next
  case (StrUnicodeEscape n)
  then have hex: "is_ascii_hexdigit b" "q' = (if n = 3 then JStr else JStrU (n + 1)) # q"
    using assms(3,4) by (auto split: if_splits)
  show ?thesis
  proof (cases "n = 3")
    case True
    then show ?thesis using hex assms StrUnicodeEscape rest_ok_containers [OF rest]
      by (intro stepped_marked) (auto simp: is_char_def mark_def set_top_def kept_simps)
  next
    case False
    then show ?thesis using hex assms StrUnicodeEscape
      by (intro stepped_unmarked) (auto simp: is_char_def set_top_def kept_simps)
  qed
qed

definition number_sign :: "char \<Rightarrow> bool" where
  "number_sign b \<longleftrightarrow> b = CHR ''e'' \<or> b = CHR ''E'' \<or> b = CHR ''-'' \<or> b = CHR ''.''"

lemma rest_rejects: "rest_ok fs q \<Longrightarrow> is_ascii_digit b \<or> number_sign b \<Longrightarrow> jstep b q = None"
  by (erule rest_ok_cases) (auto simp: is_ws_def number_sign_def is_ascii_digit_def)

lemma number_step:
  assumes "sim FNumber p" and "rest_ok fs q" and "jstep b (p # q) = Some q'"
  shows "is_ascii_digit b \<and> (\<exists>p'. q' = p' # q \<and> sim FNumber p' \<and> scalar_done p')
       \<or> p \<noteq> JMinus \<and> \<not> is_ascii_digit b \<and> number_sign b \<and> (\<exists>p'. q' = p' # q \<and> sim FNumber p' \<and> \<not> scalar_done p')
       \<or> p \<noteq> JMinus \<and> \<not> is_ascii_digit b \<and> \<not> number_sign b \<and> scalar_done p \<and> jstep b q = Some q'"
  using assms(1)
  by (simp only: sim.simps insert_iff empty_iff)
     (elim disjE; use assms(3) rest_rejects [OF assms(2), of b] in \<open>force simp: is_exp_def number_sign_def split: if_splits\<close>)

lemma step_number_ok:
  assumes r: "rp_open r = FNumber # fs" and rest: "rest_ok fs q" and "sim FNumber p"
    and "jstep b (p # q) = Some q'" and "kept (rp_open r) qv \<or> p = JMinus"
  shows "stepped (Suc i) r (step_number i [b] r) q' qv"
  using number_step [OF assms(3) rest assms(4)]
proof (elim disjE conjE exE)
  fix p' assume "is_ascii_digit b" "q' = p' # q" "sim FNumber p'" "scalar_done p'"
  then show ?thesis using r rest rest_ok_containers [OF rest]
    by (intro stepped_marked) (auto simp: step_number_def is_char_def mark_def kept_simps closableI)
next
  fix p' assume "p \<noteq> JMinus" "\<not> is_ascii_digit b" "number_sign b" "q' = p' # q" "sim FNumber p'" "\<not> scalar_done p'"
  then show ?thesis using r rest assms(5)
    by (intro stepped_unmarked) (auto simp: step_number_def is_char_def number_sign_def)
next
  assume *: "p \<noteq> JMinus" "\<not> is_ascii_digit b" "\<not> number_sign b" "scalar_done p" "jstep b q = Some q'"
  let ?r = "r\<lparr>rp_open := fs\<rparr>"
  have "kept fs qv" using * assms(5) r rest by (simp add: kept_simps rest_ok_kept)
  then have "stepped (Suc i) ?r (after_value i [b] ?r) q' qv" using * rest by (intro after_value_ok) auto
  then show ?thesis using * r by (simp add: step_number_def is_char_def number_sign_def end_scalar_def stepped_def)
qed

lemma step_literal_ok:
  assumes r: "rp_open r = FLiteral lit # fs" and rest: "rest_ok fs q" and "sim (FLiteral lit) p"
    and "jstep b (p # q) = Some q'" and "kept (rp_open r) qv"
  shows "stepped (Suc i) r (step_literal lit i [b] r) q' qv"
proof (cases lit)
  case Nil
  let ?r = "r\<lparr>rp_open := fs\<rparr>"
  have "closable fs qv" using assms(5) r Nil by (auto simp: kept_simps intro: closableI(2) simp: scalar_done_def)
  then have "stepped (Suc i) ?r (after_value i [b] ?r) q' qv"
    using assms(3,4) rest Nil by (intro after_value_ok) (auto simp: rest_ok_kept)
  then show ?thesis using r Nil by (simp add: step_literal_def end_scalar_def stepped_def)
next
  case (Cons a lit')
  then have "b = a" "q' = JLit lit' # q" "ascii_text lit'" using assms(3,4) by (auto split: if_splits)
  then show ?thesis using r rest Cons rest_ok_containers [OF rest]
    by (intro stepped_marked) (auto simp: step_literal_def mark_def set_top_def kept_simps)
qed

lemma step_single:
  assumes "rp_open r = f # fs" and "state_ok (rp_open r) q" and "jstep b q = Some q'"
    and "kept (rp_open r) qv \<or> hd q = JMinus"
  shows "\<exists>r'. repair_step i [b] r = (True, r') \<and> stepped (Suc i) r r' q' qv"
proof -
  obtain p q0 where q: "q = p # q0" "sim f p" "rest_ok fs q0"
    using assms(1,2) by (auto elim: state_ok_ConsE)
  have k: "kept (rp_open r) qv" if "f \<noteq> FNumber"
    using assms(4) q(1,2) that by (cases f) (auto split: object_pos.splits array_pos.splits string_pos.splits)
  show ?thesis
  proof (cases f)
    case (FObject pos)
    then show ?thesis using step_object_ok [of r pos fs q0 p b q' qv i] assms(1,3) q k by (simp add: repair_step_def)
  next
    case (FArray pos)
    then show ?thesis using step_array_ok [of r pos fs q0 p b q' qv i] assms(1,3) q k by (simp add: repair_step_def)
  next
    case (FString pos)
    then show ?thesis using step_string_ok [of r pos fs q0 p b q' qv i] assms(1,3) q k by (simp add: repair_step_def)
  next
    case FNumber
    then show ?thesis using step_number_ok [of r fs q0 p b q' qv i] assms(1,3,4) q by (simp add: repair_step_def)
  next
    case (FLiteral lit)
    then show ?thesis using step_literal_ok [of r lit fs q0 p b q' qv i] assms(1,3) q k by (simp add: repair_step_def)
  qed
qed

section \<open>Characters of several bytes\<close>

text \<open>What UTF-8 guarantees: a character is one byte below 128 or several bytes from 128 on.\<close>

definition encoded_char :: "string \<Rightarrow> bool" where
  "encoded_char c \<longleftrightarrow> (\<exists>b. c = [b] \<and> \<not> is_high b) \<or> 2 \<le> length c \<and> list_all is_high c"

definition well_encoded :: "string \<Rightarrow> bool" where
  "well_encoded s \<longleftrightarrow> list_all encoded_char (utf8_chars s)"

lemma high_facts:
  assumes "is_high b"
  shows "\<not> is_ws b" "\<not> is_ascii_digit b" "\<not> is_ascii_hexdigit b" "jopen b = None" "\<not> is_exp b"
    "b \<notin> set (CHR 0x22 # CHR 0x5C # '',:{}[]/bfnrtu.-'')"
proof -
  have neq: "b \<noteq> c" if "(of_char c :: nat) < 128" for c
    using assms that by (auto simp: is_high_def)
  have digit: "\<not> is_ascii_digit b" using assms by (simp add: is_high_def is_ascii_digit_def)
  then show "\<not> is_ascii_digit b" .
  show "\<not> is_ascii_hexdigit b" using digit assms by (simp add: is_high_def is_ascii_hexdigit_def)
  show "\<not> is_ws b" "\<not> is_exp b" "b \<notin> set (CHR 0x22 # CHR 0x5C # '',:{}[]/bfnrtu.-'')"
    by (simp_all add: is_ws_def is_exp_def neq)
  show "jopen b = None" by (simp add: jopen_def neq digit)
qed

lemma high_rest: "rest_ok fs q \<Longrightarrow> is_high b \<Longrightarrow> jstep b q = None"
  using high_facts [of b] by (erule_tac rest_ok_cases) auto

lemma high_step:
  assumes "sim f p" and "rest_ok fs q" and "is_high b" and "jstep b (p # q) = Some q'"
  shows "(f = FString StrPlain \<or> f = FObject ObjKey) \<and> q' = p # q"
proof -
  note h = high_facts [OF assms(3)] and n = high_rest [OF assms(2,3)]
  show ?thesis
  proof (cases f)
    case (FObject pos)
    then show ?thesis using assms(1,4) h by (cases pos) (auto split: if_splits)
  next
    case (FArray pos)
    then show ?thesis using assms(1,4) h by (cases pos) (auto split: if_splits)
  next
    case (FString pos)
    then show ?thesis using assms(1,4) h by (cases pos) (auto split: if_splits)
  next
    case FNumber
    then show ?thesis using assms(1,4) h n by (simp only: sim.simps insert_iff empty_iff) (elim disjE; simp split: if_splits)
  next
    case (FLiteral lit)
    then show ?thesis using assms(1,3,4) n by (cases lit) (auto simp: ascii_text_def split: if_splits)
  qed
qed

lemma high_run:
  assumes "sim f p" and "rest_ok fs q" and "list_all is_high c" and "jrun (p # q) c = Some q'" and "c \<noteq> []"
  shows "(f = FString StrPlain \<or> f = FObject ObjKey) \<and> q' = p # q"
  using assms(3-5)
proof (induction c)
  case (Cons b c)
  then obtain q1 where q1: "jstep b (p # q) = Some q1" "jrun q1 c = Some q'" by (auto split: option.splits)
  with high_step [OF assms(1,2) _ q1(1)] Cons.prems have "f = FString StrPlain \<or> f = FObject ObjKey" "q1 = p # q" by auto
  then show ?case using Cons.IH q1(2) Cons.prems by (cases c) auto
qed simp

lemma step_high:
  assumes "rp_open r = f # fs" and "state_ok (rp_open r) q" and "list_all is_high c" and "2 \<le> length c"
    and "jrun q c = Some q'" and "kept (rp_open r) qv \<or> hd q = JMinus"
  shows "\<exists>r'. step_times (len_utf16 c) i c r = (True, r') \<and> stepped (i + length c) r r' q' qv"
proof -
  obtain p q0 where q: "q = p # q0" "sim f p" "rest_ok fs q0"
    using assms(1,2) by (auto elim: state_ok_ConsE)
  have c: "c \<noteq> [b]" "c \<noteq> []" for b using assms(4) by auto
  have hr: "f = FString StrPlain \<or> f = FObject ObjKey" "q' = q"
    using high_run [OF q(2,3) assms(3) _ c(2)] assms(5) q(1) by auto
  then show ?thesis
  proof (elim disjE)
    assume f: "f = FString StrPlain"
    have step: "repair_step i c r' = (True, mark i c r')" if "rp_open r' = f # fs" for r'
      using that f c by (simp add: repair_step_def)
    have "step_times (len_utf16 c) i c r = (True, mark i c r)"
      using assms(1) by (simp add: len_utf16_def numeral_2_eq_2 step mark_def)
    moreover have "kept (rp_open r) q" using f q assms(1) rest_ok_containers by (auto simp: kept_simps)
    ultimately show ?thesis using assms(2) hr(2) by (auto intro!: stepped_marked simp: mark_def)
  next
    assume f: "f = FObject ObjKey"
    have step: "repair_step i c r = (True, r)" using assms(1) f c by (simp add: repair_step_def)
    have "step_times (len_utf16 c) i c r = (True, r)" by (simp add: len_utf16_def numeral_2_eq_2 step)
    then show ?thesis using assms(2,6) hr(2) q(1,2) f by (auto intro!: stepped_unmarked)
  qed
qed

lemma step_char:
  assumes "rp_open r = f # fs" and "state_ok (rp_open r) q" and "encoded_char c"
    and "jrun q c = Some q'" and "kept (rp_open r) qv \<or> hd q = JMinus"
  shows "\<exists>r'. step_times (len_utf16 c) i c r = (True, r') \<and> stepped (i + length c) r r' q' qv"
  using assms(3) unfolding encoded_char_def
proof (elim disjE exE conjE)
  fix b assume b: "c = [b]"
  then have "jstep b q = Some q'" using assms(4) by (auto split: option.splits)
  from step_single [OF assms(1,2) this assms(5), of i] show ?thesis using b by (auto simp: len_utf16_def)
next
  assume "2 \<le> length c" "list_all is_high c"
  then show ?thesis using step_high [OF assms(1,2) _ _ assms(4,5)] by blast
qed

section \<open>The whole scan\<close>

text \<open>What the scan has read and kept.\<close>

definition scanned :: "string \<Rightarrow> repair \<Rightarrow> jpos list \<Rightarrow> bool" where
  "scanned rd r q \<longleftrightarrow> jrun [JStart] rd = Some q \<and> valid_len r \<le> length rd
     \<and> (scalar_done (hd q) \<longrightarrow> valid_len r = length rd)
     \<and> (hd q = JMinus \<or> (\<exists>qv. jrun [JStart] (take (valid_len r) rd) = Some qv \<and> kept (rp_open r) qv))"

lemma kept_Nil [simp]: "\<not> kept fs []"
  by (auto simp: kept_def closable_def containers_def split: list.splits frame.splits)

lemma scanned_step:
  assumes "scanned rd r q" and "jrun q c = Some q'"
    and "\<And>qv. kept (rp_open r) qv \<or> hd q = JMinus \<Longrightarrow> stepped (length rd + length c) r r' q' qv"
  shows "scanned (rd @ c) r' q' \<and> state_ok (rp_open r') q'"
proof -
  have run: "jrun [JStart] (rd @ c) = Some q'" and len: "valid_len r \<le> length rd"
    using assms(1,2) by (simp_all add: scanned_def jrun_append)
  obtain qv where qv: "kept (rp_open r) qv \<or> hd q = JMinus"
    and real: "qv = [] \<or> jrun [JStart] (take (valid_len r) rd) = Some qv"
    using assms(1) by (auto simp: scanned_def)
  show ?thesis
    using assms(3) [OF qv] run len real by (auto simp: stepped_def scanned_def)
qed

lemma scan_chars_scanned:
  assumes "scanned rd r q" and "state_ok (rp_open r) q" and "list_all encoded_char cs"
    and "jrun q (concat cs) = Some q'" and "hd q' \<noteq> JMinus"
  shows "\<exists>n qv. valid_len (scan_chars (length rd) cs r) = n \<and> n \<le> length (rd @ concat cs)
           \<and> jrun [JStart] (take n (rd @ concat cs)) = Some qv \<and> kept (rp_open (scan_chars (length rd) cs r)) qv"
  using assms
proof (induction cs arbitrary: rd r q)
  case Nil
  then show ?case by (auto simp: scanned_def)
next
  case (Cons c cs)
  obtain q1 where q1: "jrun q c = Some q1" "jrun q1 (concat cs) = Some q'"
    using Cons.prems(4) by (auto simp: jrun_append split: option.splits)
  show ?case
  proof (cases "rp_open r")
    case Nil
    then have "hd q \<noteq> JMinus" using Cons.prems(2) by simp
    moreover have "step_times (len_utf16 c) (length rd) c r = (False, r)"
      using Nil by (simp add: len_utf16_def numeral_2_eq_2 repair_step_def)
    ultimately show ?thesis using Cons.prems(1) Nil by (auto simp: scanned_def)
  next
    case (Cons f fs)
    note step = step_char [OF Cons Cons.prems(2) _ q1(1), of _ "length rd"]
    have enc: "encoded_char c" "list_all encoded_char cs" using Cons.prems(3) by auto
    obtain r1 where r1: "step_times (len_utf16 c) (length rd) c r = (True, r1)"
      using step [OF enc(1), of "[]"] step [OF enc(1)] Cons.prems(1) by (auto simp: scanned_def)
    have "stepped (length rd + length c) r r1 q1 qv" if "kept (rp_open r) qv \<or> hd q = JMinus" for qv
      using step [OF enc(1) that] r1 by auto
    from scanned_step [OF Cons.prems(1) q1(1) this] have
      "scanned (rd @ c) r1 q1" "state_ok (rp_open r1) q1" by auto
    from Cons.IH [OF this enc(2) q1(2) Cons.prems(5)] show ?thesis using r1 by simp
  qed
qed

lemma scan_root_scanned:
  assumes "list_all is_ws rd" and "list_all encoded_char cs"
    and "jrun [JStart] (concat cs) = Some q'" and "hd q' \<noteq> JMinus" and "q' \<noteq> [JStart]"
    and "r = \<lparr>rp_open = [], valid_len = 0\<rparr>"
  shows "\<exists>n qv. valid_len (scan_root (length rd) cs r) = n \<and> n \<le> length (rd @ concat cs)
           \<and> jrun [JStart] (take n (rd @ concat cs)) = Some qv \<and> kept (rp_open (scan_root (length rd) cs r)) qv"
  using assms
proof (induction cs arbitrary: rd)
  case (Cons c cs)
  have ws: "jrun [JStart] rd = Some [JStart]" if "list_all is_ws rd" for rd
    using that by (induction rd) auto
  have "\<not> (2 \<le> length c \<and> list_all is_high c)"
  proof
    assume "2 \<le> length c \<and> list_all is_high c"
    then obtain b c' where "c = b # c'" "is_high b" by (cases c) auto
    then show False using Cons.prems(3) high_facts [of b] by simp
  qed
  then obtain b where c: "c = [b]" using Cons.prems(2) by (auto simp: encoded_char_def)
  show ?case
  proof (cases "is_ws b")
    case True
    then have "jrun [JStart] (concat cs) = Some q'" using Cons.prems(3) c by simp
    then show ?thesis
      using Cons.IH [of "rd @ [b]"] Cons.prems True c ws_opens_nothing [OF True] by simp
  next
    case False
    then obtain p where p: "jopen b = Some p" "jrun [p, JEnd] (concat cs) = Some q'"
      using Cons.prems(3) c by (auto split: option.splits)
    obtain v where v: "opened_by [b] = Some v" "sim v p" using opened_sim [OF p(1)] by blast
    let ?r = "open_value (length rd) [b] v r"
    have run: "jrun [JStart] (rd @ [b]) = Some [p, JEnd]"
      using ws [OF Cons.prems(1)] p(1) False by (simp add: jrun_append)
    have "kept [v] [p, JEnd]" if "p \<noteq> JMinus" using opened_kept [OF p(1) v(1) _ that, of "[]" "[JEnd]"] by simp
    then have "scanned (rd @ [b]) ?r [p, JEnd]"
      using run jopen_minus [OF p(1)] Cons.prems(6) by (auto simp: scanned_def repair_defs)
    moreover have "state_ok (rp_open ?r) [p, JEnd]" using v(2) Cons.prems(6) by (simp add: repair_defs)
    ultimately show ?thesis
      using scan_chars_scanned [of "rd @ [b]" ?r "[p, JEnd]" cs q'] Cons.prems(2,4) p(2) c v(1) by simp
  qed
qed simp

text \<open>A text that was cut right after the minus sign of a number.\<close>

definition ends_in_sign :: "string \<Rightarrow> bool" where
  "ends_in_sign t \<longleftrightarrow> (case jrun [JStart] t of Some (JMinus # _) \<Rightarrow> True | _ \<Rightarrow> False)"

lemma jopen_not_start: "jopen b = Some p \<Longrightarrow> p \<noteq> JStart"
  by (erule jopen_cases) auto

lemma jstep_started: "JStart \<notin> set q \<Longrightarrow> jstep b q = Some q' \<Longrightarrow> JStart \<notin> set q'"
  by (induction b q rule: jstep.induct) (auto dest: jopen_not_start split: if_splits list.splits)

lemma jrun_started: "JStart \<notin> set q \<Longrightarrow> jrun q t = Some q' \<Longrightarrow> JStart \<notin> set q'"
  by (induction t arbitrary: q) (auto dest: jstep_started split: option.splits)

lemma jrun_blank:
  "jrun [JStart] t = Some [JStart] \<Longrightarrow> list_all is_ws t"
proof (induction t)
  case (Cons b t)
  show ?case
  proof (cases "is_ws b")
    case False
    then obtain p where "jopen b = Some p" "jrun [p, JEnd] t = Some [JStart]"
      using Cons.prems by (auto split: option.splits)
    then show ?thesis using jrun_started [of "[p, JEnd]" t] jopen_not_start [of b p] by auto
  qed (use Cons in auto)
qed simp


section \<open>Complete texts\<close>

text \<open>The step that closes the top-level value keeps its character, or ends a scalar at white space.\<close>

lemma step_end:
  assumes "rp_open r = f # fs" and "state_ok (rp_open r) q" and "jstep b q = Some [JEnd]"
    and "repair_step i [b] r = (True, r')"
  shows "valid_len r' = Suc i \<or> is_ws b \<and> scalar_done (hd q) \<and> valid_len r' = valid_len r"
proof -
  obtain p q0 where q: "q = p # q0" "sim f p" "rest_ok fs q0"
    using assms(1,2) by (auto elim: state_ok_ConsE)
  have ended: "valid_len (after_value i [b] (r\<lparr>rp_open := fs\<rparr>)) = Suc i
      \<or> is_ws b \<and> valid_len (after_value i [b] (r\<lparr>rp_open := fs\<rparr>)) = valid_len r" if "jstep b q0 = Some [JEnd]"
    using q(3) that by (cases rule: rest_ok_cases) (auto simp: after_value_def repair_defs is_ws_def split: if_splits)
  show ?thesis
  proof (cases f)
    case (FObject pos)
    then show ?thesis using q assms
      by (cases pos) (auto simp: repair_step_def repair_defs after_value_def split: if_splits option.splits)
  next
    case (FArray pos)
    then show ?thesis using q assms
      by (cases pos) (auto simp: repair_step_def repair_defs split: if_splits option.splits)
  next
    case (FString pos)
    then show ?thesis using q assms
      by (cases pos) (auto simp: repair_step_def repair_defs split: if_splits)
  next
    case FNumber
    have "is_ascii_digit b \<or> \<not> is_ascii_digit b \<and> \<not> number_sign b \<and> scalar_done p \<and> jstep b q0 = Some [JEnd]"
      using number_step [OF _ q(3), of p b "[JEnd]"] q assms(3) FNumber by auto
    then show ?thesis using ended q(1) assms(1,4) FNumber
      by (auto simp: repair_step_def step_number_def is_char_def number_sign_def end_scalar_def mark_def)
  next
    case (FLiteral lit)
    then show ?thesis using ended q(1,2) assms(1,3,4)
      by (cases lit) (auto simp: repair_step_def step_literal_def end_scalar_def split: if_splits)
  qed
qed

lemma scan_chars_complete:
  assumes "scanned rd r q" and "state_ok (rp_open r) q" and "list_all encoded_char cs"
    and "jrun q (concat cs) = Some q'" and "jaccepting q'" and "rp_open r = [] \<longrightarrow> list_all is_ws (drop (valid_len r) rd)"
  shows "list_all is_ws (drop (valid_len (scan_chars (length rd) cs r)) (rd @ concat cs))
       \<and> concat (map closing (rp_open (scan_chars (length rd) cs r))) = []"
  using assms
proof (induction cs arbitrary: rd r q)
  case Nil
  show ?case
  proof (cases "rp_open r")
    case (Cons f fs)
    then obtain p where "q = [p, JEnd]" "sim f p" "fs = []" "scalar_done p"
      using Nil.prems(2,4,5) by (auto simp: jaccepting_def elim!: state_ok_ConsE dest: rest_ok_state elim: rest_ok_cases)
    moreover from this have "closing f = []" by (cases f) (auto split: object_pos.splits array_pos.splits string_pos.splits)
    ultimately show ?thesis using Nil.prems(1) Cons by (auto simp: scanned_def)
  qed (use Nil.prems(6) in simp)
next
  case (Cons c cs)
  obtain q1 where q1: "jrun q c = Some q1" "jrun q1 (concat cs) = Some q'"
    using Cons.prems(4) by (auto simp: jrun_append split: option.splits)
  show ?case
  proof (cases "rp_open r")
    case Nil
    have ws: "list_all is_ws s" if "jrun [JEnd] s = Some q2" for s q2
      using that by (induction s) (auto split: if_splits)
    have "step_times (len_utf16 c) (length rd) c r = (False, r)"
      using Nil by (simp add: len_utf16_def numeral_2_eq_2 repair_step_def)
    then show ?thesis using Cons.prems(1,2,4,6) Nil ws [of "concat (c # cs)" q'] by (auto simp: scanned_def)
  next
    case (Cons f fs)
    note step = step_char [OF Cons Cons.prems(2) _ q1(1), of _ "length rd"]
    have enc: "encoded_char c" "list_all encoded_char cs" using Cons.prems(3) by auto
    obtain r1 where r1: "step_times (len_utf16 c) (length rd) c r = (True, r1)"
      using step [OF enc(1)] Cons.prems(1) by (auto simp: scanned_def)
    have st: "stepped (length rd + length c) r r1 q1 qv" if "kept (rp_open r) qv \<or> hd q = JMinus" for qv
      using step [OF enc(1) that] r1 by auto
    note nx = scanned_step [OF Cons.prems(1) q1(1) st]
    have "rp_open r1 = [] \<longrightarrow> list_all is_ws (drop (valid_len r1) (rd @ c))"
    proof
      assume e: "rp_open r1 = []"
      then have q1e: "q1 = [JEnd]" using nx by simp
      obtain p q0 where q: "q = p # q0" "sim f p" "rest_ok fs q0"
        using Cons Cons.prems(2) by (auto elim: state_ok_ConsE)
      from enc(1) show "list_all is_ws (drop (valid_len r1) (rd @ c))" unfolding encoded_char_def
      proof (elim disjE exE conjE)
        fix b assume c: "c = [b]"
        have "jstep b q = Some [JEnd]" using q1(1) q1e c by (auto split: option.splits)
        moreover have "repair_step (length rd) [b] r = (True, r1)"
          using r1 c by (auto simp: len_utf16_def split: prod.splits bool.splits)
        ultimately show ?thesis
          using step_end [OF Cons Cons.prems(2)] Cons.prems(1) c by (fastforce simp: scanned_def)
      next
        assume "2 \<le> length c" "list_all is_high c"
        then show ?thesis using high_run [OF q(2,3), of c q1] q1(1) q1e q by (cases c) auto
      qed
    qed
    then show ?thesis
      using Cons.IH [of "rd @ c" r1 q1] nx enc(2) q1(2) Cons.prems(5) r1 by simp
  qed
qed

lemma json_text_started:
  assumes "json_text t"
  obtains q where "jrun [JStart] t = Some q" "jaccepting q" "q \<noteq> [JStart]" "hd q \<noteq> JMinus"
  using assms by (auto simp: json_text_def jaccepting_def split: option.splits) (metis list.sel(1) scalar_done_simps(6))

lemma scan_root_complete:
  assumes "list_all is_ws rd" and "list_all encoded_char cs" and "jrun [JStart] (concat cs) = Some q'"
    and "jaccepting q'" and "r = \<lparr>rp_open = [], valid_len = 0\<rparr>"
  shows "list_all is_ws (drop (valid_len (scan_root (length rd) cs r)) (rd @ concat cs))
       \<and> concat (map closing (rp_open (scan_root (length rd) cs r))) = []"
  using assms
proof (induction cs arbitrary: rd)
  case Nil
  then show ?case by (auto simp: jaccepting_def)
next
  case (Cons c cs)
  have ws: "jrun [JStart] rd = Some [JStart]" if "list_all is_ws rd" for rd
    using that by (induction rd) auto
  obtain b where c: "c = [b]"
    using Cons.prems(2,3) high_facts(1,4) by (auto simp: encoded_char_def neq_Nil_conv Suc_le_length_iff numeral_2_eq_2)
  show ?case
  proof (cases "is_ws b")
    case True
    then show ?thesis
      using Cons.IH [of "rd @ [b]"] Cons.prems True c ws_opens_nothing [OF True] by simp
  next
    case False
    then obtain p where p: "jopen b = Some p" "jrun [p, JEnd] (concat cs) = Some q'"
      using Cons.prems(3) c by (auto split: option.splits)
    obtain v where v: "opened_by [b] = Some v" "sim v p" using opened_sim [OF p(1)] by blast
    let ?r = "open_value (length rd) [b] v r"
    have run: "jrun [JStart] (rd @ [b]) = Some [p, JEnd]"
      using ws [OF Cons.prems(1)] p(1) False by (simp add: jrun_append)
    have "kept [v] [p, JEnd]" if "p \<noteq> JMinus" using opened_kept [OF p(1) v(1) _ that, of "[]" "[JEnd]"] by simp
    then have "scanned (rd @ [b]) ?r [p, JEnd]"
      using run jopen_minus [OF p(1)] Cons.prems(5) by (auto simp: scanned_def repair_defs)
    moreover have "state_ok (rp_open ?r) [p, JEnd]" "rp_open ?r \<noteq> []" using v(2) Cons.prems(5) by (simp_all add: repair_defs)
    ultimately show ?thesis
      using scan_chars_complete [of "rd @ [b]" ?r "[p, JEnd]" cs q'] Cons.prems(2,4) p(2) c v(1) by simp
  qed
qed

text \<open>
  A complete JSON text is left as it is, up to the white space that follows it.
\<close>

lemma fix_json_complete:
  assumes "json_text t" and "well_encoded t"
  shows "\<exists>spaces. t = fix_json t @ spaces \<and> list_all is_ws spaces"
proof -
  obtain q where q: "jrun [JStart] t = Some q" "jaccepting q" using assms(1) by (rule json_text_started)
  let ?r = "scan_root 0 (utf8_chars t) \<lparr>rp_open = [], valid_len = 0\<rparr>"
  have "list_all is_ws (drop (valid_len ?r) t)" "concat (map closing (rp_open ?r)) = []"
    using scan_root_complete [of "[]" "utf8_chars t" q] assms(2) q by (simp_all add: well_encoded_def)
  moreover from this(2) have "t = fix_json t @ drop (valid_len ?r) t"
    by (simp only: fix_json_def finish_repair_def append_Nil2 append_take_drop_id)
  ultimately show ?thesis by blast
qed

lemma fix_json_complete_witness: "\<exists>spaces. ''[1] '' = fix_json ''[1] '' @ spaces \<and> list_all is_ws spaces"
  by (rule fix_json_complete)
     (simp_all add: json_text_def jaccepting_def well_encoded_def encoded_char_def jopen_def
        is_high_def is_ws_def is_exp_def is_ascii_digit_def is_continuation_def)

section \<open>Witnesses and limits\<close>

lemma demo_cut:
  "json_text ((''[1, {'' @ dq @ ''a'') @ (dq @ '':2}]''))"
  "well_encoded (''[1, {'' @ dq @ ''a'')" "\<not> ends_in_sign (''[1, {'' @ dq @ ''a'')"
  by (simp_all add: json_text_def jaccepting_def well_encoded_def encoded_char_def ends_in_sign_def jopen_def
      is_high_def is_ws_def is_text_def is_exp_def is_ascii_digit_def is_continuation_def)

lemma demo_fixed: "fix_json (''[1, {'' @ dq @ ''a'') = ''[1, {}]''"
  by (simp add: fix_json_def finish_repair_def repair_step_def repair_defs opened_by_def is_char_def len_utf16_def
      step_number_def end_scalar_def after_value_def is_ascii_digit_def is_continuation_def)


text \<open>
  Where the repair fails on a cut of a JSON text: right after a minus sign that follows an opening
  bracket, which is kept, and after a key with an escaped quote and a colon, whose rest is read as a
  value.
\<close>

lemma fix_json_sign: "json_text ''[-1]'' \<and> fix_json ''[-'' = ''[-]'' \<and> \<not> json_text ''[-]''"
  by (simp add: fix_json_def finish_repair_def repair_step_def repair_defs opened_by_def is_char_def len_utf16_def
      json_text_def jaccepting_def scalar_done_def jopen_def is_ws_def is_exp_def is_ascii_digit_def is_continuation_def)

lemma fix_json_escaped_key:
  "fix_json (''{'' @ dq @ [CHR 0x5C] @ dq @ '':b'' @ dq @ '': 1'')
     = ''{'' @ dq @ [CHR 0x5C] @ dq @ '':b'' @ dq @ '': 1'' @ dq @ ''}''"
  by (simp add: fix_json_def finish_repair_def repair_step_def repair_defs opened_by_def is_char_def len_utf16_def
      is_ascii_digit_def is_continuation_def)

lemma fix_json_plus_exponent: "fix_json ''1e+5'' = ''1''"
  by (simp add: fix_json_def finish_repair_def repair_step_def repair_defs opened_by_def is_char_def len_utf16_def
      step_number_def end_scalar_def after_value_def is_ascii_digit_def is_continuation_def)

end
