(* ===== verification/Stream_Pump.thy ===== *)
theory Stream_Pump
  imports Transform_Stream
begin

text \<open>
  The deadlines of a model operation (\<open>src/aimux-core/src/timeout.rs\<close>) and the pump of a text stream
  (\<open>stream_in_operation\<close> in \<open>src/aimux-core/src/generate.rs\<close>): a task that reads the provider stream under
  the caller's abort signal and the deadlines, a bounded channel with an overflow slot for a terminal
  error, and the consumer's receive. An instant is a number of nanoseconds; \<open>instant_max\<close> is the last
  instant the platform can represent. Every function is one poll; whatever happens between polls is a
  step of the relation.
\<close>

section \<open>Deadlines\<close>

definition NANOS_PER_MS :: nat where "NANOS_PER_MS = 1000000"

record timeout_configuration =
  total_ms :: "u64 option"
  step_ms :: "u64 option"
  first_chunk_ms :: "u64 option"
  tc_chunk_ms :: "u64 option"

record timeout_deadline =
  at_instant :: nat
  dl_label :: string
  duration_ms :: u64

record operation_timeout =
  ot_total :: "timeout_deadline option"
  ot_step :: "timeout_deadline option"

definition deadline_after :: "nat \<Rightarrow> nat \<Rightarrow> string \<Rightarrow> u64 \<Rightarrow> aimux_error + timeout_deadline" where
  "deadline_after instant_max start label ms =
     (if start + unat ms * NANOS_PER_MS \<le> instant_max
      then Inr \<lparr>at_instant = start + unat ms * NANOS_PER_MS, dl_label = label, duration_ms = ms\<rparr>
      else Inl (invalid_argument (label @ '' timeout of '' @ show_nat (unat ms) @ ''ms exceeds the supported range'')))"

definition deadline_error :: "timeout_deadline \<Rightarrow> aimux_error" where
  "deadline_error d = Timeout (dl_label d @ '' timeout of '' @ show_nat (unat (duration_ms d)) @ ''ms exceeded'')"

text \<open>\<open>Option::map(..).transpose()\<close> for an optional duration.\<close>

definition optional_deadline ::
  "nat \<Rightarrow> nat \<Rightarrow> string \<Rightarrow> u64 option \<Rightarrow> aimux_error + timeout_deadline option" where
  "optional_deadline instant_max start label ms = (case ms of
     None \<Rightarrow> Inr None
   | Some d \<Rightarrow> map_sum (\<lambda>e. e) Some (deadline_after instant_max start label d))"

definition new_operation_timeout :: "nat \<Rightarrow> nat \<Rightarrow> timeout_configuration \<Rightarrow> aimux_error + operation_timeout" where
  "new_operation_timeout instant_max now c =
     (case optional_deadline instant_max now ''Total'' (total_ms c) of Inl e \<Rightarrow> Inl e | Inr tot \<Rightarrow>
      (case optional_deadline instant_max now ''Step'' (step_ms c) of Inl e \<Rightarrow> Inl e | Inr step \<Rightarrow>
       (case optional_deadline instant_max now ''First chunk'' (first_chunk_ms c) of Inl e \<Rightarrow> Inl e | Inr _ \<Rightarrow>
        (case optional_deadline instant_max now ''Chunk'' (tc_chunk_ms c) of Inl e \<Rightarrow> Inl e | Inr _ \<Rightarrow>
           Inr \<lparr>ot_total = tot, ot_step = step\<rparr>))))"

definition ot_deadline :: "operation_timeout \<Rightarrow> timeout_deadline option" where
  "ot_deadline t = (case (ot_total t, ot_step t) of
     (Some tot, Some step) \<Rightarrow> (if at_instant step < at_instant tot then Some step else Some tot)
   | (Some tot, None) \<Rightarrow> Some tot
   | (None, step) \<Rightarrow> step)"

definition min_deadline :: "timeout_deadline option \<Rightarrow> timeout_deadline option \<Rightarrow> timeout_deadline option" where
  "min_deadline a b = (case (a, b) of
     (Some x, Some y) \<Rightarrow> Some (if at_instant y < at_instant x then y else x)
   | (Some x, None) \<Rightarrow> Some x
   | (None, y) \<Rightarrow> y)"

definition passed :: "nat \<Rightarrow> timeout_deadline option \<Rightarrow> bool" where
  "passed now d = (case d of Some d \<Rightarrow> at_instant d \<le> now | None \<Rightarrow> False)"

text \<open>
  \<open>run_until\<close>: the polls of an operation, each with whether the signal is raised, the instant, and the
  operation's answer. \<open>None\<close> is an operation that is still pending.
\<close>

fun run_until ::
  "timeout_deadline option \<Rightarrow> (bool \<times> nat \<times> (aimux_error + 'a) option) list \<Rightarrow> (aimux_error + 'a) option" where
  "run_until d [] = None"
| "run_until d ((raised, now, answer) # polls) =
     (if raised then Some (Inl (Aborted ''request aborted''))
      else if passed now d then Some (Inl (deadline_error (the d)))
      else (case answer of Some r \<Rightarrow> Some r | None \<Rightarrow> run_until d polls))"

section \<open>The pump\<close>

type_synonym item = "aimux_error + stream_part"

definition STREAM_PUMP_CHANNEL_CAPACITY :: nat where "STREAM_PUMP_CHANNEL_CAPACITY = 256"

definition is_output_chunk :: "stream_part \<Rightarrow> bool" where
  "is_output_chunk part = (case part of
     TextDelta _ delta _ \<Rightarrow> delta \<noteq> []
   | ReasoningDelta _ delta _ \<Rightarrow> delta \<noteq> []
   | ToolInputDelta _ delta _ \<Rightarrow> delta \<noteq> []
   | ToolCallPart _ \<Rightarrow> True | FilePart _ \<Rightarrow> True | ReasoningFilePart _ \<Rightarrow> True
   | _ \<Rightarrow> False)"

definition is_terminal_item :: "item \<Rightarrow> bool" where
  "is_terminal_item item = (case item of
     Inr (Finish _ _ _) \<Rightarrow> True
   | Inr _ \<Rightarrow> False
   | Inl e \<Rightarrow> \<not> is_recoverable_stream_error e)"

definition is_output_item :: "item \<Rightarrow> bool" where
  "is_output_item item = (case item of Inr part \<Rightarrow> is_output_chunk part | Inl _ \<Rightarrow> False)"

text \<open>
  Where the pump stands: in its loop, waiting to send an item (that arrived and started to wait at an
  instant) into the full channel, or stopped, its sender dropped.
\<close>

datatype pump_pc = Looping | Sending item nat nat | Stopped

text \<open>
  The pump with its channel. The last four fields are history, which the code does not keep: the items
  put into the channel or the overflow slot, the items received, how long the provider has been waited
  for since the chunk deadline was armed, and whether a deadline left the range of instants.
\<close>

record pump =
  clock :: nat
  abort_raised :: bool
  source_items :: "item list"
  channel :: "(nat \<times> item) list"
  overflow_error :: "(nat \<times> aimux_error) option"
  chunk_deadline :: "timeout_deadline option"
  pc :: pump_pc
  receiver :: bool
  sent :: "item list"
  received :: "item list"
  charged :: nat
  out_of_range :: bool

record pump_config =
  instant_max :: nat
  operation_deadline :: "timeout_deadline option"
  cfg_chunk_ms :: "u64 option"

definition stop :: "pump \<Rightarrow> pump" where
  "stop s = s\<lparr>pc := Stopped\<rparr>"

definition channel_full :: "pump \<Rightarrow> bool" where
  "channel_full s \<longleftrightarrow> STREAM_PUMP_CHANNEL_CAPACITY \<le> length (channel s)"

definition enqueue_item :: "nat \<Rightarrow> item \<Rightarrow> pump \<Rightarrow> pump" where
  "enqueue_item ts item s = s\<lparr>channel := channel s @ [(ts, item)], sent := sent s @ [item]\<rparr>"

definition send_terminal_err :: "aimux_error \<Rightarrow> pump \<Rightarrow> pump" where
  "send_terminal_err err s =
     (if \<not> receiver s then s
      else if channel_full s then s\<lparr>overflow_error := Some (clock s, err), sent := sent s @ [Inl err]\<rparr>
      else enqueue_item (clock s) (Inl err) s)"

text \<open>After an item was sent: stop at a terminal item, and an output chunk arms the chunk deadline anew.\<close>

definition item_sent :: "pump_config \<Rightarrow> item \<Rightarrow> pump \<Rightarrow> pump" where
  "item_sent c item s =
     (if is_terminal_item item then stop s
      else if is_output_item item
      then (case optional_deadline (instant_max c) (clock s) ''Chunk'' (cfg_chunk_ms c) of
              Inr d \<Rightarrow> s\<lparr>chunk_deadline := d, pc := Looping, charged := 0, out_of_range := False\<rparr>
            | Inl e \<Rightarrow> stop (send_terminal_err e s))
      else s\<lparr>pc := Looping\<rparr>)"

text \<open>One poll of the loop; \<open>ready\<close> is whether the provider stream has an answer.\<close>

definition pump_poll :: "pump_config \<Rightarrow> bool \<Rightarrow> pump \<Rightarrow> pump" where
  "pump_poll c ready s =
     (if abort_raised s then stop s
      else if passed (clock s) (operation_deadline c)
      then stop (send_terminal_err (deadline_error (the (operation_deadline c))) s)
      else if passed (clock s) (chunk_deadline s)
      then stop (send_terminal_err (deadline_error (the (chunk_deadline s))) s)
      else if \<not> ready then s
      else (case source_items s of
              [] \<Rightarrow> stop s
            | item # rest \<Rightarrow>
                (let s1 = s\<lparr>source_items := rest\<rparr> in
                 if \<not> receiver s then stop s1
                 else if channel_full s then s1\<lparr>pc := Sending item (clock s) (clock s)\<rparr>
                 else item_sent c item (enqueue_item (clock s) item s1))))"

text \<open>One poll of the send into a full channel; the time it took is not charged to the provider.\<close>

definition shift_deadline :: "pump_config \<Rightarrow> nat \<Rightarrow> pump \<Rightarrow> pump" where
  "shift_deadline c started s = (case chunk_deadline s of
     None \<Rightarrow> s
   | Some d \<Rightarrow>
       (let shifted = at_instant d + (clock s - started) in
        if shifted \<le> instant_max c then s\<lparr>chunk_deadline := Some (d\<lparr>at_instant := shifted\<rparr>)\<rparr>
        else s\<lparr>out_of_range := True\<rparr>))"

definition send_poll :: "pump_config \<Rightarrow> item \<Rightarrow> nat \<Rightarrow> nat \<Rightarrow> pump \<Rightarrow> pump" where
  "send_poll c item arrived started s =
     (if abort_raised s then stop s
      else if passed (clock s) (operation_deadline c)
      then stop (send_terminal_err (deadline_error (the (operation_deadline c))) s)
      else if \<not> receiver s then stop s
      else if channel_full s then s
      else (let s1 = enqueue_item arrived item s in
            item_sent c item (if is_output_item item then s1 else shift_deadline c started s1)))"

section \<open>The consumer\<close>

datatype recv_result = RecvItem item | RecvEnd | RecvPending

definition pump_recv :: "pump \<Rightarrow> recv_result \<times> pump" where
  "pump_recv s = (case channel s of
     (_, item) # rest \<Rightarrow> (RecvItem item, s\<lparr>channel := rest, received := received s @ [item]\<rparr>)
   | [] \<Rightarrow>
       (if pc s \<noteq> Stopped then (RecvPending, s)
        else (case overflow_error s of
                Some (_, e) \<Rightarrow> (RecvItem (Inl e), s\<lparr>overflow_error := None, received := received s @ [Inl e]\<rparr>)
              | None \<Rightarrow> (RecvEnd, s))))"

text \<open>\<open>AbortOnDrop\<close>: dropping the stream drops the receiver and aborts the pump task.\<close>

definition drop_stream :: "pump \<Rightarrow> pump" where
  "drop_stream s = s\<lparr>receiver := False, pc := Stopped\<rparr>"

text \<open>The pump task, its consumer, the caller and the clock.\<close>

datatype pump_label = Polls bool | Sends | Receives recv_result | Drops | Aborts | Ticks nat

inductive pump_step :: "pump_config \<Rightarrow> pump \<Rightarrow> pump_label \<Rightarrow> pump \<Rightarrow> bool" for c where
  polls: "pc s = Looping \<Longrightarrow> pump_step c s (Polls ready) (pump_poll c ready s)"
| sends: "pc s = Sending item arrived started \<Longrightarrow> pump_step c s Sends (send_poll c item arrived started s)"
| receives: "receiver s \<Longrightarrow> pump_recv s = (r, s') \<Longrightarrow> pump_step c s (Receives r) s'"
| drops: "pump_step c s Drops (drop_stream s)"
| aborts: "pump_step c s Aborts (s\<lparr>abort_raised := True\<rparr>)"
| ticks: "pump_step c s (Ticks dt)
    (s\<lparr>clock := clock s + dt, charged := charged s + (if pc s = Looping then dt else 0)\<rparr>)"

inductive_cases pump_stepE: "pump_step c s l t"

text \<open>
  The state the pump is started in: at an instant, with the first-chunk deadline that was armed when
  the setup of the stream began, \<open>waited\<close> nanoseconds ago.
\<close>

definition new_pump :: "nat \<Rightarrow> timeout_deadline option \<Rightarrow> nat \<Rightarrow> item list \<Rightarrow> pump" where
  "new_pump now first waited items =
     \<lparr>clock = now, abort_raised = False, source_items = items, channel = [], overflow_error = None,
      chunk_deadline = first, pc = Looping, receiver = True, sent = [], received = [], charged = waited,
      out_of_range = False\<rparr>"

section \<open>Invariants\<close>

definition overflow_items :: "pump \<Rightarrow> item list" where
  "overflow_items s = (case overflow_error s of Some (_, e) \<Rightarrow> [Inl e] | None \<Rightarrow> [])"

definition in_flight :: "pump \<Rightarrow> item list" where
  "in_flight s = map snd (channel s) @ overflow_items s"

text \<open>The channel: first in, first out, bounded, and the overflow slot is used only by the last item.\<close>

definition channel_ok :: "pump \<Rightarrow> bool" where
  "channel_ok s \<longleftrightarrow> received s @ in_flight s = sent s \<and> length (channel s) \<le> STREAM_PUMP_CHANNEL_CAPACITY \<and>
     (overflow_error s \<noteq> None \<longrightarrow> pc s = Stopped)"

text \<open>What the provider's items amount to: everything up to and including the first terminal item.\<close>

definition upto_terminal :: "item list \<Rightarrow> item list" where
  "upto_terminal items =
     takeWhile (\<lambda>i. \<not> is_terminal_item i) items @ take 1 (dropWhile (\<lambda>i. \<not> is_terminal_item i) items)"

definition timer_error :: "aimux_error \<Rightarrow> bool" where
  "timer_error e \<longleftrightarrow> (\<exists>d. e = deadline_error d) \<or> (\<exists>m. e = invalid_argument m)"

text \<open>What was sent when the pump stops: all of it, or a cut with one error of a timer, or cancelled.\<close>

definition concluded :: "item list \<Rightarrow> pump \<Rightarrow> bool" where
  "concluded items s \<longleftrightarrow> sent s = upto_terminal items \<or>
     (\<exists>pre e. sent s = pre @ [Inl e] \<and> prefix pre (upto_terminal items) \<and> timer_error e) \<or>
     (abort_raised s \<or> \<not> receiver s) \<and> prefix (sent s) (upto_terminal items)"

definition order_ok :: "item list \<Rightarrow> pump \<Rightarrow> bool" where
  "order_ok items s \<longleftrightarrow> (case pc s of
     Looping \<Rightarrow> sent s @ source_items s = items \<and> list_all (\<lambda>i. \<not> is_terminal_item i) (sent s)
   | Sending item _ _ \<Rightarrow>
       sent s @ item # source_items s = items \<and> list_all (\<lambda>i. \<not> is_terminal_item i) (sent s)
   | Stopped \<Rightarrow> concluded items s)"

lemma upto_terminal_append:
  "list_all (\<lambda>i. \<not> is_terminal_item i) xs \<Longrightarrow> upto_terminal (xs @ ys) = xs @ upto_terminal ys"
  by (induction xs) (auto simp: upto_terminal_def)

lemma upto_terminal_simps:
  "upto_terminal [] = []"
  "upto_terminal (x # xs) = (if is_terminal_item x then [x] else x # upto_terminal xs)"
  by (simp_all add: upto_terminal_def)

lemma cut_prefix:
  "list_all (\<lambda>i. \<not> is_terminal_item i) xs \<Longrightarrow> prefix xs (upto_terminal (xs @ ys))"
  by (simp add: upto_terminal_append)

subsection \<open>Sending\<close>

lemma send_terminal_err_simps [simp]:
  "clock (send_terminal_err e s) = clock s" "abort_raised (send_terminal_err e s) = abort_raised s"
  "receiver (send_terminal_err e s) = receiver s" "received (send_terminal_err e s) = received s"
  "sent (send_terminal_err e s) = (if receiver s then sent s @ [Inl e] else sent s)"
  by (simp_all add: send_terminal_err_def enqueue_item_def)

lemma stop_simps [simp]: "pc (stop s) = Stopped" "sent (stop s) = sent s" "channel (stop s) = channel s"
    "overflow_error (stop s) = overflow_error s" "received (stop s) = received s" "receiver (stop s) = receiver s"
    "abort_raised (stop s) = abort_raised s" "chunk_deadline (stop s) = chunk_deadline s"
  by (simp_all add: stop_def)

lemma channel_ok_timer:
  "channel_ok s \<Longrightarrow> overflow_error s = None \<Longrightarrow> channel_ok (stop (send_terminal_err e s))"
  by (auto simp: channel_ok_def send_terminal_err_def stop_def enqueue_item_def in_flight_def overflow_items_def
      channel_full_def)

lemma channel_ok_enqueue:
  "channel_ok s \<Longrightarrow> overflow_error s = None \<Longrightarrow> \<not> channel_full s \<Longrightarrow> channel_ok (enqueue_item ts item s)"
  by (auto simp: channel_ok_def enqueue_item_def in_flight_def overflow_items_def channel_full_def)

lemma channel_ok_item_sent:
  "channel_ok s \<Longrightarrow> overflow_error s = None \<Longrightarrow> channel_ok (item_sent c item s)"
  using channel_ok_timer [of s]
  by (auto simp: item_sent_def channel_ok_def in_flight_def overflow_items_def split: sum.splits)

lemma shift_deadline_channel [simp]:
  "channel_ok (shift_deadline c st s) = channel_ok s" "overflow_error (shift_deadline c st s) = overflow_error s"
  "sent (shift_deadline c st s) = sent s" "source_items (shift_deadline c st s) = source_items s"
  "receiver (shift_deadline c st s) = receiver s" "abort_raised (shift_deadline c st s) = abort_raised s"
  by (auto simp: shift_deadline_def channel_ok_def in_flight_def overflow_items_def Let_def split: option.splits)

lemma enqueue_item_simps [simp]:
  "overflow_error (enqueue_item ts item s) = overflow_error s" "sent (enqueue_item ts item s) = sent s @ [item]"
  "source_items (enqueue_item ts item s) = source_items s" "receiver (enqueue_item ts item s) = receiver s"
  "clock (enqueue_item ts item s) = clock s" "chunk_deadline (enqueue_item ts item s) = chunk_deadline s"
  "charged (enqueue_item ts item s) = charged s" "out_of_range (enqueue_item ts item s) = out_of_range s"
  by (simp_all add: enqueue_item_def)

lemma no_overflow: "channel_ok s \<Longrightarrow> pc s \<noteq> Stopped \<Longrightarrow> overflow_error s = None"
  unfolding channel_ok_def by blast

lemma channel_ok_step:
  assumes "channel_ok s" and "pump_step c s l t"
  shows "channel_ok t"
  using assms(2)
proof cases
  case (polls ready)
  then have none: "overflow_error s = None" using assms(1) by (simp add: no_overflow)
  have src: "channel_ok (s\<lparr>source_items := r\<rparr>)" "channel_ok (stop s)" "channel_ok (stop (s\<lparr>source_items := r\<rparr>))"
      "channel_ok (s\<lparr>source_items := r, pc := Sending i a st\<rparr>)" for r i a st
    using assms(1) none by (auto simp: channel_ok_def in_flight_def overflow_items_def)
  have snd: "channel_ok (item_sent c i (enqueue_item ts i (s\<lparr>source_items := r\<rparr>)))" if "\<not> channel_full s" for i ts r
    using that none src(1) by (intro channel_ok_item_sent channel_ok_enqueue) (auto simp: channel_full_def)
  show ?thesis
    using polls assms(1) none src snd channel_ok_timer
    by (auto simp: pump_poll_def Let_def split: list.splits)
next
  case (sends item arrived started)
  then have none: "overflow_error s = None" using assms(1) by (simp add: no_overflow)
  have "channel_ok (stop s)" using assms(1) none by (auto simp: channel_ok_def in_flight_def overflow_items_def)
  moreover have "channel_ok (enqueue_item arrived item s)" if "\<not> channel_full s"
    using that assms(1) none by (intro channel_ok_enqueue)
  ultimately show ?thesis
    using sends assms(1) none channel_ok_timer
    by (auto simp: send_poll_def Let_def intro!: channel_ok_item_sent)
next
  case (receives r)
  then show ?thesis
    using assms(1)
    by (auto simp: pump_recv_def channel_ok_def in_flight_def overflow_items_def split: list.splits if_splits option.splits)
qed (use assms(1) in \<open>auto simp: channel_ok_def in_flight_def overflow_items_def drop_stream_def\<close>)

lemma concludedI:
  "sent s = upto_terminal items \<Longrightarrow> concluded items s"
  "sent s = pre @ [Inl e] \<Longrightarrow> prefix pre (upto_terminal items) \<Longrightarrow> timer_error e \<Longrightarrow> concluded items s"
  "abort_raised s \<or> \<not> receiver s \<Longrightarrow> prefix (sent s) (upto_terminal items) \<Longrightarrow> concluded items s"
  by (auto simp: concluded_def)

lemma concluded_timer:
  "prefix (sent s) (upto_terminal items) \<Longrightarrow> timer_error e \<Longrightarrow> concluded items (stop (send_terminal_err e s))"
  by (cases "receiver s") (auto simp: concluded_def)

lemma timer_errors: "timer_error (deadline_error d)" "optional_deadline m n lb ms = Inl e \<Longrightarrow> timer_error e"
  by (auto simp: timer_error_def optional_deadline_def deadline_after_def split: option.splits if_splits)

lemma order_ok_item_sent:
  assumes "sent s @ source_items s = items" and "sent s = pre @ [item]"
    and "list_all (\<lambda>i. \<not> is_terminal_item i) pre"
  shows "order_ok items (item_sent c item s)"
proof (cases "is_terminal_item item")
  case True
  then have "sent s = upto_terminal items"
    using assms by (simp add: upto_terminal_append upto_terminal_simps flip: assms(1))
  then show ?thesis using True by (simp add: item_sent_def order_ok_def concludedI(1))
next
  case False
  then have nt: "list_all (\<lambda>i. \<not> is_terminal_item i) (sent s)" using assms by simp
  then have "prefix (sent s) (upto_terminal items)" using cut_prefix assms(1) by blast
  then have "order_ok items (stop (send_terminal_err e s))" if "timer_error e" for e
    using that by (simp add: order_ok_def concluded_timer)
  then show ?thesis
    using False nt assms(1) timer_errors(2) by (auto simp: item_sent_def order_ok_def split: sum.splits)
qed

lemma order_ok_step:
  assumes "order_ok items s" and "pump_step c s l t"
  shows "order_ok items t"
  using assms(2)
proof cases
  case (polls ready)
  then have s: "sent s @ source_items s = items" "list_all (\<lambda>i. \<not> is_terminal_item i) (sent s)"
    using assms(1) by (simp_all add: order_ok_def)
  have pre: "prefix (sent s) (upto_terminal items)" using cut_prefix [OF s(2)] s(1) by blast
  have timer: "order_ok items (stop (send_terminal_err (deadline_error d) s))" for d
    using pre by (simp add: order_ok_def concluded_timer timer_errors)
  have cancelled: "order_ok items (stop s')" if "sent s' = sent s" "abort_raised s' \<or> \<not> receiver s'" for s'
    using that pre by (simp add: order_ok_def concludedI(3))
  have exhausted: "order_ok items (stop s)" if "source_items s = []"
    using that s upto_terminal_append [OF s(2), of "[]"] by (simp add: order_ok_def concludedI(1) upto_terminal_simps)
  have accepted: "order_ok items (item_sent c item (enqueue_item (clock s) item (s\<lparr>source_items := rest\<rparr>)))"
    if "source_items s = item # rest" for item rest
    by (rule order_ok_item_sent [where pre = "sent s"]) (use that s in auto)
  have waiting: "order_ok items (s\<lparr>source_items := rest, pc := Sending item a st\<rparr>)"
    if "source_items s = item # rest" for item rest a st
    using that s by (simp add: order_ok_def)
  show ?thesis
    using polls assms(1) timer cancelled exhausted accepted waiting
    by (auto simp: pump_poll_def Let_def split: list.splits)
next
  case (sends item arrived started)
  then have s: "sent s @ item # source_items s = items" "list_all (\<lambda>i. \<not> is_terminal_item i) (sent s)"
    using assms(1) by (simp_all add: order_ok_def)
  have pre: "prefix (sent s) (upto_terminal items)" using cut_prefix [OF s(2)] s(1) by blast
  have timer: "order_ok items (stop (send_terminal_err (deadline_error d) s))" for d
    using pre by (simp add: order_ok_def concluded_timer timer_errors)
  have cancelled: "order_ok items (stop s)" if "abort_raised s \<or> \<not> receiver s"
    using that pre by (simp add: order_ok_def concludedI(3))
  have "order_ok items (item_sent c item (if is_output_item item then enqueue_item arrived item s
      else shift_deadline c started (enqueue_item arrived item s)))"
    by (rule order_ok_item_sent [where pre = "sent s"]) (use s in auto)
  then show ?thesis
    using sends assms(1) timer cancelled by (auto simp: send_poll_def Let_def)
next
  case (receives r)
  then have "sent t = sent s" "pc t = pc s" "source_items t = source_items s" "abort_raised t = abort_raised s"
      "receiver t = receiver s"
    by (auto simp: pump_recv_def split: list.splits if_splits option.splits)
  then show ?thesis using assms(1) by (cases "pc s") (simp_all add: order_ok_def concluded_def)
next
  case drops
  have "prefix (sent s) (upto_terminal items) \<or> concluded items s"
    using assms(1) cut_prefix by (force simp: order_ok_def split: pump_pc.splits)
  then show ?thesis using drops by (auto simp: order_ok_def concluded_def drop_stream_def)
next
  case aborts
  then show ?thesis using assms(1) by (auto simp: order_ok_def concluded_def split: pump_pc.splits)
next
  case (ticks dt)
  then show ?thesis using assms(1) by (auto simp: order_ok_def concluded_def split: pump_pc.splits)
qed

subsection \<open>Deadlines charge the provider only\<close>

text \<open>
  The chunk deadline stands exactly as far in the future as the provider's time budget has left;
  while the pump waits for the consumer, that is counted from the instant the wait began.
\<close>

definition charge_ok :: "pump \<Rightarrow> bool" where
  "charge_ok s \<longleftrightarrow> (case chunk_deadline s of
     None \<Rightarrow> True
   | Some d \<Rightarrow> out_of_range s \<or> (case pc s of
       Looping \<Rightarrow> at_instant d + charged s = clock s + unat (duration_ms d) * NANOS_PER_MS
     | Sending _ _ started \<Rightarrow>
         started \<le> clock s \<and> at_instant d + charged s = started + unat (duration_ms d) * NANOS_PER_MS
     | Stopped \<Rightarrow> True))"

lemma charge_ok_stop [simp]: "charge_ok (stop s)"
  by (simp add: charge_ok_def stop_def split: option.splits)

lemma optional_deadline_Inr:
  "optional_deadline m now lb ms = Inr (Some d) \<Longrightarrow> at_instant d = now + unat (duration_ms d) * NANOS_PER_MS"
  by (auto simp: optional_deadline_def deadline_after_def split: option.splits if_splits)

lemma charge_ok_output:
  "is_output_item item \<Longrightarrow> charge_ok (item_sent c item s)"
  by (auto simp: item_sent_def charge_ok_def stop_def dest: optional_deadline_Inr split: sum.splits option.splits)

lemma charge_ok_silent:
  "\<not> is_output_item item \<Longrightarrow> charge_ok (s\<lparr>pc := Looping\<rparr>) \<Longrightarrow> charge_ok (item_sent c item s)"
  by (simp add: item_sent_def)

lemma charge_ok_shift:
  assumes "charge_ok s" and "pc s = Sending item arrived started"
  shows "charge_ok ((shift_deadline c started (enqueue_item a i s))\<lparr>pc := Looping\<rparr>)"
  using assms by (auto simp: charge_ok_def shift_deadline_def Let_def split: option.splits)

lemma charge_ok_step:
  assumes "charge_ok s" and "pump_step c s l t"
  shows "charge_ok t"
  using assms(2)
proof cases
  case (polls ready)
  have accepted: "charge_ok (item_sent c item (enqueue_item (clock s) item (s\<lparr>source_items := rest\<rparr>)))" for item rest
  proof (cases "is_output_item item")
    case False
    then show ?thesis using assms(1) polls by (intro charge_ok_silent) (auto simp: charge_ok_def split: option.splits)
  qed (rule charge_ok_output)
  have waiting: "charge_ok (s\<lparr>source_items := rest, pc := Sending item (clock s) (clock s)\<rparr>)" for item rest
    using assms(1) polls by (auto simp: charge_ok_def split: option.splits)
  show ?thesis
    using polls assms(1) accepted waiting by (auto simp: pump_poll_def Let_def split: list.splits)
next
  case (sends item arrived started)
  have "charge_ok (item_sent c item (if is_output_item item then enqueue_item arrived item s
      else shift_deadline c started (enqueue_item arrived item s)))"
    using charge_ok_shift [OF assms(1) sends(3)] by (auto intro: charge_ok_output charge_ok_silent)
  then show ?thesis using sends assms(1) by (auto simp: send_poll_def Let_def)
next
  case (receives r)
  then show ?thesis
    using assms(1) by (cases "pc s") (auto simp: pump_recv_def charge_ok_def split: list.splits if_splits option.splits)
next
  case (ticks dt)
  then show ?thesis using assms(1) by (auto simp: charge_ok_def split: option.splits pump_pc.splits)
qed (use assms(1) in \<open>auto simp: charge_ok_def drop_stream_def split: option.splits pump_pc.splits\<close>)

definition pump_ok :: "item list \<Rightarrow> pump \<Rightarrow> bool" where
  "pump_ok items s \<longleftrightarrow> channel_ok s \<and> order_ok items s \<and> charge_ok s"

interpretation pump: invariant_system "pump_step c" "pump_ok items"
  for c :: pump_config and items :: "item list"
  by unfold_locales (auto simp: pump_ok_def channel_ok_step order_ok_step charge_ok_step)

lemma new_pump_ok:
  assumes "\<And>d. first = Some d \<Longrightarrow> at_instant d + waited = now + unat (duration_ms d) * NANOS_PER_MS"
  shows "pump_ok items (new_pump now first waited items)"
  using assms by (auto simp: pump_ok_def channel_ok_def order_ok_def charge_ok_def in_flight_def overflow_items_def
      new_pump_def split: option.splits)

section \<open>Properties\<close>

text \<open>The first-chunk deadline is armed when the setup of the stream begins, \<open>waited\<close> nanoseconds before the pump.\<close>

definition armed :: "nat \<Rightarrow> timeout_deadline option \<Rightarrow> nat \<Rightarrow> bool" where
  "armed now first waited \<longleftrightarrow> (case first of
     None \<Rightarrow> True
   | Some d \<Rightarrow> at_instant d + waited = now + unat (duration_ms d) * NANOS_PER_MS)"

lemma pump_reachable_ok:
  assumes "armed now first waited" and "run (pump_step c) (new_pump now first waited items) ls s"
  shows "pump_ok items s"
  using assms(2) by (rule pump.inv_run) (use assms(1) in \<open>auto intro!: new_pump_ok simp: armed_def\<close>)

text \<open>
  C8. The pump loses nothing and invents nothing. Under any interleaving of provider, consumer, clock and
  caller, a consumer that reads an unaborted stream to its end has received exactly the provider's items
  up to and including the first terminal one, or a part of them from the beginning followed by exactly
  one error of a deadline; nothing the provider sends after a terminal item is delivered, and at no time
  are more than 256 items buffered.
\<close>

theorem pump_delivers:
  assumes "armed now first waited" and "run (pump_step c) (new_pump now first waited items) ls s"
  shows "length (channel s) \<le> 256 \<and>
    (receiver s \<and> \<not> abort_raised s \<and> fst (pump_recv s) = RecvEnd \<longrightarrow>
       received s = upto_terminal items \<or>
       (\<exists>pre e. received s = pre @ [Inl e] \<and> prefix pre (upto_terminal items) \<and> timer_error e))"
proof (intro conjI impI)
  have ok: "channel_ok s" "order_ok items s" using pump_reachable_ok [OF assms] by (simp_all add: pump_ok_def)
  then show "length (channel s) \<le> 256" by (simp add: channel_ok_def STREAM_PUMP_CHANNEL_CAPACITY_def)
  assume a: "receiver s \<and> \<not> abort_raised s \<and> fst (pump_recv s) = RecvEnd"
  then have stopped: "pc s = Stopped" and "channel s = []" "overflow_error s = None"
    by (auto simp: pump_recv_def split: list.splits if_splits option.splits)
  then have "received s = sent s" using ok(1) by (simp add: channel_ok_def in_flight_def overflow_items_def)
  then show "received s = upto_terminal items \<or>
       (\<exists>pre e. received s = pre @ [Inl e] \<and> prefix pre (upto_terminal items) \<and> timer_error e)"
    using ok(2) a stopped by (simp add: order_ok_def concluded_def)
qed

text \<open>Receiving until the end of the stream.\<close>

fun recv_all :: "nat \<Rightarrow> pump \<Rightarrow> (item list \<times> pump) option" where
  "recv_all 0 s = None"
| "recv_all (Suc n) s = (case pump_recv s of
     (RecvItem item, s') \<Rightarrow> map_option (\<lambda>(items, t). (item # items, t)) (recv_all n s')
   | (RecvEnd, s') \<Rightarrow> Some ([], s')
   | (RecvPending, _) \<Rightarrow> None)"

lemma recv_all_stopped:
  assumes "pc s = Stopped" and "length (in_flight s) < n"
  shows "\<exists>t. recv_all n s = Some (in_flight s, t) \<and> received t = received s @ in_flight s"
  using assms
proof (induction n arbitrary: s)
  case (Suc n)
  show ?case
  proof (cases "in_flight s")
    case Nil
    then have "pump_recv s = (RecvEnd, s)"
      using Suc.prems(1) by (auto simp: pump_recv_def in_flight_def overflow_items_def split: option.splits)
    then show ?thesis using Nil by simp
  next
    case (Cons i js)
    then obtain s' where s': "pump_recv s = (RecvItem i, s')" "pc s' = Stopped" "in_flight s' = js"
        "received s' = received s @ [i]"
      using Suc.prems(1)
      by (cases "channel s") (auto simp: pump_recv_def in_flight_def overflow_items_def split: option.splits)
    then show ?thesis using Suc.IH [of s'] Suc.prems(2) Cons by auto
  qed
qed simp

text \<open>
  Nothing sent is lost. Once the pump has stopped, a consumer that keeps receiving gets every item
  that was sent and not received yet, in the order they were sent (a terminal error that did not fit
  into the channel comes last), and then the end of the stream.
\<close>

lemma pump_drains:
  assumes "armed now first waited" and "run (pump_step c) (new_pump now first waited items) ls s"
    and "pc s = Stopped"
  shows "\<exists>rest t. recv_all 258 s = Some (rest, t) \<and> received s @ rest = sent s"
proof -
  have ok: "channel_ok s" using pump_reachable_ok [OF assms(1,2)] by (simp add: pump_ok_def)
  have "length (in_flight s) < 258"
    using ok by (auto simp: channel_ok_def in_flight_def overflow_items_def STREAM_PUMP_CHANNEL_CAPACITY_def
        split: option.splits)
  then obtain t where "recv_all 258 s = Some (in_flight s, t)" using recv_all_stopped [OF assms(3)] by blast
  then show ?thesis using ok by (auto simp: channel_ok_def)
qed

text \<open>
  A slow consumer is never charged to the provider. The chunk deadline (the first-chunk deadline
  before the first output) can stop the pump only after the pump has waited for the provider itself for
  the whole configured time since the deadline was armed: the time it waited for the consumer does not
  count. The exception is a deadline that cannot be moved because it would leave the range of instants.
\<close>

lemma chunk_timeout_charges_provider:
  assumes "armed now first waited" and "run (pump_step c) (new_pump now first waited items) ls s"
    and "pc s = Looping" and "chunk_deadline s = Some d" and "passed (clock s) (Some d)"
    and "\<not> out_of_range s"
  shows "unat (duration_ms d) * NANOS_PER_MS \<le> charged s"
  using pump_reachable_ok [OF assms(1,2)] assms(3-6) by (auto simp: pump_ok_def charge_ok_def passed_def)

subsection \<open>Witnesses\<close>

definition demo_config :: pump_config where
  "demo_config = \<lparr>instant_max = 1000000000, operation_deadline = None, cfg_chunk_ms = Some 1\<rparr>"

definition demo_delta :: item where "demo_delta = Inr (TextDelta ''t'' ''hi'' None)"

definition demo_chunk_deadline :: timeout_deadline where
  "demo_chunk_deadline = \<lparr>at_instant = 1000000, dl_label = ''Chunk'', duration_ms = 1\<rparr>"

text \<open>One output chunk is sent and received, then the provider is silent for a millisecond.\<close>

definition demo_state :: "nat \<Rightarrow> pump_pc \<Rightarrow> (nat \<times> item) list \<Rightarrow> item list \<Rightarrow> item list \<Rightarrow> pump" where
  "demo_state now p ch snt rcv =
     \<lparr>clock = now, abort_raised = False, source_items = [], channel = ch, overflow_error = None,
      chunk_deadline = Some demo_chunk_deadline, pc = p, receiver = True, sent = snt, received = rcv,
      charged = now, out_of_range = False\<rparr>"

lemma demo_run_waiting:
  "run (pump_step demo_config) (new_pump 0 None 0 [demo_delta])
     [Polls True, Receives (RecvItem demo_delta), Ticks 1000000]
     (demo_state 1000000 Looping [] [demo_delta] [demo_delta])"
proof (intro run.run_Cons)
  have "pump_poll demo_config True (new_pump 0 None 0 [demo_delta]) = demo_state 0 Looping [(0, demo_delta)] [demo_delta] []"
    by (simp add: pump_poll_def new_pump_def passed_def demo_config_def channel_full_def STREAM_PUMP_CHANNEL_CAPACITY_def
        item_sent_def enqueue_item_def demo_delta_def is_terminal_item_def is_output_item_def is_output_chunk_def
        optional_deadline_def deadline_after_def demo_state_def demo_chunk_deadline_def NANOS_PER_MS_def)
  then show "pump_step demo_config (new_pump 0 None 0 [demo_delta]) (Polls True)
      (demo_state 0 Looping [(0, demo_delta)] [demo_delta] [])"
    using pump_step.polls [of "new_pump 0 None 0 [demo_delta]" demo_config True] by (simp add: new_pump_def)
  show "pump_step demo_config (demo_state 0 Looping [(0, demo_delta)] [demo_delta] []) (Receives (RecvItem demo_delta))
      (demo_state 0 Looping [] [demo_delta] [demo_delta])"
    by (rule pump_step.receives) (simp_all add: demo_state_def pump_recv_def)
  show "pump_step demo_config (demo_state 0 Looping [] [demo_delta] [demo_delta]) (Ticks 1000000)
      (demo_state 1000000 Looping [] [demo_delta] [demo_delta])"
    using pump_step.ticks [of demo_config "demo_state 0 Looping [] [demo_delta] [demo_delta]" 1000000]
    by (simp add: demo_state_def)
qed simp

lemma demo_run_stopped:
  "run (pump_step demo_config) (new_pump 0 None 0 [demo_delta])
     [Polls True, Receives (RecvItem demo_delta), Ticks 1000000, Polls False, Receives (RecvItem (Inl (deadline_error demo_chunk_deadline)))]
     (demo_state 1000000 Stopped [] [demo_delta, Inl (deadline_error demo_chunk_deadline)]
        [demo_delta, Inl (deadline_error demo_chunk_deadline)])"
proof -
  let ?e = "Inl (deadline_error demo_chunk_deadline) :: item"
  let ?w = "demo_state 1000000 Looping [] [demo_delta] [demo_delta]"
  let ?s = "demo_state 1000000 Stopped [(1000000, ?e)] [demo_delta, ?e] [demo_delta]"
  have "pump_poll demo_config False ?w = ?s"
    by (simp add: pump_poll_def demo_state_def passed_def demo_config_def demo_chunk_deadline_def send_terminal_err_def
        channel_full_def STREAM_PUMP_CHANNEL_CAPACITY_def enqueue_item_def stop_def)
  then have p: "pump_step demo_config ?w (Polls False) ?s"
    using pump_step.polls [of ?w demo_config False] by (simp add: demo_state_def)
  have r: "pump_step demo_config ?s (Receives (RecvItem ?e)) (demo_state 1000000 Stopped [] [demo_delta, ?e] [demo_delta, ?e])"
    by (rule pump_step.receives) (simp_all add: demo_state_def pump_recv_def)
  have "run (pump_step demo_config) ?w [Polls False, Receives (RecvItem ?e)]
      (demo_state 1000000 Stopped [] [demo_delta, ?e] [demo_delta, ?e])"
    using p r by (blast intro: run.run_Cons run.run_Nil)
  with demo_run_waiting
  have "run (pump_step demo_config) (new_pump 0 None 0 [demo_delta])
      ([Polls True, Receives (RecvItem demo_delta), Ticks 1000000] @ [Polls False, Receives (RecvItem ?e)])
      (demo_state 1000000 Stopped [] [demo_delta, ?e] [demo_delta, ?e])"
    unfolding run_append by (intro exI conjI)
  then show ?thesis by simp
qed

lemma demo_armed: "armed 0 None 0" by (simp add: armed_def)

theorem pump_delivers_witness:
  "\<exists>pre e. [demo_delta, Inl (deadline_error demo_chunk_deadline)] = pre @ [Inl e]
     \<and> prefix pre (upto_terminal [demo_delta]) \<and> timer_error e"
proof -
  have up: "upto_terminal [demo_delta] = [demo_delta]"
    by (simp add: upto_terminal_def demo_delta_def is_terminal_item_def)
  show ?thesis
    using pump_delivers [OF demo_armed demo_run_stopped] unfolding up
    by (simp add: demo_state_def pump_recv_def)
qed

lemma pump_drains_witness:
  "\<exists>rest t. recv_all 258 (demo_state 1000000 Stopped [] [demo_delta, Inl (deadline_error demo_chunk_deadline)]
        [demo_delta, Inl (deadline_error demo_chunk_deadline)]) = Some (rest, t) \<and> rest = []"
  using pump_drains [OF demo_armed demo_run_stopped] by (simp add: demo_state_def)

lemma chunk_timeout_charges_provider_witness:
  "unat (duration_ms demo_chunk_deadline) * NANOS_PER_MS
     \<le> charged (demo_state 1000000 Looping [] [demo_delta] [demo_delta])"
  by (rule chunk_timeout_charges_provider [OF demo_armed demo_run_waiting])
     (simp_all add: demo_state_def passed_def demo_chunk_deadline_def)

end
