(* ===== verification/Tool_Parsing.thy ===== *)
theory Tool_Parsing
  imports Errors Tool_Arguments
begin

text \<open>
  Parsing, validation and repair of a model's tool calls (\<open>src/aimux-core/src/parse_tool_call.rs\<close>), with
  the tools and parsed calls of \<open>tool.rs\<close> and the tool error of \<open>generate.rs\<close>. The JSON parser and writer,
  the JSON Schema validator and the integer form of an integral float are the fields of \<open>json_env\<close>; the
  repair hook is the argument \<open>repair\<close>, and messages are of an opaque type.
\<close>

section \<open>Tools and calls\<close>

record function_tool =
  ft_name :: string
  ft_description :: "string option"
  ft_input_schema :: json
  ft_strict :: "bool option"
  ft_provider_options :: "provider_metadata option"
  ft_input_examples :: "json_object list option"

record provider_tool =
  pt_id :: namespaced_kind
  pt_name :: string
  pt_args :: json_object
  supports_deferred_results :: "bool option"

datatype tool = FunctionTool function_tool | ProviderTool provider_tool

fun tool_label :: "tool \<Rightarrow> string" where
  "tool_label (FunctionTool t) = ft_name t" | "tool_label (ProviderTool t) = pt_name t"

record typed_tool_call =
  ttc_id :: string
  ttc_name :: string
  ttc_input :: json
  ttc_provider_executed :: "bool option"
  ttc_dynamic :: "bool option"
  ttc_provider_metadata :: "provider_metadata option"
  ttc_invalid :: "bool option"
  ttc_error :: "aimux_error option"

record typed_tool_error =
  tte_id :: string
  tte_name :: string
  tte_input :: "json option"
  tte_error :: json
  tte_provider_executed :: "bool option"
  tte_provider_metadata :: "provider_metadata option"
  tte_dynamic :: "bool option"

text \<open>What a JSON Schema validator says: the schema is no schema, the value does not match, or it does.\<close>

datatype schema_result = SchemaInvalid string | ValueInvalid string | ValueValid

record json_env =
  from_str :: "string \<Rightarrow> source_error + json"
  js_integer :: "json_number \<Rightarrow> json_number option"
  schema_check :: "json \<Rightarrow> json \<Rightarrow> schema_result"
  json_display :: "json \<Rightarrow> string"

section \<open>Argument text\<close>

definition json_parse_error :: "string \<Rightarrow> string \<Rightarrow> source_error option \<Rightarrow> aimux_error" where
  "json_parse_error text message err =
     JsonParse (''JSON parsing failed: Text: '' @ text @ ''.'' @ [CHR 0x0A] @ ''Error message: '' @ message)
       (map_option CauseSource err)"

definition type_validation_message :: "json_env \<Rightarrow> json \<Rightarrow> string \<Rightarrow> string" where
  "type_validation_message env v message =
     ''Type validation failed: Value: '' @ json_display env v @ ''.'' @ [CHR 0x0A] @ ''Error message: '' @ message"

definition type_validation_error :: "json_env \<Rightarrow> json \<Rightarrow> string \<Rightarrow> source_error option \<Rightarrow> aimux_error" where
  "type_validation_error env v message err =
     TypeValidation (type_validation_message env v message) v (map_option CauseSource err)"

fun integral_floats_as_integers :: "json_env \<Rightarrow> json \<Rightarrow> json" where
  "integral_floats_as_integers env (JNumber n) =
     JNumber (case js_integer env n of Some i \<Rightarrow> i | None \<Rightarrow> n)"
| "integral_floats_as_integers env (JArray vs) = JArray (map (integral_floats_as_integers env) vs)"
| "integral_floats_as_integers env (JObject kvs) =
     JObject (map (\<lambda>(k, v). (k, integral_floats_as_integers env v)) kvs)"
| "integral_floats_as_integers env v = v"

definition parse_input_text :: "json_env \<Rightarrow> string \<Rightarrow> source_error + json" where
  "parse_input_text env text = map_sum (\<lambda>e. e) (integral_floats_as_integers env) (from_str env text)"

fun contains_forbidden_prototype :: "json \<Rightarrow> bool" where
  "contains_forbidden_prototype (JObject kvs) \<longleftrightarrow>
     map_of kvs ''__proto__'' \<noteq> None \<or>
     (case map_of kvs ''constructor'' of Some (JObject c) \<Rightarrow> map_of c ''prototype'' \<noteq> None | _ \<Rightarrow> False) \<or>
     (\<exists>(_, v) \<in> set kvs. contains_forbidden_prototype v)"
| "contains_forbidden_prototype (JArray vs) \<longleftrightarrow> (\<exists>v \<in> set vs. contains_forbidden_prototype v)"
| "contains_forbidden_prototype _ \<longleftrightarrow> False"

definition parse_json_input :: "json_env \<Rightarrow> raw_tool_call \<Rightarrow> aimux_error + json" where
  "parse_json_input env call =
     (if str_trim (rtc_input call) = [] then Inr (JObject [])
      else
        (let invalid = (\<lambda>e. InvalidToolInput (rtc_tool_name call) (rtc_input call) (CauseAiMux e)) in
         case parse_input_text env (rtc_input call) of
           Inl err \<Rightarrow> Inl (invalid (json_parse_error (rtc_input call) (se_message err) (Some err)))
         | Inr v \<Rightarrow>
             (if contains_forbidden_prototype v
              then Inl (invalid (json_parse_error (rtc_input call) ''Object contains forbidden prototype property'' None))
              else Inr v)))"

definition back_filled_input :: "json_env \<Rightarrow> string \<Rightarrow> json" where
  "back_filled_input env text = (case parse_input_text env text of
     Inr v \<Rightarrow> if contains_forbidden_prototype v then JString text else v
   | Inl _ \<Rightarrow> JString text)"

definition parsed_tool_call :: "raw_tool_call \<Rightarrow> json \<Rightarrow> bool option \<Rightarrow> typed_tool_call" where
  "parsed_tool_call call input dyn =
     \<lparr>ttc_id = rtc_tool_call_id call, ttc_name = rtc_tool_name call, ttc_input = input,
      ttc_provider_executed = rtc_provider_executed call, ttc_dynamic = dyn,
      ttc_provider_metadata = rtc_provider_metadata call, ttc_invalid = None, ttc_error = None\<rparr>"

definition invalid_tool_call :: "json_env \<Rightarrow> raw_tool_call \<Rightarrow> aimux_error \<Rightarrow> typed_tool_call" where
  "invalid_tool_call env call error =
     (parsed_tool_call call (back_filled_input env (rtc_input call)) (Some True))
       \<lparr>ttc_invalid := Some True, ttc_error := Some error\<rparr>"

section \<open>Parsing and repair\<close>

definition parse_and_validate_tool_call ::
  "json_env \<Rightarrow> raw_tool_call \<Rightarrow> tool list \<Rightarrow> aimux_error + (json \<times> bool option)" where
  "parse_and_validate_tool_call env call tools =
     (case find (\<lambda>t. tool_label t = rtc_tool_name call) tools of
        None \<Rightarrow>
          (if rtc_provider_executed call = Some True \<and> rtc_dynamic call = Some True
           then map_sum (\<lambda>e. e) (\<lambda>v. (v, Some True)) (parse_json_input env call)
           else Inl (NoSuchTool (rtc_tool_name call) (Some (map tool_label tools)) (Some (rtc_input call))))
      | Some t \<Rightarrow>
          (case parse_json_input env call of
             Inl e \<Rightarrow> Inl e
           | Inr input \<Rightarrow>
               (case t of
                  ProviderTool _ \<Rightarrow> Inr (input, None)
                | FunctionTool ft \<Rightarrow>
                    (let invalid = InvalidToolInput (rtc_tool_name call) (rtc_input call) in
                     case schema_check env (ft_input_schema ft) input of
                       SchemaInvalid m \<Rightarrow>
                         Inl (invalid (CauseSource (SourceError (''input schema is invalid: '' @ m)
                                (Some (SourceError m None)))))
                     | ValueInvalid m \<Rightarrow>
                         Inl (invalid (CauseAiMux (type_validation_error env input m (Some (SourceError m None)))))
                     | ValueValid \<Rightarrow> Inr (input, None)))))"

datatype repair_outcome = Repaired raw_tool_call | Unchanged | RepairFailed aimux_error

definition apply_repair_outcome ::
  "json_env \<Rightarrow> raw_tool_call \<Rightarrow> aimux_error \<Rightarrow> tool list \<Rightarrow> repair_outcome \<Rightarrow> typed_tool_call" where
  "apply_repair_outcome env call original_error tools outcome = (case outcome of
     Repaired repaired \<Rightarrow>
       (case parse_and_validate_tool_call env repaired tools of
          Inr (input, dyn) \<Rightarrow> parsed_tool_call repaired input dyn
        | Inl repaired_error \<Rightarrow> invalid_tool_call env call repaired_error)
   | Unchanged \<Rightarrow> invalid_tool_call env call original_error
   | RepairFailed e \<Rightarrow> invalid_tool_call env call (ToolCallRepair original_error e))"

record 'm tool_call_repair_context =
  rc_instructions :: "string option"
  rc_system :: "string option"
  rc_messages :: "'m list"
  rc_tool_call :: raw_tool_call
  rc_tools :: "tool list"
  rc_error :: aimux_error

definition empty_object_schema :: json where
  "empty_object_schema = JObject [(''type'', JString ''object''), (''properties'', JObject []),
     (''additionalProperties'', JBool False)]"

definition input_schema :: "'m tool_call_repair_context \<Rightarrow> string \<Rightarrow> json" where
  "input_schema ctx name =
     (case List.map_filter (\<lambda>t. case t of
        FunctionTool ft \<Rightarrow> if ft_name ft = name then Some (ft_input_schema ft) else None
      | ProviderTool _ \<Rightarrow> None) (rc_tools ctx) of
        schema # _ \<Rightarrow> schema | [] \<Rightarrow> empty_object_schema)"

definition parse_tool_call ::
  "json_env \<Rightarrow> raw_tool_call \<Rightarrow> tool list option \<Rightarrow>
   ('m tool_call_repair_context \<Rightarrow> aimux_error + raw_tool_call option) option \<Rightarrow> 'm list \<Rightarrow> string option \<Rightarrow>
   typed_tool_call" where
  "parse_tool_call env call tools repair messages instructions = (case tools of
     None \<Rightarrow>
       (case (if rtc_provider_executed call = Some True \<and> rtc_dynamic call = Some True
              then parse_json_input env call
              else Inl (NoSuchTool (rtc_tool_name call) None (Some (rtc_input call)))) of
          Inr input \<Rightarrow> parsed_tool_call call input (Some True)
        | Inl e \<Rightarrow> invalid_tool_call env call e)
   | Some ts \<Rightarrow>
       (case parse_and_validate_tool_call env call ts of
          Inr (input, dyn) \<Rightarrow> parsed_tool_call call input dyn
        | Inl original_error \<Rightarrow>
            (case repair of
               None \<Rightarrow> invalid_tool_call env call original_error
             | Some f \<Rightarrow>
                 apply_repair_outcome env call original_error ts
                   (case f \<lparr>rc_instructions = instructions, rc_system = instructions, rc_messages = messages,
                            rc_tool_call = call, rc_tools = ts, rc_error = original_error\<rparr> of
                      Inr (Some repaired) \<Rightarrow> Repaired repaired
                    | Inr None \<Rightarrow> Unchanged
                    | Inl e \<Rightarrow> RepairFailed e))))"

section \<open>Repair by a host\<close>

datatype tool_call_repair_reply = ReplyRepaired raw_tool_call | ReplyUnchanged | ReplyFailed string

fun reply_outcome :: "tool_call_repair_reply \<Rightarrow> repair_outcome" where
  "reply_outcome (ReplyRepaired call) = Repaired call"
| "reply_outcome ReplyUnchanged = Unchanged"
| "reply_outcome (ReplyFailed message) = RepairFailed (other message)"

fun error_text :: "aimux_error \<Rightarrow> string option" where
  "error_text (InvalidToolInput _ text _) = Some text"
| "error_text (NoSuchTool _ _ text) = text"
| "error_text (ToolCallRepair e _) = error_text e"
| "error_text _ = None"

definition original_tool_call_text :: "json_env \<Rightarrow> json \<Rightarrow> aimux_error \<Rightarrow> string option" where
  "original_tool_call_text env input error = (case error_text error of
     Some text \<Rightarrow> if back_filled_input env text = input then Some text else None
   | None \<Rightarrow> None)"

definition raw_from_invalid :: "json_env \<Rightarrow> typed_tool_call \<Rightarrow> aimux_error + (raw_tool_call \<times> aimux_error)" where
  "raw_from_invalid env call =
     (if ttc_invalid call \<noteq> Some True
      then Inl (invalid_argument (''tool call '' @ sq @ ttc_id call @ sq @ '' is not invalid; nothing to repair''))
      else (case ttc_error call of
              None \<Rightarrow> Inl (invalid_argument (''invalid tool call '' @ sq @ ttc_id call @ sq @ '' carries no error''))
            | Some error \<Rightarrow>
                Inr (\<lparr>rtc_tool_call_id = ttc_id call, rtc_tool_name = ttc_name call,
                      rtc_input = (case original_tool_call_text env (ttc_input call) error of
                         Some text \<Rightarrow> text
                       | None \<Rightarrow> (case ttc_input call of JString text \<Rightarrow> text | input \<Rightarrow> json_display env input)),
                      rtc_provider_executed = ttc_provider_executed call, rtc_dynamic = ttc_dynamic call,
                      rtc_provider_metadata = ttc_provider_metadata call\<rparr>, error)))"

definition required_tools :: "tool list option \<Rightarrow> aimux_error + tool list" where
  "required_tools tools = (case tools of
     Some ts \<Rightarrow> Inr ts
   | None \<Rightarrow> Inl (invalid_argument ''tool calls made without a tool set are not repairable''))"

definition apply_tool_call_repair ::
  "json_env \<Rightarrow> typed_tool_call \<Rightarrow> tool list option \<Rightarrow> tool_call_repair_reply \<Rightarrow> aimux_error + typed_tool_call" where
  "apply_tool_call_repair env call tools reply =
     (case required_tools tools of Inl e \<Rightarrow> Inl e | Inr ts \<Rightarrow>
       (case raw_from_invalid env call of Inl e \<Rightarrow> Inl e | Inr (raw, error) \<Rightarrow>
          Inr (apply_repair_outcome env raw error ts (reply_outcome reply))))"

definition invalid_tool_call_error :: "typed_tool_call \<Rightarrow> typed_tool_error option" where
  "invalid_tool_call_error call =
     (if ttc_invalid call = Some True \<and> ttc_provider_executed call \<noteq> Some True
      then Some \<lparr>tte_id = ttc_id call, tte_name = ttc_name call, tte_input = Some (ttc_input call),
                 tte_error = JString (case ttc_error call of None \<Rightarrow> ''unknown error'' | Some e \<Rightarrow> show_error e),
                 tte_provider_executed = None, tte_provider_metadata = None, tte_dynamic = Some True\<rparr>
      else None)"

section \<open>Properties\<close>

lemma parse_json_input_safe: "parse_json_input env call = Inr v \<Longrightarrow> \<not> contains_forbidden_prototype v"
  by (auto simp: parse_json_input_def Let_def split: if_splits sum.splits)

lemma back_filled_safe: "\<not> contains_forbidden_prototype (back_filled_input env text)"
  by (simp add: back_filled_input_def split: sum.splits)

text \<open>What makes a call valid for a set of tools: its text parses, and its tool takes the value.\<close>

definition accepts :: "json_env \<Rightarrow> tool list \<Rightarrow> raw_tool_call \<Rightarrow> json \<Rightarrow> bool option \<Rightarrow> bool" where
  "accepts env tools call input dyn \<longleftrightarrow> parse_json_input env call = Inr input \<and>
     (case find (\<lambda>t. tool_label t = rtc_tool_name call) tools of
        Some (FunctionTool ft) \<Rightarrow> schema_check env (ft_input_schema ft) input = ValueValid \<and> dyn = None
      | Some (ProviderTool _) \<Rightarrow> dyn = None
      | None \<Rightarrow> rtc_provider_executed call = Some True \<and> rtc_dynamic call = Some True \<and> dyn = Some True)"

lemma validated_iff: "parse_and_validate_tool_call env call tools = Inr (input, dyn) \<longleftrightarrow> accepts env tools call input dyn"
  by (cases "parse_json_input env call")
    (auto simp: parse_and_validate_tool_call_def accepts_def Let_def split: option.splits tool.splits schema_result.splits)

lemma validation_error_text:
  "parse_and_validate_tool_call env call tools = Inl e \<Longrightarrow> error_text e = Some (rtc_input call)"
  by (cases "parse_json_input env call")
    (auto simp: parse_and_validate_tool_call_def parse_json_input_def Let_def
      split: option.splits tool.splits schema_result.splits if_splits sum.splits)

text \<open>
  The result of parsing: a valid call, made from the model's call or from its one repair and accepted by
  the tools, or the model's call marked invalid with its error.
\<close>

definition well_parsed ::
  "json_env \<Rightarrow> tool list \<Rightarrow> raw_tool_call \<Rightarrow> (raw_tool_call \<Rightarrow> bool) \<Rightarrow> typed_tool_call \<Rightarrow> bool" where
  "well_parsed env tools call repaired c \<longleftrightarrow>
     (\<exists>call' input dyn. c = parsed_tool_call call' input dyn \<and> accepts env tools call' input dyn \<and>
        (call' = call \<or> repaired call')) \<or>
     (\<exists>e. c = invalid_tool_call env call e)"

lemma well_parsed_mono: "well_parsed env tools call P c \<Longrightarrow> (\<And>r. P r \<Longrightarrow> Q r) \<Longrightarrow> well_parsed env tools call Q c"
  unfolding well_parsed_def by blast

lemma apply_repair_outcome_parsed:
  "well_parsed env tools call (\<lambda>r. outcome = Repaired r) (apply_repair_outcome env call e tools outcome)"
  by (auto simp: apply_repair_outcome_def well_parsed_def validated_iff split: repair_outcome.splits sum.splits)

lemma accepts_safe: "accepts env tools call input dyn \<Longrightarrow> \<not> contains_forbidden_prototype input"
  by (auto simp: accepts_def dest: parse_json_input_safe)

lemma well_parsed_safe: "well_parsed env tools call rep c \<Longrightarrow> \<not> contains_forbidden_prototype (ttc_input c)"
  by (auto simp: well_parsed_def parsed_tool_call_def invalid_tool_call_def back_filled_safe accepts_safe)

text \<open>
  Parsed tool calls are checked. With a set of tools, a call that is not marked invalid has the
  parsed arguments of the model's call or of the call its repair returned, and the named tool's schema
  accepts them; the tools are checked again after a repair, and a failing call keeps the model's name,
  id and text. In every case, repaired or not, the arguments handed on contain no forbidden prototype
  property.
\<close>

lemma parse_tool_call_checked:
  "\<not> contains_forbidden_prototype (ttc_input (parse_tool_call env call tools repair messages instructions)) \<and>
   (\<forall>ts. tools = Some ts \<longrightarrow> well_parsed env ts call
      (\<lambda>r. \<exists>f ctx. repair = Some f \<and> rc_tool_call ctx = call \<and> f ctx = Inr (Some r))
      (parse_tool_call env call tools repair messages instructions))"
proof (cases tools)
  case None
  then show ?thesis
    by (auto simp: parse_tool_call_def parsed_tool_call_def invalid_tool_call_def back_filled_safe
        dest: parse_json_input_safe split: sum.splits)
next
  case (Some ts)
  let ?c = "parse_tool_call env call tools repair messages instructions"
  have "well_parsed env ts call (\<lambda>r. \<exists>f ctx. repair = Some f \<and> rc_tool_call ctx = call \<and> f ctx = Inr (Some r)) ?c"
  proof (cases "parse_and_validate_tool_call env call ts")
    case (Inr x)
    obtain input dyn where x: "x = (input, dyn)" by force
    then have "?c = parsed_tool_call call input dyn" "accepts env ts call input dyn"
      using Inr Some by (simp_all add: parse_tool_call_def flip: validated_iff)
    then show ?thesis unfolding well_parsed_def by blast
  next
    case (Inl e)
    show ?thesis
    proof (cases repair)
      case None
      then show ?thesis using Some Inl by (auto simp: parse_tool_call_def well_parsed_def)
    next
      case rep: (Some f)
      define ctx where "ctx = \<lparr>rc_instructions = instructions, rc_system = instructions, rc_messages = messages,
        rc_tool_call = call, rc_tools = ts, rc_error = e\<rparr>"
      define out where "out = (case f ctx of Inr (Some r) \<Rightarrow> Repaired r | Inr None \<Rightarrow> Unchanged | Inl e \<Rightarrow> RepairFailed e)"
      have c: "?c = apply_repair_outcome env call e ts out"
        using Some Inl rep by (simp add: parse_tool_call_def out_def ctx_def)
      have ctx: "rc_tool_call ctx = call \<and> f ctx = Inr (Some r)" if "out = Repaired r" for r
        using that by (auto simp: out_def ctx_def split: sum.splits option.splits)
      show ?thesis
        unfolding c by (rule well_parsed_mono [OF apply_repair_outcome_parsed]) (use ctx rep in blast)
    qed
  qed
  then show ?thesis using Some well_parsed_safe by blast
qed

text \<open>An invalid call can be turned back into the model's call, with its verbatim argument text.\<close>

lemma raw_from_invalid_tool_call:
  assumes "error_text e = Some (rtc_input call)"
  shows "raw_from_invalid env (invalid_tool_call env call e) = Inr (call\<lparr>rtc_dynamic := Some True\<rparr>, e)"
  using assms by (simp add: raw_from_invalid_def invalid_tool_call_def parsed_tool_call_def original_tool_call_text_def)

lemma apply_repair_outcome_dynamic:
  "apply_repair_outcome env (call\<lparr>rtc_dynamic := d\<rparr>) e tools outcome = apply_repair_outcome env call e tools outcome"
  by (simp add: apply_repair_outcome_def invalid_tool_call_def parsed_tool_call_def split: repair_outcome.splits sum.splits)

fun hook_of :: "tool_call_repair_reply \<Rightarrow> aimux_error + raw_tool_call option" where
  "hook_of (ReplyRepaired call) = Inr (Some call)"
| "hook_of ReplyUnchanged = Inr None"
| "hook_of (ReplyFailed message) = Inl (other message)"

text \<open>
  Both ways to repair agree. Repairing an invalid call after the fact with a host's reply, from
  nothing but the call the result carries, gives exactly the call that an in-process hook returning the
  same answer would have given.
\<close>

lemma host_repair_agrees_with_hook:
  assumes "parse_and_validate_tool_call env call tools = Inl e"
  shows "apply_tool_call_repair env (parse_tool_call env call (Some tools) None messages instructions) (Some tools) reply
    = Inr (parse_tool_call env call (Some tools) (Some (\<lambda>_. hook_of reply)) messages instructions)"
proof -
  have "parse_tool_call env call (Some tools) None messages instructions = invalid_tool_call env call e"
    using assms by (simp add: parse_tool_call_def)
  moreover have "parse_tool_call env call (Some tools) (Some (\<lambda>_. hook_of reply)) messages instructions
      = apply_repair_outcome env call e tools (reply_outcome reply)"
    using assms by (cases reply) (simp_all add: parse_tool_call_def)
  ultimately show ?thesis
    by (simp add: apply_tool_call_repair_def required_tools_def apply_repair_outcome_dynamic
        raw_from_invalid_tool_call [OF validation_error_text [OF assms]])
qed

definition demo_env :: json_env where
  "demo_env = \<lparr>from_str = (\<lambda>s. if s = ''null'' then Inr JNull else Inl (SourceError ''bad'' None)),
     js_integer = (\<lambda>_. None), schema_check = (\<lambda>_ _. ValueValid), json_display = (\<lambda>_. ''null'')\<rparr>"

definition demo_raw_call :: raw_tool_call where
  "demo_raw_call = \<lparr>rtc_tool_call_id = ''1'', rtc_tool_name = ''f'', rtc_input = ''null'',
     rtc_provider_executed = None, rtc_dynamic = None, rtc_provider_metadata = None\<rparr>"

lemma host_repair_agrees_with_hook_witness:
  "apply_tool_call_repair demo_env (parse_tool_call demo_env demo_raw_call (Some []) None ([] :: unit list) None) (Some []) (ReplyFailed ''x'')
    = Inr (parse_tool_call demo_env demo_raw_call (Some []) (Some (\<lambda>_. hook_of (ReplyFailed ''x''))) ([] :: unit list) None)"
  by (rule host_repair_agrees_with_hook) (simp add: parse_and_validate_tool_call_def demo_raw_call_def)

lemma parse_tool_call_checked_witness:
  "\<not> contains_forbidden_prototype (ttc_input (parse_tool_call demo_env demo_raw_call None None ([] :: unit list) None))"
  using parse_tool_call_checked [of demo_env demo_raw_call None None "[] :: unit list" None] by simp

end
