(* ===== verification/Message_Types.thy ===== *)
theory Message_Types
  imports Model_Types "HOL-Library.AList"
begin

text \<open>
  The two sides of a prompt: the messages a caller passes (\<open>src/aimux-core/src/content.rs\<close> and
  \<open>message.rs\<close>) and the messages a model receives (\<open>language_model_message.rs\<close>), with the file data of
  \<open>shared.rs\<close> and its deep merge of provider options. Maps that keep their insertion order are
  association lists; \<^const>\<open>AList.update\<close> replaces a key in place or appends it, as \<open>IndexMap::insert\<close> does.
\<close>

section \<open>File data\<close>

lemma map_sum_Inr: "map_sum f g r = Inr y \<longleftrightarrow> (\<exists>x. r = Inr x \<and> y = g x)"
  by (cases r) auto

type_synonym provider_options = "(string \<times> json_object) list"
type_synonym provider_reference = "(string \<times> string) list"

datatype file_data =
  FDData file_bytes
| FDUrl string "string option"
| FDReference provider_reference
| FDText string

datatype file_part_data = FPTagged file_data | FPString string | FPReference provider_reference

datatype reasoning_file_part_data = RFTagged generated_file_data | RFString string

section \<open>The caller's messages\<close>

datatype user_content_part =
  UCText string "provider_options option"
| UCImage "u8 list" string "provider_options option"
| UCFile file_part_data string "string option" "provider_options option"

datatype tool_result_file_id = FileId string | ByProvider provider_reference

datatype tool_result_content_part =
  TIText string "provider_options option"
| TIFile file_data string "string option" "provider_options option"
| TIFileData string string "string option" "provider_options option"
| TIFileUrl string "string option" "provider_options option"
| TIFileId tool_result_file_id "provider_options option"
| TIFileReference provider_reference "provider_options option"
| TIImageData string string "provider_options option"
| TIImageUrl string "provider_options option"
| TIImageFileId tool_result_file_id "provider_options option"
| TIImageFileReference provider_reference "provider_options option"
| TICustom "provider_options option"

datatype tool_result_output =
  OutText string "provider_options option"
| OutJson json "provider_options option"
| OutExecutionDenied "string option" "provider_options option"
| OutErrorText string "provider_options option"
| OutErrorJson json "provider_options option"
| OutContent "tool_result_content_part list"

record tool_result_part =
  trp_id :: string
  trp_name :: "string option"
  trp_output :: tool_result_output
  trp_provider_options :: "provider_options option"

datatype assistant_content_part =
  ACText string "provider_options option"
| ACCustom namespaced_kind "provider_options option"
| ACFile file_part_data string "string option" "provider_options option"
| ACReasoning string "provider_options option"
| ACReasoningFile reasoning_file_part_data string "provider_options option"
| ACToolCall string string json "bool option" "provider_options option"
| ACToolResult tool_result_part
| ACToolApprovalRequest string string "string option" "bool option" "string option" "json option"

datatype tool_content_part =
  TCToolResult tool_result_part
| TCToolApprovalResponse string bool "string option" "bool option"

datatype user_content = UserText string | UserParts "user_content_part list"

datatype assistant_content = AssistantText string | AssistantParts "assistant_content_part list"

datatype model_message =
  SystemMessage string "provider_options option"
| UserMessage user_content "provider_options option"
| AssistantMessage assistant_content "provider_options option"
| ToolMessage "tool_content_part list" "provider_options option"

datatype model_prompt = PromptText string | PromptMessages "model_message list"

section \<open>The model's messages\<close>

record text_part =
  tp_text :: string
  tp_provider_options :: "provider_options option"

record file_part =
  fp_data :: file_data
  fp_media_type :: string
  fp_filename :: "string option"
  fp_provider_options :: "provider_options option"

datatype lm_tool_result_content = TRText text_part | TRFile file_part | TRCustom "provider_options option"

datatype lm_tool_result_output =
  TROText string "provider_options option"
| TROJson json "provider_options option"
| TROExecutionDenied "string option" "provider_options option"
| TROErrorText string "provider_options option"
| TROErrorJson json "provider_options option"
| TROContent "lm_tool_result_content list" "bool option"

record lm_tool_call_part =
  ltc_id :: string
  ltc_name :: string
  ltc_input :: json
  ltc_provider_executed :: "bool option"
  ltc_provider_options :: "provider_options option"

record lm_tool_result_part =
  ltr_id :: string
  ltr_name :: string
  ltr_output :: lm_tool_result_output
  ltr_provider_options :: "provider_options option"

record lm_reasoning_file_part =
  lrf_data :: generated_file_data
  lrf_media_type :: string
  lrf_provider_options :: "provider_options option"

record lm_approval_response_part =
  lar_approval_id :: string
  lar_approved :: bool
  lar_reason :: "string option"
  lar_provider_options :: "provider_options option"

datatype user_part = UPText text_part | UPFile file_part

datatype lm_assistant_part =
  APText text_part
| APFile file_part
| APReasoning string "provider_options option"
| APReasoningFile lm_reasoning_file_part
| APCustom namespaced_kind "provider_options option"
| APToolCall lm_tool_call_part
| APToolResult lm_tool_result_part

datatype lm_tool_part = TPToolResult lm_tool_result_part | TPToolApprovalResponse lm_approval_response_part

datatype language_model_message =
  LMSystem string "provider_options option"
| LMUser "user_part list" "provider_options option"
| LMAssistant "lm_assistant_part list" "provider_options option"
| LMTool "lm_tool_part list" "provider_options option"

section \<open>Merging provider options\<close>

definition reserved_key :: "string \<Rightarrow> bool" where
  "reserved_key k \<longleftrightarrow> k = ''__proto__'' \<or> k = ''constructor'' \<or> k = ''prototype''"

fun merge_json_objects :: "json_object \<Rightarrow> json_object \<Rightarrow> json_object" where
  "merge_json_objects base [] = base"
| "merge_json_objects base ((k, v) # overrides) =
     (if reserved_key k then merge_json_objects base overrides
      else (case (map_of base k, v) of
        (Some (JObject b), JObject w) \<Rightarrow>
          merge_json_objects (AList.update k (JObject (merge_json_objects b w)) base) overrides
      | _ \<Rightarrow> merge_json_objects (AList.update k v base) overrides))"

fun merge_namespaces :: "provider_options \<Rightarrow> provider_options \<Rightarrow> provider_options" where
  "merge_namespaces result [] = result"
| "merge_namespaces result ((ns, v) # overrides) =
     (if reserved_key ns then merge_namespaces result overrides
      else (case map_of result ns of
        Some b \<Rightarrow> merge_namespaces (AList.update ns (merge_json_objects b v) result) overrides
      | None \<Rightarrow> merge_namespaces (AList.update ns v result) overrides))"

fun merge_objects :: "provider_options option \<Rightarrow> provider_options option \<Rightarrow> provider_options option" where
  "merge_objects None None = None"
| "merge_objects (Some base) None = Some base"
| "merge_objects None (Some overrides) = Some overrides"
| "merge_objects (Some base) (Some overrides) = Some (merge_namespaces base overrides)"

text \<open>
  What a merge leaves under a key: an override wins unless both sides hold objects, which merge.
\<close>

definition merged_value :: "json option \<Rightarrow> json option \<Rightarrow> json option" where
  "merged_value b v = (case (b, v) of
     (_, None) \<Rightarrow> b
   | (Some (JObject m), Some (JObject w)) \<Rightarrow> Some (JObject (merge_json_objects m w))
   | (_, Some w) \<Rightarrow> Some w)"

lemma merged_value_None [simp]: "merged_value b None = b"
  by (simp add: merged_value_def split: option.splits json.splits)

lemma keys_update: "map fst (AList.update k v al) = (if k \<in> fst ` set al then map fst al else map fst al @ [k])"
  by (induction al) auto

lemma new_keys_update:
  assumes "k' \<notin> fst ` set overrides"
  shows "filter (\<lambda>k. \<not> reserved_key k \<and> k \<notin> fst ` set (AList.update k' w base)) (map fst overrides) =
    filter (\<lambda>k. \<not> reserved_key k \<and> k \<notin> fst ` set base) (map fst overrides)"
  using assms dom_update [of k' w base] by (intro filter_cong) auto

lemma merge_json_cons:
  "\<not> reserved_key k \<Longrightarrow> \<exists>w. merged_value (map_of base k) (Some v) = Some w \<and>
     merge_json_objects base ((k, v) # overrides) = merge_json_objects (AList.update k w base) overrides"
  by (auto simp: merged_value_def split: option.splits json.splits)

lemma merge_json_lookup:
  assumes "distinct (map fst overrides)"
  shows "map_of (merge_json_objects base overrides) k =
    (if reserved_key k then map_of base k else merged_value (map_of base k) (map_of overrides k))"
  using assms
proof (induction overrides arbitrary: base)
  case Nil
  then show ?case by simp
next
  case (Cons e overrides)
  obtain k' v where e: "e = (k', v)" by (cases e)
  then have fresh: "map_of overrides k' = None" and rest: "distinct (map fst overrides)"
    using Cons.prems by (auto simp: map_of_eq_None_iff)
  show ?case
  proof (cases "reserved_key k'")
    case True
    then show ?thesis using Cons.IH [OF rest, of base] fresh by (auto simp: e)
  next
    case False
    then obtain w where w: "merged_value (map_of base k') (Some v) = Some w"
        "merge_json_objects base (e # overrides) = merge_json_objects (AList.update k' w base) overrides"
      using merge_json_cons e by blast
    show ?thesis using Cons.IH [OF rest, of "AList.update k' w base"] fresh w False
      by (simp add: w(2) update_conv del: merge_json_objects.simps) (simp add: e)
  qed
qed

lemma merge_json_keys:
  assumes "distinct (map fst overrides)"
  shows "map fst (merge_json_objects base overrides) =
    map fst base @ filter (\<lambda>k. \<not> reserved_key k \<and> k \<notin> fst ` set base) (map fst overrides)"
  using assms
proof (induction overrides arbitrary: base)
  case (Cons e overrides)
  obtain k' v where e: "e = (k', v)" by (cases e)
  have fresh: "k' \<notin> fst ` set overrides" and rest: "distinct (map fst overrides)"
    using Cons.prems by (auto simp: e)
  show ?case
  proof (cases "reserved_key k'")
    case True
    then show ?thesis using Cons.IH [OF rest, of base] by (simp add: e)
  next
    case False
    then obtain w where w: "merge_json_objects base (e # overrides) = merge_json_objects (AList.update k' w base) overrides"
      using merge_json_cons e by blast
    show ?thesis using Cons.IH [OF rest, of "AList.update k' w base"] False new_keys_update [OF fresh, of w base]
      by (simp add: w keys_update) (simp add: e)
  qed
qed simp

lemma merge_namespaces_lookup:
  assumes "distinct (map fst overrides)"
  shows "map_of (merge_namespaces base overrides) k =
    (if reserved_key k then map_of base k
     else (case (map_of base k, map_of overrides k) of
        (b, None) \<Rightarrow> b
      | (None, Some w) \<Rightarrow> Some w
      | (Some b, Some w) \<Rightarrow> Some (merge_json_objects b w)))"
  using assms
proof (induction overrides arbitrary: base)
  case (Cons e overrides)
  obtain k' v where e: "e = (k', v)" by (cases e)
  then have fresh: "map_of overrides k' = None" and rest: "distinct (map fst overrides)"
    using Cons.prems by (auto simp: map_of_eq_None_iff)
  show ?case using Cons.IH [OF rest] fresh by (auto simp: e update_conv split: option.splits)
qed (simp split: option.splits)

lemma merge_namespaces_keys:
  assumes "distinct (map fst overrides)"
  shows "map fst (merge_namespaces base overrides) =
    map fst base @ filter (\<lambda>k. \<not> reserved_key k \<and> k \<notin> fst ` set base) (map fst overrides)"
  using assms
proof (induction overrides arbitrary: base)
  case (Cons e overrides)
  obtain k' v where e: "e = (k', v)" by (cases e)
  have fresh: "k' \<notin> fst ` set overrides" and rest: "distinct (map fst overrides)"
    using Cons.prems by (auto simp: e)
  show ?case
  proof (cases "reserved_key k'")
    case True
    then show ?thesis using Cons.IH [OF rest, of base] by (simp add: e)
  next
    case False
    then obtain w where w: "merge_namespaces base (e # overrides) = merge_namespaces (AList.update k' w base) overrides"
      by (cases "map_of base k'") (auto simp: e)
    show ?thesis using Cons.IH [OF rest, of "AList.update k' w base"] False new_keys_update [OF fresh, of w base]
      by (simp add: w keys_update) (simp add: e)
  qed
qed simp

text \<open>
  Merging provider options keeps the base's keys in their places and appends the new ones in override
  order, except \<open>__proto__\<close>, \<open>constructor\<close> and \<open>prototype\<close>, which never come in from the overrides; a
  namespace both sides have is merged key by key, where an override wins unless both values are objects,
  which merge in turn.
\<close>

lemma merge_objects_exact:
  assumes "distinct (map fst overrides)" and "\<forall>(ns, w) \<in> set overrides. distinct (map fst w)"
  shows "\<exists>r. merge_objects (Some base) (Some overrides) = Some r \<and>
    map fst r = map fst base @ filter (\<lambda>k. \<not> reserved_key k \<and> k \<notin> fst ` set base) (map fst overrides) \<and>
    (\<forall>ns. reserved_key ns \<or> map_of overrides ns = None \<longrightarrow> map_of r ns = map_of base ns) \<and>
    (\<forall>ns w. \<not> reserved_key ns \<and> map_of overrides ns = Some w \<longrightarrow>
       (case map_of base ns of
          None \<Rightarrow> map_of r ns = Some w
        | Some b \<Rightarrow> (\<exists>m. map_of r ns = Some m \<and>
            map fst m = map fst b @ filter (\<lambda>k. \<not> reserved_key k \<and> k \<notin> fst ` set b) (map fst w) \<and>
            (\<forall>k. map_of m k = (if reserved_key k then map_of b k else merged_value (map_of b k) (map_of w k))))))"
proof -
  have inner: "distinct (map fst w)" if "map_of overrides ns = Some w" for ns w
    using assms(2) map_of_SomeD [OF that] by auto
  show ?thesis
    using merge_namespaces_keys [OF assms(1), of base] merge_namespaces_lookup [OF assms(1), of base]
    by (auto simp: merge_json_keys merge_json_lookup inner split: option.splits)
qed

definition sample_base_options :: provider_options where
  "sample_base_options = [(''a'', [(''c'', JObject [(''x'', JNull)]), (''t'', JBool True)]), (''b'', [])]"

definition sample_override_options :: provider_options where
  "sample_override_options = [(''z'', []), (''a'', [(''c'', JObject [(''y'', JNull)]), (''t'', JNull)]), (''prototype'', [])]"

lemma merge_objects_exact_witness:
  "distinct (map fst sample_override_options) \<and> list_all (\<lambda>(ns, w). distinct (map fst w)) sample_override_options \<and>
   merge_objects (Some sample_base_options) (Some sample_override_options) =
     Some [(''a'', [(''c'', JObject [(''x'', JNull), (''y'', JNull)]), (''t'', JNull)]), (''b'', []), (''z'', [])] \<and>
   (\<exists>r. merge_objects (Some sample_base_options) (Some sample_override_options) = Some r \<and>
      map fst r = [''a'', ''b'', ''z''])"
proof -
  have "distinct (map fst sample_override_options)" "\<forall>(ns, w) \<in> set sample_override_options. distinct (map fst w)"
    by (simp_all add: sample_override_options_def)
  from merge_objects_exact [OF this, of sample_base_options] this show ?thesis
    by (simp add: sample_base_options_def sample_override_options_def reserved_key_def list_all_iff)
qed

end
