(* ===== verification/Response_Messages.thy ===== *)
theory Response_Messages
  imports Tool_Parsing Message_Types "HOL-Library.Multiset"
begin

text \<open>
  Assembly of a step's content and of the messages replayed on the next turn
  (\<open>src/aimux-core/src/response_messages.rs\<close>, with the content types of \<open>result.rs\<close>, \<open>content.rs\<close> and
  \<open>message.rs\<close>): streamed text and reasoning segments are updated in place through an index by id, and
  the messages are one assistant message and one tool message in tool call order. The base64 encoder,
  JSON's text form and the comparison of JSON numbers as doubles are the fields of \<open>message_env\<close>.
\<close>

section \<open>Content\<close>

record generated_file =
  gf_data :: file_bytes
  gf_media_type :: string
  gf_provider_metadata :: "provider_metadata option"

record generated_file_output =
  gfo_file :: generated_file
  gfo_provider_metadata :: "provider_metadata option"

record typed_tool_result =
  ttr_id :: string
  ttr_name :: string
  ttr_input :: "json option"
  ttr_output :: json
  ttr_provider_executed :: "bool option"
  ttr_provider_metadata :: "provider_metadata option"
  ttr_dynamic :: "bool option"
  ttr_preliminary :: "bool option"

record tool_approval_request_output =
  taro_approval_id :: string
  taro_tool_call :: typed_tool_call
  taro_reason :: "string option"
  taro_is_automatic :: "bool option"
  taro_signature :: "string option"
  taro_input_schema_input :: "json option"

record tool_approval_response_output =
  tars_approval_id :: string
  tars_tool_call :: typed_tool_call
  tars_approved :: bool
  tars_reason :: "string option"
  tars_provider_executed :: "bool option"

datatype content_part =
  CPText string "provider_metadata option"
| CPCustom namespaced_kind "provider_metadata option"
| CPReasoning reasoning_output
| CPReasoningFile generated_file_output
| CPSource source
| CPFile generated_file "provider_metadata option"
| CPToolCall typed_tool_call
| CPToolResult typed_tool_result
| CPToolError typed_tool_error
| CPToolApprovalRequest tool_approval_request_output
| CPToolApprovalResponse tool_approval_response_output

record message_env =
  base64_encode :: "u8 list \<Rightarrow> string"
  value_text :: "json \<Rightarrow> string"
  same_double :: "json_number \<Rightarrow> json_number \<Rightarrow> bool"

definition file_base64 :: "message_env \<Rightarrow> generated_file \<Rightarrow> string" where
  "file_base64 env f = (case gf_data f of Base64 s \<Rightarrow> s | Binary b \<Rightarrow> base64_encode env b)"

definition from_result :: "message_env \<Rightarrow> json \<Rightarrow> bool \<Rightarrow> tool_result_output" where
  "from_result env v is_error =
     (if is_error
      then OutErrorText (case v of JNull \<Rightarrow> ''unknown error'' | JString s \<Rightarrow> s | _ \<Rightarrow> value_text env v) None
      else (case v of JString s \<Rightarrow> OutText s None | _ \<Rightarrow> OutJson v None))"

definition response_tool_call_input :: "json \<Rightarrow> bool option \<Rightarrow> json" where
  "response_tool_call_input input invalid =
     (if invalid = Some True \<and> (case input of JObject _ \<Rightarrow> False | JArray _ \<Rightarrow> False | JNull \<Rightarrow> False | _ \<Rightarrow> True)
      then JObject [] else input)"

function (sequential) is_deep_equal_data :: "message_env \<Rightarrow> json \<Rightarrow> json \<Rightarrow> bool" where
  "is_deep_equal_data env (JNumber x) (JNumber y) = same_double env x y"
| "is_deep_equal_data env (JArray xs) (JArray ys) =
     (length xs = length ys \<and> list_all (\<lambda>(x, y). is_deep_equal_data env x y) (zip xs ys))"
| "is_deep_equal_data env (JObject xs) (JObject ys) =
     (length xs = length ys \<and>
      list_all (\<lambda>(k, x). case map_of ys k of Some y \<Rightarrow> is_deep_equal_data env x y | None \<Rightarrow> False) xs)"
| "is_deep_equal_data env a b = (a = b)"
  by pat_completeness auto
termination
proof (relation "measure (\<lambda>(_, a, _). size a)", goal_cases)
  case (2 env xs ys p x y)
  then have "x \<in> set xs" by (metis set_zip_leftD)
  then show ?case using size_list_estimation' [of x xs "size x" size] by simp
next
  case (3 env xs ys p k x y)
  then have "(k, x) \<in> set xs" by simp
  then have "size_prod (\<lambda>_. 0) size (k, x) \<le> size_list (size_prod (\<lambda>_. 0) size) xs"
    by (intro size_list_estimation' [of "(k, x)"]) simp_all
  then show ?case by simp
qed simp

section \<open>The builder\<close>

record response_message_builder =
  rb_content :: "content_part list"
  text_indexes :: "string \<rightharpoonup> nat"
  reasoning_indexes :: "string \<rightharpoonup> nat"

definition new_builder :: response_message_builder where
  "new_builder = \<lparr>rb_content = [], text_indexes = Map.empty, reasoning_indexes = Map.empty\<rparr>"

definition push_content :: "content_part \<Rightarrow> response_message_builder \<Rightarrow> response_message_builder" where
  "push_content p rb = rb\<lparr>rb_content := rb_content rb @ [p]\<rparr>"

definition rb_text_start :: "string \<Rightarrow> provider_metadata option \<Rightarrow> response_message_builder \<Rightarrow> response_message_builder" where
  "rb_text_start i md rb =
     (push_content (CPText [] md) rb)\<lparr>text_indexes := (text_indexes rb)(i \<mapsto> length (rb_content rb))\<rparr>"

fun extend_text :: "string \<Rightarrow> provider_metadata option \<Rightarrow> content_part \<Rightarrow> content_part" where
  "extend_text delta md (CPText t m) = CPText (t @ delta) (if md \<noteq> None then md else m)"
| "extend_text delta md p = p"

definition rb_text_delta ::
  "string \<Rightarrow> string \<Rightarrow> provider_metadata option \<Rightarrow> response_message_builder \<Rightarrow> response_message_builder" where
  "rb_text_delta i delta md rb = (case text_indexes rb i of
     None \<Rightarrow> rb
   | Some n \<Rightarrow> rb\<lparr>rb_content := (rb_content rb)[n := extend_text delta md (rb_content rb ! n)]\<rparr>)"

definition rb_text_end :: "string \<Rightarrow> provider_metadata option \<Rightarrow> response_message_builder \<Rightarrow> response_message_builder" where
  "rb_text_end i md rb = (let rb' = rb_text_delta i [] md rb in rb'\<lparr>text_indexes := (text_indexes rb')(i := None)\<rparr>)"

definition rb_reasoning_start ::
  "string \<Rightarrow> provider_metadata option \<Rightarrow> response_message_builder \<Rightarrow> response_message_builder" where
  "rb_reasoning_start i md rb =
     (push_content (CPReasoning \<lparr>ro_text = [], ro_provider_metadata = md\<rparr>) rb)
       \<lparr>reasoning_indexes := (reasoning_indexes rb)(i \<mapsto> length (rb_content rb))\<rparr>"

fun extend_reasoning :: "string \<Rightarrow> provider_metadata option \<Rightarrow> content_part \<Rightarrow> content_part" where
  "extend_reasoning delta md (CPReasoning r) =
     CPReasoning \<lparr>ro_text = ro_text r @ delta,
       ro_provider_metadata = (if md \<noteq> None then md else ro_provider_metadata r)\<rparr>"
| "extend_reasoning delta md p = p"

definition rb_reasoning_delta ::
  "string \<Rightarrow> string \<Rightarrow> provider_metadata option \<Rightarrow> response_message_builder \<Rightarrow> response_message_builder" where
  "rb_reasoning_delta i delta md rb = (case reasoning_indexes rb i of
     None \<Rightarrow> rb
   | Some n \<Rightarrow> rb\<lparr>rb_content := (rb_content rb)[n := extend_reasoning delta md (rb_content rb ! n)]\<rparr>)"

definition rb_reasoning_end ::
  "string \<Rightarrow> provider_metadata option \<Rightarrow> response_message_builder \<Rightarrow> response_message_builder" where
  "rb_reasoning_end i md rb =
     (let rb' = rb_reasoning_delta i [] md rb in rb'\<lparr>reasoning_indexes := (reasoning_indexes rb')(i := None)\<rparr>)"

definition rb_text :: "string \<Rightarrow> provider_metadata option \<Rightarrow> response_message_builder \<Rightarrow> response_message_builder" where
  "rb_text t md = push_content (CPText t md)"

definition rb_reasoning :: "reasoning_output \<Rightarrow> response_message_builder \<Rightarrow> response_message_builder" where
  "rb_reasoning r = push_content (CPReasoning r)"

definition rb_custom ::
  "namespaced_kind \<Rightarrow> provider_metadata option \<Rightarrow> response_message_builder \<Rightarrow> response_message_builder" where
  "rb_custom k md = push_content (CPCustom k md)"

definition rb_file :: "generated_file_output \<Rightarrow> bool \<Rightarrow> response_message_builder \<Rightarrow> response_message_builder" where
  "rb_file output reasoning =
     push_content (if reasoning then CPReasoningFile output else CPFile (gfo_file output) (gfo_provider_metadata output))"

definition rb_approval :: "tool_approval_request_output \<Rightarrow> response_message_builder \<Rightarrow> response_message_builder" where
  "rb_approval a = push_content (CPToolApprovalRequest a)"

definition rb_tool_call :: "typed_tool_call \<Rightarrow> response_message_builder \<Rightarrow> response_message_builder" where
  "rb_tool_call c = push_content (CPToolCall c)"

definition calls_in :: "content_part list \<Rightarrow> typed_tool_call list" where
  "calls_in content = List.map_filter (\<lambda>p. case p of CPToolCall c \<Rightarrow> Some c | _ \<Rightarrow> None) content"

definition rb_tool_result :: "tool_result \<Rightarrow> response_message_builder \<Rightarrow> response_message_builder" where
  "rb_tool_result result rb =
     (if tr_preliminary result = Some True then rb
      else
        (let call = find (\<lambda>c. ttc_id c = tr_tool_call_id result) (calls_in (rb_content rb));
             input = map_option ttc_input call;
             dyn = (case call of Some c \<Rightarrow> ttc_dynamic c | None \<Rightarrow> tr_dynamic result)
         in push_content
              (if tr_is_error result = Some True
               then CPToolError \<lparr>tte_id = tr_tool_call_id result, tte_name = tr_tool_name result, tte_input = input,
                      tte_error = tr_result result, tte_provider_executed = Some True,
                      tte_provider_metadata = tr_provider_metadata result, tte_dynamic = dyn\<rparr>
               else CPToolResult \<lparr>ttr_id = tr_tool_call_id result, ttr_name = tr_tool_name result, ttr_input = input,
                      ttr_output = tr_result result, ttr_provider_executed = Some True,
                      ttr_provider_metadata = tr_provider_metadata result, ttr_dynamic = dyn,
                      ttr_preliminary = None\<rparr>) rb))"

definition rb_typed_tool_result :: "typed_tool_result \<Rightarrow> response_message_builder \<Rightarrow> response_message_builder" where
  "rb_typed_tool_result r rb = (if ttr_preliminary r \<noteq> Some True then push_content (CPToolResult r) rb else rb)"

definition rb_tool_error :: "typed_tool_error \<Rightarrow> response_message_builder \<Rightarrow> response_message_builder" where
  "rb_tool_error e = push_content (CPToolError e)"

definition rb_approval_response ::
  "tool_approval_response_output \<Rightarrow> response_message_builder \<Rightarrow> response_message_builder" where
  "rb_approval_response r = push_content (CPToolApprovalResponse r)"

definition rb_source :: "source \<Rightarrow> response_message_builder \<Rightarrow> response_message_builder" where
  "rb_source s = push_content (CPSource s)"

section \<open>Response messages\<close>

text \<open>The assistant message's part for a content part, if it has one.\<close>

definition assistant_part :: "message_env \<Rightarrow> content_part \<Rightarrow> assistant_content_part option" where
  "assistant_part env p = (case p of
     CPText t md \<Rightarrow> (if t = [] then None else Some (ACText t md))
   | CPReasoning r \<Rightarrow> Some (ACReasoning (ro_text r) (ro_provider_metadata r))
   | CPCustom k md \<Rightarrow> Some (ACCustom k md)
   | CPFile f md \<Rightarrow> Some (ACFile (FPString (file_base64 env f)) (gf_media_type f) None md)
   | CPReasoningFile f \<Rightarrow>
       Some (ACReasoningFile (RFString (file_base64 env (gfo_file f))) (gf_media_type (gfo_file f)) (gfo_provider_metadata f))
   | CPToolApprovalRequest a \<Rightarrow>
       Some (ACToolApprovalRequest (taro_approval_id a) (ttc_id (taro_tool_call a)) (taro_reason a)
         (taro_is_automatic a) (taro_signature a)
         (case taro_input_schema_input a of
            Some raw \<Rightarrow> (if is_deep_equal_data env raw (ttc_input (taro_tool_call a)) then None else Some raw)
          | None \<Rightarrow> None))
   | CPToolCall c \<Rightarrow>
       Some (ACToolCall (ttc_id c) (ttc_name c) (response_tool_call_input (ttc_input c) (ttc_invalid c))
         (ttc_provider_executed c) (ttc_provider_metadata c))
   | CPToolResult r \<Rightarrow>
       (if ttr_provider_executed r = Some True
        then Some (ACToolResult \<lparr>trp_id = ttr_id r, trp_name = Some (ttr_name r),
                     trp_output = from_result env (ttr_output r) False,
                     trp_provider_options = ttr_provider_metadata r\<rparr>)
        else None)
   | CPToolError e \<Rightarrow>
       (if tte_provider_executed e = Some True
        then Some (ACToolResult \<lparr>trp_id = tte_id e, trp_name = Some (tte_name e),
                     trp_output = OutErrorJson (tte_error e) None, trp_provider_options = tte_provider_metadata e\<rparr>)
        else None)
   | CPSource _ \<Rightarrow> None
   | CPToolApprovalResponse _ \<Rightarrow> None)"

text \<open>\<open>tool_call_order\<close>: each call id's number, in the order of first calls.\<close>

definition add_order :: "string \<Rightarrow> (string \<times> nat) list \<Rightarrow> (string \<times> nat) list" where
  "add_order i order = (if map_of order i = None then order @ [(i, length order)] else order)"

definition tool_call_order :: "content_part list \<Rightarrow> (string \<times> nat) list" where
  "tool_call_order content = fold (\<lambda>c. add_order (ttc_id c)) (calls_in content) []"

definition tool_parts :: "message_env \<Rightarrow> content_part \<Rightarrow> tool_content_part list" where
  "tool_parts env p = (case p of
     CPToolApprovalResponse r \<Rightarrow>
       TCToolApprovalResponse (tars_approval_id r) (tars_approved r) (tars_reason r) (tars_provider_executed r) #
       (if tars_approved r then []
        else [TCToolResult \<lparr>trp_id = ttc_id (tars_tool_call r), trp_name = Some (ttc_name (tars_tool_call r)),
                trp_output = OutExecutionDenied (tars_reason r) None, trp_provider_options = None\<rparr>])
   | CPToolResult r \<Rightarrow>
       (if ttr_provider_executed r \<noteq> Some True
        then [TCToolResult \<lparr>trp_id = ttr_id r, trp_name = Some (ttr_name r),
                trp_output = from_result env (ttr_output r) False, trp_provider_options = ttr_provider_metadata r\<rparr>]
        else [])
   | CPToolError e \<Rightarrow>
       (if tte_provider_executed e \<noteq> Some True
        then [TCToolResult \<lparr>trp_id = tte_id e, trp_name = Some (tte_name e),
                trp_output = from_result env (tte_error e) True, trp_provider_options = tte_provider_metadata e\<rparr>]
        else [])
   | _ \<Rightarrow> [])"

fun is_tool_result :: "tool_content_part \<Rightarrow> bool" where
  "is_tool_result (TCToolResult _) = True" | "is_tool_result (TCToolApprovalResponse _ _ _ _) = False"

text \<open>
  The comparison of the sort: results of known calls by their call's number, then results of unknown
  calls, equal ones by their place.
\<close>

definition rank :: "(string \<times> nat) list \<Rightarrow> tool_content_part \<Rightarrow> nat \<times> nat" where
  "rank order p = (case p of
     TCToolResult r \<Rightarrow> (case map_of order (trp_id r) of Some n \<Rightarrow> (0, n) | None \<Rightarrow> (1, 0))
   | TCToolApprovalResponse _ _ _ _ \<Rightarrow> (1, 0))"

definition sorted_results :: "(string \<times> nat) list \<Rightarrow> tool_content_part list \<Rightarrow> tool_content_part list" where
  "sorted_results order parts =
     map snd (sort_key (\<lambda>(i, p). (rank order p, i)) (enumerate 0 (filter is_tool_result parts)))"

text \<open>Each tool result's place is taken by the next sorted result.\<close>

fun refill :: "tool_content_part list \<Rightarrow> tool_content_part list \<Rightarrow> tool_content_part list" where
  "refill [] qs = []"
| "refill (p # parts) qs =
     (if is_tool_result p
      then (case qs of q # rest \<Rightarrow> q # refill parts rest | [] \<Rightarrow> [])
      else p # refill parts qs)"

definition tool_message_content ::
  "message_env \<Rightarrow> content_part list \<Rightarrow> (string \<times> nat) list \<Rightarrow> tool_content_part list" where
  "tool_message_content env content order =
     (let parts = concat (map (tool_parts env) content) in refill parts (sorted_results order parts))"

record response_messages =
  rm_messages :: "model_message list"
  rm_content :: "content_part list"

definition rb_finish :: "message_env \<Rightarrow> response_message_builder \<Rightarrow> response_messages" where
  "rb_finish env rb =
     (let parts = List.map_filter (assistant_part env) (rb_content rb);
          tool_content = tool_message_content env (rb_content rb) (tool_call_order (rb_content rb))
      in \<lparr>rm_messages = (if parts \<noteq> [] then [AssistantMessage (AssistantParts parts) None] else []) @
                        (if tool_content \<noteq> [] then [ToolMessage tool_content None] else []),
          rm_content = rb_content rb\<rparr>)"

section \<open>Streamed segments\<close>

text \<open>
  The events a stream feeds the builder with. Text and reasoning segments are named by their ids apart
  from each other, as the two index maps keep them.
\<close>

datatype segment = TextSegment string | ReasoningSegment string

datatype builder_event =
  SegmentStart segment "provider_metadata option"
| SegmentDelta segment string "provider_metadata option"
| SegmentEnd segment "provider_metadata option"
| Pushed content_part

fun apply_event :: "builder_event \<Rightarrow> response_message_builder \<Rightarrow> response_message_builder" where
  "apply_event (SegmentStart (TextSegment i) md) = rb_text_start i md"
| "apply_event (SegmentStart (ReasoningSegment i) md) = rb_reasoning_start i md"
| "apply_event (SegmentDelta (TextSegment i) d md) = rb_text_delta i d md"
| "apply_event (SegmentDelta (ReasoningSegment i) d md) = rb_reasoning_delta i d md"
| "apply_event (SegmentEnd (TextSegment i) md) = rb_text_end i md"
| "apply_event (SegmentEnd (ReasoningSegment i) md) = rb_reasoning_end i md"
| "apply_event (Pushed p) = push_content p"

text \<open>
  The reference for the content: every started segment stands where it was started and holds its deltas
  up to its end, or up to the next segment of its id; the last metadata that came with it stays.
\<close>

fun extend_part :: "segment \<Rightarrow> string \<Rightarrow> provider_metadata option \<Rightarrow> content_part \<Rightarrow> content_part" where
  "extend_part (TextSegment _) = extend_text" | "extend_part (ReasoningSegment _) = extend_reasoning"

fun empty_part :: "segment \<Rightarrow> provider_metadata option \<Rightarrow> content_part" where
  "empty_part (TextSegment _) md = CPText [] md"
| "empty_part (ReasoningSegment _) md = CPReasoning \<lparr>ro_text = [], ro_provider_metadata = md\<rparr>"

fun segment_value :: "segment \<Rightarrow> content_part \<Rightarrow> builder_event list \<Rightarrow> content_part" where
  "segment_value s p [] = p"
| "segment_value s p (SegmentStart t _ # evs) = (if t = s then p else segment_value s p evs)"
| "segment_value s p (SegmentDelta t d md # evs) = segment_value s (if t = s then extend_part s d md p else p) evs"
| "segment_value s p (SegmentEnd t md # evs) = (if t = s then extend_part s [] md p else segment_value s p evs)"
| "segment_value s p (Pushed _ # evs) = segment_value s p evs"

fun assemble :: "builder_event list \<Rightarrow> content_part list" where
  "assemble [] = []"
| "assemble (SegmentStart s md # evs) = segment_value s (empty_part s md) evs # assemble evs"
| "assemble (Pushed p # evs) = p # assemble evs"
| "assemble (_ # evs) = assemble evs"

text \<open>In between: a list of cells, each with the segment that still writes to it.\<close>

type_synonym cell = "segment option \<times> content_part"

definition rewrite :: "segment \<Rightarrow> (cell \<Rightarrow> cell) \<Rightarrow> cell list \<Rightarrow> cell list" where
  "rewrite s f = map (\<lambda>c. if fst c = Some s then f c else c)"

fun cell_event :: "builder_event \<Rightarrow> cell list \<Rightarrow> cell list" where
  "cell_event (SegmentStart s md) cs = rewrite s (\<lambda>c. (None, snd c)) cs @ [(Some s, empty_part s md)]"
| "cell_event (SegmentDelta s d md) cs = rewrite s (\<lambda>c. (Some s, extend_part s d md (snd c))) cs"
| "cell_event (SegmentEnd s md) cs = rewrite s (\<lambda>c. (None, extend_part s [] md (snd c))) cs"
| "cell_event (Pushed p) cs = cs @ [(None, p)]"

definition cell_value :: "builder_event list \<Rightarrow> cell \<Rightarrow> content_part" where
  "cell_value evs c = (case fst c of None \<Rightarrow> snd c | Some s \<Rightarrow> segment_value s (snd c) evs)"

lemma cells_assemble: "map snd (fold cell_event evs cs) = map (cell_value evs) cs @ assemble evs"
proof (induction evs arbitrary: cs)
  case Nil
  then show ?case by (auto simp: cell_value_def split: option.splits)
next
  case (Cons e evs)
  then show ?case by (cases e) (auto simp: cell_value_def rewrite_def split: option.splits)
qed

definition indexes :: "response_message_builder \<Rightarrow> segment \<Rightarrow> nat option" where
  "indexes rb s = (case s of TextSegment i \<Rightarrow> text_indexes rb i | ReasoningSegment i \<Rightarrow> reasoning_indexes rb i)"

definition keeps_cells :: "response_message_builder \<Rightarrow> cell list \<Rightarrow> bool" where
  "keeps_cells rb cs \<longleftrightarrow> rb_content rb = map snd cs \<and>
     (\<forall>s n. indexes rb s = Some n \<longleftrightarrow> n < length cs \<and> fst (cs ! n) = Some s)"

lemmas builder_defs = rb_text_start_def rb_text_delta_def rb_text_end_def rb_reasoning_start_def rb_reasoning_delta_def
  rb_reasoning_end_def push_content_def Let_def

text \<open>The events as the builder's segments see them.\<close>

lemma event_start:
  "rb_content (apply_event (SegmentStart s md) rb) = rb_content rb @ [empty_part s md]"
  "indexes (apply_event (SegmentStart s md) rb) = (indexes rb)(s \<mapsto> length (rb_content rb))"
  by (cases s; auto simp: builder_defs indexes_def fun_eq_iff split: segment.splits)+

lemma event_push:
  "rb_content (apply_event (Pushed p) rb) = rb_content rb @ [p]" "indexes (apply_event (Pushed p) rb) = indexes rb"
  by (auto simp: builder_defs indexes_def fun_eq_iff split: segment.splits)

lemma event_delta:
  "rb_content (apply_event (SegmentDelta s d md) rb) = (case indexes rb s of None \<Rightarrow> rb_content rb
     | Some n \<Rightarrow> (rb_content rb)[n := extend_part s d md (rb_content rb ! n)])"
  "indexes (apply_event (SegmentDelta s d md) rb) = indexes rb"
  by (cases s; auto simp: builder_defs indexes_def fun_eq_iff split: segment.splits option.splits)+

lemma event_end:
  "rb_content (apply_event (SegmentEnd s md) rb) = rb_content (apply_event (SegmentDelta s [] md) rb)"
  "indexes (apply_event (SegmentEnd s md) rb) = (indexes rb)(s := None)"
  by (cases s; auto simp: builder_defs indexes_def fun_eq_iff split: segment.splits option.splits)+

lemma keeps_content: "keeps_cells rb cs \<Longrightarrow> rb_content rb = map snd cs"
  by (simp add: keeps_cells_def)

lemma keeps_index: "keeps_cells rb cs \<Longrightarrow> indexes rb s = Some n \<longleftrightarrow> n < length cs \<and> fst (cs ! n) = Some s"
  by (simp add: keeps_cells_def)

lemma length_rewrite [simp]: "length (rewrite s f cs) = length cs"
  by (simp add: rewrite_def)

lemma nth_rewrite [simp]: "n < length cs \<Longrightarrow> rewrite s f cs ! n = (if fst (cs ! n) = Some s then f (cs ! n) else cs ! n)"
  by (simp add: rewrite_def)

text \<open>At most one cell is open for a segment, so that updating the indexed part updates every such cell.\<close>

lemma indexed_update:
  assumes "keeps_cells rb cs"
  shows "(case indexes rb s of None \<Rightarrow> rb_content rb | Some n \<Rightarrow> (rb_content rb)[n := g (rb_content rb ! n)])
    = map (\<lambda>c. if fst c = Some s then g (snd c) else snd c) cs" (is "?l = ?r")
proof (rule nth_equalityI)
  show "length ?l = length ?r" using keeps_content [OF assms] by (simp split: option.splits)
next
  fix n
  assume "n < length ?l"
  then have "n < length cs" using keeps_content [OF assms] by (simp split: option.splits)
  then show "?l ! n = ?r ! n"
  proof (cases "indexes rb s")
    case None
    then have "fst (cs ! n) \<noteq> Some s" using keeps_index [OF assms, of s n] \<open>n < length cs\<close> by simp
    with None \<open>n < length cs\<close> keeps_content [OF assms] show ?thesis by simp
  next
    case (Some m)
    then have "fst (cs ! n) = Some s \<longleftrightarrow> m = n" using keeps_index [OF assms, of s n] \<open>n < length cs\<close> by simp
    with Some \<open>n < length cs\<close> keeps_content [OF assms] show ?thesis by (simp add: nth_list_update)
  qed
qed

lemma keeps_event: "keeps_cells rb cs \<Longrightarrow> keeps_cells (apply_event e rb) (cell_event e cs)"
proof (cases e)
  case (SegmentStart s md)
  assume k: "keeps_cells rb cs"
  have "map snd (rewrite s (\<lambda>c. (None, snd c)) cs) = map snd cs" by (simp add: rewrite_def)
  then show ?thesis
    using keeps_content [OF k] keeps_index [OF k]
    by (auto simp: keeps_cells_def SegmentStart event_start nth_append less_Suc_eq simp del: apply_event.simps)
next
  case (SegmentDelta s d md)
  assume k: "keeps_cells rb cs"
  show ?thesis
    using indexed_update [OF k, where s = s and g = "extend_part s d md"] keeps_index [OF k]
    by (auto simp: keeps_cells_def SegmentDelta event_delta simp del: apply_event.simps split: if_splits) (simp add: rewrite_def)
next
  case (SegmentEnd s md)
  assume k: "keeps_cells rb cs"
  show ?thesis
    using indexed_update [OF k, where s = s and g = "extend_part s [] md"] keeps_index [OF k]
    by (auto simp: keeps_cells_def SegmentEnd event_end event_delta simp del: apply_event.simps split: if_splits) (simp add: rewrite_def)
next
  case (Pushed p)
  assume k: "keeps_cells rb cs"
  show ?thesis
    using keeps_content [OF k] keeps_index [OF k]
    by (auto simp: keeps_cells_def Pushed event_push nth_append less_Suc_eq simp del: apply_event.simps)
qed

lemma keeps_events: "keeps_cells rb cs \<Longrightarrow> keeps_cells (fold apply_event evs rb) (fold cell_event evs cs)"
  by (induction evs arbitrary: rb cs) (simp_all add: keeps_event)

lemma keeps_new: "keeps_cells new_builder []"
  by (simp add: keeps_cells_def new_builder_def indexes_def split: segment.splits)

text \<open>
  The content a stream builds is the one its events describe. However the segments of a step are
  interleaved, each text or reasoning segment stands where it was started, holds exactly the deltas that
  came under its id between its start and its end, and its metadata is the last one given; a delta or an
  end without a start changes nothing, and every other part stands where it was pushed.
\<close>

lemma streamed_content_assembled: "rb_content (fold apply_event evs new_builder) = assemble evs"
  using keeps_content [OF keeps_events [OF keeps_new]] cells_assemble [of evs "[]"] by simp

section \<open>The order of tool results\<close>

lemma sort_key_cong:
  assumes "\<And>x y. x \<in> set xs \<Longrightarrow> y \<in> set xs \<Longrightarrow> f x \<le> f y \<longleftrightarrow> g x \<le> g y"
  shows "sort_key f xs = sort_key g xs"
proof (rule properties_for_sort_key)
  have sub: "set (sort_key g xs) = set xs" by simp
  have "sorted_wrt (\<lambda>x y. g x \<le> g y) (sort_key g xs)" using sorted_sort_key [of g xs] by (simp add: sorted_map)
  then have "sorted_wrt (\<lambda>x y. f x \<le> f y) (sort_key g xs)"
    by (rule sorted_wrt_mono_rel [rotated]) (use assms sub in blast)
  then show "sorted (map f (sort_key g xs))" by (simp add: sorted_map)
next
  fix k
  assume "k \<in> set (sort_key g xs)"
  then have "f k = f x \<longleftrightarrow> g k = g x" if "x \<in> set xs" for x
    using assms [of k x] assms [of x k] that by (metis antisym_conv order_refl set_sort)
  then have "filter (\<lambda>x. f k = f x) ys = filter (\<lambda>x. g k = g x) ys" if "set ys = set xs" for ys
    using that by (intro filter_cong) auto
  moreover have "filter (\<lambda>x. g k = g x) (sort_key g xs) = filter (\<lambda>x. g k = g x) xs"
    by (metis (mono_tags, lifting) filter_cong sort_key_stable)
  ultimately show "filter (\<lambda>x. f k = f x) (sort_key g xs) = filter (\<lambda>x. f k = f x) xs" by simp
qed simp

text \<open>Sorting with the place as the last key is a stable sort without it.\<close>

lemma enumerated_sort: "map snd (sort_key (\<lambda>(i, p). (f p, i)) (enumerate n xs)) = sort_key f xs"
proof (rule sym, rule properties_for_sort_key)
  let ?h = "\<lambda>(i, p). (f p, i)"
  show "mset (map snd (sort_key ?h (enumerate n xs))) = mset xs" by (simp only: mset_map mset_sort) (simp flip: mset_map)
  have "sorted_wrt (\<lambda>x y. ?h x \<le> ?h y) (sort_key ?h (enumerate n xs))"
    using sorted_sort_key [of ?h "enumerate n xs"] by (simp add: sorted_map)
  then have "sorted_wrt (\<lambda>x y. f (snd x) \<le> f (snd y)) (sort_key ?h (enumerate n xs))"
    by (rule sorted_wrt_mono_rel [rotated]) (auto simp: less_eq_prod_def)
  then show "sorted (map f (map snd (sort_key ?h (enumerate n xs))))" by (simp add: sorted_map)
  fix k
  let ?xs = "filter (\<lambda>(i, p). f k = f p) (enumerate n xs)"
  have "sorted_wrt (\<lambda>x y. fst x \<le> fst y) ?xs"
  proof (rule sorted_wrt_filter)
    have "sorted (map fst (enumerate n xs))" by simp
    then show "sorted_wrt (\<lambda>x y. fst x \<le> fst y) (enumerate n xs)" by (simp only: sorted_map)
  qed
  then have "sorted_wrt (\<lambda>x y. ?h x \<le> ?h y) ?xs"
    by (rule sorted_wrt_mono_rel [rotated]) auto
  then have "sort_key ?h ?xs = ?xs" by (intro sort_key_id_if_sorted) (simp add: sorted_map)
  moreover have "map snd (filter (\<lambda>(i, p). f k = f p) zs) = filter (\<lambda>p. f k = f p) (map snd zs)" for zs :: "(nat \<times> _) list"
    by (induction zs) auto
  ultimately show "filter (\<lambda>x. f k = f x) (map snd (sort_key ?h (enumerate n xs))) = filter (\<lambda>x. f k = f x) xs"
    by (metis (mono_tags, lifting) filter_sort map_snd_enumerate)
qed

text \<open>The place of an id's first call, the number of calls when there is none.\<close>

definition first_call :: "content_part list \<Rightarrow> string \<Rightarrow> nat" where
  "first_call content i = length (takeWhile (\<lambda>j. j \<noteq> i) (map ttc_id (calls_in content)))"

definition numbering_ok :: "string list \<Rightarrow> (string \<times> nat) list \<Rightarrow> bool" where
  "numbering_ok ids order \<longleftrightarrow> fst ` set order = set ids \<and>
     (\<forall>i n. map_of order i = Some n \<longrightarrow> n < length order) \<and>
     (\<forall>i j m n. map_of order i = Some m \<longrightarrow> map_of order j = Some n \<longrightarrow>
        (m \<le> n \<longleftrightarrow> length (takeWhile (\<lambda>x. x \<noteq> i) ids) \<le> length (takeWhile (\<lambda>x. x \<noteq> j) ids)))"

lemma takeWhile_member: "i \<in> set ids \<Longrightarrow> length (takeWhile (\<lambda>x. x \<noteq> i) ids) < length ids"
  by (induction ids) auto

lemma takeWhile_snoc:
  "length (takeWhile (\<lambda>x. x \<noteq> i) (ids @ [c])) =
     (if i \<in> set ids then length (takeWhile (\<lambda>x. x \<noteq> i) ids) else if i = c then length ids else Suc (length ids))"
  by (induction ids) auto

lemma numbering_ok_add:
  assumes "numbering_ok ids order"
  shows "numbering_ok (ids @ [c]) (add_order c order)"
proof (cases "map_of order c")
  case None
  then have new: "c \<notin> set ids" using assms by (auto simp: numbering_ok_def map_of_eq_None_iff)
  have known: "map_of order i = Some n \<Longrightarrow> i \<in> set ids \<and> n < length order" for i n
    using assms by (force simp: numbering_ok_def dest: map_of_SomeD)
  have look: "map_of (order @ [(c, length order)]) i = Some n \<longleftrightarrow>
      map_of order i = Some n \<or> (i = c \<and> n = length order)" for i n
    using None by (auto simp: map_add_def split: option.splits)
  have old: "i \<in> set ids \<Longrightarrow> length (takeWhile (\<lambda>x. x \<noteq> i) ids) < length ids" for i by (rule takeWhile_member)
  have "fst ` set (order @ [(c, length order)]) = set (ids @ [c])" using assms by (simp add: numbering_ok_def)
  moreover have "n < length (order @ [(c, length order)])" if "map_of (order @ [(c, length order)]) i = Some n" for i n
    using that known [of i n] unfolding look by auto
  moreover have "m \<le> n \<longleftrightarrow>
      length (takeWhile (\<lambda>x. x \<noteq> i) (ids @ [c])) \<le> length (takeWhile (\<lambda>x. x \<noteq> j) (ids @ [c]))"
    if m: "map_of (order @ [(c, length order)]) i = Some m" and n: "map_of (order @ [(c, length order)]) j = Some n" for i j m n
  proof -
    consider "map_of order i = Some m" "map_of order j = Some n" | "map_of order i = Some m" "j = c" "n = length order"
      | "i = c" "m = length order" "map_of order j = Some n" | "i = c" "j = c" "m = n"
      using m n unfolding look by blast
    then show ?thesis
    proof cases
      case 1
      then show ?thesis using assms known by (simp add: takeWhile_snoc numbering_ok_def)
    next
      case 2
      then show ?thesis using known [of i m] old [of i] new by (simp add: takeWhile_snoc)
    next
      case 3
      then show ?thesis using known [of j n] old [of j] new by (simp add: takeWhile_snoc)
    qed simp
  qed
  ultimately have "numbering_ok (ids @ [c]) (order @ [(c, length order)])" unfolding numbering_ok_def by blast
  then show ?thesis using None by (simp add: add_order_def)
next
  case (Some n)
  then have "c \<in> set ids" using assms by (force simp: numbering_ok_def dest: map_of_SomeD)
  moreover have "map_of order i = Some n \<Longrightarrow> i \<in> set ids" for i n
    using assms by (force simp: numbering_ok_def dest: map_of_SomeD)
  ultimately show ?thesis
    using assms Some by (auto simp: numbering_ok_def add_order_def takeWhile_snoc)
qed

lemma numbering_ok_calls: "numbering_ok (map ttc_id (calls_in content)) (tool_call_order content)"
proof -
  have "numbering_ok (map ttc_id cs) (fold (\<lambda>c. add_order (ttc_id c)) cs [])" for cs
    by (induction cs rule: rev_induct) (simp_all add: numbering_ok_add, simp add: numbering_ok_def)
  then show ?thesis by (simp add: tool_call_order_def)
qed

fun result_id :: "tool_content_part \<Rightarrow> string" where
  "result_id (TCToolResult r) = trp_id r" | "result_id (TCToolApprovalResponse i _ _ _) = i"

lemma rank_first_call:
  assumes "is_tool_result p" and "is_tool_result q"
  shows "rank (tool_call_order content) p \<le> rank (tool_call_order content) q
    \<longleftrightarrow> first_call content (result_id p) \<le> first_call content (result_id q)"
proof -
  let ?ids = "map ttc_id (calls_in content)" and ?order = "tool_call_order content"
  have known: "map_of ?order i \<noteq> None \<longleftrightarrow> i \<in> set ?ids" for i
    using numbering_ok_calls [of content] by (auto simp: numbering_ok_def map_of_eq_None_iff)
  have inside: "map_of ?order i = Some n \<Longrightarrow> first_call content i < length ?ids" for i n
    using known [of i] takeWhile_member [of i ?ids] by (simp add: first_call_def)
  have outside: "map_of ?order i = None \<Longrightarrow> first_call content i = length ?ids" for i
    using known [of i] by (simp add: first_call_def) (metis (mono_tags, lifting) length_map list.set_map takeWhile_eq_all_conv)
  have both: "map_of ?order i = Some m \<Longrightarrow> map_of ?order j = Some n \<Longrightarrow>
      m \<le> n \<longleftrightarrow> first_call content i \<le> first_call content j" for i j m n
    using numbering_ok_calls [of content] by (simp add: numbering_ok_def first_call_def)
  obtain r s where "p = TCToolResult r" "q = TCToolResult s" using assms by (metis is_tool_result.elims(2))
  then show ?thesis
    using both [of "trp_id r" _ "trp_id s"] inside [of "trp_id r"] inside [of "trp_id s"]
      outside [of "trp_id r"] outside [of "trp_id s"]
    by (auto simp: rank_def split: option.splits)
qed

lemma sorted_results_calls:
  "sorted_results (tool_call_order content) parts =
     sort_key (\<lambda>p. first_call content (result_id p)) (filter is_tool_result parts)"
  unfolding sorted_results_def enumerated_sort by (rule sort_key_cong) (simp add: rank_first_call)

text \<open>Refilling the results' places.\<close>

lemma refill_properties:
  assumes "length (filter is_tool_result parts) = length qs" and "list_all is_tool_result qs"
  shows "filter is_tool_result (refill parts qs) = qs \<and> map is_tool_result (refill parts qs) = map is_tool_result parts
    \<and> filter (\<lambda>p. \<not> is_tool_result p) (refill parts qs) = filter (\<lambda>p. \<not> is_tool_result p) parts"
  using assms by (induction parts qs rule: refill.induct) (auto split: list.splits)

text \<open>
  The tool message answers the calls in their order. Its results are the client's results, errors and
  denials of the step, sorted stably by the place of the call they answer, those of no known call last;
  the approval responses stay at their places between them, and nothing is lost or added.
\<close>

lemma tool_message_in_call_order:
  "let parts = concat (map (tool_parts env) content);
       out = tool_message_content env content (tool_call_order content)
   in filter is_tool_result out
      = sort_key (\<lambda>p. first_call content (result_id p)) (filter is_tool_result parts)
    \<and> map is_tool_result out = map is_tool_result parts
    \<and> filter (\<lambda>p. \<not> is_tool_result p) out = filter (\<lambda>p. \<not> is_tool_result p) parts"
proof -
  let ?parts = "concat (map (tool_parts env) content)"
  have "list_all is_tool_result (sorted_results (tool_call_order content) ?parts)"
    by (simp add: sorted_results_calls list_all_iff)
  then show ?thesis
    using refill_properties [of ?parts "sorted_results (tool_call_order content) ?parts"]
    by (simp add: tool_message_content_def Let_def sorted_results_calls)
qed

end
