(* ===== verification/Text_Stream.thy ===== *)
theory Text_Stream
  imports Stream_Pump Response_Messages "HOL-Library.AList"
begin

text \<open>
  The public text stream: the consumer of \<open>stream_in_operation\<close>, its \<open>StreamStep\<close> and
  \<open>StreamedContent\<close> and the tool choice check (\<open>src/aimux-core/src/generate.rs\<close>), and \<open>TextStreamPart\<close>
  (\<open>stream_part.rs\<close>). Instants are nanoseconds. Of a step's performance the model keeps what it is computed
  from (usage and times); the rates and percentiles, floating-point numbers, are left out. The settings of
  a call are the fields of \<open>text_env\<close>; the outcome of resolving a file under the call's deadlines and abort
  signal is its field \<open>te_resolve\<close>.
\<close>

section \<open>Stream parts of a call\<close>

record request_info =
  ri_body :: "json option"

record step_response_metadata =
  srm_id :: string
  srm_timestamp :: int
  srm_model_id :: string
  srm_headers :: "(string \<times> string) list option"

record step_result_performance =
  perf_usage :: "language_model_usage option"
  perf_response_time :: nat
  perf_step_time :: nat
  perf_first_output :: "nat option"
  perf_chunk_gaps :: "nat list"

record tool_output_denied =
  tod_tool_call_id :: string
  tod_tool_name :: string
  tod_provider_executed :: "bool option"
  tod_dynamic :: "bool option"

datatype text_stream_part =
  TTextStart string "provider_metadata option"
| TTextEnd string "provider_metadata option"
| TTextDelta string "provider_metadata option" string
| TReasoningStart string "provider_metadata option"
| TReasoningEnd string "provider_metadata option"
| TReasoningDelta "provider_metadata option" string string
| TCustom namespaced_kind "provider_metadata option"
| TToolInputStart string string "provider_metadata option" "bool option" "bool option" "string option"
| TToolInputEnd string "provider_metadata option"
| TToolInputDelta string string "provider_metadata option"
| TSource source
| TFile generated_file_output
| TReasoningFile generated_file_output
| TToolCall typed_tool_call
| TToolResult typed_tool_result
| TToolError typed_tool_error
| TToolOutputDenied tool_output_denied
| TToolApprovalRequest tool_approval_request_output
| TToolApprovalResponse tool_approval_response_output
| StartStep request_info "warning list"
| FinishStep step_response_metadata language_model_usage step_result_performance finish_reason_unified
    "string option" "provider_metadata option"
| TStart
| TFinish finish_reason_unified "string option" language_model_usage
| TAbort "string option"
| TError aimux_error
| TRaw json

text \<open>
  \<open>into_text_stream_part\<close> on the parts without a payload; the four kinds of parts with one were split off
  by \<open>split_payload\<close> before.
\<close>

fun into_text_stream_part :: "stream_part \<Rightarrow> text_stream_part option" where
  "into_text_stream_part (TextStart i md) = Some (TTextStart i md)"
| "into_text_stream_part (TextDelta i delta md) = Some (TTextDelta i md delta)"
| "into_text_stream_part (TextEnd i md) = Some (TTextEnd i md)"
| "into_text_stream_part (PartError e) = Some (TError e)"
| "into_text_stream_part (ToolInputStart i name pe dyn title md) = Some (TToolInputStart i name md pe dyn title)"
| "into_text_stream_part (ToolInputDelta i delta md) = Some (TToolInputDelta i delta md)"
| "into_text_stream_part (ToolInputEnd i md) = Some (TToolInputEnd i md)"
| "into_text_stream_part (ReasoningStart i md) = Some (TReasoningStart i md)"
| "into_text_stream_part (ReasoningDelta i delta md) = Some (TReasoningDelta md i delta)"
| "into_text_stream_part (ReasoningEnd i md) = Some (TReasoningEnd i md)"
| "into_text_stream_part (CustomPart k md) = Some (TCustom k md)"
| "into_text_stream_part (SourcePart s) = Some (TSource s)"
| "into_text_stream_part (RawPart v) = Some (TRaw v)"
| "into_text_stream_part _ = None"

section \<open>The step\<close>

definition default_language_model_usage :: language_model_usage where
  "default_language_model_usage = \<lparr>input_tokens = None,
     lmu_input_token_details = \<lparr>no_cache_tokens = None, cache_read_tokens = None, cache_write_tokens = None\<rparr>,
     output_tokens = None, lmu_output_token_details = \<lparr>text_tokens = None, reasoning_tokens = None\<rparr>,
     total_tokens = None, lmu_raw = None\<rparr>"

definition default_performance :: step_result_performance where
  "default_performance = \<lparr>perf_usage = None, perf_response_time = 0, perf_step_time = 0, perf_first_output = None,
     perf_chunk_gaps = []\<rparr>"

record stream_step =
  ss_started :: bool
  ss_warnings :: "warning list"
  ss_terminal :: bool
  saw_output :: bool
  ss_finish_reason :: finish_reason_unified
  ss_raw_finish_reason :: "string option"
  ss_usage :: language_model_usage
  ss_provider_metadata :: "provider_metadata option"
  ss_response :: response_metadata
  call_started :: nat
  first_output :: "nat option"
  previous_output :: "nat option"
  chunk_gaps :: "nat list"
  model_call_performance :: "step_result_performance option"

definition new_stream_step :: "nat \<Rightarrow> response_metadata \<Rightarrow> stream_step" where
  "new_stream_step now response = \<lparr>ss_started = False, ss_warnings = [], ss_terminal = False, saw_output = False,
     ss_finish_reason = FinishOther, ss_raw_finish_reason = None, ss_usage = default_language_model_usage,
     ss_provider_metadata = None, ss_response = response, call_started = now, first_output = None,
     previous_output = None, chunk_gaps = [], model_call_performance = None\<rparr>"

text \<open>\<open>saturating_duration_since\<close> in nanoseconds.\<close>

definition time_between :: "nat \<Rightarrow> nat \<Rightarrow> nat" where
  "time_between start finish = finish - start"

definition record_chunk :: "stream_part \<Rightarrow> nat \<Rightarrow> stream_step \<Rightarrow> stream_step" where
  "record_chunk part arrived s =
     (if \<not> is_output_chunk part then s
      else
        (let s1 = s\<lparr>saw_output := True\<rparr>;
             s2 = (case first_output s1 of
                None \<Rightarrow> s1\<lparr>first_output := Some (time_between (call_started s1) arrived)\<rparr>
              | Some _ \<Rightarrow>
                  (case previous_output s1 of
                     Some previous \<Rightarrow> s1\<lparr>chunk_gaps := chunk_gaps s1 @ [time_between previous arrived]\<rparr>
                   | None \<Rightarrow> s1))
         in s2\<lparr>previous_output := Some arrived\<rparr>))"

definition merge_metadata :: "response_metadata \<Rightarrow> response_metadata \<Rightarrow> response_metadata" where
  "merge_metadata old md =
     \<lparr>rm_id = (if rm_id md \<noteq> None then rm_id md else rm_id old),
      rm_timestamp = (if rm_timestamp md \<noteq> None then rm_timestamp md else rm_timestamp old),
      rm_model_id = (if rm_model_id md \<noteq> None then rm_model_id md else rm_model_id old)\<rparr>"

definition finish_stream_step ::
  "finish_reason \<Rightarrow> usage \<Rightarrow> provider_metadata option \<Rightarrow> nat \<Rightarrow> stream_step \<Rightarrow> stream_step" where
  "finish_stream_step reason u md arrived s =
     s\<lparr>ss_terminal := True, ss_finish_reason := unified reason, ss_raw_finish_reason := fr_raw reason,
       ss_usage := as_language_model_usage u, ss_provider_metadata := md,
       model_call_performance := Some \<lparr>perf_usage = Some (as_language_model_usage u),
         perf_response_time = time_between (call_started s) arrived, perf_step_time = 0,
         perf_first_output = first_output s, perf_chunk_gaps = chunk_gaps s\<rparr>\<rparr>"

text \<open>\<open>into_parts\<close> at the instant \<open>now\<close>, the wall clock showing \<open>stamp\<close>.\<close>

definition into_parts ::
  "(string \<times> string) list option \<Rightarrow> nat \<Rightarrow> nat \<Rightarrow> int \<Rightarrow> stream_step \<Rightarrow> text_stream_part \<times> text_stream_part" where
  "into_parts headers step_started now stamp s =
     (FinishStep
        \<lparr>srm_id = unwrap_or [] (rm_id (ss_response s)), srm_timestamp = unwrap_or stamp (rm_timestamp (ss_response s)),
         srm_model_id = unwrap_or [] (rm_model_id (ss_response s)), srm_headers = headers\<rparr>
        (ss_usage s)
        ((unwrap_or default_performance (model_call_performance s))\<lparr>perf_step_time := time_between step_started now\<rparr>)
        (ss_finish_reason s) (ss_raw_finish_reason s) (ss_provider_metadata s),
      TFinish (ss_finish_reason s) (ss_raw_finish_reason s)
        (add_language_model_usage default_language_model_usage (ss_usage s)))"

section \<open>The provider's content\<close>

record streamed_content =
  sc_content :: "generate_content list"
  sc_text :: "string \<rightharpoonup> nat"
  sc_reasoning :: "string \<rightharpoonup> nat"

definition default_streamed_content :: streamed_content where
  "default_streamed_content = \<lparr>sc_content = [], sc_text = Map.empty, sc_reasoning = Map.empty\<rparr>"

fun append_text :: "string option \<Rightarrow> provider_metadata option \<Rightarrow> generate_content \<Rightarrow> generate_content" where
  "append_text delta md (GCText t m) = GCText (t @ unwrap_or [] delta) (if md \<noteq> None then md else m)"
| "append_text delta md c = c"

fun append_reasoning :: "string option \<Rightarrow> provider_metadata option \<Rightarrow> generate_content \<Rightarrow> generate_content" where
  "append_reasoning delta md (GCReasoning r) =
     GCReasoning \<lparr>ro_text = ro_text r @ unwrap_or [] delta,
       ro_provider_metadata = (if md \<noteq> None then md else ro_provider_metadata r)\<rparr>"
| "append_reasoning delta md c = c"

definition push_generated :: "generate_content \<Rightarrow> streamed_content \<Rightarrow> streamed_content" where
  "push_generated c sc = sc\<lparr>sc_content := sc_content sc @ [c]\<rparr>"

definition upsert_text :: "string \<Rightarrow> string option \<Rightarrow> provider_metadata option \<Rightarrow> streamed_content \<Rightarrow> streamed_content" where
  "upsert_text i delta md sc =
     (let (n, sc') = (case sc_text sc i of
            Some n \<Rightarrow> (n, sc)
          | None \<Rightarrow> (length (sc_content sc),
              (push_generated (GCText [] md) sc)\<lparr>sc_text := (sc_text sc)(i \<mapsto> length (sc_content sc))\<rparr>))
      in sc'\<lparr>sc_content := (sc_content sc')[n := append_text delta md (sc_content sc' ! n)]\<rparr>)"

definition upsert_reasoning ::
  "string \<Rightarrow> string option \<Rightarrow> provider_metadata option \<Rightarrow> streamed_content \<Rightarrow> streamed_content" where
  "upsert_reasoning i delta md sc =
     (let (n, sc') = (case sc_reasoning sc i of
            Some n \<Rightarrow> (n, sc)
          | None \<Rightarrow> (length (sc_content sc),
              (push_generated (GCReasoning \<lparr>ro_text = [], ro_provider_metadata = md\<rparr>) sc)
                \<lparr>sc_reasoning := (sc_reasoning sc)(i \<mapsto> length (sc_content sc))\<rparr>))
      in sc'\<lparr>sc_content := (sc_content sc')[n := append_reasoning delta md (sc_content sc' ! n)]\<rparr>)"

fun observe :: "stream_part \<Rightarrow> streamed_content \<Rightarrow> streamed_content" where
  "observe (TextStart i md) sc = upsert_text i None md sc"
| "observe (TextDelta i delta md) sc = upsert_text i (Some delta) md sc"
| "observe (TextEnd i md) sc = (let sc' = upsert_text i None md sc in sc'\<lparr>sc_text := (sc_text sc')(i := None)\<rparr>)"
| "observe (ReasoningStart i md) sc = upsert_reasoning i None md sc"
| "observe (ReasoningDelta i delta md) sc = upsert_reasoning i (Some delta) md sc"
| "observe (ReasoningEnd i md) sc =
     (let sc' = upsert_reasoning i None md sc in sc'\<lparr>sc_reasoning := (sc_reasoning sc')(i := None)\<rparr>)"
| "observe (FilePart f) sc = push_generated (GCFile f) sc"
| "observe (ReasoningFilePart f) sc = push_generated (GCReasoningFile f) sc"
| "observe (ToolCallPart c) sc = push_generated (GCToolCall c) sc"
| "observe (ToolApprovalRequestPart a) sc = push_generated (GCToolApprovalRequest a) sc"
| "observe (ToolResultPart r) sc = push_generated (GCToolResult r) sc"
| "observe (CustomPart k md) sc = push_generated (GCCustom k md) sc"
| "observe (SourcePart s) sc = push_generated (GCSource s) sc"
| "observe _ sc = sc"

section \<open>Tool choice\<close>

text \<open>Whether the names of a response's tool calls satisfy a tool choice.\<close>

fun choice_satisfied :: "language_model_v4_tool_choice \<Rightarrow> string list \<Rightarrow> bool" where
  "choice_satisfied V4Required names \<longleftrightarrow> names \<noteq> []"
| "choice_satisfied (V4Tool name) names \<longleftrightarrow> name \<in> set names"
| "choice_satisfied V4Auto names \<longleftrightarrow> True"
| "choice_satisfied V4None names \<longleftrightarrow> True"

definition tool_choice_violation ::
  "language_model_v4_tool_choice option \<Rightarrow> string list \<Rightarrow> finish_reason_unified \<Rightarrow> string \<Rightarrow> string \<Rightarrow>
   generate_content list \<Rightarrow> aimux_error option" where
  "tool_choice_violation choice names reason provider model_id content = (case choice of
     None \<Rightarrow> None
   | Some c \<Rightarrow>
       (if choice_satisfied c names then None
        else Some (ToolChoiceViolation \<lparr>tcv_tool_choice = c, tcv_finish_reason = reason, tcv_provider = provider,
               tcv_model_id = model_id, tcv_content = content\<rparr>)))"

section \<open>The consumer\<close>

record 'm text_env =
  te_json :: json_env
  te_tools :: "tool list option"
  te_repair :: "('m tool_call_repair_context \<Rightarrow> aimux_error + raw_tool_call option) option"
  te_messages :: "'m list"
  te_instructions :: "string option"
  te_tool_choice :: "language_model_v4_tool_choice option"
  te_provider :: string
  te_model_id :: string
  te_request :: request_info
  te_headers :: "(string \<times> string) list option"
  te_step_started :: nat
  te_resolve :: "generated_file_data \<Rightarrow> aimux_error + file_bytes"

definition resolve_file :: "'m text_env \<Rightarrow> language_model_file \<Rightarrow> aimux_error + generated_file_output" where
  "resolve_file env f = map_sum (\<lambda>e. e)
     (\<lambda>d. \<lparr>gfo_file = \<lparr>gf_data = d, gf_media_type = lmf_media_type f, gf_provider_metadata = None\<rparr>,
           gfo_provider_metadata = lmf_provider_metadata f\<rparr>) (te_resolve env (lmf_data f))"

definition provider_tool_result_part :: "tool_result \<Rightarrow> json option \<Rightarrow> text_stream_part" where
  "provider_tool_result_part result input =
     (if tr_is_error result = Some True
      then TToolError \<lparr>tte_id = tr_tool_call_id result, tte_name = tr_tool_name result, tte_input = input,
             tte_error = tr_result result, tte_provider_executed = Some True,
             tte_provider_metadata = tr_provider_metadata result, tte_dynamic = tr_dynamic result\<rparr>
      else TToolResult \<lparr>ttr_id = tr_tool_call_id result, ttr_name = tr_tool_name result, ttr_input = input,
             ttr_output = tr_result result, ttr_provider_executed = Some True,
             ttr_provider_metadata = tr_provider_metadata result, ttr_dynamic = tr_dynamic result,
             ttr_preliminary = tr_preliminary result\<rparr>)"

record text_state =
  ts_step :: stream_step
  ts_tool_calls :: "(string \<times> typed_tool_call) list"
  active_text :: "string set"
  active_reasoning :: "string set"
  ts_content :: "streamed_content option"

text \<open>Only a choice that can be violated needs the streamed content.\<close>

definition needs_streamed_content :: "language_model_v4_tool_choice option \<Rightarrow> bool" where
  "needs_streamed_content choice = (case choice of
     Some V4Required \<Rightarrow> True | Some (V4Tool _) \<Rightarrow> True | _ \<Rightarrow> False)"

definition new_text_state :: "'m text_env \<Rightarrow> nat \<Rightarrow> response_metadata \<Rightarrow> text_state" where
  "new_text_state env now response = \<lparr>ts_step = new_stream_step now response, ts_tool_calls = [],
     active_text = {}, active_reasoning = {},
     ts_content = (if needs_streamed_content (te_tool_choice env) then Some default_streamed_content else None)\<rparr>"

text \<open>Every part but \<open>stream-start\<close> opens the step first.\<close>

definition open_step :: "'m text_env \<Rightarrow> nat \<Rightarrow> stream_part \<Rightarrow> text_state \<Rightarrow> text_stream_part list \<times> text_state" where
  "open_step env arrived part st =
     ((if ss_started (ts_step st) then [] else [StartStep (te_request env) (ss_warnings (ts_step st))]),
      st\<lparr>ts_step := record_chunk part arrived ((ts_step st)\<lparr>ss_started := True\<rparr>),
         ts_content := map_option (observe part) (ts_content st)\<rparr>)"

definition not_found :: "string \<Rightarrow> string \<Rightarrow> text_stream_part" where
  "not_found kind i = TError (other (kind @ '' part '' @ i @ '' not found''))"

text \<open>Forwarding: the part, and an error part after a delta or an end of a segment that is not open.\<close>

fun forward_part :: "text_stream_part \<Rightarrow> text_state \<Rightarrow> text_stream_part list \<times> text_state" where
  "forward_part (TTextStart i md) st = ([TTextStart i md], st\<lparr>active_text := insert i (active_text st)\<rparr>)"
| "forward_part (TTextDelta i md t) st =
     (TTextDelta i md t # (if i \<in> active_text st then [] else [not_found ''text'' i]), st)"
| "forward_part (TTextEnd i md) st =
     (TTextEnd i md # (if i \<in> active_text st then [] else [not_found ''text'' i]),
      st\<lparr>active_text := active_text st - {i}\<rparr>)"
| "forward_part (TReasoningStart i md) st =
     ([TReasoningStart i md], st\<lparr>active_reasoning := insert i (active_reasoning st)\<rparr>)"
| "forward_part (TReasoningDelta md i t) st =
     (TReasoningDelta md i t # (if i \<in> active_reasoning st then [] else [not_found ''reasoning'' i]), st)"
| "forward_part (TReasoningEnd i md) st =
     (TReasoningEnd i md # (if i \<in> active_reasoning st then [] else [not_found ''reasoning'' i]),
      st\<lparr>active_reasoning := active_reasoning st - {i}\<rparr>)"
| "forward_part p st = ([p], st)"

definition resolved_part ::
  "'m text_env \<Rightarrow> language_model_file \<Rightarrow> (generated_file_output \<Rightarrow> text_stream_part) \<Rightarrow> text_stream_part" where
  "resolved_part env f C = (case resolve_file env f of Inr out \<Rightarrow> C out | Inl e \<Rightarrow> TError e)"

definition tool_call_parts :: "typed_tool_call \<Rightarrow> text_stream_part list" where
  "tool_call_parts c = TToolCall c # (case invalid_tool_call_error c of None \<Rightarrow> [] | Some e \<Rightarrow> [TToolError e])"

definition finish_parts ::
  "'m text_env \<Rightarrow> nat \<Rightarrow> finish_reason \<Rightarrow> usage \<Rightarrow> provider_metadata option \<Rightarrow> text_state \<Rightarrow>
   text_stream_part list \<times> text_state" where
  "finish_parts env arrived reason u md st =
     (let violation = tool_choice_violation (te_tool_choice env) (map (ttc_name \<circ> snd) (ts_tool_calls st))
            (unified reason) (te_provider env) (te_model_id env)
            (case ts_content st of Some sc \<Rightarrow> sc_content sc | None \<Rightarrow> []);
          reason' = (if violation \<noteq> None then reason\<lparr>unified := FinishError\<rparr> else reason);
          content' = (if violation \<noteq> None then map_option (\<lambda>sc. sc\<lparr>sc_content := []\<rparr>) (ts_content st) else ts_content st)
      in ((case violation of Some e \<Rightarrow> [TError e] | None \<Rightarrow> []),
          st\<lparr>ts_step := finish_stream_step reason' u md arrived (ts_step st), ts_content := content'\<rparr>))"

definition part_outputs :: "'m text_env \<Rightarrow> nat \<Rightarrow> stream_part \<Rightarrow> text_state \<Rightarrow> text_stream_part list \<times> text_state" where
  "part_outputs env arrived part st = (case part of
     ToolCallPart raw \<Rightarrow>
       (let parsed = parse_tool_call (te_json env) raw (te_tools env) (te_repair env) (te_messages env) (te_instructions env)
        in (tool_call_parts parsed, st\<lparr>ts_tool_calls := AList.update (ttc_id parsed) parsed (ts_tool_calls st)\<rparr>))
   | FilePart f \<Rightarrow> ([resolved_part env f TFile], st)
   | ToolApprovalRequestPart a \<Rightarrow>
       ([case map_of (ts_tool_calls st) (rtar_tool_call_id a) of
           Some call \<Rightarrow> TToolApprovalRequest \<lparr>taro_approval_id = rtar_approval_id a, taro_tool_call = call,
             taro_reason = None, taro_is_automatic = None, taro_signature = None, taro_input_schema_input = None\<rparr>
         | None \<Rightarrow> TError (ToolCallNotFoundForApproval (rtar_tool_call_id a) (rtar_approval_id a))], st)
   | ReasoningFilePart f \<Rightarrow> ([resolved_part env f TReasoningFile], st)
   | StreamStart warnings \<Rightarrow> ([], st\<lparr>ts_step := (ts_step st)\<lparr>ss_warnings := warnings\<rparr>\<rparr>)
   | ResponseMetadataPart md \<Rightarrow>
       ([], st\<lparr>ts_step := (ts_step st)\<lparr>ss_response := merge_metadata (ss_response (ts_step st)) md\<rparr>\<rparr>)
   | Finish reason u md \<Rightarrow> finish_parts env arrived reason u md st
   | PartError e \<Rightarrow> ([TError e], st\<lparr>ts_step := (ts_step st)\<lparr>ss_terminal := True, ss_finish_reason := FinishError\<rparr>\<rparr>)
   | ToolResultPart result \<Rightarrow>
       ([provider_tool_result_part result
           (map_option ttc_input (map_of (ts_tool_calls st) (tr_tool_call_id result)))], st)
   | TextDelta i delta md \<Rightarrow>
       (if delta = [] \<and> md = None then ([], st) else forward_part (TTextDelta i md delta) st)
   | _ \<Rightarrow> (case into_text_stream_part part of Some p \<Rightarrow> forward_part p st | None \<Rightarrow> ([], st)))"

definition consume_part :: "'m text_env \<Rightarrow> nat \<Rightarrow> stream_part \<Rightarrow> text_state \<Rightarrow> text_stream_part list \<times> text_state" where
  "consume_part env arrived part st = (case part of
     StreamStart _ \<Rightarrow> part_outputs env arrived part st
   | _ \<Rightarrow>
       (let (opened, st1) = open_step env arrived part st; (outs, st2) = part_outputs env arrived part st1
        in (opened @ outs, st2)))"

definition no_output_generated :: "string \<Rightarrow> aimux_error" where
  "no_output_generated message = NoOutputGenerated message None"

definition end_parts :: "'m text_env \<Rightarrow> nat \<Rightarrow> int \<Rightarrow> text_state \<Rightarrow> text_stream_part list" where
  "end_parts env now stamp st =
     (if \<not> ss_terminal (ts_step st) \<and> \<not> saw_output (ts_step st)
      then [TError (no_output_generated ''No output generated. The model stream ended without a finish chunk.'')]
      else (let (finish_step, finish) = into_parts (te_headers env) (te_step_started env) now stamp (ts_step st)
            in [finish_step, finish]))"

text \<open>
  What the consumer sees next: an item of the channel with its arrival, the end of the channel (at an
  instant and a wall clock time), or the caller's abort. A list of them that ends without the last two is
  a stream that is still open.
\<close>

datatype consumer_event = Received nat item | ChannelEnd nat int | AbortSeen

fun text_parts :: "'m text_env \<Rightarrow> consumer_event list \<Rightarrow> text_state \<Rightarrow> (aimux_error + text_stream_part) list" where
  "text_parts env [] st = []"
| "text_parts env (AbortSeen # _) st = [Inr (TAbort (Some (show_error from_abort_signal)))]"
| "text_parts env (ChannelEnd now stamp # _) st = map Inr (end_parts env now stamp st)"
| "text_parts env (Received _ (Inl e) # evs) st =
     Inl e # (if \<not> is_recoverable_stream_error e then [] else text_parts env evs st)"
| "text_parts env (Received arrived (Inr part) # evs) st =
     (let (outs, st') = consume_part env arrived part st in map Inr outs @ text_parts env evs st')"

definition text_stream ::
  "'m text_env \<Rightarrow> nat \<Rightarrow> response_metadata \<Rightarrow> consumer_event list \<Rightarrow> (aimux_error + text_stream_part) list" where
  "text_stream env now response evs = Inr TStart # text_parts env evs (new_text_state env now response)"

section \<open>Framing\<close>

fun is_lifecycle :: "text_stream_part \<Rightarrow> bool" where
  "is_lifecycle TStart = True" | "is_lifecycle (StartStep _ _) = True" | "is_lifecycle (FinishStep _ _ _ _ _ _) = True"
| "is_lifecycle (TFinish _ _ _) = True" | "is_lifecycle (TAbort _) = True" | "is_lifecycle _ = False"

fun is_stream_start :: "stream_part \<Rightarrow> bool" where
  "is_stream_start (StreamStart _) = True" | "is_stream_start _ = False"

fun ends_call :: "stream_part \<Rightarrow> bool" where
  "ends_call (Finish _ _ _) = True" | "ends_call (PartError _) = True" | "ends_call _ = False"

text \<open>
  The grammar of the stream after its \<open>start\<close> part: a step is opened at most once, content stands inside
  the step, and it is closed by its \<open>finish-step\<close> and the call's \<open>finish\<close> with the same reason and its
  usage. An abort or an error that is not recoverable ends the stream, and a stream without a step can
  end with an error part.
\<close>

fun framed :: "bool \<Rightarrow> (aimux_error + text_stream_part) list \<Rightarrow> bool" where
  "framed started [] \<longleftrightarrow> True"
| "framed started (Inl e # rest) \<longleftrightarrow> (if is_recoverable_stream_error e then framed started rest else rest = [])"
| "framed started (Inr (TAbort _) # rest) \<longleftrightarrow> rest = []"
| "framed started (Inr (StartStep _ _) # rest) \<longleftrightarrow> \<not> started \<and> framed True rest"
| "framed started (Inr (FinishStep _ u _ r raw _) # rest) \<longleftrightarrow>
     started \<and> rest = [Inr (TFinish r raw (add_language_model_usage default_language_model_usage u))]"
| "framed started (Inr p # rest) \<longleftrightarrow>
     \<not> is_lifecycle p \<and> (if started then framed started rest else rest = [] \<and> (\<exists>e. p = TError e))"

lemma framed_content: "\<not> is_lifecycle p \<Longrightarrow> framed True (Inr p # rest) \<longleftrightarrow> framed True rest"
  by (cases p) simp_all

lemma framed_contents: "list_all (\<lambda>p. \<not> is_lifecycle p) ps \<Longrightarrow> framed True (map Inr ps @ rest) \<longleftrightarrow> framed True rest"
  by (induction ps) (simp_all add: framed_content)

lemma forward_part_facts:
  assumes "forward_part p st = (outs, st')" and "\<not> is_lifecycle p"
  shows "list_all (\<lambda>p. \<not> is_lifecycle p) outs" "ts_step st' = ts_step st" "ts_tool_calls st' = ts_tool_calls st"
  using assms by (cases p; auto simp: not_found_def)+

lemma into_text_stream_part_content: "into_text_stream_part part = Some p \<Longrightarrow> \<not> is_lifecycle p"
  by (cases part) auto

lemma tool_call_parts_content: "list_all (\<lambda>p. \<not> is_lifecycle p) (tool_call_parts c)"
  by (simp add: tool_call_parts_def split: option.splits)

lemma resolved_part_content: "(\<And>out. \<not> is_lifecycle (C out)) \<Longrightarrow> \<not> is_lifecycle (resolved_part env f C)"
  by (simp add: resolved_part_def split: sum.splits)

lemma part_outputs_content: "list_all (\<lambda>p. \<not> is_lifecycle p) (fst (part_outputs env arrived part st))"
  by (cases part)
    (auto simp: part_outputs_def Let_def tool_call_parts_content resolved_part_content finish_parts_def
      provider_tool_result_part_def not_found_def split: option.splits)

lemma part_outputs_step:
  "ss_started (ts_step (snd (part_outputs env arrived part st))) = ss_started (ts_step st)"
  "saw_output (ts_step (snd (part_outputs env arrived part st))) = saw_output (ts_step st)"
  "ss_terminal (ts_step (snd (part_outputs env arrived part st))) \<longleftrightarrow> ss_terminal (ts_step st) \<or> ends_call part"
  by (cases part; auto simp: part_outputs_def Let_def finish_parts_def finish_stream_step_def)+

lemma record_chunk_step:
  "ss_started (record_chunk part arrived s) = ss_started s" "ss_terminal (record_chunk part arrived s) = ss_terminal s"
  "saw_output (record_chunk part arrived s) \<longleftrightarrow> saw_output s \<or> is_output_chunk part"
  "ss_finish_reason (record_chunk part arrived s) = ss_finish_reason s"
  by (auto simp: record_chunk_def Let_def split: option.splits)

lemma consume_part_opened:
  "\<not> is_stream_start part \<Longrightarrow> consume_part env arrived part st =
     (fst (open_step env arrived part st) @ fst (part_outputs env arrived part (snd (open_step env arrived part st))),
      snd (part_outputs env arrived part (snd (open_step env arrived part st))))"
  by (cases part) (simp_all add: consume_part_def case_prod_beta Let_def)

lemma consume_part_start: "is_stream_start part \<Longrightarrow> consume_part env arrived part st = part_outputs env arrived part st"
  by (cases part) (simp_all add: consume_part_def)

lemma consume_part_step:
  fixes env :: "'m text_env"
  defines "after \<equiv> \<lambda>(env :: 'm text_env) arrived part st. ts_step (snd (consume_part env arrived part st))"
  shows "ss_started (after env arrived part st) \<longleftrightarrow> ss_started (ts_step st) \<or> \<not> is_stream_start part"
    and "saw_output (after env arrived part st) \<longleftrightarrow> saw_output (ts_step st) \<or> is_output_chunk part"
    and "ss_terminal (after env arrived part st) \<longleftrightarrow> ss_terminal (ts_step st) \<or> ends_call part"
proof -
  have *: "is_stream_start part \<Longrightarrow> \<not> is_output_chunk part" by (cases part) (simp_all add: is_output_chunk_def)
  show "ss_started (after env arrived part st) \<longleftrightarrow> ss_started (ts_step st) \<or> \<not> is_stream_start part"
    and "saw_output (after env arrived part st) \<longleftrightarrow> saw_output (ts_step st) \<or> is_output_chunk part"
    and "ss_terminal (after env arrived part st) \<longleftrightarrow> ss_terminal (ts_step st) \<or> ends_call part"
    using * by (cases "is_stream_start part"; simp add: after_def consume_part_start consume_part_opened
        part_outputs_step open_step_def record_chunk_step)+
qed

text \<open>A step that has output or is finished was opened.\<close>

definition opened_first :: "text_state \<Rightarrow> bool" where
  "opened_first st \<longleftrightarrow> (ss_terminal (ts_step st) \<or> saw_output (ts_step st) \<longrightarrow> ss_started (ts_step st))"

lemma opened_first_new: "opened_first (new_text_state env now response)"
  by (simp add: opened_first_def new_text_state_def new_stream_step_def)

lemma stream_start_neutral: "is_stream_start part \<Longrightarrow> \<not> is_output_chunk part \<and> \<not> ends_call part"
  by (cases part) (simp_all add: is_output_chunk_def)

lemma opened_first_part: "opened_first st \<Longrightarrow> opened_first (snd (consume_part env arrived part st))"
  using stream_start_neutral [of part] by (auto simp: opened_first_def consume_part_step)

lemma end_parts_framed: "opened_first st \<Longrightarrow> framed (ss_started (ts_step st)) (map Inr (end_parts env now stamp st))"
  by (auto simp: end_parts_def into_parts_def Let_def opened_first_def)

lemma consume_part_framed:
  assumes "framed (ss_started (ts_step (snd (consume_part env arrived part st)))) rest"
  shows "framed (ss_started (ts_step st)) (map Inr (fst (consume_part env arrived part st)) @ rest)"
proof (cases "is_stream_start part")
  case True
  then have "fst (consume_part env arrived part st) = []" by (cases part) (simp_all add: consume_part_def part_outputs_def)
  then show ?thesis using assms True by (simp add: consume_part_step)
next
  case False
  then show ?thesis
    using assms
    by (simp add: consume_part_opened open_step_def part_outputs_step record_chunk_step framed_contents part_outputs_content)
qed

lemma text_parts_framed: "opened_first st \<Longrightarrow> framed (ss_started (ts_step st)) (text_parts env evs st)"
proof (induction env evs st rule: text_parts.induct)
  case (5 env arrived part evs st)
  then show ?case
    using consume_part_framed [of env arrived part st "text_parts env evs (snd (consume_part env arrived part st))"]
      opened_first_part [of st env arrived part]
    by (cases "consume_part env arrived part st") simp
qed (simp_all add: end_parts_framed)

text \<open>
  C7. The public stream is well framed. Whatever the provider sends and whenever the caller aborts, the
  stream starts with one \<open>start\<close> part, opens its step at most once and before any content, closes it at
  most once with \<open>finish-step\<close> directly followed by \<open>finish\<close> (same reason, same usage), and sends nothing
  after a \<open>finish\<close>, an abort or an error that is not recoverable.
\<close>

theorem text_stream_framed:
  "\<exists>parts. text_stream env now response evs = Inr TStart # parts \<and> framed False parts"
  using text_parts_framed [OF opened_first_new, of env now response env evs]
  by (simp add: text_stream_def new_text_state_def new_stream_step_def)

section \<open>The end of the stream\<close>

definition provider_events :: "(nat \<times> item) list \<Rightarrow> consumer_event list" where
  "provider_events items = map (\<lambda>(arrived, i). Received arrived i) items"

lemma provider_events_simps [simp]:
  "provider_events [] = []" "provider_events ((arrived, i) # items) = Received arrived i # provider_events items"
  by (simp_all add: provider_events_def)

fun survivable :: "item \<Rightarrow> bool" where
  "survivable (Inl e) = is_recoverable_stream_error e" | "survivable (Inr _) = True"

fun concludes :: "item \<Rightarrow> bool" where
  "concludes (Inr part) \<longleftrightarrow> ends_call part \<or> is_output_chunk part" | "concludes (Inl _) \<longleftrightarrow> False"

definition finishes :: "(aimux_error + text_stream_part) list \<Rightarrow> bool" where
  "finishes outs \<longleftrightarrow> (\<exists>pre md u perf r raw pm. outs = pre @ [Inr (FinishStep md u perf r raw pm),
     Inr (TFinish r raw (add_language_model_usage default_language_model_usage u))])"

definition fails_empty :: "(aimux_error + text_stream_part) list \<Rightarrow> bool" where
  "fails_empty outs \<longleftrightarrow> (\<exists>pre. outs = pre @ [Inr (TError (NoOutputGenerated
     ''No output generated. The model stream ended without a finish chunk.'' None))])"

lemma finishes_append: "finishes outs \<Longrightarrow> finishes (pre @ outs)"
  unfolding finishes_def by (metis append.assoc)

lemma fails_empty_append: "fails_empty outs \<Longrightarrow> fails_empty (pre @ outs)"
  unfolding fails_empty_def by (metis append.assoc)

lemma end_parts_cases:
  "if ss_terminal (ts_step st) \<or> saw_output (ts_step st) then finishes (map Inr (end_parts env now stamp st))
   else fails_empty (map Inr (end_parts env now stamp st))"
  by (auto simp: finishes_def fails_empty_def end_parts_def into_parts_def no_output_generated_def)

lemma text_parts_end:
  assumes "list_all (survivable \<circ> snd) items"
  shows "if ss_terminal (ts_step st) \<or> saw_output (ts_step st) \<or> list_ex (concludes \<circ> snd) items
    then finishes (text_parts env (provider_events items @ [ChannelEnd now stamp]) st)
    else fails_empty (text_parts env (provider_events items @ [ChannelEnd now stamp]) st)"
  using assms
proof (induction items arbitrary: st)
  case Nil
  then show ?case using end_parts_cases [of st env now stamp] by simp
next
  case (Cons x items)
  obtain arrived i where x: "x = (arrived, i)" by fastforce
  show ?case
  proof (cases i)
    case (Inl e)
    then show ?thesis
      using Cons finishes_append [of _ "[Inl e]"] fails_empty_append [of _ "[Inl e]"] by (simp add: x split: if_splits)
  next
    case (Inr part)
    obtain outs st' where *: "consume_part env arrived part st = (outs, st')" by fastforce
    have "ss_terminal (ts_step st') \<or> saw_output (ts_step st') \<longleftrightarrow>
        ss_terminal (ts_step st) \<or> saw_output (ts_step st) \<or> ends_call part \<or> is_output_chunk part"
      using consume_part_step(2,3) [of env arrived part st] * by auto
    then show ?thesis
      using Cons.IH [of st'] Cons.prems finishes_append fails_empty_append
      by (auto simp: x Inr * split: if_splits)
  qed
qed

text \<open>
  C11. A stream that is not cut short always ends properly. If the provider's items hold no error that is
  not recoverable and the caller does not abort, then reading to the end gives a finished step and call
  exactly when a finish part, an error part or some output arrived; otherwise the last part is the error
  that the model stream ended without a finish chunk.
\<close>

theorem text_stream_ends:
  assumes "list_all (survivable \<circ> snd) items"
  shows "let outs = text_stream env now response (provider_events items @ [ChannelEnd t stamp])
         in if list_ex (concludes \<circ> snd) items then finishes outs else fails_empty outs"
  using text_parts_end [OF assms, of "new_text_state env now response" env t stamp]
    finishes_append [of _ "[Inr TStart]"] fails_empty_append [of _ "[Inr TStart]"]
  by (simp add: text_stream_def new_text_state_def new_stream_step_def split: if_splits)

section \<open>Tool choice enforcement\<close>

definition call_names :: "(aimux_error + text_stream_part) list \<Rightarrow> string list" where
  "call_names outs = List.map_filter (\<lambda>p. case p of Inr (TToolCall c) \<Rightarrow> Some (ttc_name c) | _ \<Rightarrow> None) outs"

lemma call_names_append [simp]: "call_names (xs @ ys) = call_names xs @ call_names ys"
  by (simp add: call_names_def map_filter_def)

lemma call_names_simps [simp]:
  "call_names [] = []" "call_names (Inl e # outs) = call_names outs"
  "call_names (Inr (TToolCall c) # outs) = ttc_name c # call_names outs"
  by (simp_all add: call_names_def map_filter_simps)

lemma choice_satisfied_mono: "choice_satisfied c names \<Longrightarrow> set names \<subseteq> set names' \<Longrightarrow> choice_satisfied c names'"
  by (cases c) auto

fun is_finish_part :: "item \<Rightarrow> bool" where
  "is_finish_part (Inr (Finish _ _ _)) = True" | "is_finish_part _ = False"

text \<open>
  The names of the calls so far are among the emitted ones, and an accepted finish part found them to
  satisfy the choice.
\<close>

definition enforced :: "language_model_v4_tool_choice \<Rightarrow> bool \<Rightarrow> string list \<Rightarrow> text_state \<Rightarrow> bool" where
  "enforced c finished names st \<longleftrightarrow> set (map (ttc_name \<circ> snd) (ts_tool_calls st)) \<subseteq> set names \<and>
     (finished \<and> ss_finish_reason (ts_step st) \<noteq> FinishError \<longrightarrow> choice_satisfied c names)"

lemma update_names: "set (map (f \<circ> snd) (AList.update k v kvs)) \<subseteq> insert (f v) (set (map (f \<circ> snd) kvs))"
  by (induction kvs) auto

lemma part_outputs_calls:
  "set (map (ttc_name \<circ> snd) (ts_tool_calls (snd (part_outputs env arrived part st))))
     \<subseteq> set (map (ttc_name \<circ> snd) (ts_tool_calls st)) \<union> set (call_names (map Inr (fst (part_outputs env arrived part st))))"
proof (cases part)
  case (ToolCallPart raw)
  define p where "p = parse_tool_call (te_json env) raw (te_tools env) (te_repair env) (te_messages env) (te_instructions env)"
  have "ts_tool_calls (snd (part_outputs env arrived part st)) = AList.update (ttc_id p) p (ts_tool_calls st)"
    and "ttc_name p \<in> set (call_names (map Inr (fst (part_outputs env arrived part st))))"
    by (simp_all add: ToolCallPart part_outputs_def p_def Let_def tool_call_parts_def)
  then show ?thesis using update_names [of ttc_name "ttc_id p" p "ts_tool_calls st"] by auto
qed (auto simp: part_outputs_def finish_parts_def Let_def split: option.splits)

lemma finish_parts_enforced:
  assumes "te_tool_choice env = Some c"
    and "set (map (ttc_name \<circ> snd) (ts_tool_calls st)) \<subseteq> set names"
    and "ss_finish_reason (ts_step (snd (finish_parts env arrived reason u md st))) \<noteq> FinishError"
  shows "choice_satisfied c names"
proof -
  have "choice_satisfied c (map (ttc_name \<circ> snd) (ts_tool_calls st))"
    using assms(1,3) by (auto simp: finish_parts_def Let_def tool_choice_violation_def finish_stream_step_def split: if_splits)
  then show ?thesis by (rule choice_satisfied_mono) (rule assms(2))
qed

lemma part_outputs_reason:
  "\<not> is_finish_part (Inr part) \<Longrightarrow> ss_finish_reason (ts_step (snd (part_outputs env arrived part st))) \<noteq> FinishError
     \<Longrightarrow> ss_finish_reason (ts_step (snd (part_outputs env arrived part st))) = ss_finish_reason (ts_step st)"
  by (cases part) (auto simp: part_outputs_def Let_def)

lemma part_outputs_enforced:
  assumes "te_tool_choice env = Some c" and "enforced c finished names st"
  shows "enforced c (finished \<or> is_finish_part (Inr part)) (names @ call_names (map Inr (fst (part_outputs env arrived part st))))
    (snd (part_outputs env arrived part st))"
proof (cases "is_finish_part (Inr part)")
  case True
  then obtain reason u md where part: "part = Finish reason u md" by (cases part) auto
  have "call_names (map Inr (fst (part_outputs env arrived part st))) = []"
    by (simp add: part part_outputs_def finish_parts_def Let_def call_names_def map_filter_simps split: option.splits)
  moreover have "ts_tool_calls (snd (part_outputs env arrived part st)) = ts_tool_calls st"
    by (simp add: part part_outputs_def finish_parts_def Let_def)
  ultimately show ?thesis
    using assms finish_parts_enforced [OF assms(1), of st names arrived reason u md] by (auto simp: enforced_def part part_outputs_def)
next
  case False
  let ?o = "part_outputs env arrived part st"
  have "set (map (ttc_name \<circ> snd) (ts_tool_calls (snd ?o))) \<subseteq> set (names @ call_names (map Inr (fst ?o)))"
    using part_outputs_calls [of env arrived part st] assms(2) unfolding enforced_def set_append by blast
  moreover have "choice_satisfied c (names @ call_names (map Inr (fst ?o)))"
    if "finished" "ss_finish_reason (ts_step (snd ?o)) \<noteq> FinishError"
  proof (rule choice_satisfied_mono)
    show "choice_satisfied c names"
      using assms(2) that part_outputs_reason [OF False that(2)] by (simp add: enforced_def)
  qed simp
  ultimately show ?thesis using False by (simp only: enforced_def) blast
qed

lemma consume_part_enforced:
  assumes "te_tool_choice env = Some c" and "enforced c finished names st"
  shows "enforced c (finished \<or> is_finish_part (Inr part)) (names @ call_names (map Inr (fst (consume_part env arrived part st))))
    (snd (consume_part env arrived part st))"
proof (cases "is_stream_start part")
  case True
  then show ?thesis using part_outputs_enforced [OF assms] by (simp add: consume_part_start)
next
  case False
  have "enforced c finished names (snd (open_step env arrived part st))"
    using assms(2) by (simp add: enforced_def open_step_def record_chunk_step)
  moreover have "call_names (map Inr (fst (open_step env arrived part st))) = []"
    by (simp add: open_step_def call_names_def map_filter_simps)
  ultimately show ?thesis
    using part_outputs_enforced [OF assms(1)] False by (simp add: consume_part_opened)
qed

lemma end_parts_enforced:
  assumes "enforced c True names st" and "Inr (TFinish r raw u) \<in> set (map Inr (end_parts env now stamp st))"
    and "r \<noteq> FinishError"
  shows "choice_satisfied c names"
  using assms by (auto simp: end_parts_def into_parts_def enforced_def split: if_splits)

lemma content_no_finish: "list_all (\<lambda>p. \<not> is_lifecycle p) ps \<Longrightarrow> TFinish r raw u \<notin> set ps"
  by (auto simp: list_all_iff)

lemma consume_part_no_finish: "TFinish r raw u \<notin> set (fst (consume_part env arrived part st))"
  using content_no_finish [OF part_outputs_content, of r raw u env arrived part]
  by (cases "is_stream_start part") (auto simp: consume_part_start consume_part_opened open_step_def)

lemma text_parts_enforced:
  assumes "te_tool_choice env = Some c" and "enforced c finished names st"
    and "finished \<or> list_ex (is_finish_part \<circ> snd) items"
    and "Inr (TFinish r raw u) \<in> set (text_parts env (provider_events items @ [ChannelEnd now stamp]) st)"
    and "r \<noteq> FinishError"
  shows "choice_satisfied c (names @ call_names (text_parts env (provider_events items @ [ChannelEnd now stamp]) st))"
  using assms(2-4)
proof (induction items arbitrary: finished names st)
  case Nil
  then have "choice_satisfied c names"
    using end_parts_enforced [of c names st r raw u env now stamp] assms(5) by simp
  then show ?case by (rule choice_satisfied_mono) simp
next
  case (Cons x items)
  obtain arrived i where x: "x = (arrived, i)" by fastforce
  show ?case
  proof (cases i)
    case (Inl e)
    then show ?thesis using Cons by (auto simp: x split: if_splits)
  next
    case (Inr part)
    obtain outs st' where *: "consume_part env arrived part st = (outs, st')" by fastforce
    have "enforced c (finished \<or> is_finish_part i) (names @ call_names (map Inr outs)) st'"
      using consume_part_enforced [OF assms(1) Cons.prems(1), of part arrived] * Inr by simp
    moreover have "Inr (TFinish r raw u) \<notin> set (map Inr outs)"
      using consume_part_no_finish [of r raw u env arrived part st] * by auto
    ultimately show ?thesis
      using Cons.IH [of "finished \<or> is_finish_part i" "names @ call_names (map Inr outs)" st'] Cons.prems(2,3)
      by (auto simp: x Inr *)
  qed
qed

text \<open>
  A required tool call is enforced. If the tool choice asks for some tool call, or for a call of one
  tool, and the model finished its answer, then the call ends with a reason other than \<open>error\<close> only if
  such a tool call was emitted before.
\<close>

lemma tool_choice_enforced:
  assumes "te_tool_choice env = Some c" and "list_ex (is_finish_part \<circ> snd) items"
    and "Inr (TFinish r raw u) \<in> set (text_stream env now response (provider_events items @ [ChannelEnd t stamp]))"
    and "r \<noteq> FinishError"
  shows "choice_satisfied c (call_names (text_stream env now response (provider_events items @ [ChannelEnd t stamp])))"
proof -
  let ?parts = "text_parts env (provider_events items @ [ChannelEnd t stamp]) (new_text_state env now response)"
  have "enforced c False [] (new_text_state env now response)" by (simp add: enforced_def new_text_state_def)
  moreover have "Inr (TFinish r raw u) \<in> set ?parts" using assms(3) by (simp add: text_stream_def)
  ultimately have "choice_satisfied c ([] @ call_names ?parts)"
    using text_parts_enforced [OF assms(1)] assms(2,4) by blast
  moreover have "call_names (Inr TStart # ?parts) = call_names ?parts" by (simp add: call_names_def map_filter_simps)
  ultimately show ?thesis by (simp only: text_stream_def) simp
qed

section \<open>Witnesses\<close>

definition demo_text_env :: "unit text_env" where
  "demo_text_env = \<lparr>te_json = demo_env, te_tools = None, te_repair = None, te_messages = [], te_instructions = None,
     te_tool_choice = Some V4Required, te_provider = ''openai.chat'', te_model_id = ''m'', te_request = \<lparr>ri_body = None\<rparr>,
     te_headers = None, te_step_started = 0, te_resolve = (\<lambda>_. Inr (Binary []))\<rparr>"

definition demo_finish_part :: stream_part where
  "demo_finish_part = Finish \<lparr>unified = ToolCalls, fr_raw = None\<rparr>
     \<lparr>u_input_tokens = \<lparr>itu_total = Some 3, itu_no_cache = None, itu_cache_read = None, itu_cache_write = None\<rparr>,
      u_output_tokens = \<lparr>otu_total = Some 4, otu_text = None, otu_reasoning = None\<rparr>, u_raw = None\<rparr> None"

definition demo_items :: "(nat \<times> item) list" where
  "demo_items = [(1, Inr (StreamStart [])), (2, Inr (ToolCallPart demo_raw_call)), (3, Inr demo_finish_part)]"

definition demo_metadata :: response_metadata where
  "demo_metadata = \<lparr>rm_id = Some ''r'', rm_timestamp = Some 0, rm_model_id = Some ''m''\<rparr>"

lemma demo_stream_finish:
  "\<exists>u. Inr (TFinish ToolCalls None u) \<in> set (text_stream demo_text_env 0 demo_metadata (provider_events demo_items @ [ChannelEnd 4 0]))"
  by (simp add: demo_items_def demo_finish_part_def text_stream_def consume_part_def part_outputs_def open_step_def
      Let_def tool_call_parts_def finish_parts_def tool_choice_violation_def demo_text_env_def new_text_state_def
      new_stream_step_def end_parts_def into_parts_def finish_stream_step_def split: option.splits) blast

lemma tool_choice_enforced_witness:
  "choice_satisfied V4Required (call_names (text_stream demo_text_env 0 demo_metadata (provider_events demo_items @ [ChannelEnd 4 0])))"
proof -
  obtain u where "Inr (TFinish ToolCalls None u) \<in> set (text_stream demo_text_env 0 demo_metadata (provider_events demo_items @ [ChannelEnd 4 0]))"
    using demo_stream_finish by blast
  moreover have "list_ex (is_finish_part \<circ> snd) demo_items" by (simp add: demo_items_def demo_finish_part_def)
  ultimately show ?thesis using tool_choice_enforced [of demo_text_env V4Required demo_items] by (simp add: demo_text_env_def)
qed

theorem text_stream_ends_witness:
  "finishes (text_stream demo_text_env 0 demo_metadata (provider_events demo_items @ [ChannelEnd 4 0]))
   \<and> fails_empty (text_stream demo_text_env 0 demo_metadata (provider_events [(1, Inr (TextStart ''t'' None))] @ [ChannelEnd 4 0]))"
  using text_stream_ends [of demo_items demo_text_env 0 demo_metadata 4 0]
    text_stream_ends [of "[(1, Inr (TextStart ''t'' None))]" demo_text_env 0 demo_metadata 4 0]
  by (simp add: demo_items_def demo_finish_part_def is_output_chunk_def)

end
