(* ===== verification/Output_Spec.thy ===== *)
theory Output_Spec
  imports Tool_Parsing
begin

text \<open>
  Structured output of a text generation (\<open>src/aimux-core/src/output.rs\<close>): the response format an output
  asks the model for, and the parsing of the final text into the output value. The JSON parser, the JSON
  Schema validator and JSON's text form are the fields of \<open>json_env\<close>.
\<close>

section \<open>Output specifications\<close>

datatype output_spec =
  OutputText
| OutputObject json "string option" "string option"
| OutputArray json "u32 option" "u32 option" "string option" "string option"
| OutputChoice "string list" "string option" "string option"
| OutputJson "string option" "string option"

datatype response_format = FormatText | FormatJson "json option" "string option" "string option"

definition JSON_SCHEMA_DRAFT_07 :: string where "JSON_SCHEMA_DRAFT_07 = ''http://json-schema.org/draft-07/schema#''"
definition COULD_NOT_PARSE :: string where "COULD_NOT_PARSE = ''No object generated: could not parse the response.''"
definition DID_NOT_MATCH :: string where "DID_NOT_MATCH = ''No object generated: response did not match schema.''"

fun validate_output :: "output_spec \<Rightarrow> aimux_error + unit" where
  "validate_output (OutputArray _ (Some min_items) (Some max_items) _ _) =
     (if min_items > max_items then Inl (invalid_argument ''minItems must be less than or equal to maxItems'')
      else Inr ())"
| "validate_output _ = Inr ()"

text \<open>
  An ordered object's \<open>remove\<close> puts the last entry where the removed one was.
\<close>

definition map_remove :: "string \<Rightarrow> json_object \<Rightarrow> json option \<times> json_object" where
  "map_remove k kvs = (case map_of kvs k of
     None \<Rightarrow> (None, kvs)
   | Some v \<Rightarrow>
       (let front = takeWhile (\<lambda>p. fst p \<noteq> k) kvs; back = tl (dropWhile (\<lambda>p. fst p \<noteq> k) kvs)
        in (Some v, front @ (if back = [] then [] else last back # butlast back))))"

definition array_schema :: "json \<Rightarrow> u32 option \<Rightarrow> u32 option \<Rightarrow> json" where
  "array_schema element min_items max_items =
     (let item0 = (case element of JObject kvs \<Rightarrow> kvs | _ \<Rightarrow> []);
          item1 = snd (map_remove ''$schema'' item0);
          (definitions, item2) = map_remove ''definitions'' item1;
          (defs, item3) = map_remove ''$defs'' item2;
          optional = (\<lambda>k v. case v of None \<Rightarrow> [] | Some x \<Rightarrow> [(k, x)]);
          count = (\<lambda>n :: u32. JNumber (PosInt (ucast n)));
          elements = [(''type'', JString ''array''), (''items'', JObject item3)]
            @ optional ''minItems'' (map_option count min_items)
            @ optional ''maxItems'' (map_option count max_items)
      in JObject ([(''$schema'', JString JSON_SCHEMA_DRAFT_07)]
           @ optional ''definitions'' definitions
           @ optional ''$defs'' defs
           @ [(''type'', JString ''object''),
              (''properties'', JObject [(''elements'', JObject elements)]),
              (''required'', JArray [JString ''elements'']),
              (''additionalProperties'', JBool False)]))"

definition choice_schema :: "string list \<Rightarrow> json" where
  "choice_schema options = JObject
     [(''$schema'', JString JSON_SCHEMA_DRAFT_07),
      (''type'', JString ''object''),
      (''properties'', JObject [(''result'', JObject [(''type'', JString ''string''),
                                                 (''enum'', JArray (map JString options))])]),
      (''required'', JArray [JString ''result'']),
      (''additionalProperties'', JBool False)]"

fun output_response_format :: "output_spec \<Rightarrow> response_format" where
  "output_response_format OutputText = FormatText"
| "output_response_format (OutputObject schema name desc) = FormatJson (Some schema) name desc"
| "output_response_format (OutputArray element min_items max_items name desc) =
     FormatJson (Some (array_schema element min_items max_items)) name desc"
| "output_response_format (OutputChoice options name desc) = FormatJson (Some (choice_schema options)) name desc"
| "output_response_format (OutputJson name desc) = FormatJson None name desc"

section \<open>Parsing\<close>

fun parse_error_message :: "aimux_error \<Rightarrow> string" where
  "parse_error_message (JsonParse message _) = message" | "parse_error_message _ = []"

definition no_object :: "aimux_error \<Rightarrow> aimux_error" where
  "no_object e = JsonParse (COULD_NOT_PARSE @ '' '' @ parse_error_message e) (Some (CauseAiMux e))"

definition parse_json :: "json_env \<Rightarrow> string \<Rightarrow> aimux_error + json" where
  "parse_json env text = (case from_str env text of
     Inl err \<Rightarrow> Inl (no_object (json_parse_error text (se_message err) (Some err)))
   | Inr v \<Rightarrow>
       (if contains_forbidden_prototype v
        then Inl (no_object (json_parse_error text ''Object contains forbidden prototype property'' None))
        else Inr v))"

definition validate_value :: "json_env \<Rightarrow> json \<Rightarrow> json \<Rightarrow> error_cause + unit" where
  "validate_value env v schema = (case schema_check env schema v of
     SchemaInvalid m \<Rightarrow>
       Inl (CauseSource (SourceError (type_validation_message env v (''schema is invalid: '' @ m))
              (Some (SourceError m None))))
   | ValueInvalid m \<Rightarrow> Inl (CauseAiMux (type_validation_error env v m (Some (SourceError m None))))
   | ValueValid \<Rightarrow> Inr ())"

fun show_cause :: "error_cause \<Rightarrow> string" where
  "show_cause (CauseAiMux e) = show_error e" | "show_cause (CauseSource e) = se_message e"

definition schema_mismatch :: "error_cause \<Rightarrow> aimux_error" where
  "schema_mismatch c = InvalidResponseData (DID_NOT_MATCH @ '' '' @ show_cause c) (Some c)"

definition json_field :: "json \<Rightarrow> string \<Rightarrow> json option" where
  "json_field v k = (case v of JObject kvs \<Rightarrow> map_of kvs k | _ \<Rightarrow> None)"

fun validate_elements :: "json_env \<Rightarrow> json \<Rightarrow> json list \<Rightarrow> aimux_error + unit" where
  "validate_elements env element [] = Inr ()"
| "validate_elements env element (item # items) = (case validate_value env item element of
     Inl c \<Rightarrow> Inl (schema_mismatch c) | Inr _ \<Rightarrow> validate_elements env element items)"

definition parse_array :: "json_env \<Rightarrow> json \<Rightarrow> u32 option \<Rightarrow> u32 option \<Rightarrow> json \<Rightarrow> aimux_error + json" where
  "parse_array env element min_items max_items v =
     (let mismatch = (\<lambda>w m. Inl (schema_mismatch (CauseAiMux (type_validation_error env w m None)))) in
      case json_field v ''elements'' of
        Some (JArray elements) \<Rightarrow>
          (if (case min_items of Some n \<Rightarrow> length elements < unat n | None \<Rightarrow> False)
           then mismatch (JArray elements)
             (''elements array must contain at least '' @ show_nat (unat (the min_items)) @ '' items'')
           else if (case max_items of Some n \<Rightarrow> length elements > unat n | None \<Rightarrow> False)
           then mismatch (JArray elements)
             (''elements array must contain at most '' @ show_nat (unat (the max_items)) @ '' items'')
           else (case validate_elements env element elements of Inl e \<Rightarrow> Inl e | Inr _ \<Rightarrow> Inr (JArray elements)))
      | _ \<Rightarrow> mismatch v ''response must be an object with an elements array'')"

definition parse_choice :: "json_env \<Rightarrow> string list \<Rightarrow> json \<Rightarrow> aimux_error + json" where
  "parse_choice env options v =
     (let mismatch = Inl (schema_mismatch (CauseAiMux (type_validation_error env v
                       ''response must be an object that contains a choice value.'' None))) in
      case json_field v ''result'' of
        Some (JString result) \<Rightarrow> (if result \<in> set options then Inr (JString result) else mismatch)
      | _ \<Rightarrow> mismatch)"

definition parse_complete_output :: "json_env \<Rightarrow> output_spec \<Rightarrow> string \<Rightarrow> aimux_error + json" where
  "parse_complete_output env spec text = (case spec of
     OutputText \<Rightarrow> Inr (JString text)
   | OutputJson _ _ \<Rightarrow> parse_json env text
   | OutputObject schema _ _ \<Rightarrow>
       (case parse_json env text of
          Inl e \<Rightarrow> Inl e
        | Inr v \<Rightarrow> (case validate_value env v schema of Inl c \<Rightarrow> Inl (schema_mismatch c) | Inr _ \<Rightarrow> Inr v))
   | OutputArray element min_items max_items _ _ \<Rightarrow>
       (case parse_json env text of Inl e \<Rightarrow> Inl e | Inr v \<Rightarrow> parse_array env element min_items max_items v)
   | OutputChoice options _ _ \<Rightarrow>
       (case parse_json env text of Inl e \<Rightarrow> Inl e | Inr v \<Rightarrow> parse_choice env options v))"

section \<open>What is accepted\<close>

definition clean_json :: "json_env \<Rightarrow> string \<Rightarrow> json \<Rightarrow> bool" where
  "clean_json env text v \<longleftrightarrow> from_str env text = Inr v \<and> \<not> contains_forbidden_prototype v"

definition within :: "u32 option \<Rightarrow> u32 option \<Rightarrow> nat \<Rightarrow> bool" where
  "within min_items max_items n \<longleftrightarrow>
     (\<forall>m. min_items = Some m \<longrightarrow> unat m \<le> n) \<and> (\<forall>m. max_items = Some m \<longrightarrow> n \<le> unat m)"

text \<open>The reference: when a text is a value of the requested kind.\<close>

fun conforms :: "json_env \<Rightarrow> output_spec \<Rightarrow> string \<Rightarrow> json \<Rightarrow> bool" where
  "conforms env OutputText text v \<longleftrightarrow> v = JString text"
| "conforms env (OutputJson _ _) text v \<longleftrightarrow> clean_json env text v"
| "conforms env (OutputObject schema _ _) text v \<longleftrightarrow> clean_json env text v \<and> schema_check env schema v = ValueValid"
| "conforms env (OutputArray element min_items max_items _ _) text v \<longleftrightarrow>
     (\<exists>w elements. clean_json env text w \<and> json_field w ''elements'' = Some (JArray elements) \<and> v = JArray elements
        \<and> within min_items max_items (length elements)
        \<and> list_all (\<lambda>e. schema_check env element e = ValueValid) elements)"
| "conforms env (OutputChoice options _ _) text v \<longleftrightarrow>
     (\<exists>w result. clean_json env text w \<and> json_field w ''result'' = Some (JString result) \<and> v = JString result
        \<and> result \<in> set options)"

text \<open>An error tells whether the text was no JSON or its value not the one asked for.\<close>

definition no_object_error :: "json_env \<Rightarrow> string \<Rightarrow> aimux_error \<Rightarrow> bool" where
  "no_object_error env text e \<longleftrightarrow>
     (if \<exists>v. clean_json env text v
      then \<exists>m c. e = InvalidResponseData (DID_NOT_MATCH @ m) (Some c)
      else \<exists>m c. e = JsonParse (COULD_NOT_PARSE @ m) (Some c))"

lemma parse_json_Inr: "parse_json env text = Inr v \<longleftrightarrow> clean_json env text v"
  by (auto simp: parse_json_def clean_json_def split: sum.splits)

lemma parse_json_Inl: "parse_json env text = Inl e \<Longrightarrow> no_object_error env text e"
  by (auto simp: parse_json_def no_object_def clean_json_def no_object_error_def split: sum.splits if_splits)

lemma validate_value_Inr: "validate_value env v schema = Inr u \<longleftrightarrow> schema_check env schema v = ValueValid"
  by (simp add: validate_value_def split: schema_result.splits)

lemma schema_mismatch_error: "clean_json env text w \<Longrightarrow> no_object_error env text (schema_mismatch c)"
  unfolding no_object_error_def schema_mismatch_def by auto

lemma validate_elements_Inr:
  "validate_elements env element items = Inr u \<longleftrightarrow> list_all (\<lambda>e. schema_check env element e = ValueValid) items"
proof (induction items)
  case (Cons a items)
  then show ?case using validate_value_Inr [of env a element "()"] by (cases "validate_value env a element") auto
qed simp

lemma validate_elements_Inl:
  "validate_elements env element items = Inl e \<Longrightarrow> \<exists>c. e = schema_mismatch c"
  by (induction items) (auto split: sum.splits)

lemma parse_array_Inr:
  "parse_array env element min_items max_items w = Inr v \<longleftrightarrow>
     (\<exists>elements. json_field w ''elements'' = Some (JArray elements) \<and> v = JArray elements
        \<and> within min_items max_items (length elements)
        \<and> list_all (\<lambda>e. schema_check env element e = ValueValid) elements)"
proof (cases "\<exists>elements. json_field w ''elements'' = Some (JArray elements)")
  case True
  then obtain elements where "json_field w ''elements'' = Some (JArray elements)" by blast
  then show ?thesis
    using validate_elements_Inr [of env element elements "()"]
    by (cases "validate_elements env element elements")
      (auto simp: parse_array_def Let_def within_def not_less split: option.splits)
next
  case False
  then show ?thesis by (auto simp: parse_array_def Let_def split: option.splits json.splits)
qed

lemma parse_array_Inl: "parse_array env element min_items max_items w = Inl e \<Longrightarrow> \<exists>c. e = schema_mismatch c"
  by (auto simp: parse_array_def Let_def split: option.splits json.splits if_splits sum.splits dest: validate_elements_Inl)

lemma parse_choice_Inr:
  "parse_choice env options w = Inr v \<longleftrightarrow>
     (\<exists>result. json_field w ''result'' = Some (JString result) \<and> v = JString result \<and> result \<in> set options)"
  by (auto simp: parse_choice_def Let_def split: option.splits json.splits)

lemma parse_choice_Inl: "parse_choice env options w = Inl e \<Longrightarrow> \<exists>c. e = schema_mismatch c"
  by (auto simp: parse_choice_def Let_def split: option.splits json.splits if_splits)

lemma clean_json_unique: "clean_json env text v \<Longrightarrow> clean_json env text w \<Longrightarrow> v = w"
  by (simp add: clean_json_def)

text \<open>
  C25. Exactly the conforming texts are accepted. Parsing the final text succeeds with a value if and only
  if the text is what the output specification asks for: its own text, JSON without prototype keys, an
  object that matches the schema, an array of matching elements within its bounds, or one of the choices.
  A failure says which of the two steps failed: the JSON was not readable, or its value did not match.
\<close>

theorem parse_complete_output_exact:
  "(parse_complete_output env spec text = Inr v \<longleftrightarrow> conforms env spec text v) \<and>
   (case parse_complete_output env spec text of Inl e \<Rightarrow> no_object_error env text e | Inr _ \<Rightarrow> True)"
proof
  show "parse_complete_output env spec text = Inr v \<longleftrightarrow> conforms env spec text v"
  proof (cases spec)
    case OutputObject
    then show ?thesis
      by (auto simp: parse_complete_output_def simp flip: parse_json_Inr validate_value_Inr [of _ _ _ "()"] split: sum.splits)
  next
    case OutputArray
    then show ?thesis
      by (auto simp: parse_complete_output_def parse_array_Inr simp flip: parse_json_Inr split: sum.splits)
  next
    case OutputChoice
    then show ?thesis
      by (auto simp: parse_complete_output_def parse_choice_Inr simp flip: parse_json_Inr split: sum.splits)
  qed (auto simp: parse_complete_output_def parse_json_Inr)
next
  have *: "no_object_error env text e" if "parse_complete_output env spec text = Inl e" for e
  proof (cases "parse_json env text")
    case (Inl e')
    then show ?thesis using that parse_json_Inl [OF Inl] by (simp add: parse_complete_output_def split: output_spec.splits)
  next
    case (Inr w)
    then have "\<exists>c. e = schema_mismatch c"
      using that
      by (auto simp: parse_complete_output_def split: output_spec.splits sum.splits
          dest: parse_array_Inl parse_choice_Inl)
    with Inr show ?thesis using schema_mismatch_error by (auto simp: parse_json_Inr)
  qed
  show "case parse_complete_output env spec text of Inl e \<Rightarrow> no_object_error env text e | Inr _ \<Rightarrow> True"
    using * by (simp split: sum.splits)
qed

end
