(* ===== verification/Text_Result.thy ===== *)
theory Text_Result
  imports Text_Stream Output_Spec
begin

text \<open>
  The result of a text generation (\<open>src/aimux-core/src/generate.rs\<close>, with \<open>StepResult\<close> of \<open>step_result.rs\<close>):
  \<open>StreamTextResult::consume\<close>, which rebuilds the steps from the public stream, and the phase of
  \<open>generate_in_operation\<close> after the provider call, which parses tool calls, checks the tool choice, converts
  the content and builds the step. A Rust panic is the failure \<open>Panicked\<close>. The request around the provider
  call (prompt conversion, recording, sessions, tracing) is not part of this theory.
\<close>

section \<open>Results\<close>

record step_model =
  sm_provider :: string
  sm_model_id :: string

record step_response =
  sr_id :: string
  sr_timestamp :: int
  sr_model_id :: string
  sr_headers :: "(string \<times> string) list option"
  sr_body :: "json option"
  sr_messages :: "model_message list"

record step_result =
  sre_call_id :: string
  step_number :: u32
  sre_model :: step_model
  sre_content :: "content_part list"
  sre_finish_reason :: finish_reason_unified
  sre_raw_finish_reason :: "string option"
  sre_usage :: language_model_usage
  sre_performance :: step_result_performance
  sre_warnings :: "warning list"
  sre_request :: request_info
  sre_response :: step_response
  sre_provider_metadata :: "provider_metadata option"

fun text_of_part :: "content_part \<Rightarrow> string" where
  "text_of_part (CPText t _) = t" | "text_of_part _ = []"

definition step_text :: "step_result \<Rightarrow> string" where
  "step_text s = concat (map text_of_part (sre_content s))"

datatype output_state = Parsed json | NotParsed | OutputFailed aimux_error

record generate_text_result =
  gtr_steps :: "step_result list"
  gtr_total_usage :: language_model_usage
  gtr_output :: output_state

definition from_steps :: "step_result list \<Rightarrow> output_state \<Rightarrow> generate_text_result" where
  "from_steps steps out = \<lparr>gtr_steps = steps,
     gtr_total_usage = fold (\<lambda>s total. add_language_model_usage total (sre_usage s)) steps default_language_model_usage,
     gtr_output = out\<rparr>"

definition generate_output :: "json_env \<Rightarrow> step_result \<Rightarrow> output_spec option \<Rightarrow> aimux_error + output_state" where
  "generate_output env s spec =
     (if sre_finish_reason s = Stop \<or> (sre_finish_reason s \<noteq> ToolCalls \<and> step_text s \<noteq> [])
      then map_sum (\<lambda>e. e) Parsed (parse_complete_output env (unwrap_or OutputText spec) (step_text s))
      else Inr NotParsed)"

definition stream_output :: "json_env \<Rightarrow> step_result \<Rightarrow> output_spec option \<Rightarrow> output_state" where
  "stream_output env s spec = (case parse_complete_output env (unwrap_or OutputText spec) (step_text s) of
     Inr v \<Rightarrow> Parsed v | Inl e \<Rightarrow> OutputFailed e)"

section \<open>Consuming a stream\<close>

record consume_env =
  ce_json :: json_env
  ce_message :: message_env
  ce_call_id :: string
  ce_model :: step_model
  ce_output :: "output_spec option"

record consume_state =
  cs_steps :: "step_result list"
  cs_rm :: response_message_builder
  cs_request :: request_info
  cs_warnings :: "warning list"
  cs_total_usage :: "language_model_usage option"
  cs_aborted :: "aimux_error option"
  cs_first_error :: "aimux_error option"

definition new_consume_state :: consume_state where
  "new_consume_state = \<lparr>cs_steps = [], cs_rm = new_builder, cs_request = \<lparr>ri_body = None\<rparr>, cs_warnings = [],
     cs_total_usage = None, cs_aborted = None, cs_first_error = None\<rparr>"

definition note_error :: "aimux_error \<Rightarrow> consume_state \<Rightarrow> consume_state" where
  "note_error e s = (case cs_first_error s of None \<Rightarrow> s\<lparr>cs_first_error := Some e\<rparr> | Some _ \<Rightarrow> s)"

definition u32_of_len :: "nat \<Rightarrow> u32" where
  "u32_of_len n = (if n < 2 ^ 32 then of_nat n else - 1)"

definition record_step ::
  "consume_env \<Rightarrow> step_response_metadata \<Rightarrow> language_model_usage \<Rightarrow> step_result_performance \<Rightarrow>
   finish_reason_unified \<Rightarrow> string option \<Rightarrow> provider_metadata option \<Rightarrow> consume_state \<Rightarrow> consume_state" where
  "record_step env md u perf reason raw pm s =
     (let assembled = rb_finish (ce_message env) (cs_rm s) in
      s\<lparr>cs_rm := new_builder, cs_warnings := [], cs_request := \<lparr>ri_body = None\<rparr>,
        cs_steps := cs_steps s @ [\<lparr>sre_call_id = ce_call_id env, step_number = u32_of_len (length (cs_steps s)),
          sre_model = ce_model env, sre_content = rm_content assembled, sre_finish_reason = reason,
          sre_raw_finish_reason = raw, sre_usage = u, sre_performance = perf, sre_warnings = cs_warnings s,
          sre_request = cs_request s,
          sre_response = \<lparr>sr_id = srm_id md, sr_timestamp = srm_timestamp md, sr_model_id = srm_model_id md,
            sr_headers = srm_headers md, sr_body = None, sr_messages = rm_messages assembled\<rparr>,
          sre_provider_metadata = pm\<rparr>]\<rparr>)"

definition update_rm :: "(response_message_builder \<Rightarrow> response_message_builder) \<Rightarrow> consume_state \<Rightarrow> consume_state" where
  "update_rm f s = s\<lparr>cs_rm := f (cs_rm s)\<rparr>"

text \<open>One part; the flag tells whether the loop breaks.\<close>

fun consume_text_part :: "consume_env \<Rightarrow> text_stream_part \<Rightarrow> consume_state \<Rightarrow> consume_state \<times> bool" where
  "consume_text_part env (StartStep req ws) s =
     (s\<lparr>cs_rm := new_builder, cs_request := req, cs_warnings := ws\<rparr>, False)"
| "consume_text_part env (TTextStart i md) s = (update_rm (rb_text_start i md) s, False)"
| "consume_text_part env (TTextDelta i md t) s = (update_rm (rb_text_delta i t md) s, False)"
| "consume_text_part env (TTextEnd i md) s = (update_rm (rb_text_end i md) s, False)"
| "consume_text_part env (TReasoningStart i md) s = (update_rm (rb_reasoning_start i md) s, False)"
| "consume_text_part env (TReasoningDelta md i t) s = (update_rm (rb_reasoning_delta i t md) s, False)"
| "consume_text_part env (TReasoningEnd i md) s = (update_rm (rb_reasoning_end i md) s, False)"
| "consume_text_part env (TToolCall c) s = (update_rm (rb_tool_call c) s, False)"
| "consume_text_part env (TToolResult r) s = (update_rm (rb_typed_tool_result r) s, False)"
| "consume_text_part env (TToolError e) s = (update_rm (rb_tool_error e) s, False)"
| "consume_text_part env (TToolApprovalResponse r) s = (update_rm (rb_approval_response r) s, False)"
| "consume_text_part env (TSource src) s = (update_rm (rb_source src) s, False)"
| "consume_text_part env (TFile f) s = (update_rm (rb_file f False) s, False)"
| "consume_text_part env (TReasoningFile f) s = (update_rm (rb_file f True) s, False)"
| "consume_text_part env (TCustom k md) s = (update_rm (rb_custom k md) s, False)"
| "consume_text_part env (TToolApprovalRequest a) s = (update_rm (rb_approval a) s, False)"
| "consume_text_part env (FinishStep md u perf reason raw pm) s = (record_step env md u perf reason raw pm s, False)"
| "consume_text_part env (TFinish _ _ u) s = (s\<lparr>cs_total_usage := Some u\<rparr>, True)"
| "consume_text_part env (TAbort reason) s =
     (s\<lparr>cs_aborted := Some (Aborted (unwrap_or ''request aborted'' reason))\<rparr>, True)"
| "consume_text_part env (TError e) s = (note_error e s, False)"
| "consume_text_part env _ s = (s, False)"

fun consume_loop ::
  "consume_env \<Rightarrow> (aimux_error + text_stream_part) list \<Rightarrow> consume_state \<Rightarrow> aimux_error + consume_state" where
  "consume_loop env [] s = Inr s"
| "consume_loop env (Inl e # rest) s =
     (if is_recoverable_stream_error e then consume_loop env rest (note_error e s) else Inl e)"
| "consume_loop env (Inr p # rest) s =
     (let (s', broke) = consume_text_part env p s in if broke then Inr s' else consume_loop env rest s')"

definition consume :: "consume_env \<Rightarrow> (aimux_error + text_stream_part) list \<Rightarrow> aimux_error + generate_text_result" where
  "consume env outs = (case consume_loop env outs new_consume_state of
     Inl e \<Rightarrow> Inl e
   | Inr s \<Rightarrow>
       (case cs_first_error s of
          Some e \<Rightarrow> Inl e
        | None \<Rightarrow>
            (if cs_steps s = []
             then Inl (unwrap_or (no_output_generated ''No output generated. Check the stream for errors.'') (cs_aborted s))
             else Inr \<lparr>gtr_steps = cs_steps s,
                        gtr_total_usage = unwrap_or default_language_model_usage (cs_total_usage s),
                        gtr_output = stream_output (ce_json env) (last (cs_steps s)) (ce_output env)\<rparr>)))"

text \<open>\<open>StreamTextResult::text\<close>: the text of the last step.\<close>

definition consume_text :: "consume_env \<Rightarrow> (aimux_error + text_stream_part) list \<Rightarrow> aimux_error + string" where
  "consume_text env outs = map_sum (\<lambda>e. e) (\<lambda>r. step_text (last (gtr_steps r))) (consume env outs)"

section \<open>A generated answer\<close>

datatype failure = Panicked string | Failed aimux_error

record generate_response =
  gr_id :: "string option"
  gr_timestamp :: "int option"
  gr_model_id :: "string option"
  gr_headers :: "(string \<times> string) list option"
  gr_body :: "json option"

record generate_result =
  gr_content :: "generate_content list"
  gr_finish_reason :: finish_reason
  gr_usage :: usage
  gr_warnings :: "warning list"
  gr_provider_metadata :: "provider_metadata option"
  gr_request :: "request_info option"
  gr_response :: "generate_response option"

definition raw_calls :: "generate_content list \<Rightarrow> raw_tool_call list" where
  "raw_calls content = List.map_filter (\<lambda>c. case c of GCToolCall call \<Rightarrow> Some call | _ \<Rightarrow> None) content"

definition parse_calls :: "'m text_env \<Rightarrow> generate_content list \<Rightarrow> typed_tool_call list" where
  "parse_calls env content =
     map (\<lambda>raw. parse_tool_call (te_json env) raw (te_tools env) (te_repair env) (te_messages env) (te_instructions env))
       (raw_calls content)"

definition deferred_allowed :: "tool list option \<Rightarrow> string \<Rightarrow> bool" where
  "deferred_allowed tools name = list_ex (\<lambda>t. case t of
     ProviderTool pt \<Rightarrow> pt_name pt = name \<and> supports_deferred_results pt = Some True
   | FunctionTool _ \<Rightarrow> False) (unwrap_or [] tools)"

definition convert_content ::
  "'m text_env \<Rightarrow> typed_tool_call list \<Rightarrow> generate_content \<Rightarrow> response_message_builder \<Rightarrow>
   failure + response_message_builder" where
  "convert_content env tool_calls content rm = (case content of
     GCText t md \<Rightarrow> Inr (rb_text t md rm)
   | GCToolCall call \<Rightarrow>
       (case find (\<lambda>parsed. ttc_id parsed = rtc_tool_call_id call) tool_calls of
          Some parsed \<Rightarrow> Inr (rb_tool_call parsed rm)
        | None \<Rightarrow> Inl (Panicked ''every tool call was parsed above''))
   | GCReasoning r \<Rightarrow> Inr (rb_reasoning r rm)
   | GCSource s \<Rightarrow> Inr (rb_source s rm)
   | GCFile f \<Rightarrow> (case resolve_file env f of Inl e \<Rightarrow> Inl (Failed e) | Inr out \<Rightarrow> Inr (rb_file out False rm))
   | GCReasoningFile f \<Rightarrow> (case resolve_file env f of Inl e \<Rightarrow> Inl (Failed e) | Inr out \<Rightarrow> Inr (rb_file out True rm))
   | GCCustom k md \<Rightarrow> Inr (rb_custom k md rm)
   | GCToolApprovalRequest a \<Rightarrow>
       (case find (\<lambda>call. ttc_id call = rtar_tool_call_id a) tool_calls of
          None \<Rightarrow> Inl (Failed (ToolCallNotFoundForApproval (rtar_tool_call_id a) (rtar_approval_id a)))
        | Some call \<Rightarrow>
            Inr (rb_approval \<lparr>taro_approval_id = rtar_approval_id a, taro_tool_call = call, taro_reason = None,
                   taro_is_automatic = None, taro_signature = None, taro_input_schema_input = None\<rparr> rm))
   | GCToolResult result \<Rightarrow>
       (if \<not> list_ex (\<lambda>call. ttc_id call = tr_tool_call_id result) tool_calls
             \<and> \<not> deferred_allowed (te_tools env) (tr_tool_name result)
        then Inl (Failed (other (''Tool call '' @ tr_tool_call_id result @ '' not found.'')))
        else Inr (rb_tool_result result rm)))"

fun convert_contents ::
  "'m text_env \<Rightarrow> typed_tool_call list \<Rightarrow> generate_content list \<Rightarrow> response_message_builder \<Rightarrow>
   failure + response_message_builder" where
  "convert_contents env tool_calls [] rm = Inr rm"
| "convert_contents env tool_calls (c # cs) rm =
     (case convert_content env tool_calls c rm of Inl f \<Rightarrow> Inl f | Inr rm' \<Rightarrow> convert_contents env tool_calls cs rm')"

definition add_tool_error :: "typed_tool_call \<Rightarrow> response_message_builder \<Rightarrow> response_message_builder" where
  "add_tool_error call rm = (case invalid_tool_call_error call of None \<Rightarrow> rm | Some e \<Rightarrow> rb_tool_error e rm)"

definition convert_generated_content ::
  "'m text_env \<Rightarrow> message_env \<Rightarrow> generate_content list \<Rightarrow> typed_tool_call list \<Rightarrow> failure + response_messages" where
  "convert_generated_content env menv content tool_calls =
     map_sum (\<lambda>f. f)
       (\<lambda>rm. rb_finish menv (fold add_tool_error (filter (\<lambda>call. ttc_dynamic call = Some True) tool_calls) rm))
       (convert_contents env tool_calls content new_builder)"

text \<open>The random response id and the wall clock of \<open>response_metadata_defaults\<close> are arguments.\<close>

definition response_metadata_defaults :: "string \<Rightarrow> int \<Rightarrow> string \<Rightarrow> response_metadata \<Rightarrow> response_metadata" where
  "response_metadata_defaults random_id stamp model_id md =
     \<lparr>rm_id = Some (unwrap_or random_id (rm_id md)), rm_timestamp = Some (unwrap_or stamp (rm_timestamp md)),
      rm_model_id = Some (unwrap_or model_id (rm_model_id md))\<rparr>"

record generated_env =
  ge_call_id :: string
  ge_random_id :: string
  ge_stamp :: int
  ge_response_time :: nat
  ge_step_time :: nat

definition default_response :: generate_response where
  "default_response = \<lparr>gr_id = None, gr_timestamp = None, gr_model_id = None, gr_headers = None, gr_body = None\<rparr>"

definition build_generated_step ::
  "'m text_env \<Rightarrow> generated_env \<Rightarrow> generate_result \<Rightarrow> response_messages \<Rightarrow> step_result" where
  "build_generated_step env ge result content =
     (let response = unwrap_or default_response (gr_response result);
          md = response_metadata_defaults (ge_random_id ge) (ge_stamp ge) (te_model_id env)
            \<lparr>rm_id = gr_id response, rm_timestamp = gr_timestamp response, rm_model_id = gr_model_id response\<rparr>;
          u = as_language_model_usage (gr_usage result)
      in \<lparr>sre_call_id = ge_call_id ge, step_number = 0,
          sre_model = \<lparr>sm_provider = te_provider env, sm_model_id = te_model_id env\<rparr>,
          sre_content = rm_content content, sre_finish_reason = unified (gr_finish_reason result),
          sre_raw_finish_reason = fr_raw (gr_finish_reason result), sre_usage = u,
          sre_performance = \<lparr>perf_usage = Some u, perf_response_time = ge_response_time ge,
            perf_step_time = ge_step_time ge, perf_first_output = None, perf_chunk_gaps = []\<rparr>,
          sre_warnings = gr_warnings result, sre_request = unwrap_or \<lparr>ri_body = None\<rparr> (gr_request result),
          sre_response = \<lparr>sr_id = unwrap_or [] (rm_id md), sr_timestamp = unwrap_or (ge_stamp ge) (rm_timestamp md),
            sr_model_id = unwrap_or [] (rm_model_id md), sr_headers = gr_headers response, sr_body = gr_body response,
            sr_messages = rm_messages content\<rparr>,
          sre_provider_metadata = gr_provider_metadata result\<rparr>)"

text \<open>Step 4 of \<open>generate_in_operation\<close>: from the provider's result to the call's result.\<close>

definition generated_outcome ::
  "'m text_env \<Rightarrow> message_env \<Rightarrow> generated_env \<Rightarrow> output_spec option \<Rightarrow> generate_result \<Rightarrow>
   failure + generate_text_result" where
  "generated_outcome env menv ge spec result =
     (let tool_calls = parse_calls env (gr_content result) in
      case tool_choice_violation (te_tool_choice env) (map ttc_name tool_calls)
             (unified (gr_finish_reason result)) (te_provider env) (te_model_id env) (gr_content result) of
        Some e \<Rightarrow> Inl (Failed e)
      | None \<Rightarrow>
          (case convert_generated_content env menv (gr_content result) tool_calls of
             Inl f \<Rightarrow> Inl f
           | Inr content \<Rightarrow>
               (let s = build_generated_step env ge result content in
                case generate_output (te_json env) s spec of
                  Inl e \<Rightarrow> Inl (Failed e)
                | Inr out \<Rightarrow> Inr (from_steps [s] out))))"

section \<open>Consuming a well-framed stream\<close>

fun part_event :: "text_stream_part \<Rightarrow> builder_event option" where
  "part_event (TTextStart i md) = Some (SegmentStart (TextSegment i) md)"
| "part_event (TTextDelta i md t) = Some (SegmentDelta (TextSegment i) t md)"
| "part_event (TTextEnd i md) = Some (SegmentEnd (TextSegment i) md)"
| "part_event (TReasoningStart i md) = Some (SegmentStart (ReasoningSegment i) md)"
| "part_event (TReasoningDelta md i t) = Some (SegmentDelta (ReasoningSegment i) t md)"
| "part_event (TReasoningEnd i md) = Some (SegmentEnd (ReasoningSegment i) md)"
| "part_event (TToolCall c) = Some (Pushed (CPToolCall c))"
| "part_event (TToolResult r) = (if ttr_preliminary r \<noteq> Some True then Some (Pushed (CPToolResult r)) else None)"
| "part_event (TToolError e) = Some (Pushed (CPToolError e))"
| "part_event (TToolApprovalResponse r) = Some (Pushed (CPToolApprovalResponse r))"
| "part_event (TSource s) = Some (Pushed (CPSource s))"
| "part_event (TFile f) = Some (Pushed (CPFile (gfo_file f) (gfo_provider_metadata f)))"
| "part_event (TReasoningFile f) = Some (Pushed (CPReasoningFile f))"
| "part_event (TCustom k md) = Some (Pushed (CPCustom k md))"
| "part_event (TToolApprovalRequest a) = Some (Pushed (CPToolApprovalRequest a))"
| "part_event _ = None"

text \<open>The builder events of a stream.\<close>

definition stream_events :: "(aimux_error + text_stream_part) list \<Rightarrow> builder_event list" where
  "stream_events outs = List.map_filter (\<lambda>x. case x of Inr p \<Rightarrow> part_event p | Inl _ \<Rightarrow> None) outs"

fun is_failure :: "aimux_error + text_stream_part \<Rightarrow> bool" where
  "is_failure (Inl _) = True" | "is_failure (Inr (TError _)) = True" | "is_failure (Inr _) = False"

lemma stream_events_simps [simp]:
  "stream_events [] = []" "stream_events (Inl e # outs) = stream_events outs"
  "stream_events (Inr p # outs) = (case part_event p of None \<Rightarrow> stream_events outs | Some e \<Rightarrow> e # stream_events outs)"
  by (simp_all add: stream_events_def map_filter_simps split: option.splits)

lemma same_rm [simp]: "s\<lparr>cs_rm := cs_rm s\<rparr> = (s :: consume_state)"
  by (cases s) simp

lemma consume_content:
  assumes "\<not> is_lifecycle p" and "\<not> is_failure (Inr p)"
  shows "consume_text_part env p s = (update_rm (fold apply_event (stream_events [Inr p])) s, False)"
  using assms
  by (cases p) (simp_all add: update_rm_def rb_tool_call_def rb_typed_tool_result_def rb_tool_error_def
      rb_approval_response_def rb_source_def rb_file_def rb_custom_def rb_approval_def)

text \<open>Errors are kept, and in a framed stream no part escapes the loop.\<close>

lemma consume_loop_errors:
  assumes "consume_loop env outs s = Inr s'" and "framed started outs"
  shows "cs_first_error s' = None \<longleftrightarrow> cs_first_error s = None \<and> \<not> list_ex is_failure outs"
  using assms
proof (induction started outs arbitrary: s rule: framed.induct)
  case (2 started e rest)
  moreover have "cs_first_error (note_error e s) \<noteq> None" by (simp add: note_error_def split: option.splits)
  ultimately show ?case by (simp del: not_None_eq split: if_splits)
qed (auto simp: note_error_def update_rm_def record_step_def Let_def simp del: not_None_eq split: if_splits option.splits)

lemma consume_loop_steps:
  assumes "consume_loop env outs s = Inr s'" and "framed started outs" and "cs_steps s' \<noteq> cs_steps s"
  shows "finishes outs"
  using assms
proof (induction started outs arbitrary: s rule: framed.induct)
  case (5 started md u perf r raw pm rest)
  then show ?case by (auto simp: finishes_def intro!: exI [of _ "[]"])
qed (auto simp: note_error_def update_rm_def Let_def intro: finishes_append [of _ "[x]" for x, simplified]
    split: if_splits option.splits)

lemma update_rm_update_rm: "update_rm g (update_rm f s) = update_rm (g \<circ> f) s"
  by (simp add: update_rm_def)

lemma framed_content_tail: "\<not> is_lifecycle p \<Longrightarrow> framed True (Inr p # rest) \<Longrightarrow> framed True rest"
  by (simp add: framed_content)

lemma consume_open_step:
  assumes "framed True (outs @ [Inr (FinishStep md u perf r raw pm), Inr (TFinish r' raw' tu)])"
    and "\<not> list_ex is_failure outs"
  shows "consume_loop env (outs @ [Inr (FinishStep md u perf r raw pm), Inr (TFinish r' raw' tu)]) s
    = Inr ((record_step env md u perf r raw pm (update_rm (fold apply_event (stream_events outs)) s))\<lparr>cs_total_usage := Some tu\<rparr>)
      \<and> r' = r \<and> raw' = raw \<and> tu = add_language_model_usage default_language_model_usage u"
  using assms
proof (induction outs arbitrary: s)
  case Nil
  then show ?case by (simp add: update_rm_def)
next
  case (Cons x outs)
  then obtain p where x: "x = Inr p" by (cases x) auto
  have "\<not> is_lifecycle p" using Cons.prems(1) by (cases p) (auto simp: x)
  moreover have "\<not> is_failure (Inr p)" "\<not> list_ex is_failure outs" using Cons.prems(2) x by auto
  ultimately have step: "consume_text_part env p s = (update_rm (fold apply_event (stream_events [Inr p])) s, False)"
      and rest: "framed True (outs @ [Inr (FinishStep md u perf r raw pm), Inr (TFinish r' raw' tu)])" "\<not> list_ex is_failure outs"
    using Cons.prems(1) framed_content_tail [of p] by (simp_all add: x consume_content)
  have events: "stream_events (x # outs) = stream_events [Inr p] @ stream_events outs"
    by (simp add: x split: option.splits)
  have "consume_loop env ((x # outs) @ [Inr (FinishStep md u perf r raw pm), Inr (TFinish r' raw' tu)]) s
      = consume_loop env (outs @ [Inr (FinishStep md u perf r raw pm), Inr (TFinish r' raw' tu)])
          (update_rm (fold apply_event (stream_events [Inr p])) s)"
    unfolding x append_Cons consume_loop.simps step by simp
  then show ?case
    using Cons.IH [OF rest, of "update_rm (fold apply_event (stream_events [Inr p])) s"]
    unfolding events fold_append update_rm_update_rm by (rule subst [OF sym])
qed

text \<open>What a finished stream without an error looks like: its step is opened first.\<close>

lemma framed_opened:
  assumes "framed False parts" and "finishes (Inr TStart # parts)" and "\<not> list_ex is_failure parts"
  obtains req ws body md u perf r raw pm where
    "parts = Inr (StartStep req ws) # body @ [Inr (FinishStep md u perf r raw pm),
       Inr (TFinish r raw (add_language_model_usage default_language_model_usage u))]"
    "framed True (body @ [Inr (FinishStep md u perf r raw pm),
       Inr (TFinish r raw (add_language_model_usage default_language_model_usage u))])"
    "\<not> list_ex is_failure body"
proof -
  obtain pre md u perf r raw pm where "Inr TStart # parts = pre @ [Inr (FinishStep md u perf r raw pm),
      Inr (TFinish r raw (add_language_model_usage default_language_model_usage u))]"
    using assms(2) by (auto simp: finishes_def)
  then obtain mid where parts: "parts = mid @ [Inr (FinishStep md u perf r raw pm),
      Inr (TFinish r raw (add_language_model_usage default_language_model_usage u))]"
    by (cases pre) auto
  obtain x body where mid: "mid = x # body" using assms(1) parts by (cases mid) auto
  then obtain p where "x = Inr p" using assms(3) parts by (cases x) auto
  moreover then obtain req ws where "p = StartStep req ws"
    using assms(1,3) parts mid by (cases p) auto
  ultimately show thesis using that assms(1,3) parts mid by auto
qed

lemma text_stream_shape:
  obtains parts where "text_stream env now response evs = Inr TStart # parts" "framed False parts"
  using that text_parts_framed [OF opened_first_new, of env now response env evs]
  by (simp add: text_stream_def new_text_state_def new_stream_step_def)

lemma consume_success:
  assumes "consume cenv (text_stream env now response evs) = Inr result"
  shows "finishes (text_stream env now response evs) \<and> \<not> list_ex is_failure (text_stream env now response evs)"
proof -
  obtain parts where outs: "text_stream env now response evs = Inr TStart # parts" and framed: "framed False parts"
    by (rule text_stream_shape)
  obtain s where s: "consume_loop cenv parts new_consume_state = Inr s" "cs_first_error s = None" "cs_steps s \<noteq> []"
    using assms by (auto simp: consume_def outs split: sum.splits option.splits if_splits)
  then have "\<not> list_ex is_failure parts" using consume_loop_errors [OF s(1) framed] by simp
  moreover have "finishes parts" using consume_loop_steps [OF s(1) framed] s(3) by (simp add: new_consume_state_def)
  ultimately show ?thesis using finishes_append [of parts "[Inr TStart]"] by (simp add: outs)
qed

text \<open>The result of a finished stream without an error.\<close>

definition consumed :: "consume_env \<Rightarrow> (aimux_error + text_stream_part) list \<Rightarrow> generate_text_result \<Rightarrow> bool" where
  "consumed cenv outs result \<longleftrightarrow> (\<exists>s md u perf r raw pm pre.
     outs = pre @ [Inr (FinishStep md u perf r raw pm), Inr (TFinish r raw (gtr_total_usage result))]
     \<and> gtr_steps result = [s] \<and> step_number s = 0
     \<and> sre_content s = assemble (stream_events outs)
     \<and> sr_messages (sre_response s) = rm_messages (rb_finish (ce_message cenv) (fold apply_event (stream_events outs) new_builder))
     \<and> sre_finish_reason s = r \<and> sre_raw_finish_reason s = raw \<and> sre_usage s = u \<and> sre_provider_metadata s = pm
     \<and> gtr_total_usage result = add_language_model_usage default_language_model_usage u
     \<and> gtr_output result = stream_output (ce_json cenv) s (ce_output cenv))"

lemma consume_finished:
  assumes "finishes (text_stream env now response evs)" and "\<not> list_ex is_failure (text_stream env now response evs)"
  shows "\<exists>result. consume cenv (text_stream env now response evs) = Inr result
    \<and> consumed cenv (text_stream env now response evs) result"
proof -
  obtain parts where outs: "text_stream env now response evs = Inr TStart # parts" and framed: "framed False parts"
    by (rule text_stream_shape)
  have "finishes (Inr TStart # parts)" "\<not> list_ex is_failure parts" using assms by (simp_all add: outs)
  then obtain req ws body md u perf r raw pm where
    parts: "parts = Inr (StartStep req ws) # body @ [Inr (FinishStep md u perf r raw pm),
       Inr (TFinish r raw (add_language_model_usage default_language_model_usage u))]"
    and body: "framed True (body @ [Inr (FinishStep md u perf r raw pm),
       Inr (TFinish r raw (add_language_model_usage default_language_model_usage u))])" "\<not> list_ex is_failure body"
    by (rule framed_opened [OF framed])
  let ?opened = "new_consume_state\<lparr>cs_rm := new_builder, cs_request := req, cs_warnings := ws\<rparr>"
  let ?closed = "(record_step cenv md u perf r raw pm (update_rm (fold apply_event (stream_events body)) ?opened))
    \<lparr>cs_total_usage := Some (add_language_model_usage default_language_model_usage u)\<rparr>"
  have events: "stream_events (text_stream env now response evs) = stream_events body"
    by (simp add: outs parts stream_events_def map_filter_def)
  have content: "rb_content (fold apply_event (stream_events body) new_builder) = assemble (stream_events body)"
    by (rule streamed_content_assembled)
  have loop: "consume_loop cenv (text_stream env now response evs) new_consume_state = Inr ?closed"
    using consume_open_step [OF body, of cenv ?opened] by (simp add: outs parts)
  show ?thesis
  proof (intro exI conjI)
    show "consume cenv (text_stream env now response evs) = Inr \<lparr>gtr_steps = cs_steps ?closed,
        gtr_total_usage = add_language_model_usage default_language_model_usage u,
        gtr_output = stream_output (ce_json cenv) (last (cs_steps ?closed)) (ce_output cenv)\<rparr>"
      unfolding consume_def loop by (simp add: record_step_def Let_def update_rm_def new_consume_state_def unwrap_or_def)
    show "consumed cenv (text_stream env now response evs) \<lparr>gtr_steps = cs_steps ?closed,
        gtr_total_usage = add_language_model_usage default_language_model_usage u,
        gtr_output = stream_output (ce_json cenv) (last (cs_steps ?closed)) (ce_output cenv)\<rparr>"
      unfolding consumed_def events
    proof (intro exI conjI)
      show "text_stream env now response evs = (Inr TStart # Inr (StartStep req ws) # body) @ [Inr (FinishStep md u perf r raw pm),
          Inr (TFinish r raw (gtr_total_usage \<lparr>gtr_steps = cs_steps ?closed,
             gtr_total_usage = add_language_model_usage default_language_model_usage u,
             gtr_output = stream_output (ce_json cenv) (last (cs_steps ?closed)) (ce_output cenv)\<rparr>))]"
        by (simp add: outs parts)
    qed (simp_all add: record_step_def Let_def update_rm_def new_consume_state_def u32_of_len_def rb_finish_def content)
  qed
qed

text \<open>
  C6. Consuming a stream fails exactly when the stream did. Reading the stream of a call to its end
  returns a result if and only if the stream finished and no error, recoverable or not, was sent on it: an
  error is never lost, and a stream without a finished step has no result. The result has exactly one
  step, numbered 0; its content is the reference assembly of the parts on the stream (each text and
  reasoning segment with exactly its deltas, in place), its messages are made from that content, and its
  reason, usage and metadata are those the stream finished with.
\<close>

theorem consume_exact:
  "(if finishes (text_stream env now response evs) \<and> \<not> list_ex is_failure (text_stream env now response evs)
    then \<exists>result. consume cenv (text_stream env now response evs) = Inr result
           \<and> consumed cenv (text_stream env now response evs) result
    else \<exists>e. consume cenv (text_stream env now response evs) = Inl e)"
  using consume_finished [of env now response evs cenv] consume_success [of cenv env now response evs]
  by (cases "consume cenv (text_stream env now response evs)") auto

section \<open>No panic\<close>

text \<open>A repair hook that answers with a call of the same id.\<close>

definition keeps_ids :: "('m tool_call_repair_context \<Rightarrow> aimux_error + raw_tool_call option) option \<Rightarrow> bool" where
  "keeps_ids repair \<longleftrightarrow> (\<forall>f ctx r. repair = Some f \<longrightarrow> f ctx = Inr (Some r) \<longrightarrow>
     rtc_tool_call_id r = rtc_tool_call_id (rc_tool_call ctx))"

lemma call_ids_kept:
  "ttc_id (parsed_tool_call raw input dyn) = rtc_tool_call_id raw" "ttc_id (invalid_tool_call env raw e) = rtc_tool_call_id raw"
  by (simp_all add: parsed_tool_call_def invalid_tool_call_def)

lemma apply_repair_outcome_id:
  assumes "\<And>r. outcome = Repaired r \<Longrightarrow> rtc_tool_call_id r = i" and "rtc_tool_call_id raw = i"
  shows "ttc_id (apply_repair_outcome env raw e ts outcome) = i"
proof (cases outcome)
  case (Repaired r)
  then show ?thesis using assms(1) [OF Repaired] assms(2) by (auto simp: apply_repair_outcome_def call_ids_kept split: sum.splits)
qed (simp_all add: apply_repair_outcome_def call_ids_kept assms(2))

lemma parse_tool_call_id:
  assumes "keeps_ids repair"
  shows "ttc_id (parse_tool_call env raw tools repair messages instructions) = rtc_tool_call_id raw"
proof (cases tools)
  case None
  then show ?thesis
    by (simp add: parse_tool_call_def call_ids_kept split: sum.splits)
next
  case (Some ts)
  have *: "rtc_tool_call_id r = rtc_tool_call_id raw" if "repair = Some f" "f ctx = Inr (Some r)" "rc_tool_call ctx = raw" for f ctx r
    using assms that unfolding keeps_ids_def by metis
  show ?thesis
  proof (cases "parse_and_validate_tool_call env raw ts")
    case (Inr p)
    then show ?thesis using Some by (cases p) (simp add: parse_tool_call_def call_ids_kept)
  next
    case (Inl e)
    then show ?thesis
      using Some * by (cases repair) (auto simp: parse_tool_call_def call_ids_kept intro!: apply_repair_outcome_id split: sum.splits option.splits)
  qed
qed

lemma raw_calls_Cons: "raw_calls (c # cs) = (case c of GCToolCall raw \<Rightarrow> raw # raw_calls cs | _ \<Rightarrow> raw_calls cs)"
  by (cases c) (simp_all add: raw_calls_def map_filter_simps)

lemma convert_content_panic:
  "convert_content env tool_calls c rm = Inl (Panicked m) \<Longrightarrow>
     \<exists>raw. c = GCToolCall raw \<and> find (\<lambda>parsed. ttc_id parsed = rtc_tool_call_id raw) tool_calls = None"
  by (cases c) (auto simp: convert_content_def split: option.splits sum.splits if_splits)

lemma convert_contents_no_panic:
  assumes "\<forall>raw. GCToolCall raw \<in> set content \<longrightarrow> (\<exists>c \<in> set tool_calls. ttc_id c = rtc_tool_call_id raw)"
  shows "convert_contents env tool_calls content rm \<noteq> Inl (Panicked m)"
  using assms
proof (induction content arbitrary: rm)
  case (Cons c content)
  have "convert_content env tool_calls c rm \<noteq> Inl (Panicked m)"
    using Cons.prems convert_content_panic [of env tool_calls c rm m] by (auto simp: find_None_iff)
  then show ?case using Cons.IH Cons.prems by (cases "convert_content env tool_calls c rm") auto
qed simp

lemma set_raw_calls: "raw \<in> set (raw_calls content) \<longleftrightarrow> GCToolCall raw \<in> set content"
  by (auto simp: raw_calls_def map_filter_def intro!: image_eqI [of _ _ "GCToolCall raw"] split: generate_content.splits)

text \<open>
  A generated answer is never lost to a panic, provided the repair hook keeps the id of the call it
  repairs: every tool call of the answer is found among the parsed calls. (Without that condition the
  lookup panics, see \<open>repair_changing_id_panics\<close>.)
\<close>

lemma generated_outcome_no_panic:
  assumes "keeps_ids (te_repair env)"
  shows "generated_outcome env menv ge spec result \<noteq> Inl (Panicked m)"
proof -
  have "\<forall>raw. GCToolCall raw \<in> set (gr_content result) \<longrightarrow>
      (\<exists>c \<in> set (parse_calls env (gr_content result)). ttc_id c = rtc_tool_call_id raw)"
    using parse_tool_call_id [OF assms] by (auto simp: parse_calls_def set_raw_calls)
  then have "convert_generated_content env menv (gr_content result) (parse_calls env (gr_content result)) \<noteq> Inl (Panicked m)"
    using convert_contents_no_panic [of "gr_content result" "parse_calls env (gr_content result)" env new_builder m]
    by (cases "convert_contents env (parse_calls env (gr_content result)) (gr_content result) new_builder")
      (auto simp: convert_generated_content_def)
  then show ?thesis
    by (auto simp: generated_outcome_def Let_def split: option.splits sum.splits)
qed

text \<open>
  The condition is needed. When the hook repairs a call into a valid call with another id, the answer
  is lost: the parsed call carries the new id, the lookup by the model's id finds nothing, and the call
  panics instead of returning a result or an error.
\<close>

lemma repair_changing_id_panics:
  assumes "te_tools env = Some ts" and "te_repair env = Some f" and "te_tool_choice env = None"
    and "parse_and_validate_tool_call (te_json env) raw ts = Inl e"
    and "\<And>ctx. f ctx = Inr (Some r)" and "parse_and_validate_tool_call (te_json env) r ts = Inr (input, dyn)"
    and "rtc_tool_call_id r \<noteq> rtc_tool_call_id raw" and "gr_content result = [GCToolCall raw]"
  shows "generated_outcome env menv ge spec result = Inl (Panicked ''every tool call was parsed above'')"
  using assms
  by (simp add: generated_outcome_def parse_calls_def raw_calls_def map_filter_simps parse_tool_call_def apply_repair_outcome_def
      parsed_tool_call_def tool_choice_violation_def convert_generated_content_def convert_content_def)

section \<open>Witnesses\<close>

definition demo_generated :: generate_result where
  "demo_generated = \<lparr>gr_content = [GCText ''hi'' None],
     gr_finish_reason = \<lparr>unified = Stop, fr_raw = None\<rparr>,
     gr_usage = \<lparr>u_input_tokens = \<lparr>itu_total = Some 3, itu_no_cache = None, itu_cache_read = None, itu_cache_write = None\<rparr>,
       u_output_tokens = \<lparr>otu_total = Some 4, otu_text = None, otu_reasoning = None\<rparr>, u_raw = None\<rparr>,
     gr_warnings = [], gr_provider_metadata = None, gr_request = None, gr_response = None\<rparr>"

definition demo_message_env :: message_env where
  "demo_message_env = \<lparr>base64_encode = (\<lambda>_. []), value_text = (\<lambda>_. ''null''), same_double = (=)\<rparr>"

definition demo_consume_env :: consume_env where
  "demo_consume_env = \<lparr>ce_json = demo_env, ce_message = demo_message_env, ce_call_id = ''c'',
     ce_model = \<lparr>sm_provider = ''openai.chat'', sm_model_id = ''m''\<rparr>, ce_output = None\<rparr>"

definition demo_generated_env :: generated_env where
  "demo_generated_env = \<lparr>ge_call_id = ''c'', ge_random_id = ''r'', ge_stamp = 0, ge_response_time = 1, ge_step_time = 2\<rparr>"

lemma demo_keeps_ids: "keeps_ids (te_repair demo_text_env)"
  by (simp add: keeps_ids_def demo_text_env_def)

lemma generated_outcome_no_panic_witness:
  "generated_outcome demo_text_env demo_message_env demo_generated_env None demo_generated \<noteq> Inl (Panicked [])"
  by (rule generated_outcome_no_panic [OF demo_keeps_ids])

definition demo_repairing_env :: "unit text_env" where
  "demo_repairing_env = demo_text_env\<lparr>te_tools := Some [FunctionTool \<lparr>ft_name = ''f'', ft_description = None,
       ft_input_schema = JObject [], ft_strict = None, ft_provider_options = None, ft_input_examples = None\<rparr>],
     te_repair := Some (\<lambda>_. Inr (Some (demo_raw_call\<lparr>rtc_tool_call_id := ''2''\<rparr>))), te_tool_choice := None\<rparr>"

lemma null_not_blank: "str_trim ''null'' \<noteq> []"
  by code_simp

lemma repair_changing_id_panics_witness:
  "generated_outcome demo_repairing_env demo_message_env demo_generated_env None
     (demo_generated\<lparr>gr_content := [GCToolCall (demo_raw_call\<lparr>rtc_tool_name := ''g''\<rparr>)]\<rparr>)
   = Inl (Panicked ''every tool call was parsed above'')"
proof (rule repair_changing_id_panics [where raw = "demo_raw_call\<lparr>rtc_tool_name := ''g''\<rparr>" and input = JNull and dyn = None])
  show "parse_and_validate_tool_call (te_json demo_repairing_env) (demo_raw_call\<lparr>rtc_tool_call_id := ''2''\<rparr>)
      [FunctionTool \<lparr>ft_name = ''f'', ft_description = None, ft_input_schema = JObject [], ft_strict = None,
         ft_provider_options = None, ft_input_examples = None\<rparr>] = Inr (JNull, None)"
    by (simp add: demo_repairing_env_def demo_text_env_def demo_env_def demo_raw_call_def parse_and_validate_tool_call_def
        parse_json_input_def parse_input_text_def null_not_blank)
qed (simp_all add: demo_repairing_env_def demo_raw_call_def demo_generated_def parse_and_validate_tool_call_def)

end
