(* ===== verification/Answer_Streams.thy ===== *)
theory Answer_Streams
  imports Text_Result
begin

text \<open>
  The two ways of a text call compared: \<open>generate_text\<close> converts a whole answer of the provider, and
  \<open>stream_text\<close> with \<open>consume\<close> rebuilds it from its parts (\<open>src/aimux-core/src/generate.rs\<close>). For answers that
  both convert, the steps carry the same content, messages, reason and usage.
\<close>

section \<open>Generated and streamed answers\<close>

text \<open>A provider's answer sent part by part, its text and reasoning segments under some id.\<close>

fun content_stream :: "string \<Rightarrow> generate_content \<Rightarrow> stream_part list" where
  "content_stream i (GCText t md) = [TextStart i md, TextDelta i t None, TextEnd i None]"
| "content_stream i (GCReasoning r) =
     [ReasoningStart i (ro_provider_metadata r), ReasoningDelta i (ro_text r) None, ReasoningEnd i None]"
| "content_stream i (GCToolCall raw) = [ToolCallPart raw]"
| "content_stream i (GCSource s) = [SourcePart s]"
| "content_stream i (GCFile f) = [FilePart f]"
| "content_stream i (GCReasoningFile f) = [ReasoningFilePart f]"
| "content_stream i (GCCustom k md) = [CustomPart k md]"
| "content_stream i (GCToolApprovalRequest a) = [ToolApprovalRequestPart a]"
| "content_stream i (GCToolResult r) = [ToolResultPart r]"

definition parsed_call :: "'m text_env \<Rightarrow> raw_tool_call \<Rightarrow> typed_tool_call" where
  "parsed_call env raw = parse_tool_call (te_json env) raw (te_tools env) (te_repair env) (te_messages env) (te_instructions env)"

text \<open>Content that both ways convert alike: no provider tool results or approvals, files that resolve, valid calls.\<close>

fun plain_content :: "'m text_env \<Rightarrow> generate_content \<Rightarrow> bool" where
  "plain_content env (GCFile f) = (\<not> isl (resolve_file env f))"
| "plain_content env (GCReasoningFile f) = (\<not> isl (resolve_file env f))"
| "plain_content env (GCToolCall raw) = (invalid_tool_call_error (parsed_call env raw) = None)"
| "plain_content env (GCToolApprovalRequest _) = False"
| "plain_content env (GCToolResult _) = False"
| "plain_content env _ = True"

fun converted_content :: "'m text_env \<Rightarrow> generate_content \<Rightarrow> content_part" where
  "converted_content env (GCText t md) = CPText t md"
| "converted_content env (GCReasoning r) = CPReasoning r"
| "converted_content env (GCToolCall raw) = CPToolCall (parsed_call env raw)"
| "converted_content env (GCSource s) = CPSource s"
| "converted_content env (GCFile f) =
     CPFile (gfo_file (projr (resolve_file env f))) (gfo_provider_metadata (projr (resolve_file env f)))"
| "converted_content env (GCReasoningFile f) = CPReasoningFile (projr (resolve_file env f))"
| "converted_content env (GCCustom k md) = CPCustom k md"
| "converted_content env _ = CPText [] None"

fun content_events :: "'m text_env \<Rightarrow> string \<Rightarrow> generate_content \<Rightarrow> builder_event list" where
  "content_events env i (GCText t md) = SegmentStart (TextSegment i) md #
     (if t = [] then [] else [SegmentDelta (TextSegment i) t None]) @ [SegmentEnd (TextSegment i) None]"
| "content_events env i (GCReasoning r) = [SegmentStart (ReasoningSegment i) (ro_provider_metadata r),
     SegmentDelta (ReasoningSegment i) (ro_text r) None, SegmentEnd (ReasoningSegment i) None]"
| "content_events env i c = [Pushed (converted_content env c)]"

lemma assemble_content: "assemble (content_events env i c @ rest) = converted_content env c # assemble rest"
  by (cases c) simp_all

lemma assemble_contents: "assemble (concat (map (content_events env i) cs)) = map (converted_content env) cs"
proof (induction cs)
  case (Cons c cs)
  then show ?case using assemble_content [of env i c] by simp
qed simp

subsection \<open>The generated way\<close>

lemma convert_plain:
  assumes "plain_content env c" and "\<And>raw. c = GCToolCall raw \<Longrightarrow>
      find (\<lambda>p. ttc_id p = rtc_tool_call_id raw) tool_calls = Some (parsed_call env raw)"
  shows "convert_content env tool_calls c rm = Inr (push_content (converted_content env c) rm)"
  using assms
  by (cases c) (auto simp: convert_content_def rb_text_def rb_reasoning_def rb_tool_call_def rb_source_def rb_custom_def
      rb_file_def isl_def split: sum.splits)

lemma convert_plains:
  assumes "list_all (plain_content env) cs" and "\<And>raw. GCToolCall raw \<in> set cs \<Longrightarrow>
      find (\<lambda>p. ttc_id p = rtc_tool_call_id raw) tool_calls = Some (parsed_call env raw)"
  shows "\<exists>rm'. convert_contents env tool_calls cs rm = Inr rm' \<and> rb_content rm' = rb_content rm @ map (converted_content env) cs"
  using assms
proof (induction cs arbitrary: rm)
  case (Cons c cs)
  have "convert_content env tool_calls c rm = Inr (push_content (converted_content env c) rm)"
    using Cons.prems by (intro convert_plain) auto
  moreover have "\<exists>rm'. convert_contents env tool_calls cs (push_content (converted_content env c) rm) = Inr rm'
      \<and> rb_content rm' = rb_content (push_content (converted_content env c) rm) @ map (converted_content env) cs"
    using Cons.prems by (intro Cons.IH) auto
  ultimately show ?case by (auto simp: push_content_def)
qed simp

lemma find_parsed:
  assumes "keeps_ids (te_repair env)" and "distinct (map rtc_tool_call_id (raw_calls cs))" and "GCToolCall raw \<in> set cs"
  shows "find (\<lambda>p. ttc_id p = rtc_tool_call_id raw) (parse_calls env cs) = Some (parsed_call env raw)"
proof -
  have ids: "ttc_id (parsed_call env r) = rtc_tool_call_id r" for r by (simp add: parsed_call_def parse_tool_call_id assms(1))
  have calls: "parse_calls env cs = map (parsed_call env) (raw_calls cs)" by (simp add: parse_calls_def parsed_call_def)
  have "map ttc_id (parse_calls env cs) = map rtc_tool_call_id (raw_calls cs)" by (simp add: calls ids)
  moreover have "parsed_call env raw \<in> set (parse_calls env cs)" using assms(3) by (simp add: calls set_raw_calls)
  ultimately show ?thesis using find_distinct [of ttc_id "parse_calls env cs" "parsed_call env raw"] assms(2) by (simp add: ids)
qed

lemma convert_generated_plain:
  assumes "keeps_ids (te_repair env)" and "distinct (map rtc_tool_call_id (raw_calls cs))" and "list_all (plain_content env) cs"
  shows "convert_generated_content env menv cs (parse_calls env cs)
    = Inr (rb_finish menv (new_builder\<lparr>rb_content := map (converted_content env) cs\<rparr>))"
proof -
  obtain rm where rm: "convert_contents env (parse_calls env cs) cs new_builder = Inr rm" "rb_content rm = map (converted_content env) cs"
    using convert_plains [of env cs "parse_calls env cs" new_builder] find_parsed [OF assms(1,2)] assms(3)
    by (auto simp: new_builder_def)
  have "invalid_tool_call_error call = None" if "call \<in> set (parse_calls env cs)" for call
    using that assms(3) by (fastforce simp: parse_calls_def set_raw_calls list_all_iff simp flip: parsed_call_def)
  then have "fold add_tool_error (filter (\<lambda>call. ttc_dynamic call = Some True) (parse_calls env cs)) rm = rm"
    by (intro fold_invariant [where Q = "\<lambda>c. invalid_tool_call_error c = None" and P = "\<lambda>x. x = rm"]) (auto simp: add_tool_error_def)
  then show ?thesis using rm by (simp add: convert_generated_content_def rb_finish_def)
qed

subsection \<open>The streamed way\<close>

fun feed_parts :: "'m text_env \<Rightarrow> nat \<Rightarrow> stream_part list \<Rightarrow> text_state \<Rightarrow> text_stream_part list \<times> text_state" where
  "feed_parts env t [] st = ([], st)"
| "feed_parts env t (p # ps) st =
     (let (outs, st') = consume_part env t p st; (outs', st'') = feed_parts env t ps st' in (outs @ outs', st''))"

lemma text_parts_feed:
  "text_parts env (map (\<lambda>p. Received t (Inr p)) ps @ evs) st =
     map Inr (fst (feed_parts env t ps st)) @ text_parts env evs (snd (feed_parts env t ps st))"
  by (induction ps arbitrary: st) (simp_all add: case_prod_beta Let_def)

lemma feed_parts_append:
  "feed_parts env t (ps @ qs) st = (fst (feed_parts env t ps st) @ fst (feed_parts env t qs (snd (feed_parts env t ps st))),
     snd (feed_parts env t qs (snd (feed_parts env t ps st))))"
  by (induction ps arbitrary: st) (simp_all add: case_prod_beta Let_def)

text \<open>No segment is open under the id.\<close>

definition closed_id :: "string \<Rightarrow> streamed_content option \<Rightarrow> bool" where
  "closed_id i sc \<longleftrightarrow> (\<forall>c. sc = Some c \<longrightarrow> sc_text c i = None \<and> sc_reasoning c i = None)"

text \<open>Observing a content's parts adds it to the streamed content.\<close>

lemma observe_content:
  assumes "sc_text sc i = None" and "sc_reasoning sc i = None"
  shows "fold observe (content_stream i c) sc = push_generated c sc"
proof (cases c)
  case (GCText t md)
  have "(sc_text sc)(i := None) = sc_text sc" using assms by auto
  then show ?thesis using assms by (cases sc) (simp add: GCText upsert_text_def push_generated_def unwrap_or_def)
next
  case (GCReasoning r)
  have "(sc_reasoning sc)(i := None) = sc_reasoning sc" using assms by auto
  then show ?thesis using assms by (cases sc; cases r) (simp add: GCReasoning upsert_reasoning_def push_generated_def unwrap_or_def)
qed (simp_all add: push_generated_def)

lemma closed_push: "closed_id i sc \<Longrightarrow> closed_id i (map_option (push_generated c) sc)"
  by (auto simp: closed_id_def push_generated_def)

text \<open>Parts that pass with the state's content only observed and the calls kept.\<close>

lemma consume_part_content:
  assumes "\<not> is_stream_start part" and "\<not> is_finish_part (Inr part)"
  shows "ts_content (snd (consume_part env t part st)) = map_option (observe part) (ts_content st)"
proof -
  have "ts_content (snd (part_outputs env t part st')) = ts_content st'" for st'
    using assms(2) by (cases part) (auto simp: part_outputs_def Let_def)
  then show ?thesis using assms(1) by (simp add: consume_part_opened open_step_def)
qed

lemma feed_content_observed:
  assumes "list_all (\<lambda>p. \<not> is_stream_start p \<and> \<not> is_finish_part (Inr p)) ps"
  shows "ts_content (snd (feed_parts env t ps st)) = map_option (fold observe ps) (ts_content st)"
  using assms
proof (induction ps arbitrary: st)
  case (Cons p ps)
  then show ?case
    using consume_part_content [of p env t st] by (simp add: case_prod_beta Let_def option.map_comp comp_def)
qed (simp add: option.map_id)

lemma content_stream_parts: "list_all (\<lambda>p. \<not> is_stream_start p \<and> \<not> is_finish_part (Inr p)) (content_stream i c)"
  by (cases c) simp_all

lemma feed_content_collected:
  assumes "closed_id i (ts_content st)"
  shows "ts_content (snd (feed_parts env t (content_stream i c) st)) = map_option (push_generated c) (ts_content st)"
  using assms observe_content [of _ i c] by (auto simp: feed_content_observed [OF content_stream_parts] closed_id_def intro!: option.map_cong)

text \<open>Opening the step adds no content and no failure.\<close>

lemma open_step_silent:
  "stream_events (map Inr (fst (open_step env t part st))) = []"
  "\<not> list_ex is_failure (map Inr (fst (open_step env t part st)))"
  "ts_tool_calls (snd (open_step env t part st)) = ts_tool_calls st"
  "active_text (snd (open_step env t part st)) = active_text st"
  "active_reasoning (snd (open_step env t part st)) = active_reasoning st"
  by (simp_all add: open_step_def)

definition quiet :: "'m text_env \<Rightarrow> nat \<Rightarrow> stream_part list \<Rightarrow> text_state \<Rightarrow> builder_event list \<Rightarrow> (string \<times> typed_tool_call) list \<Rightarrow> bool" where
  "quiet env t ps st evs calls \<longleftrightarrow>
     stream_events (map Inr (fst (feed_parts env t ps st))) = evs
     \<and> \<not> list_ex is_failure (map Inr (fst (feed_parts env t ps st)))
     \<and> ts_tool_calls (snd (feed_parts env t ps st)) = calls"

lemma stream_events_append [simp]: "stream_events (xs @ ys) = stream_events xs @ stream_events ys"
  by (simp add: stream_events_def map_filter_def)

definition call_entries :: "'m text_env \<Rightarrow> generate_content \<Rightarrow> (string \<times> typed_tool_call) list" where
  "call_entries env c = (case c of GCToolCall raw \<Rightarrow> [(ttc_id (parsed_call env raw), parsed_call env raw)] | _ \<Rightarrow> [])"

lemma update_new: "k \<notin> fst ` set kvs \<Longrightarrow> AList.update k v kvs = kvs @ [(k, v)]"
  by (induction kvs) auto

lemma quiet_content:
  assumes "plain_content env c" and "fst ` set (call_entries env c) \<inter> fst ` set (ts_tool_calls st) = {}"
  shows "quiet env t (content_stream i c) st (content_events env i c) (ts_tool_calls st @ call_entries env c)"
proof (cases c)
  case (GCToolCall raw)
  then show ?thesis
    using assms
    by (simp add: quiet_def consume_part_opened open_step_silent part_outputs_def case_prod_beta Let_def tool_call_parts_def
        call_entries_def update_new flip: parsed_call_def)
next
  case (GCFile f)
  then show ?thesis
    using assms by (auto simp: quiet_def consume_part_opened open_step_silent part_outputs_def case_prod_beta Let_def
        resolved_part_def call_entries_def isl_def split: sum.splits)
next
  case (GCReasoningFile f)
  then show ?thesis
    using assms by (auto simp: quiet_def consume_part_opened open_step_silent part_outputs_def case_prod_beta Let_def
        resolved_part_def call_entries_def isl_def split: sum.splits)
qed (use assms in \<open>simp_all add: quiet_def consume_part_opened open_step_silent part_outputs_def case_prod_beta Let_def call_entries_def\<close>)

lemma quiet_append:
  assumes "quiet env t ps st evs calls" and "quiet env t qs (snd (feed_parts env t ps st)) evs' calls'"
  shows "quiet env t (ps @ qs) st (evs @ evs') calls'"
  using assms by (simp add: quiet_def feed_parts_append)

lemma quiet_contents:
  assumes "list_all (plain_content env) cs" and "closed_id i (ts_content st)"
    and "distinct (map fst (ts_tool_calls st @ concat (map (call_entries env) cs)))"
  shows "quiet env t (concat (map (content_stream i) cs)) st (concat (map (content_events env i) cs))
      (ts_tool_calls st @ concat (map (call_entries env) cs))
    \<and> ts_content (snd (feed_parts env t (concat (map (content_stream i) cs)) st))
        = map_option (\<lambda>sc. sc\<lparr>sc_content := sc_content sc @ cs\<rparr>) (ts_content st)"
  using assms
proof (induction cs arbitrary: st)
  case Nil
  have "map_option (\<lambda>sc. sc\<lparr>sc_content := sc_content sc\<rparr>) (ts_content st) = ts_content st"
    by (cases "ts_content st") simp_all
  then show ?case by (simp add: quiet_def)
next
  case (Cons c cs)
  let ?st = "snd (feed_parts env t (content_stream i c) st)"
  have c: "quiet env t (content_stream i c) st (content_events env i c) (ts_tool_calls st @ call_entries env c)"
    using Cons.prems by (intro quiet_content) auto
  have content: "ts_content ?st = map_option (push_generated c) (ts_content st)"
    by (rule feed_content_collected [OF Cons.prems(2)])
  have calls: "ts_tool_calls ?st = ts_tool_calls st @ call_entries env c" using c by (simp add: quiet_def)
  have "quiet env t (concat (map (content_stream i) cs)) ?st (concat (map (content_events env i) cs))
      (ts_tool_calls ?st @ concat (map (call_entries env) cs))
    \<and> ts_content (snd (feed_parts env t (concat (map (content_stream i) cs)) ?st))
        = map_option (\<lambda>sc. sc\<lparr>sc_content := sc_content sc @ cs\<rparr>) (ts_content ?st)"
    using Cons.prems closed_push [OF Cons.prems(2), of c] by (intro Cons.IH) (simp_all add: calls content)
  then show ?case
    using quiet_append [OF c] by (simp add: calls content feed_parts_append option.map_comp comp_def push_generated_def)
qed

text \<open>A loop over parts that neither fail nor end the call.\<close>

fun breaks :: "text_stream_part \<Rightarrow> bool" where
  "breaks (TFinish _ _ _) = True" | "breaks (TAbort _) = True" | "breaks _ = False"

lemma feed_parts_no_breaks: "list_all (\<lambda>p. \<not> breaks p) (fst (feed_parts env t ps st))"
proof (induction ps arbitrary: st)
  case (Cons p ps)
  have "\<not> is_lifecycle q \<Longrightarrow> \<not> breaks q" for q by (cases q) simp_all
  then have "list_all (\<lambda>q. \<not> breaks q) (fst (part_outputs env t p st'))" for st'
    using part_outputs_content [of env t p st'] by (auto simp: list_all_iff)
  then have "list_all (\<lambda>q. \<not> breaks q) (fst (consume_part env t p st))"
    by (cases "is_stream_start p") (simp_all add: consume_part_start consume_part_opened open_step_def)
  then show ?case using Cons by (simp add: case_prod_beta Let_def)
qed simp

lemma consume_unbroken:
  assumes "list_all (\<lambda>p. \<not> breaks p) ps" and "\<not> list_ex is_failure (map Inr ps)"
  shows "\<exists>s'. consume_loop env (map Inr ps @ rest) s = consume_loop env rest s' \<and> cs_first_error s' = cs_first_error s"
  using assms
proof (induction ps arbitrary: s)
  case (Cons p ps)
  obtain s1 where "consume_text_part env p s = (s1, False)" "cs_first_error s1 = cs_first_error s"
    using Cons.prems by (cases p) (auto simp: update_rm_def record_step_def Let_def)
  then show ?case using Cons.IH [of s1] Cons.prems by simp
qed auto

lemma consume_keeps_error: "consume_loop env (map Inr ps) s = Inr s' \<Longrightarrow> cs_first_error s = Some e \<Longrightarrow> cs_first_error s' = Some e"
proof (induction ps arbitrary: s)
  case (Cons p ps)
  have "cs_first_error (fst (consume_text_part env p s)) = Some e"
    using Cons.prems(2) by (cases p) (simp_all add: update_rm_def record_step_def Let_def note_error_def)
  then show ?case using Cons by (cases "consume_text_part env p s") (auto split: if_splits)
qed simp

lemma consume_loop_parts: "\<exists>s'. consume_loop env (map Inr ps) s = Inr s'"
  by (induction ps arbitrary: s) (simp_all add: case_prod_beta Let_def)

lemma consume_first_failure:
  assumes "list_all (\<lambda>p. \<not> breaks p) ps" and "\<not> list_ex is_failure (map Inr ps)"
  shows "consume env (map Inr (ps @ TError e # qs)) = Inl e"
proof -
  obtain s where s: "consume_loop env (map Inr ps @ map Inr (TError e # qs)) new_consume_state = consume_loop env (map Inr (TError e # qs)) s"
      "cs_first_error s = None"
    using consume_unbroken [OF assms, of env "map Inr (TError e # qs)" new_consume_state] by (auto simp: new_consume_state_def)
  obtain s' where s': "consume_loop env (map Inr qs) (note_error e s) = Inr s'" using consume_loop_parts by blast
  then have "cs_first_error s' = Some e" by (rule consume_keeps_error) (simp add: note_error_def s(2))
  then show ?thesis using s(1) s' by (simp add: consume_def)
qed

subsection \<open>Agreement\<close>

definition answer_events :: "nat \<Rightarrow> string \<Rightarrow> generate_result \<Rightarrow> consumer_event list" where
  "answer_events t i result = map (\<lambda>p. Received t (Inr p))
     (StreamStart (gr_warnings result) # concat (map (content_stream i) (gr_content result)) @
      [Finish (gr_finish_reason result) (gr_usage result) (gr_provider_metadata result)])"

definition violation :: "'m text_env \<Rightarrow> generate_result \<Rightarrow> aimux_error option" where
  "violation env result = tool_choice_violation (te_tool_choice env) (map ttc_name (parse_calls env (gr_content result)))
     (unified (gr_finish_reason result)) (te_provider env) (te_model_id env) (gr_content result)"

text \<open>Two steps that carry the same answer.\<close>

definition same_answer :: "step_result \<Rightarrow> step_result \<Rightarrow> bool" where
  "same_answer s g \<longleftrightarrow> sre_content s = sre_content g \<and> sr_messages (sre_response s) = sr_messages (sre_response g)
     \<and> sre_finish_reason s = sre_finish_reason g \<and> sre_raw_finish_reason s = sre_raw_finish_reason g
     \<and> sre_usage s = sre_usage g \<and> sre_provider_metadata s = sre_provider_metadata g"

lemma call_entries_ids:
  "keeps_ids (te_repair env) \<Longrightarrow> map fst (concat (map (call_entries env) cs)) = map rtc_tool_call_id (raw_calls cs)"
  by (induction cs) (auto simp: raw_calls_Cons call_entries_def parsed_call_def parse_tool_call_id raw_calls_def map_filter_simps
      split: generate_content.splits)

lemma call_entries_names:
  "map (ttc_name \<circ> snd) (concat (map (call_entries env) cs)) = map ttc_name (parse_calls env cs)"
  by (induction cs) (auto simp: raw_calls_Cons call_entries_def parsed_call_def parse_calls_def raw_calls_def map_filter_simps
      split: generate_content.splits)

text \<open>The state after the content, and what the finish part adds.\<close>

lemma content_fed:
  fixes env :: "'m text_env"
  assumes "keeps_ids (te_repair env)" and "distinct (map rtc_tool_call_id (raw_calls cs))" and "list_all (plain_content env) cs"
  shows "\<exists>outs st. feed_parts env t (StreamStart ws # concat (map (content_stream i) cs)) (new_text_state env now response) = (outs, st)
    \<and> stream_events (map Inr outs) = concat (map (content_events env i) cs) \<and> \<not> list_ex is_failure (map Inr outs)
    \<and> list_all (\<lambda>p. \<not> breaks p) outs
    \<and> map (ttc_name \<circ> snd) (ts_tool_calls st) = map ttc_name (parse_calls env cs)
    \<and> (case ts_content st of Some sc \<Rightarrow> sc_content sc = cs | None \<Rightarrow> \<not> needs_streamed_content (te_tool_choice env))"
proof -
  let ?st0 = "new_text_state env now response" and ?ps = "concat (map (content_stream i) cs)"
  let ?st1 = "?st0\<lparr>ts_step := (ts_step ?st0)\<lparr>ss_warnings := ws\<rparr>\<rparr>"
  have start: "feed_parts env t (StreamStart ws # ?ps) ?st0 = feed_parts env t ?ps ?st1"
    by (simp add: consume_part_def part_outputs_def case_prod_beta)
  have calls: "ts_tool_calls ?st1 = []" by (simp add: new_text_state_def)
  obtain outs st where fed: "feed_parts env t ?ps ?st1 = (outs, st)" by fastforce
  have "quiet env t ?ps ?st1 (concat (map (content_events env i) cs)) (ts_tool_calls ?st1 @ concat (map (call_entries env) cs))
    \<and> ts_content (snd (feed_parts env t ?ps ?st1)) = map_option (\<lambda>sc. sc\<lparr>sc_content := sc_content sc @ cs\<rparr>) (ts_content ?st1)"
    using assms(2,3)
    by (intro quiet_contents)
      (simp_all add: calls call_entries_ids [OF assms(1)] closed_id_def new_text_state_def default_streamed_content_def)
  then have q: "stream_events (map Inr outs) = concat (map (content_events env i) cs)" "\<not> list_ex is_failure (map Inr outs)"
      "ts_tool_calls st = concat (map (call_entries env) cs)"
      "ts_content st = map_option (\<lambda>sc. sc\<lparr>sc_content := sc_content sc @ cs\<rparr>) (ts_content ?st1)"
    by (simp_all add: quiet_def fed calls)
  have "case ts_content st of Some sc \<Rightarrow> sc_content sc = cs | None \<Rightarrow> \<not> needs_streamed_content (te_tool_choice env)"
    by (simp add: q(4) new_text_state_def default_streamed_content_def)
  moreover have "list_all (\<lambda>p. \<not> breaks p) outs" using feed_parts_no_breaks [of env t ?ps ?st1] by (simp add: fed)
  ultimately show ?thesis
    unfolding start fed using q(1,2) call_entries_names [of env cs] by (intro exI conjI) (simp_all add: q(3))
qed

lemma no_violation_needed:
  "\<not> needs_streamed_content choice \<Longrightarrow> tool_choice_violation choice names r provider m content = None"
  by (auto simp: needs_streamed_content_def tool_choice_violation_def split: option.splits language_model_v4_tool_choice.splits)

lemma answer_stream:
  fixes env :: "'m text_env"
  assumes "keeps_ids (te_repair env)" and "distinct (map rtc_tool_call_id (raw_calls (gr_content result)))"
    and "list_all (plain_content env) (gr_content result)"
  shows "\<exists>outs md perf. list_all (\<lambda>p. \<not> breaks p) outs \<and> \<not> list_ex is_failure (map Inr outs)
    \<and> stream_events (map Inr outs) = concat (map (content_events env i) (gr_content result))
    \<and> text_stream env now response (answer_events t i result @ [ChannelEnd now' stamp]) =
        map Inr (outs @ (case violation env result of None \<Rightarrow> [] | Some e \<Rightarrow> [TError e]) @
          (let r = (if violation env result = None then unified (gr_finish_reason result) else FinishError);
               u = as_language_model_usage (gr_usage result)
           in [FinishStep md u perf r (fr_raw (gr_finish_reason result)) (gr_provider_metadata result),
               TFinish r (fr_raw (gr_finish_reason result)) (add_language_model_usage default_language_model_usage u)]))"
proof -
  let ?fin = "Finish (gr_finish_reason result) (gr_usage result) (gr_provider_metadata result)"
  obtain outs st where fed: "feed_parts env t (StreamStart (gr_warnings result) # concat (map (content_stream i) (gr_content result)))
        (new_text_state env now response) = (outs, st)"
      and outs: "stream_events (map Inr outs) = concat (map (content_events env i) (gr_content result))"
        "\<not> list_ex is_failure (map Inr outs)" "list_all (\<lambda>p. \<not> breaks p) outs"
      and names: "map (ttc_name \<circ> snd) (ts_tool_calls st) = map ttc_name (parse_calls env (gr_content result))"
      and content: "case ts_content st of Some sc \<Rightarrow> sc_content sc = gr_content result
        | None \<Rightarrow> \<not> needs_streamed_content (te_tool_choice env)"
    using content_fed [OF assms] by blast
  let ?st = "snd (open_step env t ?fin st)"
  have vio: "tool_choice_violation (te_tool_choice env) (map (ttc_name \<circ> snd) (ts_tool_calls ?st)) (unified (gr_finish_reason result))
      (te_provider env) (te_model_id env) (case ts_content ?st of Some sc \<Rightarrow> sc_content sc | None \<Rightarrow> []) = violation env result"
    using content by (cases "ts_content st") (simp_all add: open_step_def violation_def names no_violation_needed)
  have "text_stream env now response (answer_events t i result @ [ChannelEnd now' stamp]) =
      map Inr (TStart # outs @ fst (consume_part env t ?fin st) @ end_parts env now' stamp (snd (consume_part env t ?fin st)))"
    using text_parts_feed [of env t "StreamStart (gr_warnings result) # concat (map (content_stream i) (gr_content result))"
        "[Received t (Inr ?fin), ChannelEnd now' stamp]" "new_text_state env now response"]
    by (simp add: text_stream_def answer_events_def fed case_prod_beta del: feed_parts.simps text_parts.simps(5))
      (simp add: case_prod_beta)
  moreover have "fst (consume_part env t ?fin st) = fst (open_step env t ?fin st) @ (case violation env result of None \<Rightarrow> [] | Some e \<Rightarrow> [TError e])"
    by (simp add: consume_part_opened part_outputs_def finish_parts_def vio Let_def cong: option.case_cong)
  moreover have "\<exists>md perf. end_parts env now' stamp (snd (consume_part env t ?fin st)) =
      (let r = (if violation env result = None then unified (gr_finish_reason result) else FinishError);
           u = as_language_model_usage (gr_usage result)
       in [FinishStep md u perf r (fr_raw (gr_finish_reason result)) (gr_provider_metadata result),
           TFinish r (fr_raw (gr_finish_reason result)) (add_language_model_usage default_language_model_usage u)])"
    by (simp add: consume_part_opened part_outputs_def finish_parts_def vio Let_def end_parts_def into_parts_def finish_stream_step_def)
  ultimately show ?thesis
    using outs open_step_silent(1,2) [of env t ?fin st]
    by (intro exI [of _ "TStart # outs @ fst (open_step env t ?fin st)"]) (auto simp: open_step_def)
qed



end
