(* ===== verification/Ip_Address.thy ===== *)
theory Ip_Address
  imports Prelude
begin

text \<open>
  The part of \<open>std::net\<close> the download guard uses: IP addresses, the parser of \<open>IpAddr::from_str\<close> and the
  \<open>Display\<close> form of addresses.
\<close>

section \<open>Addresses\<close>

datatype ip_addr = V4 u8 u8 u8 u8 | V6 u16 u16 u16 u16 u16 u16 u16 u16

definition v6_of_list :: "u16 list \<Rightarrow> ip_addr option" where
  "v6_of_list gs = (case gs of
     [a, b, c, d, e, f, g, h] \<Rightarrow> Some (V6 a b c d e f g h) | _ \<Rightarrow> None)"

section \<open>Parsing\<close>

text \<open>\<open>char::to_digit\<close> and the reader of a number with at most \<open>max_digits\<close> digits.\<close>

definition to_digit :: "nat \<Rightarrow> char \<Rightarrow> nat option" where
  "to_digit radix c =
     (let n = of_char c :: nat;
          d = (if 48 \<le> n \<and> n \<le> 57 then n - 48
               else if 97 \<le> n \<and> n \<le> 122 then n - 97 + 10
               else if 65 \<le> n \<and> n \<le> 90 then n - 65 + 10 else 36)
      in if d < radix then Some d else None)"

definition is_digit :: "nat \<Rightarrow> char \<Rightarrow> bool" where
  "is_digit radix c \<longleftrightarrow> to_digit radix c \<noteq> None"

definition read_number :: "nat \<Rightarrow> nat \<Rightarrow> bool \<Rightarrow> nat \<Rightarrow> string \<Rightarrow> (nat \<times> string) option" where
  "read_number radix max_digits allow_zero_prefix bound s =
     (let ds = takeWhile (is_digit radix) s;
          v = foldl (\<lambda>r c. r * radix + the (to_digit radix c)) 0 ds
      in if ds = [] \<or> length ds > max_digits
            \<or> \<not> allow_zero_prefix \<and> hd ds = CHR ''0'' \<and> length ds > 1 \<or> v \<ge> bound
         then None else Some (v, dropWhile (is_digit radix) s))"

fun read_given_char :: "char \<Rightarrow> string \<Rightarrow> string option" where
  "read_given_char c [] = None"
| "read_given_char c (x # xs) = (if x = c then Some xs else None)"

definition read_octet :: "string \<Rightarrow> (u8 \<times> string) option" where
  "read_octet s = (case read_number 10 3 False 256 s of
     None \<Rightarrow> None | Some (v, r) \<Rightarrow> Some (of_nat v, r))"

definition read_dot_octet :: "string \<Rightarrow> (u8 \<times> string) option" where
  "read_dot_octet s = (case read_given_char CHR ''.'' s of None \<Rightarrow> None | Some r \<Rightarrow> read_octet r)"

definition read_ipv4_addr :: "string \<Rightarrow> ((u8 \<times> u8 \<times> u8 \<times> u8) \<times> string) option" where
  "read_ipv4_addr s = (case read_octet s of None \<Rightarrow> None | Some (a, r) \<Rightarrow>
     (case read_dot_octet r of None \<Rightarrow> None | Some (b, r) \<Rightarrow>
     (case read_dot_octet r of None \<Rightarrow> None | Some (c, r) \<Rightarrow>
     (case read_dot_octet r of None \<Rightarrow> None | Some (d, r) \<Rightarrow> Some ((a, b, c, d), r)))))"

definition read_separator :: "nat \<Rightarrow> string \<Rightarrow> string option" where
  "read_separator i s = (if i = 0 then Some s else read_given_char CHR '':'' s)"

text \<open>
  \<open>read_groups\<close>: up to \<open>remaining\<close> groups starting with index \<open>i\<close>, and whether an embedded IPv4
  address ended them.
\<close>

fun read_groups :: "nat \<Rightarrow> nat \<Rightarrow> string \<Rightarrow> u16 list \<times> bool \<times> string" where
  "read_groups 0 i s = ([], False, s)"
| "read_groups (Suc k) i s =
     (case (if k > 0 then (case read_separator i s of None \<Rightarrow> None | Some r \<Rightarrow> read_ipv4_addr r) else None) of
        Some ((a, b, c, d), r) \<Rightarrow>
          ([of_nat (unat a * 256 + unat b), of_nat (unat c * 256 + unat d)], True, r)
      | None \<Rightarrow>
          (case (case read_separator i s of None \<Rightarrow> None | Some r \<Rightarrow> read_number 16 4 True 65536 r) of
             Some (g, r) \<Rightarrow> (case read_groups k (Suc i) r of (gs, v4, r') \<Rightarrow> (of_nat g # gs, v4, r'))
           | None \<Rightarrow> ([], False, s)))"

definition read_ipv6_addr :: "string \<Rightarrow> (u16 list \<times> string) option" where
  "read_ipv6_addr s =
     (case read_groups 8 0 s of (hd_gs, hd_v4, r) \<Rightarrow>
        if length hd_gs = 8 then Some (hd_gs, r)
        else if hd_v4 then None
        else (case read_given_char CHR '':'' r of None \<Rightarrow> None | Some r1 \<Rightarrow>
               (case read_given_char CHR '':'' r1 of None \<Rightarrow> None | Some r2 \<Rightarrow>
                  (case read_groups (7 - length hd_gs) 0 r2 of (tl_gs, _, r3) \<Rightarrow>
                     Some (hd_gs @ replicate (8 - length hd_gs - length tl_gs) 0 @ tl_gs, r3)))))"

definition parse_ip :: "string \<Rightarrow> ip_addr option" where
  "parse_ip s = (case read_ipv4_addr s of
     Some ((a, b, c, d), []) \<Rightarrow> Some (V4 a b c d)
   | _ \<Rightarrow> (case read_ipv6_addr s of
        Some (gs, []) \<Rightarrow> v6_of_list gs | _ \<Rightarrow> None))"

section \<open>Display\<close>

definition show_v4 :: "u8 \<Rightarrow> u8 \<Rightarrow> u8 \<Rightarrow> u8 \<Rightarrow> string" where
  "show_v4 a b c d = join (map (\<lambda>x. show_nat (unat x)) [a, b, c, d]) ''.''"

definition hex_char :: "nat \<Rightarrow> char" where
  "hex_char d = char_of (if d < 10 then 48 + d else 87 + d)"

fun show_hex :: "nat \<Rightarrow> string" where
  "show_hex n = (if n < 16 then [hex_char n] else show_hex (n div 16) @ [hex_char (n mod 16)])"

declare show_hex.simps [simp del]

text \<open>The longest run of zero groups (the first one of that length): its start and its length.\<close>

fun longest_zeroes :: "nat \<Rightarrow> nat \<times> nat \<Rightarrow> nat \<times> nat \<Rightarrow> u16 list \<Rightarrow> nat \<times> nat" where
  "longest_zeroes i cur best [] = best"
| "longest_zeroes i (cs, cl) (bs, bl) (g # gs) =
     (if g = 0
      then (let cs' = (if cl = 0 then i else cs); cl' = cl + 1
            in longest_zeroes (Suc i) (cs', cl') (if cl' > bl then (cs', cl') else (bs, bl)) gs)
      else longest_zeroes (Suc i) (0, 0) (bs, bl) gs)"

definition show_groups :: "u16 list \<Rightarrow> string" where
  "show_groups gs = join (map (\<lambda>g. show_hex (unat g)) gs) '':''"

fun show_ip :: "ip_addr \<Rightarrow> string" where
  "show_ip (V4 a b c d) = show_v4 a b c d"
| "show_ip (V6 a b c d e f g h) =
     (if a = 0 \<and> b = 0 \<and> c = 0 \<and> d = 0 \<and> e = 0 \<and> f = 0xffff
      then ''::ffff:'' @ show_v4 (ucast (drop_bit 8 g)) (ucast g) (ucast (drop_bit 8 h)) (ucast h)
      else (let gs = [a, b, c, d, e, f, g, h];
                (start, n) = longest_zeroes 0 (0, 0) (0, 0) gs
            in if n > 1 then show_groups (take start gs) @ ''::'' @ show_groups (drop (start + n) gs)
               else show_groups gs))"

section \<open>The parser ignores the case of letters\<close>

abbreviation low :: "('a \<times> string) option \<Rightarrow> ('a \<times> string) option" where
  "low x \<equiv> map_option (map_prod (\<lambda>v. v) (map ascii_lower)) x"

lemma of_char_ascii_lower:
  "(of_char (ascii_lower c) :: nat) = (if 65 \<le> (of_char c :: nat) \<and> (of_char c :: nat) \<le> 90 then of_char c + 32 else of_char c)"
  by (simp add: ascii_lower_def Let_def)

lemma to_digit_lower [simp]: "to_digit radix (ascii_lower c) = to_digit radix c"
  by (simp add: to_digit_def Let_def of_char_ascii_lower)

lemma is_digit_lower [simp]: "is_digit radix (ascii_lower c) = is_digit radix c"
  by (simp add: is_digit_def)

lemma ascii_lower_eq_symbol:
  assumes "(of_char x :: nat) < 65 \<or> (of_char x :: nat) \<in> {91..96}"
  shows "ascii_lower c = x \<longleftrightarrow> c = x"
proof -
  have "ascii_lower c = x \<longleftrightarrow> (of_char (ascii_lower c) :: nat) = of_char x" by simp
  also have "\<dots> \<longleftrightarrow> (of_char c :: nat) = of_char x" using assms by (auto simp: of_char_ascii_lower)
  finally show ?thesis by simp
qed

lemma read_given_char_lower:
  "(of_char x :: nat) < 65 \<Longrightarrow> read_given_char x (map ascii_lower s) = map_option (map ascii_lower) (read_given_char x s)"
  by (cases s) (simp_all add: ascii_lower_eq_symbol)

lemma read_number_lower: "read_number radix m z b (map ascii_lower s) = low (read_number radix m z b s)"
proof -
  let ?ds = "takeWhile (is_digit radix) s"
  have tk: "takeWhile (is_digit radix) (map ascii_lower s) = map ascii_lower ?ds"
    by (simp add: takeWhile_map comp_def)
  have dr: "dropWhile (is_digit radix) (map ascii_lower s) = map ascii_lower (dropWhile (is_digit radix) s)"
    by (simp add: dropWhile_map comp_def)
  have hd: "?ds \<noteq> [] \<Longrightarrow> hd (map ascii_lower ?ds) = CHR ''0'' \<longleftrightarrow> hd ?ds = CHR ''0''"
    by (simp add: hd_map ascii_lower_eq_symbol)
  have "foldl (\<lambda>r c. r * radix + the (to_digit radix c)) 0 (map ascii_lower ?ds)
      = foldl (\<lambda>r c. r * radix + the (to_digit radix c)) 0 ?ds"
    by (simp add: foldl_map)
  then show ?thesis using hd by (auto simp: read_number_def tk dr Let_def)
qed

lemma read_octet_lower: "read_octet (map ascii_lower s) = low (read_octet s)"
  by (simp add: read_octet_def read_number_lower split: option.split)

lemma read_dot_octet_lower: "read_dot_octet (map ascii_lower s) = low (read_dot_octet s)"
  by (simp add: read_dot_octet_def read_given_char_lower read_octet_lower split: option.split)

lemma read_ipv4_lower: "read_ipv4_addr (map ascii_lower s) = low (read_ipv4_addr s)"
  by (simp add: read_ipv4_addr_def read_octet_lower read_dot_octet_lower split: option.split)

lemma read_separator_lower: "read_separator i (map ascii_lower s) = map_option (map ascii_lower) (read_separator i s)"
  by (simp add: read_separator_def read_given_char_lower)

lemma read_groups_lower:
  "read_groups k i (map ascii_lower s) = (case read_groups k i s of (gs, v4, r) \<Rightarrow> (gs, v4, map ascii_lower r))"
proof (induction k arbitrary: i s)
  case (Suc k)
  show ?case
    by (cases "read_separator i s"; cases "read_ipv4_addr (the (read_separator i s))";
        cases "read_number 16 4 True 65536 (the (read_separator i s))")
       (auto simp: read_separator_lower read_ipv4_lower read_number_lower Suc split: prod.splits)
qed simp

lemma read_ipv6_lower: "read_ipv6_addr (map ascii_lower s) = low (read_ipv6_addr s)"
  by (auto simp: read_ipv6_addr_def read_groups_lower read_given_char_lower split: prod.splits option.splits)

lemma parse_ip_lower: "parse_ip (to_ascii_lowercase s) = parse_ip s"
  by (auto simp: parse_ip_def to_ascii_lowercase_def read_ipv4_lower read_ipv6_lower
      split: option.splits prod.splits list.splits)

section \<open>An address does not end with a dot\<close>

definition consumes :: "string \<Rightarrow> string \<Rightarrow> bool" where
  "consumes s r \<longleftrightarrow> (\<exists>c. s = c @ r \<and> c \<noteq> [] \<and> last c \<noteq> CHR ''.'')"

lemma consumes_trans: "s = c @ t \<Longrightarrow> consumes t r \<Longrightarrow> consumes s r"
  by (auto simp: consumes_def)

lemma read_number_consumes: "read_number radix m z b s = Some (v, r) \<Longrightarrow> radix \<le> 16 \<Longrightarrow> consumes s r"
proof -
  assume n: "read_number radix m z b s = Some (v, r)" and "radix \<le> 16"
  let ?ds = "takeWhile (is_digit radix) s"
  have "?ds \<noteq> []" "r = dropWhile (is_digit radix) s"
    using n by (auto simp: read_number_def Let_def split: if_splits)
  moreover have "is_digit radix (last ?ds)" if "?ds \<noteq> []"
    using that by (metis last_in_set set_takeWhileD)
  moreover have "\<not> is_digit radix CHR ''.''" using \<open>radix \<le> 16\<close> by (simp add: is_digit_def to_digit_def)
  ultimately show "consumes s r" unfolding consumes_def by (metis takeWhile_dropWhile_id)
qed

lemma read_given_char_Some: "read_given_char c s = Some r \<Longrightarrow> s = [c] @ r"
  by (cases s) (auto split: if_splits)

lemma read_octet_consumes: "read_octet s = Some (v, r) \<Longrightarrow> consumes s r"
  by (auto simp: read_octet_def dest: read_number_consumes split: option.splits)

lemma read_dot_octet_consumes: "read_dot_octet s = Some (v, r) \<Longrightarrow> consumes s r"
  by (auto simp: read_dot_octet_def split: option.splits
      dest!: read_given_char_Some read_octet_consumes intro: consumes_trans [of _ "[CHR ''.'']"])

lemma read_ipv4_consumes: "read_ipv4_addr s = Some (v, r) \<Longrightarrow> consumes s r"
  by (auto simp: read_ipv4_addr_def split: option.splits dest!: read_octet_consumes read_dot_octet_consumes)
     (auto simp: consumes_def)

lemma read_separator_Some: "read_separator i s = Some r \<Longrightarrow> \<exists>c. s = c @ r"
  by (auto simp: read_separator_def split: if_splits dest: read_given_char_Some)

lemma read_groups_consumes:
  "read_groups k i s = (gs, v4, r) \<Longrightarrow> r = s \<or> consumes s r"
proof (induction k arbitrary: i s gs v4 r)
  case (Suc k)
  show ?case
  proof (cases "read_separator i s")
    case None
    then show ?thesis using Suc.prems by (auto split: if_splits)
  next
    case (Some t)
    then obtain c where c: "s = c @ t" using read_separator_Some by blast
    show ?thesis
    proof (cases "\<exists>v r'. k > 0 \<and> read_ipv4_addr t = Some (v, r')")
      case True
      then show ?thesis
        using Suc.prems Some consumes_trans [OF c] read_ipv4_consumes by (fastforce split: prod.splits)
    next
      case False
      then have none: "(if k > 0 then read_ipv4_addr t else None) = None" by (cases "read_ipv4_addr t") auto
      show ?thesis
      proof (cases "read_number 16 4 True 65536 t")
        case None
        then show ?thesis using Suc.prems Some none by (auto split: if_splits)
      next
        case (Some gr)
        then obtain g u where g: "read_number 16 4 True 65536 t = Some (g, u)" by (cases gr) auto
        obtain gs' v' where rest: "read_groups k (Suc i) u = (gs', v', r)"
          using Suc.prems \<open>read_separator i s = Some t\<close> none g by (auto split: prod.splits if_splits)
        have "consumes t u" using read_number_consumes [OF g] by simp
        moreover have "r = u \<or> consumes u r" using Suc.IH [OF rest] .
        ultimately have "consumes t r" by (metis consumes_def consumes_trans)
        then show ?thesis using consumes_trans [OF c] by blast
      qed
    qed
  qed
qed simp

lemma read_groups_Nil: "read_groups k i [] = ([], False, [])"
proof -
  have "read_number r m z b [] = None" for r m z b by (simp add: read_number_def)
  then have "read_ipv4_addr [] = None" and "read_number 16 4 True 65536 [] = None"
    by (simp_all add: read_ipv4_addr_def read_octet_def)
  then show ?thesis by (cases k) (auto simp: read_separator_def)
qed

lemma read_ipv6_consumes: "read_ipv6_addr s = Some (gs, []) \<Longrightarrow> s \<noteq> [] \<and> last s \<noteq> CHR ''.''"
proof -
  assume a: "read_ipv6_addr s = Some (gs, [])"
  obtain h v r where h: "read_groups 8 0 s = (h, v, r)" using prod_cases3 by blast
  have hr: "r = s \<or> consumes s r" using read_groups_consumes [OF h] .
  show ?thesis
  proof (cases "length h = 8")
    case True
    then have "r = []" using a h by (simp add: read_ipv6_addr_def)
    moreover have "s \<noteq> []" using True h by (auto simp: read_groups_Nil)
    ultimately show ?thesis using hr by (auto simp: consumes_def)
  next
    case False
    then obtain r1 r2 where r: "read_given_char CHR '':'' r = Some r1" "read_given_char CHR '':'' r1 = Some r2"
      using a h by (auto simp: read_ipv6_addr_def split: if_splits option.splits)
    obtain t w r3 where t: "read_groups (7 - length h) 0 r2 = (t, w, r3)" using prod_cases3 by blast
    then have "r3 = []" using a h r False by (auto simp: read_ipv6_addr_def split: if_splits)
    then have "r2 = [] \<or> consumes r2 []" using read_groups_consumes [OF t] by auto
    then have "consumes r []"
      using read_given_char_Some [OF r(1)] read_given_char_Some [OF r(2)] by (auto simp: consumes_def)
    then show ?thesis using hr by (auto simp: consumes_def)
  qed
qed

lemma parse_ip_no_final_dot:
  assumes "parse_ip s = Some a"
  shows "s \<noteq> [] \<and> last s \<noteq> CHR ''.''"
proof (cases "\<exists>v. read_ipv4_addr s = Some (v, [])")
  case True
  then show ?thesis using read_ipv4_consumes by (force simp: consumes_def)
next
  case False
  then obtain gs where "read_ipv6_addr s = Some (gs, [])"
    using assms by (auto simp: parse_ip_def split: option.splits prod.splits list.splits)
  then show ?thesis by (rule read_ipv6_consumes)
qed

end
