(* ===== verification/Download_Guard.thy ===== *)
theory Download_Guard
  imports Ip_Address Errors
begin

text \<open>
  The guard for downloads of provider-supplied URLs, \<open>src/aimux-core/src/download_guard.rs\<close>: the address
  policy, the checks of a URL and of its resolved addresses, the trusted origin and the header
  policies. The \<open>url\<close> crate is the argument \<open>u\<close>, the system resolver the argument \<open>lookup_host\<close>.
\<close>

unbundle bit_operations_syntax

section \<open>URLs\<close>

text \<open>What the guard uses of the \<open>url\<close> crate, on an opaque type of parsed URLs.\<close>

record 'u url_lib =
  parse_url :: "string \<Rightarrow> source_error + 'u"
  scheme :: "'u \<Rightarrow> string"
  host_str :: "'u \<Rightarrow> string option"
  port_or_known_default :: "'u \<Rightarrow> u16 option"
  without_query_and_userinfo :: "'u \<Rightarrow> 'u"
  url_text :: "'u \<Rightarrow> string"
  join_url :: "'u \<Rightarrow> string \<Rightarrow> source_error + 'u"

definition same_origin :: "'u url_lib \<Rightarrow> string \<Rightarrow> string \<Rightarrow> bool" where
  "same_origin u url origin = (case (parse_url u url, parse_url u origin) of
     (Inr a, Inr b) \<Rightarrow> scheme u a = scheme u b \<and> host_str u a = host_str u b
                      \<and> port_or_known_default u a = port_or_known_default u b
   | _ \<Rightarrow> False)"

definition hop_trusted_origin :: "'u url_lib \<Rightarrow> string option \<Rightarrow> string \<Rightarrow> string option" where
  "hop_trusted_origin u trusted_origin current_url = (case trusted_origin of
     Some origin \<Rightarrow> if same_origin u current_url origin then Some origin else None
   | None \<Rightarrow> None)"

definition redacted :: "'u url_lib \<Rightarrow> 'u \<Rightarrow> string" where
  "redacted u parsed = url_text u (without_query_and_userinfo u parsed)"

definition trim_start :: "char \<Rightarrow> string \<Rightarrow> string" where
  "trim_start c s = dropWhile (\<lambda>x. x = c) s"

definition trim_end :: "char \<Rightarrow> string \<Rightarrow> string" where
  "trim_end c s = rev (dropWhile (\<lambda>x. x = c) (rev s))"

definition host_ip_literal :: "string \<Rightarrow> ip_addr option" where
  "host_ip_literal host = parse_ip (trim_end CHR '']'' (trim_start CHR ''['' host))"

section \<open>The address policy\<close>

fun is_public_v4 :: "u8 \<Rightarrow> u8 \<Rightarrow> u8 \<Rightarrow> bool" where
  "is_public_v4 a b c \<longleftrightarrow>
     \<not> (a = 0
      \<or> a = 10
      \<or> (a = 100 \<and> 64 \<le> b \<and> b \<le> 127)
      \<or> a = 127
      \<or> (a = 169 \<and> b = 254)
      \<or> (a = 172 \<and> 16 \<le> b \<and> b \<le> 31)
      \<or> (a = 192 \<and> b = 0 \<and> (c = 0 \<or> c = 2))
      \<or> (a = 192 \<and> b = 168)
      \<or> (a = 198 \<and> (b = 18 \<or> b = 19))
      \<or> (a = 198 \<and> b = 51 \<and> c = 100)
      \<or> (a = 203 \<and> b = 0 \<and> c = 113)
      \<or> a \<ge> 224)"

definition top_zero :: "u16 list \<Rightarrow> nat \<Rightarrow> bool" where
  "top_zero groups n \<longleftrightarrow> list_all (\<lambda>g. g = 0) (take n groups)"

definition blocked_v6 :: "u16 list \<Rightarrow> bool" where
  "blocked_v6 groups \<longleftrightarrow>
     top_zero groups 7 \<and> (groups ! 7 = 0 \<or> groups ! 7 = 1)
   \<or> groups ! 0 AND 0xfe00 = 0xfc00
   \<or> groups ! 0 AND 0xffc0 = 0xfe80
   \<or> groups ! 0 AND 0xffc0 = 0xfec0
   \<or> groups ! 0 AND 0xff00 = 0xff00
   \<or> (groups ! 0 = 0x2001 \<and> groups ! 1 = 0x0db8)
   \<or> (groups ! 0 = 0x3fff \<and> groups ! 1 AND 0xf000 = 0)"

definition embeds_ipv4 :: "u16 list \<Rightarrow> bool" where
  "embeds_ipv4 groups \<longleftrightarrow>
     top_zero groups 6
   \<or> (top_zero groups 5 \<and> groups ! 5 = 0xffff)
   \<or> (top_zero groups 4 \<and> groups ! 4 = 0xffff \<and> groups ! 5 = 0)
   \<or> (groups ! 0 = 0x0064 \<and> groups ! 1 = 0xff9b \<and> list_all (\<lambda>g. g = 0) (drop 2 (take 6 groups)))
   \<or> (groups ! 0 = 0x0064 \<and> groups ! 1 = 0xff9b \<and> groups ! 2 = 1)"

fun is_public_download_address :: "ip_addr \<Rightarrow> bool" where
  "is_public_download_address (V4 a b c d) = is_public_v4 a b c"
| "is_public_download_address (V6 g0 g1 g2 g3 g4 g5 g6 g7) =
     (let groups = [g0, g1, g2, g3, g4, g5, g6, g7] in
      if blocked_v6 groups then False
      else if \<not> embeds_ipv4 groups then True
      else is_public_v4 (ucast (drop_bit 8 g6)) (ucast g6) (ucast (drop_bit 8 g7)))"

section \<open>Validation\<close>

definition validate_download_url :: "'u url_lib \<Rightarrow> string \<Rightarrow> aimux_error + 'u" where
  "validate_download_url u url = (case parse_url u url of
     Inl e \<Rightarrow> Inl (InvalidArgument (''invalid download URL: '' @ se_message e) (Some (CauseSource e)))
   | Inr parsed \<Rightarrow>
       if scheme u parsed \<noteq> ''http'' \<and> scheme u parsed \<noteq> ''https''
       then Inl (invalid_argument (''download URL must use HTTP or HTTPS: '' @ redacted u parsed))
       else (case host_str u parsed of
          None \<Rightarrow> Inl (invalid_argument ''download URL has no host'')
        | Some host \<Rightarrow>
            let normalized_host = trim_end CHR ''.'' (to_ascii_lowercase host) in
            if normalized_host = ''localhost'' \<or> suffix ''.local'' normalized_host
               \<or> suffix ''.localhost'' normalized_host
            then Inl (invalid_argument (''download URL targets a disallowed hostname: '' @ normalized_host))
            else (case host_ip_literal normalized_host of
               Some address \<Rightarrow>
                 if \<not> is_public_download_address address
                 then Inl (invalid_argument (''download URL targets a non-public address: '' @ show_ip address))
                 else Inr parsed
             | None \<Rightarrow> Inr parsed)))"

fun collect_addresses :: "ip_addr list \<Rightarrow> ip_addr list \<Rightarrow> aimux_error + ip_addr list" where
  "collect_addresses validated [] = Inr validated"
| "collect_addresses validated (address # addresses) =
     (if \<not> is_public_download_address address
      then Inl (invalid_argument (''download URL resolves to a non-public address: '' @ show_ip address))
      else if address \<notin> set validated then collect_addresses (validated @ [address]) addresses
      else collect_addresses validated addresses)"

definition validate_resolved_download_addresses :: "string \<Rightarrow> ip_addr list \<Rightarrow> aimux_error + ip_addr list" where
  "validate_resolved_download_addresses host addresses =
     (if addresses = []
      then Inl (invalid_argument (''download URL host did not resolve to an address: '' @ host))
      else collect_addresses [] addresses)"

definition validate_download_target ::
  "'u url_lib \<Rightarrow> (string \<Rightarrow> u16 \<Rightarrow> source_error + ip_addr list) \<Rightarrow> string \<Rightarrow> string option \<Rightarrow>
   aimux_error + ip_addr list" where
  "validate_download_target u lookup_host url trusted_origin =
     (if (case trusted_origin of Some origin \<Rightarrow> same_origin u url origin | None \<Rightarrow> False) then Inr []
      else (case validate_download_url u url of
         Inl e \<Rightarrow> Inl e
       | Inr parsed \<Rightarrow> (case host_str u parsed of
           None \<Rightarrow> Inl (invalid_argument ''download URL has no host'')
         | Some host \<Rightarrow> (case host_ip_literal host of
             Some address \<Rightarrow> Inr [address]
           | None \<Rightarrow> (case port_or_known_default u parsed of
               None \<Rightarrow> Inl (invalid_argument ''download URL has no known port'')
             | Some port \<Rightarrow> (case lookup_host host port of
                 Inl e \<Rightarrow> Inl (InvalidArgument (''download URL host could not be resolved: '' @ se_message e)
                               (Some (CauseSource e)))
               | Inr addresses \<Rightarrow> validate_resolved_download_addresses host addresses))))))"

section \<open>Headers\<close>

definition BLOCKED :: "string list" where
  "BLOCKED = [''connection'', ''keep-alive'', ''te'', ''trailer'', ''transfer-encoding'', ''upgrade'', ''host'',
     ''forwarded'', ''proxy-authorization'', ''via'', ''x-forwarded-for'', ''x-forwarded-host'',
     ''x-forwarded-proto'', ''x-real-ip'', ''metadata'', ''metadata-flavor'', ''x-aws-ec2-metadata-token'',
     ''x-metadata-token'', ''cookie'', ''set-cookie'']"

definition sanitize_download_headers :: "(string \<times> string) list \<Rightarrow> (string \<times> string) list" where
  "sanitize_download_headers headers =
     filter (\<lambda>(name, _). \<not> list_ex (\<lambda>blocked. eq_ignore_ascii_case name blocked) BLOCKED) headers"

definition retain_user_agent :: "(string \<times> string) list \<Rightarrow> (string \<times> string) list" where
  "retain_user_agent headers =
     (case find (\<lambda>(name, _). eq_ignore_ascii_case name ''user-agent'') headers of
        Some header \<Rightarrow> [header] | None \<Rightarrow> [])"

section \<open>The address policy as blocks\<close>

text \<open>An address block: a base address and a prefix length.\<close>

definition v4_value :: "u8 \<Rightarrow> u8 \<Rightarrow> u8 \<Rightarrow> u8 \<Rightarrow> nat" where
  "v4_value a b c d = unat a * 2 ^ 24 + unat b * 2 ^ 16 + unat c * 2 ^ 8 + unat d"

definition in_block :: "nat \<Rightarrow> nat \<times> nat \<Rightarrow> bool" where
  "in_block x blk = (case blk of (base, prefix_len) \<Rightarrow> x div 2 ^ (32 - prefix_len) = base div 2 ^ (32 - prefix_len))"

text \<open>
  0.0.0.0/8, 10.0.0.0/8, 100.64.0.0/10, 127.0.0.0/8, 169.254.0.0/16, 172.16.0.0/12, 192.0.0.0/24,
  192.0.2.0/24, 192.168.0.0/16, 198.18.0.0/15, 198.51.100.0/24, 203.0.113.0/24 and 224.0.0.0/3.
\<close>

definition reserved_v4_blocks :: "(nat \<times> nat) list" where
  "reserved_v4_blocks =
     [(v4_value 0 0 0 0, 8), (v4_value 10 0 0 0, 8), (v4_value 100 64 0 0, 10), (v4_value 127 0 0 0, 8),
      (v4_value 169 254 0 0, 16), (v4_value 172 16 0 0, 12), (v4_value 192 0 0 0, 24), (v4_value 192 0 2 0, 24),
      (v4_value 192 168 0 0, 16), (v4_value 198 18 0 0, 15), (v4_value 198 51 100 0, 24), (v4_value 203 0 113 0, 24),
      (v4_value 224 0 0 0, 3)]"

lemma v4_div:
  "v4_value a b c d div 2 ^ 24 = unat a"
  "v4_value a b c d div 2 ^ 16 = unat a * 256 + unat b"
  "v4_value a b c d div 2 ^ 8 = unat a * 65536 + unat b * 256 + unat c"
proof -
  have bounds: "unat b < 256" "unat c < 256" "unat d < 256"
    using unsigned_less [of b, where 'a = nat] unsigned_less [of c, where 'a = nat]
      unsigned_less [of d, where 'a = nat] by simp_all
  show 8: "v4_value a b c d div 2 ^ 8 = unat a * 65536 + unat b * 256 + unat c"
    using bounds by (simp add: v4_value_def)
  have "v4_value a b c d div 2 ^ 16 = v4_value a b c d div 2 ^ 8 div 2 ^ 8"
    by (simp add: div_mult2_eq [symmetric])
  then show 16: "v4_value a b c d div 2 ^ 16 = unat a * 256 + unat b"
    unfolding 8 using bounds by simp
  have "v4_value a b c d div 2 ^ 24 = v4_value a b c d div 2 ^ 16 div 2 ^ 8"
    by (simp add: div_mult2_eq [symmetric])
  then show "v4_value a b c d div 2 ^ 24 = unat a" unfolding 16 using bounds by simp
qed

lemma in_block_iff:
  "in_block (v4_value a b c d) (base, 8) \<longleftrightarrow> unat a = base div 2 ^ 24"
  "in_block (v4_value a b c d) (base, 10) \<longleftrightarrow> (unat a * 256 + unat b) div 64 = base div 2 ^ 22"
  "in_block (v4_value a b c d) (base, 12) \<longleftrightarrow> (unat a * 256 + unat b) div 16 = base div 2 ^ 20"
  "in_block (v4_value a b c d) (base, 15) \<longleftrightarrow> (unat a * 256 + unat b) div 2 = base div 2 ^ 17"
  "in_block (v4_value a b c d) (base, 16) \<longleftrightarrow> unat a * 256 + unat b = base div 2 ^ 16"
  "in_block (v4_value a b c d) (base, 24) \<longleftrightarrow> unat a * 65536 + unat b * 256 + unat c = base div 2 ^ 8"
  "in_block (v4_value a b c d) (base, 3) \<longleftrightarrow> unat a div 32 = base div 2 ^ 29"
proof -
  have split: "x div 2 ^ (i + j) = x div 2 ^ i div 2 ^ j" for x i j :: nat
    by (simp add: power_add div_mult2_eq)
  note v = v4_div [of a b c d]
  show "in_block (v4_value a b c d) (base, 8) \<longleftrightarrow> unat a = base div 2 ^ 24"
    and "in_block (v4_value a b c d) (base, 16) \<longleftrightarrow> unat a * 256 + unat b = base div 2 ^ 16"
    and "in_block (v4_value a b c d) (base, 24) \<longleftrightarrow> unat a * 65536 + unat b * 256 + unat c = base div 2 ^ 8"
    using v by (simp_all add: in_block_def)
  show "in_block (v4_value a b c d) (base, 10) \<longleftrightarrow> (unat a * 256 + unat b) div 64 = base div 2 ^ 22"
    using split [of "v4_value a b c d" 16 6] v by (simp add: in_block_def)
  show "in_block (v4_value a b c d) (base, 12) \<longleftrightarrow> (unat a * 256 + unat b) div 16 = base div 2 ^ 20"
    using split [of "v4_value a b c d" 16 4] v by (simp add: in_block_def)
  show "in_block (v4_value a b c d) (base, 15) \<longleftrightarrow> (unat a * 256 + unat b) div 2 = base div 2 ^ 17"
    using split [of "v4_value a b c d" 16 1] v by (simp add: in_block_def)
  show "in_block (v4_value a b c d) (base, 3) \<longleftrightarrow> unat a div 32 = base div 2 ^ 29"
    using split [of "v4_value a b c d" 24 5] v by (simp add: in_block_def)
qed

lemma lex_div: "0 < n \<Longrightarrow> (a * (k * n) + b) div n = a * k + b div n" for a b k n :: nat
  using div_mult_self3 [of n "a * k" b] by (simp add: mult.assoc)

lemma lex_eq:
  fixes x y x' y' n :: nat
  assumes "y < n" and "y' < n"
  shows "x * n + y = x' * n + y' \<longleftrightarrow> x = x' \<and> y = y'"
proof
  assume eq: "x * n + y = x' * n + y'"
  have "(x * n + y) div n = x" "(x' * n + y') div n = x'" "(x * n + y) mod n = y" "(x' * n + y') mod n = y'"
    using assms by simp_all
  then show "x = x' \<and> y = y'" using eq by metis
qed simp

lemma div_nat_eq: "0 < n \<Longrightarrow> x div n = q \<longleftrightarrow> q * n \<le> x \<and> x < Suc q * n" for x n q :: nat
proof -
  assume "0 < n"
  then have "q \<le> x div n \<longleftrightarrow> q * n \<le> x" "x div n < Suc q \<longleftrightarrow> x < Suc q * n"
    by (simp_all add: less_eq_div_iff_mult_less_eq div_less_iff_less_mult del: mult_Suc)
  then show ?thesis by linarith
qed

lemma lex_div_eq:
  assumes "b < k * n" and "q' < k" and "0 < n"
  shows "(a * (k * n) + b) div n = q * k + q' \<longleftrightarrow> a = q \<and> q' * n \<le> b \<and> b < Suc q' * n"
proof -
  have "b div n < k" using assms by (simp add: div_less_iff_less_mult)
  then have "a * k + b div n = q * k + q' \<longleftrightarrow> a = q \<and> b div n = q'" using assms(2) by (rule lex_eq)
  then show ?thesis unfolding lex_div [OF assms(3)] by (simp only: div_nat_eq [OF assms(3)])
qed

lemma high_bits: "w AND NOT (mask n) = push_bit n (drop_bit n w)" for w :: "'a::len word"
  by (rule bit_word_eqI) (auto simp: bit_simps)

lemma high_bits_unat: "unat (w AND NOT (mask n)) = unat w div 2 ^ n * 2 ^ n" for w :: "'a::len word"
proof -
  have le: "unat w div 2 ^ n * 2 ^ n \<le> unat w" by (rule div_times_less_eq_dividend)
  have "unat w div 2 ^ n * 2 ^ n < 2 ^ LENGTH('a)"
    using le unsigned_less [of w, where 'a = nat] by (rule order.strict_trans1)
  moreover have "unat (push_bit n (drop_bit n w)) = take_bit LENGTH('a) (push_bit n (drop_bit n (unat w)))"
    by (simp only: unsigned_push_bit_eq unsigned_drop_bit_eq) (simp add: take_bit_nat_eq_self)
  ultimately show ?thesis
    unfolding high_bits by (simp add: push_bit_eq_mult drop_bit_eq_div take_bit_nat_eq_self)
qed
lemma masks: "(0xfe00 :: u16) = NOT (mask 9)" "(0xffc0 :: u16) = NOT (mask 6)" "(0xff00 :: u16) = NOT (mask 8)"
    "(0xf000 :: u16) = NOT (mask 12)"
  by (simp_all add: mask_eq_exp_minus_1 not_eq_complement)

lemma octets: "ucast (drop_bit 8 (of_nat (unat a * 256 + unat b) :: u16)) = a"
   "ucast (of_nat (unat a * 256 + unat b) :: u16) = b" for a b :: u8
proof -
  have "unat a < 256" "unat b < 256"
    using unsigned_less [of a, where 'a = nat] unsigned_less [of b, where 'a = nat] by simp_all
  then have v: "unat (of_nat (unat a * 256 + unat b) :: u16) = unat a * 256 + unat b"
    by (simp only: unat_of_nat) (simp add: take_bit_nat_eq_self)
  let ?w = "of_nat (unat a * 256 + unat b) :: u16"
  have u: "unat (ucast x :: u8) = unat x mod 256" for x :: u16
    by (simp only: unsigned_ucast_eq) (simp add: take_bit_eq_mod)
  have dr: "unat (drop_bit 8 x) = unat x div 256" for x :: u16
    by (simp add: drop_bit_eq_div unat_div)
  show "ucast (drop_bit 8 ?w) = a"
    unfolding word_unat_eq_iff u dr v using \<open>unat a < 256\<close> \<open>unat b < 256\<close> by simp
  show "ucast ?w = b"
    unfolding word_unat_eq_iff u v using \<open>unat b < 256\<close> by simp
qed

section \<open>Literal hosts\<close>

lemma trim_start_lower: "trim_start CHR ''['' (map ascii_lower h) = map ascii_lower (trim_start CHR ''['' h)"
  by (simp add: trim_start_def dropWhile_map comp_def ascii_lower_eq_symbol)

lemma trim_end_lower: "trim_end CHR '']'' (map ascii_lower h) = map ascii_lower (trim_end CHR '']'' h)"
  by (simp add: trim_end_def dropWhile_map comp_def ascii_lower_eq_symbol rev_map)

lemma host_ip_literal_lower: "host_ip_literal (to_ascii_lowercase h) = host_ip_literal h"
  using parse_ip_lower
  by (simp add: host_ip_literal_def to_ascii_lowercase_def trim_start_lower trim_end_lower)

lemma trim_end_id: "s = [] \<or> last s \<noteq> c \<Longrightarrow> trim_end c s = s"
  by (cases s rule: rev_cases) (auto simp: trim_end_def)

lemma host_ip_literal_no_final_dot:
  assumes "host_ip_literal h = Some a"
  shows "h \<noteq> [] \<and> last h \<noteq> CHR ''.''"
proof -
  let ?t = "trim_start CHR ''['' h"
  have t: "trim_end CHR '']'' ?t \<noteq> [] \<and> last (trim_end CHR '']'' ?t) \<noteq> CHR ''.''"
    using parse_ip_no_final_dot assms by (simp add: host_ip_literal_def)
  have ne: "?t \<noteq> []" using t by (auto simp: trim_end_def)
  have "last ?t = last h"
    using ne unfolding trim_start_def by (metis last_appendR takeWhile_dropWhile_id)
  moreover have "last ?t \<noteq> CHR ''.''"
    using t trim_end_id [of ?t "CHR '']''"] by (cases "last ?t = CHR ''.''") auto
  moreover have "h \<noteq> []" using ne by (auto simp: trim_start_def)
  ultimately show ?thesis by simp
qed

lemma literal_host_public:
  assumes "validate_download_url u url = Inr parsed" and "host_str u parsed = Some host"
    and "host_ip_literal host = Some a"
  shows "is_public_download_address a"
proof -
  have p: "parse_url u url = Inr parsed"
    using assms(1) by (auto simp: validate_download_url_def Let_def split: sum.splits if_splits option.splits)
  have "trim_end CHR ''.'' (to_ascii_lowercase host) = to_ascii_lowercase host"
  proof (rule trim_end_id)
    have "host \<noteq> []" "last host \<noteq> CHR ''.''" using host_ip_literal_no_final_dot [OF assms(3)] by simp_all
    then show "to_ascii_lowercase host = [] \<or> last (to_ascii_lowercase host) \<noteq> CHR ''.''"
      by (simp add: to_ascii_lowercase_def last_map ascii_lower_eq_symbol)
  qed
  then have "host_ip_literal (trim_end CHR ''.'' (to_ascii_lowercase host)) = Some a"
    using assms(3) by (simp add: host_ip_literal_lower)
  then show ?thesis
    using assms(1,2) p by (auto simp: validate_download_url_def Let_def split: if_splits)
qed

lemma find_SomeD: "find P xs = Some x \<Longrightarrow> x \<in> set xs \<and> P x"
  by (induction xs) (auto split: if_splits)

lemma collect_addresses_spec:
  "collect_addresses validated addresses = Inr r \<Longrightarrow> distinct validated \<Longrightarrow>
     list_all is_public_download_address validated \<Longrightarrow>
     distinct r \<and> set r = set validated \<union> set addresses \<and> list_all is_public_download_address r"
  by (induction validated addresses rule: collect_addresses.induct) (auto split: if_splits)

lemma validated_target:
  assumes "validate_download_target u lookup_host url trusted_origin = Inr addresses"
  shows "(\<exists>origin. trusted_origin = Some origin \<and> same_origin u url origin \<and> addresses = [])
       \<or> (\<exists>parsed. parse_url u url = Inr parsed \<and> scheme u parsed \<in> {''http'', ''https''}
            \<and> addresses \<noteq> [] \<and> distinct addresses \<and> list_all is_public_download_address addresses)"
proof (cases "\<exists>origin. trusted_origin = Some origin \<and> same_origin u url origin")
  case True
  then show ?thesis using assms by (auto simp: validate_download_target_def)
next
  case False
  then have "\<not> (case trusted_origin of Some origin \<Rightarrow> same_origin u url origin | None \<Rightarrow> False)"
    by (auto split: option.splits)
  then obtain parsed host where v: "validate_download_url u url = Inr parsed" "host_str u parsed = Some host"
    and r: "(case host_ip_literal host of Some a \<Rightarrow> Inr [a]
      | None \<Rightarrow> (case port_or_known_default u parsed of None \<Rightarrow> Inl (invalid_argument ''download URL has no known port'')
        | Some port \<Rightarrow> (case lookup_host host port of
            Inl e \<Rightarrow> Inl (InvalidArgument (''download URL host could not be resolved: '' @ se_message e) (Some (CauseSource e)))
          | Inr addresses \<Rightarrow> validate_resolved_download_addresses host addresses))) = Inr addresses"
    using assms by (auto simp: validate_download_target_def split: sum.splits option.splits)
  have p: "parse_url u url = Inr parsed" "scheme u parsed \<in> {''http'', ''https''}"
    using v(1) by (auto simp: validate_download_url_def Let_def split: sum.splits if_splits option.splits)
  have "addresses \<noteq> [] \<and> distinct addresses \<and> list_all is_public_download_address addresses"
  proof (cases "host_ip_literal host")
    case (Some a)
    then show ?thesis using r literal_host_public [OF v Some] by auto
  next
    case None
    then obtain found where "validate_resolved_download_addresses host found = Inr addresses"
      using r by (auto split: option.splits sum.splits)
    then have f: "found \<noteq> []" "collect_addresses [] found = Inr addresses"
      by (auto simp: validate_resolved_download_addresses_def split: if_splits)
    then show ?thesis using collect_addresses_spec [OF f(2)] by auto
  qed
  then show ?thesis using p by blast
qed

section \<open>Properties\<close>

text \<open>
  The IPv4 policy. The octet tests of the guard accept exactly the addresses outside the thirteen
  reserved blocks, each given by its base address and prefix length.
\<close>

lemma public_v4_iff_no_reserved_block:
  "is_public_download_address (V4 a b c d)
     \<longleftrightarrow> list_all (\<lambda>blk. \<not> in_block (v4_value a b c d) blk) reserved_v4_blocks"
proof -
  have bounds: "unat a < 256" "unat b < 256" "unat c < 256"
    using unsigned_less [of a, where 'a = nat] unsigned_less [of b, where 'a = nat]
      unsigned_less [of c, where 'a = nat] by simp_all
  have blk10: "(unat a * 256 + unat b) div 64 = 401 \<longleftrightarrow> unat a = 100 \<and> 64 \<le> unat b \<and> unat b \<le> 127"
    using lex_div_eq [of "unat b" 4 64 1 "unat a" 100] bounds by auto
  have blk12: "(unat a * 256 + unat b) div 16 = 2753 \<longleftrightarrow> unat a = 172 \<and> 16 \<le> unat b \<and> unat b \<le> 31"
    using lex_div_eq [of "unat b" 16 16 1 "unat a" 172] bounds by auto
  have blk15: "(unat a * 256 + unat b) div 2 = 25353 \<longleftrightarrow> unat a = 198 \<and> (unat b = 18 \<or> unat b = 19)"
    using lex_div_eq [of "unat b" 128 2 9 "unat a" 198] bounds by auto
  have blk16: "unat a * 256 + unat b = 43518 \<longleftrightarrow> unat a = 169 \<and> unat b = 254"
    "unat a * 256 + unat b = 49320 \<longleftrightarrow> unat a = 192 \<and> unat b = 168"
    using lex_eq [of "unat b" 256 254 "unat a" 169] lex_eq [of "unat b" 256 168 "unat a" 192] bounds by simp_all
  have three: "unat a * 65536 + unat b * 256 + unat c = x * 65536 + y * 256 + z
      \<longleftrightarrow> unat a = x \<and> unat b = y \<and> unat c = z" if "y < 256" "z < 256" for x y z
    using lex_eq [of "unat c" 256 z "unat a * 256 + unat b" "x * 256 + y"] lex_eq [of "unat b" 256 y "unat a" x]
      bounds that by (simp add: algebra_simps)
  have blk24: "unat a * 65536 + unat b * 256 + unat c = 12582912 \<longleftrightarrow> unat a = 192 \<and> unat b = 0 \<and> unat c = 0"
    "unat a * 65536 + unat b * 256 + unat c = 12582914 \<longleftrightarrow> unat a = 192 \<and> unat b = 0 \<and> unat c = 2"
    "unat a * 65536 + unat b * 256 + unat c = 12989284 \<longleftrightarrow> unat a = 198 \<and> unat b = 51 \<and> unat c = 100"
    "unat a * 65536 + unat b * 256 + unat c = 13303921 \<longleftrightarrow> unat a = 203 \<and> unat b = 0 \<and> unat c = 113"
    using three [of 0 0 192] three [of 0 2 192] three [of 51 100 198] three [of 0 113 203] by simp_all
  have blk3: "unat a div 32 = 7 \<longleftrightarrow> 224 \<le> unat a" using bounds by (auto simp: div_nat_eq)
  have words: "x = numeral k \<longleftrightarrow> unat x = unat (numeral k :: u8)" "x = 0 \<longleftrightarrow> unat x = 0"
    "numeral k \<le> x \<longleftrightarrow> unat (numeral k :: u8) \<le> unat x" "x \<le> numeral k \<longleftrightarrow> unat x \<le> unat (numeral k :: u8)"
    for x :: u8 and k
    by (simp_all add: word_unat_eq_iff word_le_nat_alt)
  show ?thesis
    unfolding reserved_v4_blocks_def is_public_download_address.simps is_public_v4.simps
    by (simp add: in_block_iff v4_value_def [of 0] v4_value_def [of "numeral k" for k] words
        blk3 blk10 blk12 blk15 blk16 blk24 del: unat_eq_zero) argo
qed

text \<open>
  Embedded IPv4. An IPv6 address that carries an IPv4 address (IPv4-compatible, mapped, SIIT, and
  both NAT64 prefixes) is public exactly when the IPv4 address is.
\<close>

lemma embedded_v4_policy:
  "let g = of_nat (unat a * 256 + unat b); h = of_nat (unat c * 256 + unat d) in
   is_public_download_address (V6 0 0 0 0 0 0 g h) = is_public_download_address (V4 a b c d) \<and>
   is_public_download_address (V6 0 0 0 0 0 0xffff g h) = is_public_download_address (V4 a b c d) \<and>
   is_public_download_address (V6 0 0 0 0 0xffff 0 g h) = is_public_download_address (V4 a b c d) \<and>
   is_public_download_address (V6 0x64 0xff9b 0 0 0 0 g h) = is_public_download_address (V4 a b c d) \<and>
   is_public_download_address (V6 0x64 0xff9b 1 x y z g h) = is_public_download_address (V4 a b c d)"
proof -
  define g h :: u16 where gh: "g = of_nat (unat a * 256 + unat b)" "h = of_nat (unat c * 256 + unat d)"
  have o: "ucast (drop_bit 8 g) = a" "ucast g = b" "ucast (drop_bit 8 h) = c" "ucast h = d"
    unfolding gh by (rule octets)+
  have low: "g = 0 \<Longrightarrow> \<not> is_public_v4 a b c" using o(1) by simp
  show ?thesis
    unfolding gh [symmetric] using low by (auto simp: Let_def blocked_v6_def embeds_ipv4_def top_zero_def o simp del: is_public_v4.simps)
qed

text \<open>
  The IPv6 policy. A public IPv6 address is outside fc00::/7, fe80::/10, fec0::/10, ff00::/8,
  2001:db8::/32 and 3fff::/20, and is neither the unspecified address nor the loopback.
\<close>

lemma reserved_v6_ranges:
  assumes "is_public_download_address (V6 g0 g1 g2 g3 g4 g5 g6 g7)"
  shows "\<not> (0xfc00 \<le> unat g0 \<and> unat g0 \<le> 0xfdff) \<and> \<not> (0xfe80 \<le> unat g0)
       \<and> \<not> (g0 = 0x2001 \<and> g1 = 0xdb8) \<and> \<not> (g0 = 0x3fff \<and> unat g1 \<le> 0xfff)
       \<and> \<not> (g0 = 0 \<and> g1 = 0 \<and> g2 = 0 \<and> g3 = 0 \<and> g4 = 0 \<and> g5 = 0 \<and> g6 = 0)"
proof -
  have b: "\<not> blocked_v6 [g0, g1, g2, g3, g4, g5, g6, g7]" using assms by (auto simp: Let_def)
  have range: "w AND NOT (mask n) = v" if "unat v = q * 2 ^ n" "q * 2 ^ n \<le> unat w" "unat w < Suc q * 2 ^ n"
    for w v :: u16 and q n
  proof -
    have "unat w div 2 ^ n = q" using that(2,3) by (subst div_nat_eq) auto
    then show ?thesis using that(1) by (simp only: word_unat_eq_iff high_bits_unat)
  qed
  have "unat g0 < 65536" using unsigned_less [of g0, where 'a = nat] by simp
  then consider "unat g0 < 0xfe80" | "0xfe80 \<le> unat g0" "unat g0 < 0xfec0" | "0xfec0 \<le> unat g0" "unat g0 < 0xff00"
    | "0xff00 \<le> unat g0" "unat g0 < 0x10000" by fastforce
  then have "\<not> (0xfe80 \<le> unat g0)"
    using b range [of "0xfe80" 1018 6 g0, folded masks] range [of "0xfec0" 1019 6 g0, folded masks]
      range [of "0xff00" 255 8 g0, folded masks]
    by cases (auto simp: blocked_v6_def)
  moreover have "0xfc00 \<le> unat g0 \<Longrightarrow> unat g0 \<le> 0xfdff \<Longrightarrow> g0 AND 0xfe00 = 0xfc00"
    using range [of "0xfc00" 126 9 g0, folded masks] by simp
  moreover have "unat g1 \<le> 0xfff \<Longrightarrow> g1 AND 0xf000 = 0"
    using range [of 0 0 12 g1, folded masks] by simp
  moreover have "\<not> (g0 = 0 \<and> g1 = 0 \<and> g2 = 0 \<and> g3 = 0 \<and> g4 = 0 \<and> g5 = 0 \<and> g6 = 0)"
  proof
    assume z: "g0 = 0 \<and> g1 = 0 \<and> g2 = 0 \<and> g3 = 0 \<and> g4 = 0 \<and> g5 = 0 \<and> g6 = 0"
    then have "embeds_ipv4 [g0, g1, g2, g3, g4, g5, g6, g7]" by (simp add: embeds_ipv4_def top_zero_def)
    then have "is_public_v4 (ucast (drop_bit 8 g6)) (ucast g6) (ucast (drop_bit 8 g7))"
      using assms b unfolding is_public_download_address.simps Let_def by simp
    then show False using z by simp
  qed
  ultimately show ?thesis
    using b by (auto simp: blocked_v6_def)
qed

theorem reserved_v6_ranges_witness:
  "is_public_download_address (V6 0x2606 0x4700 0 0 0 0 0 0x1111) \<and> \<not> 0xfe80 \<le> unat (0x2606 :: u16)"
proof -
  have "is_public_download_address (V6 0x2606 0x4700 0 0 0 0 0 0x1111)" by code_simp
  with reserved_v6_ranges [OF this] show ?thesis by blast
qed

text \<open>
  Validated targets. When the guard accepts a URL, either the URL is on the trusted origin (and no
  addresses are returned), or its scheme is HTTP or HTTPS and the returned addresses are not empty,
  without duplicates and all public: the literal of the host, or exactly the resolver's answers.
\<close>

lemma validated_target_public:
  assumes "validate_download_target u lookup_host url trusted_origin = Inr addresses"
  shows "(\<exists>origin. trusted_origin = Some origin \<and> same_origin u url origin \<and> addresses = [])
       \<or> (\<exists>parsed. parse_url u url = Inr parsed \<and> scheme u parsed \<in> {''http'', ''https''}
            \<and> addresses \<noteq> [] \<and> distinct addresses \<and> list_all is_public_download_address addresses)"
  using assms by (rule validated_target)

text \<open>The witness: a URL library that knows one URL, and a resolver with a duplicated answer.\<close>

definition sample_url_lib :: "string url_lib" where
  "sample_url_lib = \<lparr>parse_url = Inr, scheme = (\<lambda>_. ''https''), host_str = (\<lambda>_. Some ''x.test''),
     port_or_known_default = (\<lambda>_. Some 443), without_query_and_userinfo = (\<lambda>s. s), url_text = (\<lambda>s. s),
     join_url = (\<lambda>_. Inr)\<rparr>"

definition sample_lookup :: "string \<Rightarrow> u16 \<Rightarrow> source_error + ip_addr list" where
  "sample_lookup h p = Inr [V4 8 8 8 8, V4 8 8 8 8]"

lemma sample_target:
  "validate_download_url sample_url_lib ''https://x.test/f'' = Inr ''https://x.test/f''"
  "validate_download_target sample_url_lib sample_lookup ''https://x.test/f'' None = Inr [V4 8 8 8 8]"
proof -
  have none: "read_number 10 3 False 256 ''x.test'' = None" "read_number 16 4 True 65536 ''x.test'' = None"
    by (simp_all add: read_number_def is_digit_def to_digit_def)
  then have v4: "read_ipv4_addr ''x.test'' = None" by (simp add: read_ipv4_addr_def read_octet_def)
  then have "read_groups (Suc 7) 0 ''x.test'' = ([], False, ''x.test'')"
    unfolding read_groups.simps using none by (simp add: read_separator_def)
  then have lit: "host_ip_literal ''x.test'' = None"
    using v4 by (simp add: host_ip_literal_def trim_start_def trim_end_def parse_ip_def read_ipv6_addr_def)
  have host: "trim_end CHR ''.'' (to_ascii_lowercase ''x.test'') = ''x.test''"
    "\<not> suffix ''.local'' ''x.test''" "\<not> suffix ''.localhost'' ''x.test''" "is_public_v4 8 8 8"
    by (code_simp, code_simp, code_simp, simp)
  show url: "validate_download_url sample_url_lib ''https://x.test/f'' = Inr ''https://x.test/f''"
    using lit host by (simp add: validate_download_url_def sample_url_lib_def Let_def del: is_public_v4.simps)
  show "validate_download_target sample_url_lib sample_lookup ''https://x.test/f'' None = Inr [V4 8 8 8 8]"
    unfolding validate_download_target_def url
    using lit host by (simp add: sample_url_lib_def sample_lookup_def validate_resolved_download_addresses_def
        del: is_public_v4.simps)
qed

lemma validated_target_public_witness:
  "validate_download_target sample_url_lib sample_lookup ''https://x.test/f'' None = Inr [V4 8 8 8 8]
   \<and> list_all is_public_download_address [V4 8 8 8 8]"
  using sample_target(2) validated_target_public [OF sample_target(2)] by auto

text \<open>
  Headers. Sanitizing keeps exactly the headers whose name is on no blocked list, whatever its
  case, in their order; crossing an origin keeps at most the first user agent header.
\<close>

lemma download_headers_policy:
  "(\<forall>h \<in> set (sanitize_download_headers hs). h \<in> set hs \<and> to_ascii_lowercase (fst h) \<notin> set BLOCKED)
   \<and> (\<forall>h \<in> set hs. to_ascii_lowercase (fst h) \<notin> set BLOCKED \<longrightarrow> h \<in> set (sanitize_download_headers hs))
   \<and> subseq (sanitize_download_headers hs) hs
   \<and> length (retain_user_agent hs) \<le> 1
   \<and> (\<forall>h \<in> set (retain_user_agent hs). h \<in> set hs \<and> to_ascii_lowercase (fst h) = ''user-agent'')"
proof -
  have low: "to_ascii_lowercase b = b" if "b \<in> set BLOCKED" for b
  proof -
    have "list_all (\<lambda>b. to_ascii_lowercase b = b) BLOCKED" by code_simp
    with that show ?thesis by (auto simp: list_all_iff)
  qed
  have "to_ascii_lowercase ''user-agent'' = ''user-agent''" by code_simp
  then have ua: "\<forall>h \<in> set (retain_user_agent hs). h \<in> set hs \<and> to_ascii_lowercase (fst h) = ''user-agent''"
    "length (retain_user_agent hs) \<le> 1"
    by (auto simp: retain_user_agent_def eq_ignore_ascii_case_def split: option.splits
        dest!: find_SomeD [OF sym])
  have "list_ex (\<lambda>blocked. eq_ignore_ascii_case n blocked) BLOCKED \<longleftrightarrow> to_ascii_lowercase n \<in> set BLOCKED" for n
    using low by (auto simp: list_ex_iff eq_ignore_ascii_case_def)
  then have "sanitize_download_headers hs = filter (\<lambda>h. to_ascii_lowercase (fst h) \<notin> set BLOCKED) hs"
    by (auto simp: sanitize_download_headers_def intro: filter_cong)
  then show ?thesis using ua by (auto simp: subseq_filter_left)
qed

theorem download_headers_policy_witness:
  "(''Accept'', ''x'') \<in> set (sanitize_download_headers [(''Cookie'', ''s''), (''Accept'', ''x'')])
   \<and> (''Cookie'', ''s'') \<notin> set (sanitize_download_headers [(''Cookie'', ''s''), (''Accept'', ''x'')])"
proof -
  let ?hs = "[(''Cookie'', ''s''), (''Accept'', ''x'')]"
  have "to_ascii_lowercase ''Accept'' \<notin> set BLOCKED" "to_ascii_lowercase ''Cookie'' \<in> set BLOCKED" by code_simp+
  then show ?thesis using download_headers_policy [of ?hs] by auto
qed

end
