(* ===== verification/Download.thy ===== *)
theory Download
  imports Download_Guard
begin

text \<open>
  The guarded download of \<open>src/aimux-core/src/download.rs\<close>: every hop is validated and its connection is
  pinned to the validated addresses, redirects are followed by hand, and the body is bounded. The
  network is the argument \<open>net\<close>: the resolver's answer and the response of each hop.
\<close>

section \<open>Definitions\<close>

definition DEFAULT_MAX_DOWNLOAD_SIZE :: usize where
  "DEFAULT_MAX_DOWNLOAD_SIZE = 2 * 1024 * 1024 * 1024"

definition MAX_DOWNLOAD_REDIRECTS :: nat where "MAX_DOWNLOAD_REDIRECTS = 10"

text \<open>A response: its status with its text, the headers the loop reads and the chunks of its body.\<close>

record response =
  resp_status :: u16
  resp_status_text :: string
  resp_location :: "(source_error + string) option"
  resp_content_length :: "u64 option"
  resp_content_type :: "string option"
  resp_body :: "(source_error + u8 list) list"

record 'u network =
  net_lookup :: "nat \<Rightarrow> string \<Rightarrow> u16 \<Rightarrow> source_error + ip_addr list"
  net_send :: "nat \<Rightarrow> 'u \<Rightarrow> (ip_addr \<times> u16) list \<Rightarrow> source_error + response"

definition download_error :: "source_error \<Rightarrow> aimux_error" where
  "download_error e = Other (''download failed: '' @ se_message e) (Some (CauseSource e))"

definition size_error :: "usize \<Rightarrow> aimux_error" where
  "size_error max_bytes =
     other (''download exceeded maximum size of '' @ show_nat (unat max_bytes) @ '' bytes'')"

fun read_body :: "usize \<Rightarrow> u8 list \<Rightarrow> (source_error + u8 list) list \<Rightarrow> aimux_error + u8 list" where
  "read_body max_bytes data [] = Inr data"
| "read_body max_bytes data (Inl e # chunks) = Inl (download_error e)"
| "read_body max_bytes data (Inr chunk # chunks) =
     (if length chunk > unat max_bytes - length data then Inl (size_error max_bytes)
      else read_body max_bytes (data @ chunk) chunks)"

definition is_redirect :: "u16 \<Rightarrow> bool" where
  "is_redirect status \<longleftrightarrow> status \<in> {301, 302, 303, 307, 308}"

definition is_success :: "u16 \<Rightarrow> bool" where
  "is_success status \<longleftrightarrow> 200 \<le> status \<and> status < 300"

text \<open>
  The loop of \<open>download_inner\<close> with \<open>left\<close> redirects left; it also lists the requests it sent, each with
  the socket addresses its client was pinned to.
\<close>

fun download_hops ::
  "'u url_lib \<Rightarrow> 'u network \<Rightarrow> usize \<Rightarrow> nat \<Rightarrow> string \<Rightarrow>
   (aimux_error + u8 list \<times> string option) \<times> ('u \<times> (ip_addr \<times> u16) list) list" where
  "download_hops u net max_bytes left current =
     (let hop = MAX_DOWNLOAD_REDIRECTS - left in
      case validate_download_url u current of Inl e \<Rightarrow> (Inl e, []) | Inr parsed \<Rightarrow>
     (case validate_download_target u (net_lookup net hop) current None of Inl e \<Rightarrow> (Inl e, []) | Inr addresses \<Rightarrow>
     (case host_str u parsed of None \<Rightarrow> (Inl (invalid_argument ''download URL has no host''), []) | Some host \<Rightarrow>
     (case port_or_known_default u parsed of
        None \<Rightarrow> (Inl (invalid_argument ''download URL has no known port''), [])
      | Some port \<Rightarrow>
        (let socks = map (\<lambda>a. (a, port)) addresses in
         case net_send net hop parsed socks of Inl e \<Rightarrow> (Inl (download_error e), [(parsed, socks)]) | Inr r \<Rightarrow>
         (case (if is_redirect (resp_status r) then resp_location r else None) of
            Some location \<Rightarrow>
              (case left of
                 0 \<Rightarrow> (Inl (other ''download exceeded 10 redirects''), [(parsed, socks)])
               | Suc left' \<Rightarrow>
                   (case location of Inl e \<Rightarrow> (Inl (download_error e), [(parsed, socks)]) | Inr loc \<Rightarrow>
                   (case join_url u parsed loc of Inl e \<Rightarrow> (Inl (download_error e), [(parsed, socks)]) | Inr next_url \<Rightarrow>
                   (case download_hops u net max_bytes left' (url_text u next_url) of
                      (res, sent) \<Rightarrow> (res, (parsed, socks) # sent)))))
          | None \<Rightarrow>
              (if \<not> is_success (resp_status r)
               then (Inl (other (''download failed with HTTP status '' @ resp_status_text r)), [(parsed, socks)])
               else if (case resp_content_length r of Some n \<Rightarrow> n > max_bytes | None \<Rightarrow> False)
               then (Inl (size_error max_bytes), [(parsed, socks)])
               else (case read_body max_bytes [] (resp_body r) of
                       Inl e \<Rightarrow> (Inl e, [(parsed, socks)])
                     | Inr data \<Rightarrow> (Inr (data, resp_content_type r), [(parsed, socks)])))))))))"

declare download_hops.simps [simp del]

definition download_inner ::
  "'u url_lib \<Rightarrow> 'u network \<Rightarrow> string \<Rightarrow> usize \<Rightarrow>
   (aimux_error + u8 list \<times> string option) \<times> ('u \<times> (ip_addr \<times> u16) list) list" where
  "download_inner u net url max_bytes = download_hops u net max_bytes MAX_DOWNLOAD_REDIRECTS url"

definition download ::
  "'u url_lib \<Rightarrow> 'u network \<Rightarrow> string \<Rightarrow> usize option \<Rightarrow> bool \<Rightarrow> aimux_error + u8 list \<times> string option" where
  "download u net url max_bytes cancelled =
     (if cancelled then Inl from_abort_signal
      else fst (download_inner u net url (unwrap_or DEFAULT_MAX_DOWNLOAD_SIZE max_bytes)))"

fun resolve_generated_file_data ::
  "'u url_lib \<Rightarrow> 'u network \<Rightarrow> bool \<Rightarrow> generated_file_data \<Rightarrow> aimux_error + file_bytes" where
  "resolve_generated_file_data u net cancelled (FileDataBytes b) = Inr b"
| "resolve_generated_file_data u net cancelled (FileDataUrl url m) =
     (case download u net url None cancelled of Inl e \<Rightarrow> Inl e | Inr (data, _) \<Rightarrow> Inr (Binary data))"

text \<open>\<open>DownloadFunction::download\<close>: the callback must answer every URL.\<close>

definition download_planned ::
  "('d list \<Rightarrow> aimux_error + 'f option list) \<Rightarrow> 'd list \<Rightarrow> aimux_error + 'f option list" where
  "download_planned callback downloads = (case callback downloads of
     Inl e \<Rightarrow> Inl e
   | Inr files \<Rightarrow>
       if length files \<noteq> length downloads
       then Inl (invalid_argument (''the download function returned '' @ show_nat (length files) @ '' results for ''
              @ show_nat (length downloads) @ '' URLs''))
       else Inr files)"

section \<open>Properties\<close>

lemma read_body_bound:
  assumes "read_body max_bytes data chunks = Inr d" and "length data \<le> unat max_bytes"
  shows "length d \<le> unat max_bytes \<and> d = data @ concat (map projr chunks) \<and> (\<forall>c \<in> set chunks. \<not> isl c)"
  using assms
proof (induction max_bytes data chunks rule: read_body.induct)
  case (3 max_bytes data chunk chunks)
  then have "\<not> length chunk > unat max_bytes - length data" by (auto split: if_splits)
  then have "length (data @ chunk) \<le> unat max_bytes" using "3.prems"(2) by simp
  with 3 show ?case by (auto split: if_splits)
qed auto

lemma validated_hop:
  assumes "validate_download_target u lookup_host url None = Inr addresses"
  shows "addresses \<noteq> [] \<and> list_all is_public_download_address addresses"
  using validated_target [OF assms] by auto

text \<open>The outcomes of one hop: it fails before or after sending, it follows a redirect, or it returns a body.\<close>

lemma download_hops_cases:
  assumes "download_hops u net max_bytes left current = (res, sent)"
  obtains e where "res = Inl e" "sent = []"
  | parsed addresses port e where "res = Inl e" "sent = [(parsed, map (\<lambda>a. (a, port)) addresses)]"
      "addresses \<noteq> []" "list_all is_public_download_address addresses"
  | parsed addresses port left' url sent' where "left = Suc left'"
      "download_hops u net max_bytes left' url = (res, sent')"
      "sent = (parsed, map (\<lambda>a. (a, port)) addresses) # sent'"
      "addresses \<noteq> []" "list_all is_public_download_address addresses"
  | parsed addresses port r data where "res = Inr (data, resp_content_type r)"
      "net_send net (MAX_DOWNLOAD_REDIRECTS - left) parsed (map (\<lambda>a. (a, port)) addresses) = Inr r"
      "is_success (resp_status r)" "read_body max_bytes [] (resp_body r) = Inr data"
      "sent = [(parsed, map (\<lambda>a. (a, port)) addresses)]"
      "addresses \<noteq> []" "list_all is_public_download_address addresses"
proof -
  let ?hop = "MAX_DOWNLOAD_REDIRECTS - left"
  note unfold = download_hops.simps [of u net max_bytes left current] Let_def
  show ?thesis
  proof (cases "\<exists>parsed addresses host port. validate_download_url u current = Inr parsed
      \<and> validate_download_target u (net_lookup net ?hop) current None = Inr addresses
      \<and> host_str u parsed = Some host \<and> port_or_known_default u parsed = Some port")
    case False
    then have "isl res \<and> sent = []"
      using assms by (auto simp: unfold split: sum.splits option.splits)
    then show ?thesis using that(1) by (cases res) auto
  next
    case True
    then obtain parsed addresses host port where v: "validate_download_url u current = Inr parsed"
      "validate_download_target u (net_lookup net ?hop) current None = Inr addresses"
      "host_str u parsed = Some host" "port_or_known_default u parsed = Some port" by blast
    let ?socks = "map (\<lambda>a. (a, port)) addresses"
    note ok = validated_hop [OF v(2)]
    show ?thesis
    proof (cases "net_send net ?hop parsed ?socks")
      case (Inl e)
      then show ?thesis using assms v ok by (intro that(2)) (auto simp: unfold)
    next
      case (Inr r)
      show ?thesis
      proof (cases "is_redirect (resp_status r) \<and> resp_location r \<noteq> None")
        case True
        then obtain location where loc: "resp_location r = Some location" by blast
        show ?thesis
        proof (cases "\<exists>left' l next_url. left = Suc left' \<and> location = Inr l \<and> join_url u parsed l = Inr next_url")
          case False
          then have "isl res \<and> sent = [(parsed, ?socks)]"
            using assms v Inr True loc by (auto simp: unfold split: nat.splits sum.splits)
          then show ?thesis using that(2) ok by (cases res) auto
        next
          case follow: True
          then obtain left' l next_url where f: "left = Suc left'" "location = Inr l" "join_url u parsed l = Inr next_url"
            by blast
          obtain sent' where "download_hops u net max_bytes left' (url_text u next_url) = (res, sent')"
            "sent = (parsed, ?socks) # sent'"
            using assms v Inr True loc f
            by (auto simp: download_hops.simps [of u net max_bytes "Suc left'" current] Let_def split: prod.splits)
          then show ?thesis using that(3) f(1) ok by blast
        qed
      next
        case False
        then have none: "(if is_redirect (resp_status r) then resp_location r else None) = None" by auto
        show ?thesis
        proof (cases "is_success (resp_status r) \<and> \<not> (case resp_content_length r of Some n \<Rightarrow> n > max_bytes | None \<Rightarrow> False)
            \<and> \<not> isl (read_body max_bytes [] (resp_body r))")
          case True
          then obtain data where d: "read_body max_bytes [] (resp_body r) = Inr data"
            by (cases "read_body max_bytes [] (resp_body r)") auto
          then have "res = Inr (data, resp_content_type r)" "sent = [(parsed, ?socks)]"
            using assms v Inr none True by (auto simp: unfold)
          then show ?thesis using that(4) Inr True d ok by blast
        next
          case bad: False
          then have "isl res \<and> sent = [(parsed, ?socks)]"
            using assms v Inr none by (auto simp: unfold isl_def split: sum.splits if_splits)
          then show ?thesis using that(2) ok by (cases res) auto
        qed
      qed
    qed
  qed
qed

lemma download_hops_sent:
  assumes "download_hops u net max_bytes left current = (res, sent)"
  shows "length sent \<le> Suc left
       \<and> (\<forall>(parsed, socks) \<in> set sent. socks \<noteq> [] \<and> (\<forall>(a, port) \<in> set socks. is_public_download_address a))"
  using assms
proof (induction left arbitrary: current sent)
  case 0
  then show ?case by (cases rule: download_hops_cases) (auto simp: list_all_iff)
next
  case (Suc left)
  from Suc.prems show ?case
  proof (cases rule: download_hops_cases)
    case (3 parsed addresses port left' url sent')
    then have IH: "length sent' \<le> Suc left
       \<and> (\<forall>(parsed, socks) \<in> set sent'. socks \<noteq> [] \<and> (\<forall>(a, port) \<in> set socks. is_public_download_address a))"
      using Suc.IH by simp
    have "\<forall>(a, port) \<in> set (map (\<lambda>a. (a, port)) addresses). is_public_download_address a"
      using 3 by (auto simp: list_all_iff)
    then show ?thesis using IH 3 by auto
  qed (auto simp: list_all_iff)
qed

lemma download_hops_body:
  assumes "download_hops u net max_bytes left current = (Inr (data, media_type), sent)"
  shows "length data \<le> unat max_bytes
       \<and> (\<exists>parsed socks hop r. last sent = (parsed, socks) \<and> net_send net hop parsed socks = Inr r
            \<and> is_success (resp_status r) \<and> data = concat (map projr (resp_body r)) \<and> media_type = resp_content_type r)"
  using assms
proof (induction left arbitrary: current sent)
  case 0
  then show ?case by (cases rule: download_hops_cases) (fastforce dest: read_body_bound)+
next
  case (Suc left)
  from Suc.prems show ?case
  proof (cases rule: download_hops_cases)
    case (3 parsed addresses port left' url sent')
    then have "download_hops u net max_bytes left url = (Inr (data, media_type), sent')" by simp
    note IH = Suc.IH [OF this]
    moreover have "sent' \<noteq> []"
      using \<open>download_hops u net max_bytes left url = (Inr (data, media_type), sent')\<close>
      by (cases rule: download_hops_cases) auto
    ultimately show ?thesis using 3 by auto
  qed (fastforce dest: read_body_bound)+
qed

text \<open>
  C19. Connections. Whatever the URLs, the resolver and the servers answer, the guarded download sends
  at most eleven requests, and each goes through a client that is pinned to at least one address, all
  of them public.
\<close>

theorem download_only_public:
  "case download_inner u net url max_bytes of (res, sent) \<Rightarrow>
     length sent \<le> 11
   \<and> list_all (\<lambda>(parsed, socks). socks \<noteq> [] \<and> list_all (\<lambda>(a, port). is_public_download_address a) socks) sent"
proof -
  obtain res sent where d: "download_inner u net url max_bytes = (res, sent)" by force
  then have "download_hops u net max_bytes 10 url = (res, sent)"
    by (simp add: download_inner_def MAX_DOWNLOAD_REDIRECTS_def)
  from download_hops_sent [OF this] d show ?thesis by (fastforce simp: list_all_iff)
qed

text \<open>
  Size. A successful download is the whole body of a successful response, and is no longer than
  the limit (two gigabytes by default).
\<close>

lemma download_bounded:
  assumes "download u net url max_bytes cancelled = Inr (data, media_type)"
  shows "length data \<le> unat (unwrap_or DEFAULT_MAX_DOWNLOAD_SIZE max_bytes)
       \<and> (\<exists>parsed socks hop r. net_send net hop parsed socks = Inr r \<and> is_success (resp_status r)
            \<and> data = concat (map projr (resp_body r)) \<and> media_type = resp_content_type r)"
proof -
  obtain sent where "download_hops u net (unwrap_or DEFAULT_MAX_DOWNLOAD_SIZE max_bytes) MAX_DOWNLOAD_REDIRECTS url
      = (Inr (data, media_type), sent)"
    using assms by (auto simp: download_def download_inner_def split: if_splits)
       (metis prod.collapse)
  from download_hops_body [OF this] show ?thesis by blast
qed

definition sample_network :: "string network" where
  "sample_network = \<lparr>net_lookup = (\<lambda>_. sample_lookup), net_send = (\<lambda>_ _ _. Inr \<lparr>resp_status = 200,
     resp_status_text = ''200 OK'', resp_location = None, resp_content_length = Some 2,
     resp_content_type = None, resp_body = [Inr [1], Inr [2]]\<rparr>)\<rparr>"

lemma download_bounded_witness:
  "download sample_url_lib sample_network ''https://x.test/f'' (Some 5) False = Inr ([1, 2], None)
   \<and> length [1 :: u8, 2] \<le> unat (unwrap_or DEFAULT_MAX_DOWNLOAD_SIZE (Some 5))"
proof -
  have d: "download sample_url_lib sample_network ''https://x.test/f'' (Some 5) False = Inr ([1, 2], None)"
    using sample_target
    by (simp add: download_def download_inner_def download_hops.simps sample_network_def Let_def sample_url_lib_def
        is_redirect_def is_success_def unwrap_or_def)
  with download_bounded [OF d] show ?thesis by blast
qed

end
