(* ===== verification/Prompt_Conversion.thy ===== *)
theory Prompt_Conversion
  imports Message_Types Transform_Stream Download
begin

text \<open>
  The conversion of a caller's messages into a model's prompt (\<open>src/aimux-core/src/language_model_message.rs\<close>,
  with \<open>standardize_prompt\<close> and \<open>prepare_prompt\<close> of \<open>generate.rs\<close>, \<open>SupportedUrls\<close> of \<open>language_model.rs\<close> and the
  planned downloads of \<open>download.rs\<close>). The \<open>url\<close> crate and Unicode lower-casing are the fields of
  \<open>prompt_env\<close>; a URL pattern of a model is a predicate. The deprecation warnings are returned; writing
  them to the log is left out.
\<close>

section \<open>Environment\<close>

record 'u prompt_env =
  pe_urls :: "'u url_lib"
  pe_path :: "'u \<Rightarrow> string"
  pe_lowercase :: "string \<Rightarrow> string"

record downloaded_file =
  df_data :: "u8 list"
  df_media_type :: "string option"

type_synonym downloaded_assets = "string \<rightharpoonup> downloaded_file"

definition invalid_prompt :: "string \<Rightarrow> aimux_error" where
  "invalid_prompt message = InvalidPrompt message None"

text \<open>\<open>str::split\<close> on a character: one piece more than there are separators.\<close>

fun split_at :: "char \<Rightarrow> string \<Rightarrow> string list" where
  "split_at c [] = [[]]"
| "split_at c (x # xs) =
     (if x = c then [] # split_at c xs
      else (case split_at c xs of p # ps \<Rightarrow> (x # p) # ps | [] \<Rightarrow> [[x]]))"

text \<open>\<open>map(f).collect::<Result<_, _>>()\<close> where \<open>f\<close> also appends warnings.\<close>

fun collect_parts :: "('a \<Rightarrow> 'e + 'b \<times> 'w list) \<Rightarrow> 'a list \<Rightarrow> 'e + 'b list \<times> 'w list" where
  "collect_parts f [] = Inr ([], [])"
| "collect_parts f (x # xs) = (case f x of
     Inl e \<Rightarrow> Inl e
   | Inr (y, w) \<Rightarrow> (case collect_parts f xs of Inl e \<Rightarrow> Inl e | Inr (ys, ws) \<Rightarrow> Inr (y # ys, w @ ws)))"

section \<open>Files\<close>

definition make_file_part :: "file_data \<Rightarrow> string \<Rightarrow> string option \<Rightarrow> provider_options option \<Rightarrow> file_part" where
  "make_file_part data media_type filename opts =
     \<lparr>fp_data = data, fp_media_type = media_type, fp_filename = filename, fp_provider_options = opts\<rparr>"

definition convert_url_to_file_part_data ::
  "'u prompt_env \<Rightarrow> string \<Rightarrow> string option \<Rightarrow> aimux_error + file_data \<times> string option" where
  "convert_url_to_file_part_data env url original_url =
     (case parse_url (pe_urls env) url of
        Inl _ \<Rightarrow> Inr (FDUrl url original_url, None)
      | Inr parsed \<Rightarrow>
          if scheme (pe_urls env) parsed \<noteq> ''data'' then Inr (FDUrl url original_url, None)
          else
            (let text = url_text (pe_urls env) parsed;
                 pieces = split_at CHR '','' text
             in case (split_at CHR '':'' (hd (split_at CHR '';'' (hd pieces))), tl pieces) of
                  (_ # media_type # _, base64_content # _) \<Rightarrow> Inr (FDData (Base64 base64_content), Some media_type)
                | _ \<Rightarrow> Inl (invalid_prompt (''Invalid data URL format in content '' @ text))))"

fun convert_file_part_data ::
  "'u prompt_env \<Rightarrow> file_part_data \<Rightarrow> aimux_error + file_data \<times> string option" where
  "convert_file_part_data env (FPTagged (FDData (Base64 text))) =
     (if take 5 text = ''data:''
      then Inl (invalid_prompt (''Data URLs are not valid inline data. Pass them as { type: '' @ dq @ ''url'' @ dq
                                @ '', url } instead.''))
      else Inr (FDData (Base64 text), None))"
| "convert_file_part_data env (FPTagged (FDUrl url original_url)) = convert_url_to_file_part_data env url original_url"
| "convert_file_part_data env (FPTagged data) = Inr (data, None)"
| "convert_file_part_data env (FPString text) = (case parse_url (pe_urls env) text of
     Inr parsed \<Rightarrow>
       (case convert_url_to_file_part_data env (url_text (pe_urls env) parsed) None of
          Inl e \<Rightarrow> Inl e
        | Inr (FDUrl url original_url, media_type) \<Rightarrow>
            Inr (FDUrl url (if url \<noteq> text then Some text else original_url), media_type)
        | Inr (data, media_type) \<Rightarrow> Inr (data, media_type))
   | Inl _ \<Rightarrow> Inr (FDData (Base64 text), None))"
| "convert_file_part_data env (FPReference reference) = Inr (FDReference reference, None)"

definition is_full_media_type :: "string \<Rightarrow> bool" where
  "is_full_media_type media_type =
     (case dropWhile (\<lambda>c. c \<noteq> CHR ''/'') media_type of
        [] \<Rightarrow> False
      | _ # subtype \<Rightarrow> subtype \<noteq> [] \<and> subtype \<noteq> ''*'')"

definition downloaded_file_part ::
  "downloaded_file \<Rightarrow> string \<Rightarrow> string option \<Rightarrow> provider_options option \<Rightarrow> file_part" where
  "downloaded_file_part file media_type filename opts =
     make_file_part (FDData (Binary (df_data file)))
       (case df_media_type file of
          Some downloaded \<Rightarrow> (if \<not> is_full_media_type media_type then downloaded else media_type)
        | None \<Rightarrow> media_type)
       filename opts"

text \<open>A file's part, inline when its URL was downloaded.\<close>

definition file_part_or_asset ::
  "downloaded_assets \<Rightarrow> file_data \<Rightarrow> string \<Rightarrow> string option \<Rightarrow> provider_options option \<Rightarrow> file_part" where
  "file_part_or_asset assets data media_type filename opts =
     (case data of
        FDUrl url _ \<Rightarrow>
          (case assets url of
             Some file \<Rightarrow> downloaded_file_part file media_type filename opts
           | None \<Rightarrow> make_file_part data media_type filename opts)
      | _ \<Rightarrow> make_file_part data media_type filename opts)"

section \<open>User parts\<close>

definition image_part_deprecated :: warning where
  "image_part_deprecated =
     WarnDeprecated (dq @ ''image'' @ dq @ '' content part'')
       (''The '' @ dq @ ''image'' @ dq @ '' content part type is deprecated. Use a '' @ dq @ ''file'' @ dq
        @ '' part with mediaType: '' @ sq @ ''image'' @ sq @ '' (or a more specific image/* subtype) instead.'')"

fun convert_user_part :: "'u prompt_env \<Rightarrow> downloaded_assets \<Rightarrow> user_content_part \<Rightarrow>
    aimux_error + user_part \<times> warning list" where
  "convert_user_part env assets (UCText text opts) = Inr (UPText \<lparr>tp_text = text, tp_provider_options = opts\<rparr>, [])"
| "convert_user_part env assets (UCImage bytes media_type opts) =
     Inr (UPFile (make_file_part (FDData (Binary bytes)) media_type None opts), [image_part_deprecated])"
| "convert_user_part env assets (UCFile data media_type filename opts) =
     (case convert_file_part_data env data of
        Inl e \<Rightarrow> Inl e
      | Inr (converted, data_url_media_type) \<Rightarrow>
          Inr (UPFile (file_part_or_asset assets converted (unwrap_or media_type data_url_media_type) filename opts), []))"

section \<open>Tool results\<close>

definition tool_content_deprecated :: "string \<Rightarrow> string \<Rightarrow> warning" where
  "tool_content_deprecated kind message =
     WarnDeprecated (dq @ ''tool-result'' @ dq @ '' content of type '' @ dq @ kind @ dq) message"

definition deprecated_type :: "string \<Rightarrow> string \<Rightarrow> string" where
  "deprecated_type kind replacement =
     ''The '' @ dq @ kind @ dq @ '' type for tool result content is deprecated. Use the '' @ dq @ ''file'' @ dq
     @ '' type with mediaType '' @ replacement @ '' instead.''"

definition tagged_form :: "string \<Rightarrow> string \<Rightarrow> string" where
  "tagged_form tag field = ''and { type: '' @ sq @ tag @ sq @ '', '' @ field @ '' }''"

definition deprecated_reference :: "string \<Rightarrow> warning" where
  "deprecated_reference kind =
     tool_content_deprecated kind (deprecated_type kind (tagged_form ''reference'' ''reference''))"

definition normalized_url :: "'u prompt_env \<Rightarrow> string \<Rightarrow> aimux_error + file_data" where
  "normalized_url env given = (case parse_url (pe_urls env) given of
     Inl e \<Rightarrow> Inl (InvalidPrompt (''Invalid URL: '' @ given @ '': '' @ se_message e) (Some (CauseSource e)))
   | Inr parsed \<Rightarrow>
       (let normalized = url_text (pe_urls env) parsed
        in Inr (FDUrl normalized (if normalized \<noteq> given then Some given else None))))"

definition OCTET_STREAM :: string where "OCTET_STREAM = ''application/octet-stream''"

definition extension_media_types :: "(string \<times> string) list" where
  "extension_media_types =
     [(''jpg'', ''image/jpeg''), (''jpeg'', ''image/jpeg''), (''png'', ''image/png''), (''gif'', ''image/gif''),
      (''webp'', ''image/webp''), (''svg'', ''image/svg+xml''), (''avif'', ''image/avif''), (''heic'', ''image/heic''),
      (''bmp'', ''image/bmp''), (''tiff'', ''image/tiff''), (''tif'', ''image/tiff''), (''pdf'', ''application/pdf''),
      (''mp4'', ''video/mp4''), (''webm'', ''video/webm''), (''mp3'', ''audio/mpeg''), (''wav'', ''audio/wav''),
      (''ogg'', ''audio/ogg'')]"

definition media_type_from_url :: "'u prompt_env \<Rightarrow> string \<Rightarrow> string" where
  "media_type_from_url env given = (case parse_url (pe_urls env) given of
     Inl _ \<Rightarrow> OCTET_STREAM
   | Inr parsed \<Rightarrow>
       unwrap_or OCTET_STREAM
         (map_of extension_media_types (pe_lowercase env (last (split_at CHR ''.'' (pe_path env parsed))))))"

definition file_id_reference :: "string option \<Rightarrow> tool_result_file_id \<Rightarrow> aimux_error + provider_reference" where
  "file_id_reference provider file_id = (case file_id of
     ByProvider reference \<Rightarrow> Inr reference
   | FileId i \<Rightarrow>
       (case provider of
          None \<Rightarrow> Inl (invalid_prompt (''Cannot convert string fileId to provider reference without a provider ID. ''
                   @ ''Use a Record<string, string> fileId or switch to the file-reference type.''))
        | Some p \<Rightarrow> Inr [(p, i)]))"

definition file_url_media_type :: "'u prompt_env \<Rightarrow> string \<Rightarrow> string option \<Rightarrow> string \<times> string" where
  "file_url_media_type env given media_type =
     (let deprecation = deprecated_type ''file-url'' (tagged_form ''url'' ''url'') in
      case media_type of
        Some m \<Rightarrow> (m, deprecation)
      | None \<Rightarrow>
          (let inferred = media_type_from_url env given;
               inference = (if inferred = OCTET_STREAM
                 then ''Unable to infer media type from URL. Defaulting to '' @ sq @ ''application/octet-stream'' @ sq @ ''.''
                 else ''Inferred media type '' @ sq @ inferred @ sq @ '' from URL.'')
           in (inferred,
               ''The '' @ dq @ ''file-url'' @ dq @ '' tool result content part with URL '' @ dq @ given @ dq
               @ '' is missing a '' @ dq @ ''mediaType'' @ dq @ ''. '' @ inference @ '' '' @ deprecation)))"

fun tool_result_content :: "'u prompt_env \<Rightarrow> string option \<Rightarrow> downloaded_assets \<Rightarrow> tool_result_content_part \<Rightarrow>
    aimux_error + lm_tool_result_content \<times> warning list" where
  "tool_result_content env provider assets (TIText text opts) =
     Inr (TRText \<lparr>tp_text = text, tp_provider_options = opts\<rparr>, [])"
| "tool_result_content env provider assets (TIFile data media_type filename opts) =
     Inr (TRFile (file_part_or_asset assets data media_type filename opts), [])"
| "tool_result_content env provider assets (TIFileData data media_type filename opts) =
     Inr (TRFile (make_file_part (FDData (Base64 data)) media_type filename opts),
          [tool_content_deprecated ''file-data'' (deprecated_type ''file-data'' (tagged_form ''data'' ''data''))])"
| "tool_result_content env provider assets (TIFileUrl given media_type opts) =
     (case normalized_url env given of
        Inl e \<Rightarrow> Inl e
      | Inr data \<Rightarrow>
          (case file_url_media_type env given media_type of (m, message) \<Rightarrow>
             Inr (TRFile (make_file_part data m None opts), [tool_content_deprecated ''file-url'' message])))"
| "tool_result_content env provider assets (TIFileId file_id opts) =
     (case file_id_reference provider file_id of
        Inl e \<Rightarrow> Inl e
      | Inr reference \<Rightarrow>
          Inr (TRFile (make_file_part (FDReference reference) ''application'' None opts), [deprecated_reference ''file-id'']))"
| "tool_result_content env provider assets (TIFileReference reference opts) =
     Inr (TRFile (make_file_part (FDReference reference) ''application'' None opts),
          [deprecated_reference ''file-reference''])"
| "tool_result_content env provider assets (TIImageData data media_type opts) =
     Inr (TRFile (make_file_part (FDData (Base64 data)) media_type None opts),
          [tool_content_deprecated ''image-data'' (deprecated_type ''image-data'' (tagged_form ''data'' ''data''))])"
| "tool_result_content env provider assets (TIImageUrl given opts) =
     (case normalized_url env given of
        Inl e \<Rightarrow> Inl e
      | Inr data \<Rightarrow>
          Inr (TRFile (make_file_part data ''image'' None opts),
               [tool_content_deprecated ''image-url'' (deprecated_type ''image-url''
                  (sq @ ''image'' @ sq @ '' (or a specific image/* subtype) '' @ tagged_form ''url'' ''url''))]))"
| "tool_result_content env provider assets (TIImageFileId file_id opts) =
     (case file_id_reference provider file_id of
        Inl e \<Rightarrow> Inl e
      | Inr reference \<Rightarrow>
          Inr (TRFile (make_file_part (FDReference reference) ''image'' None opts), [deprecated_reference ''image-file-id'']))"
| "tool_result_content env provider assets (TIImageFileReference reference opts) =
     Inr (TRFile (make_file_part (FDReference reference) ''image'' None opts),
          [deprecated_reference ''image-file-reference''])"
| "tool_result_content env provider assets (TICustom opts) = Inr (TRCustom opts, [])"

fun convert_tool_result_output :: "'u prompt_env \<Rightarrow> string option \<Rightarrow> downloaded_assets \<Rightarrow> tool_result_output \<Rightarrow>
    aimux_error + lm_tool_result_output \<times> warning list" where
  "convert_tool_result_output env provider assets (OutText v opts) = Inr (TROText v opts, [])"
| "convert_tool_result_output env provider assets (OutJson v opts) = Inr (TROJson v opts, [])"
| "convert_tool_result_output env provider assets (OutExecutionDenied r opts) = Inr (TROExecutionDenied r opts, [])"
| "convert_tool_result_output env provider assets (OutErrorText v opts) = Inr (TROErrorText v opts, [])"
| "convert_tool_result_output env provider assets (OutErrorJson v opts) = Inr (TROErrorJson v opts, [])"
| "convert_tool_result_output env provider assets (OutContent items) =
     (case collect_parts (tool_result_content env provider assets) items of
        Inl e \<Rightarrow> Inl e
      | Inr (content, w) \<Rightarrow> Inr (TROContent content None, w))"

definition convert_tool_result_part ::
  "'u prompt_env \<Rightarrow> string option \<Rightarrow> downloaded_assets \<Rightarrow> (string \<rightharpoonup> string) \<Rightarrow> tool_result_part \<Rightarrow>
   aimux_error + lm_tool_result_part \<times> warning list" where
  "convert_tool_result_part env provider assets names part =
     (case (if trp_name part \<noteq> None then trp_name part else names (trp_id part)) of
        None \<Rightarrow> Inl (invalid_prompt (''tool result '' @ trp_id part @ '' has no tool name or preceding tool call''))
      | Some name \<Rightarrow>
          (case convert_tool_result_output env provider assets (trp_output part) of
             Inl e \<Rightarrow> Inl e
           | Inr (output, w) \<Rightarrow>
               Inr (\<lparr>ltr_id = trp_id part, ltr_name = name, ltr_output = output,
                     ltr_provider_options = trp_provider_options part\<rparr>, w)))"

section \<open>Assistant parts\<close>

fun reasoning_file_data :: "reasoning_file_part_data \<Rightarrow> file_part_data" where
  "reasoning_file_data (RFTagged (FileDataBytes b)) = FPTagged (FDData b)"
| "reasoning_file_data (RFTagged (FileDataUrl url original_url)) = FPTagged (FDUrl url original_url)"
| "reasoning_file_data (RFString text) = FPString text"

text \<open>
  A conversion stops with an error or with the panic of \<open>assistant_part\<close> on an approval request, which the
  caller is to filter out first.
\<close>

datatype conversion_stop = Failed aimux_error | Panicked

abbreviation checked :: "aimux_error + 'a \<Rightarrow> conversion_stop + 'a" where
  "checked \<equiv> map_sum Failed (\<lambda>x. x)"

fun convert_assistant_part ::
  "'u prompt_env \<Rightarrow> string option \<Rightarrow> downloaded_assets \<Rightarrow> (string \<rightharpoonup> string) \<Rightarrow> assistant_content_part \<Rightarrow>
   conversion_stop + lm_assistant_part \<times> warning list" where
  "convert_assistant_part env provider assets names (ACText text opts) =
     Inr (APText \<lparr>tp_text = text, tp_provider_options = opts\<rparr>, [])"
| "convert_assistant_part env provider assets names (ACCustom kind opts) = Inr (APCustom kind opts, [])"
| "convert_assistant_part env provider assets names (ACFile data media_type filename opts) = checked
     (case convert_file_part_data env data of
        Inl e \<Rightarrow> Inl e
      | Inr (converted, data_url_media_type) \<Rightarrow>
          Inr (APFile (make_file_part converted (unwrap_or media_type data_url_media_type) filename opts), []))"
| "convert_assistant_part env provider assets names (ACReasoning text opts) = Inr (APReasoning text opts, [])"
| "convert_assistant_part env provider assets names (ACReasoningFile data media_type opts) = checked
     (case convert_file_part_data env (reasoning_file_data data) of
        Inl e \<Rightarrow> Inl e
      | Inr (converted, data_url_media_type) \<Rightarrow>
          (case (case converted of FDData b \<Rightarrow> Some (FileDataBytes b)
                 | FDUrl url original_url \<Rightarrow> Some (FileDataUrl url original_url)
                 | FDReference _ \<Rightarrow> None | FDText _ \<Rightarrow> None) of
             None \<Rightarrow> Inl (invalid_prompt ''Unsupported reasoning-file data type'')
           | Some generated \<Rightarrow>
               Inr (APReasoningFile \<lparr>lrf_data = generated, lrf_media_type = unwrap_or media_type data_url_media_type,
                      lrf_provider_options = opts\<rparr>, [])))"
| "convert_assistant_part env provider assets names (ACToolCall i name input provider_executed opts) =
     Inr (APToolCall \<lparr>ltc_id = i, ltc_name = name, ltc_input = input,
       ltc_provider_executed = provider_executed, ltc_provider_options = opts\<rparr>, [])"
| "convert_assistant_part env provider assets names (ACToolResult result) = checked
     (case convert_tool_result_part env provider assets names result of
        Inl e \<Rightarrow> Inl e | Inr (part, w) \<Rightarrow> Inr (APToolResult part, w))"
| "convert_assistant_part env provider assets names (ACToolApprovalRequest _ _ _ _ _ _) = Inl Panicked"

section \<open>Messages\<close>

definition convert_tool_content_part ::
  "'u prompt_env \<Rightarrow> string option \<Rightarrow> downloaded_assets \<Rightarrow> (string \<rightharpoonup> string) \<Rightarrow> tool_content_part \<Rightarrow>
   aimux_error + lm_tool_part \<times> warning list" where
  "convert_tool_content_part env provider assets names part = (case part of
     TCToolResult result \<Rightarrow>
       (case convert_tool_result_part env provider assets names result of
          Inl e \<Rightarrow> Inl e | Inr (p, w) \<Rightarrow> Inr (TPToolResult p, w))
   | TCToolApprovalResponse approval_id approved reason _ \<Rightarrow>
       Inr (TPToolApprovalResponse \<lparr>lar_approval_id = approval_id, lar_approved = approved, lar_reason = reason,
              lar_provider_options = None\<rparr>, []))"

fun reaches_provider :: "tool_content_part \<Rightarrow> bool" where
  "reaches_provider (TCToolResult _) = True"
| "reaches_provider (TCToolApprovalResponse _ _ _ provider_executed) = (provider_executed = Some True)"

fun empty_user_text :: "user_part \<Rightarrow> bool" where
  "empty_user_text (UPText t) = (tp_text t = [])" | "empty_user_text (UPFile _) = False"

fun sent_assistant_part :: "assistant_content_part \<Rightarrow> bool" where
  "sent_assistant_part (ACText text opts) = (\<not> (text = [] \<and> opts = None))"
| "sent_assistant_part (ACToolApprovalRequest _ _ _ _ _ _) = False"
| "sent_assistant_part _ = True"

fun convert_message ::
  "'u prompt_env \<Rightarrow> string option \<Rightarrow> downloaded_assets \<Rightarrow> (string \<rightharpoonup> string) \<Rightarrow> model_message \<Rightarrow>
   conversion_stop + language_model_message \<times> warning list" where
  "convert_message env provider assets names (SystemMessage content opts) = Inr (LMSystem content opts, [])"
| "convert_message env provider assets names (UserMessage (UserText text) opts) =
     Inr (LMUser [UPText \<lparr>tp_text = text, tp_provider_options = None\<rparr>] opts, [])"
| "convert_message env provider assets names (UserMessage (UserParts parts) opts) = checked
     (case collect_parts (convert_user_part env assets) parts of
        Inl e \<Rightarrow> Inl e
      | Inr (converted, w) \<Rightarrow> Inr (LMUser (filter (\<lambda>p. \<not> empty_user_text p) converted) opts, w))"
| "convert_message env provider assets names (AssistantMessage (AssistantText text) opts) =
     Inr (LMAssistant [APText \<lparr>tp_text = text, tp_provider_options = None\<rparr>] opts, [])"
| "convert_message env provider assets names (AssistantMessage (AssistantParts parts) opts) =
     (case collect_parts (convert_assistant_part env provider assets names) (filter sent_assistant_part parts) of
        Inl e \<Rightarrow> Inl e
      | Inr (converted, w) \<Rightarrow> Inr (LMAssistant converted opts, w))"
| "convert_message env provider assets names (ToolMessage parts opts) = checked
     (case collect_parts (convert_tool_content_part env provider assets names) (filter reaches_provider parts) of
        Inl e \<Rightarrow> Inl e
      | Inr (converted, w) \<Rightarrow> Inr (LMTool converted opts, w))"

fun call_names :: "assistant_content_part list \<Rightarrow> (string \<rightharpoonup> string) \<Rightarrow> (string \<rightharpoonup> string)" where
  "call_names [] names = names"
| "call_names (ACToolCall i name _ _ _ # parts) names = call_names parts (names(i \<mapsto> name))"
| "call_names (_ # parts) names = call_names parts names"

fun note_tool_names :: "model_message \<Rightarrow> (string \<rightharpoonup> string) \<Rightarrow> (string \<rightharpoonup> string)" where
  "note_tool_names (AssistantMessage (AssistantParts parts) _) names = call_names parts names"
| "note_tool_names _ names = names"

section \<open>The prompt\<close>

fun merge_last_options :: "provider_options option \<Rightarrow> lm_tool_part \<Rightarrow> lm_tool_part" where
  "merge_last_options opts (TPToolResult p) =
     TPToolResult (p\<lparr>ltr_provider_options := merge_objects opts (ltr_provider_options p)\<rparr>)"
| "merge_last_options opts (TPToolApprovalResponse p) =
     TPToolApprovalResponse (p\<lparr>lar_provider_options := merge_objects opts (lar_provider_options p)\<rparr>)"

definition merge_into_last :: "provider_options option \<Rightarrow> lm_tool_part list \<Rightarrow> lm_tool_part list" where
  "merge_into_last opts content =
     (if content \<noteq> [] \<and> opts \<noteq> None then butlast content @ [merge_last_options opts (last content)] else content)"

definition push_combining_tool_messages ::
  "language_model_message list \<Rightarrow> language_model_message \<Rightarrow> language_model_message list" where
  "push_combining_tool_messages messages message =
     (if messages = [] then [message]
      else (case (last messages, message) of
        (LMTool last_content last_options, LMTool content opts) \<Rightarrow>
          butlast messages @ [LMTool (merge_into_last last_options last_content @ content) opts]
      | _ \<Rightarrow> messages @ [message]))"

fun approval_requests :: "assistant_content_part list \<Rightarrow> (string \<rightharpoonup> string) \<Rightarrow> (string \<rightharpoonup> string)" where
  "approval_requests [] ids = ids"
| "approval_requests (ACToolApprovalRequest approval_id i _ _ _ _ # parts) ids =
     approval_requests parts (ids(approval_id \<mapsto> i))"
| "approval_requests (_ # parts) ids = approval_requests parts ids"

fun requested_tool_calls :: "model_message list \<Rightarrow> (string \<rightharpoonup> string) \<Rightarrow> (string \<rightharpoonup> string)" where
  "requested_tool_calls [] ids = ids"
| "requested_tool_calls (AssistantMessage (AssistantParts parts) _ # messages) ids =
     requested_tool_calls messages (approval_requests parts ids)"
| "requested_tool_calls (_ # messages) ids = requested_tool_calls messages ids"

definition answered_approvals :: "model_message \<Rightarrow> string list" where
  "answered_approvals message = (case message of
     ToolMessage parts _ \<Rightarrow>
       List.map_filter (\<lambda>p. case p of TCToolApprovalResponse approval_id _ _ _ \<Rightarrow> Some approval_id | _ \<Rightarrow> None) parts
   | _ \<Rightarrow> [])"

definition approved_tool_call_ids :: "model_message list \<Rightarrow> string set" where
  "approved_tool_call_ids messages =
     set (List.map_filter (requested_tool_calls messages Map.empty) (concat (map answered_approvals messages)))"

text \<open>\<open>open\<close> of \<open>check_tool_results\<close>: the calls without a result so far, in call order.\<close>

fun open_calls :: "lm_assistant_part list \<Rightarrow> string list \<Rightarrow> string list" where
  "open_calls [] ids = ids"
| "open_calls (APToolCall call # parts) ids =
     open_calls parts
       (if ltc_provider_executed call \<noteq> Some True \<and> ltc_id call \<notin> set ids then ids @ [ltc_id call] else ids)"
| "open_calls (_ # parts) ids = open_calls parts ids"

fun close_calls :: "lm_tool_part list \<Rightarrow> string list \<Rightarrow> string list" where
  "close_calls [] ids = ids"
| "close_calls (TPToolResult result # parts) ids = close_calls parts (filter (\<lambda>i. i \<noteq> ltr_id result) ids)"
| "close_calls (_ # parts) ids = close_calls parts ids"

definition check_open :: "string set \<Rightarrow> string list \<Rightarrow> aimux_error + string list" where
  "check_open approved ids =
     (let unanswered = filter (\<lambda>i. i \<notin> approved) ids
      in if unanswered = [] then Inr [] else Inl (MissingToolResults unanswered))"

fun check_tool_results_from :: "string set \<Rightarrow> language_model_message list \<Rightarrow> string list \<Rightarrow> aimux_error + string list" where
  "check_tool_results_from approved [] ids = check_open approved ids"
| "check_tool_results_from approved (LMAssistant content _ # messages) ids =
     check_tool_results_from approved messages (open_calls content ids)"
| "check_tool_results_from approved (LMTool content _ # messages) ids =
     check_tool_results_from approved messages (close_calls content ids)"
| "check_tool_results_from approved (_ # messages) ids =
     (case check_open approved ids of Inl e \<Rightarrow> Inl e | Inr ids' \<Rightarrow> check_tool_results_from approved messages ids')"

definition check_tool_results :: "language_model_message list \<Rightarrow> string set \<Rightarrow> aimux_error + unit" where
  "check_tool_results messages approved = map_sum (\<lambda>e. e) (\<lambda>_. ()) (check_tool_results_from approved messages [])"

fun convert_messages ::
  "'u prompt_env \<Rightarrow> string option \<Rightarrow> downloaded_assets \<Rightarrow> (string \<rightharpoonup> string) \<Rightarrow> language_model_message list \<Rightarrow>
   warning list \<Rightarrow> model_message list \<Rightarrow> conversion_stop + language_model_message list \<times> warning list" where
  "convert_messages env provider assets names result warnings [] = Inr (result, warnings)"
| "convert_messages env provider assets names result warnings (message # messages) =
     (case convert_message env provider assets (note_tool_names message names) message of
        Inl e \<Rightarrow> Inl e
      | Inr (converted, w) \<Rightarrow>
          convert_messages env provider assets (note_tool_names message names)
            (push_combining_tool_messages result converted) (warnings @ w) messages)"

fun empty_tool_message :: "language_model_message \<Rightarrow> bool" where
  "empty_tool_message (LMTool content _) = (content = [])" | "empty_tool_message _ = False"

definition leading_system :: "string option \<Rightarrow> language_model_message list" where
  "leading_system instructions = (case instructions of None \<Rightarrow> [] | Some text \<Rightarrow> [LMSystem text None])"

definition convert_with_warnings ::
  "'u prompt_env \<Rightarrow> model_message list \<Rightarrow> string option \<Rightarrow> string option \<Rightarrow> downloaded_assets \<Rightarrow>
   conversion_stop + language_model_message list \<times> warning list" where
  "convert_with_warnings env messages instructions provider assets =
     (case convert_messages env provider assets Map.empty (leading_system instructions) [] messages of
        Inl e \<Rightarrow> Inl e
      | Inr (result, warnings) \<Rightarrow>
          (case check_tool_results result (approved_tool_call_ids messages) of
             Inl e \<Rightarrow> Inl (Failed e)
           | Inr _ \<Rightarrow> Inr (filter (\<lambda>m. \<not> empty_tool_message m) result, warnings)))"

definition convert_to_language_model_prompt ::
  "'u prompt_env \<Rightarrow> model_message list \<Rightarrow> string option \<Rightarrow> string option \<Rightarrow>
   conversion_stop + language_model_message list" where
  "convert_to_language_model_prompt env messages instructions provider =
     map_sum (\<lambda>e. e) fst (convert_with_warnings env messages instructions provider Map.empty)"

definition convert_with_downloaded_assets ::
  "'u prompt_env \<Rightarrow> model_message list \<Rightarrow> string option \<Rightarrow> string option \<Rightarrow> downloaded_assets \<Rightarrow>
   conversion_stop + language_model_message list" where
  "convert_with_downloaded_assets env messages instructions provider assets =
     map_sum (\<lambda>e. e) fst (convert_with_warnings env messages instructions provider assets)"

section \<open>Downloads of a prompt\<close>

record planned_download =
  pd_url :: string
  pd_supported :: bool

type_synonym supported_urls = "(string \<times> (string \<Rightarrow> bool) list) list"

definition media_type_key_matches :: "string \<Rightarrow> string \<Rightarrow> bool" where
  "media_type_key_matches media_type key =
     (let pre = (if key = ''*'' \<or> key = ''*/*'' then [] else remove1 CHR ''*'' key) in
      if pre = [] then True
      else if CHR ''/'' \<notin> set media_type then media_type @ ''/'' = pre
      else if last pre = CHR ''/'' then take (length pre) media_type = pre
      else media_type = pre)"

definition is_supported :: "'u prompt_env \<Rightarrow> supported_urls \<Rightarrow> string \<Rightarrow> string \<Rightarrow> bool" where
  "is_supported env supported url media_type =
     list_ex (\<lambda>(key, patterns).
       media_type_key_matches (pe_lowercase env media_type) (pe_lowercase env key) \<and>
       list_ex (\<lambda>is_match. is_match (pe_lowercase env url)) patterns) supported"

definition plan_url :: "'u prompt_env \<Rightarrow> supported_urls \<Rightarrow> string \<Rightarrow> string \<Rightarrow> planned_download list" where
  "plan_url env supported url media_type =
     (if 5 \<le> length url \<and> eq_ignore_ascii_case (take 5 url) ''data:'' then []
      else [\<lparr>pd_url = url, pd_supported = is_supported env supported url media_type\<rparr>])"

fun plan_output :: "'u prompt_env \<Rightarrow> supported_urls \<Rightarrow> tool_result_output \<Rightarrow> planned_download list" where
  "plan_output env supported (OutContent items) =
     concat (map (\<lambda>item. case item of
        TIFile (FDUrl url _) media_type _ _ \<Rightarrow> plan_url env supported url media_type
      | _ \<Rightarrow> []) items)"
| "plan_output env supported _ = []"

fun plan_user_part :: "'u prompt_env \<Rightarrow> supported_urls \<Rightarrow> user_content_part \<Rightarrow> planned_download list" where
  "plan_user_part env supported (UCFile data media_type _ _) = (case convert_file_part_data env data of
     Inr (FDUrl url _, data_url_media_type) \<Rightarrow> plan_url env supported url (unwrap_or media_type data_url_media_type)
   | _ \<Rightarrow> [])"
| "plan_user_part env supported _ = []"

fun plan_message :: "'u prompt_env \<Rightarrow> supported_urls \<Rightarrow> model_message \<Rightarrow> planned_download list" where
  "plan_message env supported (UserMessage (UserParts parts) _) = concat (map (plan_user_part env supported) parts)"
| "plan_message env supported (ToolMessage parts _) =
     concat (map (\<lambda>p. case p of TCToolResult r \<Rightarrow> plan_output env supported (trp_output r) | _ \<Rightarrow> []) parts)"
| "plan_message env supported (AssistantMessage (AssistantParts parts) _) =
     concat (map (\<lambda>p. case p of ACToolResult r \<Rightarrow> plan_output env supported (trp_output r) | _ \<Rightarrow> []) parts)"
| "plan_message env supported _ = []"

definition collect_assets :: "planned_download list \<Rightarrow> downloaded_file option list \<Rightarrow> downloaded_assets" where
  "collect_assets planned files =
     fold (\<lambda>(p, file) assets. case file of None \<Rightarrow> assets | Some f \<Rightarrow> assets(pd_url p \<mapsto> f)) (zip planned files) Map.empty"

definition download_assets ::
  "'u prompt_env \<Rightarrow> model_message list \<Rightarrow> (planned_download list \<Rightarrow> aimux_error + downloaded_file option list) \<Rightarrow>
   supported_urls \<Rightarrow> aimux_error + downloaded_assets" where
  "download_assets env messages callback supported =
     (let planned = concat (map (plan_message env supported) messages)
      in case download_planned callback planned of
           Inl e \<Rightarrow> Inl e
         | Inr files \<Rightarrow> Inr (collect_assets planned files))"

text \<open>
  \<open>create_download\<close>: the guarded download of one URL over the network it meets, and
  \<open>create_default_download_function\<close>: the URLs the model does not fetch itself, concurrently; of several
  failures the one that completes first is the error, chosen by \<open>k\<close>.
\<close>

definition create_download ::
  "'u url_lib \<Rightarrow> (string \<Rightarrow> 'u network) \<Rightarrow> usize option \<Rightarrow> bool \<Rightarrow> string \<Rightarrow> aimux_error + downloaded_file" where
  "create_download u nets max_bytes cancelled url =
     map_sum (\<lambda>e. e) (\<lambda>(data, media_type). \<lparr>df_data = data, df_media_type = media_type\<rparr>)
       (download u (nets url) url max_bytes cancelled)"

definition default_download ::
  "(string \<Rightarrow> aimux_error + downloaded_file) \<Rightarrow> nat \<Rightarrow> planned_download list \<Rightarrow>
   aimux_error + downloaded_file option list" where
  "default_download fetch k planned =
     (let results = map (\<lambda>p. if pd_supported p then Inr None else map_sum (\<lambda>e. e) Some (fetch (pd_url p))) planned;
          failures = List.map_filter (\<lambda>r. case r of Inl e \<Rightarrow> Some e | Inr _ \<Rightarrow> None) results
      in if failures \<noteq> [] then Inl (failures ! (k mod length failures)) else Inr (map projr results))"

section \<open>Preparing a prompt\<close>

definition split_prompt :: "model_prompt \<Rightarrow> string option \<Rightarrow> model_message list \<times> string option" where
  "split_prompt prompt instructions = (case prompt of
     PromptText text \<Rightarrow> ([UserMessage (UserText text) None], instructions)
   | PromptMessages messages \<Rightarrow> (messages, instructions))"

definition standardize_prompt ::
  "model_prompt \<Rightarrow> string option \<Rightarrow> aimux_error + model_message list \<times> string option" where
  "standardize_prompt prompt instructions =
     (case split_prompt prompt instructions of (messages, instr) \<Rightarrow>
        if messages = [] then Inl (invalid_prompt ''messages must not be empty'') else Inr (messages, instr))"

definition provider_id :: "string \<Rightarrow> string option" where
  "provider_id provider = Some (hd (split_at CHR ''.'' provider))"

text \<open>
  \<open>prepare_prompt\<close>: \<open>interrupted\<close> is the error of the abort signal or the operation timeout when one of them
  ends the download first.
\<close>

definition prepare_prompt ::
  "'u prompt_env \<Rightarrow> string \<Rightarrow> supported_urls \<Rightarrow> model_prompt \<Rightarrow> string option \<Rightarrow>
   (planned_download list \<Rightarrow> aimux_error + downloaded_file option list) \<Rightarrow> aimux_error option \<Rightarrow>
   conversion_stop + language_model_message list \<times> model_message list" where
  "prepare_prompt env model_provider supported prompt instructions callback interrupted =
     (case standardize_prompt prompt instructions of
        Inl e \<Rightarrow> Inl (Failed e)
      | Inr (messages, instr) \<Rightarrow>
          (case (case interrupted of Some e \<Rightarrow> Inl e | None \<Rightarrow> download_assets env messages callback supported) of
             Inl e \<Rightarrow> Inl (Failed e)
           | Inr assets \<Rightarrow>
               (case convert_with_downloaded_assets env messages instr (provider_id model_provider) assets of
                  Inl e \<Rightarrow> Inl e
                | Inr prompt' \<Rightarrow> Inr (prompt', messages))))"

section \<open>Collecting parts\<close>

lemma collect_parts_Inr:
  "collect_parts f xs = Inr (ys, ws) \<Longrightarrow>
     length ys = length xs \<and> (\<forall>y \<in> set ys. \<exists>x \<in> set xs. \<exists>w. f x = Inr (y, w))"
  by (induction xs arbitrary: ys ws) (auto split: sum.splits prod.splits, metis+)

lemma collect_parts_Inl: "collect_parts f xs = Inl e \<Longrightarrow> \<exists>x \<in> set xs. f x = Inl e"
  by (induction xs) (auto split: sum.splits prod.splits)

lemma collect_parts_total:
  "(\<And>x. x \<in> set xs \<Longrightarrow> \<exists>y. f x = Inr (y, [])) \<Longrightarrow> \<exists>ys. collect_parts f xs = Inr (ys, [])"
proof (induction xs)
  case (Cons x xs)
  then obtain ys where "collect_parts f xs = Inr (ys, [])" by auto
  moreover obtain y where "f x = Inr (y, [])" using Cons.prems by auto
  ultimately show ?case by simp
qed simp

section \<open>No panic\<close>

lemma convert_assistant_part_no_panic:
  "sent_assistant_part p \<Longrightarrow> convert_assistant_part env provider assets names p \<noteq> Inl Panicked"
  by (cases p) (auto split: sum.splits option.splits file_data.splits prod.splits)

lemma convert_message_no_panic: "convert_message env provider assets names m \<noteq> Inl Panicked"
proof
  assume stop: "convert_message env provider assets names m = Inl Panicked"
  then obtain parts opts where m: "m = AssistantMessage (AssistantParts parts) opts"
    by (cases "(env, provider, assets, names, m)" rule: convert_message.cases) (auto split: sum.splits)
  then obtain p where "p \<in> set (filter sent_assistant_part parts)"
      "convert_assistant_part env provider assets names p = Inl Panicked"
    using stop by (auto split: sum.splits dest: collect_parts_Inl)
  then show False by (simp add: convert_assistant_part_no_panic)
qed

lemma convert_messages_no_panic: "convert_messages env provider assets names result warnings ms \<noteq> Inl Panicked"
  by (induction ms arbitrary: names result warnings) (auto simp: convert_message_no_panic split: sum.splits)

lemma convert_with_warnings_no_panic: "convert_with_warnings env ms instructions provider assets \<noteq> Inl Panicked"
  by (auto simp: convert_with_warnings_def convert_messages_no_panic split: sum.splits)

section \<open>Conversions one by one\<close>

text \<open>The messages converted each on its own, before consecutive tool messages are combined.\<close>

fun convert_each ::
  "'u prompt_env \<Rightarrow> string option \<Rightarrow> downloaded_assets \<Rightarrow> (string \<rightharpoonup> string) \<Rightarrow> model_message list \<Rightarrow>
   conversion_stop + language_model_message list \<times> warning list" where
  "convert_each env provider assets names [] = Inr ([], [])"
| "convert_each env provider assets names (m # ms) =
     (case convert_message env provider assets (note_tool_names m names) m of
        Inl e \<Rightarrow> Inl e
      | Inr (c, w) \<Rightarrow>
          (case convert_each env provider assets (note_tool_names m names) ms of
             Inl e \<Rightarrow> Inl e
           | Inr (cs, ws) \<Rightarrow> Inr (c # cs, w @ ws)))"

lemma convert_messages_each:
  "convert_messages env provider assets names result warnings ms =
     (case convert_each env provider assets names ms of
        Inl e \<Rightarrow> Inl e
      | Inr (cs, ws) \<Rightarrow> Inr (foldl push_combining_tool_messages result cs, warnings @ ws))"
  by (induction ms arbitrary: names result warnings) (auto split: sum.splits)

lemma push_combining_cases:
  obtains (combined) rest c o1 d o2 where "result = rest @ [LMTool c o1]" "m = LMTool d o2"
      "push_combining_tool_messages result m = rest @ [LMTool (merge_into_last o1 c @ d) o2]"
  | (pushed) "push_combining_tool_messages result m = result @ [m]"
      "\<And>rest c o1 d o2. \<lbrakk>result = rest @ [LMTool c o1]; m = LMTool d o2\<rbrakk> \<Longrightarrow> False"
proof (cases "\<exists>rest c o1 d o2. result = rest @ [LMTool c o1] \<and> m = LMTool d o2")
  case True
  then show ?thesis using combined by (auto simp: push_combining_tool_messages_def)
next
  case False
  have "push_combining_tool_messages result m = result @ [m]"
  proof (cases result rule: rev_cases)
    case (snoc rest l)
    then show ?thesis using False
      by (auto simp: push_combining_tool_messages_def split: language_model_message.splits)
  qed (simp add: push_combining_tool_messages_def)
  then show ?thesis using pushed False by blast
qed

section \<open>Checking tool results\<close>

text \<open>The loop of \<open>check_tool_results\<close> up to a point, without the check at its end.\<close>

definition check_step :: "string set \<Rightarrow> language_model_message \<Rightarrow> string list \<Rightarrow> aimux_error + string list" where
  "check_step approved m ids = (case m of
     LMAssistant content _ \<Rightarrow> Inr (open_calls content ids)
   | LMTool content _ \<Rightarrow> Inr (close_calls content ids)
   | _ \<Rightarrow> check_open approved ids)"

fun check_run :: "string set \<Rightarrow> language_model_message list \<Rightarrow> string list \<Rightarrow> aimux_error + string list" where
  "check_run approved [] ids = Inr ids"
| "check_run approved (m # ms) ids = (case check_step approved m ids of Inl e \<Rightarrow> Inl e | Inr ids' \<Rightarrow> check_run approved ms ids')"

lemma check_from_run:
  "check_tool_results_from approved ms ids =
     (case check_run approved ms ids of Inl e \<Rightarrow> Inl e | Inr ids' \<Rightarrow> check_open approved ids')"
proof (induction ms arbitrary: ids)
  case (Cons m ms)
  then show ?case by (cases m) (auto simp: check_step_def split: sum.splits)
qed simp

lemma check_run_append:
  "check_run approved (xs @ ys) ids =
     (case check_run approved xs ids of Inl e \<Rightarrow> Inl e | Inr ids' \<Rightarrow> check_run approved ys ids')"
  by (induction xs arbitrary: ids) (auto split: sum.splits)

lemma close_calls_append: "close_calls (xs @ ys) ids = close_calls ys (close_calls xs ids)"
  by (induction xs ids rule: close_calls.induct) simp_all

lemma close_calls_merge: "close_calls (merge_into_last opts c) ids = close_calls c ids"
proof (cases c rule: rev_cases)
  case (snoc c' p)
  then show ?thesis by (cases p) (simp_all add: merge_into_last_def close_calls_append)
qed (simp add: merge_into_last_def)

lemma check_run_push: "check_run approved (push_combining_tool_messages result m) ids = check_run approved (result @ [m]) ids"
  by (cases result m rule: push_combining_cases)
    (auto simp: check_run_append check_step_def close_calls_append close_calls_merge split: sum.splits)

lemma check_run_pushes: "check_run approved (foldl push_combining_tool_messages result cs) ids = check_run approved (result @ cs) ids"
proof (induction cs arbitrary: result)
  case (Cons c cs)
  have "check_run approved (push_combining_tool_messages result c @ cs) ids = check_run approved (result @ c # cs) ids"
    using check_run_push [of approved result c ids] check_run_append [of approved "result @ [c]" cs ids]
    by (simp add: check_run_append)
  then show ?case using Cons.IH by simp
qed simp

lemma check_run_leading: "check_run approved (leading_system instructions @ cs) [] = check_run approved cs []"
  by (cases instructions) (simp_all add: leading_system_def check_step_def check_open_def)

section \<open>Which tool calls need an answer\<close>

fun client_call :: "assistant_content_part \<Rightarrow> string option" where
  "client_call (ACToolCall i _ _ provider_executed _) = (if provider_executed = Some True then None else Some i)"
| "client_call _ = None"

fun result_of :: "tool_content_part \<Rightarrow> string option" where
  "result_of (TCToolResult r) = Some (trp_id r)" | "result_of _ = None"

fun client_calls :: "model_message \<Rightarrow> string list" where
  "client_calls (AssistantMessage (AssistantParts parts) _) = List.map_filter client_call parts"
| "client_calls _ = []"

fun answered_calls :: "model_message \<Rightarrow> string list" where
  "answered_calls (ToolMessage parts _) = List.map_filter result_of parts"
| "answered_calls _ = []"

text \<open>A call without a tool result in a later message.\<close>

fun unanswered :: "model_message list \<Rightarrow> string \<Rightarrow> bool" where
  "unanswered [] i = False"
| "unanswered (m # ms) i =
     (unanswered ms i \<or> i \<in> set (client_calls m) \<and> (\<forall>m' \<in> set ms. i \<notin> set (answered_calls m')))"

fun needs_answers :: "model_message \<Rightarrow> bool" where
  "needs_answers (SystemMessage _ _) = True"
| "needs_answers (UserMessage _ _) = True"
| "needs_answers _ = False"

text \<open>The answers to the first \<open>n\<close> messages are due at a user or system message and at the end.\<close>

definition answers_due :: "model_message list \<Rightarrow> nat \<Rightarrow> bool" where
  "answers_due ms n \<longleftrightarrow> n = length ms \<or> n < length ms \<and> needs_answers (ms ! n)"

definition missing_answers :: "model_message list \<Rightarrow> string set \<Rightarrow> nat \<Rightarrow> string set" where
  "missing_answers ms approved n = {i. unanswered (take n ms) i \<and> i \<notin> approved}"

lemma unanswered_snoc:
  "unanswered (ms @ [m]) i \<longleftrightarrow> i \<in> set (client_calls m) \<or> unanswered ms i \<and> i \<notin> set (answered_calls m)"
  by (induction ms) auto

lemma set_open_calls:
  "set (open_calls content ids) = set ids \<union> {ltc_id c | c. APToolCall c \<in> set content \<and> ltc_provider_executed c \<noteq> Some True}"
  by (induction content ids rule: open_calls.induct) auto

lemma distinct_open_calls: "distinct ids \<Longrightarrow> distinct (open_calls content ids)"
  by (induction content ids rule: open_calls.induct) auto

lemma set_close_calls: "set (close_calls content ids) = set ids - {ltr_id r | r. TPToolResult r \<in> set content}"
  by (induction content ids rule: close_calls.induct) auto

lemma distinct_close_calls: "distinct ids \<Longrightarrow> distinct (close_calls content ids)"
  by (induction content ids rule: close_calls.induct) auto

lemma set_map_filter_iff: "x \<in> set (List.map_filter f xs) \<longleftrightarrow> (\<exists>y \<in> set xs. f y = Some x)"
  by (induction xs) (auto simp: List.map_filter_simps split: option.splits)

lemma collect_parts_rel:
  "collect_parts f xs = Inr (ys, ws) \<Longrightarrow> list_all2 (\<lambda>x y. \<exists>w. f x = Inr (y, w)) xs ys"
  by (induction xs arbitrary: ys ws) (auto split: sum.splits prod.splits)

lemma list_all2_ex_iff:
  assumes "list_all2 R xs ys" and "\<And>x y. R x y \<Longrightarrow> x \<in> set xs \<Longrightarrow> P x \<longleftrightarrow> Q y"
  shows "(\<exists>x \<in> set xs. P x) \<longleftrightarrow> (\<exists>y \<in> set ys. Q y)"
  using assms by (induction rule: list_all2_induct) auto

lemma converted_call:
  assumes "convert_assistant_part env provider assets names p = Inr (q, w)"
  shows "client_call p = Some i \<longleftrightarrow> (\<exists>c. q = APToolCall c \<and> ltc_provider_executed c \<noteq> Some True \<and> ltc_id c = i)"
  using assms by (cases p) (auto split: sum.splits option.splits prod.splits)

lemma converted_result:
  assumes "convert_tool_content_part env provider assets names p = Inr (q, w)"
  shows "result_of p = Some i \<longleftrightarrow> (\<exists>r. q = TPToolResult r \<and> ltr_id r = i)"
  using assms by (cases p) (auto simp: convert_tool_content_part_def convert_tool_result_part_def
      split: sum.splits option.splits prod.splits if_splits)

text \<open>A converted message opens and closes the calls its source names.\<close>

definition step_as :: "string set \<Rightarrow> model_message \<Rightarrow> string list \<Rightarrow> aimux_error + string list \<Rightarrow> bool" where
  "step_as approved m ids r \<longleftrightarrow>
     (if needs_answers m then r = check_open approved ids
      else \<exists>ids'. r = Inr ids' \<and> distinct ids' \<and>
        set ids' = (set ids - set (answered_calls m)) \<union> set (client_calls m))"

lemma unsent_no_call: "\<not> sent_assistant_part p \<Longrightarrow> client_call p = None"
  by (cases p) auto

lemma unsent_no_result: "\<not> reaches_provider p \<Longrightarrow> result_of p = None"
  by (cases p) auto

lemma converted_assistant_calls:
  assumes "collect_parts (convert_assistant_part env provider assets names) (filter sent_assistant_part parts) = Inr (qs, w)"
  shows "{ltc_id c | c. APToolCall c \<in> set qs \<and> ltc_provider_executed c \<noteq> Some True} = set (List.map_filter client_call parts)"
proof -
  have "(\<exists>p \<in> set (filter sent_assistant_part parts). client_call p = Some i) \<longleftrightarrow>
      (\<exists>q \<in> set qs. \<exists>c. q = APToolCall c \<and> ltc_provider_executed c \<noteq> Some True \<and> ltc_id c = i)" for i
    by (rule list_all2_ex_iff [OF collect_parts_rel [OF assms]]) (use converted_call in blast)
  moreover have "(\<exists>p \<in> set (filter sent_assistant_part parts). client_call p = Some i) \<longleftrightarrow>
      (\<exists>p \<in> set parts. client_call p = Some i)" for i
    using unsent_no_call by fastforce
  ultimately show ?thesis unfolding set_eq_iff set_map_filter_iff mem_Collect_eq by metis
qed

lemma converted_tool_results:
  assumes "collect_parts (convert_tool_content_part env provider assets names) (filter reaches_provider parts) = Inr (qs, w)"
  shows "{ltr_id r | r. TPToolResult r \<in> set qs} = set (List.map_filter result_of parts)"
proof -
  have "(\<exists>p \<in> set (filter reaches_provider parts). result_of p = Some i) \<longleftrightarrow>
      (\<exists>q \<in> set qs. \<exists>r. q = TPToolResult r \<and> ltr_id r = i)" for i
    by (rule list_all2_ex_iff [OF collect_parts_rel [OF assms]]) (use converted_result in blast)
  moreover have "(\<exists>p \<in> set (filter reaches_provider parts). result_of p = Some i) \<longleftrightarrow>
      (\<exists>p \<in> set parts. result_of p = Some i)" for i
    using unsent_no_result by fastforce
  ultimately show ?thesis unfolding set_eq_iff set_map_filter_iff mem_Collect_eq by metis
qed

lemma converted_step:
  assumes "convert_message env provider assets names m = Inr (c, w)" and "distinct ids"
  shows "step_as approved m ids (check_step approved c ids)"
proof (cases "(env, provider, assets, names, m)" rule: convert_message.cases)
  case (5 env' provider' assets' names' parts opts)
  then obtain qs where c: "c = LMAssistant qs opts"
      "collect_parts (convert_assistant_part env provider assets names) (filter sent_assistant_part parts) = Inr (qs, w)"
    using assms by (auto split: sum.splits prod.splits)
  show ?thesis using 5 assms(2) converted_assistant_calls [OF c(2)]
    by (simp add: step_as_def check_step_def c set_open_calls distinct_open_calls)
next
  case (6 env' provider' assets' names' parts opts)
  then obtain qs where c: "c = LMTool qs opts"
      "collect_parts (convert_tool_content_part env provider assets names) (filter reaches_provider parts) = Inr (qs, w)"
    using assms by (auto split: sum.splits prod.splits)
  show ?thesis using 6 assms(2) converted_tool_results [OF c(2)]
    by (simp add: step_as_def check_step_def c set_close_calls distinct_close_calls)
qed (use assms in \<open>auto simp: step_as_def check_step_def split: sum.splits prod.splits\<close>)

text \<open>
  The loop over the converted messages: it goes on with the unanswered calls while no answer is missing,
  and stops at the first message at which one is.
\<close>

lemma check_open_cases:
  assumes "distinct ids"
  obtains (answered) "check_open approved ids = Inr []" "set ids - approved = {}"
  | (missing) missing where "check_open approved ids = Inl (MissingToolResults missing)" "missing \<noteq> []"
      "distinct missing" "set missing = set ids - approved"
proof (cases "filter (\<lambda>i. i \<notin> approved) ids = []")
  case True
  then show ?thesis using answered by (auto simp: check_open_def filter_empty_conv)
next
  case False
  have "set (filter (\<lambda>i. i \<notin> approved) ids) = set ids - approved" by auto
  then show ?thesis using missing [of "filter (\<lambda>i. i \<notin> approved) ids"] False assms by (simp add: check_open_def)
qed

definition run_outcome :: "model_message list \<Rightarrow> string set \<Rightarrow> aimux_error + string list \<Rightarrow> bool" where
  "run_outcome ms approved r \<longleftrightarrow> (case r of
     Inr ids \<Rightarrow> distinct ids \<and> set ids - approved = missing_answers ms approved (length ms) \<and>
       (\<forall>n < length ms. answers_due ms n \<longrightarrow> missing_answers ms approved n = {})
   | Inl e \<Rightarrow> (\<exists>ids. \<exists>n < length ms. e = MissingToolResults ids \<and> answers_due ms n \<and> ids \<noteq> [] \<and> distinct ids \<and>
       set ids = missing_answers ms approved n \<and>
       (\<forall>k < n. answers_due ms k \<longrightarrow> missing_answers ms approved k = {})))"

lemma due_prefix:
  "n < length ms \<Longrightarrow> answers_due (ms @ [m]) n = answers_due ms n"
  "n \<le> length ms \<Longrightarrow> missing_answers (ms @ [m]) approved n = missing_answers ms approved n"
  by (simp_all add: answers_due_def missing_answers_def nth_append)

lemma due_at_end: "answers_due (ms @ [m]) (length ms) = needs_answers m"
  by (simp add: answers_due_def)

lemma missing_snoc:
  "missing_answers (ms @ [m]) approved (length (ms @ [m])) =
     (missing_answers ms approved (length ms) - set (answered_calls m)) \<union> (set (client_calls m) - approved)"
  by (auto simp: missing_answers_def unanswered_snoc)

lemma needs_answers_plain: "needs_answers m \<Longrightarrow> client_calls m = [] \<and> answered_calls m = []"
  by (cases m) auto

lemma run_outcome_step:
  assumes inv: "run_outcome ms approved (Inr ids)" and step: "step_as approved m ids r"
  shows "run_outcome (ms @ [m]) approved r"
proof -
  have ids: "distinct ids" "set ids - approved = missing_answers ms approved (length ms)"
    and earlier: "\<And>n. n < length ms \<Longrightarrow> answers_due ms n \<Longrightarrow> missing_answers ms approved n = {}"
    using inv by (simp_all add: run_outcome_def)
  show ?thesis
  proof (cases "needs_answers m")
    case False
    then obtain ids' where ids': "r = Inr ids'" "distinct ids'"
        "set ids' = (set ids - set (answered_calls m)) \<union> set (client_calls m)"
      using step by (auto simp: step_as_def)
    have "set ids' - approved = missing_answers (ms @ [m]) approved (length (ms @ [m]))"
      unfolding missing_snoc ids' using ids(2) by blast
    moreover have "missing_answers (ms @ [m]) approved n = {}" if "n < length (ms @ [m])" "answers_due (ms @ [m]) n" for n
      using that earlier [of n] False due_at_end [of ms m]
      by (cases "n = length ms") (auto simp: due_prefix)
    ultimately show ?thesis using ids' by (simp add: run_outcome_def)
  next
    case True
    then have r: "r = check_open approved ids" using step by (simp add: step_as_def)
    from ids(1) show ?thesis
    proof (cases rule: check_open_cases [where approved = approved])
      case answered
      have "missing_answers (ms @ [m]) approved n = {}" if "n < length (ms @ [m])" "answers_due (ms @ [m]) n" for n
        using that earlier [of n] answered(2) ids(2) by (cases "n = length ms") (auto simp: due_prefix)
      moreover have "missing_answers (ms @ [m]) approved (length (ms @ [m])) = {}"
        unfolding missing_snoc using ids(2) answered(2) needs_answers_plain [OF True] by simp
      ultimately show ?thesis using r answered by (simp add: run_outcome_def)
    next
      case (missing missing)
      have "\<forall>k < length ms. answers_due (ms @ [m]) k \<longrightarrow> missing_answers (ms @ [m]) approved k = {}"
        using earlier by (simp add: due_prefix)
      then show ?thesis unfolding run_outcome_def r missing(1) using missing ids(2) True due_at_end [of ms m]
        by (auto simp: due_prefix intro!: exI [of _ "length ms"])
    qed
  qed
qed

lemma run_outcome_stopped:
  assumes "run_outcome ms approved (Inl e)"
  shows "run_outcome (ms @ [m]) approved (Inl e)"
proof -
  obtain ids n where n: "n < length ms" "e = MissingToolResults ids" "answers_due ms n" "ids \<noteq> []" "distinct ids"
      "set ids = missing_answers ms approved n" "\<forall>k < n. answers_due ms k \<longrightarrow> missing_answers ms approved k = {}"
    using assms by (auto simp: run_outcome_def)
  then have "\<forall>k < n. answers_due (ms @ [m]) k \<longrightarrow> missing_answers (ms @ [m]) approved k = {}"
    by (simp add: due_prefix)
  then show ?thesis unfolding run_outcome_def using n by (auto simp: due_prefix intro!: exI [of _ n])
qed

lemma convert_each_snoc:
  assumes "convert_each env provider assets names (ms @ [m]) = Inr (cs, ws)"
  obtains cs' c names' ws' w where "cs = cs' @ [c]" "convert_each env provider assets names ms = Inr (cs', ws')"
    "convert_message env provider assets names' m = Inr (c, w)"
  using assms
proof (induction ms arbitrary: names cs ws thesis)
  case Nil
  then show ?case by (auto split: sum.splits prod.splits)
next
  case (Cons x ms)
  then obtain c0 w0 cs0 ws0 where c0: "convert_message env provider assets (note_tool_names x names) x = Inr (c0, w0)"
      "convert_each env provider assets (note_tool_names x names) (ms @ [m]) = Inr (cs0, ws0)" "cs = c0 # cs0"
    by (auto split: sum.splits prod.splits)
  from Cons.IH [OF _ c0(2)] obtain cs' c names' ws' w where "cs0 = cs' @ [c]"
      "convert_each env provider assets (note_tool_names x names) ms = Inr (cs', ws')"
      "convert_message env provider assets names' m = Inr (c, w)" by metis
  then show ?case using Cons.prems(1) [of "c0 # cs'" c "w0 @ ws'"] c0 by simp
qed

lemma check_run_outcome:
  "convert_each env provider assets names ms = Inr (cs, ws) \<Longrightarrow> run_outcome ms approved (check_run approved cs [])"
proof (induction ms arbitrary: cs ws rule: rev_induct)
  case Nil
  then show ?case by (auto simp: run_outcome_def missing_answers_def)
next
  case (snoc m ms)
  then obtain cs' c names' ws' w where c: "cs = cs' @ [c]" "convert_each env provider assets names ms = Inr (cs', ws')"
      "convert_message env provider assets names' m = Inr (c, w)" by (metis convert_each_snoc)
  have IH: "run_outcome ms approved (check_run approved cs' [])" using snoc.IH [OF c(2)] .
  show ?case
  proof (cases "check_run approved cs' []")
    case (Inl e)
    then show ?thesis using IH by (simp add: c(1) check_run_append run_outcome_stopped)
  next
    case (Inr ids)
    then have "distinct ids" using IH by (simp add: run_outcome_def)
    from converted_step [OF c(3) this, of approved] show ?thesis
      using IH run_outcome_step [of ms approved ids m "check_step approved c ids"]
      by (cases "check_step approved c ids") (simp_all add: c(1) check_run_append Inr)
  qed
qed

lemma convert_with_warnings_each:
  "convert_with_warnings env ms instructions provider assets =
     (case convert_each env provider assets Map.empty ms of
        Inl e \<Rightarrow> Inl e
      | Inr (cs, ws) \<Rightarrow>
          (case check_run (approved_tool_call_ids ms) cs [] of
             Inl e \<Rightarrow> Inl (Failed e)
           | Inr ids \<Rightarrow>
               (case check_open (approved_tool_call_ids ms) ids of
                  Inl e \<Rightarrow> Inl (Failed e)
                | Inr _ \<Rightarrow>
                    Inr (filter (\<lambda>m. \<not> empty_tool_message m)
                           (foldl push_combining_tool_messages (leading_system instructions) cs), ws))))"
  by (auto simp: convert_with_warnings_def convert_messages_each check_tool_results_def check_from_run check_run_pushes
      check_run_leading split: sum.splits prod.splits)

lemma outcome_at_end:
  assumes "run_outcome ms approved (Inr ids)"
  shows "(\<exists>n \<le> length ms. answers_due ms n \<and> missing_answers ms approved n \<noteq> {}) \<longleftrightarrow> set ids - approved \<noteq> {}"
proof -
  have "missing_answers ms approved n = {}" if "n < length ms" "answers_due ms n" for n
    using assms that by (simp add: run_outcome_def)
  moreover have "set ids - approved = missing_answers ms approved (length ms)" using assms by (simp add: run_outcome_def)
  ultimately show ?thesis by (metis answers_due_def le_neq_implies_less order_refl)
qed

lemma conversion_outcome:
  "case convert_each env provider assets Map.empty messages of
     Inl e \<Rightarrow> convert_with_warnings env messages instructions provider assets = Inl e
   | Inr (cs, ws) \<Rightarrow>
       if \<exists>n \<le> length messages. answers_due messages n \<and>
            missing_answers messages (approved_tool_call_ids messages) n \<noteq> {}
       then \<exists>ids n. convert_with_warnings env messages instructions provider assets = Inl (Failed (MissingToolResults ids))
          \<and> n \<le> length messages \<and> answers_due messages n \<and> ids \<noteq> [] \<and> distinct ids
          \<and> set ids = missing_answers messages (approved_tool_call_ids messages) n
          \<and> (\<forall>k < n. answers_due messages k \<longrightarrow>
               missing_answers messages (approved_tool_call_ids messages) k = {})
       else \<exists>prompt. convert_with_warnings env messages instructions provider assets = Inr (prompt, ws)"
proof (cases "convert_each env provider assets Map.empty messages")
  case (Inl e)
  then show ?thesis by (simp add: convert_with_warnings_each)
next
  case (Inr r)
  obtain cs ws where r: "r = (cs, ws)" by (cases r)
  let ?A = "approved_tool_call_ids messages"
  have out: "run_outcome messages ?A (check_run ?A cs [])" using check_run_outcome Inr r by blast
  have conv: "convert_each env provider assets Map.empty messages = Inr (cs, ws)" using Inr r by simp
  show ?thesis
  proof (cases "check_run ?A cs []")
    case stop: (Inl e)
    then obtain ids n where n: "n < length messages" "e = MissingToolResults ids" "answers_due messages n" "ids \<noteq> []"
        "distinct ids" "set ids = missing_answers messages ?A n"
        "\<forall>k < n. answers_due messages k \<longrightarrow> missing_answers messages ?A k = {}"
      using out by (auto simp: run_outcome_def)
    then have "\<exists>n \<le> length messages. answers_due messages n \<and> missing_answers messages ?A n \<noteq> {}"
      by (metis less_imp_le set_empty2)
    then show ?thesis using n stop conv less_imp_le [OF n(1)]
      by (auto simp: convert_with_warnings_each intro!: exI [of _ ids] exI [of _ n])
  next
    case run: (Inr ids)
    then have ids: "distinct ids" and miss: "set ids - ?A = missing_answers messages ?A (length messages)"
      and before: "\<forall>k < length messages. answers_due messages k \<longrightarrow> missing_answers messages ?A k = {}"
      using out by (simp_all add: run_outcome_def)
    note due = outcome_at_end [OF out [unfolded run]]
    have at_end: "answers_due messages (length messages)" by (simp add: answers_due_def)
    from ids show ?thesis
    proof (cases rule: check_open_cases [where approved = ?A])
      case answered
      then show ?thesis using due run conv by (simp add: convert_with_warnings_each)
    next
      case (missing missing)
      have "set ids - ?A \<noteq> {}" using missing(2,4) by (metis set_empty)
      then have "\<exists>n \<le> length messages. answers_due messages n \<and> missing_answers messages ?A n \<noteq> {}"
        using due by simp
      then show ?thesis using run conv missing miss before at_end
        by (auto simp: convert_with_warnings_each intro!: exI [of _ missing] exI [of _ "length messages"])
    qed
  qed
qed


definition sample_prompt_env :: "string prompt_env" where
  "sample_prompt_env = \<lparr>pe_urls = sample_url_lib, pe_path = (\<lambda>u. u), pe_lowercase = to_ascii_lowercase\<rparr>"

definition sample_tool_result :: "string \<Rightarrow> tool_content_part" where
  "sample_tool_result i = TCToolResult \<lparr>trp_id = i, trp_name = None, trp_output = OutText ''ok'' None,
     trp_provider_options = None\<rparr>"

definition sample_messages :: "model_message list" where
  "sample_messages =
     [UserMessage (UserText ''hi'') None,
      AssistantMessage (AssistantParts [ACToolCall ''c1'' ''a'' JNull None None, ACToolCall ''c2'' ''b'' JNull None None]) None,
      ToolMessage [sample_tool_result ''c1''] None,
      UserMessage (UserText ''go on'') None]"

lemma sample_approved: "approved_tool_call_ids sample_messages = {}"
  by (simp add: approved_tool_call_ids_def sample_messages_def answered_approvals_def sample_tool_result_def
      List.map_filter_simps)

lemma sample_missing: "missing_answers sample_messages {} 3 = {''c2''}" "missing_answers sample_messages {} 0 = {}"
  by (auto simp: missing_answers_def sample_messages_def sample_tool_result_def List.map_filter_simps numeral_3_eq_3)

lemma sample_each: "\<exists>cs. convert_each sample_prompt_env None Map.empty Map.empty sample_messages = Inr (cs, [])"
  by (simp add: sample_messages_def sample_tool_result_def convert_tool_content_part_def convert_tool_result_part_def)


section \<open>The shape of a prompt\<close>

text \<open>
  What a prompt says, without the message that holds a tool part and its provider options, which
  combining tool messages moves.
\<close>

datatype prompt_item = WholeMessage language_model_message | ToolItem lm_tool_part

fun without_options :: "lm_tool_part \<Rightarrow> lm_tool_part" where
  "without_options (TPToolResult p) = TPToolResult (p\<lparr>ltr_provider_options := None\<rparr>)"
| "without_options (TPToolApprovalResponse p) = TPToolApprovalResponse (p\<lparr>lar_provider_options := None\<rparr>)"

fun message_items :: "language_model_message \<Rightarrow> prompt_item list" where
  "message_items (LMTool content _) = map (ToolItem \<circ> without_options) content"
| "message_items m = [WholeMessage m]"

abbreviation prompt_items :: "language_model_message list \<Rightarrow> prompt_item list" where
  "prompt_items ms \<equiv> concat (map message_items ms)"

fun is_tool_message :: "language_model_message \<Rightarrow> bool" where
  "is_tool_message (LMTool _ _) = True" | "is_tool_message _ = False"

definition apart :: "language_model_message \<Rightarrow> language_model_message \<Rightarrow> bool" where
  "apart a b \<longleftrightarrow> \<not> (is_tool_message a \<and> is_tool_message b)"

lemma without_options_merge: "map without_options (merge_into_last opts c) = map without_options c"
proof (cases c rule: rev_cases)
  case (snoc c' p)
  then show ?thesis by (cases p) (simp_all add: merge_into_last_def)
qed (simp add: merge_into_last_def)

lemma items_push: "prompt_items (push_combining_tool_messages result m) = prompt_items (result @ [m])"
  by (cases result m rule: push_combining_cases)
    (simp_all add: map_map [symmetric] without_options_merge del: map_map)

lemma items_pushes: "prompt_items (foldl push_combining_tool_messages result cs) = prompt_items (result @ cs)"
  by (induction cs arbitrary: result) (simp_all add: items_push)

lemma is_tool_message_iff: "is_tool_message m \<longleftrightarrow> (\<exists>c opts. m = LMTool c opts)"
  by (cases m) auto

lemma apart_push:
  assumes "successively apart result"
  shows "successively apart (push_combining_tool_messages result m)"
proof (cases result m rule: push_combining_cases)
  case (combined rest c o1 d o2)
  then show ?thesis using assms by (auto simp: successively_append_iff apart_def)
next
  case pushed
  have "apart (last result) m" if "result \<noteq> []"
    using that pushed(2) unfolding apart_def by (metis append_butlast_last_id is_tool_message_iff)
  then show ?thesis using pushed(1) assms by (auto simp: successively_append_iff)
qed

lemma apart_pushes: "successively apart result \<Longrightarrow> successively apart (foldl push_combining_tool_messages result cs)"
  by (induction cs arbitrary: result) (simp_all add: apart_push)

lemma empty_is_tool: "empty_tool_message m \<Longrightarrow> is_tool_message m"
  by (cases m) auto

lemma apart_retain:
  assumes "successively apart ms"
  shows "successively apart (filter (\<lambda>m. \<not> empty_tool_message m) ms)"
  using assms
proof (induction ms)
  case (Cons m ms)
  have "apart m (hd (filter (\<lambda>m. \<not> empty_tool_message m) ms))" if "filter (\<lambda>m. \<not> empty_tool_message m) ms \<noteq> []"
    using Cons.prems that
  proof (induction ms)
    case (Cons n ms)
    show ?case
    proof (cases "empty_tool_message n")
      case True
      with Cons.prems have "\<not> is_tool_message m" using empty_is_tool by (auto simp: apart_def)
      then show ?thesis by (simp add: apart_def)
    qed (use Cons.prems in simp)
  qed simp
  moreover have "successively apart ms" using Cons.prems by (cases ms) simp_all
  ultimately show ?case using Cons.IH by (auto simp: successively_Cons)
qed simp

lemma items_retain: "prompt_items (filter (\<lambda>m. \<not> empty_tool_message m) ms) = prompt_items ms"
proof (induction ms)
  case (Cons m ms)
  then show ?case by (cases m) auto
qed simp

text \<open>
  A converted prompt holds, in order, the instructions as a system message and what each message
  converts to on its own, tool parts in their order, and the warnings of all of them; its tool messages are
  never empty and no two follow each other.
\<close>

lemma prompt_content_kept:
  assumes "convert_with_warnings env messages instructions provider assets = Inr (prompt, ws)"
  shows "\<exists>cs. convert_each env provider assets Map.empty messages = Inr (cs, ws) \<and>
    prompt_items prompt = prompt_items (leading_system instructions @ cs) \<and>
    successively apart prompt \<and> (\<forall>m. m \<in> set prompt \<longrightarrow> \<not> empty_tool_message m)"
proof -
  obtain cs where cs: "convert_each env provider assets Map.empty messages = Inr (cs, ws)"
      "prompt = filter (\<lambda>m. \<not> empty_tool_message m) (foldl push_combining_tool_messages (leading_system instructions) cs)"
    using assms by (auto simp: convert_with_warnings_each split: sum.splits prod.splits)
  have "successively apart (leading_system instructions)" by (cases instructions) (simp_all add: leading_system_def)
  then show ?thesis using cs by (auto simp: items_retain items_pushes apart_retain apart_pushes)
qed

definition sample_answered :: "model_message list" where
  "sample_answered = take 2 sample_messages @
     [ToolMessage [sample_tool_result ''c1''] None, ToolMessage [TCToolApprovalResponse ''x'' True None None] None,
      ToolMessage [sample_tool_result ''c2''] None]"

lemma prompt_content_kept_witness:
  "\<exists>prompt. convert_with_warnings sample_prompt_env sample_answered (Some ''be brief'') None Map.empty = Inr (prompt, [])
     \<and> successively apart prompt \<and> length prompt = 4"
proof -
  obtain prompt where p: "convert_with_warnings sample_prompt_env sample_answered (Some ''be brief'') None Map.empty = Inr (prompt, [])"
      "length prompt = 4"
    by (simp add: sample_answered_def sample_messages_def sample_tool_result_def convert_tool_content_part_def
        convert_tool_result_part_def convert_with_warnings_def leading_system_def push_combining_tool_messages_def
        merge_into_last_def check_tool_results_def check_open_def)
  from prompt_content_kept [OF p(1)] p show ?thesis by blast
qed

section \<open>URLs left to the model\<close>

lemma default_download_entry:
  assumes "default_download fetch k planned = Inr files" and "(p, None) \<in> set (zip planned files)"
  shows "pd_supported p"
proof -
  let ?r = "\<lambda>p. if pd_supported p then Inr None else map_sum (\<lambda>e. e) Some (fetch (pd_url p))"
  have files: "files = map projr (map ?r planned)"
    and ok: "List.map_filter (\<lambda>r. case r of Inl e \<Rightarrow> Some e | Inr _ \<Rightarrow> None) (map ?r planned) = []"
    using assms(1) by (auto simp: default_download_def Let_def split: if_splits)
  have "p \<in> set planned" and none: "projr (?r p) = None"
    using assms(2) by (auto simp: files set_zip)
  moreover have "\<not> isl r" if "r \<in> set (map ?r planned)" for r
  proof (cases r)
    case (Inl e)
    then have "e \<in> set (List.map_filter (\<lambda>r. case r of Inl e \<Rightarrow> Some e | Inr _ \<Rightarrow> None) (map ?r planned))"
      using that unfolding set_map_filter_iff by (intro bexI [of _ r]) (simp_all only: sum.case)
    then show ?thesis unfolding ok by simp
  qed simp
  ultimately have "\<not> isl (?r p)" unfolding set_map by blast
  then show ?thesis using none by (cases "fetch (pd_url p)") (auto split: if_splits)
qed

lemma fold_assets_keep:
  "assets url \<noteq> None \<Longrightarrow>
   fold (\<lambda>(p, file) assets. case file of None \<Rightarrow> assets | Some f \<Rightarrow> assets(pd_url p \<mapsto> f)) entries assets url \<noteq> None"
  by (induction entries arbitrary: assets) (auto split: option.splits)

lemma collect_assets_None:
  assumes "collect_assets planned files (pd_url p) = None" and "(p, file) \<in> set (zip planned files)"
  shows "file = None"
proof -
  have "fold (\<lambda>(p, file) assets. case file of None \<Rightarrow> assets | Some f \<Rightarrow> assets(pd_url p \<mapsto> f)) entries assets (pd_url p) \<noteq> None"
    if "(p, Some f) \<in> set entries" for f entries and assets :: downloaded_assets
    using that
  proof (induction entries arbitrary: assets)
    case (Cons entry entries)
    then show ?case
      using fold_assets_keep [of "assets(pd_url p \<mapsto> f)" "pd_url p" entries] by (cases entry) auto
  qed simp
  then have "(p, Some f) \<notin> set (zip planned files)" for f
    using assms(1) unfolding collect_assets_def by blast
  then show ?thesis using assms(2) by (metis not_Some_eq)
qed

lemma left_url_planned:
  assumes down: "download_assets env messages (default_download fetch k) supported = Inr assets"
    and planned: "p \<in> set (concat (map (plan_message env supported) messages))" and left: "assets (pd_url p) = None"
  shows "pd_supported p"
proof -
  let ?plan = "concat (map (plan_message env supported) messages)"
  obtain files where files: "default_download fetch k ?plan = Inr files" "length files = length ?plan"
      "assets = collect_assets ?plan files"
    using down by (auto simp: download_assets_def download_planned_def Let_def split: sum.splits if_splits)
  obtain i where i: "i < length ?plan" "?plan ! i = p" using planned unfolding in_set_conv_nth by blast
  then have entry: "(p, files ! i) \<in> set (zip ?plan files)" using files(2) by (auto simp: set_zip)
  then have "files ! i = None" using collect_assets_None left files(3) by blast
  then show ?thesis using default_download_entry [OF files(1)] entry by simp
qed

lemma convert_each_member:
  "convert_each env provider assets names ms = Inr (cs, ws) \<Longrightarrow> c \<in> set cs \<Longrightarrow>
     \<exists>m \<in> set ms. \<exists>names' w. convert_message env provider assets names' m = Inr (c, w)"
  by (induction ms arbitrary: names cs ws) (fastforce split: sum.splits prod.splits)+

lemma prompt_user_message:
  assumes "convert_with_warnings env messages instructions provider assets = Inr (prompt, ws)"
    and "LMUser parts opts \<in> set prompt"
  shows "\<exists>m \<in> set messages. \<exists>names w. convert_message env provider assets names m = Inr (LMUser parts opts, w)"
proof -
  obtain cs where cs: "convert_each env provider assets Map.empty messages = Inr (cs, ws)"
      "prompt = filter (\<lambda>m. \<not> empty_tool_message m) (foldl push_combining_tool_messages (leading_system instructions) cs)"
    using assms(1) by (auto simp: convert_with_warnings_each split: sum.splits prod.splits)
  have iff: "LMUser parts opts \<in> set ms \<longleftrightarrow> WholeMessage (LMUser parts opts) \<in> set (prompt_items ms)" for ms
  proof
    assume "WholeMessage (LMUser parts opts) \<in> set (prompt_items ms)"
    then obtain m where "m \<in> set ms" "WholeMessage (LMUser parts opts) \<in> set (message_items m)" by auto
    moreover have "m = LMUser parts opts" if "WholeMessage (LMUser parts opts) \<in> set (message_items m)" for m
      using that by (cases m) auto
    ultimately show "LMUser parts opts \<in> set ms" by blast
  qed force
  have "LMUser parts opts \<in> set (leading_system instructions @ cs)"
    using assms(2) unfolding iff cs(2) by (simp only: items_retain items_pushes)
  then have "LMUser parts opts \<in> set cs" by (auto simp: leading_system_def split: option.splits)
  then show ?thesis using convert_each_member [OF cs(1)] by blast
qed

definition is_data_url :: "string \<Rightarrow> bool" where
  "is_data_url url \<longleftrightarrow> 5 \<le> length url \<and> eq_ignore_ascii_case (take 5 url) ''data:''"

lemma user_file_url:
  assumes "convert_user_part env assets p = Inr (UPFile f, w)" and "fp_data f = FDUrl url original_url" and "\<not> is_data_url url"
  shows "assets url = None \<and>
    \<lparr>pd_url = url, pd_supported = is_supported env supported url (fp_media_type f)\<rparr> \<in> set (plan_user_part env supported p)"
proof (cases p)
  case (UCFile data media_type filename opts)
  then obtain converted data_url_media_type where conv: "convert_file_part_data env data = Inr (converted, data_url_media_type)"
      "f = file_part_or_asset assets converted (unwrap_or media_type data_url_media_type) filename opts"
    using assms(1) by (auto split: sum.splits prod.splits)
  have "converted = FDUrl url original_url \<and> assets url = None"
    using assms(2) by (auto simp: conv(2) file_part_or_asset_def make_file_part_def downloaded_file_part_def
        split: file_data.splits option.splits)
  then show ?thesis using assms(3) UCFile conv
    by (auto simp: plan_url_def is_data_url_def file_part_or_asset_def make_file_part_def)
qed (use assms in \<open>auto simp: make_file_part_def\<close>)

text \<open>
  With the default download, a URL that a prepared prompt still holds in a user message's file part is a
  \<open>data:\<close> URL or one that the model fetches itself for the part's media type: every other URL was
  downloaded and is sent inline.
\<close>

lemma prompt_urls_supported:
  assumes "prepare_prompt env model_provider supported prompt instructions (default_download fetch k) interrupted =
      Inr (lm_prompt, messages)"
    and "LMUser parts opts \<in> set lm_prompt" and "UPFile f \<in> set parts" and "fp_data f = FDUrl url original_url"
  shows "is_data_url url \<or> is_supported env supported url (fp_media_type f)"
proof (rule disjCI)
  assume "\<not> is_supported env supported url (fp_media_type f)"
  then have unsupported: "\<not> is_supported env supported url (fp_media_type f)" .
  obtain assets instr ws where assets: "download_assets env messages (default_download fetch k) supported = Inr assets"
      "convert_with_warnings env messages instr (provider_id model_provider) assets = Inr (lm_prompt, ws)"
    using assms(1) by (auto simp: prepare_prompt_def convert_with_downloaded_assets_def map_sum_Inr
        split: sum.splits prod.splits option.splits)
  obtain m names w where m: "m \<in> set messages"
      "convert_message env (provider_id model_provider) assets names m = Inr (LMUser parts opts, w)"
    using prompt_user_message [OF assets(2) assms(2)] by blast
  then obtain ps opts' where ps: "m = UserMessage (UserParts ps) opts'"
    using assms(3) by (cases "(env, provider_id model_provider, assets, names, m)" rule: convert_message.cases)
      (auto split: sum.splits prod.splits)
  then obtain qs ws' where "collect_parts (convert_user_part env assets) ps = Inr (qs, ws')" "UPFile f \<in> set qs"
    using m(2) assms(3) by (auto split: sum.splits prod.splits)
  then obtain p w' where p: "p \<in> set ps" "convert_user_part env assets p = Inr (UPFile f, w')"
    using collect_parts_Inr by blast
  show "is_data_url url"
  proof (rule ccontr)
    assume "\<not> is_data_url url"
    from user_file_url [OF p(2) assms(4) this, of supported]
    have left: "assets url = None" and "\<lparr>pd_url = url, pd_supported = is_supported env supported url (fp_media_type f)\<rparr>
        \<in> set (plan_message env supported m)"
      using p(1) by (auto simp: ps)
    then have "\<lparr>pd_url = url, pd_supported = is_supported env supported url (fp_media_type f)\<rparr>
        \<in> set (concat (map (plan_message env supported) messages))"
      using m(1) by auto
    from left_url_planned [OF assets(1) this] left unsupported show False by simp
  qed
qed

definition sample_file_prompt :: model_prompt where
  "sample_file_prompt = PromptMessages [UserMessage (UserParts
     [UCFile (FPString ''https://x.test/f'') ''image/png'' None None]) None]"

definition sample_supported :: supported_urls where
  "sample_supported = [(''image/*'', [\<lambda>url. take 8 url = ''https://''])]"

lemma prompt_urls_supported_witness:
  "\<exists>lm_prompt parts f. prepare_prompt sample_prompt_env ''openai.chat'' sample_supported sample_file_prompt None
      (default_download (\<lambda>_. Inl (other ''no network'')) 0) None = Inr (lm_prompt, [UserMessage (UserParts
     [UCFile (FPString ''https://x.test/f'') ''image/png'' None None]) None])
    \<and> LMUser parts None \<in> set lm_prompt \<and> UPFile f \<in> set parts \<and> fp_data f = FDUrl ''https://x.test/f'' None
    \<and> (is_data_url ''https://x.test/f'' \<or> is_supported sample_prompt_env sample_supported ''https://x.test/f'' (fp_media_type f))"
proof -
  let ?f = "make_file_part (FDUrl ''https://x.test/f'' None) ''image/png'' None None"
  let ?messages = "[UserMessage (UserParts [UCFile (FPString ''https://x.test/f'') ''image/png'' None None]) None]"
  have conv: "convert_file_part_data sample_prompt_env (FPString ''https://x.test/f'') = Inr (FDUrl ''https://x.test/f'' None, None)"
    by (simp add: convert_url_to_file_part_data_def sample_prompt_env_def sample_url_lib_def)
  have sup: "is_supported sample_prompt_env sample_supported ''https://x.test/f'' ''image/png''" by code_simp
  have no_data: "plan_url sample_prompt_env sample_supported ''https://x.test/f'' ''image/png'' =
      [\<lparr>pd_url = ''https://x.test/f'', pd_supported = True\<rparr>]"
    using sup by (simp add: plan_url_def eq_ignore_ascii_case_def to_ascii_lowercase_def ascii_lower_def)
  have prep: "prepare_prompt sample_prompt_env ''openai.chat'' sample_supported sample_file_prompt None
      (default_download (\<lambda>_. Inl (other ''no network'')) 0) None = Inr ([LMUser [UPFile ?f] None], ?messages)"
    by (simp add: prepare_prompt_def sample_file_prompt_def standardize_prompt_def split_prompt_def download_assets_def
        conv no_data unwrap_or_def download_planned_def default_download_def List.map_filter_simps collect_assets_def
        convert_with_downloaded_assets_def convert_with_warnings_def leading_system_def push_combining_tool_messages_def
        check_tool_results_def check_open_def file_part_or_asset_def del: convert_file_part_data.simps)
  from prompt_urls_supported [OF prep, of "[UPFile ?f]" None ?f] prep show ?thesis
    by (auto simp: make_file_part_def intro!: exI)
qed

end
