(* ===== verification/Next_Turn.thy ===== *)
theory Next_Turn
  imports Response_Messages Prompt_Conversion
begin

text \<open>
  The messages of a finished step as the prompt of the next turn: what \<open>response_messages.rs\<close> writes,
  \<open>language_model_message.rs\<close> reads back. A step whose client tool calls are answered is always accepted, and
  one that leaves a call open is refused for exactly the open calls.
\<close>

section \<open>Answers within a step\<close>

definition client_tool_call :: "typed_tool_call \<Rightarrow> bool" where
  "client_tool_call c \<longleftrightarrow> ttc_provider_executed c \<noteq> Some True"

definition answers_call :: "content_part \<Rightarrow> string option" where
  "answers_call p = (case p of
     CPToolResult r \<Rightarrow> if ttr_provider_executed r \<noteq> Some True then Some (ttr_id r) else None
   | CPToolError e \<Rightarrow> if tte_provider_executed e \<noteq> Some True then Some (tte_id e) else None
   | CPToolApprovalResponse r \<Rightarrow> if tars_approved r then None else Some (ttc_id (tars_tool_call r))
   | _ \<Rightarrow> None)"

definition open_step_calls :: "content_part list \<Rightarrow> string set" where
  "open_step_calls content =
     {ttc_id c | c. c \<in> set (calls_in content) \<and> client_tool_call c} - set (List.map_filter answers_call content)"

text \<open>
  Generated files are written as base64 strings, which the prompt conversion first tries as URLs: a string
  without a scheme does not parse as one.
\<close>

fun generated_base64 :: "message_env \<Rightarrow> content_part \<Rightarrow> string option" where
  "generated_base64 env (CPFile f _) = Some (file_base64 env f)"
| "generated_base64 env (CPReasoningFile f) = Some (file_base64 env (gfo_file f))"
| "generated_base64 env _ = None"

definition base64_is_no_url :: "'u prompt_env \<Rightarrow> message_env \<Rightarrow> content_part list \<Rightarrow> bool" where
  "base64_is_no_url penv env content \<longleftrightarrow>
     list_all (\<lambda>p. case generated_base64 env p of Some s \<Rightarrow> isl (parse_url (pe_urls penv) s) | None \<Rightarrow> True) content"

section \<open>Conversion of a step's messages\<close>

lemma from_result_converts: "\<exists>out. convert_tool_result_output penv provider assets (from_result env v is_error) = Inr (out, [])"
  by (simp add: from_result_def split: json.splits)

lemma named_result_converts:
  assumes "convert_tool_result_output penv provider assets (trp_output r) = Inr (out, [])" and "trp_name r = Some n"
  shows "\<exists>c. convert_assistant_part penv provider assets names (ACToolResult r) = Inr (c, [])"
    and "\<exists>c. convert_tool_content_part penv provider assets names (TCToolResult r) = Inr (c, [])"
  using assms by (simp_all add: convert_tool_result_part_def convert_tool_content_part_def)

lemma step_assistant_part_converts:
  assumes "assistant_part env p = Some q" and "sent_assistant_part q"
    and "\<And>s. generated_base64 env p = Some s \<Longrightarrow> isl (parse_url (pe_urls penv) s)"
  shows "\<exists>c. convert_assistant_part penv provider assets names q = Inr (c, [])"
proof (cases p)
  case (CPToolResult r)
  then obtain t where t: "q = ACToolResult t" "trp_output t = from_result env (ttr_output r) False" "trp_name t = Some (ttr_name r)"
    using assms(1) by (auto simp: assistant_part_def split: if_splits)
  obtain out where "convert_tool_result_output penv provider assets (trp_output t) = Inr (out, [])"
    using from_result_converts [of penv provider assets env "ttr_output r" False] t(2) by auto
  from named_result_converts(1) [OF this t(3)] show ?thesis unfolding t(1) .
next
  case (CPToolError e)
  then obtain t where t: "q = ACToolResult t" "trp_output t = OutErrorJson (tte_error e) None" "trp_name t = Some (tte_name e)"
    using assms(1) by (auto simp: assistant_part_def split: if_splits)
  have "convert_tool_result_output penv provider assets (trp_output t) = Inr (TROErrorJson (tte_error e) None, [])"
    by (simp add: t(2))
  from named_result_converts(1) [OF this t(3)] show ?thesis unfolding t(1) .
qed (use assms in \<open>auto simp: assistant_part_def isl_def split: if_splits option.splits\<close>)

text \<open>The tool parts of a step are approval responses and named results of the outputs it writes.\<close>

lemma step_tool_part:
  assumes "TCToolResult t \<in> set (tool_parts env p)"
  obtains n v is_error where "trp_name t = Some n" "trp_output t = from_result env v is_error"
  | n reason where "trp_name t = Some n" "trp_output t = OutExecutionDenied reason None"
  using assms by (cases p) (auto simp: tool_parts_def split: if_splits)

lemma step_tool_part_converts:
  assumes "q \<in> set (tool_parts env p)"
  shows "\<exists>c. convert_tool_content_part penv provider assets names q = Inr (c, [])"
proof (cases q)
  case (TCToolResult t)
  then have "TCToolResult t \<in> set (tool_parts env p)" using assms by simp
  then obtain n out where t: "trp_name t = Some n" "convert_tool_result_output penv provider assets (trp_output t) = Inr (out, [])"
  proof (cases rule: step_tool_part)
    case (1 n v is_error)
    then show ?thesis using that from_result_converts [of penv provider assets env v is_error] by auto
  next
    case (2 n reason)
    then show ?thesis using that by simp
  qed
  from named_result_converts(2) [OF t(2,1)] show ?thesis unfolding TCToolResult .
qed (simp add: convert_tool_content_part_def)

lemma tool_message_set:
  "set (tool_message_content env content (tool_call_order content)) = set (concat (map (tool_parts env) content))"
proof -
  let ?parts = "concat (map (tool_parts env) content)" and ?out = "tool_message_content env content (tool_call_order content)"
  have "list_all is_tool_result (sorted_results (tool_call_order content) ?parts)"
    by (simp add: sorted_results_calls list_all_iff)
  then have same: "set (filter is_tool_result ?out) = set (filter is_tool_result ?parts)"
      "filter (\<lambda>p. \<not> is_tool_result p) ?out = filter (\<lambda>p. \<not> is_tool_result p) ?parts"
    using refill_properties [of ?parts "sorted_results (tool_call_order content) ?parts"]
    by (simp_all add: tool_message_content_def Let_def sorted_results_calls)
  have parts: "set xs = set (filter is_tool_result xs) \<union> set (filter (\<lambda>p. \<not> is_tool_result p) xs)" for xs by auto
  show ?thesis unfolding parts [of ?out] parts [of ?parts] same ..
qed

lemma step_messages_convert:
  assumes "base64_is_no_url penv env (rb_content rb)"
  shows "\<exists>cs. convert_each penv provider assets names (rm_messages (rb_finish env rb)) = Inr (cs, [])"
proof -
  let ?parts = "List.map_filter (assistant_part env) (rb_content rb)"
    and ?tool = "tool_message_content env (rb_content rb) (tool_call_order (rb_content rb))"
  have no_url: "isl (parse_url (pe_urls penv) s)" if "p \<in> set (rb_content rb)" "generated_base64 env p = Some s" for p s
    using assms that by (auto simp: base64_is_no_url_def list_all_iff)
  have A: "\<exists>c. convert_message penv provider assets nm (AssistantMessage (AssistantParts ?parts) None) = Inr (c, [])" for nm
  proof -
    have "\<exists>ys. collect_parts (convert_assistant_part penv provider assets nm) (filter sent_assistant_part ?parts) = Inr (ys, [])"
      using no_url by (intro collect_parts_total) (auto simp: set_map_filter_iff intro: step_assistant_part_converts)
    then show ?thesis by auto
  qed
  have T: "\<exists>c. convert_message penv provider assets nm (ToolMessage ?tool None) = Inr (c, [])" for nm
  proof -
    have "\<exists>ys. collect_parts (convert_tool_content_part penv provider assets nm) (filter reaches_provider ?tool) = Inr (ys, [])"
      by (intro collect_parts_total) (auto simp: tool_message_set intro: step_tool_part_converts)
    then show ?thesis by auto
  qed
  show ?thesis
  proof (cases "?parts = []")
    case True
    then show ?thesis using T [of names] by (auto simp: rb_finish_def Let_def simp del: convert_message.simps)
  next
    case False
    obtain c d where c: "convert_message penv provider assets (call_names ?parts names)
          (AssistantMessage (AssistantParts ?parts) None) = Inr (c, [])"
        "convert_message penv provider assets (call_names ?parts names) (ToolMessage ?tool None) = Inr (d, [])"
      using A T by blast
    then show ?thesis using False by (simp add: rb_finish_def Let_def del: convert_message.simps)
  qed
qed

section \<open>Open calls of a step\<close>

lemma map_filter_map_filter:
  "set (List.map_filter g (List.map_filter f xs)) = {i. \<exists>p \<in> set xs. \<exists>q. f p = Some q \<and> g q = Some i}"
  by (induction xs) (auto simp: List.map_filter_simps split: option.splits)

lemma calls_in_iff: "c \<in> set (calls_in content) \<longleftrightarrow> CPToolCall c \<in> set content"
proof -
  have "(case p of CPToolCall c \<Rightarrow> Some c | _ \<Rightarrow> None) = Some c \<longleftrightarrow> p = CPToolCall c" for p by (cases p) auto
  then show ?thesis unfolding calls_in_def set_map_filter_iff by auto
qed

lemma step_client_calls:
  "set (List.map_filter client_call (List.map_filter (assistant_part env) content)) =
     {ttc_id c | c. c \<in> set (calls_in content) \<and> client_tool_call c}" (is "?L = ?R")
proof -
  have part: "(\<exists>q. assistant_part env p = Some q \<and> client_call q = Some i) \<longleftrightarrow>
      (\<exists>c. p = CPToolCall c \<and> client_tool_call c \<and> ttc_id c = i)" for p i
    by (cases p) (auto simp: assistant_part_def client_tool_call_def split: if_splits)
  have "i \<in> ?L \<longleftrightarrow> (\<exists>p \<in> set content. \<exists>q. assistant_part env p = Some q \<and> client_call q = Some i)" for i
    by (simp add: map_filter_map_filter)
  then have "i \<in> ?L \<longleftrightarrow> i \<in> ?R" for i unfolding part calls_in_iff by auto
  then show ?thesis by blast
qed

lemma step_answers:
  "set (List.map_filter result_of (tool_message_content env content (tool_call_order content))) =
     set (List.map_filter answers_call content)"
proof -
  have "(\<exists>q \<in> set (tool_parts env p). result_of q = Some i) \<longleftrightarrow> answers_call p = Some i" for p i
    by (cases p) (auto simp: tool_parts_def answers_call_def)
  then show ?thesis unfolding set_eq_iff set_map_filter_iff tool_message_set by auto
qed

lemma step_approvals:
  "set (concat (map answered_approvals (rm_messages (rb_finish env rb)))) =
     {tars_approval_id r | r. CPToolApprovalResponse r \<in> set (rb_content rb)}"
proof -
  let ?id = "\<lambda>q. case q of TCToolApprovalResponse i _ _ _ \<Rightarrow> Some i | _ \<Rightarrow> None"
  let ?tool = "tool_message_content env (rb_content rb) (tool_call_order (rb_content rb))"
  have part: "(\<exists>q \<in> set (tool_parts env p). ?id q = Some i) \<longleftrightarrow> (\<exists>r. p = CPToolApprovalResponse r \<and> tars_approval_id r = i)"
    for p i by (cases p) (auto simp: tool_parts_def)
  have "concat (map answered_approvals (rm_messages (rb_finish env rb))) = List.map_filter ?id ?tool"
    by (simp add: rb_finish_def Let_def answered_approvals_def List.map_filter_simps)
  then have "i \<in> set (concat (map answered_approvals (rm_messages (rb_finish env rb)))) \<longleftrightarrow>
      (\<exists>p \<in> set (rb_content rb). \<exists>q \<in> set (tool_parts env p). ?id q = Some i)" for i
    by (simp only: set_map_filter_iff tool_message_set set_concat set_map) blast
  then show ?thesis unfolding part set_eq_iff mem_Collect_eq by (metis (no_types, lifting))
qed

lemma step_unanswered: "unanswered (rm_messages (rb_finish env rb)) i \<longleftrightarrow> i \<in> open_step_calls (rb_content rb)"
  using step_client_calls [of env "rb_content rb"] step_answers [of env "rb_content rb"]
  by (auto simp: rb_finish_def Let_def open_step_calls_def)

lemma step_answers_due: "answers_due (rm_messages (rb_finish env rb)) n \<longleftrightarrow> n = length (rm_messages (rb_finish env rb))"
proof -
  have "\<not> needs_answers m" if "m \<in> set (rm_messages (rb_finish env rb))" for m
    using that by (auto simp: rb_finish_def Let_def split: if_splits)
  then show ?thesis by (auto simp: answers_due_def)
qed

text \<open>
  C10. The messages of a finished step are a valid prompt for the next turn exactly when every tool call the
  client has to run is answered: by a result, an error or a denial among the step's content, or by a response
  to its approval request. They then convert without a warning, and otherwise the error names exactly the
  open calls.
\<close>

theorem step_messages_replay:
  assumes "base64_is_no_url penv env (rb_content rb)"
  shows "let messages = rm_messages (rb_finish env rb);
             missing = open_step_calls (rb_content rb) - approved_tool_call_ids messages
         in if missing = {}
            then \<exists>prompt. convert_with_warnings penv messages instructions provider assets = Inr (prompt, [])
            else \<exists>ids. convert_with_warnings penv messages instructions provider assets = Inl (Failed (MissingToolResults ids))
              \<and> distinct ids \<and> set ids = missing"
proof -
  let ?ms = "rm_messages (rb_finish env rb)"
  obtain cs where cs: "convert_each penv provider assets Map.empty ?ms = Inr (cs, [])"
    using step_messages_convert [OF assms] by blast
  have missing: "missing_answers ?ms A (length ?ms) = open_step_calls (rb_content rb) - A" for A
    by (auto simp: missing_answers_def step_unanswered)
  show ?thesis
    using conversion_outcome [of penv ?ms instructions provider assets] unfolding cs sum.case prod.case step_answers_due
    by (auto simp: missing Let_def split: if_splits)
qed

definition relative_urls_rejected :: "string prompt_env" where
  "relative_urls_rejected =
     sample_prompt_env\<lparr>pe_urls := sample_url_lib\<lparr>parse_url :=
       (\<lambda>s. if CHR '':'' \<in> set s then Inr s else Inl (SourceError ''relative URL without a base'' None))\<rparr>\<rparr>"

definition sample_step_env :: message_env where
  "sample_step_env = \<lparr>base64_encode = (\<lambda>_. ''AQ==''), value_text = (\<lambda>_. []), same_double = (=)\<rparr>"

definition sample_call :: "string \<Rightarrow> typed_tool_call" where
  "sample_call i = \<lparr>ttc_id = i, ttc_name = ''t'', ttc_input = JNull, ttc_provider_executed = None, ttc_dynamic = None,
     ttc_provider_metadata = None, ttc_invalid = None, ttc_error = None\<rparr>"

definition sample_step :: response_message_builder where
  "sample_step = new_builder\<lparr>rb_content :=
     [CPFile \<lparr>gf_data = Binary [1], gf_media_type = ''image/png'', gf_provider_metadata = None\<rparr> None,
      CPToolCall (sample_call ''c1''), CPToolCall (sample_call ''c2''),
      CPToolResult \<lparr>ttr_id = ''c1'', ttr_name = ''t'', ttr_input = None, ttr_output = JNull, ttr_provider_executed = None,
        ttr_provider_metadata = None, ttr_dynamic = None, ttr_preliminary = None\<rparr>]\<rparr>"

theorem step_messages_replay_witness:
  "base64_is_no_url relative_urls_rejected sample_step_env (rb_content sample_step) \<and>
   (\<exists>ids. convert_with_warnings relative_urls_rejected (rm_messages (rb_finish sample_step_env sample_step)) None None Map.empty
      = Inl (Failed (MissingToolResults ids)) \<and> set ids = {''c2''})"
proof -
  have url: "base64_is_no_url relative_urls_rejected sample_step_env (rb_content sample_step)"
    by (simp add: base64_is_no_url_def sample_step_def new_builder_def file_base64_def sample_step_env_def
        relative_urls_rejected_def)
  have calls: "open_step_calls (rb_content sample_step) = {''c2''}"
  proof -
    have calls: "calls_in (rb_content sample_step) = [sample_call ''c1'', sample_call ''c2'']"
      by (simp add: sample_step_def new_builder_def calls_in_def List.map_filter_simps)
    have client: "client_tool_call (sample_call i)" "ttc_id (sample_call i) = i" for i
      by (simp_all add: client_tool_call_def sample_call_def)
    have image: "{ttc_id c | c. c \<in> set cs \<and> client_tool_call c} = set (map ttc_id (filter client_tool_call cs))" for cs
      by auto
    have "set (List.map_filter answers_call (rb_content sample_step)) = {''c1''}"
      by (simp add: sample_step_def new_builder_def List.map_filter_simps answers_call_def)
    then show ?thesis unfolding open_step_calls_def image calls by (simp add: client)
  qed
  have approved: "approved_tool_call_ids (rm_messages (rb_finish sample_step_env sample_step)) = {}"
  proof -
    have "CPToolApprovalResponse r \<notin> set (rb_content sample_step)" for r by (simp add: sample_step_def new_builder_def)
    then have "set (concat (map answered_approvals (rm_messages (rb_finish sample_step_env sample_step)))) = {}"
      unfolding step_approvals by blast
    then have "concat (map answered_approvals (rm_messages (rb_finish sample_step_env sample_step))) = []" by (simp only: set_empty)
    then show ?thesis unfolding approved_tool_call_ids_def by (simp only: List.map_filter_simps set_simps)
  qed
  from step_messages_replay [OF url, of None None Map.empty] show ?thesis
    unfolding calls approved Let_def using url by auto
qed

end
