(* ===== verification/Retry.thy ===== *)
theory Retry
  imports Errors
begin

text \<open>
  Operation-level retry, \<open>src/aimux-core/src/retry.rs\<close>: the loop with its error history, the exponential
  delay (saturating), the server's hint and the jitter, and caller cancellation. The retried operation
  is the argument \<open>operation\<close> (the result of its n-th call); \<open>hint\<close> is \<open>AiMuxError::retry_after_hint\<close>, which
  reads the clock and a floating-point header, and \<open>jitter\<close> the n-th random draw. The loop has fuel: with
  \<open>max_retries\<close> below \<open>u32::MAX\<close> it needs \<open>max_retries + 1\<close> turns, and with \<open>u32::MAX\<close> its 32-bit try
  number never exceeds the limit.
\<close>

section \<open>Definitions\<close>

definition DEFAULT_MAX_RETRIES :: u32 where "DEFAULT_MAX_RETRIES = 2"
definition DEFAULT_INITIAL_DELAY_MS :: u64 where "DEFAULT_INITIAL_DELAY_MS = 2000"
definition DEFAULT_BACKOFF_FACTOR :: u32 where "DEFAULT_BACKOFF_FACTOR = 2"

text \<open>
  The abort signal of a call: absent, or given by what the loop observes of it before an attempt,
  during an attempt and during the delay after an attempt.
\<close>

record abort_signal =
  is_aborted :: "nat \<Rightarrow> bool"
  cancelled_attempt :: "nat \<Rightarrow> bool"
  cancelled_delay :: "nat \<Rightarrow> bool"

record prepared_retries =
  max_retries :: u32
  initial_delay_ms :: u64
  backoff_factor :: u64
  pr_abort_signal :: "abort_signal option"

definition prepare_retries :: "u32 option \<Rightarrow> abort_signal option \<Rightarrow> prepared_retries" where
  "prepare_retries max_r abort =
     \<lparr>max_retries = unwrap_or DEFAULT_MAX_RETRIES max_r,
      initial_delay_ms = DEFAULT_INITIAL_DELAY_MS,
      backoff_factor = ucast DEFAULT_BACKOFF_FACTOR,
      pr_abort_signal = abort\<rparr>"

text \<open>Errors that end the loop at once: cancellation, a time budget, an inner exhaustion.\<close>

definition passes_through :: "aimux_error \<Rightarrow> bool" where
  "passes_through e \<longleftrightarrow> (case e of Aborted _ \<Rightarrow> True | Timeout _ \<Rightarrow> True | Retry _ \<Rightarrow> True | _ \<Rightarrow> False)"

text \<open>One attempt: \<open>None\<close> when the signal was aborted before it, so that the loop returns.\<close>

definition attempt_result ::
  "abort_signal option \<Rightarrow> (nat \<Rightarrow> aimux_error + 'a) \<Rightarrow> nat \<Rightarrow> (aimux_error + 'a) option" where
  "attempt_result signal operation n = (case signal of
     Some g \<Rightarrow> (if is_aborted g n then None
               else if cancelled_attempt g n then Some (Inl from_abort_signal) else Some (operation n))
   | None \<Rightarrow> Some (operation n))"

definition delay :: "abort_signal option \<Rightarrow> nat \<Rightarrow> aimux_error + unit" where
  "delay signal n = (case signal of
     Some g \<Rightarrow> (if cancelled_delay g n then Inl from_abort_signal else Inr ())
   | None \<Rightarrow> Inr ())"

text \<open>The loop, with the delays it slept in \<open>slept\<close>; \<open>errors\<close> holds one error per finished attempt.\<close>

fun retry_with_exponential_backoff ::
  "nat \<Rightarrow> (nat \<Rightarrow> aimux_error + 'a) \<Rightarrow> u32 \<Rightarrow> u64 \<Rightarrow> abort_signal option \<Rightarrow> (aimux_error \<Rightarrow> bool) \<Rightarrow>
   (nat \<Rightarrow> aimux_error \<Rightarrow> u64 \<Rightarrow> u64) \<Rightarrow> aimux_error list \<Rightarrow> u64 \<Rightarrow> u64 list \<Rightarrow>
   ((aimux_error + 'a) \<times> u64 list) option" where
  "retry_with_exponential_backoff 0 operation max_r factor signal should_retry get_delay errors ed slept = None"
| "retry_with_exponential_backoff (Suc fuel) operation max_r factor signal should_retry get_delay errors ed slept =
     (case attempt_result signal operation (length errors) of
        None \<Rightarrow> Some (Inl from_abort_signal, slept)
      | Some (Inr v) \<Rightarrow> Some (Inr v, slept)
      | Some (Inl error) \<Rightarrow>
          if passes_through error \<or> max_r = 0 then Some (Inl error, slept)
          else
            (let errors' = errors @ [error];
                 try_number = of_nat (length errors') :: u32
             in if try_number > max_r then Some (Inl (Retry (RetryError MaxRetriesExceeded errors')), slept)
                else if should_retry error then
                  (let retry_delay = get_delay (length errors) error ed in
                   case delay signal (length errors) of
                     Inl e \<Rightarrow> Some (Inl e, slept @ [retry_delay])
                   | Inr _ \<Rightarrow> retry_with_exponential_backoff fuel operation max_r factor signal should_retry
                              get_delay errors' (saturating_mul ed factor) (slept @ [retry_delay]))
                else if try_number = 1 then Some (Inl error, slept)
                else Some (Inl (Retry (RetryError ErrorNotRetryable errors')), slept)))"

definition retry_header_delay :: "(aimux_error \<Rightarrow> int option) \<Rightarrow> aimux_error \<Rightarrow> u64 \<Rightarrow> u64 option" where
  "retry_header_delay hint error ed = (case hint error of
     None \<Rightarrow> None
   | Some h \<Rightarrow> if h < 0 then None
              else (let parsed = word_of_int h :: u64
                    in if parsed < 60000 \<or> parsed < ed then Some parsed else None))"

definition retry_delay_with_jitter ::
  "(aimux_error \<Rightarrow> int option) \<Rightarrow> (u64 \<Rightarrow> u64) \<Rightarrow> aimux_error \<Rightarrow> u64 \<Rightarrow> u64" where
  "retry_delay_with_jitter hint jitter error ed =
     (case retry_header_delay hint error ed of Some d \<Rightarrow> d | None \<Rightarrow> min (jitter ed) ed)"

text \<open>\<open>PreparedRetries::retry\<close>, through \<open>retry_with_exponential_backoff_respecting_retry_headers\<close>.\<close>

definition retry ::
  "nat \<Rightarrow> (aimux_error \<Rightarrow> int option) \<Rightarrow> (nat \<Rightarrow> u64 \<Rightarrow> u64) \<Rightarrow> prepared_retries \<Rightarrow> (nat \<Rightarrow> aimux_error + 'a) \<Rightarrow>
   ((aimux_error + 'a) \<times> u64 list) option" where
  "retry fuel hint jitter p operation =
     retry_with_exponential_backoff fuel operation (max_retries p) (backoff_factor p) (pr_abort_signal p)
       is_retryable (\<lambda>n. retry_delay_with_jitter hint (jitter n)) [] (initial_delay_ms p) []"

section \<open>Turns of the loop\<close>

text \<open>
  A turn is retried when its error is no final one and is classified retryable; the number of turns
  is bounded by the limit.
\<close>

definition retried :: "(nat \<Rightarrow> aimux_error + 'a) \<Rightarrow> (aimux_error \<Rightarrow> bool) \<Rightarrow> nat \<Rightarrow> bool" where
  "retried operation should_retry n \<longleftrightarrow>
     (case operation n of Inl e \<Rightarrow> \<not> passes_through e \<and> should_retry e | Inr _ \<Rightarrow> False)"

definition errors_upto :: "(nat \<Rightarrow> aimux_error + 'a) \<Rightarrow> nat \<Rightarrow> aimux_error list" where
  "errors_upto operation n = map (projl \<circ> operation) [0..<n]"

text \<open>What the loop returns when attempt \<open>k\<close> is the last one.\<close>

definition last_outcome :: "(nat \<Rightarrow> aimux_error + 'a) \<Rightarrow> nat \<Rightarrow> nat \<Rightarrow> aimux_error + 'a" where
  "last_outcome operation max_r k = (case operation k of
     Inr v \<Rightarrow> Inr v
   | Inl e \<Rightarrow>
       if passes_through e \<or> max_r = 0 then Inl e
       else if k = max_r then Inl (Retry (RetryError MaxRetriesExceeded (errors_upto operation (Suc k))))
       else if k = 0 then Inl e
       else Inl (Retry (RetryError ErrorNotRetryable (errors_upto operation (Suc k)))))"

lemma errors_upto_Suc [simp]:
  "operation n = Inl e \<Longrightarrow> errors_upto operation (Suc n) = errors_upto operation n @ [e]"
  by (simp add: errors_upto_def)

lemma length_errors_upto [simp]: "length (errors_upto operation n) = n"
  by (simp add: errors_upto_def)

lemma try_number:
  "n < 2 ^ 32 \<Longrightarrow> (of_nat n :: u32) > max_r \<longleftrightarrow> unat max_r < n"
  by (simp add: word_less_nat_alt unat_of_nat take_bit_nat_eq_self)

lemma try_number_1: "n < 2 ^ 32 \<Longrightarrow> (of_nat n :: u32) = 1 \<longleftrightarrow> n = 1"
  by (simp add: word_unat_eq_iff unat_of_nat take_bit_nat_eq_self)

lemma loop_outcome:
  assumes "n \<le> k" and "k \<le> unat max_r" and "unat max_r + 1 < 2 ^ 32" and "fuel \<ge> Suc (k - n)"
    and "\<forall>i \<in> {n..<k}. retried operation should_retry i"
    and "k = unat max_r \<or> \<not> retried operation should_retry k"
    and "n > 0 \<longrightarrow> max_r \<noteq> 0"
  shows "\<exists>ds. retry_with_exponential_backoff fuel operation max_r factor None should_retry get_delay
                (errors_upto operation n) ed slept = Some (last_outcome operation (unat max_r) k, slept @ ds)
            \<and> length ds = k - n"
  using assms
proof (induction "k - n" arbitrary: n fuel ed slept)
  case 0
  then have n: "n = k" and "fuel \<noteq> 0" by auto
  then obtain f where f: "fuel = Suc f" by (cases fuel) auto
  have small: "Suc k < 2 ^ 32" using 0 by simp
  have num: "(of_nat (Suc k) :: u32) > max_r \<longleftrightarrow> k = unat max_r" "(of_nat (Suc k) :: u32) = 1 \<longleftrightarrow> k = 0"
    using try_number [OF small, of max_r] try_number_1 [OF small] "0.prems"(2) by auto
  have zero: "max_r = 0 \<longleftrightarrow> unat max_r = 0" by (simp add: unat_eq_zero)
  show ?case
  proof (cases "operation k")
    case (Inr v)
    then show ?thesis by (simp add: f n attempt_result_def last_outcome_def)
  next
    case (Inl e)
    then have "k \<noteq> unat max_r \<and> \<not> passes_through e \<Longrightarrow> \<not> should_retry e"
      using "0.prems"(6) by (auto simp: retried_def)
    then show ?thesis
      using Inl num by (auto simp: f n attempt_result_def last_outcome_def Let_def zero simp del: of_nat_Suc)
  qed
next
  case (Suc d)
  then have lt: "n < k" and "fuel \<noteq> 0" by auto
  then obtain f where f: "fuel = Suc f" by (cases fuel) auto
  have "retried operation should_retry n" using Suc.prems(5) lt by simp
  then obtain e where e: "operation n = Inl e" "\<not> passes_through e" "should_retry e"
    by (auto simp: retried_def split: sum.splits)
  have nz: "max_r \<noteq> 0" using lt Suc.prems(2) by (auto simp: unat_eq_zero)
  have "\<not> (of_nat (Suc n) :: u32) > max_r"
    using try_number [of "Suc n" max_r] lt Suc.prems(2,3) by auto
  then have "retry_with_exponential_backoff fuel operation max_r factor None should_retry get_delay
        (errors_upto operation n) ed slept
      = retry_with_exponential_backoff f operation max_r factor None should_retry get_delay
        (errors_upto operation (Suc n)) (saturating_mul ed factor) (slept @ [get_delay n e ed])"
    using e nz by (simp add: f attempt_result_def delay_def Let_def del: of_nat_Suc)
  moreover have "\<exists>ds. retry_with_exponential_backoff f operation max_r factor None should_retry get_delay
        (errors_upto operation (Suc n)) (saturating_mul ed factor) (slept @ [get_delay n e ed])
        = Some (last_outcome operation (unat max_r) k, (slept @ [get_delay n e ed]) @ ds) \<and> length ds = k - Suc n"
    by (rule Suc.hyps(1)) (use Suc.hyps(2) Suc.prems lt nz f in auto)
  ultimately show ?case using lt by (force simp: Suc_diff_Suc)
qed

text \<open>A delay is the server's hint when that is below a minute or below the exponential delay.\<close>

lemma retry_delay_bound: "unat (retry_delay_with_jitter hint jitter e ed) \<le> max 59999 (unat ed)"
proof (cases "retry_header_delay hint e ed")
  case None
  then show ?thesis by (simp add: retry_delay_with_jitter_def min_def word_le_nat_alt le_max_iff_disj)
next
  case (Some d)
  then have "d < 60000 \<or> d < ed"
    by (auto simp: retry_header_delay_def Let_def split: option.splits if_splits)
  then have "unat d < 60000 \<or> unat d < unat ed" by (simp add: word_less_nat_alt)
  then show ?thesis using Some by (auto simp: retry_delay_with_jitter_def)
qed

lemma unat_saturating_mul_le: "unat (saturating_mul a b) \<le> unat a * unat b" for a b :: u64
  by (simp add: unat_saturating_mul)

lemma loop_turn:
  assumes "Suc (length errors) < 2 ^ 32"
  obtains r where "retry_with_exponential_backoff (Suc f) operation max_r factor signal should_retry get_delay
      errors ed slept = Some (r, slept)"
  | r e where "length errors < unat max_r" "retry_with_exponential_backoff (Suc f) operation max_r factor signal
      should_retry get_delay errors ed slept = Some (r, slept @ [get_delay (length errors) e ed])"
  | e where "length errors < unat max_r" "retry_with_exponential_backoff (Suc f) operation max_r factor signal
      should_retry get_delay errors ed slept
      = retry_with_exponential_backoff f operation max_r factor signal should_retry get_delay (errors @ [e])
          (saturating_mul ed factor) (slept @ [get_delay (length errors) e ed])"
proof (cases "attempt_result signal operation (length errors)")
  case None
  then show ?thesis using that(1) by simp
next
  case (Some r)
  show ?thesis
  proof (cases r)
    case (Inr v)
    then show ?thesis using Some that(1) by simp
  next
    case (Inl e)
    note num = try_number [OF assms, of max_r]
    show ?thesis
    proof (cases "passes_through e \<or> max_r = 0 \<or> unat max_r < Suc (length errors) \<or> \<not> should_retry e")
      case True
      have "\<exists>r. retry_with_exponential_backoff (Suc f) operation max_r factor signal should_retry get_delay
          errors ed slept = Some (r, slept)"
        using True Some Inl num by (cases "unat max_r < Suc (length errors)") (auto simp: Let_def simp del: of_nat_Suc)
      then show ?thesis using that(1) by blast
    next
      case False
      then have lt: "length errors < unat max_r" by simp
      show ?thesis
      proof (cases "delay signal (length errors)")
        case stop: (Inl a)
        then show ?thesis
          using that(2) [OF lt, of "Inl a" e] False Some Inl num by (simp add: Let_def del: of_nat_Suc)
      next
        case (Inr u)
        then show ?thesis
          using that(3) [OF lt, of e] False Some Inl num by (simp add: Let_def del: of_nat_Suc)
      qed
    qed
  qed
qed

lemma loop_returns:
  assumes "length errors \<le> unat max_r" and "unat max_r + 1 < 2 ^ 32" and "fuel \<ge> Suc (unat max_r - length errors)"
    and delays: "\<And>n e d. unat (get_delay n e d) \<le> max 59999 (unat d)" and "unat ed \<le> bound"
  shows "\<exists>r ds. retry_with_exponential_backoff fuel operation max_r factor signal should_retry get_delay
                errors ed slept = Some (r, slept @ ds)
            \<and> length ds \<le> unat max_r - length errors
            \<and> (\<forall>i < length ds. unat (ds ! i) \<le> max 59999 (bound * unat factor ^ i))"
  using assms(1-3,5)
proof (induction "unat max_r - length errors" arbitrary: errors fuel ed slept bound rule: less_induct)
  case less
  then obtain f where f: "fuel = Suc f" by (cases fuel) auto
  have d: "unat (get_delay (length errors) e ed) \<le> max 59999 bound" for e
    using delays [of "length errors" e ed] less.prems(4) by (auto simp: le_max_iff_disj)
  have "Suc (length errors) < 2 ^ 32" using less.prems by simp
  then show ?case
  proof (cases rule: loop_turn [of errors f operation max_r factor signal should_retry get_delay ed slept])
    case (1 r)
    then show ?thesis by (auto simp: f)
  next
    case (2 r e)
    with d [of e] show ?thesis
      by (intro exI [of _ r] exI [of _ "[get_delay (length errors) e ed]"]) (simp add: f)
  next
    case (3 e)
    let ?errs = "errors @ [e]" and ?d = "get_delay (length errors) e ed"
    have "unat max_r - Suc (length errors) < unat max_r - length errors" using 3(1) by linarith
    moreover have "unat (saturating_mul ed factor) \<le> bound * unat factor"
      using unat_saturating_mul_le less.prems(4) by (meson mult_le_mono1 order_trans)
    ultimately obtain r ds where IH: "retry_with_exponential_backoff f operation max_r factor signal should_retry get_delay
          ?errs (saturating_mul ed factor) (slept @ [?d]) = Some (r, (slept @ [?d]) @ ds)"
        "length ds \<le> unat max_r - length ?errs"
        "\<forall>i < length ds. unat (ds ! i) \<le> max 59999 (bound * unat factor * unat factor ^ i)"
      using less.hyps [of ?errs f "saturating_mul ed factor" "bound * unat factor" "slept @ [?d]"]
        3(1) less.prems(2,3) f by auto
    have "\<forall>i < length (?d # ds). unat ((?d # ds) ! i) \<le> max 59999 (bound * unat factor ^ i)"
      using IH(3) d [of e] by (auto simp: less_Suc_eq_0_disj mult.assoc)
    with 3 IH show ?thesis by (intro exI [of _ r] exI [of _ "?d # ds"]) (auto simp: f)
  qed
qed

lemma not_max_fits: "n \<noteq> -1 \<Longrightarrow> unat n + 1 < 2 ^ 32" for n :: u32
  using unsigned_less [of n, where 'a = nat] by (simp add: word_unat_eq_iff unat_minus_one_word)

section \<open>Properties\<close>

text \<open>
  C17. Result of a retried call without a signal. When attempt \<open>k\<close> is the first that is not retried, or
  the last one allowed, the call returns that attempt's value, or its error unchanged (first attempt,
  no retries, cancellation, timeout or inner exhaustion), or the whole history of errors, in order,
  with the reason; it slept exactly \<open>k\<close> times.
\<close>

theorem retry_outcome:
  assumes "pr_abort_signal p = None" and "max_retries p \<noteq> -1" and "k \<le> unat (max_retries p)"
    and "\<forall>i < k. retried operation is_retryable i"
    and "k = unat (max_retries p) \<or> \<not> retried operation is_retryable k"
  shows "\<exists>ds. retry (unat (max_retries p) + 1) hint jitter p operation
           = Some (last_outcome operation (unat (max_retries p)) k, ds) \<and> length ds = k"
  using loop_outcome [of 0 k "max_retries p" "unat (max_retries p) + 1" operation is_retryable
      "backoff_factor p" "\<lambda>n. retry_delay_with_jitter hint (jitter n)" "initial_delay_ms p" "[]"] assms
    not_max_fits [OF assms(2)]
  by (auto simp: retry_def errors_upto_def)

text \<open>The witness: two failures that may be retried, then a value.\<close>

definition sample_failure :: aimux_error where
  "sample_failure = ApiCall (ApiCallError ''u'' JNull (Some 503) None ''busy'' None None None True None OriginUnknown)"

definition sample_operation :: "nat \<Rightarrow> aimux_error + nat" where
  "sample_operation n = (if n < 2 then Inl sample_failure else Inr 7)"

theorem retry_outcome_witness:
  "\<exists>ds. retry 3 (\<lambda>e. None) (\<lambda>n d. d) (prepare_retries None None) sample_operation = Some (Inr 7, ds) \<and> length ds = 2"
proof -
  have small: "i = 0 \<or> i = 1" if "i < 2" for i :: nat using that by auto
  show ?thesis
    using retry_outcome [of "prepare_retries None None" 2 sample_operation "\<lambda>e. None" "\<lambda>n d. d"] small
    by (simp add: prepare_retries_def DEFAULT_MAX_RETRIES_def unwrap_or_def retried_def sample_operation_def
        sample_failure_def passes_through_def is_retryable_def last_outcome_def)
qed

text \<open>
  C18. Bounds. Whatever the operation returns and whatever the signal does, a call whose limit is
  below \<open>u32::MAX\<close> returns within \<open>max_retries + 1\<close> attempts; it sleeps at most \<open>max_retries\<close> times, and its
  i-th delay is below one minute or at most the initial delay times the factor to the power i.
\<close>

theorem retry_returns_bounded:
  assumes "max_retries p \<noteq> -1"
  shows "\<exists>r ds. retry (unat (max_retries p) + 1) hint jitter p operation = Some (r, ds)
       \<and> length ds \<le> unat (max_retries p)
       \<and> (\<forall>i < length ds. unat (ds ! i)
            \<le> max 59999 (unat (initial_delay_ms p) * unat (backoff_factor p) ^ i))"
  using loop_returns [of "[]" "max_retries p" "unat (max_retries p) + 1"
      "\<lambda>n. retry_delay_with_jitter hint (jitter n)" "initial_delay_ms p" "unat (initial_delay_ms p)" operation
      "backoff_factor p" "pr_abort_signal p" is_retryable "[]"]
    retry_delay_bound not_max_fits [OF assms]
  by (auto simp: retry_def)

theorem retry_returns_bounded_witness:
  "\<exists>r ds. retry 3 (\<lambda>e. None) (\<lambda>n d. d) (prepare_retries None None) sample_operation = Some (r, ds) \<and> length ds \<le> 2"
  using retry_returns_bounded [of "prepare_retries None None" "\<lambda>e. None" "\<lambda>n d. d" sample_operation]
  by (auto simp: prepare_retries_def DEFAULT_MAX_RETRIES_def unwrap_or_def)

end
