(* ===== verification/Composite.thy ===== *)
theory Composite
  imports Retry Text_Result
begin

text \<open>
  Composite models (\<open>src/aimux-core/src/composite.rs\<close>, \<open>router.rs\<close>, \<open>moa.rs\<close>): a router that calls one child
  and falls back over the rest, and the mixture of agents, which splices the answers of its references into
  the aggregator's prompt. A child is what its n-th attempt returns; every child call runs in the retry loop of
  \<open>Retry\<close>, with the signal and jitter that call observes. Recording contexts are left out. Token counts are
  added in 32 bits that wrap, as in a release build, where overflow checks are off.
\<close>

section \<open>Child models\<close>

text \<open>The options of a call: the prompt, the tools and everything the composites pass on unchanged.\<close>

record 'x call_options =
  co_prompt :: "language_model_message list"
  co_tools :: "tool list option"
  co_tool_choice :: "language_model_v4_tool_choice option"
  co_rest :: 'x

type_synonym stream_items = "(aimux_error + stream_part) list"

record 'x child_model =
  cm_generate :: "'x call_options \<Rightarrow> nat \<Rightarrow> aimux_error + generate_result"
  cm_stream :: "'x call_options \<Rightarrow> nat \<Rightarrow> aimux_error + stream_items"

text \<open>What a child call observes: the operation's retry count, and per call the signal and the jitter.\<close>

record composite_env =
  child_max_retries :: "u32 option"
  ce_hint :: "aimux_error \<Rightarrow> int option"
  ce_jitter :: "nat \<Rightarrow> nat \<Rightarrow> u64 \<Rightarrow> u64"
  ce_signal :: "nat \<Rightarrow> abort_signal option"

definition call_child :: "composite_env \<Rightarrow> nat \<Rightarrow> (nat \<Rightarrow> aimux_error + 'a) \<Rightarrow> (aimux_error + 'a) option" where
  "call_child env i operation =
     (let p = prepare_retries (child_max_retries env) (ce_signal env i)
      in map_option fst (retry (unat (max_retries p) + 1) (ce_hint env) (ce_jitter env i) p operation))"

fun opt_add :: "u32 option \<Rightarrow> u32 option \<Rightarrow> u32 option" where
  "opt_add None None = None"
| "opt_add (Some m) None = Some m"
| "opt_add None (Some n) = Some n"
| "opt_add (Some m) (Some n) = Some (m + n)"

definition add_usage :: "usage \<Rightarrow> usage \<Rightarrow> usage" where
  "add_usage a b =
     \<lparr>u_input_tokens =
        \<lparr>itu_total = opt_add (itu_total (u_input_tokens a)) (itu_total (u_input_tokens b)),
         itu_no_cache = opt_add (itu_no_cache (u_input_tokens a)) (itu_no_cache (u_input_tokens b)),
         itu_cache_read = opt_add (itu_cache_read (u_input_tokens a)) (itu_cache_read (u_input_tokens b)),
         itu_cache_write = opt_add (itu_cache_write (u_input_tokens a)) (itu_cache_write (u_input_tokens b))\<rparr>,
      u_output_tokens =
        \<lparr>otu_total = opt_add (otu_total (u_output_tokens a)) (otu_total (u_output_tokens b)),
         otu_text = opt_add (otu_text (u_output_tokens a)) (otu_text (u_output_tokens b)),
         otu_reasoning = opt_add (otu_reasoning (u_output_tokens a)) (otu_reasoning (u_output_tokens b))\<rparr>,
      u_raw = None\<rparr>"

definition no_usage :: usage where
  "no_usage =
     \<lparr>u_input_tokens = \<lparr>itu_total = None, itu_no_cache = None, itu_cache_read = None, itu_cache_write = None\<rparr>,
      u_output_tokens = \<lparr>otu_total = None, otu_text = None, otu_reasoning = None\<rparr>, u_raw = None\<rparr>"

definition extract_text :: "generate_content list \<Rightarrow> string" where
  "extract_text content = concat (map (\<lambda>c. case c of GCText t _ \<Rightarrow> t | _ \<Rightarrow> []) content)"

abbreviation nl :: string where "nl \<equiv> [CHR 0x0A]"

definition default_aggregator_instructions :: string where
  "default_aggregator_instructions =
     ''You are an aggregation assistant. Synthesize the reference model responses below into a single high-quality ''
     @ ''answer. Resolve conflicts by preferring the most accurate reasoning; do not mention the reference models ''
     @ ''unless asked.''"

definition user_text :: "string \<Rightarrow> language_model_message" where
  "user_text text = LMUser [UPText \<lparr>tp_text = text, tp_provider_options = None\<rparr>] None"

definition build_aggregator_prompt ::
  "language_model_message list \<Rightarrow> string option \<Rightarrow> (string \<times> string) list \<Rightarrow> language_model_message list" where
  "build_aggregator_prompt prompt instructions references =
     (if references = [] then prompt
      else prompt @ [user_text
        (unwrap_or default_aggregator_instructions instructions @ nl @ nl @ ''# Reference model responses'' @ nl
         @ concat (map (\<lambda>(model_id, text). nl @ ''## '' @ model_id @ nl @ text @ nl) references))])"

section \<open>Router\<close>

definition rule_route :: "'m list \<Rightarrow> aimux_error + nat" where
  "rule_route models = (if models = [] then Inl (other ''router: no models configured'') else Inr 0)"

text \<open>The weights' comparison \<open>gt\<close> and the weight \<open>zero\<close> of a missing entry are arguments: they are doubles.\<close>

definition weight_at :: "'w \<Rightarrow> 'w list \<Rightarrow> nat \<Rightarrow> 'w" where
  "weight_at zero weights i = (if i < length weights then weights ! i else zero)"

fun best_weight :: "('w \<Rightarrow> 'w \<Rightarrow> bool) \<Rightarrow> (nat \<Rightarrow> 'w) \<Rightarrow> nat list \<Rightarrow> nat \<Rightarrow> 'w \<Rightarrow> nat" where
  "best_weight gt weight [] best_idx best = best_idx"
| "best_weight gt weight (i # is) best_idx best =
     (if gt (weight i) best then best_weight gt weight is i (weight i) else best_weight gt weight is best_idx best)"

definition weighted_route :: "('w \<Rightarrow> 'w \<Rightarrow> bool) \<Rightarrow> 'w \<Rightarrow> 'w list \<Rightarrow> 'm list \<Rightarrow> aimux_error + nat" where
  "weighted_route gt zero weights models =
     (if models = [] then Inl (other ''router: no models configured'')
      else Inr (best_weight gt (weight_at zero weights) [1..<length models] 0 (weight_at zero weights 0)))"

datatype fallback_policy = OnError | NoFallback

definition check_index :: "nat \<Rightarrow> string \<Rightarrow> 'm list \<Rightarrow> aimux_error + nat" where
  "check_index idx src models =
     (if idx < length models then Inr idx
      else Inl (invalid_argument (src @ '': router returned out-of-bounds index '' @ show_nat idx @ '' (models: ''
                @ show_nat (length models) @ '')'')))"

text \<open>The loops also return the children they called, in order.\<close>

fun fallback_generate ::
  "composite_env \<Rightarrow> (nat \<Rightarrow> nat \<Rightarrow> aimux_error + 'a) \<Rightarrow> nat \<Rightarrow> nat list \<Rightarrow> aimux_error \<Rightarrow>
   ((aimux_error + 'a) \<times> nat list) option" where
  "fallback_generate env child exclude [] last_err = Some (Inl last_err, [])"
| "fallback_generate env child exclude (i # is) last_err =
     (if i = exclude then fallback_generate env child exclude is last_err
      else (case call_child env i (child i) of
        None \<Rightarrow> None
      | Some (Inr r) \<Rightarrow> Some (Inr r, [i])
      | Some (Inl e) \<Rightarrow> map_option (\<lambda>(r, called). (r, i # called)) (fallback_generate env child exclude is e)))"

definition router_generate ::
  "composite_env \<Rightarrow> (language_model_message list \<Rightarrow> 'x child_model list \<Rightarrow> aimux_error + nat) \<Rightarrow> fallback_policy \<Rightarrow>
   'x child_model list \<Rightarrow> 'x call_options \<Rightarrow> ((aimux_error + generate_result) \<times> nat list) option" where
  "router_generate env route policy models options =
     (case route (co_prompt options) models of
        Inl e \<Rightarrow> Some (Inl e, [])
      | Inr raw \<Rightarrow>
          (case check_index raw ''router'' models of
             Inl e \<Rightarrow> Some (Inl e, [])
           | Inr idx \<Rightarrow>
               (case call_child env idx (cm_generate (models ! idx) options) of
                  None \<Rightarrow> None
                | Some (Inr r) \<Rightarrow> Some (Inr r, [idx])
                | Some (Inl e) \<Rightarrow>
                    if policy = OnError
                    then map_option (\<lambda>(r, called). (r, idx # called))
                           (fallback_generate env (\<lambda>i. cm_generate (models ! i) options) idx [0..<length models] e)
                    else Some (Inl e, [idx]))))"

definition router_stream ::
  "composite_env \<Rightarrow> (language_model_message list \<Rightarrow> 'x child_model list \<Rightarrow> aimux_error + nat) \<Rightarrow>
   'x child_model list \<Rightarrow> 'x call_options \<Rightarrow> ((aimux_error + stream_items) \<times> nat list) option" where
  "router_stream env route models options =
     (case route (co_prompt options) models of
        Inl e \<Rightarrow> Some (Inl e, [])
      | Inr raw \<Rightarrow>
          (case check_index raw ''router'' models of
             Inl e \<Rightarrow> Some (Inl e, [])
           | Inr idx \<Rightarrow> map_option (\<lambda>r. (r, [idx])) (call_child env idx (cm_stream (models ! idx) options))))"

section \<open>Mixture of agents\<close>

datatype moa_fail_mode = BestEffort | FailFast

record moa_config =
  mc_provider_name :: string
  mc_model_id :: string
  aggregator_instructions :: "string option"
  strip_reference_tools :: bool
  fail_mode :: moa_fail_mode

definition default_moa_config :: moa_config where
  "default_moa_config = \<lparr>mc_provider_name = ''moa'', mc_model_id = ''moa'', aggregator_instructions = None,
     strip_reference_tools = True, fail_mode = BestEffort\<rparr>"

definition reference_options :: "moa_config \<Rightarrow> 'x call_options \<Rightarrow> 'x call_options" where
  "reference_options config options =
     (if strip_reference_tools config then options\<lparr>co_tools := None, co_tool_choice := None\<rparr> else options)"

definition reference_name :: "nat \<Rightarrow> generate_result \<Rightarrow> string" where
  "reference_name i res =
     unwrap_or (''ref-'' @ show_nat i) (Option.bind (gr_response res) gr_model_id)"

text \<open>The results of the references, folded in their order.\<close>

fun collect_references ::
  "moa_fail_mode \<Rightarrow> nat \<Rightarrow> (aimux_error + generate_result) list \<Rightarrow> (string \<times> string) list \<Rightarrow> usage \<Rightarrow> warning list \<Rightarrow>
   aimux_error + (string \<times> string) list \<times> usage \<times> warning list" where
  "collect_references mode i [] texts u warnings =
     (if texts = [] then Inl (other ''moa: all reference models failed'') else Inr (texts, u, warnings))"
| "collect_references mode i (Inr res # rs) texts u warnings =
     collect_references mode (Suc i) rs (texts @ [(reference_name i res, extract_text (gr_content res))])
       (add_usage u (gr_usage res)) warnings"
| "collect_references mode i (Inl e # rs) texts u warnings =
     (if mode = FailFast then Inl e
      else collect_references mode (Suc i) rs texts u
             (warnings @ [WarnOther (''moa reference '' @ show_nat i @ '' failed: '' @ show_error e)]))"

definition run_references_nonstream ::
  "composite_env \<Rightarrow> moa_config \<Rightarrow> 'x child_model list \<Rightarrow> 'x call_options \<Rightarrow>
   (aimux_error + (string \<times> string) list \<times> usage \<times> warning list) option" where
  "run_references_nonstream env config references options =
     (if references = [] then Some (Inr ([], no_usage, []))
      else
        (let results = map (\<lambda>i. call_child env i (cm_generate (references ! i) (reference_options config options)))
               [0..<length references]
         in if None \<in> set results then None
            else Some (collect_references (fail_mode config) 0 (map the results) [] no_usage [])))"

definition aggregator_options :: "moa_config \<Rightarrow> 'x call_options \<Rightarrow> (string \<times> string) list \<Rightarrow> 'x call_options" where
  "aggregator_options config options texts =
     options\<lparr>co_prompt := build_aggregator_prompt (co_prompt options) (aggregator_instructions config) texts\<rparr>"

definition moa_generate ::
  "composite_env \<Rightarrow> moa_config \<Rightarrow> 'x child_model list \<Rightarrow> 'x child_model \<Rightarrow> 'x call_options \<Rightarrow>
   (aimux_error + generate_result) option" where
  "moa_generate env config references aggregator options =
     (case run_references_nonstream env config references options of
        None \<Rightarrow> None
      | Some (Inl e) \<Rightarrow> Some (Inl e)
      | Some (Inr (texts, ref_usage, warnings)) \<Rightarrow>
          map_option (map_sum (\<lambda>e. e)
              (\<lambda>agg. agg\<lparr>gr_usage := add_usage (gr_usage agg) ref_usage, gr_warnings := gr_warnings agg @ warnings\<rparr>))
            (call_child env (length references) (cm_generate aggregator (aggregator_options config options texts))))"

fun moa_forward :: "usage \<Rightarrow> stream_items \<Rightarrow> stream_items" where
  "moa_forward ref_usage [] = []"
| "moa_forward ref_usage (Inr (StreamStart _) # items) = moa_forward ref_usage items"
| "moa_forward ref_usage (Inr (Finish reason u md) # items) =
     Inr (Finish reason (add_usage u ref_usage) md) # moa_forward ref_usage items"
| "moa_forward ref_usage (Inr p # items) = Inr p # moa_forward ref_usage items"
| "moa_forward ref_usage (Inl e # items) =
     Inl e # (if is_recoverable_stream_error e then moa_forward ref_usage items else [])"

definition moa_stream ::
  "composite_env \<Rightarrow> moa_config \<Rightarrow> 'x child_model list \<Rightarrow> 'x child_model \<Rightarrow> 'x call_options \<Rightarrow>
   (aimux_error + stream_items) option" where
  "moa_stream env config references aggregator options =
     (case run_references_nonstream env config references options of
        None \<Rightarrow> None
      | Some (Inl e) \<Rightarrow> Some (Inl e)
      | Some (Inr (texts, ref_usage, warnings)) \<Rightarrow>
          map_option (map_sum (\<lambda>e. e) (\<lambda>items. Inr (StreamStart warnings) # moa_forward ref_usage items))
            (call_child env (length references) (cm_stream aggregator (aggregator_options config options texts))))"

section \<open>Calls return\<close>

lemma call_child_returns:
  assumes "child_max_retries env \<noteq> Some (-1)"
  shows "\<exists>r. call_child env i operation = Some r"
proof -
  let ?p = "prepare_retries (child_max_retries env) (ce_signal env i)"
  have "max_retries ?p \<noteq> -1"
    using assms by (cases "child_max_retries env") (simp_all add: prepare_retries_def unwrap_or_def DEFAULT_MAX_RETRIES_def)
  note fits = not_max_fits [OF this]
  obtain r ds where "retry (unat (max_retries ?p) + 1) (ce_hint env) (ce_jitter env i) ?p operation = Some (r, ds)"
    using loop_returns [of "[]" "max_retries ?p" "unat (max_retries ?p) + 1"
        "\<lambda>n. retry_delay_with_jitter (ce_hint env) (ce_jitter env i n)" "initial_delay_ms ?p" "unat (initial_delay_ms ?p)"
        operation "backoff_factor ?p" "pr_abort_signal ?p" is_retryable "[]"] retry_delay_bound fits
    by (auto simp: retry_def)
  then show ?thesis by (simp add: call_child_def Let_def)
qed

section \<open>Routing\<close>

text \<open>
  The children of \<open>order\<close> are called one after the other up to the first that succeeds, or all of them, and
  the last call's outcome is the result.
\<close>

definition first_success :: "(nat \<Rightarrow> aimux_error + 'a) \<Rightarrow> nat list \<Rightarrow> aimux_error + 'a \<Rightarrow> nat list \<Rightarrow> bool" where
  "first_success outcome order r called \<longleftrightarrow>
     (\<exists>k < length order. called = take (Suc k) order \<and> r = outcome (order ! k) \<and>
        (\<forall>j < k. isl (outcome (order ! j))) \<and> (isl r \<longrightarrow> Suc k = length order))"

lemma first_success_here: "\<not> isl (outcome i) \<or> order = [] \<Longrightarrow> first_success outcome (i # order) (outcome i) [i]"
  unfolding first_success_def by (intro exI [of _ 0]) auto

lemma first_success_later:
  assumes "isl (outcome i)" and "first_success outcome order r called"
  shows "first_success outcome (i # order) r (i # called)"
proof -
  obtain k where k: "k < length order" "called = take (Suc k) order" "r = outcome (order ! k)"
      "\<forall>j < k. isl (outcome (order ! j))" "isl r \<longrightarrow> Suc k = length order"
    using assms(2) by (auto simp: first_success_def)
  have "isl (outcome ((i # order) ! j))" if "j < Suc k" for j using that k(4) assms(1) by (cases j) auto
  with k show ?thesis unfolding first_success_def by (intro exI [of _ "Suc k"]) auto
qed

lemma fallback_exact:
  assumes returns: "\<And>i. \<exists>r. call_child env i (child i) = Some r"
  shows "\<exists>r called. fallback_generate env child exclude is e0 = Some (r, called) \<and>
    (if filter (\<lambda>i. i \<noteq> exclude) is = [] then r = Inl e0 \<and> called = []
     else first_success (\<lambda>i. the (call_child env i (child i))) (filter (\<lambda>i. i \<noteq> exclude) is) r called)"
proof (induction "is" arbitrary: e0)
  case (Cons i "is")
  let ?out = "\<lambda>i. the (call_child env i (child i))"
  obtain o1 where o1: "call_child env i (child i) = Some o1" using returns by blast
  show ?case
  proof (cases "i = exclude")
    case True
    then show ?thesis using Cons.IH [of e0] by (auto split: if_splits)
  next
    case other: False
    show ?thesis
    proof (cases o1)
      case (Inr r)
      then show ?thesis using o1 other first_success_here [of ?out i] by auto
    next
      case (Inl e)
      obtain r called where IH: "fallback_generate env child exclude is e = Some (r, called)"
          "if filter (\<lambda>i. i \<noteq> exclude) is = [] then r = Inl e \<and> called = []
           else first_success ?out (filter (\<lambda>i. i \<noteq> exclude) is) r called"
        using Cons.IH by blast
      have "first_success ?out (i # filter (\<lambda>i. i \<noteq> exclude) is) r (i # called)"
      proof (cases "filter (\<lambda>i. i \<noteq> exclude) is = []")
        case True
        then show ?thesis using IH(2) first_success_here [of ?out i "[]"] o1 Inl by simp
      next
        case False
        then show ?thesis using IH(2) first_success_later [of ?out i] o1 Inl by simp
      qed
      then show ?thesis using IH(1) o1 Inl other by simp
    qed
  qed
qed simp

text \<open>
  C26. A router answers with the first success among the routed child and then, when it falls back, the other
  children in their order: it calls them one after the other, each at most once and none after a success, and
  returns the last error when all fail. A strategy's error and an index out of range are returned without
  any call.
\<close>

theorem router_generate_exact:
  assumes "child_max_retries env \<noteq> Some (-1)"
  shows "case route (co_prompt options) models of
      Inl e \<Rightarrow> router_generate env route policy models options = Some (Inl e, [])
    | Inr idx \<Rightarrow>
        if length models \<le> idx
        then \<exists>message. router_generate env route policy models options = Some (Inl (InvalidArgument message None), [])
        else \<exists>r called. router_generate env route policy models options = Some (r, called) \<and>
          first_success (\<lambda>i. the (call_child env i (cm_generate (models ! i) options)))
            (idx # (if policy = OnError then filter (\<lambda>i. i \<noteq> idx) [0..<length models] else [])) r called"
proof (cases "route (co_prompt options) models")
  case (Inl e)
  then show ?thesis by (simp add: router_generate_def)
next
  case (Inr idx)
  show ?thesis
  proof (cases "idx < length models")
    case False
    then show ?thesis using Inr by (simp add: router_generate_def check_index_def invalid_argument_def)
  next
    case True
    let ?child = "\<lambda>i. cm_generate (models ! i) options"
    let ?out = "\<lambda>i. the (call_child env i (?child i))"
    obtain o1 where o1: "call_child env idx (?child idx) = Some o1" using call_child_returns [OF assms] by blast
    have run: "router_generate env route policy models options = (case o1 of
        Inr r \<Rightarrow> Some (Inr r, [idx])
      | Inl e \<Rightarrow> if policy = OnError
          then map_option (\<lambda>(r, called). (r, idx # called)) (fallback_generate env ?child idx [0..<length models] e)
          else Some (Inl e, [idx]))"
      using Inr True o1 by (simp add: router_generate_def check_index_def)
    have goal: ?thesis if "router_generate env route policy models options = Some (r, called)"
        "first_success ?out (idx # (if policy = OnError then filter (\<lambda>i. i \<noteq> idx) [0..<length models] else [])) r called"
      for r called using that Inr True by auto
    show ?thesis
    proof (cases o1)
      case ok: (Inr r)
      then show ?thesis using goal [of "Inr r" "[idx]"] run o1 first_success_here [of ?out idx] by simp
    next
      case fail: (Inl e)
      show ?thesis
      proof (cases policy)
        case NoFallback
        then show ?thesis using goal [of "Inl e" "[idx]"] run fail o1 first_success_here [of ?out idx "[]"] by simp
      next
        case OnError
        obtain r called where fb: "fallback_generate env ?child idx [0..<length models] e = Some (r, called)"
            "if filter (\<lambda>i. i \<noteq> idx) [0..<length models] = [] then r = Inl e \<and> called = []
             else first_success ?out (filter (\<lambda>i. i \<noteq> idx) [0..<length models]) r called"
          using fallback_exact [of env ?child, OF call_child_returns [OF assms], of idx "[0..<length models]" e] by blast
        have "first_success ?out (idx # filter (\<lambda>i. i \<noteq> idx) [0..<length models]) r (idx # called)"
        proof (cases "filter (\<lambda>i. i \<noteq> idx) [0..<length models] = []")
          case True
          then show ?thesis using fb(2) first_success_here [of ?out idx "[]"] o1 fail by simp
        next
          case False
          then show ?thesis using fb(2) first_success_later [of ?out idx] o1 fail by simp
        qed
        then show ?thesis using goal [of r "idx # called"] run fail OnError fb(1) by simp
      qed
    qed
  qed
qed

text \<open>With ordered weights the weighted strategy takes the earliest of the largest.\<close>

lemma best_weight_max:
  fixes weight :: "nat \<Rightarrow> 'w::linorder"
  assumes "best_weight (>) weight [n..<m] b (weight b) = i" and "b < n" and "n \<le> m"
    and "\<forall>j < n. weight j \<le> weight b" and "\<forall>j < b. weight j < weight b"
  shows "i < m \<and> (\<forall>j < m. weight j \<le> weight i) \<and> (\<forall>j < i. weight j < weight i)"
  using assms
proof (induction "m - n" arbitrary: n b)
  case (Suc d)
  then have lt: "n < m" by simp
  then have step: "[n..<m] = n # [Suc n..<m]" by (simp add: upt_conv_Cons)
  show ?case
  proof (cases "weight n > weight b")
    case True
    have "\<forall>j < n. weight j < weight n" using Suc.prems(4) True by (meson le_less_trans)
    moreover from this have "\<forall>j < Suc n. weight j \<le> weight n" by (auto simp: less_Suc_eq)
    ultimately show ?thesis using Suc.hyps(1) [of "Suc n" n] Suc.hyps(2) Suc.prems lt True step by auto
  next
    case False
    then have "\<forall>j < Suc n. weight j \<le> weight b" using Suc.prems(4) by (auto simp: less_Suc_eq not_less)
    then show ?thesis using Suc.hyps(1) [of "Suc n" b] Suc.hyps(2) Suc.prems lt False step by auto
  qed
qed auto

lemma weighted_route_earliest_max:
  fixes weights :: "'w::linorder list"
  assumes "weighted_route (>) zero weights models = Inr i"
  shows "i < length models \<and> (\<forall>j < length models. weight_at zero weights j \<le> weight_at zero weights i)
    \<and> (\<forall>j < i. weight_at zero weights j < weight_at zero weights i)"
proof -
  have "models \<noteq> []" using assms by (auto simp: weighted_route_def)
  then show ?thesis
    using assms best_weight_max [of "weight_at zero weights" 1 "length models" 0 i]
    by (cases models) (auto simp: weighted_route_def)
qed

definition sample_router_env :: composite_env where
  "sample_router_env = \<lparr>child_max_retries = Some 0, ce_hint = (\<lambda>_. None), ce_jitter = (\<lambda>_ _ d. d), ce_signal = (\<lambda>_. None)\<rparr>"

definition sample_answer :: "string \<Rightarrow> generate_result" where
  "sample_answer text = \<lparr>gr_content = [GCText text None], gr_finish_reason = \<lparr>unified = Stop, fr_raw = None\<rparr>,
     gr_usage = no_usage, gr_warnings = [], gr_provider_metadata = None, gr_request = None, gr_response = None\<rparr>"

definition sample_children :: "unit child_model list" where
  "sample_children =
     [\<lparr>cm_generate = (\<lambda>_ _. Inr (sample_answer ''a'')), cm_stream = (\<lambda>_ _. Inr [])\<rparr>,
      \<lparr>cm_generate = (\<lambda>_ _. Inl (other ''down'')), cm_stream = (\<lambda>_ _. Inr [])\<rparr>]"

definition sample_options :: "unit call_options" where
  "sample_options = \<lparr>co_prompt = [], co_tools = None, co_tool_choice = None, co_rest = ()\<rparr>"

theorem router_generate_exact_witness:
  "child_max_retries sample_router_env \<noteq> Some (-1) \<and>
   (\<exists>r called. router_generate sample_router_env (\<lambda>_ _. Inr 1) OnError sample_children sample_options = Some (r, called) \<and>
      first_success (\<lambda>i. the (call_child sample_router_env i (cm_generate (sample_children ! i) sample_options)))
        [1, 0] r called)"
proof -
  have ok: "child_max_retries sample_router_env \<noteq> Some (-1)" by (simp add: sample_router_env_def)
  have "filter (\<lambda>i. i \<noteq> 1) [0..<length sample_children] = [0]" by (simp add: sample_children_def)
  then show ?thesis
    using router_generate_exact [OF ok, of "\<lambda>_ _. Inr 1" OnError sample_children sample_options] ok
    by (simp add: sample_children_def)
qed

section \<open>Token counts\<close>

text \<open>The sum of reported counts, as a number; \<open>None\<close> when no count was reported.\<close>

fun count_sum :: "u32 option list \<Rightarrow> nat option" where
  "count_sum [] = None"
| "count_sum (None # cs) = count_sum cs"
| "count_sum (Some c # cs) = Some (unat c + unwrap_or 0 (count_sum cs))"

lemma opt_add_None [simp]: "opt_add None b = b" "opt_add a None = a"
  by (cases b; simp) (cases a; simp)

lemma opt_add_assoc: "opt_add (opt_add a b) c = opt_add a (opt_add b c)"
  by (cases a; cases b; cases c) (simp_all add: add.assoc)

lemma opt_add_comm: "opt_add a b = opt_add b a"
  by (cases a; cases b) (simp_all add: add.commute)

lemma opt_add_exact:
  assumes "unat x + n < 2 ^ 32" and "map_option unat b = (if m = None then None else Some n)" "m = None \<longrightarrow> n = 0"
  shows "map_option unat (opt_add (Some x) b) = Some (unat x + n)"
proof (cases b)
  case (Some y)
  then have "unat y = n" using assms(2) by (auto split: if_splits)
  then show ?thesis using Some assms(1) by (simp add: unat_add_lem [THEN iffD1])
qed (use assms in \<open>auto split: if_splits\<close>)

lemma sum_counts_exact:
  "unwrap_or 0 (count_sum cs) < 2 ^ 32 \<Longrightarrow> map_option unat (foldr opt_add cs None) = count_sum cs"
proof (induction cs)
  case (Cons c cs)
  show ?case
  proof (cases c)
    case None
    then show ?thesis using Cons by simp
  next
    case (Some x)
    let ?n = "unwrap_or 0 (count_sum cs)"
    have small: "unat x + ?n < 2 ^ 32" using Cons.prems Some by (simp add: unwrap_or_def)
    then have IH: "map_option unat (foldr opt_add cs None) = count_sum cs" using Cons.IH by simp
    show ?thesis
      using opt_add_exact [OF small, of "foldr opt_add cs None" "count_sum cs"] IH Some
      by (auto simp: unwrap_or_def split: option.splits)
  qed
qed simp

lemma fold_opt_add: "foldl opt_add a cs = opt_add a (foldr opt_add cs None)"
  by (induction cs arbitrary: a) (simp_all add: opt_add_assoc)

text \<open>Each token count of a usage is summed on its own.\<close>

abbreviation usage_counts :: "(usage \<Rightarrow> u32 option) list" where
  "usage_counts \<equiv>
     [itu_total \<circ> u_input_tokens, itu_no_cache \<circ> u_input_tokens, itu_cache_read \<circ> u_input_tokens,
      itu_cache_write \<circ> u_input_tokens, otu_total \<circ> u_output_tokens, otu_text \<circ> u_output_tokens,
      otu_reasoning \<circ> u_output_tokens]"

lemma add_usage_count: "f \<in> set usage_counts \<Longrightarrow> f (add_usage a b) = opt_add (f a) (f b)"
  by (auto simp: add_usage_def)

lemma no_usage_count: "f \<in> set usage_counts \<Longrightarrow> f no_usage = None"
  by (auto simp: no_usage_def)

lemma fold_usage_count: "f \<in> set usage_counts \<Longrightarrow> f (foldl add_usage a us) = foldl opt_add (f a) (map f us)"
  by (induction us arbitrary: a) (simp_all add: add_usage_count del: set_simps)

section \<open>References\<close>

definition reference_outcomes ::
  "composite_env \<Rightarrow> moa_config \<Rightarrow> 'x child_model list \<Rightarrow> 'x call_options \<Rightarrow> (aimux_error + generate_result) list" where
  "reference_outcomes env config references options =
     map (\<lambda>i. the (call_child env i (cm_generate (references ! i) (reference_options config options)))) [0..<length references]"

definition answers :: "(aimux_error + 'a) list \<Rightarrow> 'a list" where
  "answers rs = List.map_filter (\<lambda>r. case r of Inl _ \<Rightarrow> None | Inr a \<Rightarrow> Some a) rs"

definition failure_warnings :: "nat \<Rightarrow> (aimux_error + 'a) list \<Rightarrow> warning list" where
  "failure_warnings i rs = concat (map (\<lambda>(j, r). case r of
     Inl e \<Rightarrow> [WarnOther (''moa reference '' @ show_nat j @ '' failed: '' @ show_error e)] | Inr _ \<Rightarrow> []) (enumerate i rs))"

lemma answers_simps [simp]: "answers [] = []" "answers (Inl e # rs) = answers rs" "answers (Inr a # rs) = a # answers rs"
  by (simp_all add: answers_def List.map_filter_simps)

lemma failure_warnings_simps [simp]:
  "failure_warnings i [] = []" "failure_warnings i (Inr a # rs) = failure_warnings (Suc i) rs"
  "failure_warnings i (Inl e # rs) =
     WarnOther (''moa reference '' @ show_nat i @ '' failed: '' @ show_error e) # failure_warnings (Suc i) rs"
  by (simp_all add: failure_warnings_def)

lemma collect_references_Inr:
  "collect_references mode i rs texts u ws = Inr (texts', u', ws') \<Longrightarrow>
     u' = foldl add_usage u (map gr_usage (answers rs)) \<and> ws' = ws @ failure_warnings i rs \<and>
     map snd texts' = map snd texts @ map (extract_text \<circ> gr_content) (answers rs)"
  by (induction mode i rs texts u ws rule: collect_references.induct) (auto split: if_splits)

lemma run_references_Inr:
  assumes "run_references_nonstream env config references options = Some (Inr (texts, u, ws))"
  shows "u = foldl add_usage no_usage (map gr_usage (answers (reference_outcomes env config references options)))
    \<and> ws = failure_warnings 0 (reference_outcomes env config references options)
    \<and> map snd texts = map (extract_text \<circ> gr_content) (answers (reference_outcomes env config references options))"
proof (cases "references = []")
  case True
  then show ?thesis using assms by (simp add: run_references_nonstream_def reference_outcomes_def)
next
  case False
  let ?rs = "reference_outcomes env config references options"
  have "collect_references (fail_mode config) 0 ?rs [] no_usage [] = Inr (texts, u, ws)"
    using assms False by (simp add: run_references_nonstream_def reference_outcomes_def Let_def comp_def split: if_splits)
  from collect_references_Inr [OF this] show ?thesis by simp
qed

lemma total_count_exact:
  assumes f: "f \<in> set usage_counts" and "unwrap_or 0 (count_sum (f u # map (f \<circ> gr_usage) rs)) < 2 ^ 32"
  shows "map_option unat (f (add_usage u (foldl add_usage no_usage (map gr_usage rs)))) =
    count_sum (f u # map (f \<circ> gr_usage) rs)"
proof -
  have "f (add_usage u (foldl add_usage no_usage (map gr_usage rs))) = foldr opt_add (f u # map (f \<circ> gr_usage) rs) None"
    unfolding add_usage_count [OF f] fold_usage_count [OF f] no_usage_count [OF f] fold_opt_add by (simp add: comp_def)
  then show ?thesis using sum_counts_exact [OF assms(2)] by simp
qed

text \<open>The usage of an answer counts what the aggregator and the references report, while it fits 32 bits.\<close>

definition counts_all :: "generate_result list \<Rightarrow> usage \<Rightarrow> usage \<Rightarrow> bool" where
  "counts_all refs u reported \<longleftrightarrow>
     (\<forall>f \<in> set usage_counts. unwrap_or 0 (count_sum (f u # map (f \<circ> gr_usage) refs)) < 2 ^ 32 \<longrightarrow>
        map_option unat (f reported) = count_sum (f u # map (f \<circ> gr_usage) refs))"

lemma counts_all_sum: "counts_all refs u (add_usage u (foldl add_usage no_usage (map gr_usage refs)))"
  unfolding counts_all_def using total_count_exact by blast

text \<open>
  C27. A generated mixture answer is the aggregator's answer to the prompt with the texts of the successful
  references, its warnings followed by one for every failed reference; every token count is the sum of
  the counts that the aggregator and the successful references report, absent when none does, as long as
  the sum fits 32 bits.
\<close>

theorem moa_generate_exact:
  assumes "moa_generate env config references aggregator options = Some (Inr r)"
  shows "\<exists>agg texts. call_child env (length references) (cm_generate aggregator (aggregator_options config options texts))
        = Some (Inr agg) \<and>
      map snd texts = map (extract_text \<circ> gr_content) (answers (reference_outcomes env config references options)) \<and>
      gr_content r = gr_content agg \<and> gr_finish_reason r = gr_finish_reason agg \<and>
      gr_warnings r = gr_warnings agg @ failure_warnings 0 (reference_outcomes env config references options) \<and>
      counts_all (answers (reference_outcomes env config references options)) (gr_usage agg) (gr_usage r)"
proof -
  obtain texts ru ws where run: "run_references_nonstream env config references options = Some (Inr (texts, ru, ws))"
    using assms by (auto simp: moa_generate_def split: option.splits sum.splits prod.splits)
  then obtain agg where agg: "call_child env (length references) (cm_generate aggregator (aggregator_options config options texts))
        = Some (Inr agg)"
      "r = agg\<lparr>gr_usage := add_usage (gr_usage agg) ru, gr_warnings := gr_warnings agg @ ws\<rparr>"
    using assms by (auto simp: moa_generate_def map_sum_Inr)
  show ?thesis using agg run_references_Inr [OF run] counts_all_sum by auto
qed

text \<open>The aggregator's items that a stream forwards: all but the starts, up to its first terminal error.\<close>

fun forwarded_items :: "stream_items \<Rightarrow> stream_items" where
  "forwarded_items [] = []"
| "forwarded_items (Inr p # items) =
     (case p of StreamStart _ \<Rightarrow> forwarded_items items | _ \<Rightarrow> Inr p # forwarded_items items)"
| "forwarded_items (Inl e # items) = Inl e # (if is_recoverable_stream_error e then forwarded_items items else [])"

definition same_item :: "generate_result list \<Rightarrow> aimux_error + stream_part \<Rightarrow> aimux_error + stream_part \<Rightarrow> bool" where
  "same_item refs a b \<longleftrightarrow> (case a of
     Inr (Finish reason u md) \<Rightarrow> (\<exists>tot. b = Inr (Finish reason tot md) \<and> counts_all refs u tot)
   | _ \<Rightarrow> b = a)"

lemma moa_forward_items:
  "list_all2 (same_item refs) (forwarded_items items) (moa_forward (foldl add_usage no_usage (map gr_usage refs)) items)"
  by (induction "foldl add_usage no_usage (map gr_usage refs)" items rule: moa_forward.induct)
    (auto simp: same_item_def counts_all_sum)

text \<open>
  A streamed mixture answer starts with one start part, which holds one warning for every failed reference
  and none of the aggregator's, and goes on with the aggregator's parts up to its first terminal error,
  unchanged but for the usage of a finish part, which counts the references too.
\<close>

lemma moa_stream_exact:
  assumes "moa_stream env config references aggregator options = Some (Inr items)"
  shows "\<exists>agg texts rest. call_child env (length references) (cm_stream aggregator (aggregator_options config options texts))
        = Some (Inr agg) \<and>
      map snd texts = map (extract_text \<circ> gr_content) (answers (reference_outcomes env config references options)) \<and>
      items = Inr (StreamStart (failure_warnings 0 (reference_outcomes env config references options))) # rest \<and>
      list_all2 (same_item (answers (reference_outcomes env config references options))) (forwarded_items agg) rest"
proof -
  obtain texts ru ws where run: "run_references_nonstream env config references options = Some (Inr (texts, ru, ws))"
    using assms by (auto simp: moa_stream_def split: option.splits sum.splits prod.splits)
  then obtain agg where agg: "call_child env (length references) (cm_stream aggregator (aggregator_options config options texts))
        = Some (Inr agg)" "items = Inr (StreamStart ws) # moa_forward ru agg"
    using assms by (auto simp: moa_stream_def map_sum_Inr)
  show ?thesis using agg run_references_Inr [OF run] moa_forward_items by auto
qed

definition sample_aggregator :: "unit child_model" where
  "sample_aggregator = \<lparr>cm_generate = (\<lambda>_ _. Inr (sample_answer ''sum'')),
     cm_stream = (\<lambda>_ _. Inr [Inr (StreamStart [WarnOther ''w'']), Inr (TextDelta ''t'' ''sum'' None)])\<rparr>"

lemma sample_calls:
  "call_child sample_router_env i (\<lambda>_. Inr r) = Some (Inr r)" "call_child sample_router_env i (\<lambda>_. Inl (other m)) = Some (Inl (other m))"
  by (simp_all add: call_child_def sample_router_env_def retry_def prepare_retries_def unwrap_or_def attempt_result_def)

lemma sample_numbers: "show_nat 0 = ''0''" "show_nat (Suc 0) = ''1''"
  by code_simp+

lemma sample_references:
  "run_references_nonstream sample_router_env default_moa_config sample_children sample_options =
     Some (Inr ([(''ref-0'', ''a'')], add_usage no_usage no_usage, [WarnOther (''moa reference 1 failed: '' @ show_error (other ''down''))]))"
  by (simp add: run_references_nonstream_def default_moa_config_def sample_children_def sample_calls sample_answer_def
      reference_name_def unwrap_or_def extract_text_def sample_numbers del: show_nat.simps)

theorem moa_generate_exact_witness:
  "\<exists>r. moa_generate sample_router_env default_moa_config sample_children sample_aggregator sample_options = Some (Inr r) \<and>
     gr_content r = [GCText ''sum'' None] \<and> length (gr_warnings r) = 1"
proof -
  obtain r where r: "moa_generate sample_router_env default_moa_config sample_children sample_aggregator sample_options = Some (Inr r)"
    by (simp add: moa_generate_def sample_references sample_aggregator_def sample_calls)
  have outcomes: "failure_warnings 0 (reference_outcomes sample_router_env default_moa_config sample_children sample_options)
      = [WarnOther (''moa reference 1 failed: '' @ show_error (other ''down''))]"
    using run_references_Inr [OF sample_references] by simp
  from moa_generate_exact [OF r] obtain agg texts where
      "call_child sample_router_env (length sample_children) (cm_generate sample_aggregator
         (aggregator_options default_moa_config sample_options texts)) = Some (Inr agg)"
      "gr_content r = gr_content agg" "gr_warnings r = gr_warnings agg @
        failure_warnings 0 (reference_outcomes sample_router_env default_moa_config sample_children sample_options)"
    by blast
  then show ?thesis using r outcomes by (auto simp: sample_aggregator_def sample_calls sample_answer_def)
qed

lemma moa_stream_exact_witness:
  "\<exists>items rest. moa_stream sample_router_env default_moa_config sample_children sample_aggregator sample_options = Some (Inr items) \<and>
     items = Inr (StreamStart [WarnOther (''moa reference 1 failed: '' @ show_error (other ''down''))]) # rest \<and>
     rest = [Inr (TextDelta ''t'' ''sum'' None)]"
proof -
  obtain items where items: "moa_stream sample_router_env default_moa_config sample_children sample_aggregator sample_options = Some (Inr items)"
    by (simp add: moa_stream_def sample_references sample_aggregator_def sample_calls)
  have outcomes: "failure_warnings 0 (reference_outcomes sample_router_env default_moa_config sample_children sample_options)
      = [WarnOther (''moa reference 1 failed: '' @ show_error (other ''down''))]"
    using run_references_Inr [OF sample_references] by simp
  from moa_stream_exact [OF items] obtain agg texts rest where
      agg: "call_child sample_router_env (length sample_children) (cm_stream sample_aggregator
         (aggregator_options default_moa_config sample_options texts)) = Some (Inr agg)"
      "items = Inr (StreamStart (failure_warnings 0
         (reference_outcomes sample_router_env default_moa_config sample_children sample_options))) # rest"
      "list_all2 (same_item (answers (reference_outcomes sample_router_env default_moa_config sample_children sample_options)))
         (forwarded_items agg) rest"
    by blast
  then have "rest = [Inr (TextDelta ''t'' ''sum'' None)]"
    by (auto simp: sample_aggregator_def sample_calls list_all2_Cons1 same_item_def)
  then show ?thesis using items agg(2) outcomes by simp
qed

end
