(* ===== verification/Chat_Completions.thy ===== *)
theory Chat_Completions
  imports Text_Result
begin

text \<open>
  OpenAI Chat Completions output (\<open>src/aimux-core/src/openai_output.rs\<close>): the conversion of a generated
  result into a completion and of the public stream into completion chunks. The base64 encoder and JSON's text
  form are fields of \<open>chat_env\<close>, with the clock and the generated id of the call; the response id and model that
  a tap of the provider's stream records are what \<open>identity\<close> holds when the role chunk is sent. A completion
  and a chunk have exactly one choice, with index 0, whose fields are part of their records. Token totals
  and tool indexes are 32-bit sums that wrap, as in a release build.
\<close>

section \<open>Completions\<close>

record chat_tool_call =
  cc_tool_id :: string
  cc_tool_type :: string
  cc_tool_name :: string
  cc_tool_arguments :: string

record chat_message =
  cm_role :: string
  cm_content :: "string option"
  cm_reasoning_content :: "string option"
  cm_tool_calls :: "chat_tool_call list option"
  cm_annotations :: "json list option"

record prompt_tokens_details =
  cached_tokens :: u32
  ptd_cache_write_tokens :: "u32 option"

record chat_usage =
  prompt_tokens :: u32
  completion_tokens :: u32
  cu_total_tokens :: u32
  cu_prompt_tokens_details :: "prompt_tokens_details option"
  cu_reasoning_tokens :: "u32 option option"

record chat_completion =
  cc_id :: string
  cc_object :: string
  cc_created :: u64
  cc_model :: string
  cc_message :: chat_message
  cc_finish_reason :: "string option"
  cc_logprobs :: "json option"
  cc_usage :: chat_usage

record chat_env =
  ch_json :: json_env
  ch_messages :: message_env
  ch_created :: u64
  ch_random_id :: string

definition finish_reason_to_openai :: "finish_reason_unified \<Rightarrow> string option \<Rightarrow> string option" where
  "finish_reason_to_openai reason raw = (case reason of
     Stop \<Rightarrow> Some ''stop'' | Length \<Rightarrow> Some ''length'' | ContentFilter \<Rightarrow> Some ''content_filter''
   | ToolCalls \<Rightarrow> Some ''tool_calls'' | FinishError \<Rightarrow> Some ''stop'' | FinishOther \<Rightarrow> Some (unwrap_or ''stop'' raw))"

definition usage_to_openai :: "language_model_usage \<Rightarrow> chat_usage" where
  "usage_to_openai u =
     (let prompt = unwrap_or 0 (input_tokens u); completion = unwrap_or 0 (output_tokens u)
      in \<lparr>prompt_tokens = prompt, completion_tokens = completion, cu_total_tokens = prompt + completion,
          cu_prompt_tokens_details = Some \<lparr>cached_tokens = unwrap_or 0 (cache_read_tokens (lmu_input_token_details u)),
            ptd_cache_write_tokens = cache_write_tokens (lmu_input_token_details u)\<rparr>,
          cu_reasoning_tokens = Some (reasoning_tokens (lmu_output_token_details u))\<rparr>)"

definition data_url_text :: "string \<Rightarrow> string \<Rightarrow> string" where
  "data_url_text media_type base64 = ''data:'' @ media_type @ '';base64,'' @ base64"

fun file_data_to_text :: "chat_env \<Rightarrow> generated_file_data \<Rightarrow> string \<Rightarrow> string" where
  "file_data_to_text env (FileDataUrl url _) media_type = url"
| "file_data_to_text env (FileDataBytes (Base64 b)) media_type = data_url_text media_type b"
| "file_data_to_text env (FileDataBytes (Binary b)) media_type = data_url_text media_type (base64_encode (ch_messages env) b)"

definition parsed_tool_call_arguments :: "chat_env \<Rightarrow> json \<Rightarrow> bool option \<Rightarrow> aimux_error option \<Rightarrow> string" where
  "parsed_tool_call_arguments env input invalid error =
     (case (if invalid = Some True then Option.bind error (original_tool_call_text (ch_json env) input) else None) of
        Some raw \<Rightarrow> (if str_trim raw = [] then ''{}'' else raw)
      | None \<Rightarrow> json_display (ch_json env) input)"

definition or_insert :: "string \<Rightarrow> json \<Rightarrow> json_object \<Rightarrow> json_object" where
  "or_insert k v obj = (if map_of obj k = None then obj @ [(k, v)] else obj)"

definition with_bytes :: "json \<Rightarrow> json" where
  "with_bytes alternative = (case alternative of JObject fs \<Rightarrow> JObject (or_insert ''bytes'' JNull fs) | _ \<Rightarrow> alternative)"

definition logprob_token :: "json \<Rightarrow> json" where
  "logprob_token entry = (case entry of
     JObject fs \<Rightarrow>
       (let obj = or_insert ''top_logprobs'' (JArray []) (or_insert ''bytes'' JNull fs)
        in JObject (case map_of obj ''top_logprobs'' of
             Some (JArray alternatives) \<Rightarrow> AList.update ''top_logprobs'' (JArray (map with_bytes alternatives)) obj
           | _ \<Rightarrow> obj))
   | _ \<Rightarrow> entry)"

fun array_items :: "json \<Rightarrow> json list option" where
  "array_items (JArray xs) = Some xs" | "array_items _ = None"

definition chat_logprobs :: "json \<Rightarrow> json option" where
  "chat_logprobs logprobs = (case logprobs of
     JObject _ \<Rightarrow> Some logprobs
   | JArray items \<Rightarrow>
       (let content = (if list_all (\<lambda>x. array_items x \<noteq> None) items
                       then map logprob_token (concat (List.map_filter array_items items))
                       else map logprob_token items)
        in Some (JObject [(''content'', JArray content), (''refusal'', JNull)]))
   | _ \<Rightarrow> None)"

fun find_logprobs :: "provider_metadata \<Rightarrow> json option" where
  "find_logprobs [] = None"
| "find_logprobs ((ns, fs) # md) = (case map_of fs ''logprobs'' of
     Some v \<Rightarrow> if v = JNull then find_logprobs md else Some v
   | None \<Rightarrow> find_logprobs md)"

datatype completion_content =
  CCText string
| CCReasoning string
| CCToolCall string string string
| CCSource source
| CCFile string
| CCToolResult string json bool
| CCNone

text \<open>The four accumulators of \<open>build_chat_completion\<close>.\<close>

record completion_parts =
  cp_content :: string
  cp_reasoning :: string
  cp_tool_calls :: "chat_tool_call list"
  cp_annotations :: "json list"

definition on_new_line :: "string \<Rightarrow> string \<Rightarrow> string" where
  "on_new_line content text = (if content \<noteq> [] then content @ [CHR 0x0A] else content) @ text"

definition url_citation :: "string \<Rightarrow> string option \<Rightarrow> json" where
  "url_citation url title = JObject [(''type'', JString ''url_citation''),
     (''url_citation'', JObject ((''url'', JString url) # (case title of None \<Rightarrow> [] | Some t \<Rightarrow> [(''title'', JString t)])))]"

fun add_content :: "chat_env \<Rightarrow> completion_content \<Rightarrow> completion_parts \<Rightarrow> completion_parts" where
  "add_content env (CCText t) s = s\<lparr>cp_content := cp_content s @ t\<rparr>"
| "add_content env (CCReasoning t) s = s\<lparr>cp_reasoning := cp_reasoning s @ t\<rparr>"
| "add_content env (CCToolCall i name arguments) s =
     s\<lparr>cp_tool_calls := cp_tool_calls s @ [\<lparr>cc_tool_id = i, cc_tool_type = ''function'', cc_tool_name = name,
       cc_tool_arguments = arguments\<rparr>]\<rparr>"
| "add_content env (CCSource (SourceUrl i url title md)) s =
     s\<lparr>cp_annotations := cp_annotations s @ [url_citation url title], cp_content := on_new_line (cp_content s) url\<rparr>"
| "add_content env (CCFile t) s = s\<lparr>cp_content := on_new_line (cp_content s) t\<rparr>"
| "add_content env (CCToolResult name out is_error) s =
     s\<lparr>cp_content := on_new_line (cp_content s)
       ((if is_error then ''[tool error: '' else ''[tool result: '') @ name @ ''] '' @ json_display (ch_json env) out)\<rparr>"
| "add_content env (CCSource (SourceDocument i media_type title filename md)) s = s"
| "add_content env CCNone s = s"

definition non_empty :: "'a list \<Rightarrow> 'a list option" where
  "non_empty xs = (if xs = [] then None else Some xs)"

definition build_chat_completion ::
  "chat_env \<Rightarrow> completion_content list \<Rightarrow> string option \<Rightarrow> provider_metadata option \<Rightarrow> string option \<Rightarrow> string \<Rightarrow>
   chat_usage \<Rightarrow> chat_completion" where
  "build_chat_completion env content reason md i model u =
     (let s = fold (add_content env) content \<lparr>cp_content = [], cp_reasoning = [], cp_tool_calls = [], cp_annotations = []\<rparr>
      in \<lparr>cc_id = unwrap_or (''chatcmpl-'' @ ch_random_id env) i, cc_object = ''chat.completion'', cc_created = ch_created env,
          cc_model = model,
          cc_message = \<lparr>cm_role = ''assistant'',
            cm_content = (if cp_content s = [] \<and> cp_tool_calls s \<noteq> [] then None else Some (cp_content s)),
            cm_reasoning_content = non_empty (cp_reasoning s), cm_tool_calls = non_empty (cp_tool_calls s),
            cm_annotations = non_empty (cp_annotations s)\<rparr>,
          cc_finish_reason = reason,
          cc_logprobs = Option.bind (Option.bind md find_logprobs) chat_logprobs, cc_usage = u\<rparr>)"

fun generate_completion_content :: "chat_env \<Rightarrow> generate_content \<Rightarrow> completion_content" where
  "generate_completion_content env (GCText t _) = CCText t"
| "generate_completion_content env (GCReasoning r) = CCReasoning (ro_text r)"
| "generate_completion_content env (GCToolCall c) =
     CCToolCall (rtc_tool_call_id c) (rtc_tool_name c) (if str_trim (rtc_input c) = [] then ''{}'' else rtc_input c)"
| "generate_completion_content env (GCSource s) = CCSource s"
| "generate_completion_content env (GCFile f) = CCFile (file_data_to_text env (lmf_data f) (lmf_media_type f))"
| "generate_completion_content env (GCToolResult r) = CCToolResult (tr_tool_name r) (tr_result r) (tr_is_error r = Some True)"
| "generate_completion_content env _ = CCNone"

definition to_chat_completion :: "chat_env \<Rightarrow> generate_result \<Rightarrow> string \<Rightarrow> chat_completion" where
  "to_chat_completion env result model =
     build_chat_completion env (map (generate_completion_content env) (gr_content result))
       (finish_reason_to_openai (unified (gr_finish_reason result)) (fr_raw (gr_finish_reason result)))
       (gr_provider_metadata result) (Option.bind (gr_response result) gr_id)
       (unwrap_or model (Option.bind (gr_response result) gr_model_id))
       (usage_to_openai (as_language_model_usage (gr_usage result)))"

definition part_completion_content :: "chat_env \<Rightarrow> content_part \<Rightarrow> completion_content" where
  "part_completion_content env p = (case p of
     CPText t _ \<Rightarrow> CCText t
   | CPReasoning r \<Rightarrow> CCReasoning (ro_text r)
   | CPToolCall c \<Rightarrow> CCToolCall (ttc_id c) (ttc_name c) (parsed_tool_call_arguments env (ttc_input c) (ttc_invalid c) (ttc_error c))
   | CPSource s \<Rightarrow> CCSource s
   | CPFile f _ \<Rightarrow> CCFile (data_url_text (gf_media_type f) (file_base64 (ch_messages env) f))
   | CPToolResult r \<Rightarrow> CCToolResult (ttr_name r) (ttr_output r) False
   | CPToolError e \<Rightarrow> (if tte_provider_executed e = Some True then CCToolResult (tte_name e) (tte_error e) True else CCNone)
   | _ \<Rightarrow> CCNone)"

text \<open>A result without steps has no last step: \<open>final_step\<close> panics, and the value is \<open>None\<close>.\<close>

definition text_result_to_chat_completion :: "chat_env \<Rightarrow> generate_text_result \<Rightarrow> string \<Rightarrow> chat_completion option" where
  "text_result_to_chat_completion env result model =
     (if gtr_steps result = [] then None
      else
        (let final_step = last (gtr_steps result); response = sre_response final_step
         in Some (build_chat_completion env
              (map (part_completion_content env) (concat (map sre_content (gtr_steps result))))
              (finish_reason_to_openai (sre_finish_reason final_step) (sre_raw_finish_reason final_step))
              (sre_provider_metadata final_step) (non_empty (sr_id response))
              (if sr_model_id response = [] then model else sr_model_id response)
              (usage_to_openai (gtr_total_usage result)))))"

section \<open>Chunks\<close>

record chunk_tool_call =
  cct_index :: u32
  cct_id :: "string option"
  cct_type :: "string option"
  cct_name :: "string option"
  cct_arguments :: "string option"

record chat_delta =
  cd_role :: "string option"
  cd_content :: "string option"
  cd_reasoning_content :: "string option"
  cd_tool_calls :: "chunk_tool_call list option"

record chat_chunk =
  ck_id :: string
  ck_object :: string
  ck_created :: u64
  ck_model :: string
  ck_delta :: chat_delta
  ck_finish_reason :: "string option"
  ck_usage :: "chat_usage option"

record openai_stream_options =
  include_usage :: bool
  include_reasoning :: bool

record tool_call_accum =
  tca_index :: u32
  tca_arguments :: string

text \<open>
  The converter's state; \<open>identity\<close> is \<open>None\<close> without a tap, and otherwise what the tap has recorded when the
  role chunk is made.
\<close>

record chat_stream_state =
  ks_id :: string
  ks_model :: string
  ks_started :: bool
  ks_tool_calls :: "string \<rightharpoonup> tool_call_accum"
  next_tool_index :: u32
  tool_call_opened :: "string set"
  final_usage :: "language_model_usage option"
  final_finish_reason :: "(finish_reason_unified \<times> string option) option"
  finish_emitted :: bool
  identity :: "response_metadata option option"
  start_pending :: bool

definition new_chat_stream_state :: "chat_env \<Rightarrow> string \<Rightarrow> response_metadata option option \<Rightarrow> chat_stream_state" where
  "new_chat_stream_state env model tap =
     \<lparr>ks_id = ''chatcmpl-'' @ ch_random_id env, ks_model = model, ks_started = False, ks_tool_calls = Map.empty,
      next_tool_index = 0, tool_call_opened = {}, final_usage = None, final_finish_reason = None, finish_emitted = False,
      identity = tap, start_pending = False\<rparr>"

definition no_delta :: chat_delta where
  "no_delta = \<lparr>cd_role = None, cd_content = None, cd_reasoning_content = None, cd_tool_calls = None\<rparr>"

definition delta_chunk :: "chat_env \<Rightarrow> chat_stream_state \<Rightarrow> chat_delta \<Rightarrow> chat_chunk" where
  "delta_chunk env st delta =
     \<lparr>ck_id = ks_id st, ck_object = ''chat.completion.chunk'', ck_created = ch_created env, ck_model = ks_model st,
      ck_delta = delta, ck_finish_reason = None, ck_usage = None\<rparr>"

definition content_chunk :: "chat_env \<Rightarrow> chat_stream_state \<Rightarrow> string \<Rightarrow> chat_chunk" where
  "content_chunk env st text = delta_chunk env st (no_delta\<lparr>cd_content := Some text\<rparr>)"

definition tool_chunk :: "chat_env \<Rightarrow> chat_stream_state \<Rightarrow> chunk_tool_call \<Rightarrow> chat_chunk" where
  "tool_chunk env st call = delta_chunk env st (no_delta\<lparr>cd_tool_calls := Some [call]\<rparr>)"

definition ensure_started :: "chat_env \<Rightarrow> chat_stream_state \<Rightarrow> chat_chunk list \<times> chat_stream_state" where
  "ensure_started env st =
     (if ks_started st then ([], st)
      else
        (let st' = (case identity st of
               Some (Some reported) \<Rightarrow>
                 st\<lparr>ks_started := True, ks_id := unwrap_or (ks_id st) (rm_id reported),
                    ks_model := unwrap_or (ks_model st) (rm_model_id reported)\<rparr>
             | _ \<Rightarrow> st\<lparr>ks_started := True\<rparr>)
         in ([delta_chunk env st' (no_delta\<lparr>cd_role := Some ''assistant'', cd_content := Some []\<rparr>)], st')))"

definition pending_start :: "chat_env \<Rightarrow> chat_stream_state \<Rightarrow> chat_chunk list \<times> chat_stream_state" where
  "pending_start env st = (if start_pending st then ensure_started env st else ([], st))"

definition error_chunk :: "chat_env \<Rightarrow> aimux_error \<Rightarrow> chat_stream_state \<Rightarrow> chat_chunk list \<times> chat_stream_state" where
  "error_chunk env e st =
     (if finish_emitted st then ([], st)
      else (let st' = st\<lparr>ks_started := True\<rparr> in ([content_chunk env st' (''[error] '' @ show_error e)], st')))"

definition final_chunk :: "chat_env \<Rightarrow> bool \<Rightarrow> chat_stream_state \<Rightarrow> chat_chunk list \<times> chat_stream_state" where
  "final_chunk env with_usage st =
     (if finish_emitted st then ([], st)
      else
        (let st' = st\<lparr>finish_emitted := True, ks_started := True\<rparr>
         in ([(delta_chunk env st' no_delta)\<lparr>
                ck_finish_reason := (case final_finish_reason st of
                   Some (reason, raw) \<Rightarrow> finish_reason_to_openai reason raw | None \<Rightarrow> Some ''stop''),
                ck_usage := (if with_usage then map_option usage_to_openai (final_usage st) else None)\<rparr>], st')))"

text \<open>A part sent behind the role chunk.\<close>

definition started_then ::
  "chat_env \<Rightarrow> (chat_stream_state \<Rightarrow> chat_chunk list \<times> chat_stream_state) \<Rightarrow> chat_stream_state \<Rightarrow>
   chat_chunk list \<times> chat_stream_state" where
  "started_then env f st =
     (case ensure_started env st of (role, st') \<Rightarrow> (case f st' of (chunks, st'') \<Rightarrow> (role @ chunks, st'')))"

definition say :: "chat_env \<Rightarrow> string \<Rightarrow> chat_stream_state \<Rightarrow> chat_chunk list \<times> chat_stream_state" where
  "say env text = started_then env (\<lambda>st. ([content_chunk env st text], st))"

definition new_tool_call :: "string \<Rightarrow> string \<Rightarrow> chat_stream_state \<Rightarrow> chat_stream_state" where
  "new_tool_call i arguments st =
     st\<lparr>ks_tool_calls := (ks_tool_calls st)(i \<mapsto> \<lparr>tca_index = next_tool_index st, tca_arguments = arguments\<rparr>),
        next_tool_index := next_tool_index st + 1\<rparr>"

definition index_of :: "chat_stream_state \<Rightarrow> string \<Rightarrow> u32" where
  "index_of st i = (case ks_tool_calls st i of Some acc \<Rightarrow> tca_index acc | None \<Rightarrow> 0)"

definition append_accum :: "string \<Rightarrow> string \<Rightarrow> chat_stream_state \<Rightarrow> chat_stream_state" where
  "append_accum i delta st = (case ks_tool_calls st i of
     Some acc \<Rightarrow> st\<lparr>ks_tool_calls := (ks_tool_calls st)(i \<mapsto> acc\<lparr>tca_arguments := tca_arguments acc @ delta\<rparr>)\<rparr>
   | None \<Rightarrow> st)"

definition opening_call :: "u32 \<Rightarrow> string \<Rightarrow> string \<Rightarrow> string \<Rightarrow> chunk_tool_call" where
  "opening_call idx i name arguments =
     \<lparr>cct_index = idx, cct_id = Some i, cct_type = Some ''function'', cct_name = Some name, cct_arguments = Some arguments\<rparr>"

definition argument_delta :: "u32 \<Rightarrow> string \<Rightarrow> chunk_tool_call" where
  "argument_delta idx arguments =
     \<lparr>cct_index = idx, cct_id = None, cct_type = None, cct_name = None, cct_arguments = Some arguments\<rparr>"

definition chat_input_start :: "chat_env \<Rightarrow> string \<Rightarrow> string \<Rightarrow> chat_stream_state \<Rightarrow> chat_chunk list \<times> chat_stream_state" where
  "chat_input_start env i name = started_then env (\<lambda>st.
     let st1 = (if ks_tool_calls st i \<noteq> None then st else new_tool_call i [] st);
         st2 = st1\<lparr>tool_call_opened := insert i (tool_call_opened st1)\<rparr>
     in ([tool_chunk env st2 (opening_call (index_of st2 i) i name [])], st2))"

definition chat_input_delta :: "chat_env \<Rightarrow> string \<Rightarrow> string \<Rightarrow> chat_stream_state \<Rightarrow> chat_chunk list \<times> chat_stream_state" where
  "chat_input_delta env i delta = started_then env (\<lambda>st.
     let st1 = (if ks_tool_calls st i \<noteq> None then append_accum i delta st else new_tool_call i delta st)
     in ([tool_chunk env st1 (argument_delta (index_of st1 i) delta)], st1))"

text \<open>\<open>strip_prefix(..).unwrap_or_default()\<close>: what a call's full arguments add to those already sent.\<close>

definition missing_arguments :: "string \<Rightarrow> string \<Rightarrow> string" where
  "missing_arguments already full = (if take (length already) full = already then drop (length already) full else [])"

definition complete_tool_call :: "chat_env \<Rightarrow> typed_tool_call \<Rightarrow> chat_stream_state \<Rightarrow> chat_chunk list \<times> chat_stream_state" where
  "complete_tool_call env c st =
     (let i = ttc_id c; full = parsed_tool_call_arguments env (ttc_input c) (ttc_invalid c) (ttc_error c)
      in if i \<in> tool_call_opened st
         then
           (let missing = (case ks_tool_calls st i of Some acc \<Rightarrow> missing_arguments (tca_arguments acc) full | None \<Rightarrow> [])
            in if missing = [] then ([], st)
               else (let st1 = append_accum i missing st
                     in ([tool_chunk env st1 (argument_delta (index_of st1 i) missing)], st1)))
         else started_then env (\<lambda>st.
           let st1 = new_tool_call i full st; st2 = st1\<lparr>tool_call_opened := insert i (tool_call_opened st1)\<rparr>
           in ([tool_chunk env st2 (opening_call (index_of st2 i) i (ttc_name c) full)], st2)) st)"

definition process_part ::
  "chat_env \<Rightarrow> openai_stream_options \<Rightarrow> text_stream_part \<Rightarrow> chat_stream_state \<Rightarrow> chat_chunk list \<times> chat_stream_state" where
  "process_part env opts part st = (case part of
     TStart \<Rightarrow> (if identity st \<noteq> None then ([], st\<lparr>start_pending := True\<rparr>) else ensure_started env st)
   | FinishStep response _ _ _ _ _ \<Rightarrow>
       ([], if \<not> ks_started st \<and> identity st = None
            then st\<lparr>ks_id := srm_id response, ks_model := srm_model_id response\<rparr> else st)
   | TTextStart _ _ \<Rightarrow> ensure_started env st
   | TTextDelta _ _ delta \<Rightarrow> say env delta st
   | TReasoningDelta _ _ delta \<Rightarrow>
       (if include_reasoning opts
        then started_then env (\<lambda>st. ([delta_chunk env st (no_delta\<lparr>cd_reasoning_content := Some delta\<rparr>)], st)) st
        else ([], st))
   | TToolInputStart i name _ _ _ _ \<Rightarrow> chat_input_start env i name st
   | TToolInputDelta i delta _ \<Rightarrow> chat_input_delta env i delta st
   | TToolCall c \<Rightarrow> complete_tool_call env c st
   | TToolResult r \<Rightarrow> say env (''[tool result: '' @ ttr_name r @ ''] '' @ json_display (ch_json env) (ttr_output r)) st
   | TToolError e \<Rightarrow>
       (if tte_provider_executed e = Some True
        then say env (''[tool error: '' @ tte_name e @ ''] '' @ json_display (ch_json env) (tte_error e)) st else ([], st))
   | TFile f \<Rightarrow> say env (data_url_text (gf_media_type (gfo_file f)) (file_base64 (ch_messages env) (gfo_file f))) st
   | TSource (SourceUrl _ url _ _) \<Rightarrow>
       started_then env (\<lambda>st. (if url \<noteq> [] then [content_chunk env st url] else [], st)) st
   | TFinish reason raw u \<Rightarrow>
       (case pending_start env (st\<lparr>final_usage := Some u, final_finish_reason := Some (reason, raw)\<rparr>) of (role, st1) \<Rightarrow>
          (case final_chunk env (include_usage opts) st1 of (chunks, st2) \<Rightarrow> (role @ chunks, st2)))
   | TError e \<Rightarrow>
       (case pending_start env st of (role, st1) \<Rightarrow>
          (case error_chunk env e st1 of (chunks, st2) \<Rightarrow> (role @ chunks, st2)))
   | _ \<Rightarrow> ([], st))"

section \<open>The converted stream\<close>

fun is_chat_finish :: "text_stream_part \<Rightarrow> bool" where
  "is_chat_finish (TFinish _ _ _) = True" | "is_chat_finish _ = False"

definition close_stream :: "chat_env \<Rightarrow> openai_stream_options \<Rightarrow> aimux_error option \<Rightarrow> chat_stream_state \<Rightarrow> chat_chunk list" where
  "close_stream env opts error st =
     (case pending_start env st of (role, st1) \<Rightarrow>
        (case (case error of None \<Rightarrow> ([], st1) | Some e \<Rightarrow> error_chunk env e st1) of (chunks, st2) \<Rightarrow>
           role @ chunks @ fst (final_chunk env (include_usage opts) st2)))"

fun chat_completion_stream ::
  "chat_env \<Rightarrow> openai_stream_options \<Rightarrow> (aimux_error + text_stream_part) list \<Rightarrow> chat_stream_state \<Rightarrow>
   (aimux_error + chat_chunk) list" where
  "chat_completion_stream env opts [] st = map Inr (close_stream env opts None st)"
| "chat_completion_stream env opts (Inl e # items) st =
     (if is_recoverable_stream_error e then Inl e # chat_completion_stream env opts items st
      else map Inr (close_stream env opts (Some e) st))"
| "chat_completion_stream env opts (Inr part # items) st =
     (case process_part env opts part st of (chunks, st') \<Rightarrow>
        map Inr chunks @ (if is_chat_finish part then [] else chat_completion_stream env opts items st'))"

section \<open>Framing of the chunks\<close>

definition from_state :: "chat_stream_state \<Rightarrow> chat_chunk \<Rightarrow> bool" where
  "from_state st c \<longleftrightarrow> ck_id c = ks_id st \<and> ck_model c = ks_model st"

definition role_chunk :: "chat_chunk \<Rightarrow> bool" where
  "role_chunk c \<longleftrightarrow> cd_role (ck_delta c) = Some ''assistant'' \<and> ck_finish_reason c = None \<and> ck_usage c = None"

definition body_chunk :: "chat_chunk \<Rightarrow> bool" where
  "body_chunk c \<longleftrightarrow> cd_role (ck_delta c) = None \<and> ck_finish_reason c = None \<and> ck_usage c = None"

definition finish_chunk :: "chat_chunk \<Rightarrow> bool" where
  "finish_chunk c \<longleftrightarrow> ck_delta c = no_delta \<and> ck_finish_reason c \<noteq> None"

text \<open>A state after the start part: the role chunk was sent, or waits for the identity; nothing was finished.\<close>

definition live :: "chat_stream_state \<Rightarrow> bool" where
  "live st \<longleftrightarrow> \<not> finish_emitted st \<and> (ks_started st \<or> start_pending st \<and> identity st \<noteq> None \<and> tool_call_opened st = {})"

text \<open>The chunks between two live states: the role chunk once, when the stream starts, and then content.\<close>

definition emits :: "chat_stream_state \<Rightarrow> chat_chunk list \<Rightarrow> chat_stream_state \<Rightarrow> bool" where
  "emits st chunks st' \<longleftrightarrow> live st' \<and>
     (if ks_started st then ks_started st' \<and> ks_id st' = ks_id st \<and> ks_model st' = ks_model st \<and>
         (\<forall>c \<in> set chunks. body_chunk c \<and> from_state st' c)
      else if ks_started st'
      then (\<exists>role bodies. chunks = role # bodies \<and> role_chunk role \<and> from_state st' role \<and>
              (\<forall>c \<in> set bodies. body_chunk c \<and> from_state st' c))
      else chunks = [])"

lemma body_chunks:
  "body_chunk (content_chunk env st t)" "body_chunk (tool_chunk env st call)"
  "body_chunk (delta_chunk env st (no_delta\<lparr>cd_reasoning_content := r\<rparr>))"
  "from_state st (content_chunk env st t)" "from_state st (tool_chunk env st call)" "from_state st (delta_chunk env st d)"
  by (simp_all add: body_chunk_def content_chunk_def tool_chunk_def delta_chunk_def no_delta_def from_state_def)

lemma content_chunk_identity [simp]: "ck_id (content_chunk env st t) = ks_id st" "ck_model (content_chunk env st t) = ks_model st"
  by (simp_all add: content_chunk_def delta_chunk_def)

lemma emits_refl: "live st \<Longrightarrow> emits st [] st"
  by (simp add: emits_def)

lemma ensure_started_cases:
  obtains (running) "ks_started st" "ensure_started env st = ([], st)"
  | (starting) role st' where "\<not> ks_started st" "ensure_started env st = ([role], st')" "role_chunk role" "from_state st' role"
      "ks_started st'" "finish_emitted st' = finish_emitted st" "start_pending st' = start_pending st"
      "identity st' = identity st" "ks_tool_calls st' = ks_tool_calls st" "next_tool_index st' = next_tool_index st"
      "tool_call_opened st' = tool_call_opened st"
proof (cases "ks_started st")
  case True
  then show ?thesis using running by (simp add: ensure_started_def)
next
  case False
  show ?thesis
    by (rule starting [of "hd (fst (ensure_started env st))" "snd (ensure_started env st)"])
      (use False in \<open>auto simp: ensure_started_def Let_def delta_chunk_def role_chunk_def from_state_def no_delta_def
        split: option.splits\<close>)
qed

lemma emits_ensure_started: "live st \<Longrightarrow> ensure_started env st = (chunks, st') \<Longrightarrow> emits st chunks st'"
  by (cases rule: ensure_started_cases [of st env]) (auto simp: emits_def live_def)

text \<open>Content sent behind the role chunk keeps the stream's identity.\<close>

definition content_only :: "(chat_stream_state \<Rightarrow> chat_chunk list \<times> chat_stream_state) \<Rightarrow> bool" where
  "content_only f \<longleftrightarrow> (\<forall>st. case f st of (chunks, st') \<Rightarrow>
     ks_started st' = ks_started st \<and> ks_id st' = ks_id st \<and> ks_model st' = ks_model st \<and>
     finish_emitted st' = finish_emitted st \<and> start_pending st' = start_pending st \<and> identity st' = identity st \<and>
     (\<forall>c \<in> set chunks. body_chunk c \<and> from_state st' c))"

lemma emits_started_then:
  assumes "live st" and "content_only f" and "started_then env f st = (chunks, st')"
  shows "emits st chunks st'"
proof (cases rule: ensure_started_cases [of st env])
  case running
  then show ?thesis using assms by (auto simp: started_then_def content_only_def emits_def live_def split: prod.splits)
next
  case (starting role st1)
  obtain more_chunks st2 where f: "f st1 = (more_chunks, st2)" by fastforce
  then have "ks_started st2 \<and> ks_id st2 = ks_id st1 \<and> ks_model st2 = ks_model st1 \<and> finish_emitted st2 = finish_emitted st1
      \<and> (\<forall>c \<in> set more_chunks. body_chunk c \<and> from_state st2 c)"
    using assms(2) starting by (auto simp: content_only_def split: prod.splits)
  moreover have "chunks = role # more_chunks" "st' = st2"
    using assms(3) starting f by (simp_all add: started_then_def)
  ultimately show ?thesis using assms(1) starting by (auto simp: emits_def live_def from_state_def)
qed

lemma index_chunk_fields [simp]:
  "ks_started (new_tool_call i a st) = ks_started st" "ks_id (new_tool_call i a st) = ks_id st"
  "ks_model (new_tool_call i a st) = ks_model st" "finish_emitted (new_tool_call i a st) = finish_emitted st"
  "start_pending (new_tool_call i a st) = start_pending st" "identity (new_tool_call i a st) = identity st"
  "ks_started (append_accum i a st) = ks_started st" "ks_id (append_accum i a st) = ks_id st"
  "ks_model (append_accum i a st) = ks_model st" "finish_emitted (append_accum i a st) = finish_emitted st"
  "start_pending (append_accum i a st) = start_pending st" "identity (append_accum i a st) = identity st"
  by (simp_all add: new_tool_call_def append_accum_def split: option.splits)

lemma emits_say: "live st \<Longrightarrow> say env text st = (chunks, st') \<Longrightarrow> emits st chunks st'"
  unfolding say_def by (erule emits_started_then) (auto simp: content_only_def body_chunks)

lemma emits_chat_input_start: "live st \<Longrightarrow> chat_input_start env i name st = (chunks, st') \<Longrightarrow> emits st chunks st'"
  unfolding chat_input_start_def by (erule emits_started_then) (auto simp: content_only_def Let_def body_chunks)

lemma emits_chat_input_delta: "live st \<Longrightarrow> chat_input_delta env i delta st = (chunks, st') \<Longrightarrow> emits st chunks st'"
  unfolding chat_input_delta_def by (erule emits_started_then) (auto simp: content_only_def Let_def body_chunks)

lemma emits_complete_tool_call:
  assumes "live st" and "complete_tool_call env c st = (chunks, st')"
  shows "emits st chunks st'"
proof (cases "ttc_id c \<in> tool_call_opened st")
  case True
  then have "ks_started st" using assms(1) by (auto simp: live_def)
  then show ?thesis using assms True
    by (auto simp: complete_tool_call_def Let_def emits_def live_def body_chunks split: if_splits option.splits)
next
  case closed: False
  then have "started_then env (\<lambda>st.
      let st1 = new_tool_call (ttc_id c) (parsed_tool_call_arguments env (ttc_input c) (ttc_invalid c) (ttc_error c)) st;
          st2 = st1\<lparr>tool_call_opened := insert (ttc_id c) (tool_call_opened st1)\<rparr>
      in ([tool_chunk env st2 (opening_call (index_of st2 (ttc_id c)) (ttc_id c) (ttc_name c)
            (parsed_tool_call_arguments env (ttc_input c) (ttc_invalid c) (ttc_error c)))], st2)) st = (chunks, st')"
    using assms(2) by (simp add: complete_tool_call_def Let_def)
  then show ?thesis by (rule emits_started_then [OF assms(1), rotated]) (auto simp: content_only_def Let_def body_chunks)
qed

lemma process_part_emits:
  assumes "live st" and "\<not> is_chat_finish part" and "process_part env opts part st = (chunks, st')"
  shows "emits st chunks st'"
proof (cases part)
  case (TSource s)
  show ?thesis
  proof (cases s)
    case (SourceUrl i url title md)
    have "started_then env (\<lambda>st. (if url \<noteq> [] then [content_chunk env st url] else [], st)) st = (chunks, st')"
      using assms(3) TSource SourceUrl by (simp add: process_part_def)
    then show ?thesis by (rule emits_started_then [OF assms(1), rotated]) (simp add: content_only_def body_chunks)
  next
    case (SourceDocument i m t f md)
    then show ?thesis using assms TSource by (simp add: process_part_def emits_refl)
  qed
next
  case (TError e)
  obtain role st1 where p: "pending_start env st = (role, st1)" by fastforce
  have "emits st role st1 \<and> ks_started st1"
  proof (cases rule: ensure_started_cases [of st env])
    case running
    then show ?thesis using p assms(1) by (auto simp: pending_start_def emits_refl split: if_splits)
  next
    case (starting r st2)
    then show ?thesis using p assms(1) emits_ensure_started [of st env] by (auto simp: pending_start_def live_def split: if_splits)
  qed
  then show ?thesis using assms(3) p TError
    by (auto simp: process_part_def error_chunk_def emits_def live_def Let_def body_chunks from_state_def split: if_splits)
next
  case (TReasoningDelta md i delta)
  show ?thesis
  proof (cases "include_reasoning opts")
    case True
    then have "started_then env (\<lambda>st. ([delta_chunk env st (no_delta\<lparr>cd_reasoning_content := Some delta\<rparr>)], st)) st = (chunks, st')"
      using assms(3) TReasoningDelta by (simp add: process_part_def)
    then show ?thesis by (rule emits_started_then [OF assms(1), rotated]) (simp add: content_only_def body_chunks)
  qed (use assms TReasoningDelta in \<open>simp add: process_part_def emits_refl\<close>)
next
  case (FinishStep r u perf reason raw md)
  then show ?thesis using assms by (auto simp: process_part_def emits_def live_def)
next
  case TStart
  then show ?thesis using assms emits_ensure_started [OF assms(1), of env]
    by (auto simp: process_part_def emits_def live_def split: if_splits)
qed (use assms in \<open>auto simp: process_part_def emits_refl split: if_splits
      intro: emits_ensure_started emits_say emits_chat_input_start emits_chat_input_delta emits_complete_tool_call\<close>)

text \<open>What a stream still sends from a live state: the role chunk unless it was sent, content, one finish chunk.\<close>

definition framed_from :: "chat_stream_state \<Rightarrow> chat_chunk list \<Rightarrow> bool" where
  "framed_from st chunks \<longleftrightarrow> (\<exists>role bodies final i model. chunks = role @ bodies @ [final] \<and>
     (if ks_started st then role = [] \<and> i = ks_id st \<and> model = ks_model st else \<exists>r. role = [r] \<and> role_chunk r) \<and>
     (\<forall>c \<in> set bodies. body_chunk c) \<and> finish_chunk final \<and> (\<forall>c \<in> set chunks. ck_id c = i \<and> ck_model c = model))"

lemma framed_fromE:
  assumes "framed_from st chunks"
  obtains role bodies final i model where "chunks = role @ bodies @ [final]"
    "if ks_started st then role = [] \<and> i = ks_id st \<and> model = ks_model st else \<exists>r. role = [r] \<and> role_chunk r"
    "\<forall>c \<in> set bodies. body_chunk c" "finish_chunk final" "\<forall>c \<in> set chunks. ck_id c = i \<and> ck_model c = model"
  using assms unfolding framed_from_def by (elim exE conjE) assumption

lemma emits_framed:
  assumes "emits st chunks st'" and "framed_from st' chunks'"
  shows "framed_from st (chunks @ chunks')"
proof -
  obtain role bodies final i model where f: "chunks' = role @ bodies @ [final]"
      "if ks_started st' then role = [] \<and> i = ks_id st' \<and> model = ks_model st' else \<exists>r. role = [r] \<and> role_chunk r"
      "\<forall>c \<in> set bodies. body_chunk c" "finish_chunk final" "\<forall>c \<in> set chunks'. ck_id c = i \<and> ck_model c = model"
    using assms(2) by (rule framed_fromE)
  consider (running) "ks_started st" | (starts) "\<not> ks_started st" "ks_started st'" | (waits) "\<not> ks_started st" "\<not> ks_started st'"
    by blast
  then show ?thesis
  proof cases
    case running
    then have e: "ks_started st'" "ks_id st' = ks_id st" "ks_model st' = ks_model st" "\<forall>c \<in> set chunks. body_chunk c \<and> from_state st' c"
      using assms(1) by (auto simp: emits_def)
    show ?thesis unfolding framed_from_def
      by (rule exI [of _ "[]"], rule exI [of _ "chunks @ bodies"], rule exI [of _ final], rule exI [of _ i], rule exI [of _ model])
        (use e f running in \<open>auto simp: from_state_def\<close>)
  next
    case starts
    then obtain r bs where e: "chunks = r # bs" "role_chunk r" "from_state st' r" "\<forall>c \<in> set bs. body_chunk c \<and> from_state st' c"
      using assms(1) by (auto simp: emits_def)
    show ?thesis unfolding framed_from_def
      by (rule exI [of _ "[r]"], rule exI [of _ "bs @ bodies"], rule exI [of _ final], rule exI [of _ i], rule exI [of _ model])
        (use e f starts in \<open>auto simp: from_state_def\<close>)
  next
    case waits
    then have "chunks = []" using assms(1) by (auto simp: emits_def)
    then show ?thesis using assms(2) waits by (simp add: framed_from_def)
  qed
qed

lemma emits_pending_start: "live st \<Longrightarrow> pending_start env st = (role, st') \<Longrightarrow> emits st role st' \<and> ks_started st'"
  by (cases rule: ensure_started_cases [of st env])
    (auto simp: pending_start_def live_def emits_def split: if_splits)

lemma error_chunk_emits: "live st \<Longrightarrow> ks_started st \<Longrightarrow> error_chunk env e st = (chunks, st') \<Longrightarrow> emits st chunks st' \<and> ks_started st'"
  by (auto simp: error_chunk_def emits_def live_def Let_def body_chunks from_state_def)

lemma final_chunk_framed:
  assumes "live st" and "ks_started st"
  shows "framed_from st (fst (final_chunk env b st))"
proof -
  define final where "final = (delta_chunk env (st\<lparr>finish_emitted := True, ks_started := True\<rparr>) no_delta)\<lparr>
    ck_finish_reason := (case final_finish_reason st of
       Some (reason, raw) \<Rightarrow> finish_reason_to_openai reason raw | None \<Rightarrow> Some ''stop''),
    ck_usage := (if b then map_option usage_to_openai (final_usage st) else None)\<rparr>"
  have "fst (final_chunk env b st) = [final]"
    using assms(1) by (simp add: final_chunk_def live_def final_def Let_def)
  moreover have "finish_chunk final"
    by (simp add: final_def finish_chunk_def delta_chunk_def finish_reason_to_openai_def
        split: option.split finish_reason_unified.split)
  moreover have "ck_id final = ks_id st" "ck_model final = ks_model st"
    by (simp_all add: final_def delta_chunk_def)
  ultimately show ?thesis using assms(2) by (simp add: framed_from_def)
qed

lemma close_stream_framed:
  assumes "live st"
  shows "framed_from st (close_stream env opts error st)"
proof -
  obtain role st1 where p: "pending_start env st = (role, st1)" by fastforce
  then have st1: "emits st role st1" "live st1" "ks_started st1"
    using emits_pending_start [OF assms p] by (simp_all add: emits_def)
  obtain chunks st2 where e: "(case error of None \<Rightarrow> ([], st1) | Some e \<Rightarrow> error_chunk env e st1) = (chunks, st2)"
    by fastforce
  then have st2: "emits st1 chunks st2" "live st2" "ks_started st2"
    using error_chunk_emits [OF st1(2,3), of env] st1 emits_refl [OF st1(2)]
    by (cases error; force simp: emits_def)+
  have "close_stream env opts error st = role @ chunks @ fst (final_chunk env (include_usage opts) st2)"
    using p e by (simp add: close_stream_def)
  then show ?thesis
    using emits_framed [OF st1(1) emits_framed [OF st2(1) final_chunk_framed [OF st2(2,3)]]] by simp
qed

definition chunks_of :: "(aimux_error + chat_chunk) list \<Rightarrow> chat_chunk list" where
  "chunks_of items = List.map_filter (case_sum (\<lambda>_. None) Some) items"

definition errors_of :: "(aimux_error + chat_chunk) list \<Rightarrow> aimux_error list" where
  "errors_of items = List.map_filter (case_sum Some (\<lambda>_. None)) items"

lemma chunks_of_simps [simp]:
  "chunks_of [] = []" "chunks_of (Inl e # items) = chunks_of items" "chunks_of (Inr c # items) = c # chunks_of items"
  "chunks_of (xs @ items) = chunks_of xs @ chunks_of items" "chunks_of (map Inr cs) = cs"
  by (simp_all add: chunks_of_def List.map_filter_def comp_def)

lemma errors_of_simps [simp]:
  "errors_of [] = []" "errors_of (Inl e # items) = e # errors_of items" "errors_of (Inr c # items) = errors_of items"
  "errors_of (xs @ items) = errors_of xs @ errors_of items" "errors_of (map Inr cs) = []"
  by (simp_all add: errors_of_def List.map_filter_def comp_def)

lemma process_finish_framed:
  assumes "live st" and "process_part env opts (TFinish reason raw u) st = (chunks, st')"
  shows "framed_from st chunks"
proof -
  define st0 where "st0 = st\<lparr>final_usage := Some u, final_finish_reason := Some (reason, raw)\<rparr>"
  have live0: "live st0" and same: "ks_started st0 = ks_started st" "ks_id st0 = ks_id st" "ks_model st0 = ks_model st"
    using assms(1) by (simp_all add: live_def st0_def)
  obtain role st1 where p: "pending_start env st0 = (role, st1)" by fastforce
  then have st1: "emits st0 role st1" "live st1" "ks_started st1"
    using emits_pending_start [OF live0 p] by (simp_all add: emits_def)
  have "chunks = role @ fst (final_chunk env (include_usage opts) st1)"
    using assms(2) p by (auto simp: process_part_def st0_def split: prod.splits)
  then have "framed_from st0 chunks" using emits_framed [OF st1(1) final_chunk_framed [OF st1(2,3)]] by simp
  then show ?thesis by (simp only: framed_from_def same)
qed

lemma stream_framed_from:
  "live st \<Longrightarrow> framed_from st (chunks_of (chat_completion_stream env opts items st)) \<and>
     list_all is_recoverable_stream_error (errors_of (chat_completion_stream env opts items st))"
proof (induction env opts items st rule: chat_completion_stream.induct)
  case (1 env opts st)
  then show ?case by (simp add: close_stream_framed)
next
  case (2 env opts e items st)
  then show ?case by (simp add: close_stream_framed)
next
  case (3 env opts part items st)
  obtain chunks st' where p: "process_part env opts part st = (chunks, st')" by fastforce
  show ?case
  proof (cases "is_chat_finish part")
    case True
    then obtain reason raw u where "part = TFinish reason raw u" by (cases part) simp_all
    then show ?thesis using process_finish_framed [OF "3.prems"] p by simp
  next
    case False
    then have e: "emits st chunks st'" using process_part_emits [OF "3.prems" False p] by simp
    then have "live st'" by (simp add: emits_def)
    then show ?thesis using "3.IH" [OF p [symmetric] False] False p emits_framed [OF e] by simp
  qed
qed

text \<open>
  C29. The chunks of a converted text stream are framed the way a Chat Completions client reads them: one chunk
  that gives the assistant role, then content, then exactly one chunk with a finish reason, which is the last,
  and all of them carry the same id and model. This holds however the public stream ends (a finish, a fatal
  error, a cut), with and without an identity tap; an error that the stream yields beside them is recoverable.
\<close>

theorem chat_stream_framed:
  "let items = chat_completion_stream env opts (text_stream tenv now response evs) (new_chat_stream_state env model tap)
   in (\<exists>role bodies final. chunks_of items = role # bodies @ [final] \<and> role_chunk role \<and> list_all body_chunk bodies \<and>
         finish_chunk final \<and>
         list_all (\<lambda>c. ck_id c = ck_id role \<and> ck_model c = ck_model role) (chunks_of items)) \<and>
      list_all is_recoverable_stream_error (errors_of items)"
proof -
  define st where "st = new_chat_stream_state env model tap"
  obtain chunks st' where p: "process_part env opts TStart st = (chunks, st')" by fastforce
  have e: "live st'" "if ks_started st' then \<exists>r. chunks = [r] \<and> role_chunk r \<and> from_state st' r else chunks = []"
    using p by (cases rule: ensure_started_cases [of st env];
        auto simp: process_part_def live_def st_def new_chat_stream_state_def split: if_splits)+
  define rest where "rest = chat_completion_stream env opts (text_parts tenv evs (new_text_state tenv now response)) st'"
  have items: "chat_completion_stream env opts (text_stream tenv now response evs) st = map Inr chunks @ rest"
    using p by (simp add: text_stream_def rest_def)
  have rest: "framed_from st' (chunks_of rest)" "list_all is_recoverable_stream_error (errors_of rest)"
    using stream_framed_from [OF e(1)] by (simp_all add: rest_def)
  obtain role bodies final i m where f: "chunks_of rest = role @ bodies @ [final]"
      "if ks_started st' then role = [] \<and> i = ks_id st' \<and> m = ks_model st' else \<exists>r. role = [r] \<and> role_chunk r"
      "\<forall>c \<in> set bodies. body_chunk c" "finish_chunk final" "\<forall>c \<in> set (chunks_of rest). ck_id c = i \<and> ck_model c = m"
    using rest(1) by (rule framed_fromE)
  have "\<exists>r. chunks @ role = [r] \<and> role_chunk r \<and> ck_id r = i \<and> ck_model r = m"
    using e(2) f(1,2,5) by (auto simp: from_state_def split: if_splits)
  then obtain r where r: "chunks @ role = [r]" "role_chunk r" "ck_id r = i" "ck_model r = m" by blast
  have all: "chunks_of (map Inr chunks @ rest) = r # bodies @ [final]"
    using r(1) f(1) by (simp flip: append_assoc)
  moreover have "list_all (\<lambda>c. ck_id c = ck_id r \<and> ck_model c = ck_model r) (r # bodies @ [final])"
    using f(1,5) r by (simp add: list_all_iff)
  moreover have "errors_of (map Inr chunks @ rest) = errors_of rest" by simp
  ultimately show ?thesis unfolding Let_def st_def [symmetric] items
    using f(3,4) rest(2) r(2) by (metis list_all_iff)
qed

end
