(* ===== verification/Chat_Reassembly.thy ===== *)
theory Chat_Reassembly
  imports Chat_Completions
begin

text \<open>
  What a Chat Completions client puts together from the tool-call deltas of a converted stream
  (\<open>StreamState\<close> of \<open>src/aimux-core/src/openai_output.rs\<close>): it files each delta under its index, takes the call's
  id from the deltas that carry one and concatenates the argument texts. \<open>call_arguments\<close> says the same over the
  parts of the public stream; the two agree, one index for each call.
\<close>

section \<open>The client's view\<close>

definition tool_deltas :: "chat_chunk list \<Rightarrow> chunk_tool_call list" where
  "tool_deltas chunks = concat (map (\<lambda>c. unwrap_or [] (cd_tool_calls (ck_delta c))) chunks)"

definition arguments_at :: "u32 \<Rightarrow> chunk_tool_call list \<Rightarrow> string" where
  "arguments_at idx ds = concat (map (\<lambda>d. unwrap_or [] (cct_arguments d)) (filter (\<lambda>d. cct_index d = idx) ds))"

definition ids_at :: "u32 \<Rightarrow> chunk_tool_call list \<Rightarrow> string set" where
  "ids_at idx ds = {i. \<exists>d \<in> set ds. cct_index d = idx \<and> cct_id d = Some i}"

section \<open>The calls of the public stream\<close>

fun opened_id :: "text_stream_part \<Rightarrow> string option" where
  "opened_id (TToolInputStart i _ _ _ _ _) = Some i"
| "opened_id (TToolCall c) = Some (ttc_id c)"
| "opened_id _ = None"

definition opened_calls :: "text_stream_part list \<Rightarrow> string set" where
  "opened_calls ps = {i. \<exists>p \<in> set ps. opened_id p = Some i}"

text \<open>The argument text of a call: its deltas, completed by the parsed call when that extends them.\<close>

fun add_arguments :: "chat_env \<Rightarrow> string \<Rightarrow> string \<Rightarrow> text_stream_part \<Rightarrow> string" where
  "add_arguments env i text (TToolInputDelta j delta _) = (if j = i then text @ delta else text)"
| "add_arguments env i text (TToolCall c) =
     (let full = parsed_tool_call_arguments env (ttc_input c) (ttc_invalid c) (ttc_error c)
      in if ttc_id c = i \<and> take (length text) full = text then full else text)"
| "add_arguments env i text _ = text"

definition call_arguments :: "chat_env \<Rightarrow> string \<Rightarrow> text_stream_part list \<Rightarrow> string" where
  "call_arguments env i ps = foldl (add_arguments env i) [] ps"

text \<open>Each argument delta belongs to a call that was opened before it.\<close>

fun deltas_opened :: "string set \<Rightarrow> text_stream_part list \<Rightarrow> bool" where
  "deltas_opened opened [] \<longleftrightarrow> True"
| "deltas_opened opened (p # ps) \<longleftrightarrow>
     (case p of TToolInputDelta i _ _ \<Rightarrow> i \<in> opened | _ \<Rightarrow> True) \<and> deltas_opened (opened \<union> set_option (opened_id p)) ps"

text \<open>The parts the converter sees: up to a finish part or a fatal error.\<close>

fun seen_parts :: "(aimux_error + text_stream_part) list \<Rightarrow> text_stream_part list" where
  "seen_parts [] = []"
| "seen_parts (Inl e # items) = (if is_recoverable_stream_error e then seen_parts items else [])"
| "seen_parts (Inr p # items) = p # (if is_chat_finish p then [] else seen_parts items)"

section \<open>The invariant\<close>

definition reassembles ::
  "chat_env \<Rightarrow> text_stream_part list \<Rightarrow> chat_stream_state \<Rightarrow> chunk_tool_call list \<Rightarrow> bool" where
  "reassembles env ps st ds \<longleftrightarrow>
     dom (ks_tool_calls st) = tool_call_opened st \<and> tool_call_opened st = opened_calls ps \<and>
     unat (next_tool_index st) \<le> length ps \<and>
     (\<forall>d \<in> set ds. \<exists>i acc. ks_tool_calls st i = Some acc \<and> tca_index acc = cct_index d) \<and>
     (\<forall>i. i \<notin> tool_call_opened st \<longrightarrow> call_arguments env i ps = []) \<and>
     (\<forall>i acc. ks_tool_calls st i = Some acc \<longrightarrow> tca_index acc < next_tool_index st \<and>
        tca_arguments acc = call_arguments env i ps \<and> arguments_at (tca_index acc) ds = call_arguments env i ps \<and>
        ids_at (tca_index acc) ds = {i})"

definition same_tools :: "chat_stream_state \<Rightarrow> chat_stream_state \<Rightarrow> bool" where
  "same_tools st st' \<longleftrightarrow> ks_tool_calls st' = ks_tool_calls st \<and> next_tool_index st' = next_tool_index st \<and>
     tool_call_opened st' = tool_call_opened st"

lemma reassembles_same_tools: "reassembles env ps st ds \<Longrightarrow> same_tools st st' \<Longrightarrow> reassembles env ps st' ds"
  by (simp add: reassembles_def same_tools_def)

lemma same_tools_refl [simp]: "same_tools st st"
  by (simp add: same_tools_def)

lemma call_arguments_snoc: "call_arguments env i (ps @ [p]) = add_arguments env i (call_arguments env i ps) p"
  by (simp add: call_arguments_def)

lemma opened_calls_snoc: "opened_calls (ps @ [p]) = opened_calls ps \<union> set_option (opened_id p)"
  by (auto simp: opened_calls_def)

lemma unwrap_or_simps [simp]: "unwrap_or d None = d" "unwrap_or d (Some x) = x"
  by (simp_all add: unwrap_or_def)

lemma client_snoc:
  "arguments_at idx (ds @ [d]) = arguments_at idx ds @ (if cct_index d = idx then unwrap_or [] (cct_arguments d) else [])"
  "ids_at idx (ds @ [d]) = ids_at idx ds \<union> (if cct_index d = idx then set_option (cct_id d) else {})"
  by (auto simp: arguments_at_def ids_at_def)

lemma client_fresh: "\<forall>d \<in> set ds. cct_index d \<noteq> idx \<Longrightarrow> arguments_at idx ds = [] \<and> ids_at idx ds = {}"
  by (auto simp: arguments_at_def ids_at_def)

text \<open>Distinct calls have distinct indexes: the ids filed under an index are one call's.\<close>

lemma index_inj:
  "reassembles env ps st ds \<Longrightarrow> ks_tool_calls st i = Some a \<Longrightarrow> ks_tool_calls st j = Some b \<Longrightarrow> tca_index a = tca_index b \<Longrightarrow> i = j"
  unfolding reassembles_def by (metis singleton_inject)

lemma delta_below_next: "reassembles env ps st ds \<Longrightarrow> d \<in> set ds \<Longrightarrow> cct_index d < next_tool_index st"
  unfolding reassembles_def by metis

lemma reassemblesD:
  assumes "reassembles env ps st ds"
  shows "dom (ks_tool_calls st) = tool_call_opened st" "tool_call_opened st = opened_calls ps"
    "unat (next_tool_index st) \<le> length ps"
    "d \<in> set ds \<Longrightarrow> \<exists>i acc. ks_tool_calls st i = Some acc \<and> tca_index acc = cct_index d"
    "i \<notin> tool_call_opened st \<Longrightarrow> call_arguments env i ps = []"
    "ks_tool_calls st i = Some acc \<Longrightarrow> tca_index acc < next_tool_index st"
    "ks_tool_calls st i = Some acc \<Longrightarrow> tca_arguments acc = call_arguments env i ps"
    "ks_tool_calls st i = Some acc \<Longrightarrow> arguments_at (tca_index acc) ds = call_arguments env i ps"
    "ks_tool_calls st i = Some acc \<Longrightarrow> ids_at (tca_index acc) ds = {i}"
proof -
  note parts = assms [unfolded reassembles_def]
  show "dom (ks_tool_calls st) = tool_call_opened st" "tool_call_opened st = opened_calls ps"
      "unat (next_tool_index st) \<le> length ps" using parts by simp_all
  show "\<exists>i acc. ks_tool_calls st i = Some acc \<and> tca_index acc = cct_index d" if "d \<in> set ds"
    by (rule bspec [OF parts [THEN conjunct2, THEN conjunct2, THEN conjunct2, THEN conjunct1] that])
  show "call_arguments env i ps = []" if "i \<notin> tool_call_opened st" using parts that by simp
  have call: "ks_tool_calls st i = Some acc \<longrightarrow> tca_index acc < next_tool_index st \<and> tca_arguments acc = call_arguments env i ps \<and>
      arguments_at (tca_index acc) ds = call_arguments env i ps \<and> ids_at (tca_index acc) ds = {i}"
    by (rule parts [THEN conjunct2, THEN conjunct2, THEN conjunct2, THEN conjunct2, THEN conjunct2, THEN spec, THEN spec])
  show "tca_index acc < next_tool_index st" "tca_arguments acc = call_arguments env i ps"
      "arguments_at (tca_index acc) ds = call_arguments env i ps" "ids_at (tca_index acc) ds = {i}"
    if "ks_tool_calls st i = Some acc" using mp [OF call that] by simp_all
qed

lemma reassemblesI:
  assumes "dom (ks_tool_calls st) = tool_call_opened st" "tool_call_opened st = opened_calls ps"
    "unat (next_tool_index st) \<le> length ps"
    "\<And>d. d \<in> set ds \<Longrightarrow> \<exists>i acc. ks_tool_calls st i = Some acc \<and> tca_index acc = cct_index d"
    "\<And>i. i \<notin> tool_call_opened st \<Longrightarrow> call_arguments env i ps = []"
    "\<And>i acc. ks_tool_calls st i = Some acc \<Longrightarrow> tca_index acc < next_tool_index st \<and>
       tca_arguments acc = call_arguments env i ps \<and> arguments_at (tca_index acc) ds = call_arguments env i ps \<and>
       ids_at (tca_index acc) ds = {i}"
  shows "reassembles env ps st ds"
  unfolding reassembles_def by (intro conjI ballI allI impI assms) (use assms(6) in blast)+

lemma reassembles_quiet:
  assumes "reassembles env ps st ds" and "\<And>i. add_arguments env i (call_arguments env i ps) p = call_arguments env i ps"
    and "set_option (opened_id p) \<subseteq> tool_call_opened st"
  shows "reassembles env (ps @ [p]) st ds"
proof -
  have "call_arguments env i (ps @ [p]) = call_arguments env i ps" for i by (simp only: call_arguments_snoc assms(2))
  moreover have "opened_calls (ps @ [p]) = opened_calls ps"
    using assms(3) reassemblesD(2) [OF assms(1)] by (auto simp: opened_calls_snoc)
  ultimately show ?thesis using assms(1) by (simp add: reassembles_def)
qed

lemma reassembles_append:
  assumes inv: "reassembles env ps st ds" and acc: "ks_tool_calls st i = Some acc"
    and own: "add_arguments env i (call_arguments env i ps) p = call_arguments env i ps @ delta"
    and others: "\<And>j. j \<noteq> i \<Longrightarrow> add_arguments env j (call_arguments env j ps) p = call_arguments env j ps"
    and p: "set_option (opened_id p) \<subseteq> {i}"
    and d: "cct_index d = tca_index acc" "cct_arguments d = Some delta" "set_option (cct_id d) \<subseteq> {i}"
    and calls: "ks_tool_calls st' = (ks_tool_calls st)(i \<mapsto> acc\<lparr>tca_arguments := tca_arguments acc @ delta\<rparr>)"
    and rest: "next_tool_index st' = next_tool_index st" "tool_call_opened st' = insert i (tool_call_opened st)"
  shows "reassembles env (ps @ [p]) st' (ds @ [d])"
proof (rule reassemblesI)
  have i: "i \<in> tool_call_opened st" using reassemblesD(1) [OF inv] acc by auto
  note grown = own [folded call_arguments_snoc] others [folded call_arguments_snoc]
  show "dom (ks_tool_calls st') = tool_call_opened st'" using reassemblesD(1) [OF inv] calls rest by simp
  show "tool_call_opened st' = opened_calls (ps @ [p])"
    using reassemblesD(2) [OF inv] i p rest by (auto simp: opened_calls_snoc)
  show "unat (next_tool_index st') \<le> length (ps @ [p])" using reassemblesD(3) [OF inv] rest by simp
  have keeps: "\<exists>k a. ks_tool_calls st' k = Some a \<and> tca_index a = tca_index b" if "ks_tool_calls st j = Some b" for j b
    using that acc calls by (cases "j = i") auto
  show "\<exists>k a. ks_tool_calls st' k = Some a \<and> tca_index a = cct_index e" if e: "e \<in> set (ds @ [d])" for e
  proof (cases "e = d")
    case True
    then show ?thesis using keeps [OF acc] d(1) by simp
  next
    case False
    then have "e \<in> set ds" using e by simp
    then obtain k b where "ks_tool_calls st k = Some b" "tca_index b = cct_index e"
      using reassemblesD(4) [OF inv] by metis
    then show ?thesis using keeps by metis
  qed
  show "call_arguments env j (ps @ [p]) = []" if "j \<notin> tool_call_opened st'" for j
    using that grown(2) [of j] reassemblesD(5) [OF inv, of j] rest by simp
  show "tca_index b < next_tool_index st' \<and> tca_arguments b = call_arguments env j (ps @ [p]) \<and>
      arguments_at (tca_index b) (ds @ [d]) = call_arguments env j (ps @ [p]) \<and> ids_at (tca_index b) (ds @ [d]) = {j}"
    if b: "ks_tool_calls st' j = Some b" for j b
  proof (cases "j = i")
    case True
    then have "b = acc\<lparr>tca_arguments := tca_arguments acc @ delta\<rparr>" using b calls by simp
    then show ?thesis
      using True reassemblesD(6-9) [OF inv acc] grown(1) d rest by (auto simp: client_snoc)
  next
    case False
    then have b': "ks_tool_calls st j = Some b" using b calls by simp
    then have "tca_index b \<noteq> tca_index acc" using index_inj [OF inv _ acc] False by blast
    then show ?thesis using reassemblesD(6-9) [OF inv b'] grown(2) [OF False] d(1) rest by (simp add: client_snoc)
  qed
qed

lemma reassembles_new:
  assumes inv: "reassembles env ps st ds" and i: "i \<notin> tool_call_opened st" and bound: "Suc (length ps) < 2 ^ 32"
    and own: "add_arguments env i [] p = a"
    and others: "\<And>j. j \<noteq> i \<Longrightarrow> add_arguments env j (call_arguments env j ps) p = call_arguments env j ps"
    and p: "opened_id p = Some i"
  shows "reassembles env (ps @ [p]) ((new_tool_call i a st)\<lparr>tool_call_opened := insert i (tool_call_opened st)\<rparr>)
    (ds @ [opening_call (next_tool_index st) i name a])" (is "reassembles _ _ ?st (ds @ [?d])")
proof (rule reassemblesI)
  have "call_arguments env i (ps @ [p]) = a" using own reassemblesD(5) [OF inv i] by (simp add: call_arguments_snoc)
  note grown = this others [folded call_arguments_snoc]
  have le: "unat (next_tool_index st) \<le> length ps" by (rule reassemblesD(3) [OF inv])
  then have succ: "unat (next_tool_index st + 1) = Suc (unat (next_tool_index st))"
    using bound by (simp add: unat_word_ariths(1))
  then have below: "x < next_tool_index st \<Longrightarrow> x < next_tool_index st + 1" "next_tool_index st < next_tool_index st + 1" for x
    by (simp_all add: word_less_nat_alt)
  have fresh: "arguments_at (next_tool_index st) ds = [] \<and> ids_at (next_tool_index st) ds = {}"
    by (rule client_fresh) (auto dest: delta_below_next [OF inv])
  show "dom (ks_tool_calls ?st) = tool_call_opened ?st" using reassemblesD(1) [OF inv] by (simp add: new_tool_call_def)
  show "tool_call_opened ?st = opened_calls (ps @ [p])"
    using reassemblesD(2) [OF inv] p by (simp add: opened_calls_snoc)
  show "unat (next_tool_index ?st) \<le> length (ps @ [p])" using succ le by (simp add: new_tool_call_def)
  show "\<exists>k b. ks_tool_calls ?st k = Some b \<and> tca_index b = cct_index e" if e: "e \<in> set (ds @ [?d])" for e
  proof (cases "e = ?d")
    case True
    then show ?thesis by (intro exI [of _ i]) (simp add: new_tool_call_def opening_call_def)
  next
    case False
    then have "e \<in> set ds" using e by simp
    then obtain k b where k: "ks_tool_calls st k = Some b" "tca_index b = cct_index e"
      using reassemblesD(4) [OF inv] by metis
    then have "k \<noteq> i" using i reassemblesD(1) [OF inv] by auto
    then show ?thesis using k by (intro exI [of _ k]) (simp add: new_tool_call_def)
  qed
  show "call_arguments env j (ps @ [p]) = []" if "j \<notin> tool_call_opened ?st" for j
    using that grown(2) [of j] reassemblesD(5) [OF inv, of j] by simp
  show "tca_index b < next_tool_index ?st \<and> tca_arguments b = call_arguments env j (ps @ [p]) \<and>
      arguments_at (tca_index b) (ds @ [?d]) = call_arguments env j (ps @ [p]) \<and> ids_at (tca_index b) (ds @ [?d]) = {j}"
    if b: "ks_tool_calls ?st j = Some b" for j b
  proof (cases "j = i")
    case True
    then show ?thesis using b grown(1) fresh below
      by (auto simp: new_tool_call_def opening_call_def client_snoc)
  next
    case False
    then have b': "ks_tool_calls st j = Some b" using b by (simp add: new_tool_call_def)
    then have "tca_index b \<noteq> next_tool_index st" using reassemblesD(6) [OF inv b'] by auto
    then show ?thesis using reassemblesD(6-9) [OF inv b'] grown(2) [OF False] below
      by (simp add: new_tool_call_def opening_call_def client_snoc)
  qed
qed

section \<open>The converter keeps it\<close>

lemma tool_deltas_simps [simp]:
  "tool_deltas [] = []" "tool_deltas (c # cs) = unwrap_or [] (cd_tool_calls (ck_delta c)) @ tool_deltas cs"
  "tool_deltas (xs @ ys) = tool_deltas xs @ tool_deltas ys"
  by (simp_all add: tool_deltas_def)

lemma chunk_tool_calls [simp]:
  "cd_tool_calls (ck_delta (delta_chunk env st d)) = cd_tool_calls d"
  "cd_tool_calls (ck_delta (content_chunk env st t)) = None"
  "cd_tool_calls (ck_delta (tool_chunk env st call)) = Some [call]" "cd_tool_calls no_delta = None"
  by (simp_all add: delta_chunk_def content_chunk_def tool_chunk_def no_delta_def)

lemma ensure_started_tools:
  assumes "ensure_started env st = (chunks, st')"
  shows "tool_deltas chunks = []" "same_tools st st'"
  using assms by (auto simp: ensure_started_def Let_def same_tools_def split: if_splits option.splits)

lemma started_then_tools:
  assumes "started_then env f st = (chunks, st')"
  obtains st1 cs where "same_tools st st1" "f st1 = (cs, st')" "tool_deltas chunks = tool_deltas cs"
proof -
  obtain role st1 where r: "ensure_started env st = (role, st1)" by fastforce
  obtain cs st2 where f: "f st1 = (cs, st2)" by fastforce
  show ?thesis
    by (rule that [of st1 cs]) (use assms r f ensure_started_tools [OF r] in \<open>auto simp: started_then_def\<close>)
qed

lemma pending_start_tools:
  assumes "pending_start env st = (chunks, st')"
  shows "tool_deltas chunks = []" "same_tools st st'"
  using assms ensure_started_tools [of env st chunks st'] by (auto simp: pending_start_def split: if_splits)

lemma error_chunk_tools:
  assumes "error_chunk env e st = (chunks, st')"
  shows "tool_deltas chunks = []" "same_tools st st'"
  using assms by (auto simp: error_chunk_def Let_def same_tools_def split: if_splits)

lemma final_chunk_tools:
  assumes "final_chunk env b st = (chunks, st')"
  shows "tool_deltas chunks = []" "same_tools st st'"
  using assms by (auto simp: final_chunk_def Let_def same_tools_def split: if_splits)

lemma say_tools:
  assumes "say env t st = (chunks, st')"
  shows "tool_deltas chunks = []" "same_tools st st'"
  using assms by (auto simp: say_def elim!: started_then_tools)

lemma close_stream_tools: "tool_deltas (close_stream env opts error st) = []"
proof -
  obtain role st1 where p: "pending_start env st = (role, st1)" by fastforce
  obtain cs st2 where e: "(case error of None \<Rightarrow> ([], st1) | Some e \<Rightarrow> error_chunk env e st1) = (cs, st2)" by fastforce
  then have "tool_deltas cs = []" using error_chunk_tools(1) by (cases error) auto
  moreover obtain fs st3 where "final_chunk env (include_usage opts) st2 = (fs, st3)" by fastforce
  ultimately show ?thesis
    using p e pending_start_tools(1) [OF p] final_chunk_tools(1) by (auto simp: close_stream_def)
qed

definition tool_part :: "text_stream_part \<Rightarrow> bool" where
  "tool_part p \<longleftrightarrow> (case p of TToolInputStart _ _ _ _ _ _ \<Rightarrow> True | TToolInputDelta _ _ _ \<Rightarrow> True | TToolCall _ \<Rightarrow> True | _ \<Rightarrow> False)"

lemma same_tools_trans: "same_tools a b \<Longrightarrow> same_tools b c \<Longrightarrow> same_tools a c"
  by (simp add: same_tools_def)

lemma process_part_quiet:
  assumes "process_part env opts p st = (chunks, st')" and "\<not> tool_part p"
  shows "tool_deltas chunks = [] \<and> same_tools st st'"
proof (cases p)
  case (TSource s)
  then show ?thesis using assms(1)
    by (cases s) (auto simp: process_part_def elim!: started_then_tools)
next
  case (TFinish reason raw u)
  let ?st = "st\<lparr>final_usage := Some u, final_finish_reason := Some (reason, raw)\<rparr>"
  obtain role st1 where p: "pending_start env ?st = (role, st1)" by fastforce
  obtain cs st2 where f: "final_chunk env (include_usage opts) st1 = (cs, st2)" by fastforce
  have "same_tools st ?st" by (simp add: same_tools_def)
  then show ?thesis using assms(1) TFinish p f pending_start_tools [OF p] final_chunk_tools [OF f]
    by (auto simp: process_part_def intro: same_tools_trans)
next
  case (TError e)
  obtain role st1 where p: "pending_start env st = (role, st1)" by fastforce
  obtain cs st2 where f: "error_chunk env e st1 = (cs, st2)" by fastforce
  show ?thesis using assms(1) TError p f pending_start_tools [OF p] error_chunk_tools [OF f]
    by (auto simp: process_part_def intro: same_tools_trans)
next
  case (FinishStep r u perf reason raw md)
  then show ?thesis using assms(1) by (auto simp: process_part_def same_tools_def split: if_splits)
next
  case (TReasoningDelta md i delta)
  then show ?thesis using assms(1) by (auto simp: process_part_def elim!: started_then_tools split: if_splits)
next
  case TStart
  then show ?thesis using assms(1) ensure_started_tools [of env st chunks st']
    by (auto simp: process_part_def same_tools_def split: if_splits)
qed (use assms ensure_started_tools [of env st chunks st'] in \<open>auto simp: process_part_def tool_part_def say_tools split: if_splits\<close>)

lemma reassembles_start:
  assumes inv: "reassembles env ps st ds" and bound: "Suc (length ps) < 2 ^ 32"
    and run: "chat_input_start env i name st = (chunks, st')"
  shows "reassembles env (ps @ [TToolInputStart i name md pe dyn title]) st' (ds @ tool_deltas chunks)" (is "reassembles _ (_ @ [?p]) _ _")
proof -
  obtain st0 cs where st0: "same_tools st st0" and cs: "tool_deltas chunks = tool_deltas cs"
    and f: "(let st1 = (if ks_tool_calls st0 i \<noteq> None then st0 else new_tool_call i [] st0);
              st2 = st1\<lparr>tool_call_opened := insert i (tool_call_opened st1)\<rparr>
          in ([tool_chunk env st2 (opening_call (index_of st2 i) i name [])], st2)) = (cs, st')"
    using run unfolding chat_input_start_def by (elim started_then_tools) blast
  have inv0: "reassembles env ps st0 ds" using inv st0 by (rule reassembles_same_tools)
  show ?thesis
  proof (cases "ks_tool_calls st0 i")
    case None
    then have "i \<notin> tool_call_opened st0" using reassemblesD(1) [OF inv0] by auto
    then have "reassembles env (ps @ [?p]) ((new_tool_call i [] st0)\<lparr>tool_call_opened := insert i (tool_call_opened st0)\<rparr>)
        (ds @ [opening_call (next_tool_index st0) i name []])"
      by (rule reassembles_new [OF inv0 _ bound]) simp_all
    then show ?thesis using f cs None by (auto simp: Let_def index_of_def new_tool_call_def)
  next
    case (Some acc)
    have "reassembles env (ps @ [?p]) st' (ds @ [opening_call (tca_index acc) i name []])"
      by (rule reassembles_append [OF inv0 Some, where delta = "[]"])
        (use f Some in \<open>auto simp: Let_def opening_call_def fun_upd_idem\<close>)
    then show ?thesis using f cs Some by (auto simp: Let_def index_of_def)
  qed
qed

lemma append_accum_Some:
  assumes "ks_tool_calls st i = Some acc"
  shows "ks_tool_calls (append_accum i delta st) = (ks_tool_calls st)(i \<mapsto> acc\<lparr>tca_arguments := tca_arguments acc @ delta\<rparr>)"
    "next_tool_index (append_accum i delta st) = next_tool_index st" "tool_call_opened (append_accum i delta st) = tool_call_opened st"
    "index_of (append_accum i delta st) i = tca_index acc"
  using assms by (simp_all add: append_accum_def index_of_def)

lemma reassembles_delta:
  assumes inv: "reassembles env ps st ds" and i: "i \<in> tool_call_opened st"
    and run: "chat_input_delta env i delta st = (chunks, st')"
  shows "reassembles env (ps @ [TToolInputDelta i delta md]) st' (ds @ tool_deltas chunks)" (is "reassembles _ (_ @ [?p]) _ _")
proof -
  obtain st0 cs where st0: "same_tools st st0" and cs: "tool_deltas chunks = tool_deltas cs"
    and f: "(let st1 = (if ks_tool_calls st0 i \<noteq> None then append_accum i delta st0 else new_tool_call i delta st0)
          in ([tool_chunk env st1 (argument_delta (index_of st1 i) delta)], st1)) = (cs, st')"
    using run unfolding chat_input_delta_def by (elim started_then_tools) blast
  have inv0: "reassembles env ps st0 ds" using inv st0 by (rule reassembles_same_tools)
  have i0: "i \<in> tool_call_opened st0" using i st0 by (simp add: same_tools_def)
  then obtain acc where acc: "ks_tool_calls st0 i = Some acc" using reassemblesD(1) [OF inv0] by (metis domD)
  have "reassembles env (ps @ [?p]) (append_accum i delta st0) (ds @ [argument_delta (tca_index acc) delta])"
    by (rule reassembles_append [OF inv0 acc])
      (use i0 in \<open>simp_all add: argument_delta_def append_accum_Some [OF acc] insert_absorb\<close>)
  then show ?thesis using f cs acc by (auto simp: Let_def append_accum_Some)
qed

lemma missing_arguments_add:
  "ttc_id c = i \<Longrightarrow> add_arguments env i t (TToolCall c) =
     t @ missing_arguments t (parsed_tool_call_arguments env (ttc_input c) (ttc_invalid c) (ttc_error c))"
  by (auto simp: missing_arguments_def Let_def) (metis append_take_drop_id)

lemma reassembles_call:
  assumes inv: "reassembles env ps st ds" and bound: "Suc (length ps) < 2 ^ 32"
    and run: "complete_tool_call env c st = (chunks, st')"
  shows "reassembles env (ps @ [TToolCall c]) st' (ds @ tool_deltas chunks)"
proof (cases "ttc_id c \<in> tool_call_opened st")
  case True
  define full where "full = parsed_tool_call_arguments env (ttc_input c) (ttc_invalid c) (ttc_error c)"
  obtain acc where acc: "ks_tool_calls st (ttc_id c) = Some acc" using True reassemblesD(1) [OF inv] by (metis domD)
  define missing where "missing = missing_arguments (tca_arguments acc) full"
  have own: "add_arguments env (ttc_id c) (call_arguments env (ttc_id c) ps) (TToolCall c) = call_arguments env (ttc_id c) ps @ missing"
    using reassemblesD(7) [OF inv acc] by (simp add: missing_arguments_add missing_def full_def del: add_arguments.simps)
  show ?thesis
  proof (cases "missing = []")
    case True
    have "reassembles env (ps @ [TToolCall c]) st ds"
    proof (rule reassembles_quiet [OF inv])
      show "add_arguments env i (call_arguments env i ps) (TToolCall c) = call_arguments env i ps" for i
        using own True by (cases "i = ttc_id c") simp_all
    qed (use \<open>ttc_id c \<in> tool_call_opened st\<close> in simp)
    then show ?thesis using run acc True \<open>ttc_id c \<in> tool_call_opened st\<close>
      by (auto simp: complete_tool_call_def Let_def missing_def full_def)
  next
    case False
    have "reassembles env (ps @ [TToolCall c]) (append_accum (ttc_id c) missing st) (ds @ [argument_delta (tca_index acc) missing])"
      by (rule reassembles_append [OF inv acc own])
        (use True in \<open>simp_all add: argument_delta_def append_accum_Some [OF acc] insert_absorb\<close>)
    then show ?thesis using run acc True False
      by (auto simp: complete_tool_call_def Let_def missing_def full_def append_accum_Some)
  qed
next
  case False
  define full where "full = parsed_tool_call_arguments env (ttc_input c) (ttc_invalid c) (ttc_error c)"
  let ?send = "\<lambda>st. let st1 = new_tool_call (ttc_id c) full st;
      st2 = st1\<lparr>tool_call_opened := insert (ttc_id c) (tool_call_opened st1)\<rparr>
      in ([tool_chunk env st2 (opening_call (index_of st2 (ttc_id c)) (ttc_id c) (ttc_name c) full)], st2)"
  have "started_then env ?send st = (chunks, st')" using run False by (simp add: complete_tool_call_def full_def Let_def)
  then obtain st0 cs where st0: "same_tools st st0" and f: "?send st0 = (cs, st')" and cs: "tool_deltas chunks = tool_deltas cs"
    by (rule started_then_tools)
  have inv0: "reassembles env ps st0 ds" using inv st0 by (rule reassembles_same_tools)
  have "ttc_id c \<notin> tool_call_opened st0" using False st0 by (simp add: same_tools_def)
  then have "reassembles env (ps @ [TToolCall c])
      ((new_tool_call (ttc_id c) full st0)\<lparr>tool_call_opened := insert (ttc_id c) (tool_call_opened st0)\<rparr>)
      (ds @ [opening_call (next_tool_index st0) (ttc_id c) (ttc_name c) full])"
    by (rule reassembles_new [OF inv0 _ bound]) (simp_all add: full_def Let_def)
  then show ?thesis using f cs by (auto simp: Let_def index_of_def new_tool_call_def)
qed

lemma reassembles_step:
  assumes "reassembles env ps st ds" and "Suc (length ps) < 2 ^ 32" and "process_part env opts p st = (chunks, st')"
    and "case p of TToolInputDelta i _ _ \<Rightarrow> i \<in> tool_call_opened st | _ \<Rightarrow> True"
  shows "reassembles env (ps @ [p]) st' (ds @ tool_deltas chunks)"
proof (cases "tool_part p")
  case True
  then show ?thesis using assms
    by (cases p) (auto simp: tool_part_def process_part_def reassembles_start reassembles_delta reassembles_call)
next
  case False
  then have "tool_deltas chunks = []" "same_tools st st'" using process_part_quiet [OF assms(3)] by simp_all
  moreover have "reassembles env (ps @ [p]) st ds"
    by (rule reassembles_quiet [OF assms(1)]) (use False in \<open>cases p; simp add: tool_part_def\<close>)+
  ultimately show ?thesis using reassembles_same_tools by simp
qed

lemma reassembles_stream:
  "reassembles env ps st ds \<Longrightarrow> deltas_opened (tool_call_opened st) (seen_parts items) \<Longrightarrow>
   length ps + length (seen_parts items) < 2 ^ 32 \<Longrightarrow>
   \<exists>st'. reassembles env (ps @ seen_parts items) st' (ds @ tool_deltas (chunks_of (chat_completion_stream env opts items st)))"
proof (induction env opts items st arbitrary: ps ds rule: chat_completion_stream.induct)
  case (1 env opts st)
  then show ?case by (auto simp: close_stream_tools)
next
  case (2 env opts e items st)
  then show ?case by (auto simp: close_stream_tools)
next
  case (3 env opts p items st)
  obtain chunks st' where p: "process_part env opts p st = (chunks, st')" by fastforce
  have inv: "reassembles env (ps @ [p]) st' (ds @ tool_deltas chunks)"
    by (rule reassembles_step [OF "3.prems"(1) _ p]) (use "3.prems"(2,3) in simp_all)
  show ?case
  proof (cases "is_chat_finish p")
    case True
    then show ?thesis using inv p by auto
  next
    case False
    have "tool_call_opened st' = tool_call_opened st \<union> set_option (opened_id p)"
      using reassemblesD(2) [OF inv] reassemblesD(2) [OF "3.prems"(1)] by (simp add: opened_calls_snoc)
    then show ?thesis using "3.IH" [OF p [symmetric] False inv] "3.prems"(2,3) False p by simp
  qed
qed

text \<open>
  C28. A client that files the tool-call deltas of a converted stream under their indexes gets back the calls of
  the public stream: there is one index for each call that was opened, distinct calls have distinct indexes and
  no delta has another index; under a call's index the only id is the call's, and the concatenated argument
  texts are the call's arguments (its deltas, completed by the parsed call). The deltas of a call follow its
  start, and the stream has fewer than 2^32 parts, the range of the index.
\<close>

theorem chat_tool_calls_reassemble:
  assumes "deltas_opened {} (seen_parts items)" and "length (seen_parts items) < 2 ^ 32"
  shows "let ds = tool_deltas (chunks_of (chat_completion_stream env opts items (new_chat_stream_state env model tap)));
             calls = opened_calls (seen_parts items)
         in \<exists>index. inj_on index calls \<and> cct_index ` set ds = index ` calls \<and>
              (\<forall>i \<in> calls. ids_at (index i) ds = {i} \<and> arguments_at (index i) ds = call_arguments env i (seen_parts items))"
proof -
  let ?st = "new_chat_stream_state env model tap"
  have "reassembles env [] ?st []"
    by (simp add: reassembles_def new_chat_stream_state_def opened_calls_def call_arguments_def)
  then obtain st' where inv: "reassembles env (seen_parts items) st' (tool_deltas (chunks_of (chat_completion_stream env opts items ?st)))"
    using reassembles_stream [of env "[]" ?st "[]" items opts] assms by (auto simp: new_chat_stream_state_def)
  let ?ds = "tool_deltas (chunks_of (chat_completion_stream env opts items ?st))"
  define index where "index i = tca_index (the (ks_tool_calls st' i))" for i
  have call: "ids_at (index i) ?ds = {i} \<and> arguments_at (index i) ?ds = call_arguments env i (seen_parts items)"
    if "i \<in> opened_calls (seen_parts items)" for i
    using that reassemblesD(1,2) [OF inv] reassemblesD(8,9) [OF inv, of i] unfolding index_def by (metis domD option.sel)
  have "inj_on index (opened_calls (seen_parts items))"
    by (rule inj_onI) (metis call singleton_inject)
  moreover have "cct_index ` set ?ds \<subseteq> index ` opened_calls (seen_parts items)"
  proof (rule image_subsetI)
    fix d assume "d \<in> set ?ds"
    then obtain i acc where "ks_tool_calls st' i = Some acc" "tca_index acc = cct_index d" using reassemblesD(4) [OF inv] by metis
    then show "cct_index d \<in> index ` opened_calls (seen_parts items)"
      using reassemblesD(1,2) [OF inv] by (intro image_eqI [of _ _ i]) (auto simp: index_def)
  qed
  moreover have "index ` opened_calls (seen_parts items) \<subseteq> cct_index ` set ?ds"
  proof (rule image_subsetI)
    fix i assume "i \<in> opened_calls (seen_parts items)"
    then have "i \<in> ids_at (index i) ?ds" using call by simp
    then obtain d where "d \<in> set ?ds" "cct_index d = index i" unfolding ids_at_def by blast
    then show "index i \<in> cct_index ` set ?ds" by (metis image_eqI)
  qed
  ultimately show ?thesis using call unfolding Let_def by blast
qed

definition demo_chat_env :: chat_env where
  "demo_chat_env = \<lparr>ch_json = demo_env, ch_messages = demo_message_env, ch_created = 0, ch_random_id = ''x''\<rparr>"

definition demo_call :: "string \<Rightarrow> typed_tool_call" where
  "demo_call i = \<lparr>ttc_id = i, ttc_name = ''f'', ttc_input = JNull, ttc_provider_executed = None, ttc_dynamic = None,
     ttc_provider_metadata = None, ttc_invalid = None, ttc_error = None\<rparr>"

text \<open>Two interleaved calls: one whose deltas are completed by the parsed call, one that comes whole.\<close>

definition demo_parts :: "text_stream_part list" where
  "demo_parts = [TStart, TToolInputStart ''a'' ''f'' None None None None, TToolInputDelta ''a'' ''nu'' None,
     TToolCall (demo_call ''b''), TToolCall (demo_call ''a'')]"

lemma demo_seen: "seen_parts (map Inr demo_parts) = demo_parts" "deltas_opened {} demo_parts" "opened_calls demo_parts = {''a'', ''b''}"
  "length demo_parts < 2 ^ 32"
  by (auto simp: demo_parts_def demo_call_def opened_calls_def)

lemma demo_arguments: "call_arguments demo_chat_env ''a'' demo_parts = ''null''" "call_arguments demo_chat_env ''b'' demo_parts = ''null''"
  by (simp_all add: demo_parts_def demo_call_def call_arguments_def demo_chat_env_def demo_env_def parsed_tool_call_arguments_def)

theorem chat_tool_calls_reassemble_witness:
  "let ds = tool_deltas (chunks_of (chat_completion_stream demo_chat_env \<lparr>include_usage = True, include_reasoning = True\<rparr>
         (map Inr demo_parts) (new_chat_stream_state demo_chat_env ''m'' None)))
   in \<exists>index. index ''a'' \<noteq> index ''b'' \<and> cct_index ` set ds = {index ''a'', index ''b''} \<and>
        ids_at (index ''a'') ds = {''a''} \<and> arguments_at (index ''a'') ds = ''null'' \<and> arguments_at (index ''b'') ds = ''null''"
  using chat_tool_calls_reassemble [of "map Inr demo_parts" demo_chat_env "\<lparr>include_usage = True, include_reasoning = True\<rparr>" "''m''" None]
  unfolding demo_seen(1,3) Let_def using demo_seen(2,4)
  by (elim meta_impE) (auto simp: demo_arguments)

end
