(* ===== verification/Recording.thy ===== *)
theory Recording
  imports Message_Types
begin

text \<open>
  The recording of calls (\<open>src/aimux-core/src/recording.rs\<close>): the record of a call, the redaction of secrets,
  the merging of HTTP exchanges and the choice of the entry that leaves a full table. What \<open>serde_json\<close> makes of a
  value enters as JSON, and the time of a new record as a text.
\<close>

section \<open>Records\<close>

datatype recording_operation = LanguageModelCall | DecisionCall

record input_record =
  in_operation :: recording_operation
  in_prompt :: "language_model_message list"
  in_options :: json

record provider_record =
  pv_provider_id :: string
  pv_provider :: string
  pv_model_id :: string

record http_record =
  hr_method :: string
  hr_url :: string
  hr_headers :: "(string \<times> string) list"
  hr_body :: "string option"

record response_record =
  rr_status :: u16
  rr_headers :: "(string \<times> string) list"
  rr_body :: "string option"
  rr_stream_chunks :: "u64 option"
  rr_ttfb_ms :: "u64 option"

record timing_record =
  tm_latency_ms :: u64
  tm_ttfb_ms :: "u64 option"

record http_exchange =
  ex_step :: "string option"
  ex_attempt :: u32
  ex_index :: u32
  ex_request :: http_record
  ex_response :: "response_record option"
  ex_timing :: timing_record
  ex_error :: "string option"
  ex_finalized :: bool

datatype outcome_status = StatusPending | StatusSuccess | StatusError | StatusIncomplete | StatusCancelled

record outcome_record =
  oc_decision_result :: "json option"
  oc_status :: outcome_status
  oc_finish_reason :: "string option"
  oc_error :: "string option"
  oc_error_value :: "json option"
  oc_usage :: "json option"

record recording =
  rec_schema :: u32
  rec_call_id :: string
  rec_recorded_at :: string
  rec_input :: input_record
  rec_provider :: provider_record
  rec_exchanges :: "http_exchange list"
  rec_outcome :: outcome_record
  rec_complete :: bool
  rec_transport_closed :: bool
  rec_session_id :: "string option"
  rec_step :: "u32 option"

definition RECORDING_SCHEMA :: u32 where
  "RECORDING_SCHEMA = 2"

definition default_outcome :: outcome_record where
  "default_outcome = \<lparr>oc_decision_result = None, oc_status = StatusPending, oc_finish_reason = None, oc_error = None,
     oc_error_value = None, oc_usage = None\<rparr>"

definition new_recording :: "string \<Rightarrow> string \<Rightarrow> input_record \<Rightarrow> provider_record \<Rightarrow> recording" where
  "new_recording now i input provider =
     \<lparr>rec_schema = RECORDING_SCHEMA, rec_call_id = i, rec_recorded_at = now, rec_input = input, rec_provider = provider,
      rec_exchanges = [], rec_outcome = default_outcome, rec_complete = False, rec_transport_closed = False,
      rec_session_id = None, rec_step = None\<rparr>"

text \<open>\<open>options["questions"].as_object()\<close> has an entry.\<close>

definition has_questions :: "json \<Rightarrow> bool" where
  "has_questions options = (case options of
     JObject fs \<Rightarrow> (case map_of fs ''questions'' of Some (JObject qs) \<Rightarrow> qs \<noteq> [] | _ \<Rightarrow> False)
   | _ \<Rightarrow> False)"

definition ready :: "recording \<Rightarrow> bool" where
  "ready r \<longleftrightarrow> rec_transport_closed r \<and> oc_status (rec_outcome r) \<noteq> StatusPending \<and>
     (in_prompt (rec_input r) \<noteq> [] \<or>
      in_operation (rec_input r) = DecisionCall \<and> has_questions (in_options (rec_input r))) \<and>
     list_all ex_finalized (rec_exchanges r)"

definition has_input :: "recording \<Rightarrow> bool" where
  "has_input r \<longleftrightarrow> in_prompt (rec_input r) \<noteq> [] \<or> in_options (rec_input r) \<noteq> JNull"

definition is_empty_placeholder :: "recording \<Rightarrow> bool" where
  "is_empty_placeholder r \<longleftrightarrow> \<not> has_input r \<and> rec_exchanges r = []"

definition is_inactive_or_missing_input :: "recording \<Rightarrow> bool" where
  "is_inactive_or_missing_input r \<longleftrightarrow>
     \<not> has_input r \<or> rec_transport_closed r \<or> oc_status (rec_outcome r) \<noteq> StatusPending"

text \<open>\<open>from_model\<close>: the registry name is the first segment of the model's provider.\<close>

definition provider_from_model :: "string \<Rightarrow> string \<Rightarrow> provider_record" where
  "provider_from_model provider model_id =
     \<lparr>pv_provider_id = takeWhile (\<lambda>c. c \<noteq> CHR ''.'') provider, pv_provider = provider, pv_model_id = model_id\<rparr>"

definition placeholder :: "string \<Rightarrow> string \<Rightarrow> recording" where
  "placeholder now i =
     new_recording now i \<lparr>in_operation = LanguageModelCall, in_prompt = [], in_options = JNull\<rparr> (provider_from_model [] [])"

section \<open>Redaction\<close>

definition windows :: "nat \<Rightarrow> 'a list \<Rightarrow> 'a list list" where
  "windows k xs = map (\<lambda>i. take k (drop i xs)) [0..<Suc (length xs) - k]"

definition contains_subslice :: "string \<Rightarrow> string \<Rightarrow> bool" where
  "contains_subslice haystack needle \<longleftrightarrow>
     length needle \<le> length haystack \<and> list_ex (\<lambda>w. w = needle) (windows (length needle) haystack)"

text \<open>\<open>str::contains\<close> and \<open>str::ends_with\<close>.\<close>

fun str_contains :: "string \<Rightarrow> string \<Rightarrow> bool" where
  "str_contains [] needle \<longleftrightarrow> needle = []"
| "str_contains (c # s) needle \<longleftrightarrow> take (length needle) (c # s) = needle \<or> str_contains s needle"

definition ends_with :: "string \<Rightarrow> string \<Rightarrow> bool" where
  "ends_with s tail \<longleftrightarrow> length tail \<le> length s \<and> drop (length s - length tail) s = tail"

definition separator_char :: "char \<Rightarrow> bool" where
  "separator_char c \<longleftrightarrow> c = CHR ''-'' \<or> c = CHR ''_''"

text \<open>
  The two paths of \<open>is_sensitive_key\<close>: names of up to 128 bytes fill two stack buffers in one pass, of which the
  filled parts are the pair here; longer names are lowered and filtered as texts.
\<close>

fun fill_buffers :: "string \<Rightarrow> string \<times> string \<Rightarrow> string \<times> string" where
  "fill_buffers [] bufs = bufs"
| "fill_buffers (b # bs) (n, squashed) =
     (let low = ascii_lower b in fill_buffers bs (n @ [low], if separator_char low then squashed else squashed @ [low]))"

definition is_sensitive_key :: "string \<Rightarrow> bool" where
  "is_sensitive_key name =
     (if length name \<le> 128
      then (case fill_buffers name ([], []) of (n, squashed) \<Rightarrow>
              n = ''cookie'' \<or> n = ''set-cookie'' \<or> ends_with squashed ''key'' \<or> ends_with squashed ''token'' \<or>
              ends_with squashed ''auth'' \<or> contains_subslice squashed ''secret'' \<or> contains_subslice n ''authorization'' \<or>
              contains_subslice squashed ''apikey'')
      else (let n = to_ascii_lowercase name; squashed = filter (\<lambda>c. \<not> separator_char c) n
            in n = ''cookie'' \<or> n = ''set-cookie'' \<or> ends_with squashed ''key'' \<or> ends_with squashed ''token'' \<or>
               ends_with squashed ''auth'' \<or> str_contains squashed ''secret'' \<or> str_contains n ''authorization'' \<or>
               str_contains squashed ''apikey''))"

definition REDACTED :: json where
  "REDACTED = JString ''[REDACTED]''"

fun redact_json :: "json \<Rightarrow> json" where
  "redact_json (JObject fs) = JObject (map (\<lambda>(k, v). (k, if is_sensitive_key k then REDACTED else redact_json v)) fs)"
| "redact_json (JArray vs) = JArray (map redact_json vs)"
| "redact_json v = v"

definition redacted_outcome :: "outcome_record \<Rightarrow> outcome_record" where
  "redacted_outcome oc = oc\<lparr>oc_decision_result := map_option redact_json (oc_decision_result oc),
     oc_error_value := map_option redact_json (oc_error_value oc)\<rparr>"

text \<open>
  \<open>InputRecord::from_call_options\<close> on the serialized call options and the settings of the operation, which extend
  them, and \<open>from_decision_options\<close>.
\<close>

definition extend_object :: "json \<Rightarrow> json \<Rightarrow> json" where
  "extend_object options settings = (case (options, settings) of
     (JObject fs, JObject more_fields) \<Rightarrow> JObject (fold (\<lambda>(k, v) acc. hash_insert k v acc) more_fields fs)
   | _ \<Rightarrow> options)"

definition input_from_call_options :: "language_model_message list \<Rightarrow> json \<Rightarrow> json \<Rightarrow> input_record" where
  "input_from_call_options prompt options settings =
     \<lparr>in_operation = LanguageModelCall, in_prompt = prompt, in_options = redact_json (extend_object options settings)\<rparr>"

definition input_from_decision_options :: "json \<Rightarrow> input_record" where
  "input_from_decision_options options = \<lparr>in_operation = DecisionCall, in_prompt = [], in_options = redact_json options\<rparr>"

section \<open>Exchanges\<close>

definition ex_key :: "http_exchange \<Rightarrow> u32 \<times> u32" where
  "ex_key e = (ex_attempt e, ex_index e)"

definition merge_exchange :: "http_exchange \<Rightarrow> http_exchange \<Rightarrow> http_exchange" where
  "merge_exchange existing new =
     existing\<lparr>ex_request := ex_request new, ex_timing := ex_timing new,
       ex_response := (if ex_response new \<noteq> None then ex_response new else ex_response existing),
       ex_error := (if ex_error new \<noteq> None then ex_error new else ex_error existing),
       ex_finalized := (ex_finalized new \<or> ex_finalized existing)\<rparr>"

text \<open>\<open>iter_mut().find(..)\<close>: the first exchange with the key is merged; \<open>None\<close> when there is none.\<close>

fun merge_into :: "http_exchange \<Rightarrow> http_exchange list \<Rightarrow> http_exchange list option" where
  "merge_into new [] = None"
| "merge_into new (e # es) =
     (if ex_attempt e = ex_attempt new \<and> ex_index e = ex_index new then Some (merge_exchange e new # es)
      else map_option ((#) e) (merge_into new es))"

definition insert_exchange :: "http_exchange \<Rightarrow> recording \<Rightarrow> bool \<times> recording" where
  "insert_exchange new r = (case merge_into new (rec_exchanges r) of
     Some es \<Rightarrow> (True, r\<lparr>rec_exchanges := es\<rparr>)
   | None \<Rightarrow> (False, r\<lparr>rec_exchanges := rec_exchanges r @ [new]\<rparr>))"

datatype update_match = Patched | NotFound | Ambiguous

definition patch_exchange :: "response_record \<Rightarrow> string option \<Rightarrow> http_exchange \<Rightarrow> http_exchange" where
  "patch_exchange response error e =
     e\<lparr>ex_response := Some response, ex_error := (if error \<noteq> None then error else ex_error e), ex_finalized := True\<rparr>"

definition apply_exchange_update ::
  "u32 \<Rightarrow> u32 \<Rightarrow> response_record \<Rightarrow> string option \<Rightarrow> recording \<Rightarrow> update_match \<times> recording" where
  "apply_exchange_update attempt idx response error r =
     (case filter (\<lambda>i. ex_key (rec_exchanges r ! i) = (attempt, idx)) [0..<length (rec_exchanges r)] of
        [] \<Rightarrow> (NotFound, r)
      | [i] \<Rightarrow> (Patched, r\<lparr>rec_exchanges := (rec_exchanges r)[i := patch_exchange response error (rec_exchanges r ! i)]\<rparr>)
      | _ \<Rightarrow> (Ambiguous, r))"

section \<open>Eviction\<close>

type_synonym pending_table = "(string \<times> recording) list"

definition drop_settled :: "pending_table \<Rightarrow> string list \<Rightarrow> string list" where
  "drop_settled pending order = dropWhile (\<lambda>i. map_of pending i = None) order"

fun remove_first :: "('a \<Rightarrow> bool) \<Rightarrow> 'a list \<Rightarrow> ('a \<times> 'a list) option" where
  "remove_first P [] = None"
| "remove_first P (x # xs) = (if P x then Some (x, xs) else map_option (\<lambda>(y, ys). (y, x # ys)) (remove_first P xs))"

text \<open>
  The last line of the code takes any key of the table when the order is exhausted; the table's order of keys is that
  of its list.
\<close>

definition pop_next_pending_eviction_id :: "pending_table \<Rightarrow> string list \<Rightarrow> (string \<times> string list) option" where
  "pop_next_pending_eviction_id pending order =
     (let order = drop_settled pending order;
          picks = (\<lambda>Q i. case map_of pending i of Some r \<Rightarrow> Q r | None \<Rightarrow> False)
      in case remove_first (picks is_empty_placeholder) order of
           Some (i, rest) \<Rightarrow> Some (i, rest)
         | None \<Rightarrow>
             (case remove_first (picks is_inactive_or_missing_input) order of
                Some (i, rest) \<Rightarrow> Some (i, rest)
              | None \<Rightarrow>
                  (case drop_settled pending order of
                     i # rest \<Rightarrow> Some (i, rest)
                   | [] \<Rightarrow> (case pending of [] \<Rightarrow> None | (i, _) # _ \<Rightarrow> Some (i, [])))))"

definition evicted_record :: "recording \<Rightarrow> recording" where
  "evicted_record r = r\<lparr>rec_complete := False,
     rec_outcome := (if oc_status (rec_outcome r) = StatusPending then (rec_outcome r)\<lparr>oc_status := StatusIncomplete\<rparr>
                     else rec_outcome r)\<rparr>"

section \<open>Redaction is exact\<close>

lemma fill_buffers_eq:
  "fill_buffers bs (n, squashed) =
     (n @ to_ascii_lowercase bs, squashed @ filter (\<lambda>c. \<not> separator_char c) (to_ascii_lowercase bs))"
  by (induction bs arbitrary: n squashed) (simp_all add: to_ascii_lowercase_def Let_def)

lemma str_contains_iff: "str_contains s needle \<longleftrightarrow> (\<exists>i \<le> length s. take (length needle) (drop i s) = needle)"
proof (induction s)
  case (Cons c s)
  have "(\<exists>i \<le> length (c # s). take (length needle) (drop i (c # s)) = needle) \<longleftrightarrow>
      take (length needle) (c # s) = needle \<or> (\<exists>i \<le> length s. take (length needle) (drop (Suc i) (c # s)) = needle)"
    by (metis Suc_le_mono drop0 le0 length_Cons not0_implies_Suc)
  then show ?case using Cons by simp
qed auto

lemma contains_subslice_str:
  assumes "needle \<noteq> []"
  shows "contains_subslice s needle \<longleftrightarrow> str_contains s needle"
proof -
  have "length needle \<le> length s \<and> i < Suc (length s) - length needle"
    if "i \<le> length s" "take (length needle) (drop i s) = needle" for i
    using assms that(1) arg_cong [OF that(2), of length] by auto
  moreover have "contains_subslice s needle \<longleftrightarrow> length needle \<le> length s \<and>
      (\<exists>i < Suc (length s) - length needle. take (length needle) (drop i s) = needle)"
    unfolding contains_subslice_def windows_def list_ex_iff by (metis (no_types, lifting) atLeast_upt image_iff lessThan_iff list.set_map)
  ultimately show ?thesis unfolding str_contains_iff by (metis le_diff_conv less_Suc_eq_le Suc_diff_le diff_le_self le_trans)
qed

text \<open>One reading of the names for both paths.\<close>

definition sensitive_name :: "string \<Rightarrow> bool" where
  "sensitive_name name \<longleftrightarrow>
     (let n = to_ascii_lowercase name; squashed = filter (\<lambda>c. \<not> separator_char c) n
      in n \<in> {''cookie'', ''set-cookie''} \<or> (\<exists>t \<in> {''key'', ''token'', ''auth''}. \<exists>pre. squashed = pre @ t) \<or>
         (\<exists>pre post. n = pre @ ''authorization'' @ post) \<or>
         (\<exists>t \<in> {''secret'', ''apikey''}. \<exists>pre post. squashed = pre @ t @ post))"

lemma ends_with_iff: "ends_with s t \<longleftrightarrow> (\<exists>pre. s = pre @ t)"
  by (auto simp: ends_with_def) (metis append_take_drop_id)

lemma str_contains_split: "str_contains s t \<longleftrightarrow> (\<exists>pre post. s = pre @ t @ post)"
proof
  assume "str_contains s t"
  then obtain i where "take (length t) (drop i s) = t" by (auto simp: str_contains_iff)
  then have "s = take i s @ t @ drop (length t) (drop i s)" by (metis append_take_drop_id)
  then show "\<exists>pre post. s = pre @ t @ post" by blast
next
  assume "\<exists>pre post. s = pre @ t @ post"
  then obtain pre post where "s = pre @ t @ post" by blast
  then show "str_contains s t" unfolding str_contains_iff by (intro exI [of _ "length pre"]) simp
qed

lemma is_sensitive_key_iff: "is_sensitive_key name \<longleftrightarrow> sensitive_name name"
  by (auto simp: is_sensitive_key_def sensitive_name_def fill_buffers_eq contains_subslice_str Let_def
      ends_with_iff str_contains_split)

fun no_secrets :: "json \<Rightarrow> bool" where
  "no_secrets (JObject fs) \<longleftrightarrow> (\<forall>(k, v) \<in> set fs. if is_sensitive_key k then v = REDACTED else no_secrets v)"
| "no_secrets (JArray vs) \<longleftrightarrow> (\<forall>v \<in> set vs. no_secrets v)"
| "no_secrets _ \<longleftrightarrow> True"

text \<open>The value at a path of keys and indexes.\<close>

datatype json_step = Key string | Index nat

fun json_at :: "json_step list \<Rightarrow> json \<Rightarrow> json option" where
  "json_at [] v = Some v"
| "json_at (Key k # p) (JObject fs) = Option.bind (map_of fs k) (json_at p)"
| "json_at (Index i # p) (JArray vs) = (if i < length vs then json_at p (vs ! i) else None)"
| "json_at _ _ = None"

fun sensitive_path :: "json_step list \<Rightarrow> bool" where
  "sensitive_path [] \<longleftrightarrow> False"
| "sensitive_path (Key k # p) \<longleftrightarrow> is_sensitive_key k \<or> sensitive_path p"
| "sensitive_path (Index i # p) \<longleftrightarrow> sensitive_path p"

lemma redact_no_secrets: "no_secrets (redact_json v)"
  by (induction v rule: redact_json.induct) (auto simp: REDACTED_def)

lemma redact_clean: "no_secrets v \<Longrightarrow> redact_json v = v"
proof (induction v rule: redact_json.induct)
  case (1 fs)
  have "(\<lambda>(k, v). (k, if is_sensitive_key k then REDACTED else redact_json v)) x = x" if "x \<in> set fs" for x
    using 1(1) [OF that] 1(2) that by (cases x) (auto split: if_splits)
  then show ?case by (simp add: map_idI)
next
  case (2 vs)
  then show ?case by (simp add: map_idI)
qed simp_all

lemma map_of_map_field: "map_of (map (\<lambda>(k, v). (k, f k v)) fs) k = map_option (f k) (map_of fs k)"
  by (induction fs) auto

lemma redact_open_path: "\<not> sensitive_path p \<Longrightarrow> json_at p (redact_json v) = map_option redact_json (json_at p v)"
proof (induction p v rule: json_at.induct)
  case (2 k p fs)
  then show ?case by (cases "map_of fs k") (simp_all add: map_of_map_field)
qed auto

text \<open>
  C33. Redaction leaves no secret and nothing else out. Under a key that names a credential (after lower-casing and
  without separators: \<open>cookie\<close>, \<open>set-cookie\<close>, one that ends in \<open>key\<close>, \<open>token\<close> or \<open>auth\<close>, one that contains
  \<open>secret\<close>, \<open>apikey\<close> or \<open>authorization\<close>), at any depth, the value is the redaction mark; at every other path the
  value is the redaction of what was there; and a value without secrets is not changed, so redacting twice
  changes nothing. The fast path for short names and the path for long names decide alike.
\<close>

theorem redact_json_exact:
  "no_secrets (redact_json v) \<and> (no_secrets v \<longrightarrow> redact_json v = v) \<and>
   (\<not> sensitive_path p \<longrightarrow> json_at p (redact_json v) = map_option redact_json (json_at p v)) \<and>
   (is_sensitive_key name \<longleftrightarrow> sensitive_name name)"
  by (simp add: redact_no_secrets redact_clean redact_open_path is_sensitive_key_iff)

theorem redact_json_exact_witness:
  "no_secrets (redact_json (JObject [(''headers'', JObject [(''X-Api-Key'', JString ''s''), (''Accept'', JNull)])])) \<and>
   json_at [Key ''headers'', Key ''Accept'']
     (redact_json (JObject [(''headers'', JObject [(''X-Api-Key'', JString ''s''), (''Accept'', JNull)])])) = Some JNull"
proof -
  have "\<not> is_sensitive_key ''headers''" "\<not> is_sensitive_key ''Accept''" by code_simp+
  then show ?thesis
    using redact_json_exact [of "JObject [(''headers'', JObject [(''X-Api-Key'', JString ''s''), (''Accept'', JNull)])]"
        "[Key ''headers'', Key ''Accept'']"]
    by simp
qed

end
