(* ===== verification/Ring_Recorder.thy ===== *)
theory Ring_Recorder
  imports Recording
begin

text \<open>
  The in-memory recorder (\<open>RingRecorder\<close> of \<open>src/aimux-core/src/recording.rs\<close>). Its methods run under one lock, so
  a method is one step on the state; \<open>ring_event\<close> lists the methods with their arguments. The table of pending
  calls is a hash map: where the code iterates over it (\<open>flush\<close>), the order of the keys is part of the label.
  Capacities of the collections, which only control memory, are left out.
\<close>

section \<open>The state and its methods\<close>

record ring_inner =
  rg_cap :: nat
  rg_pending_max :: nat
  rg_order :: "string list"
  rg_pending :: pending_table
  rg_completed :: "recording list"
  rg_dropped :: u64
  rg_pending_evicted :: u64
  rg_inconsistent :: "string set"

definition usize_mul :: "nat \<Rightarrow> nat \<Rightarrow> nat" where
  "usize_mul a b = min (2 ^ 64 - 1) (a * b)"

definition ring_pending_max :: "nat \<Rightarrow> nat" where
  "ring_pending_max cap = max 2 (usize_mul cap 2)"

text \<open>\<open>with_capacity\<close> panics on 0.\<close>

definition ring_with_capacity :: "nat \<Rightarrow> ring_inner option" where
  "ring_with_capacity cap =
     (if cap = 0 then None
      else Some \<lparr>rg_cap = cap, rg_pending_max = ring_pending_max cap, rg_order = [], rg_pending = [], rg_completed = [],
        rg_dropped = 0, rg_pending_evicted = 0, rg_inconsistent = {}\<rparr>)"

definition ring_clear :: "ring_inner \<Rightarrow> ring_inner" where
  "ring_clear r = r\<lparr>rg_pending := [], rg_order := [], rg_completed := [], rg_inconsistent := {}, rg_dropped := 0,
     rg_pending_evicted := 0\<rparr>"

definition ring_get :: "string \<Rightarrow> ring_inner \<Rightarrow> recording option" where
  "ring_get i r = find (\<lambda>x. rec_call_id x = i) (rg_completed r)"

definition ring_push :: "recording \<Rightarrow> ring_inner \<Rightarrow> ring_inner" where
  "ring_push x r =
     (let r1 = (if rg_cap r \<le> length (rg_completed r)
                then (case rg_completed r of
                   [] \<Rightarrow> r
                 | evicted # rest \<Rightarrow>
                     r\<lparr>rg_completed := rest,
                       rg_inconsistent := (if map_of (rg_pending r) (rec_call_id evicted) = None \<and>
                            \<not> list_ex (\<lambda>y. rec_call_id y = rec_call_id evicted) rest
                          then rg_inconsistent r - {rec_call_id evicted} else rg_inconsistent r)\<rparr>)
                  \<lparr>rg_dropped := rg_dropped r + 1\<rparr>
                else r)
      in r1\<lparr>rg_completed := rg_completed r1 @ [x]\<rparr>)"

definition trim_order :: "nat \<Rightarrow> pending_table \<Rightarrow> string list \<Rightarrow> string list" where
  "trim_order pm pending order =
     (let order = drop_settled pending order
      in if usize_mul pm 2 < length order then filter (\<lambda>i. map_of pending i \<noteq> None) order else order)"

lemma remove_first_Some:
  "remove_first P xs = Some (x, rest) \<Longrightarrow> P x \<and> x \<in> set xs \<and> set xs \<subseteq> insert x (set rest) \<and> set rest \<subseteq> set xs"
  by (induction xs arbitrary: rest) (auto split: if_splits)

lemma set_drop_settled: "map_of pending i \<noteq> None \<Longrightarrow> i \<in> set order \<Longrightarrow> i \<in> set (drop_settled pending order)"
  unfolding drop_settled_def by (metis (mono_tags, lifting) Un_iff set_append set_takeWhileD takeWhile_dropWhile_id)

lemma drop_settled_Cons: "drop_settled pending order = i # rest \<Longrightarrow> map_of pending i \<noteq> None \<and> set order \<subseteq> insert i (set rest) \<union> {j. map_of pending j = None}"
  unfolding drop_settled_def by (induction order) (auto split: if_splits)

lemma pop_next_pending:
  assumes "pop_next_pending_eviction_id pending order = Some (i, rest)"
  shows "map_of pending i \<noteq> None"
    and "fst ` set pending \<subseteq> set order \<Longrightarrow> fst ` set pending - {i} \<subseteq> set rest"
proof -
  let ?order = "drop_settled pending order"
  have keep: "fst ` set pending - {i} \<subseteq> set rest"
    if "set ?order \<subseteq> insert i (set rest) \<union> {j. map_of pending j = None}" "fst ` set pending \<subseteq> set order"
  proof
    fix j assume j: "j \<in> fst ` set pending - {i}"
    then have "map_of pending j \<noteq> None" by (simp add: map_of_eq_None_iff)
    moreover have "j \<in> set ?order" using set_drop_settled [OF \<open>map_of pending j \<noteq> None\<close>] j that(2) by blast
    ultimately show "j \<in> set rest" using that(1) j by auto
  qed
  let ?picks = "\<lambda>Q i. case map_of pending i of Some r \<Rightarrow> Q r | None \<Rightarrow> False"
  have picked: "map_of pending i \<noteq> None \<and> (fst ` set pending \<subseteq> set order \<longrightarrow> fst ` set pending - {i} \<subseteq> set rest)"
    if "remove_first (?picks Q) ?order = Some (i, rest)" for Q
    using remove_first_Some [OF that] keep by (auto split: option.splits)
  have front: "map_of pending i \<noteq> None \<and> (fst ` set pending \<subseteq> set order \<longrightarrow> fst ` set pending - {i} \<subseteq> set rest)"
    if "drop_settled pending ?order = i # rest"
    using drop_settled_Cons [OF that] keep by auto
  have exhausted: "fst ` set pending \<inter> set order = {}" if "drop_settled pending ?order = []"
    using that set_drop_settled [of pending _ "?order"] set_drop_settled [of pending _ order]
    by (auto simp: map_of_eq_None_iff)
  have "map_of pending i \<noteq> None \<and> (fst ` set pending \<subseteq> set order \<longrightarrow> fst ` set pending - {i} \<subseteq> set rest)"
    using assms picked front exhausted
    by (auto simp: pop_next_pending_eviction_id_def Let_def split: option.splits list.splits prod.splits)
  then show "map_of pending i \<noteq> None" "fst ` set pending \<subseteq> set order \<Longrightarrow> fst ` set pending - {i} \<subseteq> set rest" by blast+
qed

text \<open>The loop of \<open>evict_pending_if_needed\<close>; each turn takes an entry out of the table.\<close>

function evict_loop :: "ring_inner \<Rightarrow> ring_inner" where
  "evict_loop r =
     (if length (rg_pending r) < rg_pending_max r then r
      else
        (case pop_next_pending_eviction_id (rg_pending r) (rg_order r) of
           None \<Rightarrow> r
         | Some (old, rest) \<Rightarrow>
             (case map_of (rg_pending r) old of
                None \<Rightarrow> evict_loop (r\<lparr>rg_order := rest\<rparr>)
              | Some x \<Rightarrow>
                  evict_loop (ring_push (evicted_record x)
                    (r\<lparr>rg_pending := hash_remove old (rg_pending r), rg_order := rest,
                       rg_pending_evicted := rg_pending_evicted r + 1\<rparr>)))))"
  by pat_completeness auto

lemma ring_push_fields [simp]:
  "rg_pending (ring_push x r) = rg_pending r" "rg_order (ring_push x r) = rg_order r"
  "rg_pending_max (ring_push x r) = rg_pending_max r" "rg_cap (ring_push x r) = rg_cap r"
  by (simp_all add: ring_push_def Let_def split: list.split)

lemma hash_remove_shorter: "map_of xs k \<noteq> None \<Longrightarrow> length (hash_remove k xs) < length xs"
  by (induction xs) (auto simp: hash_remove_def less_Suc_eq_le)

termination evict_loop
  by (relation "measure (\<lambda>r. length (rg_pending r))")
    (auto dest: pop_next_pending(1) simp: hash_remove_shorter)

declare evict_loop.simps [simp del]

definition evict_pending_if_needed :: "ring_inner \<Rightarrow> ring_inner" where
  "evict_pending_if_needed r =
     evict_loop (r\<lparr>rg_order := trim_order (rg_pending_max r) (rg_pending r) (rg_order r)\<rparr>)"

definition entry_or_init_bounded :: "string \<Rightarrow> string \<Rightarrow> ring_inner \<Rightarrow> ring_inner" where
  "entry_or_init_bounded now i r =
     (if map_of (rg_pending r) i \<noteq> None then r
      else (let r1 = evict_pending_if_needed r
            in r1\<lparr>rg_order := rg_order r1 @ [i], rg_pending := hash_insert i (placeholder now i) (rg_pending r1)\<rparr>))"

text \<open>The change of an entry through the reference that \<open>entry_or_init_bounded\<close> returns.\<close>

definition change_entry :: "string \<Rightarrow> (recording \<Rightarrow> recording) \<Rightarrow> ring_inner \<Rightarrow> ring_inner" where
  "change_entry i f r = (case map_of (rg_pending r) i of
     Some x \<Rightarrow> r\<lparr>rg_pending := hash_insert i (f x) (rg_pending r)\<rparr>
   | None \<Rightarrow> r)"

definition finalize :: "string \<Rightarrow> ring_inner \<Rightarrow> ring_inner" where
  "finalize i r = (case map_of (rg_pending r) i of
     Some x \<Rightarrow>
       (if ready x
        then (let pending = hash_remove i (rg_pending r)
              in ring_push
                (if rec_exchanges x \<noteq> [] \<or> rec_transport_closed x then x\<lparr>rec_complete := i \<notin> rg_inconsistent r\<rparr> else x)
                (r\<lparr>rg_pending := pending, rg_order := trim_order (rg_pending_max r) pending (rg_order r)\<rparr>))
        else r)
   | None \<Rightarrow> r)"

definition mark_inconsistent :: "string \<Rightarrow> ring_inner \<Rightarrow> ring_inner" where
  "mark_inconsistent i r = r\<lparr>rg_inconsistent := insert i (rg_inconsistent r)\<rparr>"

definition set_input :: "input_record \<Rightarrow> string \<Rightarrow> string \<Rightarrow> recording \<Rightarrow> recording" where
  "set_input input provider model_id x =
     x\<lparr>rec_input := input,
       rec_provider := (if pv_provider (rec_provider x) = [] then provider_from_model provider model_id else rec_provider x)\<rparr>"

definition ring_record_input ::
  "string \<Rightarrow> string \<Rightarrow> language_model_message list \<Rightarrow> json \<Rightarrow> json \<Rightarrow> string \<Rightarrow> string \<Rightarrow> ring_inner \<Rightarrow> ring_inner" where
  "ring_record_input now i prompt options settings provider model_id r =
     change_entry i (set_input (input_from_call_options prompt options settings) provider model_id)
       (entry_or_init_bounded now i r)"

definition ring_record_decision_input :: "string \<Rightarrow> string \<Rightarrow> json \<Rightarrow> string \<Rightarrow> string \<Rightarrow> ring_inner \<Rightarrow> ring_inner" where
  "ring_record_decision_input now i options provider model_id r =
     change_entry i (set_input (input_from_decision_options options) provider model_id) (entry_or_init_bounded now i r)"

definition ring_record_session :: "string \<Rightarrow> string \<Rightarrow> string \<Rightarrow> u32 \<Rightarrow> ring_inner \<Rightarrow> ring_inner" where
  "ring_record_session now i session_id step r =
     change_entry i (\<lambda>x. x\<lparr>rec_session_id := Some session_id, rec_step := Some step\<rparr>) (entry_or_init_bounded now i r)"

definition ring_record_provider :: "string \<Rightarrow> string \<Rightarrow> provider_record \<Rightarrow> ring_inner \<Rightarrow> ring_inner" where
  "ring_record_provider now i snapshot r =
     change_entry i (\<lambda>x. x\<lparr>rec_provider := snapshot\<rparr>) (entry_or_init_bounded now i r)"

definition ring_record_exchange :: "string \<Rightarrow> string \<Rightarrow> http_exchange \<Rightarrow> ring_inner \<Rightarrow> ring_inner" where
  "ring_record_exchange now i exchange r =
     (let r1 = entry_or_init_bounded now i r;
          twice = (case map_of (rg_pending r1) i of Some x \<Rightarrow> fst (insert_exchange exchange x) | None \<Rightarrow> False);
          r2 = change_entry i (\<lambda>x. snd (insert_exchange exchange x)) r1
      in finalize i (if twice then mark_inconsistent i r2 else r2))"

definition ring_record_exchange_update ::
  "string \<Rightarrow> string \<Rightarrow> u32 \<Rightarrow> u32 \<Rightarrow> response_record \<Rightarrow> string option \<Rightarrow> ring_inner \<Rightarrow> ring_inner" where
  "ring_record_exchange_update now i attempt idx response error r =
     (let r1 = entry_or_init_bounded now i r;
          patched = (case map_of (rg_pending r1) i of
            Some x \<Rightarrow> fst (apply_exchange_update attempt idx response error x) = Patched | None \<Rightarrow> False);
          r2 = change_entry i (\<lambda>x. snd (apply_exchange_update attempt idx response error x)) r1
      in finalize i (if patched then r2 else mark_inconsistent i r2))"

definition ring_record_outcome :: "string \<Rightarrow> string \<Rightarrow> outcome_record \<Rightarrow> ring_inner \<Rightarrow> ring_inner" where
  "ring_record_outcome now i outcome r =
     finalize i (change_entry i (\<lambda>x. x\<lparr>rec_outcome := redacted_outcome outcome\<rparr>) (entry_or_init_bounded now i r))"

definition ring_record_transport_closed :: "string \<Rightarrow> ring_inner \<Rightarrow> ring_inner" where
  "ring_record_transport_closed i r =
     (if map_of (rg_pending r) i \<noteq> None
      then finalize i (change_entry i (\<lambda>x. x\<lparr>rec_transport_closed := True\<rparr>) r)
      else r)"

definition flush_one :: "string \<Rightarrow> ring_inner \<Rightarrow> ring_inner" where
  "flush_one i r = (case map_of (rg_pending r) i of
     Some x \<Rightarrow> ring_push (x\<lparr>rec_complete := i \<notin> rg_inconsistent r\<rparr>) (r\<lparr>rg_pending := hash_remove i (rg_pending r)\<rparr>)
   | None \<Rightarrow> r)"

definition ring_flush :: "string list \<Rightarrow> ring_inner \<Rightarrow> ring_inner" where
  "ring_flush ids r = fold flush_one ids r"

definition ready_ids :: "ring_inner \<Rightarrow> string set" where
  "ready_ids r = {i. case map_of (rg_pending r) i of Some x \<Rightarrow> ready x | None \<Rightarrow> False}"

datatype ring_event =
  RecordInput string "language_model_message list" json json string string
| RecordDecisionInput string json string string
| RecordSession string string u32
| RecordProvider string provider_record
| RecordExchange string http_exchange
| RecordExchangeUpdate string u32 u32 response_record "string option"
| RecordOutcome string outcome_record
| RecordTransportClosed string
| RecorderFlush "string list"
| RecorderClear

fun ring_apply :: "string \<Rightarrow> ring_event \<Rightarrow> ring_inner \<Rightarrow> ring_inner" where
  "ring_apply now (RecordInput i prompt options settings provider model_id) r =
     ring_record_input now i prompt options settings provider model_id r"
| "ring_apply now (RecordDecisionInput i options provider model_id) r = ring_record_decision_input now i options provider model_id r"
| "ring_apply now (RecordSession i session_id step) r = ring_record_session now i session_id step r"
| "ring_apply now (RecordProvider i snapshot) r = ring_record_provider now i snapshot r"
| "ring_apply now (RecordExchange i exchange) r = ring_record_exchange now i exchange r"
| "ring_apply now (RecordExchangeUpdate i attempt idx response error) r =
     ring_record_exchange_update now i attempt idx response error r"
| "ring_apply now (RecordOutcome i outcome) r = ring_record_outcome now i outcome r"
| "ring_apply now (RecordTransportClosed i) r = ring_record_transport_closed i r"
| "ring_apply now (RecorderFlush ids) r = ring_flush ids r"
| "ring_apply now RecorderClear r = ring_clear r"

text \<open>A step is a method call at a time; the keys a flush collects are those of the ready entries, in any order.\<close>

inductive ring_step :: "ring_inner \<Rightarrow> string \<times> ring_event \<Rightarrow> ring_inner \<Rightarrow> bool" where
  "(case ev of RecorderFlush ids \<Rightarrow> distinct ids \<and> set ids = ready_ids r | _ \<Rightarrow> True) \<Longrightarrow>
   ring_step r (now, ev) (ring_apply now ev r)"

inductive_simps ring_step_simps: "ring_step r (now, ev) r'"

section \<open>The invariant\<close>

definition record_ok :: "string \<Rightarrow> recording \<Rightarrow> bool" where
  "record_ok i x \<longleftrightarrow> rec_call_id x = i \<and> distinct (map ex_key (rec_exchanges x)) \<and> no_secrets (in_options (rec_input x)) \<and>
     pred_option no_secrets (oc_decision_result (rec_outcome x)) \<and> pred_option no_secrets (oc_error_value (rec_outcome x))"

definition kept_record :: "recording \<Rightarrow> bool" where
  "kept_record x \<longleftrightarrow> record_ok (rec_call_id x) x \<and> oc_status (rec_outcome x) \<noteq> StatusPending \<and> (rec_complete x \<longrightarrow> ready x)"

definition ring_core :: "ring_inner \<Rightarrow> bool" where
  "ring_core r \<longleftrightarrow> 0 < rg_cap r \<and> rg_pending_max r = ring_pending_max (rg_cap r) \<and>
     distinct (map fst (rg_pending r)) \<and> fst ` set (rg_pending r) \<subseteq> set (rg_order r) \<and>
     length (rg_pending r) \<le> rg_pending_max r \<and> length (rg_completed r) \<le> rg_cap r \<and>
     (\<forall>(i, x) \<in> set (rg_pending r). record_ok i x) \<and> list_all kept_record (rg_completed r)"

text \<open>The ids marked inconsistent belong to calls the recorder holds, or to one that is on its way to the ring.\<close>

definition marks_ok :: "string set \<Rightarrow> ring_inner \<Rightarrow> bool" where
  "marks_ok S r \<longleftrightarrow> rg_inconsistent r \<subseteq> fst ` set (rg_pending r) \<union> rec_call_id ` set (rg_completed r) \<union> S"

definition ring_ok :: "ring_inner \<Rightarrow> bool" where
  "ring_ok r \<longleftrightarrow> ring_core r \<and> marks_ok {} r"

lemma pending_member: "ring_core r \<Longrightarrow> map_of (rg_pending r) i = Some x \<Longrightarrow> record_ok i x"
  by (auto simp: ring_core_def dest: map_of_SomeD)

lemma ready_not_pending: "ready x \<Longrightarrow> oc_status (rec_outcome x) \<noteq> StatusPending"
  by (simp add: ready_def)

lemma ready_complete [simp]: "ready (x\<lparr>rec_complete := b\<rparr>) = ready x"
  by (simp add: ready_def)

lemma record_ok_complete [simp]: "record_ok i (x\<lparr>rec_complete := b\<rparr>) = record_ok i x"
  by (simp add: record_ok_def)

lemma kept_ready: "record_ok i x \<Longrightarrow> ready x \<Longrightarrow> kept_record x \<and> kept_record (x\<lparr>rec_complete := b\<rparr>)"
  by (auto simp: kept_record_def record_ok_def ready_not_pending)

lemma kept_evicted: "record_ok i x \<Longrightarrow> kept_record (evicted_record x)"
  by (auto simp: kept_record_def record_ok_def evicted_record_def)

lemma ring_push_core:
  assumes "ring_core r" and "kept_record x"
  shows "ring_core (ring_push x r)"
  using assms by (cases "rg_completed r") (auto simp: ring_core_def ring_push_def Let_def)

lemma ring_push_marks:
  assumes "marks_ok {rec_call_id x} r" and "0 < rg_cap r"
  shows "marks_ok {} (ring_push x r)"
proof (cases "rg_cap r \<le> length (rg_completed r)")
  case True
  then obtain e rest where c: "rg_completed r = e # rest" using assms(2) by (cases "rg_completed r") auto
  have "list_ex (\<lambda>y. rec_call_id y = rec_call_id e) rest \<longleftrightarrow> rec_call_id e \<in> rec_call_id ` set rest"
    by (induction rest) auto
  then show ?thesis using assms(1) True
    by (auto simp: marks_ok_def ring_push_def Let_def c map_of_eq_None_iff)
next
  case False
  then show ?thesis using assms(1) by (auto simp: marks_ok_def ring_push_def Let_def)
qed

lemma ring_push_ok: "ring_core r \<Longrightarrow> marks_ok {rec_call_id x} r \<Longrightarrow> kept_record x \<Longrightarrow> ring_ok (ring_push x r)"
  using ring_push_core [of r x] ring_push_marks [of x r] by (simp add: ring_ok_def ring_core_def)

text \<open>An entry leaves the table for the ring.\<close>

lemma ring_take_core:
  assumes "ring_core r" and "fst ` set (rg_pending r) - {i} \<subseteq> set order"
  shows "ring_core (r\<lparr>rg_pending := hash_remove i (rg_pending r), rg_order := order\<rparr>)"
proof -
  have "fst ` set (hash_remove i (rg_pending r)) \<subseteq> set order" using assms(2) by (auto simp: hash_remove_def)
  then show ?thesis
    using assms(1) set_hash_remove [of i "rg_pending r"] by (auto simp: ring_core_def length_hash_remove distinct_hash_remove)
qed

lemma ring_take_marks: "marks_ok {} r \<Longrightarrow> marks_ok {i} (r\<lparr>rg_pending := hash_remove i (rg_pending r), rg_order := order\<rparr>)"
  by (force simp: marks_ok_def hash_remove_def)

lemma pending_max_pos: "ring_core r \<Longrightarrow> 0 < rg_pending_max r"
  by (simp add: ring_core_def ring_pending_max_def)

lemma pop_None: "pop_next_pending_eviction_id pending order = None \<Longrightarrow> pending = []"
  by (auto simp: pop_next_pending_eviction_id_def Let_def split: option.splits list.splits)

lemma evict_loop_ok: "ring_ok r \<Longrightarrow> ring_ok (evict_loop r) \<and> length (rg_pending (evict_loop r)) < rg_pending_max (evict_loop r)"
proof (induction r rule: evict_loop.induct)
  case (1 r)
  show ?case
  proof (cases "length (rg_pending r) < rg_pending_max r")
    case True
    then show ?thesis using "1.prems" by (simp add: evict_loop.simps)
  next
    case False
    then obtain old rest where pop: "pop_next_pending_eviction_id (rg_pending r) (rg_order r) = Some (old, rest)"
      using pending_max_pos [of r] "1.prems" by (cases "pop_next_pending_eviction_id (rg_pending r) (rg_order r)")
        (auto simp: ring_ok_def dest: pop_None)
    then obtain x where x: "map_of (rg_pending r) old = Some x" using pop_next_pending(1) by blast
    let ?t = "r\<lparr>rg_pending := hash_remove old (rg_pending r), rg_order := rest\<rparr>"
    let ?u = "?t\<lparr>rg_pending_evicted := rg_pending_evicted r + 1\<rparr>"
    have core: "ring_core r" and marks: "marks_ok {} r" using "1.prems" by (simp_all add: ring_ok_def)
    have "fst ` set (rg_pending r) - {old} \<subseteq> set rest"
      using pop_next_pending(2) [OF pop] core by (simp add: ring_core_def)
    then have "ring_core ?t" "marks_ok {old} ?t" using ring_take_core [OF core] ring_take_marks [OF marks] by blast+
    then have u: "ring_core ?u" "marks_ok {old} ?u" by (simp_all add: ring_core_def marks_ok_def)
    have kept: "kept_record (evicted_record x)" by (rule kept_evicted [OF pending_member [OF core x]])
    have "rec_call_id (evicted_record x) = old"
      using pending_member [OF core x] by (simp add: record_ok_def evicted_record_def)
    then have "ring_ok (ring_push (evicted_record x) ?u)"
      using ring_push_ok [OF u(1) _ kept] u(2) by simp
    moreover have "evict_loop r = evict_loop (ring_push (evicted_record x) ?u)"
      using False pop x by (simp add: evict_loop.simps [of r])
    ultimately show ?thesis using "1.IH"(2) [OF False pop refl x] by simp
  qed
qed

lemma trim_order_keeps: "map_of pending i \<noteq> None \<Longrightarrow> i \<in> set order \<Longrightarrow> i \<in> set (trim_order pm pending order)"
  using set_drop_settled [of pending i order] by (simp add: trim_order_def Let_def)

lemma trim_order_keys: "fst ` set pending \<subseteq> set order \<Longrightarrow> fst ` set pending \<subseteq> set (trim_order pm pending order)"
  using trim_order_keeps [of pending _ order pm] by (auto simp: map_of_eq_None_iff)

lemma entry_or_init_ok:
  assumes "ring_ok r"
  shows "ring_ok (entry_or_init_bounded now i r) \<and> map_of (rg_pending (entry_or_init_bounded now i r)) i \<noteq> None"
proof (cases "map_of (rg_pending r) i")
  case None
  let ?r = "evict_pending_if_needed r"
  have "ring_ok (r\<lparr>rg_order := trim_order (rg_pending_max r) (rg_pending r) (rg_order r)\<rparr>)"
    using assms trim_order_keys [of "rg_pending r" "rg_order r" "rg_pending_max r"]
    by (simp add: ring_ok_def ring_core_def marks_ok_def)
  then have ok: "ring_ok ?r" "length (rg_pending ?r) < rg_pending_max ?r"
    using evict_loop_ok by (simp_all add: evict_pending_if_needed_def)
  have "record_ok i (placeholder now i)"
    by (simp add: record_ok_def placeholder_def new_recording_def default_outcome_def)
  then have "ring_ok (?r\<lparr>rg_order := rg_order ?r @ [i], rg_pending := hash_insert i (placeholder now i) (rg_pending ?r)\<rparr>)"
    using ok set_hash_insert [of i "placeholder now i" "rg_pending ?r"]
    by (auto simp: ring_ok_def ring_core_def marks_ok_def length_hash_insert)
  then show ?thesis using None by (simp add: entry_or_init_bounded_def Let_def)
qed (use assms in \<open>simp add: entry_or_init_bounded_def\<close>)

lemma change_entry_ok:
  assumes "ring_ok r" and "\<And>x. record_ok i x \<Longrightarrow> record_ok i (f x)"
  shows "ring_ok (change_entry i f r)"
proof (cases "map_of (rg_pending r) i")
  case (Some x)
  then have "record_ok i (f x)" using assms(2) [OF pending_member [OF _ Some]] assms(1) by (simp add: ring_ok_def)
  moreover have "i \<in> fst ` set (rg_pending r)" using Some by (force dest: map_of_SomeD)
  ultimately show ?thesis
    using assms(1) Some set_hash_insert [of i "f x" "rg_pending r"]
    by (auto simp: change_entry_def ring_ok_def ring_core_def marks_ok_def length_hash_insert)
qed (use assms in \<open>simp add: change_entry_def\<close>)

lemma finalize_ok:
  assumes "ring_ok r"
  shows "ring_ok (finalize i r)"
proof (cases "map_of (rg_pending r) i")
  case (Some x)
  show ?thesis
  proof (cases "ready x")
    case True
    let ?pending = "hash_remove i (rg_pending r)"
    let ?t = "r\<lparr>rg_pending := ?pending, rg_order := trim_order (rg_pending_max r) ?pending (rg_order r)\<rparr>"
    let ?x = "if rec_exchanges x \<noteq> [] \<or> rec_transport_closed x then x\<lparr>rec_complete := i \<notin> rg_inconsistent r\<rparr> else x"
    have core: "ring_core r" and marks: "marks_ok {} r" using assms by (simp_all add: ring_ok_def)
    have "fst ` set (rg_pending r) - {i} \<subseteq> set (trim_order (rg_pending_max r) ?pending (rg_order r))"
    proof
      fix j assume j: "j \<in> fst ` set (rg_pending r) - {i}"
      then have "map_of ?pending j \<noteq> None" by (auto simp: map_of_eq_None_iff)
      moreover have "j \<in> set (rg_order r)" using j core by (auto simp: ring_core_def)
      ultimately show "j \<in> set (trim_order (rg_pending_max r) ?pending (rg_order r))" by (rule trim_order_keeps)
    qed
    then have t: "ring_core ?t" "marks_ok {i} ?t" using ring_take_core [OF core] ring_take_marks [OF marks] by blast+
    have ok: "record_ok i x" by (rule pending_member [OF core Some])
    then have "kept_record ?x" and "rec_call_id ?x = i" using kept_ready [OF ok True] by (simp_all add: record_ok_def)
    then have "ring_ok (ring_push ?x ?t)" using ring_push_ok [OF t(1), of ?x] t(2) by metis
    then show ?thesis using Some True by (simp add: finalize_def Let_def)
  qed (use assms Some in \<open>simp add: finalize_def\<close>)
qed (use assms in \<open>simp add: finalize_def\<close>)

section \<open>Every method keeps it\<close>

lemma merge_into_keys: "merge_into e es = Some es' \<Longrightarrow> map ex_key es' = map ex_key es"
  by (induction es arbitrary: es') (auto simp: merge_exchange_def ex_key_def split: if_splits)

lemma merge_into_None: "merge_into e es = None \<Longrightarrow> ex_key e \<notin> set (map ex_key es)"
  by (induction es) (auto simp: ex_key_def split: if_splits)

lemma record_ok_insert_exchange: "record_ok i x \<Longrightarrow> record_ok i (snd (insert_exchange e x))"
  using merge_into_keys [of e "rec_exchanges x"] merge_into_None [of e "rec_exchanges x"]
  by (auto simp: insert_exchange_def record_ok_def split: option.splits)

text \<open>With one exchange for each key, an update never is ambiguous.\<close>

lemma apply_exchange_update_cases:
  assumes "distinct (map ex_key (rec_exchanges x))"
  obtains (missing) "(attempt, idx) \<notin> ex_key ` set (rec_exchanges x)"
      "apply_exchange_update attempt idx response error x = (NotFound, x)"
  | (patched) j where "j < length (rec_exchanges x)" "ex_key (rec_exchanges x ! j) = (attempt, idx)"
      "apply_exchange_update attempt idx response error x =
         (Patched, x\<lparr>rec_exchanges := (rec_exchanges x)[j := patch_exchange response error (rec_exchanges x ! j)]\<rparr>)"
proof -
  let ?es = "rec_exchanges x"
  let ?hits = "filter (\<lambda>i. ex_key (?es ! i) = (attempt, idx)) [0..<length ?es]"
  have unique: "i = j" if "i \<in> set ?hits" "j \<in> set ?hits" for i j
    using that nth_eq_iff_index_eq [OF assms, of i j] by simp
  show ?thesis
  proof (cases ?hits)
    case Nil
    then have "(attempt, idx) \<notin> ex_key ` set ?es"
      by (auto simp: filter_empty_conv in_set_conv_nth) (metis atLeastLessThan_iff le0)
    then show ?thesis using missing Nil by (simp add: apply_exchange_update_def)
  next
    case (Cons j rest)
    have "distinct ?hits" by simp
    then have "rest = []" using unique [of j] Cons by (cases rest) auto
    have "j \<in> set ?hits" unfolding Cons by simp
    then have "j < length ?es" "ex_key (?es ! j) = (attempt, idx)" by simp_all
    then show ?thesis using patched [of j] Cons \<open>rest = []\<close> by (simp add: apply_exchange_update_def)
  qed
qed

lemma patch_keys: "j < length es \<Longrightarrow> map ex_key (es[j := patch_exchange response error (es ! j)]) = map ex_key es"
  by (rule nth_equalityI) (auto simp: nth_list_update ex_key_def patch_exchange_def)

lemma record_ok_update:
  assumes "record_ok i x"
  shows "record_ok i (snd (apply_exchange_update attempt idx response error x))"
proof -
  have keys: "distinct (map ex_key (rec_exchanges x))" using assms by (simp add: record_ok_def)
  show ?thesis using assms
    by (cases rule: apply_exchange_update_cases [OF keys, of attempt idx response error]) (auto simp: record_ok_def patch_keys)
qed

lemma record_ok_set_input: "record_ok i x \<Longrightarrow> no_secrets (in_options input) \<Longrightarrow> record_ok i (set_input input p m x)"
  by (simp add: record_ok_def set_input_def)

lemma record_ok_outcome: "record_ok i x \<Longrightarrow> record_ok i (x\<lparr>rec_outcome := redacted_outcome oc\<rparr>)"
  by (cases "oc_decision_result oc"; cases "oc_error_value oc") (simp_all add: record_ok_def redacted_outcome_def redact_no_secrets)

lemma record_ok_frame [simp]:
  "record_ok i (x\<lparr>rec_session_id := a, rec_step := b\<rparr>) = record_ok i x" "record_ok i (x\<lparr>rec_provider := p\<rparr>) = record_ok i x"
  "record_ok i (x\<lparr>rec_transport_closed := c\<rparr>) = record_ok i x"
  by (simp_all add: record_ok_def)

lemma change_new_entry_ok:
  "ring_ok r \<Longrightarrow> (\<And>x. record_ok i x \<Longrightarrow> record_ok i (f x)) \<Longrightarrow> ring_ok (change_entry i f (entry_or_init_bounded now i r))"
  using change_entry_ok entry_or_init_ok by blast

lemma change_entry_present: "map_of (rg_pending r) i \<noteq> None \<Longrightarrow> map_of (rg_pending (change_entry i f r)) i \<noteq> None"
  by (auto simp: change_entry_def)

lemma mark_inconsistent_ok: "ring_ok r \<Longrightarrow> map_of (rg_pending r) i \<noteq> None \<Longrightarrow> ring_ok (mark_inconsistent i r)"
  by (auto simp: ring_ok_def ring_core_def marks_ok_def mark_inconsistent_def map_of_eq_None_iff)

lemma marked_change_ok:
  assumes "ring_ok r" and "\<And>x. record_ok i x \<Longrightarrow> record_ok i (f x)"
  shows "ring_ok (mark_inconsistent i (change_entry i f (entry_or_init_bounded now i r)))"
  using assms by (intro mark_inconsistent_ok change_new_entry_ok change_entry_present) (simp_all add: entry_or_init_ok)

lemma ring_record_exchange_ok: "ring_ok r \<Longrightarrow> ring_ok (ring_record_exchange now i e r)"
  by (simp add: ring_record_exchange_def Let_def finalize_ok marked_change_ok change_new_entry_ok record_ok_insert_exchange)

lemma ring_record_exchange_update_ok: "ring_ok r \<Longrightarrow> ring_ok (ring_record_exchange_update now i attempt idx response error r)"
  by (simp add: ring_record_exchange_update_def Let_def finalize_ok marked_change_ok change_new_entry_ok record_ok_update)

lemma flush_one_ok:
  assumes "ring_ok r" and "i \<in> ready_ids r"
  shows "ring_ok (flush_one i r)" and "ready_ids (flush_one i r) = ready_ids r - {i}"
proof -
  obtain x where x: "map_of (rg_pending r) i = Some x" "ready x" using assms(2) by (auto simp: ready_ids_def split: option.splits)
  let ?t = "r\<lparr>rg_pending := hash_remove i (rg_pending r)\<rparr>"
  let ?x = "x\<lparr>rec_complete := i \<notin> rg_inconsistent r\<rparr>"
  have core: "ring_core r" and marks: "marks_ok {} r" using assms by (simp_all add: ring_ok_def)
  have "fst ` set (rg_pending r) - {i} \<subseteq> set (rg_order r)" using core by (auto simp: ring_core_def)
  then have t: "ring_core ?t" "marks_ok {i} ?t"
    using ring_take_core [OF core, of i "rg_order r"] ring_take_marks [OF marks, of i "rg_order r"] by simp_all
  have ok: "record_ok i x" by (rule pending_member [OF core x(1)])
  then have "kept_record ?x" "rec_call_id ?x = i" using kept_ready [OF ok x(2)] by (simp_all add: record_ok_def)
  then have "ring_ok (ring_push ?x ?t)" using ring_push_ok [OF t(1), of ?x] t(2) by metis
  then show "ring_ok (flush_one i r)" using x by (simp add: flush_one_def)
  show "ready_ids (flush_one i r) = ready_ids r - {i}" using x by (auto simp: flush_one_def ready_ids_def)
qed

lemma ring_flush_ok: "ring_ok r \<Longrightarrow> distinct ids \<Longrightarrow> set ids \<subseteq> ready_ids r \<Longrightarrow> ring_ok (ring_flush ids r)"
  unfolding ring_flush_def by (induction ids arbitrary: r) (auto simp: flush_one_ok subset_Diff_insert)

lemma ring_apply_ok:
  assumes ok: "ring_ok r" and ids: "case ev of RecorderFlush ids \<Rightarrow> distinct ids \<and> set ids = ready_ids r | _ \<Rightarrow> True"
  shows "ring_ok (ring_apply now ev r)"
  using assms
proof (cases ev)
  case RecorderClear
  then show ?thesis using ok by (auto simp: ring_clear_def ring_ok_def ring_core_def marks_ok_def)
next
  case (RecordTransportClosed i)
  then show ?thesis using ok by (auto simp: ring_record_transport_closed_def intro!: finalize_ok change_entry_ok)
qed (auto simp: ring_record_input_def ring_record_decision_input_def ring_record_session_def ring_record_provider_def
      ring_record_outcome_def input_from_call_options_def input_from_decision_options_def redact_no_secrets
      ring_record_exchange_ok ring_record_exchange_update_ok
      intro!: finalize_ok change_new_entry_ok record_ok_set_input record_ok_outcome ring_flush_ok)

text \<open>The bounds are fixed at construction.\<close>

lemma evict_loop_cap: "rg_cap (evict_loop r) = rg_cap r"
  by (induction r rule: evict_loop.induct) (subst evict_loop.simps, simp split: option.split)

lemma ring_cap_fields [simp]:
  "rg_cap (change_entry i f r) = rg_cap r" "rg_cap (finalize i r) = rg_cap r" "rg_cap (mark_inconsistent i r) = rg_cap r"
  "rg_cap (entry_or_init_bounded now i r) = rg_cap r" "rg_cap (flush_one i r) = rg_cap r"
  by (simp_all add: change_entry_def finalize_def mark_inconsistent_def entry_or_init_bounded_def flush_one_def Let_def
      evict_pending_if_needed_def evict_loop_cap split: option.split)

lemma ring_flush_cap: "rg_cap (ring_flush ids r) = rg_cap r"
  unfolding ring_flush_def by (induction ids arbitrary: r) simp_all

lemma ring_apply_cap: "rg_cap (ring_apply now ev r) = rg_cap r"
  by (cases ev) (simp_all add: ring_record_input_def ring_record_decision_input_def ring_record_session_def
      ring_record_provider_def ring_record_exchange_def ring_record_exchange_update_def ring_record_outcome_def
      ring_record_transport_closed_def ring_flush_cap ring_clear_def Let_def)

interpretation rr: invariant_system ring_step "\<lambda>r. ring_ok r \<and> rg_cap r = cap" for cap
  by unfold_locales (auto elim!: ring_step.cases simp: ring_apply_ok ring_apply_cap)

lemma ring_with_capacity_ok: "ring_with_capacity cap = Some r \<Longrightarrow> ring_ok r \<and> rg_cap r = cap"
  by (auto simp: ring_with_capacity_def ring_ok_def ring_core_def marks_ok_def split: if_splits)

lemma ring_run_ok: "ring_with_capacity cap = Some r \<Longrightarrow> run ring_step r evs r' \<Longrightarrow> ring_ok r' \<and> rg_cap r' = cap"
  using rr.inv_run [of r evs r' cap] ring_with_capacity_ok [of cap r] by simp

fun is_flush :: "ring_event \<Rightarrow> bool" where
  "is_flush (RecorderFlush _) = True" | "is_flush _ = False"

lemma run_ring_apply: "list_all (\<lambda>ev. \<not> is_flush ev) evs \<Longrightarrow> run ring_step r (map (Pair now) evs) (fold (ring_apply now) evs r)"
proof (induction evs arbitrary: r)
  case (Cons ev evs)
  then have "ring_step r (now, ev) (ring_apply now ev r)" by (cases ev) (simp_all add: ring_step_simps)
  then show ?case using Cons by (auto intro: run_Cons)
qed simp

text \<open>A call recorded with an input, a failed outcome and a closed transport.\<close>

definition demo_events :: "ring_event list" where
  "demo_events = [RecordInput ''c'' [LMSystem ''s'' None] (JObject [(''apiKey'', JString ''k'')]) JNull ''openai.chat'' ''m'',
     RecordOutcome ''c'' (default_outcome\<lparr>oc_status := StatusError\<rparr>), RecordTransportClosed ''c'']"

definition demo_ring :: ring_inner where
  "demo_ring = \<lparr>rg_cap = 1, rg_pending_max = 2, rg_order = [], rg_pending = [], rg_completed = [], rg_dropped = 0,
     rg_pending_evicted = 0, rg_inconsistent = {}\<rparr>"

lemma demo_ring_new: "ring_with_capacity 1 = Some demo_ring"
  by (simp add: ring_with_capacity_def demo_ring_def ring_pending_max_def usize_mul_def)

lemma demo_ring_run: "run ring_step demo_ring (map (Pair ''t'') demo_events) (fold (ring_apply ''t'') demo_events demo_ring)"
  by (rule run_ring_apply) (simp add: demo_events_def)

lemma demo_ring_completed:
  "\<exists>x. rg_completed (fold (ring_apply ''t'') demo_events demo_ring) = [x] \<and> rec_complete x \<and> rec_call_id x = ''c''"
  by (simp add: demo_events_def demo_ring_def ring_record_input_def ring_record_outcome_def ring_record_transport_closed_def
      entry_or_init_bounded_def evict_pending_if_needed_def evict_loop.simps trim_order_def drop_settled_def usize_mul_def
      change_entry_def finalize_def ready_def placeholder_def new_recording_def default_outcome_def set_input_def
      input_from_call_options_def redacted_outcome_def ring_push_def hash_remove_def Let_def)

text \<open>
  The in-memory recorder stays within its bounds, whatever is recorded and in whatever order: at most \<open>cap\<close>
  finished recordings, at most \<open>max 2 (2 * cap)\<close> unfinished ones, one for each call, and the calls marked as
  inconsistent are among those it holds.
\<close>

lemma ring_recorder_bounded:
  assumes "ring_with_capacity cap = Some r" and "run ring_step r evs r'"
  shows "length (rg_completed r') \<le> cap \<and> length (rg_pending r') \<le> max 2 (2 * cap) \<and>
    distinct (map fst (rg_pending r')) \<and>
    rg_inconsistent r' \<subseteq> fst ` set (rg_pending r') \<union> rec_call_id ` set (rg_completed r')"
  using ring_run_ok [OF assms]
  by (auto simp: ring_ok_def ring_core_def marks_ok_def ring_pending_max_def usize_mul_def)


lemma ring_recorder_bounded_witness:
  "\<exists>r r'. ring_with_capacity 1 = Some r \<and> run ring_step r (map (Pair ''t'') demo_events) r' \<and>
     length (rg_completed r') \<le> 1 \<and> length (rg_pending r') \<le> 2"
  using ring_recorder_bounded [OF demo_ring_new demo_ring_run] demo_ring_new demo_ring_run
  by (intro exI [of _ demo_ring] exI [of _ "fold (ring_apply ''t'') demo_events demo_ring"]) simp


end
