(* ===== verification/Outcome_Stream.thy ===== *)
theory Outcome_Stream
  imports Ring_Recorder Text_Stream
begin

text \<open>
  The observer of a stream's outcome (\<open>RecordingOutcomeStream\<close> of \<open>src/aimux-core/src/recording.rs\<close>) and what it
  leaves in a recorder. A poll of the wrapped stream is one step; the calls it makes on the recorder are its output,
  and the item itself is passed on unchanged. The JSON of errors, usage and finish reasons is a field of
  \<open>outcome_env\<close>.
\<close>

section \<open>The observer\<close>

record outcome_env =
  oe_error_value :: "aimux_error \<Rightarrow> json option"
  oe_usage_value :: "language_model_usage \<Rightarrow> json option"
  oe_reason_text :: "finish_reason_unified \<Rightarrow> string option"

definition outcome_success :: "outcome_env \<Rightarrow> finish_reason_unified \<Rightarrow> language_model_usage \<Rightarrow> outcome_record" where
  "outcome_success env reason u = default_outcome\<lparr>oc_status := StatusSuccess, oc_finish_reason := oe_reason_text env reason,
     oc_usage := oe_usage_value env u\<rparr>"

definition outcome_from_error :: "outcome_env \<Rightarrow> aimux_error \<Rightarrow> outcome_record" where
  "outcome_from_error env e = default_outcome\<lparr>oc_status := StatusError, oc_error := Some (show_error e),
     oc_error_value := oe_error_value env e\<rparr>"

datatype stream_outcome =
  OutcomeFinish finish_reason_unified language_model_usage
| OutcomeError aimux_error
| OutcomeOther

fun part_recording_outcome :: "stream_part \<Rightarrow> stream_outcome" where
  "part_recording_outcome (Finish r u md) = OutcomeFinish (unified r) (as_language_model_usage u)"
| "part_recording_outcome (PartError e) = OutcomeError e"
| "part_recording_outcome _ = OutcomeOther"

fun text_recording_outcome :: "text_stream_part \<Rightarrow> stream_outcome" where
  "text_recording_outcome (TFinish reason raw u) = OutcomeFinish reason u"
| "text_recording_outcome (TError e) = OutcomeError e"
| "text_recording_outcome _ = OutcomeOther"

datatype polled = PolledPart stream_outcome | PolledErr aimux_error | PolledEnd | PolledPending

record outcome_stream =
  os_call_id :: string
  os_recorded :: bool
  os_pending :: "outcome_record option"

definition new_outcome_stream :: "string \<Rightarrow> outcome_stream" where
  "new_outcome_stream i = \<lparr>os_call_id = i, os_recorded = False, os_pending = None\<rparr>"

definition record_outcome_once :: "outcome_record \<Rightarrow> outcome_stream \<Rightarrow> ring_event list \<times> outcome_stream" where
  "record_outcome_once oc s =
     (if os_recorded s then ([], s)
      else ([RecordOutcome (os_call_id s) oc, RecordTransportClosed (os_call_id s)], s\<lparr>os_recorded := True\<rparr>))"

text \<open>\<open>if !self.flush_pending() { self.record(&outcome) }\<close>\<close>

definition pending_or :: "outcome_record \<Rightarrow> outcome_stream \<Rightarrow> ring_event list \<times> outcome_stream" where
  "pending_or oc s = (case os_pending s of
     Some p \<Rightarrow> record_outcome_once p (s\<lparr>os_pending := None\<rparr>)
   | None \<Rightarrow> record_outcome_once oc s)"

definition hold_error :: "outcome_env \<Rightarrow> aimux_error \<Rightarrow> outcome_stream \<Rightarrow> outcome_stream" where
  "hold_error env e s =
     (if \<not> os_recorded s \<and> os_pending s = None then s\<lparr>os_pending := Some (outcome_from_error env e)\<rparr> else s)"

definition poll_outcome :: "outcome_env \<Rightarrow> polled \<Rightarrow> outcome_stream \<Rightarrow> ring_event list \<times> outcome_stream" where
  "poll_outcome env p s = (case p of
     PolledPart (OutcomeFinish reason u) \<Rightarrow>
       (case os_pending s of
          Some held \<Rightarrow> record_outcome_once (held\<lparr>oc_usage := oe_usage_value env u\<rparr>) (s\<lparr>os_pending := None\<rparr>)
        | None \<Rightarrow> record_outcome_once (outcome_success env reason u) s)
   | PolledPart (OutcomeError e) \<Rightarrow> ([], hold_error env e s)
   | PolledPart OutcomeOther \<Rightarrow> ([], s)
   | PolledErr e \<Rightarrow>
       (if is_recoverable_stream_error e then ([], hold_error env e s) else pending_or (outcome_from_error env e) s)
   | PolledEnd \<Rightarrow> pending_or (default_outcome\<lparr>oc_status := StatusIncomplete\<rparr>) s
   | PolledPending \<Rightarrow> ([], s))"

definition drop_outcome_stream :: "outcome_stream \<Rightarrow> ring_event list" where
  "drop_outcome_stream s =
     (if os_recorded s then [] else fst (pending_or (default_outcome\<lparr>oc_status := StatusCancelled\<rparr>) s))"

text \<open>The life of an observer: its polls, and the drop at the end.\<close>

fun observe_polls :: "outcome_env \<Rightarrow> polled list \<Rightarrow> outcome_stream \<Rightarrow> ring_event list" where
  "observe_polls env [] s = drop_outcome_stream s"
| "observe_polls env (p # ps) s = (case poll_outcome env p s of (evs, s') \<Rightarrow> evs @ observe_polls env ps s')"

section \<open>One outcome\<close>

text \<open>What decides the outcome of a stream: its first terminal item, and the first error before that.\<close>

fun held_error :: "polled \<Rightarrow> aimux_error option" where
  "held_error (PolledPart (OutcomeError e)) = Some e"
| "held_error (PolledErr e) = (if is_recoverable_stream_error e then Some e else None)"
| "held_error _ = None"

fun settles :: "polled \<Rightarrow> bool" where
  "settles (PolledPart (OutcomeFinish _ _)) = True"
| "settles (PolledErr e) = (\<not> is_recoverable_stream_error e)"
| "settles PolledEnd = True"
| "settles _ = False"

definition first_error :: "polled list \<Rightarrow> aimux_error option" where
  "first_error ps = (case List.map_filter held_error (takeWhile (\<lambda>p. \<not> settles p) ps) of [] \<Rightarrow> None | e # _ \<Rightarrow> Some e)"

definition settled_by :: "outcome_env \<Rightarrow> polled option \<Rightarrow> outcome_record option \<Rightarrow> outcome_record" where
  "settled_by env p held = (case p of
     Some (PolledPart (OutcomeFinish reason u)) \<Rightarrow>
       (case held of Some oc \<Rightarrow> oc\<lparr>oc_usage := oe_usage_value env u\<rparr> | None \<Rightarrow> outcome_success env reason u)
   | Some (PolledErr e) \<Rightarrow> (case held of Some oc \<Rightarrow> oc | None \<Rightarrow> outcome_from_error env e)
   | Some _ \<Rightarrow> (case held of Some oc \<Rightarrow> oc | None \<Rightarrow> default_outcome\<lparr>oc_status := StatusIncomplete\<rparr>)
   | None \<Rightarrow> (case held of Some oc \<Rightarrow> oc | None \<Rightarrow> default_outcome\<lparr>oc_status := StatusCancelled\<rparr>))"

definition final_outcome :: "outcome_env \<Rightarrow> polled list \<Rightarrow> outcome_record" where
  "final_outcome env ps = settled_by env (find settles ps) (map_option (outcome_from_error env) (first_error ps))"

lemma observe_recorded: "os_recorded s \<Longrightarrow> os_pending s = None \<Longrightarrow> observe_polls env ps s = []"
  by (induction ps)
    (auto simp: drop_outcome_stream_def poll_outcome_def hold_error_def pending_or_def record_outcome_once_def
      split: polled.split stream_outcome.split)

lemma first_error_Cons:
  "first_error (p # ps) = (if settles p then None else case held_error p of Some e \<Rightarrow> Some e | None \<Rightarrow> first_error ps)"
  by (simp add: first_error_def List.map_filter_simps split: option.split)

definition or_held :: "outcome_record option \<Rightarrow> outcome_record option \<Rightarrow> outcome_record option" where
  "or_held a b = (case a of Some oc \<Rightarrow> Some oc | None \<Rightarrow> b)"

lemma observe_fresh:
  "\<not> os_recorded s \<Longrightarrow> observe_polls env ps s =
     (let oc = settled_by env (find settles ps) (or_held (os_pending s) (map_option (outcome_from_error env) (first_error ps)))
      in [RecordOutcome (os_call_id s) oc, RecordTransportClosed (os_call_id s)])"
proof (induction ps arbitrary: s)
  case Nil
  then show ?case
    by (cases "os_pending s")
      (simp_all add: drop_outcome_stream_def pending_or_def record_outcome_once_def settled_by_def first_error_def
        List.map_filter_simps Let_def or_held_def)
next
  case (Cons p ps)
  show ?case
  proof (cases "settles p")
    case True
    define oc where "oc = settled_by env (Some p) (os_pending s)"
    obtain s' where s': "poll_outcome env p s = ([RecordOutcome (os_call_id s) oc, RecordTransportClosed (os_call_id s)], s')"
        "os_recorded s'" "os_pending s' = None"
      using True Cons.prems
      by (cases "os_pending s"; cases p rule: settles.cases)
        (auto simp: poll_outcome_def pending_or_def record_outcome_once_def settled_by_def oc_def)
    then show ?thesis
      using True by (simp add: observe_recorded first_error_Cons oc_def Let_def or_held_def split: option.split)
  next
    case False
    define s' where "s' = (case held_error p of Some e \<Rightarrow> hold_error env e s | None \<Rightarrow> s)"
    have "poll_outcome env p s = ([], s')"
      using False by (cases p rule: settles.cases) (simp_all add: poll_outcome_def s'_def)
    moreover have s': "\<not> os_recorded s'" "os_call_id s' = os_call_id s"
      "os_pending s' = or_held (os_pending s) (map_option (outcome_from_error env) (held_error p))"
      using Cons.prems by (simp_all add: s'_def hold_error_def or_held_def split: option.split)
    ultimately show ?thesis
      using Cons.IH [OF s'(1)] s' False by (simp add: first_error_Cons or_held_def split: option.split)
  qed
qed

lemma observe_new:
  "observe_polls env ps (new_outcome_stream i) = [RecordOutcome i (final_outcome env ps), RecordTransportClosed i]"
  using observe_fresh [of "new_outcome_stream i" env ps]
  by (simp add: new_outcome_stream_def final_outcome_def or_held_def Let_def)

text \<open>
  C30. Watching a stream records exactly one outcome, however it is polled and whether it ends or is dropped: the
  observer makes one outcome call and one transport-closed call. The outcome is decided by the first terminal item
  (a finish part, a fatal error, the end, or the drop when there is none), and an error part or a recoverable error
  before it makes the outcome that error, with the usage of the finish part if there is one.
\<close>

theorem outcome_recorded_once:
  "observe_polls env ps (new_outcome_stream i) = [RecordOutcome i (final_outcome env ps), RecordTransportClosed i]"
  by (rule observe_new)

section \<open>The outcome in the recorder\<close>

lemma final_outcome_settled: "oc_status (final_outcome env ps) \<noteq> StatusPending"
  by (auto simp: final_outcome_def settled_by_def outcome_success_def outcome_from_error_def
      split: option.split polled.split stream_outcome.split)

lemma redacted_status [simp]: "oc_status (redacted_outcome oc) = oc_status oc"
  by (simp add: redacted_outcome_def)

lemma ring_push_last: "rg_completed (ring_push x r) \<noteq> [] \<and> last (rg_completed (ring_push x r)) = x"
  by (simp add: ring_push_def Let_def)

lemma finalize_ready:
  assumes "map_of (rg_pending r) i = Some x" and "ready x"
  shows "map_of (rg_pending (finalize i r)) i = None" and "rg_completed (finalize i r) \<noteq> []"
    and "last (rg_completed (finalize i r)) = x\<lparr>rec_complete := i \<notin> rg_inconsistent r\<rparr>"
  using assms ring_push_last by (simp_all add: finalize_def Let_def ready_def)

text \<open>
  C31. A call whose input was recorded is kept once its stream is over. When its entry has a prompt and every exchange
  is finalized, the calls of the stream's observer move it to the ring as the newest recording, with the redacted
  outcome of the stream, and marked complete unless the call was inconsistent; nothing of it stays pending.
\<close>

theorem observed_stream_kept:
  assumes "map_of (rg_pending r) i = Some x" and "in_prompt (rec_input x) \<noteq> []" and "list_all ex_finalized (rec_exchanges x)"
  shows "let r' = fold (ring_apply now) (observe_polls env ps (new_outcome_stream i)) r
         in map_of (rg_pending r') i = None \<and> rg_completed r' \<noteq> [] \<and>
            last (rg_completed r') = x\<lparr>rec_outcome := redacted_outcome (final_outcome env ps), rec_transport_closed := True,
              rec_complete := i \<notin> rg_inconsistent r\<rparr>"
proof -
  let ?y = "x\<lparr>rec_outcome := redacted_outcome (final_outcome env ps)\<rparr>"
  let ?r1 = "change_entry i (\<lambda>x. x\<lparr>rec_outcome := redacted_outcome (final_outcome env ps)\<rparr>) r"
  have r1: "map_of (rg_pending ?r1) i = Some ?y" "rg_inconsistent ?r1 = rg_inconsistent r"
    using assms(1) by (simp_all add: change_entry_def)
  have first: "ring_record_outcome now i (final_outcome env ps) r = finalize i ?r1"
    using assms(1) by (simp add: ring_record_outcome_def entry_or_init_bounded_def)
  have ready: "ready (?y\<lparr>rec_transport_closed := True\<rparr>)"
    using assms(2,3) final_outcome_settled by (simp add: ready_def)
  show ?thesis
  proof (cases "rec_transport_closed x")
    case True
    then have y: "?y\<lparr>rec_transport_closed := True\<rparr> = ?y" by simp
    then have "ready ?y" using ready by simp
    from finalize_ready [OF r1(1) this] r1(2) show ?thesis
      using y by (simp add: observe_new first ring_record_transport_closed_def Let_def)
  next
    case False
    then have "finalize i ?r1 = ?r1" using r1(1) by (simp add: finalize_def ready_def)
    let ?r2 = "change_entry i (\<lambda>x. x\<lparr>rec_transport_closed := True\<rparr>) ?r1"
    have r2: "map_of (rg_pending ?r2) i = Some (?y\<lparr>rec_transport_closed := True\<rparr>)" "rg_inconsistent ?r2 = rg_inconsistent r"
      using r1 by (simp_all add: change_entry_def [of i _ ?r1])
    have "ring_record_transport_closed i ?r1 = finalize i ?r2" using r1(1) by (simp add: ring_record_transport_closed_def)
    then show ?thesis using finalize_ready [OF r2(1) ready] r2(2) \<open>finalize i ?r1 = ?r1\<close>
      by (simp add: observe_new first Let_def)
  qed
qed

definition demo_outcome_env :: outcome_env where
  "demo_outcome_env = \<lparr>oe_error_value = (\<lambda>_. None), oe_usage_value = (\<lambda>_. None), oe_reason_text = (\<lambda>_. Some ''stop'')\<rparr>"

definition demo_started :: ring_inner where
  "demo_started = ring_apply ''t'' (hd demo_events) demo_ring"

text \<open>A started call whose stream is dropped before its end is kept as cancelled.\<close>

theorem observed_stream_kept_witness:
  "\<exists>x. map_of (rg_pending demo_started) ''c'' = Some x \<and> in_prompt (rec_input x) \<noteq> [] \<and>
     last (rg_completed (fold (ring_apply ''t'')
       (observe_polls demo_outcome_env [PolledPart OutcomeOther, PolledPending] (new_outcome_stream ''c'')) demo_started)) =
     x\<lparr>rec_outcome := default_outcome\<lparr>oc_status := StatusCancelled\<rparr>, rec_transport_closed := True, rec_complete := True\<rparr>"
proof -
  obtain x where x: "map_of (rg_pending demo_started) ''c'' = Some x" "in_prompt (rec_input x) \<noteq> []" "rec_exchanges x = []"
      "rg_inconsistent demo_started = {}"
    by (simp add: demo_started_def demo_events_def demo_ring_def ring_record_input_def entry_or_init_bounded_def
        evict_pending_if_needed_def evict_loop.simps trim_order_def drop_settled_def usize_mul_def change_entry_def
        placeholder_def new_recording_def set_input_def input_from_call_options_def Let_def)
  have "redacted_outcome (final_outcome demo_outcome_env [PolledPart OutcomeOther, PolledPending]) =
      default_outcome\<lparr>oc_status := StatusCancelled\<rparr>"
    by (simp add: final_outcome_def first_error_def settled_by_def List.map_filter_simps redacted_outcome_def default_outcome_def)
  then show ?thesis
    using observed_stream_kept [OF x(1,2), of "''t''" demo_outcome_env "[PolledPart OutcomeOther, PolledPending]"] x
    by (simp add: Let_def)
qed

end
