(* ===== verification/Sessions.thy ===== *)
theory Sessions
  imports Prelude
begin

text \<open>
  Sessions of calls (\<open>src/aimux-core/src/session.rs\<close>): the index of sessions with its two bounds, the inference of
  a session from a prompt's prefix, and the texts of times. A method of the store runs under its lock and is one
  function on the state; the clock and the process-wide counter of ids are arguments. The comparison of messages
  is an argument of the inference.
\<close>

section \<open>The session store\<close>

datatype session_source = Explicit | Inferred

record session_call =
  sc_call_id :: string
  sc_step :: u32
  sc_recorded_at :: string

record session_entry =
  se_source :: session_source
  se_calls :: "session_call list"
  se_next_step :: u64

record session_store =
  ss_sessions :: "(string \<times> session_entry) list"
  ss_lru :: "string list"
  ss_max_sessions :: nat
  ss_max_calls :: nat

text \<open>\<open>with_capacity\<close> panics when a bound is zero.\<close>

definition sessions_with_capacity :: "nat \<Rightarrow> nat \<Rightarrow> session_store option" where
  "sessions_with_capacity max_sessions max_calls =
     (if 0 < max_sessions \<and> 0 < max_calls
      then Some \<lparr>ss_sessions = [], ss_lru = [], ss_max_sessions = max_sessions, ss_max_calls = max_calls\<rparr> else None)"

definition DEFAULT_MAX_SESSIONS :: nat where "DEFAULT_MAX_SESSIONS = 256"

definition DEFAULT_MAX_CALLS_PER_SESSION :: nat where "DEFAULT_MAX_CALLS_PER_SESSION = 64"

definition touch :: "string \<Rightarrow> string list \<Rightarrow> string list" where
  "touch i lru = remove1 i lru @ [i]"

definition admit_session :: "string \<Rightarrow> session_source \<Rightarrow> session_store \<Rightarrow> session_store" where
  "admit_session i source s =
     (if map_of (ss_sessions s) i \<noteq> None then s
      else
        (let s1 = (if ss_max_sessions s \<le> length (ss_sessions s)
                   then (case ss_lru s of
                           oldest # rest \<Rightarrow> s\<lparr>ss_lru := rest, ss_sessions := hash_remove oldest (ss_sessions s)\<rparr>
                         | [] \<Rightarrow> s)
                   else s)
         in s1\<lparr>ss_sessions := hash_insert i \<lparr>se_source = source, se_calls = [], se_next_step = 0\<rparr> (ss_sessions s1)\<rparr>))"

text \<open>\<open>u32::try_from(step).unwrap_or(u32::MAX)\<close>\<close>

definition wire_step :: "u64 \<Rightarrow> u32" where
  "wire_step n = (if unat n < 2 ^ 32 then of_nat (unat n) else - 1)"

definition add_call :: "nat \<Rightarrow> string \<Rightarrow> string \<Rightarrow> session_entry \<Rightarrow> session_call \<times> session_entry" where
  "add_call max_calls call_id now e =
     (let call = \<lparr>sc_call_id = call_id, sc_step = wire_step (se_next_step e), sc_recorded_at = now\<rparr>;
          kept = (if max_calls \<le> length (se_calls e) then tl (se_calls e) else se_calls e)
      in (call, e\<lparr>se_next_step := se_next_step e + 1, se_calls := kept @ [call]\<rparr>))"

text \<open>\<open>append\<close>; \<open>fresh\<close> is the id that is generated when the caller has none. A missing entry would panic.\<close>

definition append_call ::
  "string \<Rightarrow> string \<Rightarrow> string \<Rightarrow> string option \<Rightarrow> session_source \<Rightarrow> session_store \<Rightarrow> (session_call \<times> session_store) option" where
  "append_call now fresh i call_id source s =
     (let s1 = admit_session i source (s\<lparr>ss_lru := touch i (ss_lru s)\<rparr>)
      in case map_of (ss_sessions s1) i of
           None \<Rightarrow> None
         | Some e \<Rightarrow>
             (case add_call (ss_max_calls s1) (case call_id of Some c \<Rightarrow> c | None \<Rightarrow> fresh) now e of (call, e') \<Rightarrow>
                Some (call, s1\<lparr>ss_sessions := hash_insert i e' (ss_sessions s1)\<rparr>)))"

definition session_calls :: "string \<Rightarrow> session_store \<Rightarrow> session_call list \<times> session_store" where
  "session_calls i s = (case map_of (ss_sessions s) i of
     Some e \<Rightarrow> (se_calls e, s\<lparr>ss_lru := touch i (ss_lru s)\<rparr>)
   | None \<Rightarrow> ([], s))"

record session_view =
  sv_session_id :: string
  sv_source :: session_source
  sv_calls :: "session_call list"

definition list_sessions :: "session_store \<Rightarrow> session_view list" where
  "list_sessions s = map (\<lambda>(i, e). \<lparr>sv_session_id = i, sv_source = se_source e, sv_calls = se_calls e\<rparr>) (ss_sessions s)"

definition clear_sessions :: "session_store \<Rightarrow> session_store" where
  "clear_sessions s = s\<lparr>ss_sessions := [], ss_lru := []\<rparr>"

section \<open>Inference\<close>

record 'm session_inferer =
  si_enabled :: bool
  si_recent :: "('m list \<times> string) list"
  si_capacity :: nat

definition is_prompt_prefix :: "('m \<Rightarrow> 'm \<Rightarrow> bool) \<Rightarrow> 'm list \<Rightarrow> 'm list \<Rightarrow> bool" where
  "is_prompt_prefix same old prompt \<longleftrightarrow> length old \<le> length prompt \<and> list_all2 same (take (length old) prompt) old"

definition find_by_strong_prefix :: "('m \<Rightarrow> 'm \<Rightarrow> bool) \<Rightarrow> 'm list \<Rightarrow> 'm session_inferer \<Rightarrow> string option" where
  "find_by_strong_prefix same prompt s = map_option snd (find (\<lambda>(old, _). is_prompt_prefix same old prompt) (si_recent s))"

definition remember :: "'m list \<Rightarrow> string \<Rightarrow> 'm session_inferer \<Rightarrow> 'm session_inferer" where
  "remember prompt i s =
     s\<lparr>si_recent := (prompt, i) # (if si_capacity s \<le> length (si_recent s) then butlast (si_recent s) else si_recent s)\<rparr>"

definition resolve_session ::
  "('m \<Rightarrow> 'm \<Rightarrow> bool) \<Rightarrow> string \<Rightarrow> string option \<Rightarrow> 'm list \<Rightarrow> 'm session_inferer \<Rightarrow>
   (string \<times> session_source) option \<times> 'm session_inferer" where
  "resolve_session same fresh explicit prompt s = (case explicit of
     Some i \<Rightarrow> (Some (i, Explicit), remember prompt i s)
   | None \<Rightarrow>
       (if \<not> si_enabled s then (None, s)
        else (let i = (case find_by_strong_prefix same prompt s of Some i \<Rightarrow> i | None \<Rightarrow> ''auto-'' @ fresh)
              in (Some (i, Inferred), remember prompt i s))))"

definition inferer_with_capacity :: "bool \<Rightarrow> nat \<Rightarrow> 'm session_inferer option" where
  "inferer_with_capacity enabled capacity =
     (if 0 < capacity then Some \<lparr>si_enabled = enabled, si_recent = [], si_capacity = capacity\<rparr> else None)"

definition DEFAULT_INFERER_CAPACITY :: nat where "DEFAULT_INFERER_CAPACITY = 64"

section \<open>The registered store and inferer\<close>

text \<open>The statics of the module; the environment variable is read once, and its value is an argument.\<close>

record 'm session_globals =
  sg_store :: "session_store option"
  sg_inferer :: "'m session_inferer option"
  sg_env_checked :: bool

definition init_session_store :: "session_store \<Rightarrow> 'm session_globals \<Rightarrow> 'm session_globals" where
  "init_session_store s g = g\<lparr>sg_store := Some s\<rparr>"

definition init_session_infer :: "bool \<Rightarrow> 'm session_globals \<Rightarrow> 'm session_globals" where
  "init_session_infer enabled g = g\<lparr>sg_inferer := inferer_with_capacity enabled DEFAULT_INFERER_CAPACITY\<rparr>"

definition ensure_inferer_from_env :: "string option \<Rightarrow> 'm session_globals \<Rightarrow> 'm session_globals" where
  "ensure_inferer_from_env env g =
     (if sg_env_checked g then g
      else
        (let g1 = (if env = Some ''1'' \<and> sg_inferer g = None then init_session_infer True g else g)
         in g1\<lparr>sg_env_checked := True\<rparr>))"

text \<open>Without a registered inferer only an explicit id counts.\<close>

definition resolve_session_id ::
  "('m \<Rightarrow> 'm \<Rightarrow> bool) \<Rightarrow> string \<Rightarrow> string option \<Rightarrow> string option \<Rightarrow> 'm list \<Rightarrow> 'm session_globals \<Rightarrow>
   (string \<times> session_source) option \<times> 'm session_globals" where
  "resolve_session_id same fresh env explicit prompt g =
     (let g1 = ensure_inferer_from_env env g
      in case sg_inferer g1 of
           Some s \<Rightarrow> (case resolve_session same fresh explicit prompt s of (r, s') \<Rightarrow> (r, g1\<lparr>sg_inferer := Some s'\<rparr>))
         | None \<Rightarrow> (map_option (\<lambda>i. (i, Explicit)) explicit, g1))"

definition query_session_calls :: "string \<Rightarrow> 'm session_globals \<Rightarrow> session_call list \<times> 'm session_globals" where
  "query_session_calls i g = (case sg_store g of
     Some s \<Rightarrow> (case session_calls i s of (cs, s') \<Rightarrow> (cs, g\<lparr>sg_store := Some s'\<rparr>))
   | None \<Rightarrow> ([], g))"

definition query_list_sessions :: "'m session_globals \<Rightarrow> session_view list" where
  "query_list_sessions g = (case sg_store g of Some s \<Rightarrow> list_sessions s | None \<Rightarrow> [])"

definition new_call_id :: "nat \<Rightarrow> u64 \<Rightarrow> string" where
  "new_call_id ns seq = ''call-'' @ show_nat ns @ ''-'' @ show_nat (unat seq)"

section \<open>Times\<close>

text \<open>Integer division of Rust, towards zero, for a positive divisor.\<close>

definition trunc_div :: "int \<Rightarrow> int \<Rightarrow> int" where
  "trunc_div a b = (if 0 \<le> a then a div b else - ((- a) div b))"

definition civil_from_days :: "int \<Rightarrow> int \<times> nat \<times> nat" where
  "civil_from_days days =
     (let z = days + 719468;
          era = trunc_div (if 0 \<le> z then z else z - 146096) 146097;
          doe = nat (z - era * 146097);
          yoe = (doe - doe div 1460 + doe div 36524 - doe div 146096) div 365;
          y = int yoe + era * 400;
          doy = doe - (365 * yoe + yoe div 4 - yoe div 100);
          mp = (5 * doy + 2) div 153;
          d = doy - (153 * mp + 2) div 5 + 1;
          m = (if mp < 10 then mp + 3 else mp - 9)
      in (if m \<le> 2 then y + 1 else y, m, d))"

definition padded :: "nat \<Rightarrow> nat \<Rightarrow> string" where
  "padded width n = replicate (width - length (show_nat n)) CHR ''0'' @ show_nat n"

text \<open>The time \<open>secs\<close> seconds and \<open>millis\<close> milliseconds after the epoch; the clock is never before it.\<close>

definition rfc3339 :: "nat \<Rightarrow> nat \<Rightarrow> string" where
  "rfc3339 secs millis =
     (case civil_from_days (int (secs div 86400)) of (year, month, day) \<Rightarrow>
        (let hms = secs mod 86400
         in padded 4 (nat year) @ ''-'' @ padded 2 month @ ''-'' @ padded 2 day @ ''T'' @ padded 2 (hms div 3600) @ '':'' @
            padded 2 (hms mod 3600 div 60) @ '':'' @ padded 2 (hms mod 60) @ ''.'' @ padded 3 millis @ ''Z''))"

section \<open>What the store keeps\<close>

text \<open>The calls that callers make on the store, and what each returns.\<close>

datatype session_op = Append string string string "string option" session_source | Query string | Clear

fun exec_session :: "session_op \<Rightarrow> session_store \<Rightarrow> (session_call list \<times> session_store) option" where
  "exec_session (Append now fresh i c source) s = map_option (\<lambda>(call, s'). ([call], s')) (append_call now fresh i c source s)"
| "exec_session (Query i) s = Some (session_calls i s)"
| "exec_session Clear s = Some ([], clear_sessions s)"

text \<open>The specification: all ids by the time of their last use, the latest last, and for each id its source and all
  its calls since it was last admitted. A session is known when it is one of the \<open>m\<close> last used.\<close>

definition lastn :: "nat \<Rightarrow> 'a list \<Rightarrow> 'a list" where
  "lastn n xs = drop (length xs - n) xs"

record session_spec =
  sp_recent :: "string list"
  sp_log :: "string \<Rightarrow> session_source \<times> (string \<times> string) list"

definition numbered :: "(string \<times> string) list \<Rightarrow> session_call list" where
  "numbered cs = map (\<lambda>(k, c, t). \<lparr>sc_call_id = c, sc_step = wire_step (of_nat k), sc_recorded_at = t\<rparr>) (enumerate 0 cs)"

definition known :: "nat \<Rightarrow> session_spec \<Rightarrow> string \<Rightarrow> bool" where
  "known m a i \<longleftrightarrow> i \<in> set (lastn m (sp_recent a))"

fun spec_session :: "nat \<Rightarrow> nat \<Rightarrow> session_op \<Rightarrow> session_spec \<Rightarrow> session_call list \<times> session_spec" where
  "spec_session m n (Append now fresh i c source) a =
     (let (src, cs) = (if known m a i then sp_log a i else (source, []));
          cs' = cs @ [(case c of Some x \<Rightarrow> x | None \<Rightarrow> fresh, now)]
      in ([last (numbered cs')], \<lparr>sp_recent = touch i (sp_recent a), sp_log = (sp_log a)(i := (src, cs'))\<rparr>))"
| "spec_session m n (Query i) a =
     (if known m a i then (lastn n (numbered (snd (sp_log a i))), a\<lparr>sp_recent := touch i (sp_recent a)\<rparr>) else ([], a))"
| "spec_session m n Clear a = ([], a\<lparr>sp_recent := []\<rparr>)"

definition entry_of :: "nat \<Rightarrow> session_source \<times> (string \<times> string) list \<Rightarrow> session_entry" where
  "entry_of n l = \<lparr>se_source = fst l, se_calls = lastn n (numbered (snd l)), se_next_step = of_nat (length (snd l))\<rparr>"

definition store_refines :: "nat \<Rightarrow> nat \<Rightarrow> session_spec \<Rightarrow> session_store \<Rightarrow> bool" where
  "store_refines m n a s \<longleftrightarrow>
     ss_max_sessions s = m \<and> ss_max_calls s = n \<and> distinct (sp_recent a) \<and> ss_lru s = lastn m (sp_recent a) \<and>
     distinct (map fst (ss_sessions s)) \<and>
     map_of (ss_sessions s) = (\<lambda>i. if known m a i then Some (entry_of n (sp_log a i)) else None)"

subsection \<open>The last elements of a list\<close>

lemma lastn_split: "xs = take (length xs - n) xs @ lastn n xs" and length_lastn [simp]: "length (lastn n xs) = min n (length xs)"
  by (simp_all add: lastn_def)

lemma lastn_suffix: "length zs = min n (length ys + length zs) \<Longrightarrow> lastn n (ys @ zs) = zs"
  by (simp add: lastn_def min_def split: if_splits)

lemma distinct_lastn [simp]: "distinct xs \<Longrightarrow> distinct (lastn n xs)"
  by (simp add: lastn_def)

lemma lastn_snoc: "0 < n \<Longrightarrow> lastn n (xs @ [x]) = (if n \<le> length xs then tl (lastn n xs) else lastn n xs) @ [x]"
  by (simp add: lastn_def tl_drop Suc_diff_le flip: drop_Suc)

lemma touch_kept:
  assumes "distinct xs" "i \<in> set (lastn n xs)"
  shows "lastn n (touch i xs) = touch i (lastn n xs)"
proof -
  obtain ys where xs: "xs = ys @ lastn n xs" using lastn_split by blast
  then have "i \<notin> set ys" using assms by (metis disjoint_iff distinct_append)
  then have "touch i xs = ys @ touch i (lastn n xs)" by (subst xs) (simp add: touch_def remove1_append)
  moreover have "length (touch i (lastn n xs)) = length (lastn n xs)"
    using assms(2) length_pos_if_in_set [OF assms(2)] by (simp add: touch_def length_remove1)
  ultimately show ?thesis using xs lastn_suffix [of "touch i (lastn n xs)" n ys] by (metis length_append length_lastn)
qed

lemma touch_evicted:
  assumes "i \<notin> set (lastn n xs)" "0 < n"
  shows "lastn n (touch i xs) = (if n \<le> length xs then tl (lastn n xs) else lastn n xs) @ [i]"
proof (cases "n \<le> length xs")
  case True
  define ys zs where "ys = take (length xs - n) xs" and "zs = lastn n xs"
  have xs: "xs = ys @ zs" and len: "length zs = n" using True by (simp_all add: ys_def zs_def lastn_def)
  have "remove1 i xs = remove1 i ys @ zs" using assms(1) unfolding zs_def [symmetric] by (simp add: xs remove1_append remove1_idem)
  then have "lastn n (touch i xs) = lastn n ((remove1 i ys @ zs) @ [i])" by (simp add: touch_def)
  also have "\<dots> = tl zs @ [i]" using assms(2) len lastn_suffix [of zs n "remove1 i ys"] by (subst lastn_snoc) auto
  finally show ?thesis using True by (simp add: zs_def)
next
  case False
  then show ?thesis using assms by (simp add: touch_def lastn_def remove1_idem)
qed

lemma numbered_snoc:
  "numbered (cs @ [(c, t)]) = numbered cs @ [\<lparr>sc_call_id = c, sc_step = wire_step (of_nat (length cs)), sc_recorded_at = t\<rparr>]"
  by (simp add: numbered_def enumerate_append_eq)

lemma length_numbered [simp]: "length (numbered cs) = length cs"
  by (simp add: numbered_def)

lemma known_log_update [simp]: "known m (a\<lparr>sp_log := f\<rparr>) i = known m a i"
  by (simp add: known_def)

subsection \<open>Refinement\<close>

lemma set_touch [simp]: "set (touch i xs) = insert i (set xs)"
  by (auto simp: touch_def dest: notin_set_remove1) (metis in_set_remove1)

lemma distinct_touch [simp]: "distinct xs \<Longrightarrow> distinct (touch i xs)"
  by (auto simp: touch_def)

lemma add_call_entry:
  assumes "0 < n"
  shows "add_call n c t (entry_of n (src, cs)) = (last (numbered (cs @ [(c, t)])), entry_of n (src, cs @ [(c, t)]))"
  using assms by (simp add: add_call_def entry_of_def numbered_snoc lastn_snoc Let_def add.commute)

lemma refines_size:
  assumes "store_refines m n a s"
  shows "length (ss_sessions s) = min m (length (sp_recent a))"
proof -
  have "fst ` set (ss_sessions s) = dom (map_of (ss_sessions s))" by (simp add: dom_map_of_conv_image_fst)
  also have "\<dots> = set (ss_lru s)" using assms by (auto simp: store_refines_def known_def split: if_splits)
  finally have "card (set (map fst (ss_sessions s))) = card (set (ss_lru s))" by simp
  then show ?thesis using assms distinct_card [of "map fst (ss_sessions s)"] distinct_card [of "ss_lru s"]
    by (simp add: store_refines_def)
qed

lemma entry_of_Nil: "entry_of n (source, []) = \<lparr>se_source = source, se_calls = [], se_next_step = 0\<rparr>"
  by (simp add: entry_of_def numbered_def lastn_def)

lemma refines_admit_known:
  assumes R: "store_refines m n a s" and K: "known m a i"
  shows "store_refines m n (a\<lparr>sp_recent := touch i (sp_recent a)\<rparr>) (s\<lparr>ss_lru := touch i (ss_lru s)\<rparr>)"
proof -
  have "lastn m (touch i (sp_recent a)) = touch i (ss_lru s)"
    using R K by (simp add: store_refines_def known_def touch_kept)
  moreover from this have "known m (a\<lparr>sp_recent := touch i (sp_recent a)\<rparr>) = known m a"
    using R K by (auto simp: store_refines_def known_def fun_eq_iff)
  ultimately show ?thesis using R by (simp add: store_refines_def cong: if_cong)
qed

lemma refines_admit_new:
  assumes R: "store_refines m n a s" and m: "0 < m" and K: "\<not> known m a i"
  shows "store_refines m n \<lparr>sp_recent = touch i (sp_recent a), sp_log = (sp_log a)(i := (source, []))\<rparr>
    (admit_session i source (s\<lparr>ss_lru := touch i (ss_lru s)\<rparr>))"
    (is "store_refines m n ?a ?s")
proof -
  let ?full = "m \<le> length (sp_recent a)"
  define gone where "gone = (if ?full then Some (hd (ss_lru s)) else None)"
  define kept where "kept = (if ?full then hash_remove (hd (ss_lru s)) (ss_sessions s) else ss_sessions s)"
  have r: "ss_max_sessions s = m" "ss_lru s = lastn m (sp_recent a)" "map_of (ss_sessions s) i = None"
    using R K by (simp_all add: store_refines_def)
  have lru: "touch i (ss_lru s) = ss_lru s @ [i]" using K r(2) by (simp add: known_def touch_def remove1_idem)
  have now: "lastn m (touch i (sp_recent a)) = (if ?full then tl (ss_lru s) else ss_lru s) @ [i]"
    using touch_evicted [of i m "sp_recent a"] K m r(2) by (simp add: known_def)
  have front: "ss_lru s = hd (ss_lru s) # tl (ss_lru s)" if ?full
    using that m r(2) length_lastn [of m "sp_recent a"] by (metis hd_Cons_tl length_0_conv min.absorb1 not_gr0)
  have s: "?s = s\<lparr>ss_lru := (if ?full then tl (ss_lru s) else ss_lru s) @ [i],
      ss_sessions := hash_insert i (entry_of n (source, [])) kept\<rparr>"
  proof (cases ?full)
    case True
    have "(case ss_lru s @ [i] of oldest # rest \<Rightarrow> f oldest rest | [] \<Rightarrow> g) = f (hd (ss_lru s)) (tl (ss_lru s) @ [i])" for f and g :: session_store
      using front [OF True] by (metis append_Cons list.simps(5))
    then show ?thesis using True r(1,3) by (simp add: admit_session_def lru kept_def refines_size [OF R] entry_of_Nil Let_def)
  next
    case False
    then show ?thesis using r(1,3) by (simp add: admit_session_def lru kept_def refines_size [OF R] entry_of_Nil Let_def)
  qed
  have "distinct (ss_lru s)" using R by (simp add: store_refines_def)
  then have known: "known m ?a j \<longleftrightarrow> j = i \<or> known m a j \<and> gone \<noteq> Some j" for j
    using front unfolding known_def session_spec.select_convs now gone_def r(2) [symmetric] by (cases "ss_lru s") auto
  have "map_of (hash_insert i (entry_of n (source, [])) kept) j =
      (if known m ?a j then Some (entry_of n (sp_log ?a j)) else None)" for j
    using R unfolding known by (auto simp: store_refines_def kept_def gone_def)
  moreover have "distinct (map fst kept)" using R by (auto simp: store_refines_def kept_def)
  ultimately show ?thesis using R now unfolding s by (auto simp: store_refines_def)
qed

lemma refines_log:
  assumes "store_refines m n a s" "known m a i"
  shows "store_refines m n (a\<lparr>sp_log := (sp_log a)(i := l)\<rparr>) (s\<lparr>ss_sessions := hash_insert i (entry_of n l) (ss_sessions s)\<rparr>)"
  using assms by (auto simp: store_refines_def fun_eq_iff)

lemma refines_append:
  assumes R: "store_refines m n a s" and "0 < m" "0 < n"
  shows "\<exists>s'. exec_session (Append now fresh i c source) s = Some (fst (spec_session m n (Append now fresh i c source) a), s') \<and>
    store_refines m n (snd (spec_session m n (Append now fresh i c source) a)) s'"
proof -
  define l where "l = (if known m a i then sp_log a i else (source, []))"
  define a1 where "a1 = \<lparr>sp_recent = touch i (sp_recent a), sp_log = (sp_log a)(i := l)\<rparr>"
  define s1 where "s1 = admit_session i source (s\<lparr>ss_lru := touch i (ss_lru s)\<rparr>)"
  let ?c = "case c of Some x \<Rightarrow> x | None \<Rightarrow> fresh"
  have R1: "store_refines m n a1 s1"
  proof (cases "known m a i")
    case True
    then have "s1 = s\<lparr>ss_lru := touch i (ss_lru s)\<rparr>" "a1 = a\<lparr>sp_recent := touch i (sp_recent a)\<rparr>"
      using R by (simp_all add: s1_def a1_def l_def admit_session_def store_refines_def)
    then show ?thesis using refines_admit_known [OF R True] by simp
  next
    case False
    then show ?thesis using refines_admit_new [OF R assms(2) False] by (simp add: s1_def a1_def l_def)
  qed
  have K: "known m a1 i"
    unfolding known_def a1_def session_spec.select_convs touch_def lastn_snoc [OF assms(2)] by simp
  have e: "map_of (ss_sessions s1) i = Some (entry_of n (fst l, snd l))" "ss_max_calls s1 = n"
    using R1 K by (simp_all add: store_refines_def a1_def)
  have "append_call now fresh i c source s =
      Some (last (numbered (snd l @ [(?c, now)])),
        s1\<lparr>ss_sessions := hash_insert i (entry_of n (fst l, snd l @ [(?c, now)])) (ss_sessions s1)\<rparr>)"
    using add_call_entry [OF assms(3), of ?c now "fst l" "snd l"] by (simp add: append_call_def s1_def [symmetric] e)
  moreover have "snd (spec_session m n (Append now fresh i c source) a) =
      a1\<lparr>sp_log := (sp_log a1)(i := (fst l, snd l @ [(?c, now)]))\<rparr>"
    "fst (spec_session m n (Append now fresh i c source) a) = [last (numbered (snd l @ [(?c, now)]))]"
    by (simp_all add: l_def [symmetric] a1_def split_beta Let_def)
  ultimately show ?thesis using refines_log [OF R1 K] by simp
qed

lemma refines_query:
  assumes R: "store_refines m n a s"
  shows "store_refines m n (snd (spec_session m n (Query i) a)) (snd (session_calls i s)) \<and>
    fst (session_calls i s) = fst (spec_session m n (Query i) a)"
proof (cases "known m a i")
  case True
  then have "map_of (ss_sessions s) i = Some (entry_of n (sp_log a i))" using R by (simp add: store_refines_def)
  then show ?thesis using True refines_admit_known [OF R True] by (simp add: session_calls_def entry_of_def)
next
  case False
  then have "map_of (ss_sessions s) i = None" using R by (simp add: store_refines_def)
  then show ?thesis using False R by (simp add: session_calls_def)
qed

lemma refines_clear:
  assumes "store_refines m n a s"
  shows "store_refines m n (a\<lparr>sp_recent := []\<rparr>) (clear_sessions s)"
  using assms by (simp add: store_refines_def clear_sessions_def known_def lastn_def fun_eq_iff)

text \<open>A service that answers as its specification on one call answers so on all sequences of calls.\<close>

fun exec_all :: "('l \<Rightarrow> 's \<Rightarrow> ('r \<times> 's) option) \<Rightarrow> 'l list \<Rightarrow> 's \<Rightarrow> ('r list \<times> 's) option" where
  "exec_all exec [] s = Some ([], s)"
| "exec_all exec (l # ls) s = (case exec l s of
     None \<Rightarrow> None
   | Some (r, s') \<Rightarrow> map_option (\<lambda>(rs, t). (r # rs, t)) (exec_all exec ls s'))"

fun spec_all :: "('l \<Rightarrow> 'a \<Rightarrow> 'r \<times> 'a) \<Rightarrow> 'l list \<Rightarrow> 'a \<Rightarrow> 'r list \<times> 'a" where
  "spec_all spec [] a = ([], a)"
| "spec_all spec (l # ls) a = (case spec l a of (r, a') \<Rightarrow> map_prod ((#) r) (\<lambda>b. b) (spec_all spec ls a'))"

locale refined_service =
  fixes exec :: "'l \<Rightarrow> 's \<Rightarrow> ('r \<times> 's) option"
    and spec :: "'l \<Rightarrow> 'a \<Rightarrow> 'r \<times> 'a"
    and rel :: "'a \<Rightarrow> 's \<Rightarrow> bool"
  assumes exec_refines: "rel a s \<Longrightarrow> \<exists>s'. exec l s = Some (fst (spec l a), s') \<and> rel (snd (spec l a)) s'"
begin

lemma exec_all_refines:
  assumes "rel a s"
  shows "\<exists>s'. exec_all exec ls s = Some (fst (spec_all spec ls a), s') \<and> rel (snd (spec_all spec ls a)) s'"
  using assms
proof (induction ls arbitrary: a s)
  case (Cons l ls)
  obtain s1 where one: "exec l s = Some (fst (spec l a), s1)" "rel (snd (spec l a)) s1"
    using exec_refines [OF Cons.prems] by blast
  obtain s2 where "exec_all exec ls s1 = Some (fst (spec_all spec ls (snd (spec l a))), s2)"
    "rel (snd (spec_all spec ls (snd (spec l a)))) s2"
    using Cons.IH [OF one(2)] by blast
  then show ?case using one(1) by (simp add: split_beta)
qed simp

end

interpretation session_service: refined_service exec_session "spec_session m n"
  "\<lambda>a s. 0 < m \<and> 0 < n \<and> store_refines m n a s" for m n
proof
  fix a s l
  assume R: "0 < m \<and> 0 < n \<and> store_refines m n a s"
  show "\<exists>s'. exec_session l s = Some (fst (spec_session m n l a), s') \<and>
      0 < m \<and> 0 < n \<and> store_refines m n (snd (spec_session m n l a)) s'"
  proof (cases l)
    case (Append now fresh i c source)
    then show ?thesis using refines_append [of m n a s now fresh i c source] R by blast
  next
    case (Query i)
    then show ?thesis using refines_query [of m n a s i] R by (cases "session_calls i s") auto
  next
    case Clear
    then show ?thesis using refines_clear R by simp
  qed
qed

definition no_sessions :: session_spec where
  "no_sessions = \<lparr>sp_recent = [], sp_log = (\<lambda>_. (Explicit, []))\<rparr>"

lemma entries_bounded:
  assumes "store_refines m n a s"
  shows "length (ss_sessions s) \<le> m" "list_all (\<lambda>(_, e). length (se_calls e) \<le> n) (ss_sessions s)"
proof -
  show "length (ss_sessions s) \<le> m" using refines_size [OF assms] by simp
  have "length (se_calls e) \<le> n" if "(i, e) \<in> set (ss_sessions s)" for i e
  proof -
    have "map_of (ss_sessions s) i = Some e" using assms that map_of_is_SomeI unfolding store_refines_def by metis
    then have "e = entry_of n (sp_log a i)" using assms by (simp add: store_refines_def split: if_splits)
    then show ?thesis by (simp add: entry_of_def)
  qed
  then show "list_all (\<lambda>(_, e). length (se_calls e) \<le> n) (ss_sessions s)" by (auto simp: list_all_iff)
qed

text \<open>C34. The session store answers as its specification. In every sequence of appends, queries and clears on a store
  with positive bounds no append panics; a session is known exactly when its id is one of the \<open>max_sessions\<close> last used
  (a query of a known session counts as a use, a query of an unknown one does not); a query returns the last
  \<open>max_calls_per_session\<close> of all the calls since the session was admitted, in order, and the step of a call is its
  position among all of them, whether or not older ones were dropped; and both bounds hold.\<close>

theorem session_store_refined:
  assumes "sessions_with_capacity m n = Some s0"
  shows "\<exists>s. exec_all exec_session ops s0 = Some (fst (spec_all (spec_session m n) ops no_sessions), s) \<and>
    length (ss_sessions s) \<le> m \<and> list_all (\<lambda>(_, e). length (se_calls e) \<le> n) (ss_sessions s)"
proof -
  have "0 < m \<and> 0 < n \<and> store_refines m n no_sessions s0"
    using assms by (auto simp: sessions_with_capacity_def store_refines_def no_sessions_def known_def lastn_def split: if_splits)
  from session_service.exec_all_refines [OF this, of ops] show ?thesis using entries_bounded by blast
qed

theorem session_store_refined_witness:
  "\<exists>s. exec_all exec_session
      [Append ''t0'' ''f'' ''a'' (Some ''c0'') Explicit, Append ''t1'' ''f'' ''b'' None Explicit, Query ''a'',
       Append ''t2'' ''f'' ''a'' (Some ''c2'') Explicit, Append ''t3'' ''f'' ''d'' (Some ''c3'') Inferred, Query ''a'', Query ''b'']
      \<lparr>ss_sessions = [], ss_lru = [], ss_max_sessions = 2, ss_max_calls = 1\<rparr> =
    Some ([[\<lparr>sc_call_id = ''c0'', sc_step = 0, sc_recorded_at = ''t0''\<rparr>],
       [\<lparr>sc_call_id = ''f'', sc_step = 0, sc_recorded_at = ''t1''\<rparr>],
       [\<lparr>sc_call_id = ''c0'', sc_step = 0, sc_recorded_at = ''t0''\<rparr>],
       [\<lparr>sc_call_id = ''c2'', sc_step = 1, sc_recorded_at = ''t2''\<rparr>],
       [\<lparr>sc_call_id = ''c3'', sc_step = 0, sc_recorded_at = ''t3''\<rparr>],
       [\<lparr>sc_call_id = ''c2'', sc_step = 1, sc_recorded_at = ''t2''\<rparr>], []], s) \<and> length (ss_sessions s) \<le> 2"
proof -
  have "sessions_with_capacity 2 1 = Some \<lparr>ss_sessions = [], ss_lru = [], ss_max_sessions = 2, ss_max_calls = 1\<rparr>"
    by (simp add: sessions_with_capacity_def)
  from session_store_refined [OF this, of "[Append ''t0'' ''f'' ''a'' (Some ''c0'') Explicit, Append ''t1'' ''f'' ''b'' None Explicit,
      Query ''a'', Append ''t2'' ''f'' ''a'' (Some ''c2'') Explicit, Append ''t3'' ''f'' ''d'' (Some ''c3'') Inferred,
      Query ''a'', Query ''b'']"]
  show ?thesis
    by (auto simp: no_sessions_def known_def lastn_def touch_def numbered_def wire_step_def enumerate_eq_zip)
qed

section \<open>What the inference keeps\<close>

text \<open>A call that continues the prompt of the call before it joins the session of that call; an explicit id wins; the
  number of prompts that are remembered is bounded.\<close>

lemma resolve_continues:
  assumes "\<And>x. same x x" "si_enabled s"
  shows "fst (resolve_session same fresh None (p @ rest) (remember p i s)) = Some (i, Inferred)"
  using assms by (simp add: resolve_session_def find_by_strong_prefix_def is_prompt_prefix_def remember_def list.rel_refl)

lemma resolve_explicit: "fst (resolve_session_id same fresh env (Some i) prompt g) = Some (i, Explicit)"
  by (auto simp: resolve_session_id_def resolve_session_def Let_def split: option.splits)

text \<open>The environment decides only while no inferer is registered, and only at the first call.\<close>

lemma configured_inferer_wins:
  assumes "sg_inferer g \<noteq> None \<or> sg_env_checked g"
  shows "sg_inferer (ensure_inferer_from_env env g) = sg_inferer g"
  using assms by (auto simp: ensure_inferer_from_env_def Let_def)

lemma resolve_without_inferer:
  assumes "sg_inferer g = None" "env \<noteq> Some ''1'' \<or> sg_env_checked g"
  shows "fst (resolve_session_id same fresh env None prompt g) = None"
  using assms by (auto simp: resolve_session_id_def ensure_inferer_from_env_def Let_def)

lemma resolve_bounded:
  assumes "length (si_recent s) \<le> si_capacity s" "0 < si_capacity s"
  shows "length (si_recent (snd (resolve_session same fresh explicit prompt s))) \<le> si_capacity s"
  using assms by (auto simp: resolve_session_def remember_def Let_def split: option.splits)

section \<open>The calendar\<close>

definition leap_year :: "int \<Rightarrow> bool" where
  "leap_year y \<longleftrightarrow> 4 dvd y \<and> (\<not> 100 dvd y \<or> 400 dvd y)"

definition days_in_month :: "int \<Rightarrow> nat \<Rightarrow> nat" where
  "days_in_month y m = (if m = 2 then (if leap_year y then 29 else 28) else if m \<in> {4, 6, 9, 11} then 30 else 31)"

fun next_day :: "int \<times> nat \<times> nat \<Rightarrow> int \<times> nat \<times> nat" where
  "next_day (y, m, d) =
     (if d < days_in_month y m then (y, m, d + 1) else if m < 12 then (y, m + 1, 1) else (y + 1, 1, 1))"

text \<open>A day of a 400-year era, by centuries, four-year groups, years and days from the first of March.\<close>

definition era_day :: "nat \<Rightarrow> nat \<Rightarrow> nat \<Rightarrow> nat \<Rightarrow> nat" where
  "era_day c q r doy = 36524 * c + 1461 * q + 365 * r + doy"

definition valid_day :: "nat \<Rightarrow> nat \<Rightarrow> nat \<Rightarrow> nat \<Rightarrow> bool" where
  "valid_day c q r doy \<longleftrightarrow> c \<le> 3 \<and> q \<le> 24 \<and> r \<le> 3 \<and> (doy < 365 \<or> doy = 365 \<and> r = 3 \<and> (q < 24 \<or> c = 3))"

definition year_of_era :: "nat \<Rightarrow> nat" where
  "year_of_era doe = (doe - doe div 1460 + doe div 36524 - doe div 146096) div 365"

lemma era_day_exists:
  assumes "doe < 146097"
  obtains c q r doy where "doe = era_day c q r doy" "valid_day c q r doy"
proof -
  define c where "c = min 3 (doe div 36524)"
  define a where "a = doe - 36524 * c"
  have c: "c \<le> 3" "36524 * c \<le> doe" "a < 36524 \<or> c = 3 \<and> a \<le> 36524"
    using assms by (auto simp: c_def a_def min_def)
  define q where "q = a div 1461"
  define b where "b = a mod 1461"
  have q: "a = 1461 * q + b" "b < 1461" by (simp_all add: q_def b_def)
  then have "q \<le> 24" using c(3) by auto
  define r where "r = min 3 (b div 365)"
  have r: "r \<le> 3" "365 * r \<le> b" "b - 365 * r < 365 \<or> r = 3 \<and> b = 1460"
    using q(2) by (auto simp: r_def min_def)
  have "doe = era_day c q r (b - 365 * r)"
    using c(2) q(1) r(2) by (simp add: era_day_def a_def)
  moreover have "valid_day c q r (b - 365 * r)"
    using c q r \<open>q \<le> 24\<close> by (auto simp: valid_day_def)
  ultimately show ?thesis by (rule that)
qed

lemma year_of_era_day:
  assumes "valid_day c q r doy"
  shows "year_of_era (era_day c q r doy) = 100 * c + 4 * q + r"
proof -
  let ?doe = "era_day c q r doy"
  let ?e = "24 * c + q + 365 * r + doy"
  have v: "c \<le> 3" "q \<le> 24" "r \<le> 3" "doy < 365 \<or> doy = 365 \<and> r = 3 \<and> (q < 24 \<or> c = 3)"
    using assms by (auto simp: valid_day_def)
  have "?doe = 1460 * (25 * c + q) + ?e" by (simp add: era_day_def)
  then have quad: "?doe div 1460 = 25 * c + q + ?e div 1460" by simp
  have e: "?e div 1460 = (if 1460 \<le> ?e then 1 else 0)" using v by auto
  have cent: "?doe div 36524 = c + ?doe div 146096"
  proof (cases "?doe = 146096")
    case True
    then have "c = 3" using v by (auto simp: era_day_def)
    then show ?thesis using True by simp
  next
    case False
    then have "?doe < 146096" "36524 * c \<le> ?doe" "?doe < 36524 * (c + 1)" using v by (auto simp: era_day_def)
    then have "?doe div 36524 = c" by (intro div_nat_eqI) (simp_all add: mult.commute)
    then show ?thesis using \<open>?doe < 146096\<close> by simp
  qed
  have "?doe - ?doe div 1460 + ?doe div 36524 - ?doe div 146096 = 365 * (100 * c + 4 * q + r) + (doy - ?e div 1460)"
  proof -
    have "?e div 1460 \<le> doy" using v e by auto
    then show ?thesis unfolding quad cent by (simp add: era_day_def)
  qed
  moreover have "doy - ?e div 1460 < 365" using v e by auto
  ultimately show ?thesis unfolding year_of_era_def by (intro div_nat_eqI) simp_all
qed

text \<open>The date in the year \<open>y\<close> that starts on the first of March, by the table of the months.\<close>

definition month_table :: "nat \<Rightarrow> nat \<times> nat" where
  "month_table doy =
     (if doy < 31 then (3, doy + 1) else if doy < 61 then (4, doy - 30) else if doy < 92 then (5, doy - 60)
      else if doy < 122 then (6, doy - 91) else if doy < 153 then (7, doy - 121) else if doy < 184 then (8, doy - 152)
      else if doy < 214 then (9, doy - 183) else if doy < 245 then (10, doy - 213) else if doy < 275 then (11, doy - 244)
      else if doy < 306 then (12, doy - 274) else if doy < 337 then (1, doy - 305) else (2, doy - 336))"

definition march_date :: "int \<Rightarrow> nat \<Rightarrow> int \<times> nat \<times> nat" where
  "march_date y doy = (case month_table doy of (m, d) \<Rightarrow> (if m \<le> 2 then y + 1 else y, m, d))"

definition march_year_length :: "int \<Rightarrow> nat" where
  "march_year_length y = (if leap_year (y + 1) then 366 else 365)"

lemma month_formula:
  assumes "doy \<le> 365" "mp = (5 * doy + 2) div 153"
  shows "(if mp < 10 then mp + 3 else mp - 9, doy - (153 * mp + 2) div 5 + 1) = month_table doy"
proof -
  have mp: "153 * mp \<le> 5 * doy + 2" "5 * doy + 2 < 153 * mp + 153" unfolding assms(2) by linarith+
  then have "mp \<le> 11" using assms(1) by linarith
  then consider "mp = 0" | "mp = 1" | "mp = 2" | "mp = 3" | "mp = 4" | "mp = 5" | "mp = 6" | "mp = 7" | "mp = 8"
    | "mp = 9" | "mp = 10" | "mp = 11"
    by (auto simp: numeral_eq_Suc le_Suc_eq)
  then show ?thesis by cases (use mp assms(1) in \<open>simp_all add: month_table_def\<close>)
qed

lemma march_date_step:
  assumes "doy + 1 < march_year_length y"
  shows "march_date y (doy + 1) = next_day (march_date y doy)"
proof -
  have last: "doy < 364 \<or> doy = 364 \<and> leap_year (y + 1)" using assms by (simp add: march_year_length_def split: if_splits) linarith
  consider "doy < 31" | "31 \<le> doy" "doy < 61" | "61 \<le> doy" "doy < 92" | "92 \<le> doy" "doy < 122"
    | "122 \<le> doy" "doy < 153" | "153 \<le> doy" "doy < 184" | "184 \<le> doy" "doy < 214" | "214 \<le> doy" "doy < 245"
    | "245 \<le> doy" "doy < 275" | "275 \<le> doy" "doy < 306" | "306 \<le> doy" "doy < 337" | "337 \<le> doy"
    unfolding not_less [symmetric] by blast
  then show ?thesis
    by cases (use last in \<open>auto simp: march_date_def month_table_def days_in_month_def\<close>)
qed

lemma march_date_turn: "march_date (y + 1) 0 = next_day (march_date y (march_year_length y - 1))"
  by (simp add: march_date_def month_table_def days_in_month_def march_year_length_def)

lemma dvd_window:
  assumes "0 < x" "x \<le> n"
  shows "n dvd n * k + x \<longleftrightarrow> x = (n :: int)"
  using assms zdvd_imp_le [of n x] by (auto simp: dvd_add_right_iff)

lemma leap_year_of_era:
  assumes "c \<le> 3" "q \<le> 24" "r \<le> 3"
  shows "leap_year (400 * e + int (100 * c + 4 * q + r) + 1) \<longleftrightarrow> r = 3 \<and> (q < 24 \<or> c = 3)"
proof -
  define y where "y = 400 * e + int (100 * c + 4 * q + r) + 1"
  have y: "y = 4 * (100 * e + 25 * int c + int q) + (int r + 1)"
    "y = 100 * (4 * e + int c) + (4 * int q + int r + 1)" "y = 400 * e + (100 * int c + 4 * int q + int r + 1)"
    by (simp_all add: y_def)
  have "4 dvd y \<longleftrightarrow> int r + 1 = 4" using assms(3) unfolding y(1) by (intro dvd_window) simp_all
  moreover have "100 dvd y \<longleftrightarrow> 4 * int q + int r + 1 = 100"
    using assms(2,3) unfolding y(2) by (intro dvd_window) simp_all
  moreover have "400 dvd y \<longleftrightarrow> 100 * int c + 4 * int q + int r + 1 = 400"
    using assms unfolding y(3) by (intro dvd_window) simp_all
  ultimately show ?thesis unfolding leap_year_def y_def [symmetric] using assms by auto
qed

lemma floor_era: "trunc_div (if 0 \<le> z then z else z - 146096) 146097 = z div 146097"
proof (cases "0 \<le> z")
  case False
  have "- z + 146096 = 146097 * (- (z div 146097)) + (146096 - z mod 146097)" 
    using mult_div_mod_eq [of 146097 z] by linarith
  moreover have "0 \<le> 146096 - z mod 146097" "146096 - z mod 146097 < 146097" by simp_all
  ultimately have "(- z + 146096) div 146097 = - (z div 146097)" by (rule int_div_pos_eq)
  then show ?thesis using False by (simp add: trunc_div_def)
qed (simp add: trunc_div_def)

lemma civil_from_era_day:
  assumes v: "valid_day c q r doy"
  shows "civil_from_days (146097 * e + int (era_day c q r doy) - 719468) = march_date (400 * e + int (100 * c + 4 * q + r)) doy"
proof -
  let ?doe = "era_day c q r doy" and ?yoe = "100 * c + 4 * q + r"
  have b: "c \<le> 3" "q \<le> 24" "r \<le> 3" "doy \<le> 365" using v by (auto simp: valid_day_def)
  then have "?doe < 146097" using v by (auto simp: valid_day_def era_day_def)
  then have era: "(146097 * e + int ?doe) div 146097 = e" by simp
  have "?yoe div 4 = 25 * c + q" "?yoe div 100 = c" using b by simp_all
  then have doy: "?doe - (365 * ?yoe + ?yoe div 4 - ?yoe div 100) = doy" by (simp add: era_day_def)
  have yoe: "(?doe - ?doe div 1460 + ?doe div 36524 - ?doe div 146096) div 365 = ?yoe"
    using year_of_era_day [OF v] by (simp add: year_of_era_def)
  have simps: "146097 * e + int ?doe - 719468 + 719468 = 146097 * e + int ?doe"
    "nat (146097 * e + int ?doe - e * 146097) = ?doe" "int ?yoe + e * 400 = 400 * e + int ?yoe" by simp_all
  show ?thesis
    unfolding civil_from_days_def Let_def march_date_def month_formula [OF b(4) refl, symmetric]
    by (simp only: simps floor_era era yoe doy prod.case)
qed

text \<open>C35. The dates that \<open>civil_from_days\<close> computes with its divisions by 1460, 36524, 146096, 365 and 153 are those of
  the Gregorian calendar, on all days before and after the epoch: day 0 is the first of January 1970, and the date of
  each day is the next calendar day of the one before, by the lengths of the months and the rule of leap years.\<close>

theorem civil_from_days_calendar:
  "civil_from_days 0 = (1970, 1, 1) \<and> civil_from_days (days + 1) = next_day (civil_from_days days)"
proof
  have "valid_day 3 17 1 306" by (simp add: valid_day_def)
  from civil_from_era_day [OF this, of 4] show "civil_from_days 0 = (1970, 1, 1)"
    by (simp add: era_day_def march_date_def month_table_def)
next
  define z where "z = days + 719468"
  define e where "e = z div 146097"
  have "nat (z mod 146097) < 146097" by (simp add: nat_less_iff)
  then obtain c q r doy where doe: "nat (z mod 146097) = era_day c q r doy" and v: "valid_day c q r doy"
    by (rule era_day_exists)
  have z: "days = 146097 * e + int (era_day c q r doy) - 719468"
    unfolding doe [symmetric] by (simp add: e_def z_def)
  let ?y = "400 * e + int (100 * c + 4 * q + r)"
  have b: "c \<le> 3" "q \<le> 24" "r \<le> 3" using v by (auto simp: valid_day_def)
  have len: "march_year_length ?y = (if r = 3 \<and> (q < 24 \<or> c = 3) then 366 else 365)"
    unfolding march_year_length_def leap_year_of_era [OF b] ..
  have here: "civil_from_days days = march_date ?y doy" unfolding z by (rule civil_from_era_day [OF v])
  show "civil_from_days (days + 1) = next_day (civil_from_days days)"
  proof (cases "doy + 1 < march_year_length ?y")
    case True
    then have "valid_day c q r (doy + 1)" using v len by (auto simp: valid_day_def split: if_splits)
    from civil_from_era_day [OF this, of e] have "civil_from_days (days + 1) = march_date ?y (doy + 1)"
      by (simp add: z era_day_def algebra_simps)
    then show ?thesis using march_date_step [OF True] here by simp
  next
    case False
    then have last: "doy = march_year_length ?y - 1" using v len by (auto simp: valid_day_def split: if_splits)
    have turn: "civil_from_days (days + 1) = march_date (?y + 1) 0"
    proof -
      consider "r < 3" | "r = 3" "q < 24" | "r = 3" "q = 24" "c < 3" | "r = 3" "q = 24" "c = 3" using b by linarith
      then show ?thesis
      proof cases
        case 1
        then have "valid_day c q (r + 1) 0" using b by (simp add: valid_day_def)
        from civil_from_era_day [OF this, of e] show ?thesis
          using 1 last len by (simp add: z era_day_def algebra_simps)
      next
        case 2
        then have "valid_day c (q + 1) 0 0" using b by (simp add: valid_day_def)
        from civil_from_era_day [OF this, of e] show ?thesis
          using 2 last len by (simp add: z era_day_def algebra_simps)
      next
        case 3
        then have "valid_day (c + 1) 0 0 0" using b by (simp add: valid_day_def)
        from civil_from_era_day [OF this, of e] show ?thesis
          using 3 last len by (simp add: z era_day_def algebra_simps)
      next
        case 4
        have "valid_day 0 0 0 0" by (simp add: valid_day_def)
        from civil_from_era_day [OF this, of "e + 1"] show ?thesis
          using 4 last len by (simp add: z era_day_def algebra_simps)
      qed
    qed
    then show ?thesis using march_date_turn [of ?y] here last by simp
  qed
qed

end
