(* ===== verification/Trace_Fingerprint.thy ===== *)
theory Trace_Fingerprint
  imports Prelude
begin

text \<open>
  Fingerprints of request bodies (\<open>src/aimux-core/src/trace/hash.rs\<close>, \<open>fingerprint.rs\<close>): the keyed hashes, the chain of
  block hashes of a body and the removal of noise from its JSON. Bytes and hashes are words of their width, so that
  all arithmetic wraps as the code's does.
\<close>

unbundle bit_operations_syntax

type_synonym u128 = "128 word"

section \<open>Hashes\<close>

definition mix :: "u64 \<Rightarrow> u64" where
  "mix x0 =
     (let x1 = x0 XOR drop_bit 30 x0;
          x2 = x1 * 0xbf58476d1ce4e5b9;
          x3 = x2 XOR drop_bit 27 x2;
          x4 = x3 * 0x94d049bb133111eb
      in x4 XOR drop_bit 31 x4)"

text \<open>\<open>u64::from_le_bytes\<close>\<close>

fun from_le_bytes :: "u8 list \<Rightarrow> u64" where
  "from_le_bytes [] = 0"
| "from_le_bytes (b # bs) = ucast b OR push_bit 8 (from_le_bytes bs)"

text \<open>The loop over the chunks of eight bytes, with the bytes that remain.\<close>

function fold_words :: "u64 \<Rightarrow> u64 \<Rightarrow> u8 list \<Rightarrow> u64 \<times> u8 list" where
  "fold_words key h xs =
     (if length xs < 8 then (h, xs)
      else fold_words key
        (mix (word_rotl 27 (h XOR from_le_bytes (take 8 xs) * 0x9e3779b97f4a7c15) + key)) (drop 8 xs))"
  by auto
termination by (relation "measure (\<lambda>(_, _, xs). length xs)") auto

declare fold_words.simps [simp del]

fun xor_tail :: "nat \<Rightarrow> u8 list \<Rightarrow> u64 \<Rightarrow> u64" where
  "xor_tail i [] w = w"
| "xor_tail i (b # bs) w = xor_tail (i + 1) bs (w XOR push_bit (8 * i) (ucast b))"

definition hash64 :: "u64 \<Rightarrow> u8 list \<Rightarrow> u64" where
  "hash64 key xs =
     (case fold_words key (key XOR 0x9e3779b97f4a7c15) xs of
        (h, rem) \<Rightarrow> mix ((h XOR xor_tail 0 rem (of_nat (length xs)) * 0xd6e8feb86659fd93) XOR word_rotl 17 key))"

definition hash128 :: "u64 \<Rightarrow> u8 list \<Rightarrow> u128" where
  "hash128 key xs =
     (let k1 = mix (key XOR 0x243f6a8885a308d3);
          k2 = mix (k1 XOR 0x13198a2e03707344)
      in push_bit 64 (ucast (hash64 k1 xs)) OR ucast (hash64 k2 xs))"

definition low64 :: "u128 \<Rightarrow> u64" where
  "low64 h = ucast (h AND 0xffffffffffffffff)"

text \<open>\<open>format!("{h:032x}")\<close> and \<open>u128::from_str_radix(h, 16)\<close>\<close>

definition hex_char :: "nat \<Rightarrow> char" where
  "hex_char d = (if d < 10 then char_of (48 + d) else char_of (87 + d))"

definition hex128 :: "u128 \<Rightarrow> string" where
  "hex128 h = map (\<lambda>i. hex_char (unat h div 16 ^ i mod 16)) (rev [0..<32])"

definition hex_digit :: "char \<Rightarrow> nat option" where
  "hex_digit c =
     (let n = of_char c :: nat
      in if 48 \<le> n \<and> n \<le> 57 then Some (n - 48)
         else if 97 \<le> n \<and> n \<le> 102 then Some (n - 87)
         else if 65 \<le> n \<and> n \<le> 70 then Some (n - 55) else None)"

fun parse_hex_digits :: "nat \<Rightarrow> string \<Rightarrow> nat option" where
  "parse_hex_digits acc [] = Some acc"
| "parse_hex_digits acc (c # cs) = (case hex_digit c of
     None \<Rightarrow> None
   | Some d \<Rightarrow> if acc * 16 + d < 2 ^ 128 then parse_hex_digits (acc * 16 + d) cs else None)"

definition from_str_radix16 :: "string \<Rightarrow> u128 option" where
  "from_str_radix16 s =
     (if s = [] \<or> s = ''+'' then None
      else map_option of_nat (parse_hex_digits 0 (if hd s = CHR ''+'' then tl s else s)))"

section \<open>Chains\<close>

definition DEFAULT_BLOCK_SIZE :: nat where "DEFAULT_BLOCK_SIZE = 4096"

definition NOISE_KEYS :: "string list" where
  "NOISE_KEYS = [''request_id'', ''requestId'', ''timestamp'', ''nonce'']"

record chain =
  ch_body_hash :: u128
  ch_len_bytes :: u64
  ch_block_size :: nat
  ch_block_hashes :: "u128 list"

record block_chain_fingerprint =
  bf_block_size :: nat
  bf_scope_salt :: u64

text \<open>\<open>slice::chunks\<close>; the size is positive in every use (a debug assertion asks for 16).\<close>

function chunks :: "nat \<Rightarrow> 'a list \<Rightarrow> 'a list list" where
  "chunks n xs = (if xs = [] \<or> n = 0 then [] else take n xs # chunks n (drop n xs))"
  by auto
termination by (relation "measure (length \<circ> snd)") auto

declare chunks.simps [simp del]

fun chain_from :: "u64 \<Rightarrow> u128 \<Rightarrow> u8 list list \<Rightarrow> u128 list" where
  "chain_from salt prev [] = []"
| "chain_from salt prev (c # cs) = (let h = hash128 (mix (salt XOR low64 prev)) c in h # chain_from salt h cs)"

definition compute_chain :: "block_chain_fingerprint \<Rightarrow> u8 list \<Rightarrow> chain" where
  "compute_chain fp xs =
     \<lparr>ch_body_hash = hash128 (mix (bf_scope_salt fp XOR 0x517cc1b727220a95)) xs,
      ch_len_bytes = of_nat (length xs),
      ch_block_size = bf_block_size fp,
      ch_block_hashes = chain_from (bf_scope_salt fp) 0 (chunks (bf_block_size fp) xs)\<rparr>"

definition block_count :: "chain \<Rightarrow> u64" where
  "block_count c = of_nat (length (ch_block_hashes c))"

section \<open>Noise\<close>

definition noise_key :: "nat \<Rightarrow> string \<Rightarrow> bool" where
  "noise_key depth k \<longleftrightarrow> (if depth = 0 then k \<in> set NOISE_KEYS else k = ''request_id'' \<or> k = ''requestId'')"

fun denoise_at :: "nat \<Rightarrow> json \<Rightarrow> json" where
  "denoise_at depth (JObject m) = JObject (map (\<lambda>(k, v). (k, denoise_at (depth + 1) v)) (filter (\<lambda>(k, v). \<not> noise_key depth k) m))"
| "denoise_at depth (JArray vs) = JArray (map (denoise_at (depth + 1)) vs)"
| "denoise_at depth v = v"

definition denoise :: "json \<Rightarrow> json" where
  "denoise v = denoise_at 0 v"

record fingerprint =
  fp_body_hash :: string
  fp_len_bytes :: u64
  fp_block_size :: u64
  fp_block_hashes :: "string list"
  fp_token_estimate :: u64

definition fingerprint_of :: "chain \<Rightarrow> fingerprint" where
  "fingerprint_of c =
     \<lparr>fp_body_hash = hex128 (ch_body_hash c), fp_len_bytes = ch_len_bytes c, fp_block_size = of_nat (ch_block_size c),
      fp_block_hashes = map hex128 (ch_block_hashes c), fp_token_estimate = ch_len_bytes c div 4\<rparr>"

section \<open>Properties of the hashes\<close>

lemma xorshift_inj:
  fixes x y :: "'a::len word"
  assumes eq: "x XOR drop_bit n x = y XOR drop_bit n y" and n: "0 < n"
  shows "x = y"
proof (rule bit_eqI)
  fix i
  assume "possible_bit TYPE('a word) i"
  show "bit x i \<longleftrightarrow> bit y i"
  proof (induction "LENGTH('a) - i" arbitrary: i rule: less_induct)
    case less
    have "bit (x XOR drop_bit n x) i \<longleftrightarrow> bit (y XOR drop_bit n y) i" using eq by simp
    then have here: "(bit x i \<noteq> bit x (i + n)) \<longleftrightarrow> (bit y i \<noteq> bit y (i + n))" by (simp add: bit_xor_iff bit_drop_bit_eq add.commute)
    show ?case
    proof (cases "i < LENGTH('a)")
      case True
      then show ?thesis using less [of "i + n"] n here by auto
    next
      case False
      then show ?thesis by (meson bit_imp_le_length not_le)
    qed
  qed
qed

lemma times_unit_inj:
  fixes x y :: "'a::len word"
  assumes "c * d = 1" "x * c = y * c"
  shows "x = y"
  by (metis assms mult.assoc mult.right_neutral)

lemma xorshift_eq: "0 < n \<Longrightarrow> x XOR drop_bit n x = y XOR drop_bit n y \<longleftrightarrow> x = y" for x y :: "'a::len word"
  using xorshift_inj by blast

lemma times_eq: "c * d = 1 \<Longrightarrow> x * c = y * c \<longleftrightarrow> x = y" for x y :: "'a::len word"
  using times_unit_inj by blast

lemma odd_factors:
  "x * 0xbf58476d1ce4e5b9 = y * 0xbf58476d1ce4e5b9 \<longleftrightarrow> x = y"
  "x * 0x94d049bb133111eb = y * 0x94d049bb133111eb \<longleftrightarrow> x = y"
  "x * 0xd6e8feb86659fd93 = y * 0xd6e8feb86659fd93 \<longleftrightarrow> x = y" for x y :: u64
  using times_eq [of "0xbf58476d1ce4e5b9" "0x96de1b173f119089" x y] times_eq [of "0x94d049bb133111eb" "0x319642b2d24d8ec3" x y]
    times_eq [of "0xd6e8feb86659fd93" "0xcfee444d8b59a89b" x y] by simp_all

lemma mix_inj: "mix x = mix y \<longleftrightarrow> x = y"
  unfolding mix_def Let_def by (simp only: xorshift_eq zero_less_numeral odd_factors)

lemma xor_left_eq: "a XOR b = a XOR c \<longleftrightarrow> b = c" for a b c :: "'a::len word"
  by (metis xor.assoc xor.left_neutral xor_self_eq)

lemma xor_right_eq: "b XOR a = c XOR a \<longleftrightarrow> b = c" for a b c :: "'a::len word"
  by (metis xor_left_eq xor.commute)

text \<open>On fewer than eight bytes \<open>hash64\<close> separates exactly what its last word separates, under every key.\<close>

lemma hash64_short:
  assumes "length xs < 8" "length ys < 8"
  shows "hash64 key xs = hash64 key ys \<longleftrightarrow> xor_tail 0 xs (of_nat (length xs)) = xor_tail 0 ys (of_nat (length ys))"
  using assms
  by (simp add: hash64_def fold_words.simps [of _ _ xs] fold_words.simps [of _ _ ys] mix_inj xor_left_eq xor_right_eq odd_factors)

lemma hash128_inject: "hash128 key xs = hash128 key ys \<longleftrightarrow>
    (let k1 = mix (key XOR 0x243f6a8885a308d3); k2 = mix (k1 XOR 0x13198a2e03707344)
     in hash64 k1 xs = hash64 k1 ys \<and> hash64 k2 xs = hash64 k2 ys)"
proof -
  have "push_bit 64 (ucast a) OR ucast b = (push_bit 64 (ucast c) OR ucast d :: u128) \<longleftrightarrow> a = c \<and> b = d" for a b c d :: u64
  proof
    assume eq: "push_bit 64 (ucast a) OR ucast b = (push_bit 64 (ucast c) OR ucast d :: u128)"
    have hi: "bit a i \<longleftrightarrow> bit c i" and lo: "bit b i \<longleftrightarrow> bit d i" if "i < 64" for i
      using arg_cong [OF eq, of "\<lambda>w. bit w (64 + i)"] arg_cong [OF eq, of "\<lambda>w. bit w i"] that
      by (auto simp: bit_or_iff bit_push_bit_iff bit_ucast_iff dest: bit_imp_le_length)
    show "a = c \<and> b = d" using hi lo by (auto intro!: bit_word_eqI)
  qed simp
  then show ?thesis by (simp add: hash128_def Let_def)
qed

text \<open>The length is mixed into the same word as the last bytes, so for every key texts of different lengths collide.\<close>

lemma hash128_collision: "hash128 key [3] = hash128 key [0, 0]"
  by (simp add: hash128_inject hash64_short Let_def)

section \<open>Texts of hashes\<close>

lemma hex_digit_char: "d < 16 \<Longrightarrow> hex_digit (hex_char d) = Some d"
  by (auto simp: hex_digit_def hex_char_def Let_def)

lemma parse_hex_digits_shown:
  assumes "acc * 16 ^ k + n mod 16 ^ k < 2 ^ 128"
  shows "parse_hex_digits acc (map (\<lambda>i. hex_char (n div 16 ^ i mod 16)) (rev [0..<k])) = Some (acc * 16 ^ k + n mod 16 ^ k)"
  using assms
proof (induction k arbitrary: acc)
  case (Suc k)
  let ?d = "n div 16 ^ k mod 16"
  have split: "acc * 16 ^ Suc k + n mod 16 ^ Suc k = (acc * 16 + ?d) * 16 ^ k + n mod 16 ^ k"
    using mod_mult2_eq [of n "16 ^ k" 16] by (simp add: mult.commute distrib_left)
  then have "(acc * 16 + ?d) * 16 ^ k + n mod 16 ^ k < 2 ^ 128" using Suc.prems by simp
  moreover from this have "acc * 16 + ?d < 2 ^ 128"
  proof (rule le_less_trans [rotated])
    show "acc * 16 + ?d \<le> (acc * 16 + ?d) * 16 ^ k + n mod 16 ^ k" by (simp add: trans_le_add1)
  qed
  ultimately show ?case unfolding split using Suc.IH [of "acc * 16 + ?d"] by (simp add: hex_digit_char)
qed simp

lemma from_str_radix16_hex128 [simp]: "from_str_radix16 (hex128 h) = Some h"
proof -
  let ?s = "map (\<lambda>i. hex_char (unat h div 16 ^ i mod 16)) (rev [0..<32])"
  have "unat h < 2 ^ 128" using unsigned_less [of h] by simp
  then have "unat h mod 16 ^ 32 = unat h" by simp
  with \<open>unat h < 2 ^ 128\<close> have p: "parse_hex_digits 0 ?s = Some (unat h)"
    using parse_hex_digits_shown [of 0 32 "unat h"] by simp
  have "hex_char d \<noteq> CHR ''+''" if "d < 16" for d using hex_digit_char [OF that] by (auto simp: hex_digit_def)
  then have "hd ?s \<noteq> CHR ''+''" by (simp add: upt_rec)
  then show ?thesis using p by (simp add: from_str_radix16_def hex128_def upt_rec)
qed

section \<open>Chains follow common prefixes\<close>

lemma chunks_empty [simp]: "chunks n [] = []" "chunks 0 xs = []"
  by (subst chunks.simps, simp)+

lemma take_chunks: "take k (chunks n xs) = chunks n (take (k * n) xs)"
proof (induction n xs arbitrary: k rule: chunks.induct)
  case (1 n xs)
  show ?case
  proof (cases "xs = [] \<or> n = 0 \<or> k = 0")
    case True
    then show ?thesis by auto
  next
    case False
    then obtain k' where k: "k = Suc k'" by (cases k) auto
    have "take n (take (k * n) xs) = take n xs" "drop n (take (k * n) xs) = take (k' * n) (drop n xs)" "take (k * n) xs \<noteq> []"
      using False by (simp_all add: k drop_take min_absorb1)
    then have "chunks n (take (k * n) xs) = take n xs # chunks n (take (k' * n) (drop n xs))"
      using False by (subst chunks.simps) simp
    moreover have "chunks n xs = take n xs # chunks n (drop n xs)" using False by (subst chunks.simps) simp
    ultimately show ?thesis using 1 [of k'] False by (simp add: k)
  qed
qed

lemma concat_chunks: "0 < n \<Longrightarrow> concat (chunks n xs) = xs"
proof (induction n xs rule: chunks.induct)
  case (1 n xs)
  then show ?case by (subst chunks.simps) simp
qed

lemma take_chain_from: "take k (chain_from salt prev cs) = chain_from salt prev (take k cs)"
  by (induction cs arbitrary: k prev) (auto simp: Let_def take_Cons split: nat.split)

lemma length_chain_from [simp]: "length (chain_from salt prev cs) = length cs"
  by (induction cs arbitrary: prev) (simp_all add: Let_def)

lemma take_block_hashes:
  "take k (ch_block_hashes (compute_chain fp xs)) = ch_block_hashes (compute_chain fp (take (k * bf_block_size fp) xs))"
  by (simp add: compute_chain_def take_chain_from take_chunks)

lemma denoise_at_idem: "denoise_at depth (denoise_at depth v) = denoise_at depth v"
  by (induction depth v rule: denoise_at.induct) (auto simp: filter_map comp_def case_prod_unfold)

end
