(* ===== verification/Trace_Index.thy ===== *)
theory Trace_Index
  imports Trace_Fingerprint
begin

text \<open>
  The index of past requests (\<open>TraceStore\<close> of \<open>src/aimux-core/src/trace/store.rs\<close>): a ring of records with generations
  and a reverse index from the hashes of blocks to the places where they occurred. A reference whose generation is
  over is left in the index and skipped by lookups. An index out of the ring would panic; such a result is \<open>None\<close>.
\<close>

section \<open>State\<close>

record stored_record =
  sr_scope :: u64
  sr_session :: "string option"
  sr_len_bytes :: u64
  sr_t_send_ms :: u64
  sr_block_hashes :: "u128 list"

record ring_slot =
  rs_generation :: u32
  rs_record :: "stored_record option"

record block_ref =
  br_slot :: u32
  br_generation :: u32
  br_block :: u32

record match_info =
  mi_t_send_ms :: u64
  mi_session :: "string option"
  mi_len_bytes :: u64

record lcp_result =
  lr_lcp_bytes :: u64
  lr_matched_blocks :: u32
  lr_matched :: "match_info option"
  lr_candidate_expired :: bool

type_synonym block_index = "((u64 \<times> u64) \<times> block_ref list) list"

record trace_store =
  ts_cap :: nat
  ts_per_scope_cap :: nat
  ts_ring :: "ring_slot list"
  ts_next :: nat
  ts_index :: block_index
  ts_scope_count :: "(u64 \<times> u64) list"
  ts_tombstone_hits :: u64

definition empty_slot :: ring_slot where
  "empty_slot = \<lparr>rs_generation = 0, rs_record = None\<rparr>"

text \<open>\<open>TraceStore::new\<close> panics on a capacity of zero.\<close>

definition new_trace_store :: "nat \<Rightarrow> nat \<Rightarrow> trace_store option" where
  "new_trace_store cap per_scope_cap =
     (if 0 < cap
      then Some \<lparr>ts_cap = cap, ts_per_scope_cap = per_scope_cap, ts_ring = replicate cap empty_slot, ts_next = 0, ts_index = [],
                 ts_scope_count = [], ts_tombstone_hits = 0\<rparr>
      else None)"

definition records_in_scope :: "u64 \<Rightarrow> trace_store \<Rightarrow> u64" where
  "records_in_scope scope s = (case map_of (ts_scope_count s) scope of Some n \<Rightarrow> n | None \<Rightarrow> 0)"

section \<open>Insertion\<close>

definition push_ref :: "(u64 \<times> u64) \<Rightarrow> block_ref \<Rightarrow> block_index \<Rightarrow> block_index" where
  "push_ref k r index = hash_insert k ((case map_of index k of Some rs \<Rightarrow> rs | None \<Rightarrow> []) @ [r]) index"

text \<open>The loop that enters all blocks of a record.\<close>

fun push_blocks :: "u64 \<Rightarrow> u32 \<Rightarrow> u32 \<Rightarrow> nat \<Rightarrow> u128 list \<Rightarrow> block_index \<Rightarrow> block_index" where
  "push_blocks scope slot generation block [] index = index"
| "push_blocks scope slot generation block (h # hs) index =
     push_blocks scope slot generation (block + 1) hs
       (push_ref (scope, low64 h) \<lparr>br_slot = slot, br_generation = generation, br_block = of_nat block\<rparr> index)"

text \<open>\<open>if let Some(n) = scope_count.get_mut(..) { *n = n.saturating_sub(1) }\<close>\<close>

definition drop_scope_count :: "u64 \<Rightarrow> (u64 \<times> u64) list \<Rightarrow> (u64 \<times> u64) list" where
  "drop_scope_count scope counts = (case map_of counts scope of
     Some n \<Rightarrow> hash_insert scope (saturating_sub n 1) counts | None \<Rightarrow> counts)"

fun find_oldest :: "u64 \<Rightarrow> nat \<Rightarrow> ring_slot list \<Rightarrow> (nat \<times> u64) option \<Rightarrow> (nat \<times> u64) option" where
  "find_oldest scope i [] oldest = oldest"
| "find_oldest scope i (s # ss) oldest =
     find_oldest scope (i + 1) ss
       (case rs_record s of
          Some r \<Rightarrow> (if sr_scope r = scope \<and> (case oldest of Some (_, t) \<Rightarrow> sr_t_send_ms r < t | None \<Rightarrow> True)
                     then Some (i, sr_t_send_ms r) else oldest)
        | None \<Rightarrow> oldest)"

definition evict_oldest_in_scope :: "u64 \<Rightarrow> trace_store \<Rightarrow> trace_store" where
  "evict_oldest_in_scope scope s = (case find_oldest scope 0 (ts_ring s) None of
     Some (slot, _) \<Rightarrow>
       s\<lparr>ts_ring := (ts_ring s)[slot := \<lparr>rs_generation = rs_generation (ts_ring s ! slot) + 1, rs_record = None\<rparr>],
         ts_scope_count := drop_scope_count scope (ts_scope_count s)\<rparr>
   | None \<Rightarrow> s)"

text \<open>The slot is \<open>next % cap\<close>, so that it is in the ring.\<close>

definition place_record :: "stored_record \<Rightarrow> trace_store \<Rightarrow> trace_store" where
  "place_record rec s =
     (let slot = ts_next s mod ts_cap s;
          counts = (case rs_record (ts_ring s ! slot) of Some old \<Rightarrow> drop_scope_count (sr_scope old) (ts_scope_count s)
                    | None \<Rightarrow> ts_scope_count s);
          generation = rs_generation (ts_ring s ! slot) + 1;
          n = (case map_of counts (sr_scope rec) of Some n \<Rightarrow> n | None \<Rightarrow> 0)
      in s\<lparr>ts_ring := (ts_ring s)[slot := \<lparr>rs_generation = generation, rs_record = Some rec\<rparr>],
           ts_next := ts_next s + 1,
           ts_index := push_blocks (sr_scope rec) (of_nat slot) generation 0 (sr_block_hashes rec) (ts_index s),
           ts_scope_count := hash_insert (sr_scope rec) (n + 1) counts\<rparr>)"

definition insert_record :: "stored_record \<Rightarrow> trace_store \<Rightarrow> trace_store" where
  "insert_record rec s =
     place_record rec
       (if 0 < ts_per_scope_cap s \<and> of_nat (ts_per_scope_cap s) \<le> records_in_scope (sr_scope rec) s
        then evict_oldest_in_scope (sr_scope rec) s else s)"

section \<open>Lookup\<close>

fun common_prefix_blocks :: "'a list \<Rightarrow> 'a list \<Rightarrow> nat" where
  "common_prefix_blocks (a # as) (b # bs) = (if a = b then Suc (common_prefix_blocks as bs) else 0)"
| "common_prefix_blocks _ _ = 0"

record lookup_state =
  ls_best :: "(u64 \<times> match_info) option"
  ls_expired :: bool
  ls_tombstones :: u64

definition better_match :: "u64 \<Rightarrow> u64 \<Rightarrow> (u64 \<times> match_info) option \<Rightarrow> bool" where
  "better_match shared t best = (case best of
     None \<Rightarrow> True | Some (b, m) \<Rightarrow> b < shared \<or> shared = b \<and> mi_t_send_ms m < t)"

definition consider_record :: "u64 \<Rightarrow> u128 list \<Rightarrow> u64 \<Rightarrow> u64 \<Rightarrow> stored_record \<Rightarrow> lookup_state \<Rightarrow> lookup_state" where
  "consider_record scope hashes now ttl rec st =
     (if sr_scope rec \<noteq> scope then st
      else if sr_block_hashes rec = [] \<or> hd (sr_block_hashes rec) \<noteq> hd hashes then st
      else if ttl < saturating_sub now (sr_t_send_ms rec) then st\<lparr>ls_expired := True\<rparr>
      else
        (let shared = of_nat (common_prefix_blocks (sr_block_hashes rec) hashes);
             info = \<lparr>mi_t_send_ms = sr_t_send_ms rec, mi_session = sr_session rec, mi_len_bytes = sr_len_bytes rec\<rparr>
         in if better_match shared (sr_t_send_ms rec) (ls_best st) then st\<lparr>ls_best := Some (shared, info)\<rparr> else st))"

definition consider_ref ::
  "ring_slot list \<Rightarrow> u64 \<Rightarrow> u128 list \<Rightarrow> u64 \<Rightarrow> u64 \<Rightarrow> block_ref \<Rightarrow> lookup_state \<Rightarrow> lookup_state option" where
  "consider_ref ring scope hashes now ttl r st =
     (if br_block r \<noteq> 0 then Some st
      else if length ring \<le> unat (br_slot r) then None
      else
        (let slot = ring ! unat (br_slot r)
         in if rs_generation slot \<noteq> br_generation r then Some (st\<lparr>ls_tombstones := ls_tombstones st + 1\<rparr>)
            else (case rs_record slot of
                    None \<Rightarrow> Some st
                  | Some rec \<Rightarrow> Some (consider_record scope hashes now ttl rec st))))"

fun consider_refs ::
  "ring_slot list \<Rightarrow> u64 \<Rightarrow> u128 list \<Rightarrow> u64 \<Rightarrow> u64 \<Rightarrow> block_ref list \<Rightarrow> lookup_state \<Rightarrow> lookup_state option" where
  "consider_refs ring scope hashes now ttl [] st = Some st"
| "consider_refs ring scope hashes now ttl (r # rs) st = (case consider_ref ring scope hashes now ttl r st of
     None \<Rightarrow> None | Some st' \<Rightarrow> consider_refs ring scope hashes now ttl rs st')"

fun rebuild_index :: "nat \<Rightarrow> ring_slot list \<Rightarrow> block_index \<Rightarrow> block_index" where
  "rebuild_index slot [] index = index"
| "rebuild_index slot (s # ss) index =
     rebuild_index (slot + 1) ss
       (case rs_record s of
          Some rec \<Rightarrow> push_blocks (sr_scope rec) (of_nat slot) (rs_generation s) 0 (sr_block_hashes rec) index
        | None \<Rightarrow> index)"

definition index_refs :: "block_index \<Rightarrow> nat" where
  "index_refs index = sum_list (map (length \<circ> snd) index)"

definition maybe_rebuild_index :: "trace_store \<Rightarrow> trace_store" where
  "maybe_rebuild_index s =
     (let live = index_refs (ts_index s)
      in if 0 < live \<and> of_nat live < ts_tombstone_hits s * 4
         then s\<lparr>ts_index := rebuild_index 0 (ts_ring s) [], ts_tombstone_hits := 0\<rparr> else s)"

definition no_match :: "bool \<Rightarrow> lcp_result" where
  "no_match expired = \<lparr>lr_lcp_bytes = 0, lr_matched_blocks = 0, lr_matched = None, lr_candidate_expired = expired\<rparr>"

definition lookup_chain :: "u64 \<Rightarrow> chain \<Rightarrow> u64 \<Rightarrow> u64 \<Rightarrow> trace_store \<Rightarrow> (lcp_result \<times> trace_store) option" where
  "lookup_chain scope c now ttl s = (case ch_block_hashes c of
     [] \<Rightarrow> Some (no_match False, maybe_rebuild_index s)
   | first # _ \<Rightarrow>
       (case consider_refs (ts_ring s) scope (ch_block_hashes c) now ttl
               (case map_of (ts_index s) (scope, low64 first) of Some rs \<Rightarrow> rs | None \<Rightarrow> [])
               \<lparr>ls_best = None, ls_expired = False, ls_tombstones = ts_tombstone_hits s\<rparr> of
          None \<Rightarrow> None
        | Some st \<Rightarrow>
            Some
              ((case ls_best st of
                  Some (blocks, m) \<Rightarrow>
                    \<lparr>lr_lcp_bytes = blocks * of_nat (ch_block_size c), lr_matched_blocks = ucast blocks, lr_matched = Some m,
                     lr_candidate_expired = False\<rparr>
                | None \<Rightarrow> no_match (ls_expired st)),
               maybe_rebuild_index (s\<lparr>ts_tombstone_hits := ls_tombstones st\<rparr>))))"

section \<open>The index covers the ring\<close>

definition refs_at :: "block_index \<Rightarrow> (u64 \<times> u64) \<Rightarrow> block_ref list" where
  "refs_at index k = (case map_of index k of Some rs \<Rightarrow> rs | None \<Rightarrow> [])"

definition live_records :: "trace_store \<Rightarrow> stored_record list" where
  "live_records s = List.map_filter rs_record (ts_ring s)"

text \<open>Every record of the ring is referenced at its first block, with its generation.\<close>

definition slot_indexed :: "block_index \<Rightarrow> nat \<Rightarrow> ring_slot \<Rightarrow> bool" where
  "slot_indexed index i sl = (case rs_record sl of
     None \<Rightarrow> True
   | Some r \<Rightarrow> sr_block_hashes r = [] \<or>
       \<lparr>br_slot = of_nat i, br_generation = rs_generation sl, br_block = 0\<rparr>
         \<in> set (refs_at index (sr_scope r, low64 (hd (sr_block_hashes r)))))"

definition refs_bounded :: "nat \<Rightarrow> block_index \<Rightarrow> bool" where
  "refs_bounded cap index \<longleftrightarrow> (\<forall>k. \<forall>r \<in> set (refs_at index k). unat (br_slot r) < cap)"

definition index_covers :: "trace_store \<Rightarrow> bool" where
  "index_covers s \<longleftrightarrow> 0 < ts_cap s \<and> ts_cap s < 2 ^ 32 \<and> length (ts_ring s) = ts_cap s \<and> refs_bounded (ts_cap s) (ts_index s) \<and>
     (\<forall>i < ts_cap s. slot_indexed (ts_index s) i (ts_ring s ! i))"

lemma refs_at_push_ref: "refs_at (push_ref k r index) k' = refs_at index k' @ (if k' = k then [r] else [])"
  by (simp add: refs_at_def push_ref_def)

lemma set_refs_push_blocks:
  "set (refs_at (push_blocks scope slot g b hs index) k) = set (refs_at index k) \<union>
     {r. \<exists>j < length hs. k = (scope, low64 (hs ! j)) \<and> r = \<lparr>br_slot = slot, br_generation = g, br_block = of_nat (b + j)\<rparr>}"
proof (induction hs arbitrary: b index)
  case (Cons h hs)
  show ?case
    by (auto simp: Cons.IH refs_at_push_ref Ex_less_Suc2 simp del: of_nat_add of_nat_Suc)
qed simp

lemma slot_indexed_mono:
  assumes "slot_indexed index i sl" "\<And>k. set (refs_at index k) \<subseteq> set (refs_at index' k)"
  shows "slot_indexed index' i sl"
  using assms by (auto simp: slot_indexed_def split: option.splits)

lemma refs_bounded_push_blocks:
  assumes "refs_bounded cap index" "i < cap" "cap < 2 ^ 32"
  shows "refs_bounded cap (push_blocks scope (of_nat i) g b hs index)"
proof -
  have "unat (of_nat i :: u32) = i" using assms by (simp add: unat_of_nat)
  then show ?thesis using assms by (auto simp: refs_bounded_def set_refs_push_blocks)
qed

lemma push_blocks_indexes:
  assumes "rs_record sl = Some r" "rs_generation sl = g"
  shows "slot_indexed (push_blocks (sr_scope r) (of_nat i) g 0 (sr_block_hashes r) index) i sl"
  using assms by (cases "sr_block_hashes r") (auto simp: slot_indexed_def set_refs_push_blocks refs_at_push_ref)

lemma evict_covers:
  assumes "index_covers s"
  shows "index_covers (evict_oldest_in_scope scope s)"
proof (cases "find_oldest scope 0 (ts_ring s) None")
  case (Some p)
  obtain slot t where p: "p = (slot, t)" by fastforce
  let ?gone = "\<lparr>rs_generation = rs_generation (ts_ring s ! slot) + 1, rs_record = None\<rparr>"
  have "slot_indexed (ts_index s) i ((ts_ring s)[slot := ?gone] ! i)" if "i < ts_cap s" for i
    using assms that by (cases "i = slot") (auto simp: index_covers_def slot_indexed_def)
  then show ?thesis using assms Some p by (simp add: index_covers_def evict_oldest_in_scope_def)
qed (use assms in \<open>simp add: evict_oldest_in_scope_def\<close>)

lemma place_covers:
  assumes "index_covers s"
  shows "index_covers (place_record rec s)"
proof -
  let ?slot = "ts_next s mod ts_cap s"
  have slot: "?slot < ts_cap s" and ring: "length (ts_ring s) = ts_cap s" using assms by (auto simp: index_covers_def)
  have "slot_indexed (ts_index (place_record rec s)) i (ts_ring (place_record rec s) ! i)" if i: "i < ts_cap s" for i
  proof (cases "i = ?slot")
    case True
    then show ?thesis using push_blocks_indexes [of _ rec] slot ring by (simp add: place_record_def Let_def)
  next
    case False
    then have "slot_indexed (ts_index s) i (ts_ring (place_record rec s) ! i)"
      using assms i by (simp add: index_covers_def place_record_def Let_def)
    then show ?thesis by (rule slot_indexed_mono) (auto simp: place_record_def Let_def set_refs_push_blocks)
  qed
  moreover have "refs_bounded (ts_cap s) (ts_index (place_record rec s))"
    using assms slot by (auto simp: place_record_def Let_def index_covers_def intro: refs_bounded_push_blocks)
  ultimately show ?thesis using assms by (simp add: index_covers_def place_record_def Let_def)
qed

lemma insert_covers: "index_covers s \<Longrightarrow> index_covers (insert_record rec s)"
  by (simp add: insert_record_def place_covers evict_covers)

lemma rebuild_grows: "set (refs_at index k) \<subseteq> set (refs_at (rebuild_index i ring index) k)"
  by (induction i ring index rule: rebuild_index.induct) (auto simp: set_refs_push_blocks split: option.splits)

lemma rebuild_indexes: "j < length ring \<Longrightarrow> slot_indexed (rebuild_index i ring index) (i + j) (ring ! j)"
proof (induction ring arbitrary: i j index)
  case (Cons sl ring)
  show ?case
  proof (cases j)
    case 0
    show ?thesis
    proof (cases "rs_record sl")
      case (Some r)
      then show ?thesis unfolding 0
        using slot_indexed_mono [OF push_blocks_indexes [OF Some refl] rebuild_grows] by simp
    qed (simp add: 0 slot_indexed_def)
  next
    case (Suc j')
    then show ?thesis using Cons.IH [of j' "i + 1"] Cons.prems by simp
  qed
qed simp

lemma rebuild_bounded:
  assumes "refs_bounded cap index" "i + length ring \<le> cap" "cap < 2 ^ 32"
  shows "refs_bounded cap (rebuild_index i ring index)"
  using assms
proof (induction i ring index rule: rebuild_index.induct)
  case (2 slot sl ring index)
  have "refs_bounded cap (case rs_record sl of
      Some r \<Rightarrow> push_blocks (sr_scope r) (of_nat slot) (rs_generation sl) 0 (sr_block_hashes r) index | None \<Rightarrow> index)"
    using 2 refs_bounded_push_blocks by (auto split: option.splits)
  then show ?case using 2 by simp
qed simp

lemma maybe_rebuild_covers:
  assumes "index_covers s"
  shows "index_covers (maybe_rebuild_index s)"
proof -
  have "refs_bounded (ts_cap s) []" by (simp add: refs_bounded_def refs_at_def)
  then have "refs_bounded (ts_cap s) (rebuild_index 0 (ts_ring s) [])"
    using assms by (intro rebuild_bounded) (auto simp: index_covers_def)
  then show ?thesis using assms rebuild_indexes [of _ "ts_ring s" 0 "[]"] by (simp add: index_covers_def maybe_rebuild_index_def Let_def)
qed

section \<open>Lookups find the best record of the ring\<close>

text \<open>
  The reference: a candidate is a record of the scope that shares at least its first block with the request. Of the
  candidates within their time to live one with the longest shared prefix is taken, and of these one sent last.
\<close>

definition candidate :: "u64 \<Rightarrow> u128 list \<Rightarrow> stored_record \<Rightarrow> bool" where
  "candidate scope hashes r \<longleftrightarrow> sr_scope r = scope \<and> 0 < common_prefix_blocks (sr_block_hashes r) hashes"

definition in_time :: "u64 \<Rightarrow> u64 \<Rightarrow> stored_record \<Rightarrow> bool" where
  "in_time now ttl r \<longleftrightarrow> saturating_sub now (sr_t_send_ms r) \<le> ttl"

definition rank :: "u128 list \<Rightarrow> stored_record \<Rightarrow> nat \<times> u64" where
  "rank hashes r = (common_prefix_blocks (sr_block_hashes r) hashes, sr_t_send_ms r)"

definition rank_le :: "nat \<times> u64 \<Rightarrow> nat \<times> u64 \<Rightarrow> bool" where
  "rank_le x y \<longleftrightarrow> fst x < fst y \<or> fst x = fst y \<and> snd x \<le> snd y"

definition match_of :: "stored_record \<Rightarrow> match_info" where
  "match_of r = \<lparr>mi_t_send_ms = sr_t_send_ms r, mi_session = sr_session r, mi_len_bytes = sr_len_bytes r\<rparr>"

definition best_record :: "u128 list \<Rightarrow> stored_record set \<Rightarrow> stored_record \<Rightarrow> bool" where
  "best_record hashes rs r \<longleftrightarrow> r \<in> rs \<and> (\<forall>r' \<in> rs. rank_le (rank hashes r') (rank hashes r))"

definition lookup_spec :: "stored_record list \<Rightarrow> u64 \<Rightarrow> chain \<Rightarrow> u64 \<Rightarrow> u64 \<Rightarrow> lcp_result \<Rightarrow> bool" where
  "lookup_spec rs scope c now ttl res =
     (let cs = {r \<in> set rs. candidate scope (ch_block_hashes c) r}; live = {r \<in> cs. in_time now ttl r}
      in if live = {} then res = no_match (cs \<noteq> {})
         else \<exists>r. best_record (ch_block_hashes c) live r \<and>
           (let n = common_prefix_blocks (sr_block_hashes r) (ch_block_hashes c)
            in res = \<lparr>lr_lcp_bytes = of_nat n * of_nat (ch_block_size c), lr_matched_blocks = of_nat n, lr_matched = Some (match_of r),
                      lr_candidate_expired = False\<rparr>))"

lemma common_prefix_bound: "common_prefix_blocks xs ys \<le> length ys"
  by (induction xs ys rule: common_prefix_blocks.induct) auto

lemma candidate_iff_first:
  "hashes \<noteq> [] \<Longrightarrow> candidate scope hashes r \<longleftrightarrow>
     sr_scope r = scope \<and> sr_block_hashes r \<noteq> [] \<and> hd (sr_block_hashes r) = hd hashes"
  by (cases hashes; cases "sr_block_hashes r") (auto simp: candidate_def)

lemma rank_le_linear: "rank_le x y \<or> rank_le y x"
  by (auto simp: rank_le_def)

lemma rank_le_trans: "rank_le x y \<Longrightarrow> rank_le y z \<Longrightarrow> rank_le x z"
  by (auto simp: rank_le_def)

text \<open>The state of a lookup after the records of a set.\<close>

definition best_so_far :: "u128 list \<Rightarrow> stored_record set \<Rightarrow> (u64 \<times> match_info) option \<Rightarrow> bool" where
  "best_so_far hashes rs best = (case best of
     None \<Rightarrow> rs = {}
   | Some (n, m) \<Rightarrow> \<exists>r. best_record hashes rs r \<and> n = of_nat (common_prefix_blocks (sr_block_hashes r) hashes) \<and> m = match_of r)"

lemma better_match_rank:
  fixes r b :: stored_record
  assumes "length hashes < 2 ^ 32"
  shows "better_match (of_nat (common_prefix_blocks (sr_block_hashes r) hashes)) (sr_t_send_ms r)
      (Some (of_nat (common_prefix_blocks (sr_block_hashes b) hashes), match_of b)) \<longleftrightarrow> \<not> rank_le (rank hashes r) (rank hashes b)"
proof -
  have "unat (of_nat (common_prefix_blocks (sr_block_hashes x) hashes) :: u64) = common_prefix_blocks (sr_block_hashes x) hashes"
    for x :: stored_record using common_prefix_bound [of "sr_block_hashes x" hashes] assms by (simp add: unat_of_nat)
  then show ?thesis
    by (auto simp: better_match_def rank_le_def rank_def match_of_def word_less_nat_alt word_le_nat_alt word_unat_eq_iff)
qed

lemma consider_record_step:
  fixes x :: stored_record
  assumes hashes: "hashes \<noteq> []" "length hashes < 2 ^ 32"
    and best: "best_so_far hashes {r \<in> A. candidate scope hashes r \<and> in_time now ttl r} (ls_best st)"
    and late: "ls_expired st \<longleftrightarrow> (\<exists>r \<in> A. candidate scope hashes r \<and> \<not> in_time now ttl r)"
  defines "st' \<equiv> consider_record scope hashes now ttl x st"
  shows "best_so_far hashes {r \<in> insert x A. candidate scope hashes r \<and> in_time now ttl r} (ls_best st')"
    and "ls_expired st' \<longleftrightarrow> (\<exists>r \<in> insert x A. candidate scope hashes r \<and> \<not> in_time now ttl r)"
proof -
  let ?live = "{r \<in> A. candidate scope hashes r \<and> in_time now ttl r}"
  let ?n = "of_nat (common_prefix_blocks (sr_block_hashes x) hashes) :: u64"
  have eq: "st' = (if \<not> candidate scope hashes x then st else if \<not> in_time now ttl x then st\<lparr>ls_expired := True\<rparr>
      else if better_match ?n (sr_t_send_ms x) (ls_best st) then st\<lparr>ls_best := Some (?n, match_of x)\<rparr> else st)"
    unfolding st'_def using candidate_iff_first [OF hashes(1), of scope x]
    by (simp add: consider_record_def in_time_def match_of_def not_le Let_def)
  show "ls_expired st' \<longleftrightarrow> (\<exists>r \<in> insert x A. candidate scope hashes r \<and> \<not> in_time now ttl r)"
    using late by (auto simp: eq)
  show "best_so_far hashes {r \<in> insert x A. candidate scope hashes r \<and> in_time now ttl r} (ls_best st')"
  proof (cases "candidate scope hashes x \<and> in_time now ttl x")
    case False
    then have "{r \<in> insert x A. candidate scope hashes r \<and> in_time now ttl r} = ?live" by auto
    then show ?thesis using best False by (simp add: eq)
  next
    case True
    then have set: "{r \<in> insert x A. candidate scope hashes r \<and> in_time now ttl r} = insert x ?live" by auto
    show ?thesis
    proof (cases "ls_best st")
      case None
      then show ?thesis using best True
        by (auto simp: eq set best_so_far_def better_match_def best_record_def rank_le_def)
    next
      case (Some p)
      then obtain b where b: "best_record hashes ?live b"
        "ls_best st = Some (of_nat (common_prefix_blocks (sr_block_hashes b) hashes), match_of b)"
        using best by (cases p) (auto simp: best_so_far_def)
      have "best_record hashes (insert x ?live) (if rank_le (rank hashes x) (rank hashes b) then b else x)"
        using b(1) rank_le_linear [of "rank hashes x"] rank_le_trans by (auto simp: best_record_def; metis)
      then show ?thesis
        using True better_match_rank [OF hashes(2), of x b] unfolding set by (auto simp: eq b(2) best_so_far_def)
    qed
  qed
qed

definition visited :: "ring_slot list \<Rightarrow> block_ref \<Rightarrow> stored_record option" where
  "visited ring r = (if br_block r \<noteq> 0 \<or> rs_generation (ring ! unat (br_slot r)) \<noteq> br_generation r then None
     else rs_record (ring ! unat (br_slot r)))"

lemma consider_refs_exact:
  assumes hashes: "hashes \<noteq> []" "length hashes < 2 ^ 32"
    and "\<forall>r \<in> set rs. unat (br_slot r) < length ring"
    and "best_so_far hashes {r \<in> A. candidate scope hashes r \<and> in_time now ttl r} (ls_best st)"
    and "ls_expired st \<longleftrightarrow> (\<exists>r \<in> A. candidate scope hashes r \<and> \<not> in_time now ttl r)"
  shows "\<exists>st'. consider_refs ring scope hashes now ttl rs st = Some st' \<and>
    best_so_far hashes {r \<in> A \<union> set (List.map_filter (visited ring) rs). candidate scope hashes r \<and> in_time now ttl r} (ls_best st') \<and>
    (ls_expired st' \<longleftrightarrow> (\<exists>r \<in> A \<union> set (List.map_filter (visited ring) rs). candidate scope hashes r \<and> \<not> in_time now ttl r))"
  using assms(3-5)
proof (induction rs arbitrary: A st)
  case Nil
  then show ?case by (simp add: List.map_filter_simps)
next
  case (Cons x rs)
  define st1 where "st1 = (case visited ring x of Some rec \<Rightarrow> consider_record scope hashes now ttl rec st | None \<Rightarrow>
      (if br_block x = 0 \<and> rs_generation (ring ! unat (br_slot x)) \<noteq> br_generation x
       then st\<lparr>ls_tombstones := ls_tombstones st + 1\<rparr> else st))"
  define A1 where "A1 = (case visited ring x of Some rec \<Rightarrow> insert rec A | None \<Rightarrow> A)"
  have step: "consider_ref ring scope hashes now ttl x st = Some st1"
    using Cons.prems(1) by (auto simp: consider_ref_def st1_def visited_def Let_def split: option.splits)
  have "best_so_far hashes {r \<in> A1. candidate scope hashes r \<and> in_time now ttl r} (ls_best st1)"
    "ls_expired st1 \<longleftrightarrow> (\<exists>r \<in> A1. candidate scope hashes r \<and> \<not> in_time now ttl r)"
    using consider_record_step [OF hashes Cons.prems(2,3)] Cons.prems(2,3)
    unfolding st1_def A1_def by (cases "visited ring x"; simp)+
  moreover have "A1 \<union> set (List.map_filter (visited ring) rs) = A \<union> set (List.map_filter (visited ring) (x # rs))"
    by (cases "visited ring x") (auto simp: A1_def List.map_filter_simps)
  ultimately show ?case using Cons.IH [of A1 st1] Cons.prems(1) step by simp
qed

lemma covered_candidates:
  assumes "index_covers s" "hashes \<noteq> []" "candidate scope hashes r"
  shows "r \<in> set (List.map_filter (visited (ts_ring s)) (refs_at (ts_index s) (scope, low64 (hd hashes)))) \<longleftrightarrow> r \<in> set (live_records s)"
proof
  assume "r \<in> set (List.map_filter (visited (ts_ring s)) (refs_at (ts_index s) (scope, low64 (hd hashes))))"
  then obtain ref where "ref \<in> set (refs_at (ts_index s) (scope, low64 (hd hashes)))" "visited (ts_ring s) ref = Some r"
    by (auto simp: set_map_filter)
  then have "unat (br_slot ref) < length (ts_ring s)" "rs_record (ts_ring s ! unat (br_slot ref)) = Some r"
    using assms(1) by (auto simp: index_covers_def refs_bounded_def visited_def split: if_splits)
  then show "r \<in> set (live_records s)" unfolding live_records_def set_map_filter using nth_mem by blast
next
  assume "r \<in> set (live_records s)"
  then obtain i where i: "i < ts_cap s" "rs_record (ts_ring s ! i) = Some r"
    using assms(1) by (auto simp: live_records_def set_map_filter in_set_conv_nth index_covers_def)
  let ?ref = "\<lparr>br_slot = of_nat i, br_generation = rs_generation (ts_ring s ! i), br_block = 0\<rparr>"
  have "slot_indexed (ts_index s) i (ts_ring s ! i)" "ts_cap s < 2 ^ 32" using assms(1) i(1) by (auto simp: index_covers_def)
  then have "?ref \<in> set (refs_at (ts_index s) (scope, low64 (hd hashes)))"
    using i(2) assms(3) candidate_iff_first [OF assms(2)] by (auto simp: slot_indexed_def)
  moreover have "unat (of_nat i :: u32) = i" using i(1) \<open>ts_cap s < 2 ^ 32\<close> by (simp add: unat_of_nat)
  then have "visited (ts_ring s) ?ref = Some r" using i(2) by (simp add: visited_def)
  ultimately show "r \<in> set (List.map_filter (visited (ts_ring s)) (refs_at (ts_index s) (scope, low64 (hd hashes))))"
    unfolding set_map_filter by blast
qed

lemma lookup_covers:
  assumes I: "index_covers s" and len: "length (ch_block_hashes c) < 2 ^ 32"
  shows "\<exists>res s'. lookup_chain scope c now ttl s = Some (res, s') \<and> lookup_spec (live_records s) scope c now ttl res \<and>
    index_covers s' \<and> ts_ring s' = ts_ring s \<and> ts_scope_count s' = ts_scope_count s"
proof (cases "ch_block_hashes c")
  case Nil
  then show ?thesis using maybe_rebuild_covers [OF I]
    by (simp add: lookup_chain_def lookup_spec_def candidate_def maybe_rebuild_index_def Let_def)
next
  case (Cons first more_hashes)
  let ?hs = "ch_block_hashes c" and ?refs = "refs_at (ts_index s) (scope, low64 first)"
  let ?st = "\<lparr>ls_best = None, ls_expired = False, ls_tombstones = ts_tombstone_hits s\<rparr>"
  let ?seen = "set (List.map_filter (visited (ts_ring s)) ?refs)"
  have hs: "?hs \<noteq> []" "hd ?hs = first" using Cons by simp_all
  have "\<forall>r \<in> set ?refs. unat (br_slot r) < length (ts_ring s)" using I by (auto simp: index_covers_def refs_bounded_def)
  from consider_refs_exact [OF hs(1) len this, of "{}" scope now ttl ?st]
  obtain st where run: "consider_refs (ts_ring s) scope ?hs now ttl ?refs ?st = Some st"
    and best: "best_so_far ?hs {r \<in> ?seen. candidate scope ?hs r \<and> in_time now ttl r} (ls_best st)"
    and late: "ls_expired st \<longleftrightarrow> (\<exists>r \<in> ?seen. candidate scope ?hs r \<and> \<not> in_time now ttl r)"
    by (auto simp: best_so_far_def)
  have seen: "r \<in> ?seen \<longleftrightarrow> r \<in> set (live_records s)" if "candidate scope ?hs r" for r
    using covered_candidates [OF I hs(1) that] hs(2) by simp
  let ?cs = "{r \<in> set (live_records s). candidate scope ?hs r}" and ?s = "maybe_rebuild_index (s\<lparr>ts_tombstone_hits := ls_tombstones st\<rparr>)"
  have live: "{r \<in> ?seen. candidate scope ?hs r \<and> in_time now ttl r} = {r \<in> ?cs. in_time now ttl r}" using seen by auto
  define res where "res = (case ls_best st of
      Some (blocks, m) \<Rightarrow>
        \<lparr>lr_lcp_bytes = blocks * of_nat (ch_block_size c), lr_matched_blocks = ucast blocks, lr_matched = Some m, lr_candidate_expired = False\<rparr>
    | None \<Rightarrow> no_match (ls_expired st))"
  have "lookup_chain scope c now ttl s = Some (res, ?s)"
    using run Cons by (simp add: lookup_chain_def refs_at_def res_def)
  moreover have "lookup_spec (live_records s) scope c now ttl res"
  proof (cases "ls_best st")
    case None
    then have "{r \<in> ?cs. in_time now ttl r} = {}" using best live by (simp add: best_so_far_def)
    moreover from this have "ls_expired st \<longleftrightarrow> ?cs \<noteq> {}" using late seen by auto
    ultimately show ?thesis using None unfolding lookup_spec_def Let_def res_def by simp
  next
    case (Some p)
    then obtain r where r: "best_record ?hs {r \<in> ?cs. in_time now ttl r} r"
      "ls_best st = Some (of_nat (common_prefix_blocks (sr_block_hashes r) ?hs), match_of r)"
      using best live by (cases p) (auto simp: best_so_far_def)
    have "common_prefix_blocks (sr_block_hashes r) ?hs < 2 ^ 64" using common_prefix_bound [of "sr_block_hashes r" ?hs] len by simp
    then have "(ucast (of_nat (common_prefix_blocks (sr_block_hashes r) ?hs) :: u64) :: u32) = of_nat (common_prefix_blocks (sr_block_hashes r) ?hs)"
      by (simp add: unsigned_of_nat take_bit_nat_eq_self)
    moreover have "{r \<in> ?cs. in_time now ttl r} \<noteq> {}" using r(1) by (auto simp: best_record_def)
    ultimately show ?thesis using r unfolding lookup_spec_def Let_def res_def by auto
  qed
  moreover have "index_covers ?s"
    using maybe_rebuild_covers [of "s\<lparr>ts_tombstone_hits := ls_tombstones st\<rparr>"] I by (simp add: index_covers_def)
  ultimately show ?thesis by (auto simp: maybe_rebuild_index_def Let_def)
qed

section \<open>The counts of scopes are exact\<close>

definition in_scope :: "u64 \<Rightarrow> ring_slot \<Rightarrow> bool" where
  "in_scope scope sl = (case rs_record sl of Some r \<Rightarrow> sr_scope r = scope | None \<Rightarrow> False)"

definition scope_size :: "u64 \<Rightarrow> trace_store \<Rightarrow> nat" where
  "scope_size scope s = length (filter (in_scope scope) (ts_ring s))"

definition scopes_exact :: "trace_store \<Rightarrow> bool" where
  "scopes_exact s \<longleftrightarrow> 0 < ts_per_scope_cap s \<and> ts_per_scope_cap s < 2 ^ 64 \<and>
     (\<forall>scope. unat (records_in_scope scope s) = scope_size scope s \<and> scope_size scope s \<le> ts_per_scope_cap s)"

lemma scope_size_live: "scope_size scope s = length (filter (\<lambda>r. sr_scope r = scope) (live_records s))"
proof -
  have "length (filter (in_scope scope) ring) = length (filter (\<lambda>r. sr_scope r = scope) (List.map_filter rs_record ring))" for ring
    by (induction ring) (auto simp: in_scope_def List.map_filter_simps split: option.splits)
  then show ?thesis by (simp add: scope_size_def live_records_def)
qed

lemma length_filter_update:
  "i < length xs \<Longrightarrow> length (filter P (xs[i := x])) + of_bool (P (xs ! i)) = length (filter P xs) + of_bool (P x)"
proof (induction xs arbitrary: i)
  case (Cons y ys)
  show ?case
  proof (cases i)
    case (Suc j)
    then show ?thesis using Cons.IH [of j] Cons.prems by (cases "P y") simp_all
  qed simp
qed simp

lemma scope_size_le: "scope_size scope s \<le> length (ts_ring s)"
  by (simp add: scope_size_def)

lemma find_oldest_Some:
  assumes "find_oldest scope k ss old = Some (i, t)"
  shows "old = Some (i, t) \<or> (k \<le> i \<and> i < k + length ss \<and> in_scope scope (ss ! (i - k)))"
  using assms
proof (induction scope k ss old rule: find_oldest.induct)
  case (2 scope k sl ss old)
  then show ?case
    by (fastforce simp: in_scope_def nth_Cons' Suc_le_eq split: option.splits if_splits prod.splits)
qed simp

lemma find_oldest_None:
  assumes "find_oldest scope k ss old = None"
  shows "old = None \<and> filter (in_scope scope) ss = []"
  using assms
proof (induction scope k ss old rule: find_oldest.induct)
  case (2 scope k sl ss old)
  then show ?case by (auto simp: in_scope_def split: option.splits if_splits prod.splits)
qed simp

definition count_in :: "(u64 \<times> u64) list \<Rightarrow> u64 \<Rightarrow> u64" where
  "count_in counts scope = (case map_of counts scope of Some n \<Rightarrow> n | None \<Rightarrow> 0)"

lemma records_in_scope_count: "records_in_scope scope s = count_in (ts_scope_count s) scope"
  by (simp add: records_in_scope_def count_in_def)

lemma count_in_drop: "count_in (drop_scope_count scope counts) k = (if k = scope then saturating_sub (count_in counts k) 1 else count_in counts k)"
  by (auto simp: count_in_def drop_scope_count_def saturating_sub_def split: option.splits)

lemma count_in_insert: "count_in (hash_insert scope n counts) k = (if k = scope then n else count_in counts k)"
  by (simp add: count_in_def)

definition counted :: "trace_store \<Rightarrow> bool" where
  "counted s \<longleftrightarrow> (\<forall>scope. unat (count_in (ts_scope_count s) scope) = scope_size scope s)"

lemma evict_counts:
  assumes "counted s"
  shows "counted (evict_oldest_in_scope scope s)"
    and "scope_size k (evict_oldest_in_scope scope s) = (if k = scope then scope_size k s - 1 else scope_size k s)"
proof -
  have "counted (evict_oldest_in_scope scope s) \<and>
    (\<forall>k. scope_size k (evict_oldest_in_scope scope s) = (if k = scope then scope_size k s - 1 else scope_size k s))"
  proof (cases "find_oldest scope 0 (ts_ring s) None")
    case None
    then have "scope_size scope s = 0" using find_oldest_None by (simp add: scope_size_def)
    then show ?thesis using assms None by (simp add: evict_oldest_in_scope_def)
  next
    case (Some p)
    obtain i t where p: "p = (i, t)" by fastforce
    have i: "i < length (ts_ring s)" "in_scope scope (ts_ring s ! i)"
      using find_oldest_Some [of scope 0 "ts_ring s" None i t] Some p by auto
    have "in_scope k (ts_ring s ! i) \<longleftrightarrow> k = scope" for k using i(2) by (auto simp: in_scope_def split: option.splits)
    then have size: "scope_size k (evict_oldest_in_scope scope s) = (if k = scope then scope_size k s - 1 else scope_size k s)" for k
      using length_filter_update [OF i(1), of "in_scope k" "\<lparr>rs_generation = rs_generation (ts_ring s ! i) + 1, rs_record = None\<rparr>"]
      by (cases "k = scope") (simp_all add: evict_oldest_in_scope_def Some p scope_size_def in_scope_def)
    then show ?thesis using assms
      by (auto simp: counted_def evict_oldest_in_scope_def Some p count_in_drop unat_saturating_sub)
  qed
  then show "counted (evict_oldest_in_scope scope s)"
    "scope_size k (evict_oldest_in_scope scope s) = (if k = scope then scope_size k s - 1 else scope_size k s)" by auto
qed

lemma place_counts:
  assumes C: "counted s" and I: "index_covers s"
  shows "counted (place_record rec s)"
    and "scope_size k (place_record rec s) \<le> scope_size k s + of_bool (k = sr_scope rec)"
proof -
  let ?i = "ts_next s mod ts_cap s"
  have i: "?i < length (ts_ring s)" and cap: "length (ts_ring s) < 2 ^ 32" using I by (auto simp: index_covers_def)
  let ?new = "\<lparr>rs_generation = rs_generation (ts_ring s ! ?i) + 1, rs_record = Some rec\<rparr>"
  have size: "scope_size k (place_record rec s) + of_bool (in_scope k (ts_ring s ! ?i)) = scope_size k s + of_bool (k = sr_scope rec)" for k
    using length_filter_update [OF i, of "in_scope k" ?new]
    by (simp add: place_record_def Let_def scope_size_def in_scope_def eq_commute)
  then show "scope_size k (place_record rec s) \<le> scope_size k s + of_bool (k = sr_scope rec)" by (metis le_add1)
  have least: "of_bool (in_scope k (ts_ring s ! ?i)) \<le> scope_size k s" for k
    using i by (auto simp: scope_size_def filter_empty_conv Suc_le_eq intro: nth_mem)
  define counts where "counts = (case rs_record (ts_ring s ! ?i) of Some old \<Rightarrow> drop_scope_count (sr_scope old) (ts_scope_count s)
      | None \<Rightarrow> ts_scope_count s)"
  have low: "unat (count_in counts k) = scope_size k s - of_bool (in_scope k (ts_ring s ! ?i))" for k
    using C by (auto simp: counts_def counted_def count_in_drop in_scope_def unat_saturating_sub split: option.splits)
  have "scope_size k s < 2 ^ 32" for k using scope_size_le [of k s] cap by simp
  then have "unat (count_in counts k) < 2 ^ 32" for k unfolding low by (rule le_less_trans [OF diff_le_self])
  then have "unat (count_in counts k + 1) = unat (count_in counts k) + 1" for k
    by (subst unat_add_fits) (simp_all add: \<open>\<And>k. unat (count_in counts k) < 2 ^ 32\<close> [THEN less_trans])
  moreover have "ts_scope_count (place_record rec s) = hash_insert (sr_scope rec) (count_in counts (sr_scope rec) + 1) counts"
    by (simp add: place_record_def Let_def counts_def count_in_def)
  ultimately have "unat (count_in (ts_scope_count (place_record rec s)) k) = scope_size k (place_record rec s)" for k
    using size [of k] low [of k] least [of k]
    by (cases "k = sr_scope rec"; cases "in_scope k (ts_ring s ! ?i)") (simp_all add: count_in_insert)
  then show "counted (place_record rec s)" by (simp add: counted_def)
qed

lemma insert_scopes:
  assumes S: "scopes_exact s" and I: "index_covers s"
  shows "scopes_exact (insert_record rec s)"
proof -
  let ?full = "of_nat (ts_per_scope_cap s) \<le> records_in_scope (sr_scope rec) s"
  define s1 where "s1 = (if ?full then evict_oldest_in_scope (sr_scope rec) s else s)"
  have cap: "0 < ts_per_scope_cap s" "ts_per_scope_cap s < 2 ^ 64" using S by (auto simp: scopes_exact_def)
  have C: "counted s" using S by (simp add: scopes_exact_def counted_def records_in_scope_count)
  have full: "?full \<longleftrightarrow> ts_per_scope_cap s \<le> scope_size (sr_scope rec) s"
    using C cap(2) by (simp add: word_le_nat_alt counted_def records_in_scope_count unat_of_nat)
  have s1: "counted s1" "index_covers s1" using C I by (auto simp: s1_def evict_counts evict_covers)
  have room: "scope_size k s1 \<le> ts_per_scope_cap s - of_bool (k = sr_scope rec)" for k
    using S full cap(1) unfolding s1_def by (auto simp: evict_counts [OF C] scopes_exact_def intro!: diff_le_mono)
  have "scope_size k (place_record rec s1) \<le> ts_per_scope_cap s" for k
    using place_counts(2) [OF s1, of k rec] room [of k] cap(1) by (cases "k = sr_scope rec") simp_all
  moreover have "insert_record rec s = place_record rec s1" using cap(1) by (simp add: insert_record_def s1_def)
  moreover have "ts_per_scope_cap (place_record rec s1) = ts_per_scope_cap s"
    by (auto simp: place_record_def Let_def s1_def evict_oldest_in_scope_def split: option.splits)
  ultimately show ?thesis
    using place_counts(1) [OF s1, of rec] cap by (simp add: scopes_exact_def counted_def records_in_scope_count)
qed

section \<open>All calls on the index\<close>

datatype trace_op = TraceInsert stored_record | TraceLookup u64 chain u64 u64

fun exec_trace :: "trace_op \<Rightarrow> trace_store \<Rightarrow> trace_store option" where
  "exec_trace (TraceInsert r) s = Some (insert_record r s)"
| "exec_trace (TraceLookup scope c now ttl) s = map_option snd (lookup_chain scope c now ttl s)"

fun exec_traces :: "trace_op list \<Rightarrow> trace_store \<Rightarrow> trace_store option" where
  "exec_traces [] s = Some s"
| "exec_traces (l # ls) s = (case exec_trace l s of None \<Rightarrow> None | Some s' \<Rightarrow> exec_traces ls s')"

fun op_sized :: "trace_op \<Rightarrow> bool" where
  "op_sized (TraceLookup scope c now ttl) \<longleftrightarrow> length (ch_block_hashes c) < 2 ^ 32"
| "op_sized (TraceInsert r) \<longleftrightarrow> True"

lemma exec_traces_sound:
  assumes "list_all op_sized ops" "index_covers s" "scopes_exact s"
  shows "\<exists>s'. exec_traces ops s = Some s' \<and> index_covers s' \<and> scopes_exact s'"
  using assms
proof (induction ops arbitrary: s)
  case (Cons l ops)
  have "\<exists>s'. exec_trace l s = Some s' \<and> index_covers s' \<and> scopes_exact s'"
  proof (cases l)
    case (TraceInsert r)
    then show ?thesis using Cons.prems insert_covers insert_scopes by simp
  next
    case (TraceLookup scope c now ttl)
    then obtain res s' where "lookup_chain scope c now ttl s = Some (res, s')" "index_covers s'"
      "ts_ring s' = ts_ring s" "ts_scope_count s' = ts_scope_count s"
      using lookup_covers [OF Cons.prems(2), of c scope now ttl] Cons.prems(1) by auto
    moreover from this(1) have "ts_per_scope_cap s' = ts_per_scope_cap s"
      by (auto simp: lookup_chain_def maybe_rebuild_index_def Let_def split: list.splits option.splits)
    ultimately show ?thesis using TraceLookup Cons.prems(3)
      by (simp add: scopes_exact_def records_in_scope_count scope_size_def)
  qed
  then show ?case using Cons by auto
qed simp

lemma exec_traces_caps:
  assumes "exec_traces ops s = Some s'"
  shows "ts_per_scope_cap s' = ts_per_scope_cap s"
proof -
  have "ts_per_scope_cap t = ts_per_scope_cap s" if "exec_trace l s = Some t" for l s t
    using that by (cases l)
      (auto simp: insert_record_def place_record_def evict_oldest_in_scope_def lookup_chain_def maybe_rebuild_index_def Let_def
        split: list.splits option.splits)
  then show ?thesis using assms by (induction ops arbitrary: s) (auto split: option.splits)
qed

lemma new_trace_store_sound:
  assumes "new_trace_store cap scope_cap = Some s0" "cap < 2 ^ 32" "0 < scope_cap" "scope_cap < 2 ^ 64"
  shows "index_covers s0" "scopes_exact s0"
  using assms
  by (auto simp: new_trace_store_def index_covers_def scopes_exact_def refs_bounded_def refs_at_def slot_indexed_def empty_slot_def
      records_in_scope_def scope_size_def in_scope_def split: if_splits)

lemma exec_traces_append: "exec_traces (xs @ ys) s = (case exec_traces xs s of None \<Rightarrow> None | Some s' \<Rightarrow> exec_traces ys s')"
  by (induction xs arbitrary: s) (auto split: option.splits)

lemma length_live_records: "length (live_records s) \<le> length (ts_ring s)"
  by (simp add: live_records_def List.map_filter_def)

text \<open>C36. A lookup through the reverse index is a scan of the whole ring. After any inserts and lookups (wrapping the
  ring, evicting in scopes, leaving stale references, rebuilding the index) a lookup does not panic, and its result is
  that of the reference: among the records that are still in the ring, belong to the scope, share their first block
  and are within their time to live, one with the longest shared prefix of blocks and then the latest; without one,
  no match, which is marked as expired exactly when a record is only too old. No prefix is pieced together from
  several records.\<close>

theorem trace_lookup_exact:
  assumes "new_trace_store cap scope_cap = Some s0" "cap < 2 ^ 32" "0 < scope_cap" "scope_cap < 2 ^ 64"
    and "list_all op_sized ops" "length (ch_block_hashes c) < 2 ^ 32"
  shows "\<exists>s res s'. exec_traces ops s0 = Some s \<and> lookup_chain scope c now ttl s = Some (res, s') \<and>
    lookup_spec (live_records s) scope c now ttl res"
  using exec_traces_sound [OF assms(5) new_trace_store_sound [OF assms(1-4)]] lookup_covers [OF _ assms(6)] by blast

theorem trace_lookup_exact_witness:
  "\<exists>s res s'. exec_traces
      [TraceInsert \<lparr>sr_scope = 7, sr_session = None, sr_len_bytes = 30, sr_t_send_ms = 5, sr_block_hashes = [1, 2]\<rparr>]
      \<lparr>ts_cap = 2, ts_per_scope_cap = 2, ts_ring = replicate 2 empty_slot, ts_next = 0, ts_index = [], ts_scope_count = [],
       ts_tombstone_hits = 0\<rparr> = Some s \<and>
    lookup_chain 7 \<lparr>ch_body_hash = 0, ch_len_bytes = 40, ch_block_size = 16, ch_block_hashes = [1, 3]\<rparr> 8 100 s = Some (res, s') \<and>
    lookup_spec (live_records s) 7 \<lparr>ch_body_hash = 0, ch_len_bytes = 40, ch_block_size = 16, ch_block_hashes = [1, 3]\<rparr> 8 100 res"
  by (rule trace_lookup_exact [where cap = 2 and scope_cap = 2]) (simp_all add: new_trace_store_def)

text \<open>The scopes of the index are bounded and counted exactly: after any inserts and lookups the ring holds at most its
  capacity of records and at most the bound of each scope, and \<open>records_in_scope\<close>, on which the rule about first
  requests rests, is the number of records of the scope that are in the ring.\<close>

lemma trace_scopes_exact:
  assumes "new_trace_store cap scope_cap = Some s0" "cap < 2 ^ 32" "0 < scope_cap" "scope_cap < 2 ^ 64" "list_all op_sized ops"
  shows "\<exists>s. exec_traces ops s0 = Some s \<and> length (live_records s) \<le> ts_cap s \<and> ts_per_scope_cap s = scope_cap \<and>
    unat (records_in_scope scope s) = length (filter (\<lambda>r. sr_scope r = scope) (live_records s)) \<and>
    length (filter (\<lambda>r. sr_scope r = scope) (live_records s)) \<le> scope_cap"
proof -
  obtain s where s: "exec_traces ops s0 = Some s" "index_covers s" "scopes_exact s"
    using exec_traces_sound [OF assms(5) new_trace_store_sound [OF assms(1-4)]] by blast
  have "ts_per_scope_cap s = ts_per_scope_cap s0" using exec_traces_caps [OF s(1)] .
  then show ?thesis
    using s assms(1) length_live_records [of s]
    by (auto simp: index_covers_def scopes_exact_def scope_size_live new_trace_store_def split: if_splits)
qed

lemma trace_scopes_exact_witness:
  "\<exists>s. exec_traces
      [TraceInsert \<lparr>sr_scope = 7, sr_session = None, sr_len_bytes = 30, sr_t_send_ms = 5, sr_block_hashes = [1]\<rparr>,
       TraceInsert \<lparr>sr_scope = 7, sr_session = None, sr_len_bytes = 30, sr_t_send_ms = 6, sr_block_hashes = [1]\<rparr>]
      \<lparr>ts_cap = 2, ts_per_scope_cap = 1, ts_ring = replicate 2 empty_slot, ts_next = 0, ts_index = [], ts_scope_count = [],
       ts_tombstone_hits = 0\<rparr> = Some s \<and> length (live_records s) \<le> ts_cap s \<and> ts_per_scope_cap s = 1 \<and>
    unat (records_in_scope 7 s) = length (filter (\<lambda>r. sr_scope r = 7) (live_records s)) \<and>
    length (filter (\<lambda>r. sr_scope r = 7) (live_records s)) \<le> 1"
  by (rule trace_scopes_exact [where cap = 2]) (simp_all add: new_trace_store_def)

section \<open>The index itself is not bounded\<close>

lemma index_refs_insert: "map_of index k = None \<Longrightarrow> index_refs (hash_insert k rs index) = index_refs index + length rs"
  by (induction k rs index rule: hash_insert.induct) (auto simp: index_refs_def split: if_splits)

text \<open>The calls that a probed model makes: each body is looked up and then entered.\<close>

definition probe_ops :: "u64 \<Rightarrow> u64 \<Rightarrow> stored_record list \<Rightarrow> trace_op list" where
  "probe_ops now ttl rs = concat (map (\<lambda>r.
     [TraceLookup (sr_scope r) \<lparr>ch_body_hash = 0, ch_len_bytes = sr_len_bytes r, ch_block_size = DEFAULT_BLOCK_SIZE,
        ch_block_hashes = sr_block_hashes r\<rparr> now ttl, TraceInsert r]) rs)"

definition first_key :: "stored_record \<Rightarrow> u64 \<times> u64" where
  "first_key r = (sr_scope r, low64 (hd (sr_block_hashes r)))"

lemma probe_new_body:
  assumes "sr_block_hashes r = [h]" "map_of (ts_index s) (first_key r) = None" "ts_tombstone_hits s = 0"
  shows "\<exists>s'. exec_traces (probe_ops now ttl [r]) s = Some s' \<and> index_refs (ts_index s') = Suc (index_refs (ts_index s)) \<and>
    ts_tombstone_hits s' = 0 \<and> (\<forall>k. map_of (ts_index s') k = None \<longleftrightarrow> k \<noteq> first_key r \<and> map_of (ts_index s) k = None)"
proof -
  have "\<exists>ref. ts_index (insert_record r s) = hash_insert (first_key r) [ref] (ts_index s)"
    "ts_tombstone_hits (insert_record r s) = 0"
    using assms
    by (auto simp: insert_record_def place_record_def evict_oldest_in_scope_def push_ref_def first_key_def Let_def split: option.splits)
  moreover have "exec_traces (probe_ops now ttl [r]) s = Some (insert_record r (s\<lparr>ts_tombstone_hits := 0\<rparr>))"
    using assms by (simp add: probe_ops_def lookup_chain_def first_key_def maybe_rebuild_index_def Let_def)
  then have "exec_traces (probe_ops now ttl [r]) s = Some (insert_record r s)"
    using assms(3) trace_store.surjective [of s] trace_store.update_convs(7) by metis
  ultimately show ?thesis using index_refs_insert [OF assms(2)] by fastforce
qed

lemma probe_all_new:
  assumes "list_all (\<lambda>r. length (sr_block_hashes r) = 1) rs" "distinct (map first_key rs)"
    and "list_all (\<lambda>r. map_of (ts_index s) (first_key r) = None) rs" "ts_tombstone_hits s = 0"
  shows "\<exists>s'. exec_traces (probe_ops now ttl rs) s = Some s' \<and> index_refs (ts_index s') = index_refs (ts_index s) + length rs"
  using assms
proof (induction rs arbitrary: s)
  case (Cons r rs)
  obtain h where h: "sr_block_hashes r = [h]" using Cons.prems(1) by (auto simp: length_Suc_conv)
  have "map_of (ts_index s) (first_key r) = None" using Cons.prems(3) by simp
  from probe_new_body [OF h this Cons.prems(4), of now ttl] obtain s1 where s1: "exec_traces (probe_ops now ttl [r]) s = Some s1" "index_refs (ts_index s1) = Suc (index_refs (ts_index s))"
    "ts_tombstone_hits s1 = 0" "\<And>k. map_of (ts_index s1) k = None \<longleftrightarrow> k \<noteq> first_key r \<and> map_of (ts_index s) k = None"
    by blast
  have "list_all (\<lambda>r. map_of (ts_index s1) (first_key r) = None) rs"
    using Cons.prems(2,3) unfolding s1(4) by (auto simp: list_all_iff) (metis imageI)
  moreover have "probe_ops now ttl (r # rs) = probe_ops now ttl [r] @ probe_ops now ttl rs" by (simp add: probe_ops_def)
  ultimately show ?case using Cons.IH [of s1] Cons.prems(1,2) s1 by (auto simp: exec_traces_append)
qed (simp add: probe_ops_def)



section \<open>Blocks shared by two bodies\<close>

lemma common_prefix_take: "take (common_prefix_blocks xs ys) xs = take (common_prefix_blocks xs ys) ys"
  by (induction xs ys rule: common_prefix_blocks.induct) auto

lemma common_prefix_commute: "common_prefix_blocks xs ys = common_prefix_blocks ys xs"
  by (induction xs ys rule: common_prefix_blocks.induct) auto

lemma common_prefix_ge:
  assumes "take k xs = take k ys" "k \<le> length xs" "k \<le> length ys"
  shows "k \<le> common_prefix_blocks xs ys"
  using assms
proof (induction xs ys arbitrary: k rule: common_prefix_blocks.induct)
  case (1 a as b bs)
  then show ?case by (cases k) auto
qed auto

lemma length_chunks_ge: "k * n \<le> length xs \<Longrightarrow> 0 < n \<Longrightarrow> k \<le> length (chunks n xs)"
proof (induction k arbitrary: xs)
  case (Suc k)
  then have "xs \<noteq> []" "k * n \<le> length (drop n xs)" by auto
  moreover from this Suc.prems(2) have "chunks n xs = take n xs # chunks n (drop n xs)" by (subst chunks.simps) simp
  ultimately show ?case using Suc.IH Suc.prems(2) by simp
qed simp

lemma common_prefix_chain:
  assumes "\<And>key x y. x \<in> set cs \<Longrightarrow> y \<in> set ds \<Longrightarrow> hash128 key x = hash128 key y \<Longrightarrow> x = y"
  shows "common_prefix_blocks (chain_from salt prev cs) (chain_from salt prev ds) = common_prefix_blocks cs ds"
  using assms
proof (induction cs ds arbitrary: prev rule: common_prefix_blocks.induct)
  case (1 c cs d ds)
  show ?case
  proof (cases "c = d")
    case True
    then show ?thesis using 1 by (simp add: Let_def)
  next
    case False
    then have "hash128 key c \<noteq> hash128 key d" for key using "1.prems" [of c d key] by auto
    then show ?thesis using False by (simp add: Let_def)
  qed
qed (simp_all add: Let_def)

text \<open>C39. Fingerprints follow the bytes of a body. Two bodies that share their first \<open>n\<close> bytes share at least \<open>n\<close> divided
  by the block size of their block hashes, under every salt; and when no two different blocks of the bodies have the same
  hash under a key, they share exactly the blocks that are equal from the start.\<close>

theorem fingerprint_prefix:
  "let B = bf_block_size fp;
       shared = common_prefix_blocks (ch_block_hashes (compute_chain fp xs)) (ch_block_hashes (compute_chain fp ys))
   in common_prefix_blocks xs ys div B \<le> shared \<and>
      ((\<forall>key. \<forall>x \<in> set (chunks B xs). \<forall>y \<in> set (chunks B ys). hash128 key x = hash128 key y \<longrightarrow> x = y) \<longrightarrow>
       shared = common_prefix_blocks (chunks B xs) (chunks B ys))"
proof -
  let ?B = "bf_block_size fp" and ?n = "common_prefix_blocks xs ys"
  let ?hs = "\<lambda>zs. ch_block_hashes (compute_chain fp zs)"
  let ?k = "?n div ?B"
  have "?k \<le> common_prefix_blocks (?hs xs) (?hs ys)"
  proof (cases "?B = 0")
    case False
    have len: "?k * ?B \<le> ?n" by (rule div_times_less_eq_dividend)
    then have "take (?k * ?B) xs = take (?k * ?B) ys"
      using arg_cong [OF common_prefix_take [of xs ys], of "take (?k * ?B)"] by (simp add: min_absorb1)
    then have "take ?k (?hs xs) = take ?k (?hs ys)" by (simp add: take_block_hashes)
    moreover have "?n \<le> length xs" "?n \<le> length ys"
      using common_prefix_bound [of xs ys] common_prefix_bound [of ys xs] common_prefix_commute [of xs ys] by simp_all
    then have "?k \<le> length (?hs xs)" "?k \<le> length (?hs ys)"
      using length_chunks_ge [of ?k ?B xs] length_chunks_ge [of ?k ?B ys] len False by (simp_all add: compute_chain_def)
    ultimately show ?thesis by (rule common_prefix_ge)
  qed simp
  then show ?thesis using common_prefix_chain [of "chunks ?B xs" "chunks ?B ys"] by (simp add: Let_def compute_chain_def)
qed

theorem fingerprint_prefix_witness:
  "common_prefix_blocks (ch_block_hashes (compute_chain \<lparr>bf_block_size = 16, bf_scope_salt = 7\<rparr> [1]))
     (ch_block_hashes (compute_chain \<lparr>bf_block_size = 16, bf_scope_salt = 7\<rparr> [2])) = 0"
proof -
  have "chunks 16 [a] = [[a]]" for a :: u8 by (subst chunks.simps) simp
  moreover have "hash128 key [1] \<noteq> hash128 key [2]" for key by (simp add: hash128_inject hash64_short Let_def)
  ultimately show ?thesis using fingerprint_prefix [of "\<lparr>bf_block_size = 16, bf_scope_salt = 7\<rparr>" "[1]" "[2]"] by (simp add: Let_def)
qed

end
