(* ===== verification/Trace_Verdict.thy ===== *)
theory Trace_Verdict
  imports Trace_Fingerprint Recording
begin

text \<open>
  Verdicts on claimed cache hits (\<open>src/aimux-core/src/trace/verdict.rs\<close>): the parameters of the providers and the rules,
  on the evidence of one call. Arithmetic of \<open>u64\<close> and \<open>i64\<close> wraps, as in a release build; the five percent of a
  bound, which the code rounds in floating point, is the argument \<open>pct\<close>.
\<close>

section \<open>Evidence and verdicts\<close>

datatype verdict_kind = Trusted | SuspectOverclaim | SuspectUnderclaim | VerdictUnknown

datatype verdict_confidence = ConfHigh | ConfMedium | ConfLow

record verdict =
  vd_kind :: verdict_kind
  vd_confidence :: verdict_confidence
  vd_violated :: "string list"
  vd_expected_max :: u64
  vd_claimed :: u64
  vd_lcp_bytes :: u64
  vd_notes :: "string list"

datatype provider_family = FamOpenAi | FamDeepSeek | FamAnthropic | FamBedrock | FamGemini | FamVllm | FamGeneric

text \<open>The multiple of the shared ceiling, which no rule reads, is not kept.\<close>

record provider_audit_spec =
  pa_family :: provider_family
  pa_gran :: "u64 option"
  pa_threshold :: u64
  pa_ttl_ms :: u64
  pa_model56plus :: bool

definition audit_spec :: "provider_family \<Rightarrow> u64 option \<Rightarrow> u64 \<Rightarrow> u64 \<Rightarrow> bool \<Rightarrow> provider_audit_spec" where
  "audit_spec family gran threshold ttl m56 =
     \<lparr>pa_family = family, pa_gran = gran, pa_threshold = threshold, pa_ttl_ms = ttl, pa_model56plus = m56\<rparr>"

definition HOUR :: u64 where "HOUR = 3600000"

definition openai_56 :: provider_audit_spec where "openai_56 = audit_spec FamOpenAi None 1024 HOUR True"
definition openai_legacy :: provider_audit_spec where "openai_legacy = audit_spec FamOpenAi (Some 128) 1024 HOUR False"
definition azure :: provider_audit_spec where "azure = audit_spec FamOpenAi (Some 128) 1024 HOUR False"
definition deepseek :: provider_audit_spec where "deepseek = audit_spec FamDeepSeek (Some 64) 64 (48 * HOUR) False"
definition mistral :: provider_audit_spec where "mistral = audit_spec FamGeneric (Some 64) 64 HOUR False"
definition anthropic :: provider_audit_spec where "anthropic = audit_spec FamAnthropic None 512 HOUR False"
definition bedrock :: provider_audit_spec where "bedrock = audit_spec FamBedrock None 0 (24 * HOUR) False"
definition gemini :: provider_audit_spec where "gemini = audit_spec FamGemini None 0 (24 * HOUR) False"
definition vllm :: provider_audit_spec where "vllm = audit_spec FamVllm (Some 16) 16 (- 1) False"
definition generic :: provider_audit_spec where "generic = audit_spec FamGeneric (Some 128) 1024 HOUR False"

definition for_provider :: "string \<Rightarrow> string \<Rightarrow> provider_audit_spec" where
  "for_provider provider model =
     (let p = to_ascii_lowercase provider; m = to_ascii_lowercase model
      in if str_contains p ''deepseek'' then deepseek
         else if str_contains p ''anthropic'' then anthropic
         else if str_contains p ''azure'' then azure
         else if str_contains p ''gemini'' \<or> str_contains p ''vertex'' then gemini
         else if str_contains p ''bedrock'' then bedrock
         else if str_contains p ''vllm'' then vllm
         else if str_contains p ''mistral'' then mistral
         else if str_contains p ''openai'' \<or> str_contains p ''openrouter'' then
           (if str_contains m ''gpt-5'' \<or> str_contains m ''o3'' \<or> str_contains m ''o4'' then openai_56 else openai_legacy)
         else generic)"

record lcp_input =
  li_lcp_bytes :: u64
  li_lcp_upper_bytes :: u64
  li_same_session :: bool
  li_matched_exists :: bool

record session_stats =
  st_same_session_rounds :: u32
  st_prefix_stable :: bool
  st_lcp_gt_1024 :: bool

record judgment_input =
  ji_spec :: provider_audit_spec
  ji_strict :: bool
  ji_first :: bool
  ji_prompt_tokens :: u64
  ji_prompt_bytes :: u64
  ji_claimed :: u64
  ji_input_no_cache :: "u64 option"
  ji_input_cache_read :: "u64 option"
  ji_input_cache_write :: "u64 option"
  ji_write :: "u64 option"
  ji_no_cache :: "u64 option"
  ji_hit :: "u64 option"
  ji_miss :: "u64 option"
  ji_usage_present :: bool
  ji_response_cache_header_hit :: bool
  ji_candidate_expired :: bool
  ji_byte_proxy :: bool
  ji_route_affinity_known :: bool
  ji_lcp :: "lcp_input option"
  ji_system_tokens :: u64
  ji_session_stats :: "session_stats option"

section \<open>Rules\<close>

definition quantize_down :: "u64 \<Rightarrow> u64 option \<Rightarrow> u64" where
  "quantize_down x gran = (case gran of Some g \<Rightarrow> if 0 < g then x div g * g else x | None \<Rightarrow> x)"

definition tau :: "(u64 \<Rightarrow> u64) \<Rightarrow> u64 \<Rightarrow> u64 option \<Rightarrow> u64" where
  "tau pct u gran = (case gran of Some g \<Rightarrow> max (pct u) g | None \<Rightarrow> pct u)"

definition is_w_level :: "string \<Rightarrow> bool" where
  "is_w_level rule \<longleftrightarrow> rule \<in> set [''R-1.1'', ''R-1.1abs'', ''R-1.2'', ''R-1.3'', ''R-1.4'', ''R-1.5'', ''R-1.7'', ''R-1.8'', ''R-3.3'']"

definition is_b_level :: "string \<Rightarrow> bool" where
  "is_b_level rule \<longleftrightarrow> rule \<in> set [''R-1.1b'', ''R-1.6b'', ''R-1.7b'']"

definition is_byte_proxy_rule :: "string \<Rightarrow> bool" where
  "is_byte_proxy_rule rule \<longleftrightarrow> rule \<in> set [''R-1.1'', ''R-1.1b'']"

text \<open>\<open>(..).abs() > 1\<close> on \<open>i64\<close>; the absolute value of the least integer wraps to itself.\<close>

definition off_by_more_than_one :: "u64 \<Rightarrow> bool" where
  "off_by_more_than_one w \<longleftrightarrow> sint w \<noteq> - (2 ^ 63) \<and> 1 < \<bar>sint w\<bar>"

definition sum_off :: "judgment_input \<Rightarrow> bool" where
  "sum_off inp = (case (ji_input_no_cache inp, ji_input_cache_read inp, ji_input_cache_write inp) of
     (Some nc, Some rd, Some wr) \<Rightarrow> off_by_more_than_one (nc + rd + wr - ji_prompt_tokens inp)
   | _ \<Rightarrow> False)"

definition hit_miss_off :: "judgment_input \<Rightarrow> bool" where
  "hit_miss_off inp = (case (ji_hit inp, ji_miss inp) of
     (Some h, Some m) \<Rightarrow> off_by_more_than_one (h + m - ji_prompt_tokens inp) | _ \<Rightarrow> False)"

text \<open>The dash of some notes, in UTF-8.\<close>

definition em_dash :: string where "em_dash = [char_of (226 :: nat), char_of (128 :: nat), char_of (148 :: nat)]"

definition write_read_off :: "judgment_input \<Rightarrow> bool" where
  "write_read_off inp = (case (ji_write inp, ji_no_cache inp) of
     (Some w, Some nc) \<Rightarrow> ji_claimed inp + w + nc \<noteq> ji_prompt_tokens inp | _ \<Rightarrow> False)"

text \<open>The rules up to the first request, in their order, each with the condition under which the code reports it.\<close>

definition rule_table :: "judgment_input \<Rightarrow> (string \<times> bool) list" where
  "rule_table inp =
     (let spec = ji_spec inp; prompt = ji_prompt_tokens inp; claimed = ji_claimed inp
      in [(''R-1.1abs'', prompt < claimed),
          (''R-1.3'', pa_family spec = FamDeepSeek \<and> hit_miss_off inp),
          (''R-1.4'', pa_family spec = FamAnthropic \<and> sum_off inp),
          (''R-1.4'', pa_family spec = FamAnthropic \<and> ji_first inp \<and> 0 < (case ji_input_cache_read inp of Some rd \<Rightarrow> rd | None \<Rightarrow> 0)),
          (''R-1.5'', pa_family spec = FamBedrock \<and> sum_off inp),
          (''R-3.3'', prompt < pa_threshold spec \<and> 0 < claimed),
          (''R-1.6b'', (case pa_gran spec of Some g \<Rightarrow> 0 < claimed \<and> claimed mod g \<noteq> 0 | None \<Rightarrow> False) \<and> \<not> pa_model56plus spec),
          (''R-1.7'', pa_model56plus spec \<and> write_read_off inp),
          (''R-1.7b'', pa_model56plus spec \<and> ji_write inp = None),
          (''R-1.2'', ji_first inp \<and> 0 < claimed)])"

definition invariant_rules :: "judgment_input \<Rightarrow> string list" where
  "invariant_rules inp = map fst (filter snd (rule_table inp))"

definition write_side_notes :: "judgment_input \<Rightarrow> string list" where
  "write_side_notes inp =
     (if pa_model56plus (ji_spec inp) \<and> ji_write inp = None
      then [''5.6+ write side missing; downgraded to medium (R-1.7)''] else [])"

text \<open>The bound on hits that a shared prefix of bytes gives.\<close>

definition expected_max :: "judgment_input \<Rightarrow> lcp_input \<Rightarrow> u64" where
  "expected_max inp l =
     (let sys_bytes = saturating_mul (ji_system_tokens inp) 4;
          cap_bytes = (if li_same_session l then li_lcp_upper_bytes l else min (li_lcp_upper_bytes l) sys_bytes);
          upper_bytes = min (min (li_lcp_upper_bytes l) cap_bytes) (ji_prompt_bytes inp)
      in min (quantize_down (upper_bytes div 4) (pa_gran (ji_spec inp))) (ji_prompt_tokens inp))"

definition shared_segment_notes :: "judgment_input \<Rightarrow> string list" where
  "shared_segment_notes inp = (case ji_lcp inp of
     Some l \<Rightarrow> if \<not> li_same_session l \<and> saturating_mul (ji_system_tokens inp) 4 < saturating_mul (ji_claimed inp) 4
               then [''claimed exceeds shared system segment (R-2.1)''] else []
   | None \<Rightarrow> [])"

definition granularity_unknown :: "judgment_input \<Rightarrow> bool" where
  "granularity_unknown inp \<longleftrightarrow> ji_lcp inp = None \<and> 0 < ji_claimed inp \<and> \<not> ji_first inp \<and> \<not> ji_candidate_expired inp"

definition prefix_rules :: "(u64 \<Rightarrow> u64) \<Rightarrow> judgment_input \<Rightarrow> string list" where
  "prefix_rules pct inp = (case ji_lcp inp of
     Some l \<Rightarrow>
       (let u = expected_max inp l
        in if u + tau pct u (pa_gran (ji_spec inp)) < ji_claimed inp then [''R-1.1'']
           else if u < ji_claimed inp then [''R-1.1b''] else [])
   | None \<Rightarrow> if 0 < ji_claimed inp \<and> \<not> ji_first inp \<and> ji_candidate_expired inp then [''R-1.8''] else [])"

definition granularity_notes :: "judgment_input \<Rightarrow> string list" where
  "granularity_notes inp =
     (if granularity_unknown inp
      then [''no block-granularity match; cannot confirm or refute (short body / sub-block growth)''] else [])"

definition lcp_bytes_of :: "judgment_input \<Rightarrow> u64" where
  "lcp_bytes_of inp = (case ji_lcp inp of Some l \<Rightarrow> li_lcp_bytes l | None \<Rightarrow> 0)"

definition implicit_breakpoint :: "judgment_input \<Rightarrow> bool" where
  "implicit_breakpoint inp \<longleftrightarrow> pa_model56plus (ji_spec inp) \<and> ji_claimed inp = 0 \<and> 1024 < lcp_bytes_of inp div 4"

definition breakpoint_notes :: "judgment_input \<Rightarrow> string list" where
  "breakpoint_notes inp =
     (if implicit_breakpoint inp then [''5.6+ implicit breakpoint: claimed=0 legal despite large LCP (R-2.3)''] else [])"

definition low_hits :: "judgment_input \<Rightarrow> bool" where
  "low_hits inp \<longleftrightarrow> \<not> implicit_breakpoint inp \<and>
     (case ji_session_stats inp of
        Some ss \<Rightarrow> 3 \<le> st_same_session_rounds ss \<and> st_prefix_stable ss \<and> st_lcp_gt_1024 ss \<and> ji_claimed inp = 0
      | None \<Rightarrow> False)"

definition low_hit_rules :: "judgment_input \<Rightarrow> string list" where
  "low_hit_rules inp = (if low_hits inp \<and> ji_route_affinity_known inp then [''R-2.2''] else [])"

definition low_hit_notes :: "judgment_input \<Rightarrow> string list" where
  "low_hit_notes inp =
     (if low_hits inp \<and> \<not> ji_route_affinity_known inp
      then [''stable prefix with zero claimed hits; route affinity unknown '' @ em_dash @
            '' likely cluster routing artifact, not a broken prefix (R-2.2 suppressed)''] else [])"

definition violated_rules :: "(u64 \<Rightarrow> u64) \<Rightarrow> judgment_input \<Rightarrow> string list" where
  "violated_rules pct inp = invariant_rules inp @ prefix_rules pct inp @ low_hit_rules inp"

definition rule_notes :: "judgment_input \<Rightarrow> string list" where
  "rule_notes inp = write_side_notes inp @ shared_segment_notes inp @ granularity_notes inp @ breakpoint_notes inp @ low_hit_notes inp"

section \<open>Classification\<close>

definition DOWNGRADE_IDS :: "string list" where "DOWNGRADE_IDS = [''R-1.1'', ''R-1.2'', ''R-1.8'']"

definition with_kind :: "verdict_kind \<Rightarrow> verdict_confidence \<Rightarrow> verdict \<Rightarrow> verdict" where
  "with_kind k c v = v\<lparr>vd_kind := k, vd_confidence := c\<rparr>"

definition with_note :: "string \<Rightarrow> verdict \<Rightarrow> verdict" where
  "with_note n v = v\<lparr>vd_notes := vd_notes v @ [n]\<rparr>"

text \<open>The last decision, with the flags after the downgrades.\<close>

definition final_verdict :: "judgment_input \<Rightarrow> bool \<Rightarrow> bool \<Rightarrow> verdict \<Rightarrow> verdict" where
  "final_verdict inp has_w has_b v =
     (let low = ''R-2.2'' \<in> set (vd_violated v)
      in if granularity_unknown inp \<and> \<not> has_w \<and> \<not> has_b \<and> \<not> low then with_kind VerdictUnknown ConfMedium v
         else if low \<and> \<not> has_w then with_kind SuspectUnderclaim ConfLow v
         else if has_w then with_kind SuspectOverclaim ConfHigh v
         else if has_b then with_kind SuspectOverclaim ConfMedium v
         else with_kind Trusted ConfHigh v)"

text \<open>The cap on evidence from bytes alone.\<close>

definition capped_verdict :: "judgment_input \<Rightarrow> bool \<Rightarrow> bool \<Rightarrow> verdict \<Rightarrow> verdict" where
  "capped_verdict inp has_w has_b v =
     (if ji_byte_proxy inp \<and> has_w \<and> ''R-1.1abs'' \<notin> set (vd_violated v) \<and>
         list_all (\<lambda>r. r = ''R-1.1'') (filter is_w_level (vd_violated v))
      then final_verdict inp False True (with_note ''byte-proxy evidence caps at medium (RFC F2)'' v)
      else final_verdict inp has_w has_b v)"

definition proxy_verdict :: "judgment_input \<Rightarrow> bool \<Rightarrow> bool \<Rightarrow> verdict \<Rightarrow> verdict" where
  "proxy_verdict inp has_w has_b v =
     (if ji_byte_proxy inp \<and>
         \<not> list_ex (\<lambda>r. (is_w_level r \<or> is_b_level r) \<and> \<not> is_byte_proxy_rule r) (vd_violated v) \<and> (has_w \<or> has_b)
      then with_kind VerdictUnknown ConfMedium
        (with_note (''byte-proxy overclaim (bytes/4 is not a safe token bound) '' @ em_dash @ '' downgraded to Unknown (C4-2)'') v)
      else capped_verdict inp has_w has_b v)"

definition classify_verdict :: "judgment_input \<Rightarrow> verdict \<Rightarrow> verdict" where
  "classify_verdict inp v =
     (let has_w = list_ex is_w_level (vd_violated v);
          has_b = list_ex is_b_level (vd_violated v);
          only_downgrade_w = (has_w \<and> list_all (\<lambda>r. \<not> is_w_level r \<or> r \<in> set DOWNGRADE_IDS) (vd_violated v))
      in if \<not> ji_strict inp \<and> only_downgrade_w
         then (if ji_lcp inp \<noteq> None then proxy_verdict inp False True v
               else with_kind VerdictUnknown ConfMedium
                 (with_note ''no local history source; other process may have warmed (R-5.3)'' v))
         else proxy_verdict inp has_w has_b v)"

definition unaudited :: "judgment_input \<Rightarrow> string \<Rightarrow> string \<Rightarrow> verdict" where
  "unaudited inp rule note =
     \<lparr>vd_kind = VerdictUnknown, vd_confidence = ConfMedium, vd_violated = [rule], vd_expected_max = 0,
      vd_claimed = ji_claimed inp, vd_lcp_bytes = 0, vd_notes = [note]\<rparr>"

definition judge :: "(u64 \<Rightarrow> u64) \<Rightarrow> judgment_input \<Rightarrow> verdict" where
  "judge pct inp =
     (if \<not> ji_usage_present inp then unaudited inp ''R-5.1'' ''usage missing (stream truncated / stripped)''
      else if ji_response_cache_header_hit inp
        then unaudited inp ''R-4.1'' ''response-cache header hit; provider cache not audited (R-4.1)''
      else classify_verdict inp
        \<lparr>vd_kind = Trusted, vd_confidence = ConfHigh, vd_violated = violated_rules pct inp,
         vd_expected_max = (case ji_lcp inp of Some l \<Rightarrow> expected_max inp l | None \<Rightarrow> 0),
         vd_claimed = ji_claimed inp, vd_lcp_bytes = lcp_bytes_of inp, vd_notes = rule_notes inp\<rparr>)"

definition demo_judgment :: judgment_input where
  "demo_judgment =
     \<lparr>ji_spec = openai_legacy, ji_strict = False, ji_first = False, ji_prompt_tokens = 2000, ji_prompt_bytes = 8000, ji_claimed = 128,
      ji_input_no_cache = None, ji_input_cache_read = None, ji_input_cache_write = None, ji_write = None, ji_no_cache = None,
      ji_hit = None, ji_miss = None, ji_usage_present = True, ji_response_cache_header_hit = False, ji_candidate_expired = False,
      ji_byte_proxy = True, ji_route_affinity_known = False,
      ji_lcp = Some \<lparr>li_lcp_bytes = 4096, li_lcp_upper_bytes = 8192, li_same_session = True, li_matched_exists = True\<rparr>,
      ji_system_tokens = 0, ji_session_stats = None\<rparr>"

section \<open>When a provider is accused\<close>

abbreviation independent :: "string \<Rightarrow> bool" where
  "independent r \<equiv> (is_w_level r \<or> is_b_level r) \<and> \<not> is_byte_proxy_rule r"

lemma with_simps [simp]:
  "vd_kind (with_kind k c v) = k" "vd_confidence (with_kind k c v) = c" "vd_violated (with_kind k c v) = vd_violated v"
  "vd_violated (with_note n v) = vd_violated v"
  by (simp_all add: with_kind_def with_note_def)

lemma invariant_rules_no_low: "''R-2.2'' \<notin> set (invariant_rules inp)" "''R-2.2'' \<notin> set (prefix_rules pct inp)"
proof -
  have "set (invariant_rules inp) \<subseteq> set (map fst (rule_table inp))" by (auto simp: invariant_rules_def)
  also have "map fst (rule_table inp) =
      [''R-1.1abs'', ''R-1.3'', ''R-1.4'', ''R-1.4'', ''R-1.5'', ''R-3.3'', ''R-1.6b'', ''R-1.7'', ''R-1.7b'', ''R-1.2'']"
    by (simp add: rule_table_def Let_def)
  finally show "''R-2.2'' \<notin> set (invariant_rules inp)" by auto
  show "''R-2.2'' \<notin> set (prefix_rules pct inp)" by (simp add: prefix_rules_def Let_def split: option.split)
qed

lemma final_kind:
  assumes "''R-2.2'' \<notin> set (vd_violated v)"
  shows "vd_kind (final_verdict inp has_w has_b v) = SuspectOverclaim \<longleftrightarrow> has_w \<or> has_b"
  using assms by (simp add: final_verdict_def Let_def)

lemma proxy_kind:
  assumes "''R-2.2'' \<notin> set (vd_violated v)" "ji_byte_proxy inp"
  shows "vd_kind (proxy_verdict inp has_w has_b v) = SuspectOverclaim \<longleftrightarrow>
    list_ex independent (vd_violated v) \<and> (has_w \<or> has_b)"
  using assms by (simp add: proxy_verdict_def capped_verdict_def final_kind)



section \<open>Honest reports\<close>

text \<open>Counts of tokens and granularities are far from the largest integer; the code's are 32-bit counts.\<close>

definition sized :: "judgment_input \<Rightarrow> bool" where
  "sized inp \<longleftrightarrow> unat (ji_prompt_tokens inp) < 2 ^ 62 \<and>
     (case pa_gran (ji_spec inp) of Some g \<Rightarrow> unat g < 2 ^ 62 | None \<Rightarrow> True)"

definition near :: "nat \<Rightarrow> nat \<Rightarrow> bool" where
  "near a b \<longleftrightarrow> a \<le> b + 1 \<and> b \<le> a + 1"

text \<open>A report that its provider's documentation and the local history allow, in numbers.\<close>

definition honest :: "judgment_input \<Rightarrow> bool" where
  "honest inp \<longleftrightarrow>
     (let spec = ji_spec inp; prompt = unat (ji_prompt_tokens inp); claimed = unat (ji_claimed inp)
      in claimed \<le> prompt \<and>
         (pa_family spec = FamDeepSeek \<longrightarrow>
           (case (ji_hit inp, ji_miss inp) of (Some h, Some m) \<Rightarrow> near (unat h + unat m) prompt | _ \<Rightarrow> True)) \<and>
         (pa_family spec = FamAnthropic \<or> pa_family spec = FamBedrock \<longrightarrow>
           (case (ji_input_no_cache inp, ji_input_cache_read inp, ji_input_cache_write inp) of
              (Some nc, Some rd, Some wr) \<Rightarrow> near (unat nc + unat rd + unat wr) prompt | _ \<Rightarrow> True)) \<and>
         (prompt < unat (pa_threshold spec) \<longrightarrow> claimed = 0) \<and>
         (case pa_gran spec of Some g \<Rightarrow> unat g dvd claimed | None \<Rightarrow> True) \<and>
         (pa_model56plus spec \<longrightarrow>
           (case (ji_write inp, ji_no_cache inp) of
              (Some w, Some nc) \<Rightarrow> claimed + unat w + unat nc = prompt | (Some w, None) \<Rightarrow> True | _ \<Rightarrow> False)) \<and>
         (ji_first inp \<longrightarrow> claimed = 0 \<and> (pa_family spec = FamAnthropic \<longrightarrow> ji_input_cache_read inp \<in> {None, Some 0})) \<and>
         (case ji_lcp inp of Some l \<Rightarrow> claimed \<le> unat (expected_max inp l)
          | None \<Rightarrow> ji_candidate_expired inp \<longrightarrow> ji_first inp \<or> claimed = 0))"

lemma near_not_off:
  assumes "near n (unat p)"
  shows "\<not> off_by_more_than_one (of_nat n - p)"
proof -
  define w :: u64 where "w = of_nat n"
  have p: "of_nat (unat p) = p" by simp
  consider "n = unat p" | "n = unat p + 1" | "unat p = n + 1" using assms by (force simp: near_def)
  then have "w - p = 0 \<or> w - p = 1 \<or> w - p = - 1"
  proof cases
    case 3
    then have "p = w + 1" using p by (simp add: w_def add.commute)
    then show ?thesis by simp
  qed (simp_all add: w_def)
  then have "sint (w - p) = - 1 \<or> sint (w - p) = 0 \<or> sint (w - p) = 1" by auto
  then show ?thesis unfolding w_def [symmetric] by (auto simp: off_by_more_than_one_def)
qed

lemma no_wrap:
  assumes "sized inp" "\<And>u. pct u \<le> u"
  shows "unat (expected_max inp l) + unat (tau pct (expected_max inp l) (pa_gran (ji_spec inp))) < 2 ^ 64"
proof -
  let ?u = "expected_max inp l"
  have "?u \<le> ji_prompt_tokens inp" by (simp add: expected_max_def Let_def)
  then have u: "unat ?u < 2 ^ 62" "unat (pct ?u) < 2 ^ 62"
    using assms(1) assms(2) [of ?u] by (auto simp: sized_def word_le_nat_alt)
  have "unat (tau pct ?u (pa_gran (ji_spec inp))) < 2 ^ 62"
    using u(2) assms(1) by (auto simp: tau_def sized_def max_def split: option.splits)
  then show ?thesis using u(1) by simp
qed

lemma honest_rules:
  assumes "honest inp" "sized inp" "\<And>u. pct u \<le> u"
  shows "invariant_rules inp = []" "prefix_rules pct inp = []"
proof -
  have sum: "\<not> sum_off inp" if "pa_family (ji_spec inp) = FamAnthropic \<or> pa_family (ji_spec inp) = FamBedrock"
  proof (cases "ji_input_no_cache inp = None \<or> ji_input_cache_read inp = None \<or> ji_input_cache_write inp = None")
    case False
    then obtain nc rd wr where parts: "ji_input_no_cache inp = Some nc" "ji_input_cache_read inp = Some rd" "ji_input_cache_write inp = Some wr"
      by auto
    then have "near (unat nc + unat rd + unat wr) (unat (ji_prompt_tokens inp))" using assms that by (auto simp: honest_def Let_def)
    then show ?thesis using near_not_off [of "unat nc + unat rd + unat wr" "ji_prompt_tokens inp"] by (simp add: sum_off_def parts)
  qed (auto simp: sum_off_def split: option.split)
  have hit: "\<not> hit_miss_off inp" if "pa_family (ji_spec inp) = FamDeepSeek"
  proof (cases "ji_hit inp = None \<or> ji_miss inp = None")
    case False
    then obtain h m where parts: "ji_hit inp = Some h" "ji_miss inp = Some m" by auto
    then have "near (unat h + unat m) (unat (ji_prompt_tokens inp))" using assms that by (auto simp: honest_def Let_def)
    then show ?thesis using near_not_off [of "unat h + unat m" "ji_prompt_tokens inp"] by (simp add: hit_miss_off_def parts)
  qed (auto simp: hit_miss_off_def split: option.split)
  have zero: "ji_claimed inp = 0 \<longleftrightarrow> unat (ji_claimed inp) = 0" by (simp add: unat_eq_0)
  have gran: "\<not> (case pa_gran (ji_spec inp) of Some g \<Rightarrow> 0 < ji_claimed inp \<and> ji_claimed inp mod g \<noteq> 0 | None \<Rightarrow> False)"
  proof (cases "pa_gran (ji_spec inp)")
    case (Some g)
    then have "unat g dvd unat (ji_claimed inp)" using assms(1) by (simp add: honest_def Let_def)
    then show ?thesis using Some by (simp add: word_unat_eq_iff unat_mod)
  qed simp
  have whole: "\<not> write_read_off inp" "ji_write inp \<noteq> None" if m56: "pa_model56plus (ji_spec inp)"
  proof -
    obtain w where w: "ji_write inp = Some w" using assms m56 by (cases "ji_write inp") (auto simp: honest_def Let_def)
    then show "ji_write inp \<noteq> None" by simp
    show "\<not> write_read_off inp"
    proof (cases "ji_no_cache inp")
      case (Some nc)
      then have "unat (ji_claimed inp) + unat w + unat nc = unat (ji_prompt_tokens inp)"
        using assms m56 w by (simp add: honest_def Let_def)
      from arg_cong [OF this, of "of_nat :: nat \<Rightarrow> u64"] show ?thesis by (simp add: write_read_off_def w Some)
    qed (simp add: write_read_off_def w)
  qed
  have first: "\<not> 0 < ji_claimed inp" if "ji_first inp" using assms that by (simp add: honest_def Let_def unat_eq_0)
  have first_read: "\<not> 0 < (case ji_input_cache_read inp of Some rd \<Rightarrow> rd | None \<Rightarrow> 0)"
    if "ji_first inp" "pa_family (ji_spec inp) = FamAnthropic"
    using assms that by (auto simp: honest_def Let_def)
  have small: "\<not> (ji_prompt_tokens inp < pa_threshold (ji_spec inp) \<and> 0 < ji_claimed inp)" "\<not> ji_prompt_tokens inp < ji_claimed inp"
    using assms by (auto simp: honest_def Let_def word_less_nat_alt)
  have c3: "\<not> (pa_family (ji_spec inp) = FamDeepSeek \<and> hit_miss_off inp)" using hit by blast
  have c4: "\<not> (pa_family (ji_spec inp) = FamAnthropic \<and> sum_off inp)" "\<not> (pa_family (ji_spec inp) = FamBedrock \<and> sum_off inp)"
    using sum by blast+
  have c4r: "\<not> (pa_family (ji_spec inp) = FamAnthropic \<and> ji_first inp \<and> 0 < (case ji_input_cache_read inp of Some rd \<Rightarrow> rd | None \<Rightarrow> 0))"
    using first_read by blast
  have c6: "\<not> ((case pa_gran (ji_spec inp) of Some g \<Rightarrow> 0 < ji_claimed inp \<and> ji_claimed inp mod g \<noteq> 0 | None \<Rightarrow> False) \<and>
      \<not> pa_model56plus (ji_spec inp))"
    using gran by blast
  have c7: "\<not> (pa_model56plus (ji_spec inp) \<and> write_read_off inp)" "\<not> (pa_model56plus (ji_spec inp) \<and> ji_write inp = None)"
    using whole by blast+
  have c2: "\<not> (ji_first inp \<and> 0 < ji_claimed inp)" using first by blast
  have "list_all (\<lambda>x. \<not> snd x) (rule_table inp)"
    unfolding rule_table_def Let_def list.pred_inject snd_conv
    by (intro conjI c2 c3 c4 c4r c6 c7 small) simp
  then show "invariant_rules inp = []" by (simp add: invariant_rules_def filter_empty_conv list_all_iff)
  show "prefix_rules pct inp = []"
  proof (cases "ji_lcp inp")
    case None
    then have "ji_candidate_expired inp \<longrightarrow> ji_first inp \<or> ji_claimed inp = 0"
      using assms(1) unfolding zero by (simp add: honest_def Let_def)
    then show ?thesis using None by (auto simp: prefix_rules_def)
  next
    case (Some l)
    define u where "u = expected_max inp l"
    have "unat (ji_claimed inp) \<le> unat u" using assms(1) Some by (simp add: honest_def Let_def u_def)
    moreover have "unat u + unat (tau pct u (pa_gran (ji_spec inp))) < 2 ^ 64"
      unfolding u_def using no_wrap [OF assms(2,3)] .
    ultimately show ?thesis using Some by (simp add: prefix_rules_def Let_def u_def [symmetric] word_less_nat_alt unat_add_fits)
  qed
qed



end
