(* ===== verification/Trace_Store.thy ===== *)
theory Trace_Store
  imports Trace_Index Trace_Verdict
begin

text \<open>
  Records of probed calls (\<open>src/aimux-core/src/trace/record.rs\<close>) and the store of them (\<open>RingTraceStore\<close> of
  \<open>store.rs\<close>): a bounded queue of records, the index of block hashes and the calls of each session. A method runs under
  the store's lock and is one function. Rates are kept as the two counts that the code divides.
\<close>

section \<open>Records\<close>

record usage_snapshot =
  us_input_total :: "u64 option"
  us_input_no_cache :: "u64 option"
  us_cache_read :: "u64 option"
  us_cache_write :: "u64 option"
  us_output_total :: "u64 option"
  us_output_text :: "u64 option"
  us_output_reasoning :: "u64 option"
  us_raw :: "json option"

record trace_record =
  tr_provider :: string
  tr_model :: string
  tr_request_id :: "string option"
  tr_session_id :: "string option"
  tr_call_id :: string
  tr_sent_at_unix_ms :: int
  tr_monotonic_sent_ms :: u64
  tr_lcp_token_upper :: "u64 option"
  tr_ttft_ms :: "u64 option"
  tr_fingerprint :: fingerprint
  tr_usage :: usage_snapshot
  tr_response_cache_headers :: "(string \<times> string) list option"
  tr_requested_write :: "bool option"
  tr_verdict :: "verdict option"
  tr_error :: "string option"
  tr_scope_key :: u64

definition reported_hit_rate :: "trace_record \<Rightarrow> (u64 \<times> u64) option" where
  "reported_hit_rate rec = (case (us_cache_read (tr_usage rec), us_input_total (tr_usage rec)) of
     (Some r, Some t) \<Rightarrow> if 0 < t then Some (r, t) else None | _ \<Rightarrow> None)"

definition client_upper_bound_hit_rate :: "trace_record \<Rightarrow> (u64 \<times> u64) option" where
  "client_upper_bound_hit_rate rec = (case us_input_total (tr_usage rec) of
     None \<Rightarrow> None
   | Some t \<Rightarrow> if t = 0 then None else Some (min (fp_token_estimate (tr_fingerprint rec)) t, t))"

section \<open>The store\<close>

record trace_filter =
  tf_provider :: "string option"
  tf_model :: "string option"
  tf_session_id :: "string option"
  tf_since_unix_ms :: "int option"

record session_step_stat =
  sss_step :: u32
  sss_call_id :: string
  sss_hit_rate :: "(u64 \<times> u64) option"
  sss_verdict :: "verdict option"
  sss_error :: "string option"

datatype break_kind = SystemChanged | ToolsChanged | ConversationReset | BreakUnknown

record prefix_break =
  pb_at_record_id :: string
  pb_prev_record_id :: string
  pb_lcp_bytes :: u64
  pb_expected_break :: bool
  pb_kind :: break_kind

record session_chain_view =
  scv_session_id :: string
  scv_record_ids :: "string list"
  scv_stability :: "u64 \<times> u64"
  scv_breaks :: "prefix_break list"

record ring_trace_store =
  rt_store :: trace_store
  rt_records :: "trace_record list"
  rt_by_session :: "(string \<times> string list) list"

definition DEFAULT_RING_CAPACITY :: nat where "DEFAULT_RING_CAPACITY = 2048"

definition DEFAULT_SCOPE_CAP :: nat where "DEFAULT_SCOPE_CAP = 512"

definition trace_with_capacity :: "nat \<Rightarrow> nat \<Rightarrow> ring_trace_store option" where
  "trace_with_capacity cap scope_cap =
     (if 0 < cap \<and> 0 < scope_cap
      then map_option (\<lambda>s. \<lparr>rt_store = s, rt_records = [], rt_by_session = []\<rparr>) (new_trace_store cap scope_cap) else None)"

definition clear_traces :: "ring_trace_store \<Rightarrow> ring_trace_store option" where
  "clear_traces s = map_option (\<lambda>t. \<lparr>rt_store = t, rt_records = [], rt_by_session = []\<rparr>)
     (new_trace_store (ts_cap (rt_store s)) (ts_per_scope_cap (rt_store s)))"

definition matches_filter :: "trace_record \<Rightarrow> trace_filter \<Rightarrow> bool" where
  "matches_filter rec f \<longleftrightarrow>
     (case tf_provider f of Some p \<Rightarrow> tr_provider rec = p | None \<Rightarrow> True) \<and>
     (case tf_model f of Some m \<Rightarrow> tr_model rec = m | None \<Rightarrow> True) \<and>
     (case tf_session_id f of Some i \<Rightarrow> tr_session_id rec = Some i | None \<Rightarrow> True) \<and>
     (case tf_since_unix_ms f of Some since \<Rightarrow> since \<le> tr_sent_at_unix_ms rec | None \<Rightarrow> True)"

definition stored_of :: "trace_record \<Rightarrow> stored_record" where
  "stored_of rec =
     \<lparr>sr_scope = tr_scope_key rec, sr_session = tr_session_id rec, sr_len_bytes = fp_len_bytes (tr_fingerprint rec),
      sr_t_send_ms = tr_monotonic_sent_ms rec,
      sr_block_hashes = map (\<lambda>h. case from_str_radix16 h of Some v \<Rightarrow> v | None \<Rightarrow> 0) (fp_block_hashes (tr_fingerprint rec))\<rparr>"

text \<open>The record that leaves the queue also leaves the list of its session.\<close>

definition forget_call :: "trace_record \<Rightarrow> (string \<times> string list) list \<Rightarrow> (string \<times> string list) list" where
  "forget_call gone sessions = (case tr_session_id gone of
     None \<Rightarrow> sessions
   | Some sid \<Rightarrow>
       (case map_of sessions sid of
          None \<Rightarrow> sessions
        | Some ids \<Rightarrow>
            (let ids' = filter (\<lambda>i. i \<noteq> tr_call_id gone) ids
             in if ids' = [] then hash_remove sid sessions else hash_insert sid ids' sessions)))"

definition push_call :: "trace_record \<Rightarrow> (string \<times> string list) list \<Rightarrow> (string \<times> string list) list" where
  "push_call rec sessions = (case tr_session_id rec of
     None \<Rightarrow> sessions
   | Some sid \<Rightarrow> hash_insert sid ((case map_of sessions sid of Some ids \<Rightarrow> ids | None \<Rightarrow> []) @ [tr_call_id rec]) sessions)"

definition append_trace :: "trace_record \<Rightarrow> ring_trace_store \<Rightarrow> ring_trace_store" where
  "append_trace rec s =
     (let (kept, sessions) =
        (case rt_records s of
           gone # rest \<Rightarrow> if ts_cap (rt_store s) \<le> length (rt_records s) then (rest, forget_call gone (rt_by_session s))
                          else (rt_records s, rt_by_session s)
         | [] \<Rightarrow> ([], rt_by_session s))
      in \<lparr>rt_store = insert_record (stored_of rec) (rt_store s), rt_records = kept @ [rec], rt_by_session = push_call rec sessions\<rparr>)"

definition lookup_trace :: "u64 \<Rightarrow> chain \<Rightarrow> u64 \<Rightarrow> u64 \<Rightarrow> ring_trace_store \<Rightarrow> (lcp_result \<times> ring_trace_store) option" where
  "lookup_trace scope c now ttl s =
     map_option (\<lambda>(res, t). (res, s\<lparr>rt_store := t\<rparr>)) (lookup_chain scope c now ttl (rt_store s))"

definition record_of_call :: "ring_trace_store \<Rightarrow> string \<Rightarrow> trace_record option" where
  "record_of_call s i = find (\<lambda>r. tr_call_id r = i) (rt_records s)"

definition step_stat :: "nat \<Rightarrow> trace_record \<Rightarrow> session_step_stat" where
  "step_stat step rec =
     \<lparr>sss_step = of_nat step, sss_call_id = tr_call_id rec, sss_hit_rate = reported_hit_rate rec, sss_verdict = tr_verdict rec,
      sss_error = tr_error rec\<rparr>"

definition session_cache_trajectory :: "string \<Rightarrow> ring_trace_store \<Rightarrow> session_step_stat list" where
  "session_cache_trajectory sid s = (case map_of (rt_by_session s) sid of
     None \<Rightarrow> []
   | Some ids \<Rightarrow> List.map_filter (\<lambda>(step, i). map_option (step_stat step) (record_of_call s i)) (enumerate 0 ids))"

definition chain_lcp :: "trace_record \<Rightarrow> trace_record \<Rightarrow> u64 \<times> u64" where
  "chain_lcp a b =
     (let shared = of_nat (common_prefix_blocks (fp_block_hashes (tr_fingerprint a)) (fp_block_hashes (tr_fingerprint b)))
      in (shared * max (fp_block_size (tr_fingerprint a)) 1, shared))"

fun chain_windows :: "trace_record list \<Rightarrow> u64 \<times> u64 \<times> prefix_break list \<Rightarrow> u64 \<times> u64 \<times> prefix_break list" where
  "chain_windows (a # b # recs) (lcp_sum, len_sum, breaks) =
     (case chain_lcp a b of
        (lcp, shared) \<Rightarrow>
          chain_windows (b # recs)
            (lcp_sum + lcp, len_sum + fp_len_bytes (tr_fingerprint a),
             if shared < of_nat (length (fp_block_hashes (tr_fingerprint a)))
             then breaks @ [\<lparr>pb_at_record_id = tr_call_id b, pb_prev_record_id = tr_call_id a, pb_lcp_bytes = lcp,
                             pb_expected_break = False, pb_kind = BreakUnknown\<rparr>]
             else breaks))"
| "chain_windows _ acc = acc"

text \<open>The stability is one when no earlier record has a length, and at most one.\<close>

definition session_chain :: "string \<Rightarrow> ring_trace_store \<Rightarrow> session_chain_view option" where
  "session_chain sid s = (case map_of (rt_by_session s) sid of
     None \<Rightarrow> None
   | Some ids \<Rightarrow>
       (if ids = [] then None
        else (case chain_windows (List.map_filter (record_of_call s) ids) (0, 0, []) of
                (lcp_sum, len_sum, breaks) \<Rightarrow>
                  Some \<lparr>scv_session_id = sid, scv_record_ids = ids,
                        scv_stability = (if 0 < len_sum then (min lcp_sum len_sum, len_sum) else (1, 1)), scv_breaks = breaks\<rparr>)))"

section \<open>The sessions follow the records\<close>

definition session_ids :: "string \<Rightarrow> trace_record list \<Rightarrow> string list" where
  "session_ids sid recs = map tr_call_id (filter (\<lambda>r. tr_session_id r = Some sid) recs)"

definition sessions_follow :: "ring_trace_store \<Rightarrow> bool" where
  "sessions_follow s \<longleftrightarrow>
     (\<forall>sid. map_of (rt_by_session s) sid =
       (if session_ids sid (rt_records s) = [] then None else Some (session_ids sid (rt_records s))))"

definition calls_distinct :: "trace_record list \<Rightarrow> bool" where
  "calls_distinct recs \<longleftrightarrow> distinct (map tr_call_id recs)"

lemma session_ids_snoc:
  "session_ids sid (recs @ [rec]) = session_ids sid recs @ (if tr_session_id rec = Some sid then [tr_call_id rec] else [])"
  by (simp add: session_ids_def)

lemma forget_first:
  assumes "calls_distinct (gone # recs)"
    and "\<forall>sid. map_of sessions sid = (if session_ids sid (gone # recs) = [] then None else Some (session_ids sid (gone # recs)))"
  shows "map_of (forget_call gone sessions) sid = (if session_ids sid recs = [] then None else Some (session_ids sid recs))"
proof (cases "tr_session_id gone")
  case None
  then show ?thesis using assms(2) by (simp add: forget_call_def session_ids_def)
next
  case (Some k)
  have "filter (\<lambda>i. i \<noteq> tr_call_id gone) (session_ids k recs) = session_ids k recs"
    using assms(1) by (auto simp: filter_id_conv session_ids_def calls_distinct_def) (metis imageI)
  then show ?thesis using assms(2) [rule_format, of k] assms(2) [rule_format, of sid] Some
    by (auto simp: forget_call_def session_ids_def Let_def)
qed

lemma push_last:
  assumes "\<forall>sid. map_of sessions sid = (if session_ids sid recs = [] then None else Some (session_ids sid recs))"
  shows "map_of (push_call rec sessions) sid = (if session_ids sid (recs @ [rec]) = [] then None else Some (session_ids sid (recs @ [rec])))"
proof (cases "tr_session_id rec")
  case None
  then show ?thesis using assms by (simp add: push_call_def session_ids_snoc)
next
  case (Some k)
  have "(case map_of sessions k of Some ids \<Rightarrow> ids | None \<Rightarrow> []) = session_ids k recs"
    unfolding assms [rule_format] by simp
  then show ?thesis using assms Some by (simp add: push_call_def session_ids_snoc)
qed

definition keeps_last :: "ring_trace_store \<Rightarrow> trace_record list \<Rightarrow> bool" where
  "keeps_last s recs \<longleftrightarrow> 0 < ts_cap (rt_store s) \<and>
     rt_records s = drop (length recs - ts_cap (rt_store s)) recs \<and> sessions_follow s"

lemma insert_cap [simp]: "ts_cap (insert_record r s) = ts_cap s"
  by (auto simp: insert_record_def place_record_def evict_oldest_in_scope_def Let_def split: option.splits)

lemma append_trace_full:
  assumes "rt_records s = gone # rest" "ts_cap (rt_store s) \<le> length (rt_records s)"
  shows "append_trace rec s = \<lparr>rt_store = insert_record (stored_of rec) (rt_store s), rt_records = rest @ [rec],
    rt_by_session = push_call rec (forget_call gone (rt_by_session s))\<rparr>"
  using assms by (simp add: append_trace_def)

lemma append_trace_room:
  assumes "length (rt_records s) < ts_cap (rt_store s)"
  shows "append_trace rec s = \<lparr>rt_store = insert_record (stored_of rec) (rt_store s), rt_records = rt_records s @ [rec],
    rt_by_session = push_call rec (rt_by_session s)\<rparr>"
  using assms by (cases "rt_records s") (simp_all add: append_trace_def)

lemma append_keeps:
  assumes K: "keeps_last s recs" and d: "calls_distinct (recs @ [rec])"
  shows "keeps_last (append_trace rec s) (recs @ [rec])"
proof -
  let ?cap = "ts_cap (rt_store s)"
  have cap: "0 < ?cap" and recs: "rt_records s = drop (length recs - ?cap) recs"
    and follow: "\<forall>sid. map_of (rt_by_session s) sid =
      (if session_ids sid (rt_records s) = [] then None else Some (session_ids sid (rt_records s)))"
    using K by (auto simp: keeps_last_def sessions_follow_def)
  show ?thesis
  proof (cases "?cap \<le> length recs")
    case True
    then have "rt_records s \<noteq> []" unfolding recs using cap by simp
    then obtain gone rest where r: "rt_records s = gone # rest" by (cases "rt_records s") auto
    have "calls_distinct (gone # rest)"
      using d unfolding r [symmetric] recs calls_distinct_def by (simp add: drop_map [symmetric])
    then have "\<forall>sid. map_of (forget_call gone (rt_by_session s)) sid = (if session_ids sid rest = [] then None else Some (session_ids sid rest))"
      using forget_first follow unfolding r by blast
    from push_last [OF this] have "sessions_follow (append_trace rec s)"
      using True recs by (simp add: append_trace_full [OF r] sessions_follow_def)
    moreover have "rest = drop (length recs + 1 - ?cap) recs"
      using arg_cong [OF recs, of tl] True by (simp add: r tl_drop Suc_diff_le flip: drop_Suc)
    ultimately show ?thesis using cap True recs by (simp add: keeps_last_def append_trace_full [OF r])
  next
    case False
    then have "rt_records s = recs" "length (rt_records s) < ?cap" using recs by simp_all
    then show ?thesis using cap False push_last [OF follow]
      by (simp add: keeps_last_def append_trace_room sessions_follow_def)
  qed
qed

lemma append_all_keeps:
  assumes "keeps_last s old" "calls_distinct (old @ recs)"
  shows "keeps_last (fold append_trace recs s) (old @ recs)"
  using assms
proof (induction recs arbitrary: s old)
  case (Cons rec recs)
  have "calls_distinct (old @ [rec])" using Cons.prems(2) by (auto simp: calls_distinct_def)
  then show ?case using Cons.IH [OF append_keeps [OF Cons.prems(1)], of rec] Cons.prems(2) by simp
qed simp

text \<open>The trajectory of a session is its retained calls. When records with different call ids are appended to a store
  of capacity \<open>cap\<close>, the store holds the last \<open>cap\<close> of them, and the trajectory of a session lists one step for each
  of its retained records, in order and numbered from zero, with the hit rate, verdict and error of that record.\<close>

lemma trajectory_exact:
  assumes "trace_with_capacity cap scope_cap = Some s0" "calls_distinct recs"
  shows "let kept = drop (length recs - cap) recs; s = fold append_trace recs s0
    in rt_records s = kept \<and>
       session_cache_trajectory sid s = map (\<lambda>(k, r). step_stat k r) (enumerate 0 (filter (\<lambda>r. tr_session_id r = Some sid) kept))"
proof -
  define s where "s = fold append_trace recs s0"
  define kept where "kept = drop (length recs - cap) recs"
  have s0: "ts_cap (rt_store s0) = cap" "keeps_last s0 []"
    using assms(1)
    by (auto simp: trace_with_capacity_def new_trace_store_def keeps_last_def sessions_follow_def session_ids_def split: if_splits)
  have "ts_cap (rt_store (fold append_trace recs s0)) = ts_cap (rt_store s0)" for s0
    by (induction recs arbitrary: s0) (auto simp: append_trace_def split_beta Let_def)
  then have cap: "ts_cap (rt_store s) = cap" using s0(1) by (simp add: s_def)
  have K: "keeps_last s recs" unfolding s_def using append_all_keeps [OF s0(2), of recs] assms(2) by simp
  then have kept: "rt_records s = kept" by (simp add: keeps_last_def cap kept_def)
  have d: "calls_distinct kept" using assms(2) by (simp add: kept_def calls_distinct_def drop_map [symmetric])
  let ?mine = "filter (\<lambda>r. tr_session_id r = Some sid) kept"
  have "map_of (rt_by_session s) sid = (if ?mine = [] then None else Some (map tr_call_id ?mine))"
    using K kept by (auto simp: keeps_last_def sessions_follow_def session_ids_def)
  moreover have "List.map_filter (\<lambda>(k, i). map_option (step_stat k) (record_of_call s i)) (enumerate n (map tr_call_id rs)) =
      map (\<lambda>(k, r). step_stat k r) (enumerate n rs)" if "set rs \<subseteq> set kept" for n rs
    using that by (induction rs arbitrary: n) (simp_all add: List.map_filter_simps record_of_call_def kept
      find_distinct [OF d [unfolded calls_distinct_def]])
  from this [of ?mine 0] have "List.map_filter (\<lambda>(k, i). map_option (step_stat k) (record_of_call s i)) (enumerate 0 (map tr_call_id ?mine)) =
      map (\<lambda>(k, r). step_stat k r) (enumerate 0 ?mine)" by auto
  ultimately have "session_cache_trajectory sid s = map (\<lambda>(k, r). step_stat k r) (enumerate 0 ?mine)"
    by (simp add: session_cache_trajectory_def)
  then show ?thesis using kept unfolding s_def [symmetric] kept_def [symmetric] Let_def by simp
qed

definition demo_trace :: "string \<Rightarrow> string option \<Rightarrow> trace_record" where
  "demo_trace i e =
     \<lparr>tr_provider = ''p'', tr_model = ''m'', tr_request_id = None, tr_session_id = Some ''s'', tr_call_id = i, tr_sent_at_unix_ms = 0,
      tr_monotonic_sent_ms = 0, tr_lcp_token_upper = None, tr_ttft_ms = None,
      tr_fingerprint = \<lparr>fp_body_hash = [], fp_len_bytes = 0, fp_block_size = 0, fp_block_hashes = [], fp_token_estimate = 0\<rparr>,
      tr_usage = \<lparr>us_input_total = None, us_input_no_cache = None, us_cache_read = None, us_cache_write = None, us_output_total = None,
        us_output_text = None, us_output_reasoning = None, us_raw = None\<rparr>,
      tr_response_cache_headers = None, tr_requested_write = None, tr_verdict = None, tr_error = e, tr_scope_key = 0\<rparr>"

definition demo_store :: ring_trace_store where
  "demo_store =
     \<lparr>rt_store = \<lparr>ts_cap = 1, ts_per_scope_cap = 1, ts_ring = replicate 1 empty_slot, ts_next = 0, ts_index = [], ts_scope_count = [],
        ts_tombstone_hits = 0\<rparr>, rt_records = [], rt_by_session = []\<rparr>"

lemma trajectory_exact_witness:
  "rt_records (fold append_trace [demo_trace ''a'' None, demo_trace ''b'' None] demo_store) = [demo_trace ''b'' None] \<and>
   session_cache_trajectory ''s'' (fold append_trace [demo_trace ''a'' None, demo_trace ''b'' None] demo_store) =
     [step_stat 0 (demo_trace ''b'' None)]"
proof -
  have s: "trace_with_capacity 1 1 = Some demo_store" by (simp add: trace_with_capacity_def new_trace_store_def demo_store_def)
  have d: "calls_distinct [demo_trace ''a'' None, demo_trace ''b'' None]" by (simp add: calls_distinct_def demo_trace_def)
  have "tr_session_id (demo_trace i e) = Some ''s''" for i e by (simp add: demo_trace_def)
  then show ?thesis using trajectory_exact [OF s d, of "''s''"] by (simp add: Let_def)
qed

text \<open>
  The attempts of a retried call are recorded under one call id. The session then lists the id once for each attempt,
  and every entry is looked up as the first record with that id: the trajectory shows the failed attempt twice.
\<close>

lemma retried_call_hides_success:
  assumes "trace_with_capacity cap scope_cap = Some s0" "2 \<le> cap"
    and "tr_session_id failed = Some sid" "tr_session_id ok = Some sid" "tr_call_id ok = tr_call_id failed"
  shows "session_cache_trajectory sid (append_trace ok (append_trace failed s0)) = [step_stat 0 failed, step_stat 1 failed]"
proof -
  have s0: "rt_records s0 = []" "rt_by_session s0 = []" "ts_cap (rt_store s0) = cap"
    using assms(1) by (auto simp: trace_with_capacity_def new_trace_store_def split: if_splits)
  have one: "append_trace failed s0 = \<lparr>rt_store = insert_record (stored_of failed) (rt_store s0), rt_records = [failed],
      rt_by_session = [(sid, [tr_call_id failed])]\<rparr>"
    using assms(2,3) s0 by (simp add: append_trace_room push_call_def)
  have "rt_records (append_trace ok (append_trace failed s0)) = [failed, ok]"
    "rt_by_session (append_trace ok (append_trace failed s0)) = [(sid, [tr_call_id failed, tr_call_id failed])]"
    using assms(2-5) s0 by (simp_all add: one append_trace_def push_call_def)
  then show ?thesis by (simp add: session_cache_trajectory_def record_of_call_def List.map_filter_simps)
qed

end
