(* ===== verification/Trace_Layer.thy ===== *)
theory Trace_Layer
  imports Trace_Store Text_Result
begin

text \<open>
  The probe around a model (\<open>TraceLayer\<close> of \<open>src/aimux-core/src/trace/layer.rs\<close>): the identity of a request, the record
  that a finished call leaves in a store, and the wrapped stream that records once. The sink is a \<open>RingTraceStore\<close>; the
  clocks, the id of the process, the writer of JSON and the settings of the running operation are arguments.
\<close>

section \<open>The layer\<close>

record session_tracker =
  sk_rounds :: u32
  sk_prev_body_len :: u64

record trace_layer =
  tl_provider :: string
  tl_model_id :: string
  tl_auditor :: "(judgment_input \<Rightarrow> verdict) option"
  tl_strict :: bool
  tl_default_session :: "string option"
  tl_scope_salt :: u64
  tl_scope_name :: "string option"

record layer_state =
  ly_sink :: ring_trace_store
  ly_tracker :: "(string \<times> session_tracker) list"

record record_ctx =
  rc_provider :: string
  rc_model :: string
  rc_auditor :: "(judgment_input \<Rightarrow> verdict) option"
  rc_strict :: bool
  rc_scope_salt :: u64
  rc_session_id :: "string option"
  rc_scope_key :: u64
  rc_sent_at_unix_ms :: int
  rc_monotonic_ms :: u64
  rc_call_id :: "string option"
  rc_request_body :: "json option"
  rc_response_headers :: "(string \<times> string) list option"
  rc_ttft_ms :: u64

record layer_env =
  le_session_id :: "string option"
  le_call_id :: "string option"
  le_unix_ms :: int
  le_mono_ms :: u64
  le_lookup_ms :: u64
  le_fresh_id :: string
  le_to_vec :: "json \<Rightarrow> u8 list option"

definition bytes_of :: "string \<Rightarrow> u8 list" where
  "bytes_of s = map (\<lambda>c. of_nat (of_char c)) s"

definition new_trace_layer :: "u32 \<Rightarrow> string \<Rightarrow> string \<Rightarrow> trace_layer" where
  "new_trace_layer pid provider model =
     \<lparr>tl_provider = provider, tl_model_id = model, tl_auditor = None, tl_strict = False, tl_default_session = None,
      tl_scope_salt = mix (0x5eed5eed XOR ucast pid), tl_scope_name = None\<rparr>"

definition with_scope_name :: "string \<Rightarrow> trace_layer \<Rightarrow> trace_layer" where
  "with_scope_name name l = l\<lparr>tl_scope_name := Some name\<rparr>"

definition with_default_session :: "string \<Rightarrow> u8 list \<Rightarrow> trace_layer \<Rightarrow> trace_layer" where
  "with_default_session sid key l =
     l\<lparr>tl_default_session := Some sid,
       tl_scope_salt := fold (\<lambda>c acc. mix (acc XOR xor_tail 0 c 0)) (chunks 8 key) 0x9e3779b97f4a7c15\<rparr>"

definition with_rules_auditor :: "(u64 \<Rightarrow> u64) \<Rightarrow> bool \<Rightarrow> trace_layer \<Rightarrow> trace_layer" where
  "with_rules_auditor pct strict l = l\<lparr>tl_strict := strict, tl_auditor := Some (judge pct)\<rparr>"

definition scope_key :: "u64 \<Rightarrow> string \<Rightarrow> string \<Rightarrow> u64" where
  "scope_key salt name model = hash64 salt (bytes_of name @ bytes_of model)"

definition make_record_ctx :: "layer_env \<Rightarrow> trace_layer \<Rightarrow> record_ctx" where
  "make_record_ctx env l =
     \<lparr>rc_provider = tl_provider l, rc_model = tl_model_id l, rc_auditor = tl_auditor l, rc_strict = tl_strict l,
      rc_scope_salt = tl_scope_salt l,
      rc_session_id = (case le_session_id env of Some i \<Rightarrow> Some i | None \<Rightarrow> tl_default_session l),
      rc_scope_key = scope_key (tl_scope_salt l) (unwrap_or (tl_provider l) (tl_scope_name l)) (tl_model_id l),
      rc_sent_at_unix_ms = le_unix_ms env, rc_monotonic_ms = le_mono_ms env, rc_call_id = le_call_id env,
      rc_request_body = None, rc_response_headers = None, rc_ttft_ms = - 1\<rparr>"

section \<open>Recording a call\<close>

definition denoised_bytes :: "layer_env \<Rightarrow> record_ctx \<Rightarrow> u8 list option" where
  "denoised_bytes env ctx = Option.bind (rc_request_body ctx) (\<lambda>body. le_to_vec env (denoise body))"

definition usage_snapshot_of :: "usage \<Rightarrow> usage_snapshot" where
  "usage_snapshot_of u =
     \<lparr>us_input_total = map_option ucast (itu_total (u_input_tokens u)),
      us_input_no_cache = map_option ucast (itu_no_cache (u_input_tokens u)),
      us_cache_read = map_option ucast (itu_cache_read (u_input_tokens u)),
      us_cache_write = map_option ucast (itu_cache_write (u_input_tokens u)),
      us_output_total = map_option ucast (otu_total (u_output_tokens u)),
      us_output_text = map_option ucast (otu_text (u_output_tokens u)),
      us_output_reasoning = map_option ucast (otu_reasoning (u_output_tokens u)),
      us_raw = map_option JObject (u_raw u)\<rparr>"

definition session_stats_for ::
  "string \<Rightarrow> u64 \<Rightarrow> u64 \<Rightarrow> (string \<times> session_tracker) list \<Rightarrow> session_stats \<times> (string \<times> session_tracker) list" where
  "session_stats_for sid lcp_bytes body_len tracker =
     (let t = (case map_of tracker sid of Some t \<Rightarrow> t | None \<Rightarrow> \<lparr>sk_rounds = 0, sk_prev_body_len = 0\<rparr>);
          rounds = sk_rounds t + 1;
          stable = (0 < sk_prev_body_len t \<and> sk_prev_body_len t * 95 \<le> lcp_bytes * 100)
      in (\<lparr>st_same_session_rounds = rounds, st_prefix_stable = stable, st_lcp_gt_1024 = (1024 < lcp_bytes div 4)\<rparr>,
          hash_insert sid \<lparr>sk_rounds = rounds, sk_prev_body_len = body_len\<rparr> tracker))"

definition lookup_lcp ::
  "layer_env \<Rightarrow> record_ctx \<Rightarrow> chain \<Rightarrow> u64 \<Rightarrow> ring_trace_store \<Rightarrow>
   ((lcp_input option \<times> u64 \<times> u64 \<times> bool) \<times> ring_trace_store) option" where
  "lookup_lcp env ctx c ttl sink = (case lookup_trace (rc_scope_key ctx) c (le_lookup_ms env) ttl sink of
     None \<Rightarrow> None
   | Some (lcp, sink') \<Rightarrow>
       (let same_session = (case lr_matched lcp of Some m \<Rightarrow> mi_session m = rc_session_id ctx | None \<Rightarrow> False);
            upper = (if lr_matched lcp \<noteq> None then (ucast (lr_matched_blocks lcp) + 1) * of_nat (ch_block_size c) else 0)
        in Some ((map_option (\<lambda>_. \<lparr>li_lcp_bytes = lr_lcp_bytes lcp, li_lcp_upper_bytes = upper, li_same_session = same_session,
                     li_matched_exists = True\<rparr>) (lr_matched lcp),
                  lr_lcp_bytes lcp, upper, lr_candidate_expired lcp), sink')))"

definition ascii_upper :: "char \<Rightarrow> char" where
  "ascii_upper c = (let n = of_char c :: nat in if 97 \<le> n \<and> n \<le> 122 then char_of (n - 32) else c)"

definition cache_header_hit :: "(string \<times> string) list option \<Rightarrow> bool" where
  "cache_header_hit headers = (case headers of
     Some hs \<Rightarrow> list_ex (\<lambda>(k, v). str_contains (to_ascii_lowercase k) ''cache-status'' \<and> str_contains (map ascii_upper v) ''HIT'') hs
   | None \<Rightarrow> False)"

fun as_u64 :: "json \<Rightarrow> u64 option" where
  "as_u64 (JNumber (PosInt n)) = Some n"
| "as_u64 _ = None"

definition raw_count :: "string \<Rightarrow> usage \<Rightarrow> u64 option" where
  "raw_count key u = Option.bind (u_raw u) (\<lambda>r. Option.bind (map_of r key) as_u64)"

definition judgment_of ::
  "record_ctx \<Rightarrow> usage \<Rightarrow> u64 \<Rightarrow> bool \<Rightarrow> bool \<Rightarrow> lcp_input option \<Rightarrow> session_stats \<Rightarrow> judgment_input" where
  "judgment_of ctx u len first expired lcp stats =
     (let inp = u_input_tokens u
      in \<lparr>ji_spec = for_provider (rc_provider ctx) (rc_model ctx), ji_strict = rc_strict ctx, ji_first = first,
          ji_prompt_tokens = ucast (unwrap_or 0 (itu_total inp)), ji_prompt_bytes = len,
          ji_claimed = ucast (unwrap_or 0 (itu_cache_read inp)),
          ji_input_no_cache = map_option ucast (itu_no_cache inp), ji_input_cache_read = map_option ucast (itu_cache_read inp),
          ji_input_cache_write = map_option ucast (itu_cache_write inp), ji_write = map_option ucast (itu_cache_write inp),
          ji_no_cache = map_option ucast (itu_no_cache inp), ji_hit = raw_count ''prompt_cache_hit_tokens'' u,
          ji_miss = raw_count ''prompt_cache_miss_tokens'' u, ji_usage_present = (itu_total inp \<noteq> None),
          ji_response_cache_header_hit = cache_header_hit (rc_response_headers ctx), ji_candidate_expired = expired,
          ji_byte_proxy = True, ji_route_affinity_known = False, ji_lcp = lcp, ji_system_tokens = 0,
          ji_session_stats = Some stats\<rparr>)"

definition no_fingerprint :: fingerprint where
  "no_fingerprint = \<lparr>fp_body_hash = [], fp_len_bytes = 0, fp_block_size = 0, fp_block_hashes = [], fp_token_estimate = 0\<rparr>"

definition no_chain :: chain where
  "no_chain = \<lparr>ch_body_hash = 0, ch_len_bytes = 0, ch_block_size = DEFAULT_BLOCK_SIZE, ch_block_hashes = []\<rparr>"

definition body_chain :: "layer_env \<Rightarrow> record_ctx \<Rightarrow> fingerprint \<times> chain" where
  "body_chain env ctx = (case denoised_bytes env ctx of
     Some xs \<Rightarrow>
       (let c = compute_chain \<lparr>bf_block_size = DEFAULT_BLOCK_SIZE, bf_scope_salt = rc_scope_salt ctx\<rparr> xs in (fingerprint_of c, c))
   | None \<Rightarrow> (no_fingerprint, no_chain))"

definition lcp_token_upper_of :: "u64 \<Rightarrow> u64 \<Rightarrow> usage \<Rightarrow> u64 option" where
  "lcp_token_upper_of upper len u =
     (if 0 < upper then Some (min (min upper len div 4) (ucast (unwrap_or 0 (itu_total (u_input_tokens u))))) else None)"

text \<open>\<open>RecordCtx::record\<close>. The lookup and the counts see the store as it is before this call is entered.\<close>

definition record_trace ::
  "layer_env \<Rightarrow> record_ctx \<Rightarrow> usage \<Rightarrow> string option \<Rightarrow> string option \<Rightarrow> layer_state \<Rightarrow> layer_state option" where
  "record_trace env ctx u error request_id st =
     (case body_chain env ctx of
        (fp, c) \<Rightarrow>
          (case (if error = None \<and> ch_block_hashes c \<noteq> []
                 then lookup_lcp env ctx c (pa_ttl_ms (for_provider (rc_provider ctx) (rc_model ctx))) (ly_sink st)
                 else Some ((None, 0, 0, False), ly_sink st)) of
             None \<Rightarrow> None
           | Some ((lcp, lcp_bytes, upper, expired), sink) \<Rightarrow>
               (let sid = unwrap_or (''<scope:'' @ show_nat (unat (rc_scope_key ctx)) @ ''>'') (rc_session_id ctx)
                in case session_stats_for sid lcp_bytes (fp_len_bytes fp) (ly_tracker st) of
                     (stats, tracker) \<Rightarrow>
                       (let first = (records_in_scope (rc_scope_key ctx) (rt_store sink) = 0);
                            vd = map_option (\<lambda>audit. audit (judgment_of ctx u (fp_len_bytes fp) first expired lcp stats)) (rc_auditor ctx);
                            rec = \<lparr>tr_provider = rc_provider ctx, tr_model = rc_model ctx, tr_request_id = request_id,
                              tr_session_id = rc_session_id ctx, tr_call_id = unwrap_or (le_fresh_id env) (rc_call_id ctx),
                              tr_sent_at_unix_ms = rc_sent_at_unix_ms ctx, tr_monotonic_sent_ms = rc_monotonic_ms ctx,
                              tr_lcp_token_upper = lcp_token_upper_of upper (fp_len_bytes fp) u,
                              tr_ttft_ms = (if rc_ttft_ms ctx = - 1 then None else Some (rc_ttft_ms ctx)),
                              tr_fingerprint = fp, tr_usage = usage_snapshot_of u,
                              tr_response_cache_headers = rc_response_headers ctx, tr_requested_write = None, tr_verdict = vd,
                              tr_error = error, tr_scope_key = rc_scope_key ctx\<rparr>
                        in Some \<lparr>ly_sink = append_trace rec sink, ly_tracker = tracker\<rparr>))))"

text \<open>\<open>do_generate\<close> after the model answered.\<close>

definition no_usage_reported :: usage where
  "no_usage_reported =
     \<lparr>u_input_tokens = \<lparr>itu_total = None, itu_no_cache = None, itu_cache_read = None, itu_cache_write = None\<rparr>,
      u_output_tokens = \<lparr>otu_total = None, otu_text = None, otu_reasoning = None\<rparr>, u_raw = None\<rparr>"

definition traced_generate ::
  "layer_env \<Rightarrow> trace_layer \<Rightarrow> aimux_error + generate_result \<Rightarrow> layer_state \<Rightarrow> (aimux_error + generate_result) \<times> layer_state option" where
  "traced_generate env l outcome st =
     (outcome,
      (let ctx = make_record_ctx env l
       in case outcome of
            Inr result \<Rightarrow>
              record_trace env
                (ctx\<lparr>rc_request_body := Option.bind (gr_request result) ri_body,
                     rc_response_headers := Option.bind (gr_response result) gr_headers\<rparr>)
                (gr_usage result) None (Option.bind (gr_response result) gr_id) st
          | Inl e \<Rightarrow> record_trace env ctx no_usage_reported (Some (show_error e)) None st))"

section \<open>The wrapped stream\<close>

datatype trace_polled = TracePart stream_part | TraceErr aimux_error | TraceEnd | TracePending

record trace_stream =
  tg_error :: "string option"
  tg_recorded :: bool

definition new_trace_stream :: trace_stream where
  "new_trace_stream = \<lparr>tg_error = None, tg_recorded = False\<rparr>"

text \<open>The calls of \<open>record\<close> that a poll makes, as usage and error.\<close>

definition record_now :: "usage \<Rightarrow> string option \<Rightarrow> trace_stream \<Rightarrow> (usage \<times> string option) list \<times> trace_stream" where
  "record_now u error s = (if tg_recorded s then ([], s) else ([(u, error)], s\<lparr>tg_recorded := True\<rparr>))"

definition hold_first :: "aimux_error \<Rightarrow> trace_stream \<Rightarrow> trace_stream" where
  "hold_first e s = (if tg_error s = None then s\<lparr>tg_error := Some (show_error e)\<rparr> else s)"

fun trace_poll :: "trace_polled \<Rightarrow> trace_stream \<Rightarrow> (usage \<times> string option) list \<times> trace_stream" where
  "trace_poll (TracePart (Finish r u md)) s = record_now u (tg_error s) (s\<lparr>tg_error := None\<rparr>)"
| "trace_poll (TracePart (PartError e)) s = ([], hold_first e s)"
| "trace_poll (TracePart p) s = ([], s)"
| "trace_poll (TraceErr e) s = ([], hold_first e s)"
| "trace_poll TraceEnd s = record_now no_usage_reported (tg_error s) (s\<lparr>tg_error := None\<rparr>)"
| "trace_poll TracePending s = ([], s)"

definition drop_trace_stream :: "trace_stream \<Rightarrow> (usage \<times> string option) list" where
  "drop_trace_stream s =
     (if tg_recorded s then []
      else [(no_usage_reported, Some (unwrap_or ''stream dropped before completion'' (tg_error s)))])"

fun trace_polls :: "trace_polled list \<Rightarrow> trace_stream \<Rightarrow> (usage \<times> string option) list" where
  "trace_polls [] s = drop_trace_stream s"
| "trace_polls (p # ps) s = (case trace_poll p s of (calls, s') \<Rightarrow> calls @ trace_polls ps s')"

text \<open>The first part of output stamps the time to the first token.\<close>

fun is_model_output :: "trace_polled \<Rightarrow> bool" where
  "is_model_output (TracePart (TextDelta i d md)) \<longleftrightarrow> True"
| "is_model_output (TracePart (ReasoningDelta i d md)) \<longleftrightarrow> True"
| "is_model_output (TracePart (ToolCallPart c)) \<longleftrightarrow> True"
| "is_model_output (TracePart (FilePart f)) \<longleftrightarrow> True"
| "is_model_output (TracePart (ReasoningFilePart f)) \<longleftrightarrow> True"
| "is_model_output _ \<longleftrightarrow> False"

definition observe_ttft :: "u64 \<Rightarrow> trace_polled \<Rightarrow> u64 \<Rightarrow> u64" where
  "observe_ttft elapsed p ttft = (if ttft = - 1 \<and> is_model_output p then elapsed else ttft)"

section \<open>One record for each stream\<close>

fun terminal_polled :: "trace_polled \<Rightarrow> bool" where
  "terminal_polled (TracePart (Finish r u md)) \<longleftrightarrow> True"
| "terminal_polled TraceEnd \<longleftrightarrow> True"
| "terminal_polled _ \<longleftrightarrow> False"

fun polled_error :: "trace_polled \<Rightarrow> string option" where
  "polled_error (TracePart (PartError e)) = Some (show_error e)"
| "polled_error (TraceErr e) = Some (show_error e)"
| "polled_error _ = None"

fun polled_usage :: "trace_polled \<Rightarrow> usage" where
  "polled_usage (TracePart (Finish r u md)) = u"
| "polled_usage _ = no_usage_reported"

definition first_error :: "trace_polled list \<Rightarrow> string option" where
  "first_error ps = (case List.map_filter polled_error ps of e # _ \<Rightarrow> Some e | [] \<Rightarrow> None)"

definition trace_call :: "trace_polled list \<Rightarrow> usage \<times> string option" where
  "trace_call ps =
     (let before = takeWhile (\<lambda>p. \<not> terminal_polled p) ps
      in case dropWhile (\<lambda>p. \<not> terminal_polled p) ps of
           p # _ \<Rightarrow> (polled_usage p, first_error before)
         | [] \<Rightarrow> (no_usage_reported, Some (unwrap_or ''stream dropped before completion'' (first_error before))))"

lemma recorded_quiet: "tg_recorded s \<Longrightarrow> trace_polls ps s = []"
proof (induction ps arbitrary: s)
  case Nil
  then show ?case by (simp add: drop_trace_stream_def)
next
  case (Cons p ps)
  then have "fst (trace_poll p s) = [] \<and> tg_recorded (snd (trace_poll p s))"
    by (induction p s rule: trace_poll.induct) (simp_all add: record_now_def hold_first_def)
  then show ?case using Cons by (simp add: split_beta)
qed

lemma terminal_poll:
  assumes "terminal_polled p" "\<not> tg_recorded s"
  shows "fst (trace_poll p s) = [(polled_usage p, tg_error s)] \<and> tg_recorded (snd (trace_poll p s))"
  using assms by (induction p s rule: trace_poll.induct) (simp_all add: record_now_def)

lemma quiet_poll:
  assumes "\<not> terminal_polled p" "\<not> tg_recorded s"
  shows "trace_poll p s = ([], s\<lparr>tg_error := (case tg_error s of Some e \<Rightarrow> Some e | None \<Rightarrow> polled_error p)\<rparr>)"
  using assms by (induction p s rule: trace_poll.induct) (auto simp: hold_first_def split: option.split)

lemma trace_polls_one:
  assumes "\<not> tg_recorded s"
  shows "trace_polls ps s =
    [(let before = takeWhile (\<lambda>p. \<not> terminal_polled p) ps;
          err = (case tg_error s of Some e \<Rightarrow> Some e | None \<Rightarrow> first_error before)
      in case dropWhile (\<lambda>p. \<not> terminal_polled p) ps of
           p # _ \<Rightarrow> (polled_usage p, err)
         | [] \<Rightarrow> (no_usage_reported, Some (unwrap_or ''stream dropped before completion'' err)))]"
  using assms
proof (induction ps arbitrary: s)
  case Nil
  then show ?case by (simp add: drop_trace_stream_def first_error_def List.map_filter_simps split: option.split)
next
  case (Cons p ps)
  show ?case
  proof (cases "terminal_polled p")
    case True
    then show ?thesis using terminal_poll [OF True Cons.prems] recorded_quiet
      by (simp add: split_beta first_error_def List.map_filter_simps split: option.split)
  next
    case False
    have "(case (case tg_error s of Some e \<Rightarrow> Some e | None \<Rightarrow> polled_error p) of Some e \<Rightarrow> Some e | None \<Rightarrow> first_error xs) =
        (case tg_error s of Some e \<Rightarrow> Some e | None \<Rightarrow> first_error (p # xs))" for xs
      by (cases "polled_error p") (simp_all add: first_error_def List.map_filter_simps split: option.split)
    then show ?thesis using False quiet_poll [OF False Cons.prems] Cons.IH Cons.prems by simp
  qed
qed

text \<open>A probed stream is recorded exactly once, whatever its items and whenever the caller stops: at the first finish
  part with its usage, or at an end without one, or when the stream is dropped; the error is that of the first error
  seen before, and a dropped stream without one says so.\<close>

lemma trace_recorded_once: "trace_polls ps new_trace_stream = [trace_call ps]"
  using trace_polls_one [of new_trace_stream ps] by (simp add: new_trace_stream_def trace_call_def Let_def split: list.split)

text \<open>The bytes of the scope name and of the model id are joined without a separator.\<close>

lemma scope_keys_collide: "name @ model = name' @ model' \<Longrightarrow> scope_key salt name model = scope_key salt name' model'"
  by (simp add: scope_key_def bytes_of_def flip: map_append)

end
