(* ===== verification/Spec2Isabelle.thy ===== *)
theory Spec2Isabelle
  imports Dispatch Tool_Calls Json_Repair Answer_Streams Next_Turn Composite Chat_Reassembly Outcome_Stream Sessions Trace_Layer
begin

text \<open>
  A verification library for \<open>arcships/aimux\<close>, a model access layer written in Rust: one interface to many
  AI providers, with a core (\<open>src/aimux-core\<close>), provider plumbing (\<open>src/aimux-providers\<close>,
  \<open>src/aimux-provider-utils\<close>) and an operation layer for language bindings (\<open>src/aimux-ops\<close>).

  \<^bold>\<open>The parts and how they interact.\<close> A caller asks the core for a text. The core converts the request, calls
  the provider under a retry loop and deadlines, and turns the provider's answer into a result. A whole
  answer has its tool calls parsed and repaired, its files downloaded through an address guard, its content
  converted and its output parsed. The messages of a step become part of the next prompt; a router or a mixture
  of models may stand in the place of one model; a result or a stream may leave in the Chat Completions form.
  Calls may be recorded in memory with their outcome, indexed by session, and probed for the prefixes they share. A streamed answer runs through the
  provider's stream transformers (strict mode, tool-call assembly), then through a pump task with a bounded channel,
  then through the consumer that frames it, and may be consumed into a result again. Bindings reach all this through the operation layer: a
  dispatcher resolves handles of a registry, checks ownership, and starts calls, framed streams or realtime
  transcription operations with bounded input and output queues; errors leave as numbered envelopes.

  \<^bold>\<open>Theories and sources.\<close>
  \<^item> \<open>Prelude\<close>: words, saturating arithmetic, texts of numbers, JSON values, runs of labelled step relations,
    the \<open>codec\<close> locale and other shared lemmas and collections.
  \<^item> \<open>Model_Types\<close> (\<open>types.rs\<close>, \<open>tool.rs\<close>, \<open>result.rs\<close>, \<open>shared.rs\<close>), \<open>Errors\<close> (\<open>error.rs\<close>), \<open>Suggestions\<close>
    (the edit distance of provider names), \<open>Envelope\<close> (\<open>envelope.rs\<close>): values and errors.
  \<^item> \<open>Handles\<close> (\<open>handle.rs\<close>): the registry with its atomic counter; threads are a step relation.
    \<open>Limits\<close> (\<open>limits.rs\<close>): the bounded queue with byte and item budgets. \<open>Operation\<close> (\<open>operation.rs\<close>): the
    realtime transcription operation, every method and the driver as steps on one state. \<open>Frame\<close> (\<open>frame.rs\<close>):
    pull-driven framing. \<open>Dispatch\<close> (\<open>dispatch.rs\<close>, \<open>op.rs\<close>, \<open>ops/operation.rs\<close>, \<open>ops/handles.rs\<close>): lookup,
    preflight, calls and streams over all of these.
  \<^item> \<open>Retry\<close> (\<open>retry.rs\<close>): the backoff loop. \<open>Ip_Address\<close> (the standard library's address parser and printer),
    \<open>Download_Guard\<close> (\<open>download_guard.rs\<close>), \<open>Download\<close> (\<open>download.rs\<close>): guarded downloads.
  \<^item> \<open>Transform_Stream\<close> (\<open>transform_stream.rs\<close>, the parts of \<open>stream_part.rs\<close>), \<open>Strict_Parts\<close>
    (\<open>stream/strict.rs\<close>), \<open>Tool_Arguments\<close> (\<open>stream/tool_call_arguments.rs\<close>), \<open>Tool_Calls\<close>
    (\<open>stream/mod.rs\<close>, \<open>stream/chat_tool_calls.rs\<close>): the provider's stream pipeline.
  \<^item> \<open>Json_Repair\<close> (\<open>json_repair.rs\<close>): the repair of cut JSON. \<open>Tool_Parsing\<close> (\<open>parse_tool_call.rs\<close>): parsing,
    validation and repair of tool calls. \<open>Output_Spec\<close> (\<open>output.rs\<close>): structured output.
  \<^item> \<open>Stream_Pump\<close> (\<open>timeout.rs\<close> and the pump of \<open>generate.rs\<close>), \<open>Text_Stream\<close> (the consumer of
    \<open>stream_in_operation\<close>), \<open>Response_Messages\<close> (\<open>response_messages.rs\<close>), \<open>Text_Result\<close> (\<open>consume\<close> and the
    generated path of \<open>generate.rs\<close>, \<open>step_result.rs\<close>), \<open>Answer_Streams\<close> (the two paths compared).
  \<^item> \<open>Message_Types\<close> (\<open>message.rs\<close>, \<open>content.rs\<close>, the messages of \<open>language_model_message.rs\<close>, the deep merge of
    \<open>shared.rs\<close>), \<open>Prompt_Conversion\<close> (the conversions of \<open>language_model_message.rs\<close>, planned downloads, the
    prompt of a call in \<open>generate.rs\<close>), \<open>Next_Turn\<close> (a step's messages as the next prompt).
  \<^item> \<open>Composite\<close> (\<open>composite.rs\<close>, \<open>router.rs\<close>, \<open>moa.rs\<close>): models made of models, over \<open>Retry\<close>.
  \<^item> \<open>Chat_Completions\<close> (\<open>openai_output.rs\<close>): completions and completion chunks; \<open>Chat_Reassembly\<close>: the tool
    calls a client puts together from the chunks.
  \<^item> \<open>Recording\<close> (the records, redaction and exchange merging of \<open>recording.rs\<close>), \<open>Ring_Recorder\<close> (its in-memory
    recorder), \<open>Outcome_Stream\<close> (its observer of streams); \<open>Sessions\<close> (\<open>session.rs\<close>): the session index, the
    inference of sessions and time texts.
  \<^item> The probe of \<open>src/aimux-core/src/trace\<close>: \<open>Trace_Fingerprint\<close> (\<open>hash.rs\<close>, \<open>fingerprint.rs\<close>), \<open>Trace_Index\<close> (the
    reverse index of \<open>store.rs\<close>), \<open>Trace_Verdict\<close> (\<open>verdict.rs\<close>), \<open>Trace_Store\<close> (\<open>record.rs\<close> and the store of records of
    \<open>store.rs\<close>), \<open>Trace_Layer\<close> (\<open>layer.rs\<close>): the prefixes that requests share, and the audit of claimed cache hits.
  Each Rust struct is a record, each enum a datatype, each function or handler a definition of the same name
  (or with a prefix that names its type); \<open>Result\<close> is a sum with the error on the left, a panic is a value of
  its own, 8- to 64-bit integers are words, instants are nanoseconds, and a task that may be interleaved is a
  step relation whose labels are the polls of the code.

  \<^bold>\<open>What is proved.\<close>
  \<^item> Concurrency: allocated handles are unique, stale and foreign handles never resolve, the queues keep their
    budgets exactly, deliver in order and report a terminal once; an operation enqueues audio in the order of
    admission, ends its input only after every push is settled, and a waiting push makes progress.
  \<^item> Dispatch: a handler runs only on targets and references its caller owns, dropping is final, and calls on
    an operation are steps of that operation (a refinement).
  \<^item> Streams: strict mode accepts exactly the well-formed answers, pulling item by item equals the batch
    transformer, tool-call fragments are reassembled into the announced calls, and the parts so made pass
    strict mode. The pump delivers the provider's items up to the terminal one and charges only the provider;
    the consumer frames every stream, enforces the tool choice and always ends; consuming a stream succeeds
    exactly when it finished without an error, with the reference assembly of its parts as content; and a
    streamed answer is the generated answer.
  \<^item> Prompts: a prompt is refused exactly when a client tool call is unanswered where answers are due; otherwise
    it holds every converted message in order, with tool messages combined; its URLs are ones the model fetches
    itself; provider options merge deeply. The messages of a finished step convert as the next prompt exactly
    when its client calls are answered.
  \<^item> Composites: a router answers with the first success in its order and calls nobody after it; a mixture's
    answer counts the tokens of all its members, and its stream is the aggregator's.
  \<^item> Chat Completions: a converted stream is one role chunk, content and one last finish chunk with one identity,
    and a client reassembles exactly the announced tool calls from it.
  \<^item> Observation: the recorder keeps its bounds under every interleaving of events, its recordings are sound, watching
    a stream makes exactly one outcome call and leaves the recording in the ring, and redaction marks exactly the
    values of credential keys. The session store refines an unbounded log of the last used sessions, and its dates
    are those of the Gregorian calendar.
  \<^item> Tracing: shared blocks of fingerprints follow the shared bytes of bodies; a lookup through the reverse index is a
    scan of the records in the ring, which stay within their bounds, while the index itself can grow without one; an
    honest report is never called an overclaim, and when a report is called one is characterised exactly; a probed
    stream leaves one record, and the steps of a session are its last records.
  \<^item> Values: the suggestion distance is the optimal string alignment distance, every cut of a JSON text is
    repaired into JSON, the argument tracker completes exactly on well-bracketed values, parsed tool calls are
    checked against their schema, host repair agrees with the hook, and exactly conforming texts are accepted
    as structured output.
  \<^item> Errors and bounds: the outcome of a retry loop as a function of its attempts, its budget and delays; a
    download only contacts public addresses, follows at most ten redirects and returns at most its maximum.

  \<^bold>\<open>Bounds and fuel.\<close> \<open>pull_all\<close> takes fuel: more than the length of the output is enough, and that it then
  ends is proved. \<open>recv_all\<close> drains the pump within 258 receives: 256 buffered items, the overflow error and
  the end. The redirect loop counts the code's own ten redirects. The retry loop recurses on the code's own
  budget. All other recursion is structural or has a termination proof.

  \<^bold>\<open>Arguments.\<close> What is not in the repository enters as an argument of the definitions: the JSON parser and
  writer and the derived readers of \<open>serde\<close>, the JSON Schema validator, the \<open>url\<close> crate, the resolver and the
  HTTP client, the base64 encoder, random numbers and clocks, the provider itself. So does the rounding of five
  percent in floating point in the verdicts of traces.

  \<^bold>\<open>Not modelled.\<close> The provider crates' request and response mappings, the transports (HTTP, SSE, WebSocket),
  the recorder's file writer and replay, the aggregate statistics of traces and the model catalogue, the other
  modalities (images, speech, video, embeddings), the C interface and the language bindings, and the web and
  command line tools: I/O, wire mappings of one vendor each, or generated tables. The text encodings that
  \<open>serde\<close> derives are not modelled. Floating-point rates of a step's performance are left out; the inputs they
  are computed from are kept.
\<close>

section \<open>Tool calls through strict mode\<close>

text \<open>
  C24. The two halves of a strict chat stream fit together. Whatever fragments a vendor sends, the parts
  the tool-call assembly emits pass the checks of strict mode: followed by a finish part that is no
  error, every part is delivered in order, the client calls right before the finish part.
\<close>

theorem chat_tool_calls_pass_strict_mode:
  assumes "handle = tool_delta generate_id \<or> handle = strict_delta generate_id"
    and "list_all fragment_ok deltas"
    and "feed handle deltas (new_tool_calls, new_controller) = (True, s, k)"
    and "unified r \<noteq> FinishError"
  shows "\<exists>out. queue (tool_finish s k) = map Inr out
     \<and> strict_output (map Inr out @ [Inr (Finish r u m)])
       = map Inr (filter (\<lambda>p. \<not> is_client_call p) out @ filter is_client_call out @ [Finish r u m])"
proof -
  obtain out where out: "queue (tool_finish s k) = map Inr out" "well_assembled out"
    using stream_reassembled [OF assms(1-3)] by blast
  then have "\<not> list_ex is_finish out" "lifecycle {} out" "no_late_input {} out"
    by (simp_all add: well_assembled_def)
  then show ?thesis
    using out(1) strict_output_complete [of out default_strict_parts r u m] assms(4)
    by (intro exI [of _ out]) (simp add: strict_output_from)
qed

theorem chat_tool_calls_pass_strict_mode_witness:
  "\<exists>out. queue (tool_finish \<lparr>calls = [demo_tool_call], generated = 0\<rparr> \<lparr>queue = map Inr demo_emitted, ctl_closed = False\<rparr>)
       = map Inr out
     \<and> strict_output (map Inr out @ [Inr (Finish \<lparr>unified = ToolCalls, fr_raw = None\<rparr> demo_usage None)])
       = map Inr (filter (\<lambda>p. \<not> is_client_call p) out @ filter is_client_call out
           @ [Finish \<lparr>unified = ToolCalls, fr_raw = None\<rparr> demo_usage None])"
  by (rule chat_tool_calls_pass_strict_mode [where generate_id = "\<lambda>_. ''g''", OF _ _ demo_feed])
     (simp_all add: demo_deltas_def fragment_ok_def char_boundary_def is_continuation_def)

end
